(* ===== verification/Snitch_Prelude.thy ===== *)
theory Snitch_Prelude
  imports "HOL-Library.Word" "HOL-Library.Signed_Division"
begin

text \<open>
  Shared vocabulary of the development: the machine integers of the RV32 cores, the C
  operations on them whose meaning is not that of the HOL operation of the same name, byte
  memories, and the generic facts the component theories use.

  \<^item> \<open>uint32_t\<close>, \<open>size_t\<close>, \<open>uintptr_t\<close> and pointers are \<open>32 word\<close>; \<open>uint64_t\<close> is
    \<open>64 word\<close>; a signed \<open>int32_t\<close> is the same \<open>32 word\<close> read with \<open>sint\<close>. All arithmetic wraps.
  \<^item> A byte memory maps 64-bit addresses to bytes.
  \<^item> The collection \<open>unat_arith_simps\<close> moves word equations to \<open>nat\<close> where no step overflows.
\<close>

unbundle bit_operations_syntax

subsection \<open>Types\<close>

type_synonym u8 = "8 word"
type_synonym u16 = "16 word"
type_synonym u32 = "32 word"
type_synonym u64 = "64 word"

type_synonym mem = "u64 \<Rightarrow> u8"

named_theorems unat_arith_simps

subsection \<open>C integer operations\<close>

text \<open>Signed division and remainder of C truncate towards zero (\<open>sdiv\<close>, \<open>smod\<close> on \<open>int\<close>).\<close>

definition sdiv32 :: "u32 \<Rightarrow> u32 \<Rightarrow> u32" where
  "sdiv32 a b = word_of_int (sint a sdiv sint b)"

definition smod32 :: "u32 \<Rightarrow> u32 \<Rightarrow> u32" where
  "smod32 a b = word_of_int (sint a smod sint b)"

text \<open>An \<open>int\<close> condition of C is the word 0 or 1.\<close>

abbreviation c_bool :: "bool \<Rightarrow> u32" where
  "c_bool b \<equiv> of_bool b"

subsection \<open>Words without overflow\<close>

lemma unat_add_no_ovf [unat_arith_simps]:
  fixes a b :: "'a::len word"
  assumes "unat a + unat b < 2 ^ LENGTH('a)"
  shows "unat (a + b) = unat a + unat b"
  using assms by (simp add: unat_word_ariths(1))

lemma unat_mult_no_ovf [unat_arith_simps]:
  fixes a b :: "'a::len word"
  assumes "unat a * unat b < 2 ^ LENGTH('a)"
  shows "unat (a * b) = unat a * unat b"
  using assms by (simp add: unat_word_ariths(2))

lemma unat_sub_no_ovf [unat_arith_simps]:
  fixes a b :: "'a::len word"
  assumes "unat b \<le> unat a"
  shows "unat (a - b) = unat a - unat b"
  using assms by (simp add: unat_sub word_le_nat_alt)

lemma unat_eqI: "unat a = unat b \<Longrightarrow> a = b"
  by (simp add: word_unat_eq_iff)

lemma unat_lt_pow32: "unat (a :: u32) < 4294967296"
  using unsigned_less [of a, where 'a = nat] by simp

lemma unat_lt_pow64: "unat (a :: u64) < 18446744073709551616"
  using unsigned_less [of a, where 'a = nat] by simp

lemma unat_ucast32_64 [simp]: "unat (ucast (a :: u32) :: u64) = unat a"
  by (simp add: unsigned_ucast_eq take_bit_nat_def order_less_trans [OF unat_lt_pow32])

lemma unat_ucast64_32: "unat (ucast (a :: u64) :: u32) = unat a mod 4294967296"
  by (simp add: unsigned_ucast_eq take_bit_nat_def)

lemma ucast_ucast64_32 [simp]: "ucast (ucast (a :: u32) :: u64) = a"
  by (rule unat_eqI) (simp add: unat_ucast64_32 unat_lt_pow32)

lemma bit_pow2_word [simp]: "bit (2 ^ n :: 'a::len word) m \<longleftrightarrow> m = n \<and> m < LENGTH('a)"
  by (auto simp: bit_exp_iff possible_bit_word)

subsection \<open>Words and naturals\<close>

lemma unat_of_nat_small: "n < 2 ^ LENGTH('a) \<Longrightarrow> unat (of_nat n :: 'a::len word) = n"
  by (simp add: unsigned_of_nat take_bit_nat_eq_self)

lemma of_nat_word_div: "m < 2 ^ LENGTH('a) \<Longrightarrow> n < 2 ^ LENGTH('a) \<Longrightarrow> of_nat m div of_nat n = (of_nat (m div n) :: 'a::len word)"
  and of_nat_word_mod: "m < 2 ^ LENGTH('a) \<Longrightarrow> n < 2 ^ LENGTH('a) \<Longrightarrow> of_nat m mod of_nat n = (of_nat (m mod n) :: 'a::len word)"
  by (simp_all add: word_unat_eq_iff unat_div unat_mod unat_of_nat_small
      div_le_dividend [THEN le_less_trans] mod_less_eq_dividend [THEN le_less_trans])

lemma unat_neg: "w \<noteq> 0 \<Longrightarrow> unat (- w :: 'a::len word) = 2 ^ LENGTH('a) - unat w"
proof -
  assume "w \<noteq> 0"
  then have p: "0 < unat w" by (simp add: unat_gt_0)
  have "unat w \<le> 2 ^ LENGTH('a)" by (rule less_imp_le [OF unsigned_less])
  then have e: "- w = of_nat (2 ^ LENGTH('a) - unat w)" by (simp add: of_nat_diff exp_eq_zero_iff)
  have "unat (of_nat (2 ^ LENGTH('a) - unat w) :: 'a word) = 2 ^ LENGTH('a) - unat w"
    using p by (intro unat_of_nat_small) simp
  then show ?thesis by (simp only: e)
qed

lemma unat_pow2: "n < 32 \<Longrightarrow> unat (2 ^ n :: u32) = 2 ^ n"
  using unat_of_nat_small [of "2 ^ n", where 'a = 32] power_strict_increasing [of n 32 "2 :: nat"] by simp

lemma sint32_of_int: "- 2147483648 \<le> k \<Longrightarrow> k < 2147483648 \<Longrightarrow> sint (word_of_int k :: u32) = k"
  by (simp add: signed_of_int signed_take_bit_int_eq_self)

lemma sint32_of_nat: "k < 2147483648 \<Longrightarrow> sint (of_nat k :: u32) = int k"
  using sint32_of_int [of "int k"] by simp

lemma sdiv32_small:
  assumes "unat a < 2 ^ 31" and "unat b < 2 ^ 31"
  shows "sdiv32 a b = a div b"
proof -
  have s: "sint x = int (unat x)" if "unat x < 2 ^ 31" for x :: u32
    using sint32_of_nat [of "unat x"] that by simp
  have "int m sdiv int n = int (m div n)" for m n :: nat
    by (cases "m = 0"; cases "n = 0") (simp_all add: signed_divide_int_def zdiv_int)
  then have "sint a sdiv sint b = int (unat (a div b))"
    using assms by (simp only: s unat_div)
  then show ?thesis by (simp add: sdiv32_def)
qed

text \<open>Rounding down to a multiple of a power of two.\<close>

lemma unat_and_not_mask:
  assumes "n < 32"
  shows "unat (x AND NOT (Bit_Operations.mask n) :: u32) = unat x div 2 ^ n * 2 ^ n"
proof -
  have e: "x AND NOT (Bit_Operations.mask n) = drop_bit n x * 2 ^ n"
    unfolding push_bit_eq_mult [symmetric] by (rule bit_word_eqI) (auto simp: bit_simps)
  have d: "unat (drop_bit n x) = unat x div 2 ^ n"
    using assms by (simp add: drop_bit_eq_div unat_div unat_pow2)
  have "unat x div 2 ^ n * 2 ^ n < 4294967296"
    using unat_lt_pow32 [of x] div_times_less_eq_dividend [of "unat x" "2 ^ n"] by linarith
  then show ?thesis using assms by (simp add: e unat_mult_no_ovf d unat_pow2)
qed

lemma unat_and_not_7: "unat (x AND NOT 7 :: u32) = unat x div 8 * 8"
proof -
  have "Bit_Operations.mask 3 = (7 :: u32)" by (simp add: mask_eq_exp_minus_1)
  then show ?thesis using unat_and_not_mask [of 3 x] by (simp only:) simp
qed

lemma unat_and_not_31: "unat (x AND NOT 31 :: u32) = unat x div 32 * 32"
proof -
  have "Bit_Operations.mask 5 = (31 :: u32)" by (simp add: mask_eq_exp_minus_1)
  then show ?thesis using unat_and_not_mask [of 5 x] by (simp only:) simp
qed

subsection \<open>Rounding up\<close>

lemma round_up_ge:
  fixes n k :: nat
  assumes "0 < k"
  shows "n \<le> ((n + k - 1) div k) * k"
proof -
  have "n + k - 1 = ((n + k - 1) div k) * k + (n + k - 1) mod k"
    by simp
  moreover have "(n + k - 1) mod k \<le> k - 1"
    using assms mod_less_divisor [of k "n + k - 1"] by linarith
  ultimately show ?thesis
    using assms by linarith
qed

lemma round_up_lt:
  fixes n k :: nat
  assumes "0 < k"
  shows "((n + k - 1) div k) * k < n + k"
proof -
  have "((n + k - 1) div k) * k \<le> n + k - 1"
    by (rule div_times_less_eq_dividend)
  then show ?thesis using assms by linarith
qed

lemma round_up_id:
  fixes n k :: nat
  assumes "0 < k" and "k dvd n"
  shows "((n + k - 1) div k) * k = n"
proof -
  obtain m where m: "n = k * m" using assms(2) by (rule dvdE)
  have "(n + k - 1) div k = m"
    using assms(1) by (intro div_nat_eqI) (auto simp: m algebra_simps)
  then show ?thesis by (simp add: m)
qed

subsection \<open>Blocks of memory\<close>

text \<open>A block is a start address and a length; two blocks are apart when neither reaches the other.\<close>

type_synonym block = "nat \<times> nat"

fun blocks_apart :: "block \<Rightarrow> block \<Rightarrow> bool" where
  "blocks_apart (p, n) (q, m) \<longleftrightarrow> p + n \<le> q \<or> q + m \<le> p"

fun block_within :: "nat \<Rightarrow> nat \<Rightarrow> block \<Rightarrow> bool" where
  "block_within lo hi (p, n) \<longleftrightarrow> lo \<le> p \<and> p + n \<le> hi"

lemma block_within_apart:
  "p + n \<le> lo \<Longrightarrow> block_within lo hi b \<Longrightarrow> blocks_apart (p, n) b"
  by (cases b) simp

lemma block_within_weaken:
  "block_within lo hi b \<Longrightarrow> lo' \<le> lo \<Longrightarrow> hi \<le> hi' \<Longrightarrow> block_within lo' hi' b"
  by (cases b) simp

subsection \<open>Loops over an index range\<close>

text \<open>
  \<open>for (i = lo; i < hi; i++) s = f(i, s)\<close> with an index that does not wrap is a fold over
  the list of indices.
\<close>

definition for_upto :: "nat \<Rightarrow> nat \<Rightarrow> (nat \<Rightarrow> 's \<Rightarrow> 's) \<Rightarrow> 's \<Rightarrow> 's" where
  "for_upto lo hi f s = fold f [lo..<hi] s"

lemma for_upto_empty [simp]: "hi \<le> lo \<Longrightarrow> for_upto lo hi f s = s"
  by (simp add: for_upto_def)

lemma for_upto_Suc: "lo \<le> hi \<Longrightarrow> for_upto lo (Suc hi) f s = f hi (for_upto lo hi f s)"
  by (simp add: for_upto_def)

lemma for_upto_first: "lo < hi \<Longrightarrow> for_upto lo hi f s = for_upto (Suc lo) hi f (f lo s)"
  by (simp add: for_upto_def upt_conv_Cons)

lemma for_upto_induct [consumes 1, case_names init step]:
  assumes "lo \<le> hi"
    and "P lo s"
    and "\<And>i t. lo \<le> i \<Longrightarrow> i < hi \<Longrightarrow> P i t \<Longrightarrow> P (Suc i) (f i t)"
  shows "P hi (for_upto lo hi f s)"
  using assms
proof (induction rule: dec_induct)
  case base
  then show ?case by simp
next
  case (step n)
  then show ?case by (simp add: for_upto_Suc)
qed

lemma for_upto_cong:
  assumes "\<And>i s. lo \<le> i \<Longrightarrow> i < hi \<Longrightarrow> f i s = g i s"
  shows "for_upto lo hi f = for_upto lo hi g"
proof (rule ext)
  fix s
  show "for_upto lo hi f s = for_upto lo hi g s"
    unfolding for_upto_def using assms by (intro fold_cong) auto
qed

lemma for_upto_append: "for_upto 0 (a + b) f s = for_upto 0 b (\<lambda>k. f (a + k)) (for_upto 0 a f s)"
  by (induction b) (simp_all add: for_upto_Suc)

text \<open>A row of memory written element by element.\<close>

lemma row_loop: "for_upto 0 n (\<lambda>j d. d(p + j := v j)) d x = (if p \<le> x \<and> x < p + n then v (x - p) else d x)"
  by (induction n) (auto simp: for_upto_Suc)

text \<open>Positions in a row-major array.\<close>

lemma div_mod_position:
  fixes m n ldc :: nat
  assumes "n < ldc"
  shows "(m * ldc + n) div ldc = m" and "(m * ldc + n) mod ldc = n"
  using assms by simp_all

lemma minus_rows:
  fixes x o' ld :: nat
  assumes "0 < ld"
  shows "o' * ld \<le> x \<longleftrightarrow> o' \<le> x div ld"
    and "o' \<le> x div ld \<Longrightarrow> (x - o' * ld) div ld = x div ld - o'"
    and "o' \<le> x div ld \<Longrightarrow> (x - o' * ld) mod ld = x mod ld"
proof -
  show le: "o' * ld \<le> x \<longleftrightarrow> o' \<le> x div ld" using assms by (simp add: less_eq_div_iff_mult_less_eq)
  assume "o' \<le> x div ld"
  then have le: "o' * ld \<le> x" using le by simp
  define y where "y = x - o' * ld"
  have "x = y + o' * ld" using le by (simp add: y_def)
  then show "(x - o' * ld) div ld = x div ld - o'" "(x - o' * ld) mod ld = x mod ld" using assms by simp_all
qed

end
