(* ===== verification/Team.thy ===== *)
theory Team
  imports Snitch_Prelude
begin

text \<open>
  Team management (\<open>sw/runtime/src/team.h\<close>) and the memory map of the clusters
  (\<open>sw/runtime/impl/snitch_cluster_memory.h\<close>). The constants of the generated header
  \<open>snitch_cluster_cfg.h\<close> (see \<open>snitch_cluster_cfg.h.tpl\<close>) are the fields of a configuration
  record, an argument of every definition; \<open>mhartid\<close> is the argument \<open>h\<close>.
\<close>

subsection \<open>Configuration constants\<close>

record snrt_cfg =
  BASE_HARTID :: u32
  CLUSTER_CORE_NUM :: u32
  CLUSTER_NUM :: u32
  CLUSTER_DM_CORE_NUM :: u32
  TCDM_BANK_WIDTH :: u32
  TCDM_HYPERBANK_WIDTH :: u32
  TCDM_START_ADDR :: u32
  TCDM_SIZE :: u32
  CLUSTER_OFFSET :: u32
  L3_END_ADDR :: u64
  COLLECTIVE_OPCODE_WIDTH :: nat
  LOG2_STACK_SIZE :: nat
  SUPPORTS_DMA :: bool
  SUPPORTS_NARROW_MULTICAST :: bool
  SUPPORTS_NARROW_REDUCTION :: bool

text \<open>A sample configuration: two clusters of eight compute cores and one data mover.\<close>

definition sample_cfg :: snrt_cfg where
  "sample_cfg = \<lparr>BASE_HARTID = 16, CLUSTER_CORE_NUM = 9, CLUSTER_NUM = 2, CLUSTER_DM_CORE_NUM = 1,
     TCDM_BANK_WIDTH = 8, TCDM_HYPERBANK_WIDTH = 256, TCDM_START_ADDR = 0x10000000,
     TCDM_SIZE = 0x20000, CLUSTER_OFFSET = 0x40000, L3_END_ADDR = 0x100000000,
     COLLECTIVE_OPCODE_WIDTH = 4, LOG2_STACK_SIZE = 10, SUPPORTS_DMA = True,
     SUPPORTS_NARROW_MULTICAST = False, SUPPORTS_NARROW_REDUCTION = False\<rparr>"

subsection \<open>Team functions\<close>

definition snrt_cluster_num :: "snrt_cfg \<Rightarrow> u32" where
  "snrt_cluster_num c = CLUSTER_NUM c"

definition snrt_cluster_core_num :: "snrt_cfg \<Rightarrow> u32" where
  "snrt_cluster_core_num c = CLUSTER_CORE_NUM c"

definition snrt_global_core_base_hartid :: "snrt_cfg \<Rightarrow> u32" where
  "snrt_global_core_base_hartid c = BASE_HARTID c"

definition snrt_cluster_dm_core_num :: "snrt_cfg \<Rightarrow> u32" where
  "snrt_cluster_dm_core_num c = CLUSTER_DM_CORE_NUM c"

definition snrt_cluster_compute_core_num :: "snrt_cfg \<Rightarrow> u32" where
  "snrt_cluster_compute_core_num c = snrt_cluster_core_num c - snrt_cluster_dm_core_num c"

definition snrt_global_core_num :: "snrt_cfg \<Rightarrow> u32" where
  "snrt_global_core_num c = snrt_cluster_num c * snrt_cluster_core_num c"

definition snrt_global_compute_core_num :: "snrt_cfg \<Rightarrow> u32" where
  "snrt_global_compute_core_num c = snrt_cluster_num c * snrt_cluster_compute_core_num c"

definition snrt_global_core_idx :: "snrt_cfg \<Rightarrow> u32 \<Rightarrow> u32" where
  "snrt_global_core_idx c h = h - snrt_global_core_base_hartid c"

definition snrt_cluster_idx :: "snrt_cfg \<Rightarrow> u32 \<Rightarrow> u32" where
  "snrt_cluster_idx c h = snrt_global_core_idx c h div snrt_cluster_core_num c"

definition snrt_cluster_core_idx :: "snrt_cfg \<Rightarrow> u32 \<Rightarrow> u32" where
  "snrt_cluster_core_idx c h = snrt_global_core_idx c h mod snrt_cluster_core_num c"

definition snrt_global_compute_core_idx :: "snrt_cfg \<Rightarrow> u32 \<Rightarrow> u32" where
  "snrt_global_compute_core_idx c h =
     snrt_cluster_idx c h * snrt_cluster_compute_core_num c + snrt_cluster_core_idx c h"

definition snrt_is_compute_core :: "snrt_cfg \<Rightarrow> u32 \<Rightarrow> bool" where
  "snrt_is_compute_core c h \<longleftrightarrow> snrt_cluster_core_idx c h < snrt_cluster_compute_core_num c"

definition snrt_cluster_is_last_compute_core :: "snrt_cfg \<Rightarrow> u32 \<Rightarrow> bool" where
  "snrt_cluster_is_last_compute_core c h \<longleftrightarrow>
     snrt_cluster_core_idx c h = snrt_cluster_compute_core_num c - 1"

definition snrt_is_dm_core :: "snrt_cfg \<Rightarrow> u32 \<Rightarrow> bool" where
  "snrt_is_dm_core c h \<longleftrightarrow> \<not> snrt_is_compute_core c h"

subsection \<open>Cluster address map\<close>

text \<open>
  \<open>&(snitch_cluster_addrmap.cluster) + idx\<close>: the cluster structures are an array of stride
  \<open>CLUSTER_OFFSET\<close> whose first field is the TCDM.
\<close>

definition snrt_cluster_addr :: "snrt_cfg \<Rightarrow> u32 \<Rightarrow> u32" where
  "snrt_cluster_addr c idx = TCDM_START_ADDR c + idx * CLUSTER_OFFSET c"

definition snrt_cluster_self :: "snrt_cfg \<Rightarrow> u32 \<Rightarrow> u32" where
  "snrt_cluster_self c h = snrt_cluster_addr c (snrt_cluster_idx c h)"

lemmas team_defs = snrt_cluster_num_def snrt_cluster_core_num_def snrt_global_core_base_hartid_def
  snrt_cluster_dm_core_num_def snrt_cluster_compute_core_num_def snrt_global_core_num_def
  snrt_global_compute_core_num_def snrt_global_core_idx_def snrt_cluster_idx_def
  snrt_cluster_core_idx_def snrt_global_compute_core_idx_def snrt_is_compute_core_def
  snrt_cluster_is_last_compute_core_def snrt_is_dm_core_def

subsection \<open>Well-formed configurations and harts\<close>

text \<open>
  The generator produces at least one cluster, at least one compute core beside the data
  movers, and hart identifiers that fit 32 bits.
\<close>

definition cfg_ok :: "snrt_cfg \<Rightarrow> bool" where
  "cfg_ok c \<longleftrightarrow> 0 < CLUSTER_NUM c \<and> 0 < CLUSTER_DM_CORE_NUM c
     \<and> CLUSTER_DM_CORE_NUM c < CLUSTER_CORE_NUM c
     \<and> unat (BASE_HARTID c) + unat (CLUSTER_NUM c) * unat (CLUSTER_CORE_NUM c) < 2 ^ 32"

text \<open>The hart of core \<open>co\<close> of cluster \<open>cl\<close>: the inverse of the two index functions.\<close>

definition hart_of :: "snrt_cfg \<Rightarrow> nat \<Rightarrow> nat \<Rightarrow> u32" where
  "hart_of c cl co = BASE_HARTID c + of_nat (cl * unat (CLUSTER_CORE_NUM c) + co)"

definition valid_core :: "snrt_cfg \<Rightarrow> nat \<Rightarrow> nat \<Rightarrow> bool" where
  "valid_core c cl co \<longleftrightarrow> cl < unat (CLUSTER_NUM c) \<and> co < unat (CLUSTER_CORE_NUM c)"

lemma core_offset_bound:
  assumes "valid_core c cl co"
  shows "cl * unat (CLUSTER_CORE_NUM c) + co < unat (CLUSTER_NUM c) * unat (CLUSTER_CORE_NUM c)"
proof -
  have "cl * unat (CLUSTER_CORE_NUM c) + co < Suc cl * unat (CLUSTER_CORE_NUM c)"
    using assms by (simp add: valid_core_def)
  also have "\<dots> \<le> unat (CLUSTER_NUM c) * unat (CLUSTER_CORE_NUM c)"
    using assms by (intro mult_le_mono1) (simp add: valid_core_def)
  finally show ?thesis .
qed

lemma global_core_idx_hart_of:
  assumes "cfg_ok c" and "valid_core c cl co"
  shows "unat (snrt_global_core_idx c (hart_of c cl co)) = cl * unat (CLUSTER_CORE_NUM c) + co"
proof -
  have "cl * unat (CLUSTER_CORE_NUM c) + co < 2 ^ 32"
    using core_offset_bound [OF assms(2)] assms(1) by (simp add: cfg_ok_def)
  then show ?thesis
    by (simp add: snrt_global_core_idx_def snrt_global_core_base_hartid_def hart_of_def
        unat_of_nat take_bit_nat_eq_self unsigned_of_nat del: of_nat_add of_nat_mult)
qed

lemma cluster_idx_hart_of:
  assumes "cfg_ok c" and "valid_core c cl co"
  shows "unat (snrt_cluster_idx c (hart_of c cl co)) = cl"
  using assms
  by (simp add: snrt_cluster_idx_def unat_div global_core_idx_hart_of snrt_cluster_core_num_def
      valid_core_def)

lemma cluster_core_idx_hart_of:
  assumes "cfg_ok c" and "valid_core c cl co"
  shows "unat (snrt_cluster_core_idx c (hart_of c cl co)) = co"
  using assms
  by (simp add: snrt_cluster_core_idx_def unat_mod global_core_idx_hart_of
      snrt_cluster_core_num_def valid_core_def)

lemma compute_core_num_unat:
  assumes "cfg_ok c"
  shows "unat (snrt_cluster_compute_core_num c)
    = unat (CLUSTER_CORE_NUM c) - unat (CLUSTER_DM_CORE_NUM c)"
  using assms
  by (simp add: snrt_cluster_compute_core_num_def snrt_cluster_core_num_def
      snrt_cluster_dm_core_num_def cfg_ok_def unat_sub order_less_imp_le)

lemma compute_core_num_pos: "cfg_ok c \<Longrightarrow> 0 < unat (snrt_cluster_compute_core_num c)"
  by (simp add: compute_core_num_unat) (simp add: cfg_ok_def word_less_nat_alt)

lemma is_dm_core_hart_of:
  assumes "cfg_ok c" and "valid_core c cl co"
  shows "snrt_is_dm_core c (hart_of c cl co)
    \<longleftrightarrow> unat (CLUSTER_CORE_NUM c) - unat (CLUSTER_DM_CORE_NUM c) \<le> co"
  using assms
  by (simp add: snrt_is_dm_core_def snrt_is_compute_core_def word_less_nat_alt
      cluster_core_idx_hart_of compute_core_num_unat linorder_not_less)

lemma global_core_idx_split:
  "unat (snrt_global_core_idx c h)
     = unat (snrt_cluster_idx c h) * unat (snrt_cluster_core_num c) + unat (snrt_cluster_core_idx c h)"
  by (simp add: snrt_cluster_idx_def snrt_cluster_core_idx_def unat_div unat_mod)

lemma cfg_ok_sample: "cfg_ok sample_cfg"
  by (simp add: cfg_ok_def sample_cfg_def)

lemma valid_core_sample: "cl < 2 \<Longrightarrow> co < 9 \<Longrightarrow> valid_core sample_cfg cl co"
  by (simp add: valid_core_def sample_cfg_def)

end
