(* ===== verification/Riscv.thy ===== *)
theory Riscv
  imports Team
begin

text \<open>
  The hart-local primitives (\<open>sw/runtime/src/riscv.h\<close>) and the cluster interrupt registers
  (\<open>sw/runtime/src/cluster_interrupts.h\<close>, \<open>sw/runtime/src/global_interrupts.h\<close>,
  \<open>sw/runtime/impl/snitch_cluster_global_interrupts.h\<close>).

  The instructions with an effect outside the calling function's variables are events, and a
  function that only issues such instructions is the list of its events in program order. The
  interrupt registers of a cluster are the pending bits of its cores: a write to
  \<open>cl_clint_set\<close> sets the bits of the mask, a write to \<open>cl_clint_clear\<close> clears them.
\<close>

subsection \<open>Events\<close>

datatype hw_event =
    Ev_barrier                 \<comment> \<open>\<open>csrr x0, barrier\<close>\<close>
  | Ev_fence                   \<comment> \<open>\<open>fence\<close>\<close>
  | Ev_fpu_fence               \<comment> \<open>\<open>fmv.x.w; mv\<close>\<close>
  | Ev_wfi                     \<comment> \<open>\<open>wfi\<close>\<close>
  | Ev_mie_set u32             \<comment> \<open>\<open>csrs mie\<close>\<close>
  | Ev_mie_clear u32           \<comment> \<open>\<open>csrc mie\<close>\<close>
  | Ev_mstatus_set u32
  | Ev_mstatus_clear u32
  | Ev_clint_set u32 u64       \<comment> \<open>cluster index, value written to \<open>cl_clint_set\<close>\<close>
  | Ev_clint_clear u32 u32     \<comment> \<open>cluster index, value written to \<open>cl_clint_clear\<close>\<close>
  | Ev_user_low u32            \<comment> \<open>CSR \<open>user_low\<close>\<close>
  | Ev_user_high u32           \<comment> \<open>CSR \<open>user_high\<close>\<close>
  | Ev_store32 u32 u32         \<comment> \<open>address, value\<close>
  | Ev_amoadd u32 u32          \<comment> \<open>address, addend\<close>

definition MSTATUS_MIE :: u32 where
  "MSTATUS_MIE = 8"

definition IRQ_M_SOFT :: nat where
  "IRQ_M_SOFT = 3"

definition snrt_wfi :: "hw_event list" where
  "snrt_wfi = [Ev_wfi]"

definition snrt_fence :: "hw_event list" where
  "snrt_fence = [Ev_fence]"

definition snrt_interrupt_enable :: "nat \<Rightarrow> hw_event list" where
  "snrt_interrupt_enable irq = [Ev_mie_set (push_bit irq 1)]"

definition snrt_interrupt_disable :: "nat \<Rightarrow> hw_event list" where
  "snrt_interrupt_disable irq = [Ev_mie_clear (push_bit irq 1)]"

definition snrt_interrupt_global_enable :: "hw_event list" where
  "snrt_interrupt_global_enable = [Ev_mstatus_set MSTATUS_MIE]"

definition snrt_interrupt_global_disable :: "hw_event list" where
  "snrt_interrupt_global_disable = [Ev_mstatus_clear MSTATUS_MIE]"

subsection \<open>Cluster interrupts\<close>

text \<open>\<open>1 << x\<close> on a 32-bit \<open>x\<close>; the code uses it with core indices only.\<close>

definition bit_of :: "u32 \<Rightarrow> u32" where
  "bit_of x = push_bit (unat x) 1"

definition snrt_int_cluster_set_of :: "u32 \<Rightarrow> u32 \<Rightarrow> hw_event list" where
  "snrt_int_cluster_set_of msk cluster_idx = [Ev_clint_set cluster_idx (ucast msk)]"

definition snrt_int_cluster_set :: "snrt_cfg \<Rightarrow> u32 \<Rightarrow> u32 \<Rightarrow> hw_event list" where
  "snrt_int_cluster_set c h msk = snrt_int_cluster_set_of msk (snrt_cluster_idx c h)"

definition snrt_int_cluster_clr :: "snrt_cfg \<Rightarrow> u32 \<Rightarrow> u32 \<Rightarrow> hw_event list" where
  "snrt_int_cluster_clr c h msk = [Ev_clint_clear (snrt_cluster_idx c h) msk]"

definition snrt_int_clr_mcip_unsafe :: "snrt_cfg \<Rightarrow> u32 \<Rightarrow> hw_event list" where
  "snrt_int_clr_mcip_unsafe c h = snrt_int_cluster_clr c h (bit_of (snrt_cluster_core_idx c h))"

definition snrt_int_clr_mcip :: "snrt_cfg \<Rightarrow> u32 \<Rightarrow> hw_event list" where
  "snrt_int_clr_mcip c h = snrt_int_clr_mcip_unsafe c h @ snrt_fence"

definition snrt_int_set_mcip :: "snrt_cfg \<Rightarrow> u32 \<Rightarrow> hw_event list" where
  "snrt_int_set_mcip c h = snrt_int_cluster_set c h (bit_of (snrt_cluster_core_idx c h))"

text \<open>The single-cluster implementation of the software interrupts.\<close>

definition snrt_int_sw_clear_cl :: "snrt_cfg \<Rightarrow> u32 \<Rightarrow> u32 \<Rightarrow> hw_event list" where
  "snrt_int_sw_clear_cl c h hartid = snrt_int_cluster_clr c h (bit_of hartid)"

definition snrt_int_sw_set_cl :: "snrt_cfg \<Rightarrow> u32 \<Rightarrow> u32 \<Rightarrow> hw_event list" where
  "snrt_int_sw_set_cl c h hartid = snrt_int_cluster_set c h (bit_of hartid)"

subsection \<open>Effect of the interrupt events on the pending bits\<close>

type_synonym pending = "u32 \<Rightarrow> u32"

fun clint_effect :: "hw_event \<Rightarrow> pending \<Rightarrow> pending" where
  "clint_effect (Ev_clint_set cl m) p = p(cl := p cl OR ucast m)"
| "clint_effect (Ev_clint_clear cl m) p = p(cl := p cl AND NOT m)"
| "clint_effect _ p = p"

definition clint_run :: "hw_event list \<Rightarrow> pending \<Rightarrow> pending" where
  "clint_run es p = fold clint_effect es p"

text \<open>Core \<open>co\<close> of cluster \<open>cl\<close> has its cluster interrupt pending.\<close>

definition mcip :: "pending \<Rightarrow> u32 \<Rightarrow> nat \<Rightarrow> bool" where
  "mcip p cl co = bit (p cl) co"

lemma clint_run_Nil [simp]: "clint_run [] p = p"
  by (simp add: clint_run_def)

lemma clint_run_Cons [simp]: "clint_run (e # es) p = clint_run es (clint_effect e p)"
  by (simp add: clint_run_def)

lemma clint_run_append: "clint_run (es @ fs) p = clint_run fs (clint_run es p)"
  by (simp add: clint_run_def)

lemma bit_bit_of: "bit (bit_of x) n \<longleftrightarrow> n = unat x \<and> n < 32"
  by (simp add: bit_of_def)

subsection \<open>The global CLINT\<close>

text \<open>
  The software interrupt bits of the shared CLINT (\<open>global_interrupts.h\<close>): one bit per hart,
  32 harts per register. The register is read and written under the CLINT mutex, so one call
  is one transition; \<open>snrt_clint_msip_ptr\<close> (not in the repository) is the parameter
  \<open>msip\<close>, the register that holds the hart's bit.
\<close>

definition snrt_int_sw_clear :: "(u32 \<Rightarrow> u32) \<Rightarrow> u32 \<Rightarrow> (u32 \<Rightarrow> u32) \<Rightarrow> (u32 \<Rightarrow> u32)" where
  "snrt_int_sw_clear msip hartid regs =
     regs(msip hartid := regs (msip hartid) AND NOT (push_bit (unat (hartid AND 0x1f)) 1))"

definition snrt_int_sw_set :: "(u32 \<Rightarrow> u32) \<Rightarrow> u32 \<Rightarrow> (u32 \<Rightarrow> u32) \<Rightarrow> (u32 \<Rightarrow> u32)" where
  "snrt_int_sw_set msip hartid regs =
     regs(msip hartid := regs (msip hartid) OR (push_bit (unat (hartid AND 0x1f)) 1))"

definition snrt_int_sw_get :: "(u32 \<Rightarrow> u32) \<Rightarrow> u32 \<Rightarrow> (u32 \<Rightarrow> u32) \<Rightarrow> u32" where
  "snrt_int_sw_get msip hartid regs = drop_bit (unat (hartid AND 0x1f)) (regs (msip hartid))"

lemma sw_index_lt: "unat (hartid AND 0x1f :: u32) < 32"
proof -
  have "hartid AND 0x1f \<le> (0x1f :: u32)" by (rule word_and_le1)
  then have "unat (hartid AND 0x1f) \<le> unat (0x1f :: u32)" by (simp add: word_le_nat_alt)
  then show ?thesis by simp
qed

lemma sw_get_bit0: "bit (snrt_int_sw_get msip h regs) 0 = bit (regs (msip h)) (unat (h AND 0x1f))"
  by (simp add: snrt_int_sw_get_def bit_drop_bit_eq)

lemma sw_get_after_set: "bit (snrt_int_sw_get msip h (snrt_int_sw_set msip h regs)) 0"
  using sw_index_lt [of h]
  by (simp add: sw_get_bit0 snrt_int_sw_set_def bit_or_iff)

lemma sw_get_after_clear: "\<not> bit (snrt_int_sw_get msip h (snrt_int_sw_clear msip h regs)) 0"
  using sw_index_lt [of h]
  by (simp add: sw_get_bit0 snrt_int_sw_clear_def bit_and_iff bit_not_iff)

text \<open>
  The comment of \<open>snrt_int_sw_get\<close> promises 0 or 1; the shifted register is returned unmasked,
  so a pending interrupt of a higher hart of the same register shows in the result.
\<close>

lemma sw_get_not_boolean:
  "snrt_int_sw_get (\<lambda>_. 0) 0 (snrt_int_sw_set (\<lambda>_. 0) 1 (\<lambda>_. 0)) = 2"
  by (simp add: snrt_int_sw_get_def snrt_int_sw_set_def)

subsection \<open>Linker symbols\<close>

record linker =
  cdata_start :: u32
  cdata_end :: u32
  cbss_start :: u32
  cbss_end :: u32
  tdata_start :: u32
  tdata_end :: u32
  tbss_start :: u32
  tbss_end :: u32
  bss_start :: u32
  bss_end :: u32
  edram :: u32

text \<open>\<open>snrt_cls_base_addr\<close> of \<open>start.h\<close>: the cluster-local storage is at the end of the TCDM.\<close>

definition snrt_cls_base_addr :: "snrt_cfg \<Rightarrow> linker \<Rightarrow> u32 \<Rightarrow> u32" where
  "snrt_cls_base_addr c lk h =
     (let cdata_size = cdata_end lk - cdata_start lk;
          cbss_size = cbss_end lk - cbss_start lk;
          l1_end_addr = TCDM_START_ADDR c + snrt_cluster_idx c h * CLUSTER_OFFSET c + TCDM_SIZE c
      in l1_end_addr - cdata_size - cbss_size)"

end
