(* ===== verification/Mutex.thy ===== *)
theory Mutex
  imports Riscv
begin

text \<open>
  The mutex of \<open>sw/runtime/src/sync.h\<close>: \<open>snrt_mutex_acquire\<close> (test-and-set),
  \<open>snrt_mutex_ttas_acquire\<close> (test and test-and-set) and \<open>snrt_mutex_release\<close>, as a step relation
  over the mutex word and the program counters and \<open>t0\<close> registers of any number of harts. A step
  is one access to the mutex word or one branch, so the steps of the harts interleave freely.

  The locale \<open>ownership\<close> is the discipline a lock follows; mutual exclusion is proved in it.
\<close>

subsection \<open>Reachability\<close>

inductive reachable :: "('s \<Rightarrow> 's \<Rightarrow> bool) \<Rightarrow> ('s \<Rightarrow> bool) \<Rightarrow> 's \<Rightarrow> bool"
  for step :: "'s \<Rightarrow> 's \<Rightarrow> bool" and start :: "'s \<Rightarrow> bool" where
  reach_start: "start s \<Longrightarrow> reachable step start s"
| reach_step: "reachable step start s \<Longrightarrow> step s t \<Longrightarrow> reachable step start t"

lemma reachable_invariant:
  assumes "reachable step start s"
    and "\<And>s. start s \<Longrightarrow> I s"
    and "\<And>s t. I s \<Longrightarrow> step s t \<Longrightarrow> I t"
  shows "I s"
  using assms(1) by induction (use assms(2,3) in blast)+

subsection \<open>Ownership\<close>

text \<open>
  \<open>owns s h\<close>: process \<open>h\<close> owns the lock; \<open>free s\<close>: nobody does. A step either keeps the owners
  (and \<open>free\<close>), or lets a single process in when the lock is free, or lets the owner go.
\<close>

locale ownership =
  fixes step :: "'s \<Rightarrow> 's \<Rightarrow> bool"
    and start :: "'s \<Rightarrow> bool"
    and owns :: "'s \<Rightarrow> 'p \<Rightarrow> bool"
    and free :: "'s \<Rightarrow> bool"
    and inv :: "'s \<Rightarrow> bool"
  assumes start_inv: "start s \<Longrightarrow> inv s"
    and start_free: "start s \<Longrightarrow> free s \<and> (\<forall>h. \<not> owns s h)"
    and step_inv: "inv s \<Longrightarrow> step s t \<Longrightarrow> inv t"
    and step_owner: "inv s \<Longrightarrow> step s t \<Longrightarrow>
      (owns t = owns s \<and> free t = free s)
      \<or> (free s \<and> \<not> free t \<and> (\<exists>h. owns t = (owns s)(h := True)))
      \<or> (free t \<and> (\<exists>h. owns s h \<and> owns t = (owns s)(h := False)))"
begin

lemma owner_unique_step:
  assumes "inv s" and "step s t"
    and free: "free s \<longleftrightarrow> (\<forall>h. \<not> owns s h)"
    and uniq: "\<And>h h'. owns s h \<Longrightarrow> owns s h' \<Longrightarrow> h = h'"
  shows "free t \<longleftrightarrow> (\<forall>h. \<not> owns t h)" and "owns t h \<Longrightarrow> owns t h' \<Longrightarrow> h = h'"
proof -
  have "(free t \<longleftrightarrow> (\<forall>h. \<not> owns t h)) \<and> (owns t h \<longrightarrow> owns t h' \<longrightarrow> h = h')"
    using step_owner [OF assms(1,2)]
  proof (elim disjE conjE exE)
    assume "owns t = owns s" "free t = free s"
    then show ?thesis using free uniq by simp
  next
    fix k
    assume k: "free s" "\<not> free t" "owns t = (owns s)(k := True)"
    then have n: "\<not> owns s x" for x using free by simp
    show ?thesis using k(2) by (simp add: k(3) n)
  next
    fix k
    assume k: "free t" "owns s k" "owns t = (owns s)(k := False)"
    have "\<not> owns t x" for x
    proof
      assume o: "owns t x"
      then have "x \<noteq> k" "owns s x" using k(3) by (auto split: if_splits)
      then show False using uniq [OF k(2)] by blast
    qed
    with k(1) show ?thesis by simp
  qed
  then show "free t \<longleftrightarrow> (\<forall>h. \<not> owns t h)" and "owns t h \<Longrightarrow> owns t h' \<Longrightarrow> h = h'"
    by simp_all
qed

lemma owner_unique:
  assumes "reachable step start s"
  shows "inv s \<and> (free s \<longleftrightarrow> (\<forall>h. \<not> owns s h)) \<and> (\<forall>h h'. owns s h \<longrightarrow> owns s h' \<longrightarrow> h = h')"
  using assms
proof induction
  case (reach_start s)
  with start_inv [OF this] start_free [OF this] show ?case by simp
next
  case (reach_step s t)
  then have s: "inv s" "free s \<longleftrightarrow> (\<forall>h. \<not> owns s h)" "\<And>h h'. owns s h \<Longrightarrow> owns s h' \<Longrightarrow> h = h'"
    by simp_all
  from step_inv [OF s(1) reach_step.hyps(2)] owner_unique_step [OF s(1) reach_step.hyps(2) s(2,3)]
  show ?case by simp
qed

end

subsection \<open>Mutex\<close>

text \<open>
  \<open>Mx_test\<close>: before the \<open>lw\<close> and \<open>bnez\<close> of the TTAS variant; \<open>Mx_swap\<close>: before \<open>amoswap.w.aq\<close>;
  \<open>Mx_branch\<close>: before the \<open>bnez\<close> that retries; \<open>Mx_held\<close>: the acquire has returned.
\<close>

datatype mutex_pc = Mx_idle | Mx_test | Mx_swap | Mx_branch | Mx_held

record 'h mutex_state =
  mx_word :: u32
  mx_pc :: "'h \<Rightarrow> mutex_pc"
  mx_t0 :: "'h \<Rightarrow> u32"

inductive mutex_step :: "'h mutex_state \<Rightarrow> 'h mutex_state \<Rightarrow> bool" where
  acquire: "mx_pc s h = Mx_idle \<Longrightarrow>
    mutex_step s (s\<lparr>mx_pc := (mx_pc s)(h := Mx_swap), mx_t0 := (mx_t0 s)(h := 1)\<rparr>)"
| ttas_acquire: "mx_pc s h = Mx_idle \<Longrightarrow> mutex_step s (s\<lparr>mx_pc := (mx_pc s)(h := Mx_test)\<rparr>)"
| test_busy: "mx_pc s h = Mx_test \<Longrightarrow> mx_word s \<noteq> 0 \<Longrightarrow>
    mutex_step s (s\<lparr>mx_t0 := (mx_t0 s)(h := mx_word s)\<rparr>)"
| test_free: "mx_pc s h = Mx_test \<Longrightarrow> mx_word s = 0 \<Longrightarrow>
    mutex_step s (s\<lparr>mx_pc := (mx_pc s)(h := Mx_swap), mx_t0 := (mx_t0 s)(h := 1)\<rparr>)"
| swap: "mx_pc s h = Mx_swap \<Longrightarrow>
    mutex_step s (s\<lparr>mx_word := mx_t0 s h, mx_t0 := (mx_t0 s)(h := mx_word s),
      mx_pc := (mx_pc s)(h := Mx_branch)\<rparr>)"
| retry: "mx_pc s h = Mx_branch \<Longrightarrow> mx_t0 s h \<noteq> 0 \<Longrightarrow>
    mutex_step s (s\<lparr>mx_pc := (mx_pc s)(h := Mx_swap)\<rparr>)"
| enter: "mx_pc s h = Mx_branch \<Longrightarrow> mx_t0 s h = 0 \<Longrightarrow>
    mutex_step s (s\<lparr>mx_pc := (mx_pc s)(h := Mx_held)\<rparr>)"
| release: "mx_pc s h = Mx_held \<Longrightarrow>
    mutex_step s (s\<lparr>mx_word := 0, mx_pc := (mx_pc s)(h := Mx_idle)\<rparr>)"

inductive_cases mutex_stepE: "mutex_step s t"

definition mutex_start :: "'h mutex_state \<Rightarrow> bool" where
  "mutex_start s \<longleftrightarrow> mx_word s = 0 \<and> (\<forall>h. mx_pc s h = Mx_idle)"

text \<open>A hart owns the mutex from the swap that returned 0 to the release.\<close>

definition mx_owns :: "'h mutex_state \<Rightarrow> 'h \<Rightarrow> bool" where
  "mx_owns s h \<longleftrightarrow> mx_pc s h = Mx_held \<or> (mx_pc s h = Mx_branch \<and> mx_t0 s h = 0)"

text \<open>A hart before the swap is about to store a value other than 0.\<close>

definition mx_inv :: "'h mutex_state \<Rightarrow> bool" where
  "mx_inv s \<longleftrightarrow> (\<forall>h. mx_pc s h = Mx_swap \<longrightarrow> mx_t0 s h \<noteq> 0)"

lemma mutex_step_inv: "mx_inv s \<Longrightarrow> mutex_step s t \<Longrightarrow> mx_inv t"
  by (erule mutex_stepE) (auto simp: mx_inv_def)

lemma mutex_step_owner:
  assumes "mx_inv s" and "mutex_step s t"
  shows "(mx_owns t = mx_owns s \<and> (mx_word t = 0) = (mx_word s = 0))
      \<or> (mx_word s = 0 \<and> mx_word t \<noteq> 0 \<and> (\<exists>h. mx_owns t = (mx_owns s)(h := True)))
      \<or> (mx_word t = 0 \<and> (\<exists>h. mx_owns s h \<and> mx_owns t = (mx_owns s)(h := False)))"
  using assms(2)
proof cases
  case (swap h)
  then have t0: "mx_t0 s h \<noteq> 0" using assms(1) by (simp add: mx_inv_def)
  show ?thesis
  proof (cases "mx_word s = 0")
    case True
    then have "mx_owns t = (mx_owns s)(h := True)" using swap by (auto simp: mx_owns_def fun_eq_iff)
    then show ?thesis using True t0 swap by auto
  next
    case False
    then have "mx_owns t = mx_owns s" using swap by (auto simp: mx_owns_def fun_eq_iff)
    then show ?thesis using False t0 swap by simp
  qed
next
  case (release h)
  then have "mx_owns t = (mx_owns s)(h := False)" by (auto simp: mx_owns_def fun_eq_iff)
  then show ?thesis using release by (auto simp: mx_owns_def)
qed (auto simp: mx_owns_def fun_eq_iff)

interpretation mx: ownership mutex_step mutex_start mx_owns "\<lambda>s. mx_word s = 0" mx_inv
proof
  show "\<And>s. mutex_start s \<Longrightarrow> mx_inv s" by (simp add: mutex_start_def mx_inv_def)
  show "\<And>s. mutex_start s \<Longrightarrow> mx_word s = 0 \<and> (\<forall>h. \<not> mx_owns s h)"
    by (simp add: mutex_start_def mx_owns_def)
qed (rule mutex_step_inv mutex_step_owner; assumption)+

subsection \<open>Properties\<close>

text \<open>
  C6: Mutual exclusion and no lost release. In every state that any interleaving of acquiring (by
  test-and-set or by test and test-and-set), retrying and releasing harts reaches, at most one hart
  is past its acquire; and when the mutex word is not 0 some hart owns the mutex, while a hart
  whose swap finds the word 0 enters.
\<close>

theorem mutex_exclusion:
  assumes "reachable mutex_step mutex_start s"
  shows "(\<forall>h h'. mx_pc s h = Mx_held \<and> mx_pc s h' = Mx_held \<longrightarrow> h = h')
    \<and> (mx_word s \<noteq> 0 \<longleftrightarrow> (\<exists>h. mx_owns s h))
    \<and> (mx_word s = 0 \<and> mx_pc s k = Mx_swap \<longrightarrow>
         (\<exists>t u. mutex_step s t \<and> mutex_step t u \<and> mx_pc u k = Mx_held \<and> mx_word u \<noteq> 0))"
proof (intro conjI impI)
  note U = mx.owner_unique [OF assms]
  show "\<forall>h h'. mx_pc s h = Mx_held \<and> mx_pc s h' = Mx_held \<longrightarrow> h = h'"
    using U by (auto simp: mx_owns_def)
  show "mx_word s \<noteq> 0 \<longleftrightarrow> (\<exists>h. mx_owns s h)" using U by blast
  assume k: "mx_word s = 0 \<and> mx_pc s k = Mx_swap"
  then have t0: "mx_t0 s k \<noteq> 0" using U by (simp add: mx_inv_def)
  let ?t = "s\<lparr>mx_word := mx_t0 s k, mx_t0 := (mx_t0 s)(k := mx_word s), mx_pc := (mx_pc s)(k := Mx_branch)\<rparr>"
  let ?u = "?t\<lparr>mx_pc := (mx_pc ?t)(k := Mx_held)\<rparr>"
  have "mutex_step s ?t" using k by (intro mutex_step.swap) simp
  moreover have "mutex_step ?t ?u" using k by (intro mutex_step.enter) simp_all
  moreover have "mx_pc ?u k = Mx_held \<and> mx_word ?u \<noteq> 0" using t0 by simp
  ultimately show "\<exists>t u. mutex_step s t \<and> mutex_step t u \<and> mx_pc u k = Mx_held \<and> mx_word u \<noteq> 0"
    by blast
qed

theorem mutex_exclusion_witness:
  "\<exists>s :: bool mutex_state. reachable mutex_step mutex_start s \<and> mx_pc s True = Mx_held \<and> mx_pc s False \<noteq> Mx_held"
proof -
  let ?s0 = "\<lparr>mx_word = 0, mx_pc = (\<lambda>_. Mx_idle), mx_t0 = (\<lambda>_. 0)\<rparr> :: bool mutex_state"
  let ?s1 = "?s0\<lparr>mx_pc := (mx_pc ?s0)(True := Mx_swap), mx_t0 := (mx_t0 ?s0)(True := 1)\<rparr>"
  let ?s2 = "?s1\<lparr>mx_word := mx_t0 ?s1 True, mx_t0 := (mx_t0 ?s1)(True := mx_word ?s1), mx_pc := (mx_pc ?s1)(True := Mx_branch)\<rparr>"
  let ?s3 = "?s2\<lparr>mx_pc := (mx_pc ?s2)(True := Mx_held)\<rparr>"
  have "mutex_start ?s0" by (simp add: mutex_start_def)
  moreover have "mutex_step ?s0 ?s1" by (intro mutex_step.acquire) simp
  moreover have "mutex_step ?s1 ?s2" by (intro mutex_step.swap) simp
  moreover have "mutex_step ?s2 ?s3" by (intro mutex_step.enter) simp_all
  ultimately have r: "reachable mutex_step mutex_start ?s3" by (blast intro: reachable.intros)
  have h: "mx_pc ?s3 True = Mx_held" by simp
  from mutex_exclusion [OF r] h have "mx_pc ?s3 False \<noteq> Mx_held" by blast
  with r h show ?thesis by blast
qed

end
