(* ===== verification/Bump_Allocator.thy ===== *)
theory Bump_Allocator
  imports Snitch_Prelude
begin

text \<open>
  The contract that the runtime's and the driver's allocators share, as an interface: an
  allocator hands out a block at or after its next pointer and moves the pointer past it.
  The consequence clients rely on (blocks of a run never overlap) is proved once here.
\<close>

text \<open>A run of requests stops at the first error.\<close>

fun alloc_run :: "('req \<Rightarrow> 'st \<Rightarrow> 'err + nat \<times> 'st) \<Rightarrow> ('req \<Rightarrow> nat) \<Rightarrow> 'req list \<Rightarrow> 'st
    \<Rightarrow> 'err + block list \<times> 'st" where
  "alloc_run alloc sz [] s = Inr ([], s)"
| "alloc_run alloc sz (r # rs) s =
     (case alloc r s of
        Inl e \<Rightarrow> Inl e
      | Inr (p, s') \<Rightarrow>
          (case alloc_run alloc sz rs s' of
             Inl e \<Rightarrow> Inl e
           | Inr (bs, t) \<Rightarrow> Inr ((p, sz r) # bs, t)))"

locale bump_allocator =
  fixes alloc :: "'req \<Rightarrow> 'st \<Rightarrow> 'err + nat \<times> 'st"
    and sz :: "'req \<Rightarrow> nat"
    and nxt :: "'st \<Rightarrow> nat"
    and inv :: "'st \<Rightarrow> bool"
    and fits :: "'req \<Rightarrow> 'st \<Rightarrow> bool"
  assumes alloc_at_next: "inv s \<Longrightarrow> fits r s \<Longrightarrow> alloc r s = Inr (p, s') \<Longrightarrow> nxt s \<le> p"
    and alloc_advances: "inv s \<Longrightarrow> fits r s \<Longrightarrow> alloc r s = Inr (p, s') \<Longrightarrow> p + sz r \<le> nxt s'"
    and alloc_inv: "inv s \<Longrightarrow> fits r s \<Longrightarrow> alloc r s = Inr (p, s') \<Longrightarrow> inv s'"
    and fits_stable: "inv s \<Longrightarrow> fits r s \<Longrightarrow> alloc r s = Inr (p, s') \<Longrightarrow> fits q s \<Longrightarrow> fits q s'"
begin

lemma alloc_run_Cons_cases:
  assumes "alloc_run alloc sz (r # rs) s = Inr (bs, t)"
  obtains p s' cs where "alloc r s = Inr (p, s')" "alloc_run alloc sz rs s' = Inr (cs, t)"
    "bs = (p, sz r) # cs"
  using assms by (auto split: sum.splits prod.splits)

lemma alloc_run_correct:
  assumes "alloc_run alloc sz rs s = Inr (bs, t)" and "inv s" and "\<forall>r \<in> set rs. fits r s"
  shows "inv t \<and> nxt s \<le> nxt t \<and> (\<forall>b \<in> set bs. block_within (nxt s) (nxt t) b)
    \<and> sorted_wrt blocks_apart bs"
  using assms
proof (induction rs arbitrary: s bs)
  case Nil
  then show ?case by simp
next
  case (Cons r rs)
  from Cons.prems(1) obtain p s' cs where step: "alloc r s = Inr (p, s')"
    and run: "alloc_run alloc sz rs s' = Inr (cs, t)" and bs: "bs = (p, sz r) # cs"
    by (rule alloc_run_Cons_cases)
  have r: "fits r s" using Cons.prems by simp
  note facts = alloc_at_next [OF Cons.prems(2) r step] alloc_advances [OF Cons.prems(2) r step]
  have "\<forall>q \<in> set rs. fits q s'"
    using Cons.prems fits_stable [OF Cons.prems(2) r step] by simp
  with Cons.IH [OF run alloc_inv [OF Cons.prems(2) r step]]
  have IH: "inv t" "nxt s' \<le> nxt t" "\<forall>b \<in> set cs. block_within (nxt s') (nxt t) b"
    "sorted_wrt blocks_apart cs"
    by blast+
  have "\<forall>b \<in> set cs. blocks_apart (p, sz r) b"
    using IH(3) facts block_within_apart by blast
  moreover have "\<forall>b \<in> set cs. block_within (nxt s) (nxt t) b"
  proof
    fix b
    assume "b \<in> set cs"
    with IH(3) have "block_within (nxt s') (nxt t) b" by blast
    then show "block_within (nxt s) (nxt t) b"
      by (rule block_within_weaken) (use facts in auto)
  qed
  ultimately show ?case using facts IH bs by auto
qed

end

end
