(* ===== verification/Alloc.thy ===== *)
theory Alloc
  imports Riscv Bump_Allocator
begin

text \<open>
  The first allocator API (\<open>sw/runtime/src/alloc.h\<close>): alignment, and a bump allocator without a
  bounds check for the L1 memory (shared by the cores of a cluster, in the cluster-local storage)
  and the L3 memory. An allocator keeps three 64-bit addresses; sizes and pointers are 32-bit.
\<close>

subsection \<open>Alignment\<close>

definition MIN_CHUNK_SIZE :: u32 where
  "MIN_CHUNK_SIZE = 8"

definition snrt_align_up :: "u32 \<Rightarrow> u32 \<Rightarrow> u32 \<Rightarrow> u32" where
  "snrt_align_up addr size' base = (((addr - base) + size' - 1) div size') * size' + base"

definition snrt_align_up_hyperbank :: "snrt_cfg \<Rightarrow> u32 \<Rightarrow> u32" where
  "snrt_align_up_hyperbank c addr = snrt_align_up addr (TCDM_HYPERBANK_WIDTH c) (TCDM_START_ADDR c)"

text \<open>The alignment fits: the rounded offset does not leave the 32-bit address space.\<close>

definition align_fits :: "u32 \<Rightarrow> u32 \<Rightarrow> u32 \<Rightarrow> bool" where
  "align_fits addr size' base \<longleftrightarrow> 0 < size' \<and> base \<le> addr \<and> unat addr + unat size' \<le> 2 ^ 32"

lemma unat_align_up:
  assumes "align_fits addr size' base"
  shows "unat (snrt_align_up addr size' base)
    = unat base + ((unat addr - unat base + unat size' - 1) div unat size') * unat size'"
proof -
  have pos: "0 < unat size'" and le: "unat base \<le> unat addr"
    and lim: "unat addr + unat size' \<le> 4294967296"
    using assms by (simp_all add: align_fits_def word_less_nat_alt word_le_nat_alt)
  have sum: "unat (addr - base + size' - 1) = unat addr - unat base + unat size' - 1"
  proof -
    have s1: "unat (size' - 1) = unat size' - 1"
      using pos by (simp add: unat_sub_no_ovf Suc_leI)
    have s2: "unat (addr - base) = unat addr - unat base"
      using le by (rule unat_sub_no_ovf)
    have "unat (addr - base + (size' - 1)) = unat (addr - base) + unat (size' - 1)"
      using pos le lim by (intro unat_add_no_ovf) (simp add: s1 s2)
    moreover have "addr - base + (size' - 1) = addr - base + size' - 1" by simp
    ultimately show ?thesis using pos le by (simp add: s1 s2)
  qed
  let ?q = "(unat addr - unat base + unat size' - 1) div unat size'"
  have bound: "?q * unat size' < unat addr - unat base + unat size'"
    using pos by (rule round_up_lt)
  then have "?q * unat size' < 4294967296" using lim by linarith
  then have "unat ((addr - base + size' - 1) div size' * size') = ?q * unat size'"
    by (simp add: unat_mult_no_ovf unat_div sum)
  moreover have "?q * unat size' + unat base < 4294967296"
    using bound le lim by linarith
  ultimately show ?thesis
    by (simp add: snrt_align_up_def unat_add_no_ovf)
qed

lemma align_up_ge: "align_fits addr size' base \<Longrightarrow> unat addr \<le> unat (snrt_align_up addr size' base)"
  using round_up_ge [of "unat size'" "unat addr - unat base"]
  by (simp add: unat_align_up align_fits_def word_less_nat_alt word_le_nat_alt)

lemma align_up_lt:
  "align_fits addr size' base \<Longrightarrow> unat (snrt_align_up addr size' base) < unat addr + unat size'"
  using round_up_lt [of "unat size'" "unat addr - unat base"]
  by (simp add: unat_align_up align_fits_def word_less_nat_alt word_le_nat_alt)

lemma align_up_dvd:
  "align_fits addr size' base \<Longrightarrow> unat size' dvd unat (snrt_align_up addr size' base) - unat base"
  by (simp add: unat_align_up)

lemma align_up_id:
  assumes "align_fits addr size' base" and "unat size' dvd unat addr - unat base"
  shows "snrt_align_up addr size' base = addr"
proof (rule unat_eqI)
  show "unat (snrt_align_up addr size' base) = unat addr"
    using assms round_up_id [of "unat size'" "unat addr - unat base"]
    by (simp add: unat_align_up) (simp add: align_fits_def word_less_nat_alt word_le_nat_alt)
qed

lemma align_up_base:
  assumes "align_fits addr size' base"
  shows "base \<le> snrt_align_up addr size' base"
  using align_up_ge [OF assms] assms by (simp add: align_fits_def word_le_nat_alt)

lemma align_fits_chunk: "unat size' + 8 \<le> 2 ^ 32 \<Longrightarrow> align_fits size' MIN_CHUNK_SIZE 0"
  by (simp add: align_fits_def MIN_CHUNK_SIZE_def)

subsection \<open>Allocators\<close>

record snrt_allocator =
  al_base :: u64
  al_end :: u64
  al_next :: u64

definition snrt_l1_next :: "snrt_allocator \<Rightarrow> u32" where
  "snrt_l1_next a = ucast (al_next a)"

definition snrt_l3_next :: "snrt_allocator \<Rightarrow> u32" where
  "snrt_l3_next a = ucast (al_next a)"

definition snrt_l1_alloc :: "u32 \<Rightarrow> snrt_allocator \<Rightarrow> u32 \<times> snrt_allocator" where
  "snrt_l1_alloc size0 a =
     (let size' = snrt_align_up size0 MIN_CHUNK_SIZE 0;
          ret = ucast (al_next a)
      in (ret, a\<lparr>al_next := al_next a + ucast size'\<rparr>))"

definition snrt_l1_update_next :: "u32 \<Rightarrow> snrt_allocator \<Rightarrow> snrt_allocator" where
  "snrt_l1_update_next nxt a = a\<lparr>al_next := ucast nxt\<rparr>"

definition snrt_l3_alloc :: "u32 \<Rightarrow> snrt_allocator \<Rightarrow> u32 \<times> snrt_allocator" where
  "snrt_l3_alloc size0 a =
     (let size' = snrt_align_up size0 MIN_CHUNK_SIZE 0;
          ret = ucast (al_next a)
      in (ret, a\<lparr>al_next := al_next a + ucast size'\<rparr>))"

text \<open>
  \<open>snrt_alloc_init\<close>: the data mover core initialises the L1 allocator of its cluster and the L3
  allocator; every core then passes the hardware barrier.
\<close>

definition snrt_alloc_init :: "snrt_cfg \<Rightarrow> linker \<Rightarrow> u32 \<Rightarrow> snrt_allocator \<times> snrt_allocator
    \<Rightarrow> (snrt_allocator \<times> snrt_allocator) \<times> hw_event list" where
  "snrt_alloc_init c lk h st =
     (let (l1, l3) = st;
          st' =
            (if snrt_is_dm_core c h then
               let l1_start_addr = snrt_cluster_self c h;
                   b1 = ucast (snrt_align_up l1_start_addr MIN_CHUNK_SIZE 0);
                   e1 = ucast (l1_start_addr + TCDM_SIZE c);
                   b3 = ucast (snrt_align_up (edram lk) MIN_CHUNK_SIZE 0)
               in (\<lparr>al_base = b1, al_end = e1, al_next = b1\<rparr>,
                   \<lparr>al_base = b3, al_end = b3, al_next = b3\<rparr>)
             else (l1, l3))
      in (st', [Ev_barrier]))"

subsection \<open>The bump allocator contract\<close>

text \<open>
  The pointer returned is the low 32 bits of \<open>next\<close>, and nothing checks a bound, so a request
  fits when it keeps \<open>next\<close> below \<open>2 ^ 32\<close>. The budget \<open>lim\<close> makes that stable along a run.
\<close>

definition l1_req_size :: "u32 \<Rightarrow> nat" where
  "l1_req_size size0 = unat size0"

definition l1_alloc_nat :: "u32 \<Rightarrow> snrt_allocator \<Rightarrow> unit + nat \<times> snrt_allocator" where
  "l1_alloc_nat size0 a = (case snrt_l1_alloc size0 a of (p, a') \<Rightarrow>
     if unat (al_next a') < 2 ^ 32 then Inr (unat p, a') else Inl ())"

definition l1_next_nat :: "snrt_allocator \<Rightarrow> nat" where
  "l1_next_nat a = unat (al_next a)"

definition l1_inv :: "snrt_allocator \<Rightarrow> bool" where
  "l1_inv a \<longleftrightarrow> unat (al_next a) < 2 ^ 32"

definition l1_fits :: "u32 \<Rightarrow> snrt_allocator \<Rightarrow> bool" where
  "l1_fits size0 a \<longleftrightarrow> unat size0 + 8 \<le> 2 ^ 32"

lemma l1_alloc_next:
  assumes "l1_inv a" and "l1_fits size0 a"
  shows "unat (al_next (snd (snrt_l1_alloc size0 a)))
    = unat (al_next a) + unat (snrt_align_up size0 MIN_CHUNK_SIZE 0)"
proof -
  have "unat (snrt_align_up size0 MIN_CHUNK_SIZE 0) < 4294967296" by (rule unat_lt_pow32)
  moreover have "unat (al_next a) < 4294967296" using assms(1) by (simp add: l1_inv_def)
  ultimately show ?thesis
    by (simp add: snrt_l1_alloc_def Let_def unat_add_no_ovf)
qed

lemma l1_alloc_ret: "l1_inv a \<Longrightarrow> unat (fst (snrt_l1_alloc size0 a)) = unat (al_next a)"
  by (simp add: snrt_l1_alloc_def Let_def unat_ucast64_32 l1_inv_def)

lemma l1_size_grows: "l1_fits size0 a \<Longrightarrow> unat size0 \<le> unat (snrt_align_up size0 MIN_CHUNK_SIZE 0)"
  by (intro align_up_ge align_fits_chunk) (simp add: l1_fits_def)

lemma l1_alloc_natD:
  assumes "l1_alloc_nat size0 a = Inr (p, a')"
  shows "p = unat (fst (snrt_l1_alloc size0 a))" "a' = snd (snrt_l1_alloc size0 a)"
    "unat (al_next a') < 2 ^ 32"
  using assms by (auto simp: l1_alloc_nat_def split: prod.splits if_splits)

interpretation l1: bump_allocator l1_alloc_nat l1_req_size l1_next_nat l1_inv l1_fits
proof
  fix a a' r q p
  assume a: "l1_inv a" "l1_fits r a" "l1_alloc_nat r a = Inr (p, a')"
  note D = l1_alloc_natD [OF a(3)]
  show "l1_next_nat a \<le> p" using a(1) by (simp add: D(1) l1_alloc_ret l1_next_nat_def)
  show "p + l1_req_size r \<le> l1_next_nat a'"
    using l1_size_grows [OF a(2)] l1_alloc_next [OF a(1,2)]
    by (simp add: D(1,2) l1_alloc_ret [OF a(1)] l1_next_nat_def l1_req_size_def)
  show "l1_inv a'" using D(3) by (simp add: l1_inv_def)
  show "l1_fits q a \<Longrightarrow> l1_fits q a'" by (simp add: l1_fits_def)
qed

subsection \<open>Initialisation\<close>

lemma alloc_init_not_dm: "\<not> snrt_is_dm_core c h \<Longrightarrow> snrt_alloc_init c lk h st = (st, [Ev_barrier])"
  by (simp add: snrt_alloc_init_def split: prod.splits)

lemma alloc_init_l3_empty:
  assumes "snrt_is_dm_core c h" and "snrt_alloc_init c lk h st = ((l1, l3), es)"
  shows "al_end l3 = al_base l3 \<and> al_next l3 = al_base l3"
  using assms by (auto simp: snrt_alloc_init_def Let_def split: prod.splits)

end
