(* ===== verification/Eu.thy ===== *)
theory Eu
  imports Mutex Alloc
begin

text \<open>
  The event unit of the OpenMP runtime (\<open>sw/runtime/src/omp/eu.h\<close>,
  \<open>sw/runtime/api/omp/eu_decls.h\<close>) in its default configuration, the cluster-local CLINT.

  Core 0 dispatches an event (\<open>eu_dispatch_push\<close>), runs it (\<open>eu_run_empty\<close>) and ends the
  session (\<open>eu_exit\<close>); the cores \<open>1..<n\<close> are in \<open>eu_event_loop\<close>. The two sides share the
  structure \<open>eu_t\<close> and the pending interrupts of the cluster. One step is one access to a
  shared word (the four stores of a dispatch, which no worker reads meanwhile, are one step),
  and the steps of the cores interleave in any order. The function pointer an event carries is
  an address: a call is recorded in the log of the core that makes it.
\<close>

subsection \<open>Data\<close>

record eu_event =
  ev_fn :: u32
  ev_data :: u32
  ev_argc :: u32
  ev_nthreads :: u32

record eu_t =
  workers_in_loop :: u32
  exit_flag :: u32
  workers_mutex :: u32
  workers_wfi :: u32
  eu_e :: eu_event
  fini_count :: u32

definition no_event :: eu_event where
  "no_event = \<lparr>ev_fn = 0, ev_data = 0, ev_argc = 0, ev_nthreads = 0\<rparr>"

text \<open>\<open>eu_init\<close> on core 0: the structure in the L1 memory, cleared (36 bytes).\<close>

definition eu_zero :: eu_t where
  "eu_zero = \<lparr>workers_in_loop = 0, exit_flag = 0, workers_mutex = 0, workers_wfi = 0,
     eu_e = no_event, fini_count = 0\<rparr>"

definition eu_init :: "snrt_allocator \<Rightarrow> (u32 \<times> eu_t) \<times> snrt_allocator" where
  "eu_init a = (let (p, a') = snrt_l1_alloc 36 a in ((p, eu_zero), a'))"

definition eu_get_workers_in_loop :: "eu_t \<Rightarrow> u32" where
  "eu_get_workers_in_loop e = workers_in_loop e"

definition eu_get_workers_in_wfi :: "eu_t \<Rightarrow> u32" where
  "eu_get_workers_in_wfi e = workers_wfi e"

text \<open>The mask of \<open>wake_workers\<close>: all compute cores but core 0.\<close>

definition wake_mask :: "u32 \<Rightarrow> u32" where
  "wake_mask numcores = NOT 1 AND (push_bit (unat numcores) 1 - 1)"

definition wake_workers :: "u32 \<Rightarrow> u32 \<Rightarrow> hw_event list" where
  "wake_workers numcores cl = snrt_int_cluster_set_of (wake_mask numcores) cl"

subsection \<open>State\<close>

text \<open>
  Where a worker is: \<open>W_enter\<close> before it counts itself in, \<open>W_check\<close> before the test of
  \<open>exit_flag\<close>, \<open>W_test\<close> before the test of \<open>nthreads\<close>, \<open>W_call\<close> before the call, \<open>W_fini\<close>
  before the increment of \<open>fini_count\<close>, \<open>W_sleep\<close> before that of \<open>workers_wfi\<close>, \<open>W_wfi\<close> in the
  \<open>wfi\<close>, \<open>W_clr\<close> before it clears its interrupt, \<open>W_wake\<close> before the decrement of
  \<open>workers_wfi\<close>, \<open>W_exit\<close> returned.
\<close>

datatype worker_pc = W_enter | W_check | W_test | W_call | W_fini | W_sleep | W_wfi | W_clr
  | W_wake | W_exit

text \<open>
  Where core 0 is. \<open>M_boot\<close>: in the loop of \<open>snrt_omp_bootstrap\<close>; \<open>M_push e s\<close>, \<open>M_wake t s\<close>,
  \<open>M_exit s\<close>, \<open>M_exit_wake s\<close>: in \<open>wait_worker_wfi\<close> with its \<open>scratch\<close> \<open>s\<close>, on behalf of
  \<open>eu_dispatch_push\<close>, of \<open>eu_run_empty\<close>, of \<open>eu_exit\<close> before the flag and after it;
  \<open>M_self t\<close>: before its own call; \<open>M_join s\<close>: waiting for \<open>fini_count\<close>; \<open>M_done\<close>: before
  \<open>nthreads\<close> is reset. \<open>t\<close> is the number of threads of the event.
\<close>

datatype master_pc = M_boot | M_idle | M_push eu_event u32 | M_wake u32 u32 | M_self u32
  | M_join u32 | M_done | M_exit u32 | M_exit_wake u32 | M_end

record eu_state =
  eu :: eu_t
  clint :: pending
  m_pc :: master_pc
  w_pc :: "nat \<Rightarrow> worker_pc"
  calls :: "nat \<Rightarrow> (u32 \<times> u32 \<times> u32) list"  \<comment> \<open>what each core called, in order\<close>
  completed :: "eu_event list"               \<comment> \<open>the events \<open>eu_run_empty\<close> has finished\<close>

definition ev_call :: "eu_event \<Rightarrow> u32 \<times> u32 \<times> u32" where
  "ev_call e = (ev_fn e, ev_data e, ev_argc e)"

definition do_call :: "nat \<Rightarrow> eu_state \<Rightarrow> eu_state" where
  "do_call w s = s\<lparr>calls := (calls s)(w := calls s w @ [ev_call (eu_e (eu s))])\<rparr>"

subsection \<open>Workers\<close>

text \<open>One step of \<open>eu_event_loop\<close> and \<open>worker_wfi\<close>; \<open>None\<close> while the \<open>wfi\<close> sleeps or after the exit.\<close>

definition w_goto :: "nat \<Rightarrow> worker_pc \<Rightarrow> eu_state \<Rightarrow> eu_state" where
  "w_goto w pc s = s\<lparr>w_pc := (w_pc s)(w := pc)\<rparr>"

definition eu_upd :: "(eu_t \<Rightarrow> eu_t) \<Rightarrow> eu_state \<Rightarrow> eu_state" where
  "eu_upd f s = s\<lparr>eu := f (eu s)\<rparr>"

definition worker_step :: "u32 \<Rightarrow> nat \<Rightarrow> eu_state \<Rightarrow> eu_state option" where
  "worker_step cl w s = (case w_pc s w of
     W_enter \<Rightarrow> Some (w_goto w W_check (eu_upd (\<lambda>e. e\<lparr>workers_in_loop := workers_in_loop e + 1\<rparr>) s))
   | W_check \<Rightarrow> Some (w_goto w (if exit_flag (eu s) \<noteq> 0 then W_exit else W_test) s)
   | W_test \<Rightarrow> Some (w_goto w (if of_nat w < ev_nthreads (eu_e (eu s)) then W_call else W_fini) s)
   | W_call \<Rightarrow> Some (w_goto w W_fini (do_call w s))
   | W_fini \<Rightarrow> Some (w_goto w W_sleep (eu_upd (\<lambda>e. e\<lparr>fini_count := fini_count e + 1\<rparr>) s))
   | W_sleep \<Rightarrow> Some (w_goto w W_wfi (eu_upd (\<lambda>e. e\<lparr>workers_wfi := workers_wfi e + 1\<rparr>) s))
   | W_wfi \<Rightarrow> if mcip (clint s) cl w then Some (w_goto w W_clr s) else None
   | W_clr \<Rightarrow> Some (w_goto w W_wake
        (s\<lparr>clint := clint_run [Ev_clint_clear cl (bit_of (of_nat w))] (clint s)\<rparr>))
   | W_wake \<Rightarrow> Some (w_goto w W_check (eu_upd (\<lambda>e. e\<lparr>workers_wfi := workers_wfi e - 1\<rparr>) s))
   | W_exit \<Rightarrow> None)"

subsection \<open>Core 0\<close>

text \<open>What core 0 calls next when it is idle.\<close>

datatype eu_act = A_push eu_event | A_run | A_exit

definition m_goto :: "master_pc \<Rightarrow> eu_state \<Rightarrow> eu_state" where
  "m_goto pc s = s\<lparr>m_pc := pc\<rparr>"

definition wake_all :: "nat \<Rightarrow> u32 \<Rightarrow> eu_state \<Rightarrow> eu_state" where
  "wake_all n cl s = s\<lparr>clint := clint_run (wake_workers (of_nat n) cl) (clint s)\<rparr>"

definition eu_dispatch_push :: "eu_event \<Rightarrow> eu_state \<Rightarrow> eu_state" where
  "eu_dispatch_push ev s = m_goto (M_push ev (workers_in_loop (eu s))) s"

text \<open>The return of \<open>eu_run_empty\<close> when there is no event, and its steps up to the first wait.\<close>

definition eu_run_empty :: "eu_state \<Rightarrow> eu_state" where
  "eu_run_empty s =
     (let t = ev_nthreads (eu_e (eu s)) in
      if t = 0 then s
      else let s' = eu_upd (\<lambda>e. e\<lparr>fini_count := 0\<rparr>) s
           in if 1 < t then m_goto (M_wake t (workers_in_loop (eu s))) s' else m_goto (M_self t) s')"

text \<open>
  \<open>eu_exit\<close>: with \<open>nthreads = 0\<close> it calls \<open>eu_run_empty\<close>, which returns at once; with an event
  pending it does not call it. Then it waits for the workers.
\<close>

definition eu_exit :: "eu_state \<Rightarrow> eu_state" where
  "eu_exit s = (let s' = if ev_nthreads (eu_e (eu s)) = 0 then eu_run_empty s else s
                in m_goto (M_exit (workers_in_loop (eu s'))) s')"

definition master_step :: "nat \<Rightarrow> u32 \<Rightarrow> eu_act \<Rightarrow> eu_state \<Rightarrow> eu_state option" where
  "master_step n cl a s = (case m_pc s of
     M_boot \<Rightarrow> if eu_get_workers_in_wfi (eu s) = of_nat n - 1 then Some (m_goto M_idle s) else None
   | M_idle \<Rightarrow> Some (case a of A_push ev \<Rightarrow> eu_dispatch_push ev s | A_run \<Rightarrow> eu_run_empty s
        | A_exit \<Rightarrow> eu_exit s)
   | M_push ev scratch \<Rightarrow> if workers_wfi (eu s) = scratch
        then Some (m_goto M_idle (eu_upd (\<lambda>e. e\<lparr>eu_e := ev\<rparr>) s)) else None
   | M_wake t scratch \<Rightarrow> if workers_wfi (eu s) = scratch
        then Some (m_goto (M_self t) (wake_all n cl s)) else None
   | M_self t \<Rightarrow> (let s' = if 0 < ev_nthreads (eu_e (eu s)) then do_call 0 s else s
        in Some (m_goto (if 1 < t then M_join (eu_get_workers_in_loop (eu s)) else M_done) s'))
   | M_join scratch \<Rightarrow> if fini_count (eu s) = scratch then Some (m_goto M_done s) else None
   | M_done \<Rightarrow> Some (m_goto M_idle (eu_upd (\<lambda>e. e\<lparr>eu_e := (eu_e e)\<lparr>ev_nthreads := 0\<rparr>\<rparr>)
        (s\<lparr>completed := completed s @ [eu_e (eu s)]\<rparr>)))
   | M_exit scratch \<Rightarrow> if workers_wfi (eu s) = scratch
        then Some (m_goto (M_exit_wake (workers_in_loop (eu s))) (eu_upd (\<lambda>e. e\<lparr>exit_flag := 1\<rparr>) s))
        else None
   | M_exit_wake scratch \<Rightarrow> if workers_wfi (eu s) = scratch
        then Some (m_goto M_end (wake_all n cl s)) else None
   | M_end \<Rightarrow> None)"

inductive eu_step :: "nat \<Rightarrow> u32 \<Rightarrow> eu_state \<Rightarrow> eu_state \<Rightarrow> bool" for n cl where
  eu_master: "master_step n cl a s = Some t \<Longrightarrow> eu_step n cl s t"
| eu_worker: "0 < w \<Longrightarrow> w < n \<Longrightarrow> worker_step cl w s = Some t \<Longrightarrow> eu_step n cl s t"

text \<open>The state after \<open>eu_init\<close>: nobody has entered the loop.\<close>

definition eu_start :: "eu_state \<Rightarrow> bool" where
  "eu_start s \<longleftrightarrow> eu s = eu_zero \<and> m_pc s = M_boot \<and> (\<forall>w. w_pc s w = W_enter)
     \<and> (\<forall>cl w. \<not> mcip (clint s) cl w) \<and> (\<forall>w. calls s w = []) \<and> completed s = []"

subsection \<open>Counting workers in a word\<close>

text \<open>A counter that workers increment and decrement is the sum over the workers of 0 or 1.\<close>

definition wcount :: "nat \<Rightarrow> (nat \<Rightarrow> bool) \<Rightarrow> u32" where
  "wcount n P = (\<Sum>w = 1..<n. of_bool (P w))"

lemma wcount_change:
  assumes "0 < w" and "w < n" and "\<And>x. 0 < x \<Longrightarrow> x < n \<Longrightarrow> x \<noteq> w \<Longrightarrow> Q x = P x"
  shows "wcount n Q = wcount n P + of_bool (Q w) - of_bool (P w)"
proof -
  have w: "w \<in> {1..<n}" using assms by simp
  have eq: "(\<Sum>x \<in> {1..<n} - {w}. of_bool (Q x)) = (\<Sum>x \<in> {1..<n} - {w}. of_bool (P x) :: u32)"
    using assms(3) by (intro sum.cong) auto
  show ?thesis
    unfolding wcount_def
    by (simp only: sum.remove [OF finite_atLeastLessThan w, of "\<lambda>x. of_bool (Q x)"]
      sum.remove [OF finite_atLeastLessThan w, of "\<lambda>x. of_bool (P x)"] eq) simp
qed

lemma wcount_cong: "(\<And>x. 0 < x \<Longrightarrow> x < n \<Longrightarrow> Q x = P x) \<Longrightarrow> wcount n Q = wcount n P"
  unfolding wcount_def by (intro sum.cong) auto

lemma wcount_card: "wcount n P = of_nat (card {w \<in> {1..<n}. P w})"
proof -
  have "(\<Sum>w = 1..<n. of_bool (P w) :: u32) = (\<Sum>w \<in> {w \<in> {1..<n}. P w}. 1)"
    by (rule sum.mono_neutral_cong_right) auto
  then show ?thesis unfolding wcount_def by simp
qed

lemma unat_of_nat32: "k < 4294967296 \<Longrightarrow> unat (of_nat k :: u32) = k"
  by (simp add: unat_of_nat)

lemma wcount_full:
  assumes "n \<le> 2 ^ 32" and "0 < n"
  shows "wcount n P = of_nat n - 1 \<longleftrightarrow> (\<forall>w. 0 < w \<and> w < n \<longrightarrow> P w)"
proof
  assume eq: "wcount n P = of_nat n - 1"
  let ?S = "{w \<in> {1..<n}. P w}"
  have le: "card ?S \<le> card {1..<n}" by (rule card_mono) auto
  have "(of_nat (n - 1) :: u32) = of_nat n - 1"
    using assms(2) by (simp only: of_nat_diff Suc_leI One_nat_def of_nat_1 of_nat_Suc) simp
  then have e: "(of_nat (card ?S) :: u32) = of_nat (n - 1)"
    using eq by (simp only: wcount_card)
  have l: "n \<le> 4294967296" using assms(1) by simp
  have le': "card ?S \<le> n - 1" using le by simp
  have c: "card ?S < 4294967296" "n - 1 < 4294967296" using le' l assms(2) by linarith+
  have "card ?S = n - 1"
    using arg_cong [OF e, of unat] by (simp only: unat_of_nat32 [OF c(1)] unat_of_nat32 [OF c(2)])
  then have "card ?S = card {1..<n}" by (simp only: card_atLeastLessThan)
  moreover have "?S \<subseteq> {1..<n}" by blast
  ultimately have S: "?S = {1..<n}" by (intro card_subset_eq finite_atLeastLessThan)
  show "\<forall>w. 0 < w \<and> w < n \<longrightarrow> P w"
  proof (intro allI impI)
    fix w assume "0 < w \<and> w < n"
    then have "w \<in> {1..<n}" by simp
    then have "w \<in> ?S" by (simp only: S)
    then show "P w" by simp
  qed
next
  assume "\<forall>w. 0 < w \<and> w < n \<longrightarrow> P w"
  then have "{w \<in> {1..<n}. P w} = {1..<n}" by auto
  then show "wcount n P = of_nat n - 1" using assms by (simp add: wcount_card of_nat_diff)
qed

lemma wcount_all: "0 < n \<Longrightarrow> (\<And>w. 0 < w \<Longrightarrow> w < n \<Longrightarrow> P w) \<Longrightarrow> wcount n P = of_nat n - 1"
proof -
  assume a: "0 < n" "\<And>w. 0 < w \<Longrightarrow> w < n \<Longrightarrow> P w"
  then have "{w \<in> {1..<n}. P w} = {1..<n}" by auto
  then show ?thesis using a(1) by (simp add: wcount_card of_nat_diff)
qed

lemma wcount_none: "(\<And>w. 0 < w \<Longrightarrow> w < n \<Longrightarrow> \<not> P w) \<Longrightarrow> wcount n P = 0"
  unfolding wcount_def by (intro sum.neutral) auto

subsection \<open>Interrupts\<close>

lemma mcip_wake_all [simp]:
  assumes "n < 32"
  shows "mcip (clint_run (wake_workers (of_nat n) cl) p) cl w \<longleftrightarrow> mcip p cl w \<or> (0 < w \<and> w < n)"
proof -
  have u: "unat (of_nat n :: u32) = n" using assms by (simp add: unat_of_nat)
  have "push_bit n 1 - 1 = (Bit_Operations.mask n :: u32)" by (simp add: mask_eq_decr_exp push_bit_eq_mult)
  then have "bit (wake_mask (of_nat n)) w \<longleftrightarrow> 0 < w \<and> w < n"
    unfolding wake_mask_def u using assms
    by (auto simp: bit_and_iff bit_not_iff bit_mask_iff bit_1_iff)
  moreover have "bit (ucast (ucast (wake_mask (of_nat n)) :: u64) :: u32) w = bit (wake_mask (of_nat n)) w"
    by simp
  ultimately show ?thesis
    by (auto simp: wake_workers_def snrt_int_cluster_set_of_def mcip_def bit_or_iff)
qed

lemma mcip_clear [simp]:
  assumes "w < 32"
  shows "mcip (p(cl := p cl AND NOT (bit_of (of_nat w)))) cl v
    \<longleftrightarrow> mcip p cl v \<and> v \<noteq> w"
proof -
  have "unat (of_nat w :: u32) = w" using assms by (simp add: unat_of_nat)
  then show ?thesis using assms
    by (auto simp: mcip_def bit_and_iff bit_not_iff bit_bit_of dest: bit_imp_le_length)
qed


subsection \<open>Invariant\<close>

definition in_wfi :: "worker_pc \<Rightarrow> bool" where
  "in_wfi pc \<longleftrightarrow> pc = W_wfi \<or> pc = W_clr \<or> pc = W_wake"

text \<open>A worker that has counted itself in \<open>fini_count\<close> and has not been woken since.\<close>

definition finished :: "worker_pc \<Rightarrow> bool \<Rightarrow> bool" where
  "finished pc pend \<longleftrightarrow> pc = W_sleep \<or> (pc = W_wfi \<and> \<not> pend)"

datatype eu_phase = Ph_boot | Ph_quiet | Ph_run | Ph_over

fun phase_of :: "master_pc \<Rightarrow> eu_phase" where
  "phase_of M_boot = Ph_boot"
| "phase_of (M_self t) = (if 1 < t then Ph_run else Ph_quiet)"
| "phase_of (M_join s) = Ph_run"
| "phase_of M_end = Ph_over"
| "phase_of _ = Ph_quiet"

fun wk_ok :: "eu_phase \<Rightarrow> worker_pc \<Rightarrow> bool \<Rightarrow> bool" where
  "wk_ok Ph_boot pc pend \<longleftrightarrow> \<not> pend \<and>
     (pc = W_enter \<or> pc = W_check \<or> pc = W_test \<or> pc = W_fini \<or> pc = W_sleep \<or> pc = W_wfi)"
| "wk_ok Ph_quiet pc pend \<longleftrightarrow> \<not> pend \<and> (pc = W_sleep \<or> pc = W_wfi)"
| "wk_ok Ph_run pc pend \<longleftrightarrow> pc \<noteq> W_enter \<and> pc \<noteq> W_exit \<and> (pend \<longrightarrow> pc = W_wfi \<or> pc = W_clr)"
| "wk_ok Ph_over pc pend \<longleftrightarrow>
     (pc = W_wfi \<and> pend) \<or> pc = W_clr \<or> (\<not> pend \<and> (pc = W_wake \<or> pc = W_check \<or> pc = W_exit))"

fun m_ok :: "nat \<Rightarrow> eu_t \<Rightarrow> eu_event list \<Rightarrow> master_pc \<Rightarrow> bool" where
  "m_ok n e done M_boot \<longleftrightarrow> ev_nthreads (eu_e e) = 0 \<and> exit_flag e = 0 \<and> done = []"
| "m_ok n e done M_idle \<longleftrightarrow> exit_flag e = 0"
| "m_ok n e done (M_push ev s) \<longleftrightarrow> exit_flag e = 0 \<and> s = of_nat n - 1"
| "m_ok n e done (M_wake t s) \<longleftrightarrow> exit_flag e = 0 \<and> s = of_nat n - 1 \<and> t = ev_nthreads (eu_e e)
     \<and> 1 < t \<and> fini_count e = 0"
| "m_ok n e done (M_self t) \<longleftrightarrow> exit_flag e = 0 \<and> t = ev_nthreads (eu_e e) \<and> t \<noteq> 0"
| "m_ok n e done (M_join s) \<longleftrightarrow> exit_flag e = 0 \<and> s = of_nat n - 1 \<and> 1 < ev_nthreads (eu_e e)"
| "m_ok n e done M_done \<longleftrightarrow> exit_flag e = 0 \<and> ev_nthreads (eu_e e) \<noteq> 0"
| "m_ok n e done (M_exit s) \<longleftrightarrow> exit_flag e = 0 \<and> s = of_nat n - 1"
| "m_ok n e done (M_exit_wake s) \<longleftrightarrow> exit_flag e = 1 \<and> s = of_nat n - 1"
| "m_ok n e done M_end \<longleftrightarrow> exit_flag e = 1"

text \<open>The calls core \<open>w\<close> owes for a list of events, and whether it has made that of the current one.\<close>

definition calls_of :: "nat \<Rightarrow> eu_event list \<Rightarrow> (u32 \<times> u32 \<times> u32) list" where
  "calls_of w evs = map ev_call (filter (\<lambda>e. of_nat w < ev_nthreads e) evs)"

fun called :: "master_pc \<Rightarrow> nat \<Rightarrow> worker_pc \<Rightarrow> bool \<Rightarrow> bool" where
  "called (M_self t) w pc pend \<longleftrightarrow> 0 < w \<and> 1 < t \<and> (finished pc pend \<or> pc = W_fini)"
| "called (M_join s) w pc pend \<longleftrightarrow> w = 0 \<or> finished pc pend \<or> pc = W_fini"
| "called M_done w pc pend \<longleftrightarrow> True"
| "called _ w pc pend \<longleftrightarrow> False"

definition w_inv :: "u32 \<Rightarrow> eu_state \<Rightarrow> nat \<Rightarrow> bool" where
  "w_inv cl s w \<longleftrightarrow> wk_ok (phase_of (m_pc s)) (w_pc s w) (mcip (clint s) cl w)
     \<and> (w_pc s w = W_call \<longrightarrow> of_nat w < ev_nthreads (eu_e (eu s)))"

definition log_inv :: "u32 \<Rightarrow> eu_state \<Rightarrow> nat \<Rightarrow> bool" where
  "log_inv cl s w \<longleftrightarrow> calls s w = calls_of w (completed s) @
     (if called (m_pc s) w (w_pc s w) (mcip (clint s) cl w) \<and> of_nat w < ev_nthreads (eu_e (eu s))
      then [ev_call (eu_e (eu s))] else [])"

definition eu_inv :: "nat \<Rightarrow> u32 \<Rightarrow> eu_state \<Rightarrow> bool" where
  "eu_inv n cl s \<longleftrightarrow>
     workers_wfi (eu s) = wcount n (\<lambda>w. in_wfi (w_pc s w))
     \<and> workers_in_loop (eu s) = wcount n (\<lambda>w. w_pc s w \<noteq> W_enter)
     \<and> (phase_of (m_pc s) = Ph_run \<longrightarrow>
          fini_count (eu s) = wcount n (\<lambda>w. finished (w_pc s w) (mcip (clint s) cl w)))
     \<and> m_ok n (eu s) (completed s) (m_pc s)
     \<and> (\<forall>w. 0 < w \<and> w < n \<longrightarrow> w_inv cl s w)
     \<and> (\<forall>w < n. log_inv cl s w)"

lemma eu_invD:
  assumes "eu_inv n cl s"
  shows "workers_wfi (eu s) = wcount n (\<lambda>w. in_wfi (w_pc s w))"
    and "workers_in_loop (eu s) = wcount n (\<lambda>w. w_pc s w \<noteq> W_enter)"
    and "phase_of (m_pc s) = Ph_run \<Longrightarrow>
          fini_count (eu s) = wcount n (\<lambda>w. finished (w_pc s w) (mcip (clint s) cl w))"
    and "m_ok n (eu s) (completed s) (m_pc s)"
    and "0 < w \<Longrightarrow> w < n \<Longrightarrow> w_inv cl s w"
    and "w < n \<Longrightarrow> log_inv cl s w"
  using assms by (simp_all add: eu_inv_def)

subsection \<open>Workers keep the invariant\<close>


lemma worker_frame:
  assumes inv: "eu_inv n cl s" and w: "0 < w" "w < n"
    and same: "m_pc t = m_pc s" "completed t = completed s" "eu_e (eu t) = eu_e (eu s)"
    and others: "\<And>x. x \<noteq> w \<Longrightarrow> w_pc t x = w_pc s x"
      "\<And>x. x \<noteq> w \<Longrightarrow> mcip (clint t) cl x = mcip (clint s) cl x"
      "\<And>x. x \<noteq> w \<Longrightarrow> calls t x = calls s x"
    and wfi: "workers_wfi (eu t) = workers_wfi (eu s)
        + of_bool (in_wfi (w_pc t w)) - of_bool (in_wfi (w_pc s w))"
    and loop: "workers_in_loop (eu t) = workers_in_loop (eu s)
        + of_bool (w_pc t w \<noteq> W_enter) - of_bool (w_pc s w \<noteq> W_enter)"
    and fini: "phase_of (m_pc s) = Ph_run \<Longrightarrow> fini_count (eu t) = fini_count (eu s)
        + of_bool (finished (w_pc t w) (mcip (clint t) cl w))
        - of_bool (finished (w_pc s w) (mcip (clint s) cl w))"
    and m: "m_ok n (eu t) (completed s) (m_pc s)"
    and wt: "w_inv cl t w" and lt: "log_inv cl t w"
  shows "eu_inv n cl t"
proof -
  note D = eu_invD [OF inv]
  have "workers_wfi (eu t) = wcount n (\<lambda>w. in_wfi (w_pc t w))"
    unfolding wfi D(1) by (rule wcount_change [symmetric]) (simp_all add: w others)
  moreover have "workers_in_loop (eu t) = wcount n (\<lambda>w. w_pc t w \<noteq> W_enter)"
    unfolding loop D(2) by (rule wcount_change [symmetric]) (simp_all add: w others)
  moreover have "fini_count (eu t) = wcount n (\<lambda>w. finished (w_pc t w) (mcip (clint t) cl w))"
    if r: "phase_of (m_pc s) = Ph_run"
    unfolding fini [OF r] D(3) [OF r] by (rule wcount_change [symmetric]) (simp_all add: w others)
  moreover have "w_inv cl t x" if "0 < x" "x < n" for x
    using D(5) [OF that] wt by (cases "x = w") (simp_all add: w_inv_def same others)
  moreover have "log_inv cl t x" if "x < n" for x
    using D(6) [OF that] lt by (cases "x = w") (simp_all add: log_inv_def same others)
  ultimately show ?thesis using m by (simp add: eu_inv_def same)
qed

lemmas eu_step_simps = w_goto_def eu_upd_def do_call_def m_goto_def

lemma of_bool_eqs: "of_bool True = (1 :: u32)" "of_bool False = (0 :: u32)" by simp_all

lemma worker_inv:
  assumes n: "n < 32" and inv: "eu_inv n cl s" and w: "0 < w" "w < n"
    and step: "worker_step cl w s = Some t"
  shows "eu_inv n cl t"
proof -
  note D = eu_invD [OF inv]
  have wi: "wk_ok (phase_of (m_pc s)) (w_pc s w) (mcip (clint s) cl w)"
    "w_pc s w = W_call \<Longrightarrow> of_nat w < ev_nthreads (eu_e (eu s))"
    using D(5) [OF w] by (simp_all add: w_inv_def)
  note log = D(6) [OF w(2), unfolded log_inv_def]
  have w32: "w < 32" using w n by simp
  note simps = worker_step_def eu_step_simps in_wfi_def finished_def
  show ?thesis
  proof (rule worker_frame [OF inv w])
    show "m_pc t = m_pc s" "completed t = completed s" "eu_e (eu t) = eu_e (eu s)"
      using step by (auto simp: simps split: worker_pc.splits if_splits)
    show "w_pc t x = w_pc s x" "calls t x = calls s x"
      "mcip (clint t) cl x = mcip (clint s) cl x" if "x \<noteq> w" for x
      using step w32 that by (auto simp: simps split: worker_pc.splits if_splits)
    show "workers_wfi (eu t) = workers_wfi (eu s)
        + of_bool (in_wfi (w_pc t w)) - of_bool (in_wfi (w_pc s w))"
      "workers_in_loop (eu t) = workers_in_loop (eu s)
        + of_bool (w_pc t w \<noteq> W_enter) - of_bool (w_pc s w \<noteq> W_enter)"
      using step by (auto simp: simps split: worker_pc.splits if_splits)
    show "fini_count (eu t) = fini_count (eu s)
        + of_bool (finished (w_pc t w) (mcip (clint t) cl w))
        - of_bool (finished (w_pc s w) (mcip (clint s) cl w))" if "phase_of (m_pc s) = Ph_run"
      using step w32 wi that by (auto simp: simps split: worker_pc.splits if_splits)
    show "m_ok n (eu t) (completed s) (m_pc s)"
      using step wi(1) D(4) by (cases "m_pc s") (auto simp: simps split: worker_pc.splits if_splits)
    show "w_inv cl t w"
      using step w32 wi D(4) by (cases "m_pc s")
        (auto simp: w_inv_def simps split: worker_pc.splits if_splits)
    show "log_inv cl t w"
      using step w w32 wi log D(4) by (cases "m_pc s")
        (auto simp: log_inv_def simps split: worker_pc.splits if_splits)
  qed
qed

subsection \<open>Core 0 keeps the invariant\<close>

lemma calls_of_snoc: "calls_of w (es @ [e]) =
    calls_of w es @ (if of_nat w < ev_nthreads e then [ev_call e] else [])"
  by (simp add: calls_of_def)

lemma loop_full:
  assumes "0 < n" and inv: "eu_inv n cl s" and "phase_of (m_pc s) \<noteq> Ph_boot"
  shows "workers_in_loop (eu s) = of_nat n - 1"
proof -
  have "w_pc s w \<noteq> W_enter" if "0 < w" "w < n" for w
    using eu_invD(5) [OF inv that] assms(3) by (cases "phase_of (m_pc s)") (auto simp: w_inv_def)
  then show ?thesis unfolding eu_invD(2) [OF inv] using assms(1) by (intro wcount_all) simp_all
qed

lemma all_in_wfi:
  assumes n: "0 < n" "n < 32" and inv: "eu_inv n cl s" and "workers_wfi (eu s) = of_nat n - 1"
    and "0 < w" "w < n"
  shows "in_wfi (w_pc s w)"
proof -
  have "wcount n (\<lambda>w. in_wfi (w_pc s w)) = of_nat n - 1"
    using assms(4) by (simp only: eu_invD(1) [OF inv])
  then show ?thesis using n assms(5,6) by (subst (asm) wcount_full) auto
qed

lemma all_finished:
  assumes n: "0 < n" "n < 32" and inv: "eu_inv n cl s" and ph: "phase_of (m_pc s) = Ph_run"
    and "fini_count (eu s) = of_nat n - 1" and "0 < w" "w < n"
  shows "finished (w_pc s w) (mcip (clint s) cl w)"
proof -
  have "wcount n (\<lambda>w. finished (w_pc s w) (mcip (clint s) cl w)) = of_nat n - 1"
    using assms(5) by (simp only: eu_invD(3) [OF inv ph])
  then show ?thesis using n assms(6,7) by (subst (asm) wcount_full) auto
qed

text \<open>A step of core 0 changes no worker; the phase decides what has to hold again.\<close>

lemma master_frame:
  assumes inv: "eu_inv n cl s"
    and pc: "w_pc t = w_pc s" and wfi: "workers_wfi (eu t) = workers_wfi (eu s)"
    and loop: "workers_in_loop (eu t) = workers_in_loop (eu s)"
    and m: "m_ok n (eu t) (completed t) (m_pc t)"
    and run: "phase_of (m_pc t) = Ph_run \<Longrightarrow>
          fini_count (eu t) = wcount n (\<lambda>w. finished (w_pc s w) (mcip (clint t) cl w))"
    and w: "\<And>w. 0 < w \<Longrightarrow> w < n \<Longrightarrow> w_inv cl t w"
    and l: "\<And>w. w < n \<Longrightarrow> log_inv cl t w"
  shows "eu_inv n cl t"
  unfolding eu_inv_def using m run w l eu_invD(1,2) [OF inv] by (simp add: pc wfi loop)

lemma single_thread:
  assumes "w < 32" and "of_nat w < (t :: u32)" and "\<not> 1 < t"
  shows "w = 0"
proof -
  have "unat (of_nat w :: u32) = w" using assms(1) by (simp add: unat_of_nat)
  then show ?thesis using assms(2,3) by (simp add: word_less_nat_alt)
qed

lemma gt_1_nz [simp]: "1 < (t :: u32) \<Longrightarrow> t \<noteq> 0"
  by auto

lemmas master_simps = master_step_def eu_step_simps wake_all_def eu_dispatch_push_def
  eu_run_empty_def eu_exit_def Let_def eu_get_workers_in_loop_def eu_get_workers_in_wfi_def

lemma master_inv:
  assumes n: "0 < n" "n < 32" and inv: "eu_inv n cl s"
    and step: "master_step n cl a s = Some t"
  shows "eu_inv n cl t"
proof -
  note D = eu_invD [OF inv]
  note m = D(4)
  note wi = D(5) [unfolded w_inv_def]
  note log = D(6) [unfolded log_inv_def]
  note ql = loop_full [OF n(1) inv] and aw = all_in_wfi [OF n inv] and af = all_finished [OF n inv]
  have nz: "0 < x \<longleftrightarrow> x \<noteq> 0" for x :: u32 by (rule word_neq_0_conv [symmetric])
  show ?thesis
  proof (rule master_frame [OF inv])
    show "w_pc t = w_pc s" "workers_wfi (eu t) = workers_wfi (eu s)"
      "workers_in_loop (eu t) = workers_in_loop (eu s)"
      using step by (auto simp: master_simps split: master_pc.splits if_splits eu_act.splits)
    show "m_ok n (eu t) (completed t) (m_pc t)"
      using step m ql
      by (auto simp: master_simps nz split: master_pc.splits if_splits eu_act.splits)
    show "fini_count (eu t) = wcount n (\<lambda>w. finished (w_pc s w) (mcip (clint t) cl w))"
      if "phase_of (m_pc t) = Ph_run"
    proof (cases "\<exists>u v. m_pc s = M_wake u v")
      case True
      then obtain u v where p: "m_pc s = M_wake u v" by blast
      then have t: "t = m_goto (M_self u) (wake_all n cl s)" and g: "workers_wfi (eu s) = of_nat n - 1"
        using step m by (auto simp: master_step_def split: if_splits)
      have "\<not> finished (w_pc s w) (mcip (clint t) cl w)" if "0 < w" "w < n" for w
        using aw [OF g that] wi [OF that] that n
        by (auto simp: t p m_goto_def wake_all_def finished_def in_wfi_def)
      then show ?thesis using m by (simp add: t p m_goto_def wake_all_def wcount_none)
    next
      case False
      then show ?thesis using step m that D(3)
        by (auto simp: master_simps split: master_pc.splits if_splits eu_act.splits)
    qed
    show "w_inv cl t w" if w: "0 < w" "w < n" for w
      using step m wi [OF w] aw [OF _ w] af [OF _ _ w] w n
      by (cases "m_pc s") (auto simp: w_inv_def master_simps finished_def in_wfi_def
        split: if_splits eu_act.splits)
    show "log_inv cl t w" if w: "w < n" for w
      using step m log [OF w] wi [OF _ w] aw [OF _ _ w] af [OF _ _ _ w] w n
      by (cases "m_pc s") (auto simp: log_inv_def master_simps finished_def in_wfi_def calls_of_snoc nz
        dest: single_thread [rotated] split: if_splits eu_act.splits)
  qed
qed

subsection \<open>Properties of the event unit\<close>

lemma eu_start_inv: "0 < n \<Longrightarrow> eu_start s \<Longrightarrow> eu_inv n cl s"
  by (auto simp: eu_start_def eu_inv_def eu_zero_def no_event_def in_wfi_def w_inv_def log_inv_def
      calls_of_def wcount_none)

lemma eu_reach_inv:
  assumes "0 < n" "n < 32" "reachable (eu_step n cl) eu_start s"
  shows "eu_inv n cl s"
  using assms(3)
  by (rule reachable_invariant)
    (use assms(1,2) in \<open>auto intro: eu_start_inv elim!: eu_step.cases dest: worker_inv master_inv\<close>)

text \<open>
  C13: the event unit is a parallel-for executor. In every reachable state of every interleaving
  (fewer than 32 compute cores) in which core 0 is between two calls of the API, each core
  \<open>w\<close> has called exactly the events that \<open>eu_run_empty\<close> has completed and that have more
  than \<open>w\<close> threads, each of them once and in their order: no call is lost, repeated, made by
  a core outside the team, or still running when \<open>eu_run_empty\<close> returns.\<close>

theorem eu_runs_each_event_once:
  assumes "0 < n" and "n < 32" and "reachable (eu_step n cl) eu_start s" and "m_pc s = M_idle"
    and "w < n"
  shows "calls s w = map ev_call (filter (\<lambda>e. of_nat w < ev_nthreads e) (completed s))"
  using eu_invD(6) [OF eu_reach_inv [OF assms(1-3)] assms(5)] assms(4)
  by (simp add: log_inv_def calls_of_def)

subsection \<open>Progress\<close>

text \<open>
  A step of a worker brings it nearer to its \<open>wfi\<close> or its exit, a step of core 0 nearer to
  its next return; waking the workers costs one step of core 0.
\<close>

fun worker_rank :: "worker_pc \<Rightarrow> bool \<Rightarrow> nat" where
  "worker_rank W_enter pend = 10"
| "worker_rank W_clr pend = 8"
| "worker_rank W_wake pend = 7"
| "worker_rank W_check pend = 6"
| "worker_rank W_test pend = 5"
| "worker_rank W_call pend = 4"
| "worker_rank W_fini pend = 3"
| "worker_rank W_sleep pend = 1"
| "worker_rank W_wfi pend = (if pend then 9 else 0)"
| "worker_rank W_exit pend = 0"

fun master_rank :: "nat \<Rightarrow> master_pc \<Rightarrow> nat" where
  "master_rank n M_boot = 1"
| "master_rank n M_idle = 0"
| "master_rank n (M_push e s) = 1"
| "master_rank n (M_wake t s) = 9 * n + 4"
| "master_rank n (M_self t) = 3"
| "master_rank n (M_join s) = 2"
| "master_rank n M_done = 1"
| "master_rank n (M_exit s) = 9 * n + 2"
| "master_rank n (M_exit_wake s) = 9 * n + 1"
| "master_rank n M_end = 0"

definition eu_measure :: "nat \<Rightarrow> u32 \<Rightarrow> eu_state \<Rightarrow> nat" where
  "eu_measure n cl s = master_rank n (m_pc s)
     + (\<Sum>w = 1..<n. worker_rank (w_pc s w) (mcip (clint s) cl w))"

lemma worker_decreases:
  assumes "n < 32" and inv: "eu_inv n cl s" and w: "0 < w" "w < n"
    and step: "worker_step cl w s = Some t"
  shows "eu_measure n cl t < eu_measure n cl s"
proof -
  have w32: "w < 32" using assms by simp
  have wi: "wk_ok (phase_of (m_pc s)) (w_pc s w) (mcip (clint s) cl w)"
    using eu_invD(5) [OF inv w] by (simp add: w_inv_def)
  have np: "w_pc s w \<noteq> W_wfi \<Longrightarrow> w_pc s w \<noteq> W_clr \<Longrightarrow> \<not> mcip (clint s) cl w"
    using wi by (cases "phase_of (m_pc s)") auto
  have m: "m_pc t = m_pc s"
    using step by (auto simp: worker_step_def eu_step_simps split: worker_pc.splits if_splits)
  have same: "worker_rank (w_pc t x) (mcip (clint t) cl x)
      = worker_rank (w_pc s x) (mcip (clint s) cl x)" if "x \<noteq> w" for x
    using step w32 that
    by (auto simp: worker_step_def eu_step_simps split: worker_pc.splits if_splits)
  have less: "worker_rank (w_pc t w) (mcip (clint t) cl w)
      < worker_rank (w_pc s w) (mcip (clint s) cl w)"
    using step w32 np
    by (auto simp: worker_step_def eu_step_simps split: worker_pc.splits if_splits)
  have "(\<Sum>x = 1..<n. worker_rank (w_pc t x) (mcip (clint t) cl x))
      < (\<Sum>x = 1..<n. worker_rank (w_pc s x) (mcip (clint s) cl x))"
    using w less same
    by (intro sum_strict_mono_ex1) (force simp: le_less)+
  with m show ?thesis by (simp add: eu_measure_def)
qed

lemma wake_rank: "worker_rank pc True \<le> worker_rank pc pend + 9"
  by (cases pc) simp_all

lemma wake_sum:
  assumes "n < 32"
  shows "(\<Sum>x = 1..<n. worker_rank (w_pc s x) (mcip (clint (wake_all n cl s)) cl x))
    \<le> (\<Sum>x = 1..<n. worker_rank (w_pc s x) (mcip (clint s) cl x)) + 9 * n"
proof -
  have "(\<Sum>x = 1..<n. worker_rank (w_pc s x) (mcip (clint (wake_all n cl s)) cl x))
      \<le> (\<Sum>x = 1..<n. worker_rank (w_pc s x) (mcip (clint s) cl x) + 9)"
    using assms by (intro sum_mono) (simp add: wake_all_def wake_rank)
  also have "\<dots> \<le> (\<Sum>x = 1..<n. worker_rank (w_pc s x) (mcip (clint s) cl x)) + 9 * n"
    by (simp only: sum.distrib sum_constant card_atLeastLessThan) simp
  finally show ?thesis .
qed

lemma master_decreases:
  assumes "n < 32" and "m_pc s \<noteq> M_idle" and step: "master_step n cl a s = Some t"
  shows "eu_measure n cl t < eu_measure n cl s"
  using step assms(2) wake_sum [OF assms(1), of s cl]
  by (cases "m_pc s")
    (auto simp: eu_measure_def master_step_def eu_step_simps wake_all_def Let_def split: if_splits)

text \<open>A worker that cannot step sleeps without an interrupt or has left.\<close>

lemma worker_stuck:
  "worker_step cl w s = None \<longleftrightarrow> w_pc s w = W_exit \<or> (w_pc s w = W_wfi \<and> \<not> mcip (clint s) cl w)"
  by (auto simp: worker_step_def split: worker_pc.splits)

lemma stuck_workers:
  assumes n: "0 < n" "n < 32" and inv: "eu_inv n cl s"
    and stuck: "\<And>w. 0 < w \<Longrightarrow> w < n \<Longrightarrow> worker_step cl w s = None"
  shows "(\<exists>t. master_step n cl a s = Some t)
    \<or> (m_pc s = M_end \<and> (\<forall>w. 0 < w \<and> w < n \<longrightarrow> w_pc s w = W_exit))"
proof -
  note D = eu_invD [OF inv]
  have st: "w_pc s w = W_exit \<or> (w_pc s w = W_wfi \<and> \<not> mcip (clint s) cl w)"
    and wk: "wk_ok (phase_of (m_pc s)) (w_pc s w) (mcip (clint s) cl w)" if "0 < w" "w < n" for w
    using stuck [OF that] D(5) [OF that] by (simp_all add: worker_stuck w_inv_def)
  have "workers_wfi (eu s) = of_nat n - 1" if ph: "phase_of (m_pc s) \<noteq> Ph_over"
  proof -
    have "in_wfi (w_pc s w)" if "0 < w" "w < n" for w
      using st [OF that] wk [OF that] ph
      by (cases "phase_of (m_pc s)") (auto simp: in_wfi_def)
    then show ?thesis unfolding D(1) by (intro wcount_all n)
  qed
  moreover have "fini_count (eu s) = of_nat n - 1" if ph: "phase_of (m_pc s) = Ph_run"
  proof -
    have "finished (w_pc s w) (mcip (clint s) cl w)" if "0 < w" "w < n" for w
      using st [OF that] wk [OF that] ph by (auto simp: finished_def)
    then show ?thesis unfolding D(3) [OF ph] by (intro wcount_all n)
  qed
  moreover have "w_pc s w = W_exit" if "m_pc s = M_end" "0 < w" "w < n" for w
    using st [OF that(2,3)] wk [OF that(2,3)] that(1) by auto
  ultimately show ?thesis using D(4)
    by (cases "m_pc s") (auto simp: master_step_def eu_get_workers_in_wfi_def Let_def)
qed

text \<open>
  C14: the event unit does not hang. From every reachable state in which core 0 is inside
  \<open>snrt_omp_bootstrap\<close>, \<open>eu_dispatch_push\<close>, \<open>eu_run_empty\<close> or \<open>eu_exit\<close>, every step of any
  core decreases a natural number, and some core can step, unless the session is over and
  every worker has left the loop. So each of these calls returns, under any scheduler that
  lets an enabled core run.\<close>

theorem eu_calls_return:
  assumes "0 < n" and "n < 32" and "reachable (eu_step n cl) eu_start s" and "m_pc s \<noteq> M_idle"
  shows "(\<forall>t. eu_step n cl s t \<longrightarrow> eu_measure n cl t < eu_measure n cl s)
    \<and> ((\<exists>t. eu_step n cl s t) \<or>
       (m_pc s = M_end \<and> (\<forall>w. 0 < w \<and> w < n \<longrightarrow> w_pc s w = W_exit)))"
proof -
  have inv: "eu_inv n cl s" by (rule eu_reach_inv [OF assms(1-3)])
  have "eu_measure n cl t < eu_measure n cl s" if "eu_step n cl s t" for t
    using that worker_decreases [OF assms(2) inv] master_decreases [OF assms(2,4)]
    by (elim eu_step.cases) auto
  moreover have "(\<exists>t. eu_step n cl s t) \<or>
       (m_pc s = M_end \<and> (\<forall>w. 0 < w \<and> w < n \<longrightarrow> w_pc s w = W_exit))"
  proof (cases "\<exists>w t. 0 < w \<and> w < n \<and> worker_step cl w s = Some t")
    case True
    then show ?thesis by (blast intro: eu_worker)
  next
    case False
    then have "worker_step cl w s = None" if "0 < w" "w < n" for w
      using that by (cases "worker_step cl w s") auto
    from stuck_workers [OF assms(1,2) inv this, of A_run] show ?thesis by (blast intro: eu_master)
  qed
  ultimately show ?thesis by blast
qed

subsection \<open>Schedules\<close>

text \<open>A schedule names the core of each step (and, for core 0, its next call of the API).\<close>

datatype eu_pick = Pick_master eu_act | Pick_worker nat

fun eu_exec :: "nat \<Rightarrow> u32 \<Rightarrow> eu_pick list \<Rightarrow> eu_state \<Rightarrow> eu_state option" where
  "eu_exec n cl [] s = Some s"
| "eu_exec n cl (Pick_master a # ps) s = (case master_step n cl a s of
     None \<Rightarrow> None | Some t \<Rightarrow> eu_exec n cl ps t)"
| "eu_exec n cl (Pick_worker w # ps) s =
     (if 0 < w \<and> w < n then (case worker_step cl w s of None \<Rightarrow> None | Some t \<Rightarrow> eu_exec n cl ps t)
      else None)"

lemma eu_exec_reachable:
  assumes "reachable (eu_step n cl) eu_start s" and "eu_exec n cl ps s = Some t"
  shows "reachable (eu_step n cl) eu_start t"
  using assms
  by (induction n cl ps s rule: eu_exec.induct)
    (auto split: option.splits if_splits intro: reach_step eu_master eu_worker)

definition eu_state0 :: eu_state where
  "eu_state0 = \<lparr>eu = eu_zero, clint = (\<lambda>_. 0), m_pc = M_boot, w_pc = (\<lambda>_. W_enter),
     calls = (\<lambda>_. []), completed = []\<rparr>"

lemma eu_state0_start: "reachable (eu_step n cl) eu_start eu_state0"
  by (rule reach_start) (simp add: eu_start_def eu_state0_def mcip_def)

lemmas eu_exec_reach = eu_exec_reachable [OF eu_state0_start]

definition sample_event :: eu_event where
  "sample_event = \<lparr>ev_fn = 0x80000100, ev_data = 0x10000040, ev_argc = 3, ev_nthreads = 2\<rparr>"

text \<open>Two cores: start-up, then a dispatch and its execution.\<close>

definition boot_schedule :: "eu_pick list" where
  "boot_schedule = replicate 5 (Pick_worker 1) @ [Pick_master A_run]"

definition run_schedule :: "eu_pick list" where
  "run_schedule = boot_schedule @ [Pick_master (A_push sample_event), Pick_master A_run]
     @ replicate 3 (Pick_master A_run) @ replicate 7 (Pick_worker 1) @ replicate 2 (Pick_master A_run)"

definition exit_schedule :: "eu_pick list" where
  "exit_schedule = boot_schedule @ [Pick_master (A_push sample_event), Pick_master A_run]
     @ replicate 3 (Pick_master A_exit) @ replicate 4 (Pick_worker 1)"

lemma run_schedule_result:
  "map_option (\<lambda>s. (m_pc s, calls s 0, calls s 1, completed s)) (eu_exec 2 0 run_schedule eu_state0)
    = Some (M_idle, [ev_call sample_event], [ev_call sample_event], [sample_event])"
  by code_simp

lemma exit_schedule_result:
  "map_option (\<lambda>s. (m_pc s, w_pc s 1, calls s 0, calls s 1, ev_nthreads (eu_e (eu s))))
     (eu_exec 2 0 exit_schedule eu_state0) = Some (M_end, W_exit, [], [], 2)"
  by code_simp

theorem eu_runs_each_event_once_witness:
  "\<exists>s. reachable (eu_step 2 0) eu_start s \<and> completed s = [sample_event]
     \<and> calls s 1 = [ev_call sample_event]"
proof -
  obtain s where s: "eu_exec 2 0 run_schedule eu_state0 = Some s"
    and r: "m_pc s = M_idle" "completed s = [sample_event]"
    using run_schedule_result by auto
  have reach: "reachable (eu_step 2 0) eu_start s" by (rule eu_exec_reach [OF s])
  have "calls s 1 = map ev_call (filter (\<lambda>e. of_nat 1 < ev_nthreads e) (completed s))"
    by (rule eu_runs_each_event_once [OF _ _ reach r(1)]) simp_all
  then show ?thesis using reach r(2) by (auto simp: sample_event_def)
qed

theorem eu_calls_return_witness:
  "\<exists>s. reachable (eu_step 2 0) eu_start s \<and> m_pc s = M_boot \<and> (\<exists>t. eu_step 2 0 s t)"
proof -
  have m: "m_pc eu_state0 = M_boot" by (simp add: eu_state0_def)
  then show ?thesis
    using eu_calls_return [OF _ _ eu_state0_start, of 2 0] eu_state0_start by auto
qed

text \<open>
  \<open>eu_exit\<close> does not empty the queue. Its comment says it makes sure that the queue is
  empty, but it calls \<open>eu_run_empty\<close> only when \<open>nthreads\<close> is 0, that is, when there is nothing
  to run: with an event dispatched and not yet run, the session ends, every worker leaves the
  loop and no core has called the event's function.\<close>

lemma eu_exit_drops_event:
  "\<exists>s. reachable (eu_step 2 0) eu_start s \<and> m_pc s = M_end \<and> w_pc s 1 = W_exit
     \<and> 0 < ev_nthreads (eu_e (eu s)) \<and> calls s 0 = [] \<and> calls s 1 = []"
proof -
  obtain s where s: "eu_exec 2 0 exit_schedule eu_state0 = Some s"
    and r: "m_pc s = M_end" "w_pc s 1 = W_exit" "calls s 0 = []" "calls s 1 = []"
      "ev_nthreads (eu_e (eu s)) = 2"
    using exit_schedule_result by auto
  then show ?thesis using eu_exec_reach [OF s] by (intro exI [of _ s]) simp
qed

end
