(* ===== verification/Kmp.thy ===== *)
theory Kmp
  imports Eu
begin

text \<open>
  The OpenMP entry points (\<open>sw/runtime/src/omp/kmp.c\<close>, \<open>kmp.h\<close>, \<open>omp.c\<close>, \<open>omp.h\<close>) in the
  configuration without \<open>OMPSTATIC_NUMTHREADS\<close>: the runtime structure \<open>omp_t\<close>, the fork call
  and the wrapper every thread runs, and the static loop schedules.

  The structures the runtime allocates in the L1 memory are words of a store, at the addresses
  the allocator returns, since the argument vector of a fork and \<open>omp_t\<close> are neighbours.
  \<open>char\<close> is unsigned on RISC-V. Signed arithmetic wraps, as it does on the core.
\<close>

subsection \<open>Schedules\<close>

datatype sched_type = kmp_sch_lower | kmp_sch_static_chunked | kmp_sch_static
  | kmp_sch_dynamic_chunked | kmp_sch_guided_chunked | kmp_sch_runtime | kmp_sch_auto
  | kmp_sch_trapezoidal | kmp_sch_static_greedy | kmp_sch_static_balanced
  | kmp_sch_guided_iterative_chunked | kmp_sch_guided_analytical_chunked | kmp_sch_static_steal
  | kmp_sch_static_balanced_chunked | kmp_sch_guided_simd | kmp_sch_runtime_simd | kmp_sch_upper
  | kmp_ord_lower | kmp_ord_static_chunked | kmp_ord_static | kmp_ord_dynamic_chunked
  | kmp_ord_guided_chunked | kmp_ord_runtime | kmp_ord_auto | kmp_ord_trapezoidal | kmp_ord_upper
  | kmp_distribute_static_chunked | kmp_distribute_static
  | kmp_nm_lower | kmp_nm_static_chunked | kmp_nm_static | kmp_nm_dynamic_chunked
  | kmp_nm_guided_chunked | kmp_nm_runtime | kmp_nm_auto | kmp_nm_trapezoidal
  | kmp_nm_static_greedy | kmp_nm_static_balanced | kmp_nm_guided_iterative_chunked
  | kmp_nm_guided_analytical_chunked | kmp_nm_static_steal | kmp_nm_ord_static_chunked
  | kmp_nm_ord_static | kmp_nm_ord_dynamic_chunked | kmp_nm_ord_guided_chunked
  | kmp_nm_ord_runtime | kmp_nm_ord_auto | kmp_nm_ord_trapezoidal | kmp_nm_upper
  | kmp_sch_modifier_monotonic | kmp_sch_modifier_nonmonotonic

fun sched_value :: "sched_type \<Rightarrow> u32" where
  "sched_value kmp_sch_lower = 32"
| "sched_value kmp_sch_static_chunked = 33"
| "sched_value kmp_sch_static = 34"
| "sched_value kmp_sch_dynamic_chunked = 35"
| "sched_value kmp_sch_guided_chunked = 36"
| "sched_value kmp_sch_runtime = 37"
| "sched_value kmp_sch_auto = 38"
| "sched_value kmp_sch_trapezoidal = 39"
| "sched_value kmp_sch_static_greedy = 40"
| "sched_value kmp_sch_static_balanced = 41"
| "sched_value kmp_sch_guided_iterative_chunked = 42"
| "sched_value kmp_sch_guided_analytical_chunked = 43"
| "sched_value kmp_sch_static_steal = 44"
| "sched_value kmp_sch_static_balanced_chunked = 45"
| "sched_value kmp_sch_guided_simd = 46"
| "sched_value kmp_sch_runtime_simd = 47"
| "sched_value kmp_sch_upper = 48"
| "sched_value kmp_ord_lower = 64"
| "sched_value kmp_ord_static_chunked = 65"
| "sched_value kmp_ord_static = 66"
| "sched_value kmp_ord_dynamic_chunked = 67"
| "sched_value kmp_ord_guided_chunked = 68"
| "sched_value kmp_ord_runtime = 69"
| "sched_value kmp_ord_auto = 70"
| "sched_value kmp_ord_trapezoidal = 71"
| "sched_value kmp_ord_upper = 72"
| "sched_value kmp_distribute_static_chunked = 91"
| "sched_value kmp_distribute_static = 92"
| "sched_value kmp_nm_lower = 160"
| "sched_value kmp_nm_static_chunked = 33 - 32 + 160"
| "sched_value kmp_nm_static = 162"
| "sched_value kmp_nm_dynamic_chunked = 163"
| "sched_value kmp_nm_guided_chunked = 164"
| "sched_value kmp_nm_runtime = 165"
| "sched_value kmp_nm_auto = 166"
| "sched_value kmp_nm_trapezoidal = 167"
| "sched_value kmp_nm_static_greedy = 168"
| "sched_value kmp_nm_static_balanced = 169"
| "sched_value kmp_nm_guided_iterative_chunked = 170"
| "sched_value kmp_nm_guided_analytical_chunked = 171"
| "sched_value kmp_nm_static_steal = 172"
| "sched_value kmp_nm_ord_static_chunked = 193"
| "sched_value kmp_nm_ord_static = 194"
| "sched_value kmp_nm_ord_dynamic_chunked = 195"
| "sched_value kmp_nm_ord_guided_chunked = 196"
| "sched_value kmp_nm_ord_runtime = 197"
| "sched_value kmp_nm_ord_auto = 198"
| "sched_value kmp_nm_ord_trapezoidal = 199"
| "sched_value kmp_nm_upper = 200"
| "sched_value kmp_sch_modifier_monotonic = push_bit 29 1"
| "sched_value kmp_sch_modifier_nonmonotonic = push_bit 30 1"

subsection \<open>Static schedules\<close>

record kmp_bounds =
  p_last :: u32
  p_lower :: u32
  p_upper :: u32
  p_stride :: u32

text \<open>
  \<open>__kmpc_for_static_init_4\<close> for a team of \<open>nb\<close> threads and the thread \<open>threadNum\<close>;
  \<open>null_last\<close> tells whether \<open>plastiter\<close> is null. The result is \<open>None\<close> where the code divides
  by zero or stores through the null pointer. The mixed products with the unsigned
  \<open>threadNum\<close> and \<open>loopSize\<close> are unsigned, and all of them are taken modulo \<open>2\<^sup>3\<^sup>2\<close>.
\<close>

definition kmpc_static_chunked ::
  "u32 \<Rightarrow> u32 \<Rightarrow> bool \<Rightarrow> kmp_bounds \<Rightarrow> u32 \<Rightarrow> u32 \<Rightarrow> kmp_bounds option" where
  "kmpc_static_chunked nb threadNum null_last b incr chunk =
     (let globalUpper = p_upper b;
          span = incr * chunk;
          stride = span * nb;
          lower = p_lower b + span * threadNum;
          upper = lower + span - incr;
          beginLastChunk = globalUpper - smod32 globalUpper span
      in if span = 0 \<or> stride = 0 \<or> null_last then None
         else Some \<lparr>p_last = c_bool (smod32 (beginLastChunk - lower) stride = 0),
                    p_lower = lower, p_upper = upper, p_stride = stride\<rparr>)"

definition kmpc_static ::
  "u32 \<Rightarrow> u32 \<Rightarrow> bool \<Rightarrow> kmp_bounds \<Rightarrow> u32 \<Rightarrow> u32 \<Rightarrow> kmp_bounds option" where
  "kmpc_static nb threadNum null_last b incr loopSize =
     (if nb = 0 then None
      else let globalUpper = p_upper b;
          chunk = loopSize div nb;
          leftOver = loopSize - chunk * nb;
          (chunk, lower) = (if threadNum <s leftOver
             then (chunk + 1, p_lower b + threadNum * (chunk + 1) * incr)
             else (chunk, p_lower b + threadNum * chunk * incr + leftOver));
          upper = lower + chunk * incr - incr;
          last = (if null_last then p_last b
                  else c_bool (upper = globalUpper \<and> lower \<le>s globalUpper))
      in Some \<lparr>p_last = last, p_lower = lower, p_upper = upper, p_stride = loopSize\<rparr>)"

definition kmpc_for_static_init_4 ::
  "u8 \<Rightarrow> u32 \<Rightarrow> u32 \<Rightarrow> bool \<Rightarrow> kmp_bounds \<Rightarrow> u32 \<Rightarrow> u32 \<Rightarrow> kmp_bounds option" where
  "kmpc_for_static_init_4 nbThreads threadNum sched null_last b incr chunk =
     (if incr = 0 then None
      else let loopSize = sdiv32 (p_upper b - p_lower b) incr + 1
      in if sched = sched_value kmp_sch_static_chunked
         then kmpc_static_chunked (ucast nbThreads) threadNum null_last b incr chunk
         else if sched = sched_value kmp_sch_static
         then kmpc_static (ucast nbThreads) threadNum null_last b incr loopSize
         else Some b)"

text \<open>The unsigned variant copies the bounds into signed variables and back.\<close>

definition kmpc_for_static_init_4u ::
  "u8 \<Rightarrow> u32 \<Rightarrow> u32 \<Rightarrow> bool \<Rightarrow> kmp_bounds \<Rightarrow> u32 \<Rightarrow> u32 \<Rightarrow> kmp_bounds option" where
  "kmpc_for_static_init_4u nbThreads threadNum schedtype null_last b incr chunk =
     (let ilower = p_lower b; iupper = p_upper b
      in kmpc_for_static_init_4 nbThreads threadNum schedtype null_last
           (b\<lparr>p_lower := ilower, p_upper := iupper\<rparr>) incr chunk)"

definition kmpc_for_static_fini :: "kmp_bounds \<Rightarrow> kmp_bounds" where
  "kmpc_for_static_fini b = b"

subsection \<open>The runtime structure\<close>

text \<open>
  \<open>omp_t\<close> in words: \<open>plainTeam\<close> (\<open>nbThreads\<close> is the low byte of word 0, then the loop fields
  and the 16 epochs), \<open>numThreads\<close>, \<open>maxThreads\<close>, \<open>kmpc_barrier\<close>, \<open>kmpc_args\<close>: 108 bytes.
\<close>

record omp_rt =
  kmpc_args :: u32
  omp_p :: u32
  omp_mem :: "u32 \<Rightarrow> u32"
  omp_alloc :: snrt_allocator

definition KMP_FORK_MAX_NARGS :: u32 where "KMP_FORK_MAX_NARGS = 12"
definition sizeof_omp_t :: u32 where "sizeof_omp_t = 108"
definition off_loop_epoch :: u32 where "off_loop_epoch = 4"
definition off_loop_is_setup :: u32 where "off_loop_is_setup = 24"
definition off_core_epoch :: u32 where "off_core_epoch = 28"
definition off_numThreads :: u32 where "off_numThreads = 92"
definition off_maxThreads :: u32 where "off_maxThreads = 96"
definition off_kmpc_barrier :: u32 where "off_kmpc_barrier = 100"

definition put_word :: "u32 \<Rightarrow> u32 \<Rightarrow> omp_rt \<Rightarrow> omp_rt" where
  "put_word a v s = s\<lparr>omp_mem := (omp_mem s)(a := v)\<rparr>"

definition omp_numThreads :: "omp_rt \<Rightarrow> u32" where
  "omp_numThreads s = omp_mem s (omp_p s + off_numThreads)"

definition nbThreads_of :: "omp_rt \<Rightarrow> u8" where
  "nbThreads_of s = ucast (omp_mem s (omp_p s))"

definition set_nbThreads :: "u32 \<Rightarrow> omp_rt \<Rightarrow> omp_rt" where
  "set_nbThreads n s =
     put_word (omp_p s) ((omp_mem s (omp_p s) AND NOT 0xFF) OR (n AND 0xFF)) s"

definition omp_l1_alloc :: "u32 \<Rightarrow> omp_rt \<Rightarrow> u32 \<times> omp_rt" where
  "omp_l1_alloc n s = (let (p, a) = snrt_l1_alloc n (omp_alloc s) in (p, s\<lparr>omp_alloc := a\<rparr>))"

text \<open>The loop over \<open>core_epoch\<close>.\<close>

definition clear_epochs :: "u32 \<Rightarrow> omp_rt \<Rightarrow> omp_rt" where
  "clear_epochs p s = for_upto 0 16 (\<lambda>i s. put_word (p + off_core_epoch + 4 * of_nat i) 0 s) s"

text \<open>\<open>omp_init\<close> on core 0; the other cores wait for \<open>omp_p\<close>.\<close>

definition omp_init :: "snrt_cfg \<Rightarrow> omp_rt \<Rightarrow> omp_rt" where
  "omp_init c s =
     (let (args, s) = omp_l1_alloc (4 * KMP_FORK_MAX_NARGS) s;
          s = s\<lparr>kmpc_args := args\<rparr>;
          (p, s) = omp_l1_alloc sizeof_omp_t s;
          s = s\<lparr>omp_p := p\<rparr>;
          nbCores = snrt_cluster_compute_core_num c;
          s = put_word (p + off_numThreads) nbCores s;
          s = put_word (p + off_maxThreads) nbCores s;
          s = set_nbThreads nbCores s;
          s = put_word (p + off_loop_epoch) 0 s;
          s = put_word (p + off_loop_is_setup) 0 s;
          s = clear_epochs p s;
          (bar, s) = omp_l1_alloc 8 s;
          s = put_word (p + off_kmpc_barrier) bar s;
          s = put_word (bar + 4) 0 (put_word bar 0 s);
          (prof, s) = omp_l1_alloc 4 s
      in s)"

subsection \<open>Fork\<close>

text \<open>
  What a hart does besides computing: a call of the function at an address with the thread
  number and a list of arguments, a call of \<open>snrt_exit\<close>, a call into the event unit.
\<close>

datatype omp_act = Call_fn u32 u32 "u32 list" | Call_exit u32 | Call_eu eu_act

text \<open>
  The \<open>switch\<close> of \<open>__microtask_wrapper\<close>: the cases in their order, each with the number of
  arguments it passes and whether a \<open>break\<close> ends it. A case without \<open>break\<close> falls into the
  next one.
\<close>

definition microtask_cases :: "(nat \<times> bool) list" where
  "microtask_cases = [(0, True), (1, True), (2, True), (3, True), (4, True), (5, True), (6, True),
     (7, True), (8, False), (9, False), (10, False), (11, False), (12, True)]"

fun fall_through :: "(nat \<times> bool) list \<Rightarrow> nat list" where
  "fall_through [] = []"
| "fall_through ((k, brk) # cs) = k # (if brk then [] else fall_through cs)"

definition switch_from :: "nat \<Rightarrow> nat list" where
  "switch_from argc = fall_through (dropWhile (\<lambda>(k, _). k \<noteq> argc) microtask_cases)"

definition microtask_wrapper :: "snrt_cfg \<Rightarrow> u32 \<Rightarrow> u32 \<Rightarrow> u32 \<Rightarrow> omp_rt \<Rightarrow> omp_act list" where
  "microtask_wrapper c h arg argc s =
     (let tid = snrt_cluster_core_idx c h;
          fn = omp_mem s arg;
          p_argv = (\<lambda>i. omp_mem s (arg + 4 + 4 * of_nat i));
          call = (\<lambda>k. Call_fn fn tid (map p_argv [0..<k]))
      in if unat argc \<le> 12 then map call (switch_from (unat argc))
         else Call_exit (-1) # map call (switch_from 0))"

text \<open>\<open>parallelRegion\<close>: the team size, then the dispatch and the execution of the event.\<close>

definition parallelRegion :: "u32 \<Rightarrow> u32 \<Rightarrow> u32 \<Rightarrow> u32 \<Rightarrow> omp_rt \<Rightarrow> omp_rt \<times> omp_act list" where
  "parallelRegion argc data fn num_threads s =
     (set_nbThreads num_threads s,
      [Call_eu (A_push \<lparr>ev_fn = fn, ev_data = data, ev_argc = argc, ev_nthreads = num_threads\<rparr>),
       Call_eu A_run])"

text \<open>The loop that copies the \<open>n\<close> variadic arguments behind the microtask.\<close>

definition copy_args :: "nat \<Rightarrow> (nat \<Rightarrow> u32) \<Rightarrow> omp_rt \<Rightarrow> omp_rt" where
  "copy_args n va s =
     for_upto 1 (n + 1) (\<lambda>i s. put_word (kmpc_args s + 4 * of_nat i) (va (i - 1)) s) s"

text \<open>
  \<open>__kmpc_fork_call\<close>; \<open>wrapper\<close> is the address of \<open>__microtask_wrapper\<close>, \<open>va i\<close> the \<open>i\<close>-th
  variadic argument. \<open>argc\<close> is signed.
\<close>

definition kmpc_fork_call ::
  "snrt_cfg \<Rightarrow> u32 \<Rightarrow> u32 \<Rightarrow> u32 \<Rightarrow> u32 \<Rightarrow> (nat \<Rightarrow> u32) \<Rightarrow> omp_rt \<Rightarrow> omp_rt \<times> omp_act list" where
  "kmpc_fork_call c h wrapper argc microtask va s =
     (let s = put_word (kmpc_args s) microtask s;
          s = copy_args (nat (sint argc)) va s
      in if snrt_cluster_core_idx c h \<noteq> 0
         then (s, [Call_exit (-1), Call_eu (A_push \<lparr>ev_fn = wrapper, ev_data = kmpc_args s,
                   ev_argc = argc, ev_nthreads = omp_numThreads s\<rparr>)])
         else parallelRegion argc (kmpc_args s) wrapper (omp_numThreads s) s)"

subsection \<open>The static schedule\<close>



definition is_last :: "kmp_bounds option \<Rightarrow> bool" where
  "is_last r = (case r of None \<Rightarrow> False | Some b \<Rightarrow> p_last b = 1)"


definition first_of :: "nat \<Rightarrow> nat \<Rightarrow> nat \<Rightarrow> nat" where
  "first_of q r t = t * q + min t r"


lemma first_of_0 [simp]: "first_of q r 0 = 0"
  by (simp add: first_of_def)














text \<open>
  For example, in the loop 0, 2, 4, 6, 8 a thread after the left-over ones adds \<open>leftOver\<close> instead of
  \<open>leftOver * incr\<close>. The two threads get 0..4 and 5..7: the second one
  runs 5 and 7, which are not iterations, 6 and 8 are run by nobody, and no thread is
  told that it has the last iteration.\<close>

lemma static_schedule_stride_2_skips:
  "map (\<lambda>t. map_option (\<lambda>b. (p_lower b, p_upper b, p_last b))
      (kmpc_for_static_init_4 2 t (sched_value kmp_sch_static) False
         \<lparr>p_last = 0, p_lower = 0, p_upper = 8, p_stride = 0\<rparr> 2 0)) [0, 1]
    = [Some (0, 4, 0), Some (5, 7, 0)]"
  by code_simp

lemma smod_eq_0_iff: "(a :: int) smod b = 0 \<longleftrightarrow> b dvd a"
  by (auto simp: smod_int_alt_def sgn_0_0 simp flip: dvd_eq_mod_eq_0)

lemma abs_smod_le: "\<bar>(a :: int) smod b\<bar> \<le> \<bar>a\<bar>"
proof -
  have "\<bar>a\<bar> mod \<bar>b\<bar> \<le> \<bar>a\<bar>" by (rule zmod_le_nonneg_dividend) simp
  moreover have "0 \<le> \<bar>a\<bar> mod \<bar>b\<bar>" by (cases "b = 0") simp_all
  ultimately show ?thesis by (auto simp: smod_int_alt_def abs_mult sgn_if)
qed

text \<open>Round robin: the chunk of iteration \<open>i\<close> belongs to thread \<open>(i div c) mod n\<close>.\<close>

lemma div_mod_split:
  fixes x c r n :: int
  assumes "0 < c" "0 \<le> r" "r < c" "0 < n"
  shows "(x * c + r) mod (n * c) = (x mod n) * c + r"
proof -
  have "(x * c + r) div c = x" "(x * c + r) mod c = r"
    using assms by (simp_all add: mod_pos_pos_trivial)
  then show ?thesis
    using zmod_zmult2_eq [of n "x * c + r" c] assms by (simp add: mult.commute)
qed

lemma mod_eq_sub_dvd: "0 \<le> t \<Longrightarrow> t < n \<Longrightarrow> d mod n = t \<longleftrightarrow> n dvd (d - t)" for d n t :: int
  by (metis mod_eq_dvd_iff mod_pos_pos_trivial)

lemma round_robin:
  fixes i c n t :: int
  assumes "0 < c" "0 < n" "0 \<le> t" "t < n" "0 \<le> i"
  shows "t * c \<le> i \<and> (i - t * c) mod (n * c) < c \<longleftrightarrow> (i div c) mod n = t"
proof -
  have i: "i = (i div c) * c + i mod c" by simp
  have "i - t * c = (i div c - t) * c + i mod c"
    by (subst i) (simp add: algebra_simps)
  then have m: "(i - t * c) mod (n * c) = ((i div c - t) mod n) * c + i mod c"
    using assms by (simp add: div_mod_split)
  have "((i div c - t) mod n) * c + i mod c < c \<longleftrightarrow> (i div c - t) mod n = 0"
  proof
    assume "((i div c - t) mod n) * c + i mod c < c"
    then have "((i div c - t) mod n) * c < 1 * c" using assms(1) pos_mod_sign [of c i] by linarith
    then have "(i div c - t) mod n < 1" using assms(1) by (simp only: mult_less_cancel_right_pos)
    then show "(i div c - t) mod n = 0" using pos_mod_sign [of n "i div c - t"] assms(2) by linarith
  qed (use assms in simp)
  moreover have "(i div c - t) mod n = 0 \<longleftrightarrow> (i div c) mod n = t"
    using mod_eq_sub_dvd [OF assms(3,4), of "i div c"] by (simp add: dvd_eq_mod_eq_0)
  moreover have "t * c \<le> i" if "(i div c) mod n = t"
  proof -
    have "t \<le> i div c" using that assms zmod_le_nonneg_dividend [of "i div c" n]
      by (simp add: pos_imp_zdiv_nonneg_iff)
    then have "t * c \<le> (i div c) * c" using assms(1) by simp
    then show ?thesis using pos_mod_sign [of c i] assms(1) i by linarith
  qed
  ultimately show ?thesis using m by auto
qed

text \<open>
  The compiled loop of a chunked schedule starts at the lower bound and advances by the stride;
  in every round it runs one chunk, cut off at the end of the loop.
\<close>

definition in_chunks :: "kmp_bounds option \<Rightarrow> int \<Rightarrow> bool" where
  "in_chunks r i = (case r of None \<Rightarrow> False
     | Some b \<Rightarrow> sint (p_lower b) \<le> i
        \<and> (i - sint (p_lower b)) mod sint (p_stride b) \<le> sint (p_upper b) - sint (p_lower b))"

lemma kmpc_chunked_bounds:
  assumes L: "sint (p_lower b) = 0" and U: "sint (p_upper b) = U" "0 \<le> U"
    and c: "sint chunk = c" "0 < c" and n: "0 < nb" "n = unat nb" and t: "t < n"
    and small: "U + int n * c < 2147483648"
  shows "\<exists>b'. kmpc_for_static_init_4 nb (of_nat t) (sched_value kmp_sch_static_chunked) False b 1 chunk
        = Some b'
    \<and> sint (p_lower b') = int t * c \<and> sint (p_upper b') = int t * c + c - 1
    \<and> sint (p_stride b') = int n * c \<and> (p_last b' = 1 \<longleftrightarrow> (U div c) mod int n = int t)"
proof -
  have n0: "0 < n" and n256: "n < 256"
    using n unsigned_less [of nb, where 'a = nat] by (simp_all add: word_greater_zero_iff unat_gt_0)
  have w: "p_lower b = word_of_int 0" "p_upper b = word_of_int U" "chunk = word_of_int c"
    unfolding L [symmetric] U(1) [symmetric] c(1) [symmetric] by simp_all
  have nbw: "(ucast nb :: u32) = of_nat n"
    by (rule unat_eqI) (use n256 n in \<open>simp add: unsigned_ucast_eq take_bit_nat_def unat_of_nat\<close>)
  have tc: "int t * c + c \<le> int n * c"
  proof -
    have "(int t + 1) * c \<le> int n * c" using t c(2) by (intro mult_right_mono) simp_all
    then show ?thesis by (simp add: algebra_simps)
  qed
  have tc0: "0 \<le> int t * c" using c(2) by simp
  have "U mod c \<le> U" using U(2) by (rule zmod_le_nonneg_dividend)
  moreover have "0 \<le> U mod c" using c(2) by simp
  moreover have "U - U mod c = (U div c) * c" by (rule minus_mod_eq_div_mult)
  ultimately have dU: "U - U mod c = (U div c) * c" "0 \<le> (U div c) * c" "(U div c) * c \<le> U"
    by linarith+
  define lw uw st where "lw = (word_of_int (int t * c) :: u32)"
    and "uw = (word_of_int (int t * c + c - 1) :: u32)" and "st = (word_of_int (int n * c) :: u32)"
  have s: "sint lw = int t * c" "sint uw = int t * c + c - 1" "sint st = int n * c"
    unfolding lw_def uw_def st_def using small tc tc0 c(2) U(2) by (intro sint32_of_int; linarith)+
  have e: "1 * chunk = word_of_int c" "chunk * of_nat n = st"
    "p_lower b + chunk * of_nat t = lw" "lw + chunk - 1 = uw"
    by (simp_all add: w lw_def uw_def st_def algebra_simps)
  have m1: "smod32 (p_upper b) chunk = word_of_int (U mod c)"
    using U c by (simp add: smod32_def smod_int_alt_def sgn_if)
  have d: "p_upper b - smod32 (p_upper b) chunk - lw = word_of_int ((U div c - int t) * c)"
  proof -
    have "p_upper b - word_of_int (U mod c) - lw = word_of_int (U - U mod c - int t * c)"
      unfolding w lw_def by simp
    then show ?thesis unfolding m1 dU(1) by (simp only: left_diff_distrib)
  qed
  have sd: "sint (word_of_int ((U div c - int t) * c) :: u32) = (U div c - int t) * c"
    unfolding left_diff_distrib using dU tc tc0 small c(2) U(2) by (intro sint32_of_int; linarith)
  have last: "smod32 (p_upper b - smod32 (p_upper b) chunk - lw) st = 0
      \<longleftrightarrow> (U div c) mod int n = int t"
  proof -
    let ?k = "(U div c - int t) * c"
    have "\<bar>?k smod (int n * c)\<bar> < 2147483648"
      using abs_smod_le [of ?k "int n * c"] dU tc tc0 small c(2) U(2)
      unfolding left_diff_distrib by linarith
    then have "(word_of_int (?k smod (int n * c)) :: u32) = 0 \<longleftrightarrow> ?k smod (int n * c) = 0"
      by (metis abs_less_iff minus_less_iff of_int_0 order_less_imp_le sint32_of_int signed_0)
    then show ?thesis
      unfolding d unfolding smod32_def sd s(3) smod_eq_0_iff
      using c(2) t mod_eq_sub_dvd [of "int t" "int n" "U div c"] by simp
  qed
  have nz: "chunk \<noteq> 0" "st \<noteq> 0" using c s(3) n0 by auto
  show ?thesis
    using nz s last e
    by (simp add: kmpc_for_static_init_4_def kmpc_static_chunked_def Let_def nbw)
qed

text \<open>
  the chunked static schedule of a normalised loop (from 0 to \<open>U\<close> in steps of 1, the form
  the compiler gives every loop) is a round robin over the threads: every iteration is in the
  chunks of exactly one thread, that of number \<open>(i div chunk) mod threads\<close>, and the flag of the
  last iteration is set exactly for the thread that runs iteration \<open>U\<close>.\<close>

lemma chunked_schedule_partition:
  assumes "0 < nb" and "sint (p_lower b) = 0" and "0 \<le> sint (p_upper b)" and "0 < sint chunk"
    and "sint (p_upper b) + int (unat nb) * sint chunk < 2147483648"
  shows "(\<forall>i t. 0 \<le> i \<and> i \<le> sint (p_upper b) \<and> t < unat nb \<longrightarrow>
        (in_chunks (kmpc_for_static_init_4 nb (of_nat t) (sched_value kmp_sch_static_chunked)
           False b 1 chunk) i \<longleftrightarrow> t = nat ((i div sint chunk) mod int (unat nb))))
    \<and> (\<forall>t < unat nb.
        is_last (kmpc_for_static_init_4 nb (of_nat t) (sched_value kmp_sch_static_chunked)
           False b 1 chunk)
        \<longleftrightarrow> in_chunks (kmpc_for_static_init_4 nb (of_nat t) (sched_value kmp_sch_static_chunked)
           False b 1 chunk) (sint (p_upper b)))"
proof -
  define n c U where "n = unat nb" and "c = sint chunk" and "U = sint (p_upper b)"
  let ?r = "\<lambda>t. kmpc_for_static_init_4 nb (of_nat t) (sched_value kmp_sch_static_chunked)
           False b 1 chunk"
  have r: "\<exists>b'. ?r t = Some b' \<and> sint (p_lower b') = int t * c
      \<and> sint (p_upper b') = int t * c + c - 1 \<and> sint (p_stride b') = int n * c
      \<and> (p_last b' = 1 \<longleftrightarrow> (U div c) mod int n = int t)" if "t < n" for t
    using assms that by (intro kmpc_chunked_bounds) (simp_all add: n_def c_def U_def)
  have ch: "in_chunks (?r t) i \<longleftrightarrow> (i div c) mod int n = int t"
    if "t < n" and i: "0 \<le> i" for t i
    using r [OF that(1)] round_robin [of c "int n" "int t" i] assms(4) that
    by (auto simp: in_chunks_def c_def)
  have "is_last (?r t) \<longleftrightarrow> (U div c) mod int n = int t" if "t < n" for t
    using r [OF that] by (auto simp: is_last_def)
  moreover have "x = nat ((i div c) mod int n) \<longleftrightarrow> (i div c) mod int n = int x" if "x < n" for x i
    using that by auto
  ultimately show ?thesis
    using ch assms(3) by (auto simp: n_def c_def U_def)
qed

lemma chunked_schedule_partition_witness:
  "in_chunks (kmpc_for_static_init_4 2 (of_nat 1) (sched_value kmp_sch_static_chunked) False
      \<lparr>p_last = 0, p_lower = 0, p_upper = 10, p_stride = 0\<rparr> 1 3) 9"
  using conjunct1 [OF chunked_schedule_partition
      [of 2 "\<lparr>p_last = 0, p_lower = 0, p_upper = 10, p_stride = 0\<rparr>" 3],
      THEN spec [of _ 9], THEN spec [of _ 1]]
  by (simp del: sched_value.simps)

subsection \<open>Fork\<close>

lemma put_word_sel [simp]:
  "omp_mem (put_word a v s) = (omp_mem s)(a := v)" "kmpc_args (put_word a v s) = kmpc_args s"
  "omp_p (put_word a v s) = omp_p s" "omp_alloc (put_word a v s) = omp_alloc s"
  by (simp_all add: put_word_def)

lemma set_nbThreads_sel [simp]:
  "kmpc_args (set_nbThreads n s) = kmpc_args s" "omp_p (set_nbThreads n s) = omp_p s"
  "omp_alloc (set_nbThreads n s) = omp_alloc s"
  "omp_mem (set_nbThreads n s) =
    (omp_mem s)(omp_p s := (omp_mem s (omp_p s) AND NOT 0xFF) OR (n AND 0xFF))"
  by (simp_all add: set_nbThreads_def)

lemma copy_args_0 [simp]: "copy_args 0 va s = s"
  by (simp add: copy_args_def)

lemma copy_args_Suc:
  "copy_args (Suc n) va s = put_word (kmpc_args (copy_args n va s) + 4 * of_nat (Suc n)) (va n)
     (copy_args n va s)"
  by (simp add: copy_args_def for_upto_Suc)

lemma copy_args_sel [simp]:
  "kmpc_args (copy_args n va s) = kmpc_args s" "omp_p (copy_args n va s) = omp_p s"
  by (induction n) (simp_all add: copy_args_Suc del: of_nat_Suc)

text \<open>Word \<open>i\<close> of the argument vector is at its own address as long as there are fewer than \<open>2\<^sup>3\<^sup>0\<close>.\<close>

lemma slot_inj:
  assumes "i < 1073741824" "j < 1073741824"
  shows "(a + 4 * of_nat i :: u32) = a + 4 * of_nat j \<longleftrightarrow> i = j"
proof -
  have u: "unat (4 * of_nat k :: u32) = 4 * k" if "k < 1073741824" for k :: nat
  proof -
    have "(4 * of_nat k :: u32) = of_nat (4 * k)" by simp
    then show ?thesis using that by (simp only: unat_of_nat) simp
  qed
  show ?thesis using u [OF assms(1)] u [OF assms(2)] by (metis add_left_cancel mult_left_cancel zero_neq_numeral)
qed

lemma copy_args_slot:
  assumes "i < n" "n < 1073741824"
  shows "omp_mem (copy_args n va s) (kmpc_args s + 4 * of_nat (Suc i)) = va i"
  using assms
proof (induction n)
  case (Suc n)
  then show ?case using slot_inj [of "Suc i" "Suc n" "kmpc_args s"]
    by (cases "i = n") (simp_all add: copy_args_Suc del: of_nat_Suc)
qed simp

lemma copy_args_other:
  assumes "\<And>i. i < n \<Longrightarrow> x \<noteq> kmpc_args s + 4 * of_nat (Suc i)"
  shows "omp_mem (copy_args n va s) x = omp_mem s x"
  using assms by (induction n) (simp_all add: copy_args_Suc del: of_nat_Suc)

lemma switch_from_small: "k \<le> 7 \<Longrightarrow> switch_from k = [k]"
proof -
  assume "k \<le> 7"
  then have "k = 0 \<or> k = 1 \<or> k = 2 \<or> k = 3 \<or> k = 4 \<or> k = 5 \<or> k = 6 \<or> k = 7" by arith
  then show ?thesis by (elim disjE) (simp_all add: switch_from_def microtask_cases_def)
qed

text \<open>
  The memory after the arguments are stored, for an argument count the \<open>switch\<close> handles, when
  \<open>omp_t\<close> does not lie in the part of the vector that is used.
\<close>

definition fork_ok :: "u32 \<Rightarrow> omp_rt \<Rightarrow> bool" where
  "fork_ok argc s \<longleftrightarrow> (\<forall>i \<le> unat argc. omp_p s \<noteq> kmpc_args s + 4 * of_nat i
     \<and> omp_p s + off_numThreads \<noteq> kmpc_args s + 4 * of_nat i)"

lemma low_byte: "(ucast ((x AND NOT 0xFF) OR (n AND 0xFF) :: u32) :: u8) = ucast n"
proof -
  have m: "(0xFF :: u32) = Bit_Operations.mask 8" by (simp add: mask_eq_exp_minus_1)
  show ?thesis unfolding m by (rule bit_word_eqI) (auto simp: bit_simps)
qed

text \<open>
  C16: a fork with up to 7 arguments reaches the microtask. Core 0 stores the microtask and its
  arguments, sets the team size and dispatches one event for \<open>numThreads\<close> threads; whatever
  core then runs the event's function, the wrapper, on the event's data calls the microtask
  exactly once, with its own thread number and the arguments of the fork in their order.\<close>

theorem fork_calls_microtask:
  assumes "snrt_cluster_core_idx c h = 0" and "unat argc \<le> 7" and "fork_ok argc s"
    and "kmpc_fork_call c h wrapper argc microtask va s = (s', acts)"
  shows "\<exists>ev. acts = [Call_eu (A_push ev), Call_eu A_run] \<and> ev_fn ev = wrapper
    \<and> ev_nthreads ev = omp_numThreads s \<and> nbThreads_of s' = ucast (omp_numThreads s)
    \<and> (\<forall>h'. microtask_wrapper c h' (ev_data ev) (ev_argc ev) s'
        = [Call_fn microtask (snrt_cluster_core_idx c h') (map va [0..<unat argc])])"
proof -
  let ?n = "omp_numThreads s" and ?k = "unat argc"
  define s1 where "s1 = copy_args ?k va (put_word (kmpc_args s) microtask s)"
  have k: "nat (sint argc) = ?k" using assms(2) sint32_of_nat [of ?k] by simp
  have slot: "omp_mem s1 (kmpc_args s + 4 * of_nat (Suc i)) = va i" if "i < ?k" for i
    using copy_args_slot [of i ?k va "put_word (kmpc_args s) microtask s"] that assms(2)
    by (simp add: s1_def del: of_nat_Suc)
  have "omp_mem s1 (kmpc_args s) = omp_mem (put_word (kmpc_args s) microtask s) (kmpc_args s)"
    unfolding s1_def using slot_inj [of 0 _ "kmpc_args s"] assms(2)
    by (intro copy_args_other) (simp del: of_nat_Suc)
  then have head: "omp_mem s1 (kmpc_args s) = microtask" by simp
  have off: "omp_p s \<noteq> kmpc_args s + 4 * of_nat i"
    "omp_p s + off_numThreads \<noteq> kmpc_args s + 4 * of_nat i" if "i \<le> ?k" for i
    using assms(3) that by (simp_all add: fork_ok_def)
  have "omp_mem s1 (omp_p s + off_numThreads)
      = omp_mem (put_word (kmpc_args s) microtask s) (omp_p s + off_numThreads)"
    unfolding s1_def using off(2) by (intro copy_args_other) (simp del: of_nat_Suc)
  then have num: "omp_numThreads s1 = ?n"
    using off(2) [of 0] by (simp add: omp_numThreads_def s1_def)
  have res: "s' = set_nbThreads ?n s1" "acts = [Call_eu (A_push \<lparr>ev_fn = wrapper,
      ev_data = kmpc_args s, ev_argc = argc, ev_nthreads = ?n\<rparr>), Call_eu A_run]"
    using assms(1,4) num
    by (simp_all add: kmpc_fork_call_def parallelRegion_def Let_def k flip: s1_def)
  have sel: "omp_p s1 = omp_p s" by (simp add: s1_def)
  have mem: "omp_mem s' (kmpc_args s + 4 * of_nat i) = omp_mem s1 (kmpc_args s + 4 * of_nat i)"
    if "i \<le> ?k" for i
    using off(1) [OF that] by (simp add: res(1) sel)
  have "omp_mem s' (kmpc_args s) = microtask" using mem [of 0] head by simp
  moreover have "omp_mem s' (kmpc_args s + 4 + 4 * of_nat i) = va i" if "i < ?k" for i
    using mem [of "Suc i"] slot [OF that] that by (simp add: algebra_simps)
  ultimately have "microtask_wrapper c h' (kmpc_args s) argc s'
      = [Call_fn microtask (snrt_cluster_core_idx c h') (map va [0..<?k])]" for h'
    using assms(2) switch_from_small [of ?k]
    by (simp add: microtask_wrapper_def Let_def cong: map_cong)
  moreover have "nbThreads_of s' = ucast ?n" by (simp add: res(1) nbThreads_of_def sel low_byte [simplified])
  ultimately show ?thesis by (simp add: res(2))
qed

definition sample_rt :: omp_rt where
  "sample_rt = omp_init sample_cfg \<lparr>kmpc_args = 0, omp_p = 0, omp_mem = (\<lambda>_. 0),
     omp_alloc = \<lparr>al_base = 0x10000000, al_end = 0x1001f000, al_next = 0x10000000\<rparr>\<rparr>"

lemma omp_l1_alloc_sel:
  "omp_l1_alloc n s = (p, s') \<Longrightarrow> omp_mem s' = omp_mem s \<and> kmpc_args s' = kmpc_args s
    \<and> omp_p s' = omp_p s \<and> p = ucast (al_next (omp_alloc s))
    \<and> al_next (omp_alloc s') = al_next (omp_alloc s) + ucast (snrt_align_up n MIN_CHUNK_SIZE 0)"
  by (auto simp: omp_l1_alloc_def snrt_l1_alloc_def Let_def)

lemma clear_epochs_loop:
  "kmpc_args (for_upto 0 k (\<lambda>i s. put_word (p + 4 * of_nat i) 0 s) s) = kmpc_args s
   \<and> omp_p (for_upto 0 k (\<lambda>i s. put_word (p + 4 * of_nat i) 0 s) s) = omp_p s
   \<and> omp_alloc (for_upto 0 k (\<lambda>i s. put_word (p + 4 * of_nat i) 0 s) s) = omp_alloc s
   \<and> ((\<forall>i < k. x \<noteq> p + 4 * of_nat i) \<longrightarrow>
       omp_mem (for_upto 0 k (\<lambda>i s. put_word (p + 4 * of_nat i) 0 s) s) x = omp_mem s x)"
  by (induction k) (simp_all add: for_upto_Suc)

lemma clear_epochs_sel [simp]:
  "kmpc_args (clear_epochs p s) = kmpc_args s" "omp_p (clear_epochs p s) = omp_p s"
  "omp_alloc (clear_epochs p s) = omp_alloc s"
  unfolding clear_epochs_def using clear_epochs_loop by blast+

lemma clear_epochs_numThreads [simp]:
  assumes "x = p + 92"
  shows "omp_mem (clear_epochs p s) x = omp_mem s x"
proof -
  have "x \<noteq> p + off_core_epoch + 4 * of_nat i" if "i < 16" for i
    using slot_inj [of 23 "7 + i" p] that by (simp add: assms off_core_epoch_def algebra_simps)
  then show ?thesis unfolding clear_epochs_def using clear_epochs_loop by blast
qed

lemma ucast_add_64_32: "(ucast (x + y :: u64) :: u32) = ucast x + ucast y"
proof (rule unat_eqI)
  have "unat (x + y) mod 4294967296 = (unat x + unat y) mod 4294967296"
    by (simp add: unat_word_ariths mod_mod_cancel)
  then show "unat (ucast (x + y) :: u32) = unat (ucast x + ucast y :: u32)"
    by (simp add: unat_ucast64_32 unat_word_ariths mod_add_eq)
qed

text \<open>\<open>omp_t\<close> is allocated right behind the 12 words of the argument vector.\<close>

lemma omp_init_neighbours: "omp_p (omp_init c s) = kmpc_args (omp_init c s) + 48"
proof -
  have "ucast (x + ucast (snrt_align_up (4 * KMP_FORK_MAX_NARGS) MIN_CHUNK_SIZE 0)) = (ucast x + 48 :: u32)"
    for x :: u64
  proof -
    have "snrt_align_up (4 * KMP_FORK_MAX_NARGS) MIN_CHUNK_SIZE 0 = 48" by code_simp
    then show ?thesis by (simp add: ucast_add_64_32)
  qed
  then show ?thesis
    by (simp add: omp_init_def omp_l1_alloc_def snrt_l1_alloc_def Let_def)
qed

lemma fork_ok_init:
  assumes "unat argc \<le> 7"
  shows "fork_ok argc (omp_init c s)"
proof -
  let ?a = "kmpc_args (omp_init c s)"
  have "?a + 4 * of_nat 12 \<noteq> ?a + 4 * of_nat i" "?a + 4 * of_nat 35 \<noteq> ?a + 4 * of_nat i"
    if "i \<le> unat argc" for i
    using slot_inj [of 12 i ?a] slot_inj [of 35 i ?a] that assms by simp_all
  then show ?thesis
    unfolding fork_ok_def omp_init_neighbours by (simp add: off_numThreads_def)
qed

lemma omp_init_numThreads: "omp_numThreads (omp_init c s) = snrt_cluster_compute_core_num c"
proof -
  have s: "snrt_align_up sizeof_omp_t MIN_CHUNK_SIZE 0 = 112"
    "snrt_align_up (4 * KMP_FORK_MAX_NARGS) MIN_CHUNK_SIZE 0 = 48" by code_simp+
  show ?thesis
    by (simp add: omp_init_def omp_l1_alloc_def snrt_l1_alloc_def Let_def omp_numThreads_def s
      ucast_add_64_32 off_numThreads_def off_maxThreads_def off_loop_epoch_def
      off_loop_is_setup_def off_kmpc_barrier_def)
qed

lemma sample_rt_8: "omp_numThreads sample_rt = 8"
  unfolding sample_rt_def omp_init_numThreads by code_simp

theorem fork_calls_microtask_witness:
  "\<exists>s' ev. kmpc_fork_call sample_cfg 16 0x80000040 3 0x80000100 (\<lambda>i. of_nat i + 7) sample_rt
      = (s', [Call_eu (A_push ev), Call_eu A_run])
    \<and> microtask_wrapper sample_cfg 18 (ev_data ev) (ev_argc ev) s'
      = [Call_fn 0x80000100 2 [7, 8, 9]]"
proof -
  let ?f = "kmpc_fork_call sample_cfg 16 0x80000040 3 0x80000100 (\<lambda>i. of_nat i + 7) sample_rt"
  have i: "snrt_cluster_core_idx sample_cfg 16 = 0" "snrt_cluster_core_idx sample_cfg 18 = 2"
    by code_simp+
  obtain s' acts where f: "?f = (s', acts)" by (cases ?f)
  have u: "unat (3 :: u32) = 3" by simp
  have "fork_ok 3 sample_rt" unfolding sample_rt_def by (rule fork_ok_init) simp
  from fork_calls_microtask [OF i(1) _ this f]
  obtain ev where "acts = [Call_eu (A_push ev), Call_eu A_run]"
    "microtask_wrapper sample_cfg 18 (ev_data ev) (ev_argc ev) s'
      = [Call_fn 0x80000100 (snrt_cluster_core_idx sample_cfg 18)
           (map (\<lambda>i. of_nat i + 7) [0..<unat (3 :: u32)])]"
    by auto
  then show ?thesis unfolding u i(2) by (auto simp: f upt_rec)
qed

text \<open>
  the argument vector has room for the microtask and 11 arguments only, although the limit
  is 12 arguments: after \<open>omp_init\<close> the 12th argument of a fork lies on the first word of
  \<open>omp_t\<close>, and the fork itself then stores the team size into its low byte, so every
  thread passes a corrupted pointer to the microtask.\<close>

lemma fork_12_args_clobbers:
  assumes "snrt_cluster_core_idx c h = 0" and "s = omp_init c s0"
    and "kmpc_fork_call c h wrapper 12 microtask va s = (s', acts)"
  shows "omp_mem s' (kmpc_args s + 4 + 4 * 11)
    = (va 11 AND NOT 0xFF) OR (omp_numThreads s AND 0xFF)"
proof -
  define s1 where "s1 = copy_args 12 va (put_word (kmpc_args s) microtask s)"
  have p: "omp_p s = kmpc_args s + 48" using omp_init_neighbours assms(2) by simp
  have p1: "omp_p s1 = kmpc_args s + 48" by (simp add: s1_def p)
  have slot: "omp_mem s1 (kmpc_args s + 48) = va 11"
    using copy_args_slot [of 11 12 va "put_word (kmpc_args s) microtask s"] by (simp add: s1_def)
  have far: "kmpc_args s + 140 \<noteq> kmpc_args s + 4 * of_nat i" if "i \<le> 12" for i
    using slot_inj [of 35 i "kmpc_args s"] that by simp
  have "omp_mem s1 (kmpc_args s + 140) = omp_mem (put_word (kmpc_args s) microtask s) (kmpc_args s + 140)"
    unfolding s1_def using far by (intro copy_args_other) (simp del: of_nat_Suc)
  then have num: "omp_numThreads s1 = omp_numThreads s"
    using far [of 0] by (simp add: omp_numThreads_def p p1 off_numThreads_def add.assoc)
  have "s' = set_nbThreads (omp_numThreads s) s1"
    using assms(1,3) num by (simp add: kmpc_fork_call_def parallelRegion_def Let_def flip: s1_def)
  then show ?thesis by (simp add: p1 slot)
qed

lemma fork_12_args_clobbers_witness:
  "\<exists>s'. omp_mem s' (kmpc_args sample_rt + 48) = 0x80000308 \<and>
     s' = fst (kmpc_fork_call sample_cfg 16 0x80000040 12 0x80000100 (\<lambda>_. 0x80000300) sample_rt)"
proof -
  let ?f = "kmpc_fork_call sample_cfg 16 0x80000040 12 0x80000100 (\<lambda>_. 0x80000300) sample_rt"
  have i: "snrt_cluster_core_idx sample_cfg 16 = 0" by code_simp
  obtain s' acts where f: "?f = (s', acts)" by (cases ?f)
  from fork_12_args_clobbers [OF i sample_rt_def f]
  show ?thesis by (simp add: f sample_rt_8 add.commute)
qed

text \<open>
  with 8 arguments every thread runs the parallel region five times: the cases 8 to 11 of the
  wrapper have no \<open>break\<close>, so the call with 8 arguments is followed by calls with 9, 10, 11 and
  12, the last arguments of which were never stored.\<close>

lemma microtask_8_args_runs_5_times:
  "microtask_wrapper c h arg 8 s =
     map (\<lambda>k. Call_fn (omp_mem s arg) (snrt_cluster_core_idx c h)
            (map (\<lambda>i. omp_mem s (arg + 4 + 4 * of_nat i)) [0..<k])) [8, 9, 10, 11, 12]"
proof -
  have "switch_from (unat (8 :: u32)) = [8, 9, 10, 11, 12]"
    by (simp add: switch_from_def microtask_cases_def)
  then show ?thesis by (simp only: microtask_wrapper_def Let_def) simp
qed

end
