(* ===== verification/Ring_Queue.thy ===== *)
theory Ring_Queue
  imports Snitch_Prelude
begin

text \<open>
  Bounded queues in a ring of slots: the interface that the data mover task queue
  (\<open>sw/runtime/src/dm.h\<close>) and the NPU command queue (\<open>sw/npu_driver\<close>, \<open>sw/npu_runtime\<close>) share.
  \<open>slice\<close> reads the \<open>n\<close> slots of a ring of \<open>k\<close> slots from a position; the locale \<open>fifo\<close> is what a
  client relies on (\<open>view\<close> is what of an entry the reader sees), and its lemmas say that such a queue delivers what was put in, in that order.
\<close>

subsection \<open>Slots of a ring\<close>

definition slice :: "'a list \<Rightarrow> nat \<Rightarrow> nat \<Rightarrow> nat \<Rightarrow> 'a list" where
  "slice xs k pos n = map (\<lambda>i. xs ! ((pos + i) mod k)) [0..<n]"

lemma length_slice [simp]: "length (slice xs k pos n) = n"
  by (simp add: slice_def)

lemma slice_0 [simp]: "slice xs k pos 0 = []"
  by (simp add: slice_def)

lemma slice_eq_Nil [simp]: "slice xs k pos n = [] \<longleftrightarrow> n = 0"
  by (simp add: slice_def)

lemma slice_Suc: "slice xs k pos (Suc n) = slice xs k pos n @ [xs ! ((pos + n) mod k)]"
  by (simp add: slice_def)

lemma slice_first:
  assumes "0 < k"
  shows "slice xs k pos (Suc n) = xs ! (pos mod k) # slice xs k ((pos + 1) mod k) n"
proof -
  have "[0..<Suc n] = 0 # map Suc [0..<n]" by (simp add: upt_conv_Cons map_Suc_upt del: upt_Suc)
  moreover have "(pos + Suc i) mod k = ((pos + 1) mod k + i) mod k" for i
    by (simp add: mod_add_left_eq)
  ultimately show ?thesis unfolding slice_def by (simp only: list.map map_map o_def add_0_right)
qed

text \<open>Writing the first free slot does not disturb the slots in use.\<close>

lemma slice_update_free:
  assumes "n < k" "0 < k"
  shows "slice (xs[(pos + n) mod k := x]) k pos n = slice xs k pos n"
proof -
  have "(pos + i) mod k \<noteq> (pos + n) mod k" if "i < n" for i
  proof
    assume "(pos + i) mod k = (pos + n) mod k"
    then have "(pos + n) mod k = (pos + i) mod k" by simp
    then have "k dvd (pos + n) - (pos + i)" using that by (simp add: mod_eq_dvd_iff_nat)
    then have "k dvd n - i" by simp
    moreover have "0 < n - i" "n - i < k" using that assms by simp_all
    ultimately show False using dvd_imp_le by fastforce
  qed
  then show ?thesis by (auto simp: slice_def nth_list_update_neq [OF not_sym])
qed

lemma slice_put:
  assumes "n < k" "length xs = k"
  shows "slice (xs[(pos + n) mod k := x]) k pos (Suc n) = slice xs k pos n @ [x]"
  using assms slice_update_free [of n k xs pos x] by (simp add: slice_Suc)

subsection \<open>First in, first out\<close>

text \<open>\<open>Some x\<close> is a put of \<open>x\<close>, \<open>None\<close> a get; the run collects what the gets return.\<close>

fun queue_run ::
  "('b \<Rightarrow> 's \<Rightarrow> 's) \<Rightarrow> ('s \<Rightarrow> 'a) \<Rightarrow> ('s \<Rightarrow> 's) \<Rightarrow> 'b option list \<Rightarrow> 's \<Rightarrow> 'a list \<times> 's" where
  "queue_run put first pull [] s = ([], s)"
| "queue_run put first pull (Some x # ops) s = queue_run put first pull ops (put x s)"
| "queue_run put first pull (None # ops) s =
     (let (ys, t) = queue_run put first pull ops (pull s) in (first s # ys, t))"

text \<open>The client puts only into a queue that is not full and gets only from one that is not empty.\<close>

fun ops_fit :: "nat \<Rightarrow> nat \<Rightarrow> 'a option list \<Rightarrow> bool" where
  "ops_fit cap n [] = True"
| "ops_fit cap n (Some x # ops) \<longleftrightarrow> n < cap \<and> ops_fit cap (Suc n) ops"
| "ops_fit cap n (None # ops) \<longleftrightarrow> 0 < n \<and> ops_fit cap (n - 1) ops"

fun puts_of :: "'a option list \<Rightarrow> 'a list" where
  "puts_of [] = []"
| "puts_of (Some x # ops) = x # puts_of ops"
| "puts_of (None # ops) = puts_of ops"

locale fifo =
  fixes items :: "'s \<Rightarrow> 'a list"
    and ok :: "'s \<Rightarrow> bool"
    and cap :: "nat"
    and view :: "'b \<Rightarrow> 'a"
    and put :: "'b \<Rightarrow> 's \<Rightarrow> 's"
    and first :: "'s \<Rightarrow> 'a"
    and pull :: "'s \<Rightarrow> 's"
  assumes put_ok: "ok s \<Longrightarrow> length (items s) < cap \<Longrightarrow> ok (put x s)"
    and put_items: "ok s \<Longrightarrow> length (items s) < cap \<Longrightarrow> items (put x s) = items s @ [view x]"
    and pull_ok: "ok s \<Longrightarrow> items s \<noteq> [] \<Longrightarrow> ok (pull s)"
    and first_pull: "ok s \<Longrightarrow> items s \<noteq> [] \<Longrightarrow> items s = first s # items (pull s)"
begin

lemma run_fifo:
  assumes "ok s" and "ops_fit cap (length (items s)) ops"
    and "queue_run put first pull ops s = (ys, t)"
  shows "ok t \<and> ys @ items t = items s @ map view (puts_of ops)"
  using assms
proof (induction ops arbitrary: s ys)
  case (Cons opr ops)
  show ?case
  proof (cases opr)
    case None
    then obtain zs where zs: "queue_run put first pull ops (pull s) = (zs, t)" "ys = first s # zs"
      using Cons.prems(3) by (auto split: prod.splits)
    have ne: "items s \<noteq> []" using Cons.prems(2) None by auto
    have l: "length (items (pull s)) = length (items s) - 1"
      using first_pull [OF Cons.prems(1) ne] by (metis diff_Suc_1 length_Cons)
    from Cons.IH [OF pull_ok [OF Cons.prems(1) ne] _ zs(1)] Cons.prems(2) None l
    show ?thesis using first_pull [OF Cons.prems(1) ne] zs(2) by (metis append_Cons ops_fit.simps(3) puts_of.simps(3))
  next
    case (Some x)
    then have r: "queue_run put first pull ops (put x s) = (ys, t)"
      and fit: "length (items s) < cap" "ops_fit cap (Suc (length (items s))) ops"
      using Cons.prems by simp_all
    from Cons.IH [OF put_ok [OF Cons.prems(1) fit(1)] _ r] fit Some
    show ?thesis by (simp add: put_items [OF Cons.prems(1) fit(1)])
  qed
qed simp

lemma run_from_empty:
  assumes "ok s" and "items s = []" and "ops_fit cap 0 ops"
    and "queue_run put first pull ops s = (ys, t)"
  shows "ys @ items t = map view (puts_of ops)"
  using run_fifo [OF assms(1) _ assms(4)] assms(2,3) by simp

end

end
