(* ===== verification/Dm.thy ===== *)
theory Dm
  imports Ring_Queue Mutex Alloc
begin

text \<open>
  The data mover (\<open>sw/runtime/src/dm.h\<close>), in its default configuration (cluster-local CLINT):
  a ring of \<open>DM_TASK_QUEUE_SIZE\<close> tasks that the cores of the cluster fill and the data mover
  core empties, and a request word (\<open>stat_q\<close>) with its answer (\<open>stat_pvalid\<close>).

  One step is one access to a shared word, or the writes to one slot, which nobody else reads
  meanwhile; steps of the cores, of the data mover and of the DMA engine interleave in any
  order. The compiler builtins \<open>__builtin_sdma_*\<close> start a transfer and read the status of the
  engine: the model counts the transfers in flight, and \<open>dma_cap\<close> is the number of transfers
  at which the engine would block.
\<close>

subsection \<open>Data\<close>

definition DM_TASK_QUEUE_SIZE :: nat where
  "DM_TASK_QUEUE_SIZE = 4"

record dm_task =
  t_src :: u64
  t_dst :: u64
  t_size :: u32
  t_sstrd :: u32
  t_dstrd :: u32
  t_nreps :: u32
  t_cfg :: u32
  t_twod :: u32

datatype en_stat = STAT_WAIT_IDLE | STAT_EXIT | STAT_READY

text \<open>\<open>stat_q\<close> holds no request (0) or one.\<close>

record dm_t =
  dm_queue :: "dm_task list"
  queue_back :: u32
  queue_front :: u32
  queue_fill :: u32
  dm_mutex :: u32
  stat_q :: "en_stat option"
  stat_p :: u32
  stat_pvalid :: u32
  dm_wfi :: u32

definition no_task :: dm_task where
  "no_task = \<lparr>t_src = 0, t_dst = 0, t_size = 0, t_sstrd = 0, t_dstrd = 0, t_nreps = 0, t_cfg = 0,
     t_twod = 0\<rparr>"

definition dm_zero :: dm_t where
  "dm_zero = \<lparr>dm_queue = replicate DM_TASK_QUEUE_SIZE no_task, queue_back = 0, queue_front = 0,
     queue_fill = 0, dm_mutex = 0, stat_q = None, stat_p = 0, stat_pvalid = 0, dm_wfi = 0\<rparr>"

text \<open>\<open>dm_init\<close> on the data mover core: 192 bytes of the L1 memory, cleared.\<close>

definition dm_init :: "snrt_allocator \<Rightarrow> (u32 \<times> dm_t) \<times> snrt_allocator" where
  "dm_init a = (let (p, a') = snrt_l1_alloc 192 a in ((p, dm_zero), a'))"

subsection \<open>Tasks\<close>

text \<open>What a caller asks for, and the builtin that the data mover calls.\<close>

datatype dm_copy = Copy_1d u32 u32 u32 \<comment> \<open>\<open>dm_memcpy_async(dest, src, n)\<close>\<close>
  | Copy_2d u64 u64 u32 u32 u32 u32 u32 \<comment> \<open>\<open>dm_memcpy2d_async(src, dst, size, sstrd, dstrd, nreps, cfg)\<close>\<close>

datatype sdma_call = Start_oned u64 u64 u32 u32
  | Start_twod u64 u64 u32 u32 u32 u32 u32

text \<open>The 1D copy leaves the strides of the slot as they are.\<close>

fun fill_task :: "dm_copy \<Rightarrow> dm_task \<Rightarrow> dm_task" where
  "fill_task (Copy_1d dest src n) t =
     t\<lparr>t_src := ucast src, t_dst := ucast dest, t_size := n, t_twod := 0, t_cfg := 0\<rparr>"
| "fill_task (Copy_2d src dst size' sstrd dstrd nreps cfg) t =
     t\<lparr>t_src := src, t_dst := dst, t_size := size', t_sstrd := sstrd, t_dstrd := dstrd,
       t_nreps := nreps, t_twod := 1, t_cfg := cfg\<rparr>"

definition task_call :: "dm_task \<Rightarrow> sdma_call" where
  "task_call t = (if t_twod t \<noteq> 0
     then Start_twod (t_src t) (t_dst t) (t_size t) (t_sstrd t) (t_dstrd t) (t_nreps t) (t_cfg t)
     else Start_oned (t_src t) (t_dst t) (t_size t) (t_cfg t))"

fun copy_call :: "dm_copy \<Rightarrow> sdma_call" where
  "copy_call (Copy_1d dest src n) = Start_oned (ucast src) (ucast dest) n 0"
| "copy_call (Copy_2d src dst size' sstrd dstrd nreps cfg) =
     Start_twod src dst size' sstrd dstrd nreps cfg"

lemma task_call_fill [simp]: "task_call (fill_task c t) = copy_call c"
  by (cases c) (simp_all add: task_call_def)

definition dm_index :: "u32 \<Rightarrow> u32" where
  "dm_index i = (i + 1) mod of_nat DM_TASK_QUEUE_SIZE"

definition write_slot :: "dm_copy \<Rightarrow> dm_t \<Rightarrow> dm_t" where
  "write_slot c d = d\<lparr>dm_queue := (dm_queue d)[unat (queue_front d)
     := fill_task c (dm_queue d ! unat (queue_front d))]\<rparr>"

definition bump_front :: "dm_t \<Rightarrow> dm_t" where
  "bump_front d = d\<lparr>queue_fill := queue_fill d + 1, queue_front := dm_index (queue_front d)\<rparr>"

definition bump_back :: "dm_t \<Rightarrow> dm_t" where
  "bump_back d = d\<lparr>queue_back := dm_index (queue_back d), queue_fill := queue_fill d - 1\<rparr>"

definition back_call :: "dm_t \<Rightarrow> sdma_call" where
  "back_call d = task_call (dm_queue d ! unat (queue_back d))"

subsection \<open>The ring is a queue\<close>

definition dm_items :: "dm_t \<Rightarrow> sdma_call list" where
  "dm_items d = slice (map task_call (dm_queue d)) 4 (unat (queue_back d)) (unat (queue_fill d))"

definition ring_ok :: "dm_t \<Rightarrow> bool" where
  "ring_ok d \<longleftrightarrow> length (dm_queue d) = 4 \<and> unat (queue_back d) < 4 \<and> unat (queue_fill d) \<le> 4
     \<and> unat (queue_front d) = (unat (queue_back d) + unat (queue_fill d)) mod 4"

lemma unat_dm_index: "unat i < 4 \<Longrightarrow> unat (dm_index i) = (unat i + 1) mod 4"
  by (simp add: dm_index_def DM_TASK_QUEUE_SIZE_def unat_mod unat_add_no_ovf)

lemma length_dm_items [simp]: "length (dm_items d) = unat (queue_fill d)"
  by (simp add: dm_items_def)

definition dm_put :: "dm_copy \<Rightarrow> dm_t \<Rightarrow> dm_t" where
  "dm_put c d = bump_front (write_slot c d)"

lemma write_slot_ring:
  assumes ok: "ring_ok d" and room: "unat (queue_fill d) < 4"
  shows "ring_ok (write_slot c d)" and "dm_items (write_slot c d) = dm_items d"
    and "slice (map task_call (dm_queue (write_slot c d))) 4 (unat (queue_back d))
           (Suc (unat (queue_fill d))) = dm_items d @ [copy_call c]"
proof -
  have f: "unat (queue_front d) = (unat (queue_back d) + unat (queue_fill d)) mod 4"
    and l: "length (dm_queue d) = 4" using ok by (simp_all add: ring_ok_def)
  have m: "map task_call (dm_queue (write_slot c d))
      = (map task_call (dm_queue d))[(unat (queue_back d) + unat (queue_fill d)) mod 4 := copy_call c]"
    by (simp add: write_slot_def map_update f)
  show "ring_ok (write_slot c d)" using ok by (simp add: ring_ok_def write_slot_def)
  show "dm_items (write_slot c d) = dm_items d"
    unfolding dm_items_def m using room by (simp add: write_slot_def slice_update_free)
  show "slice (map task_call (dm_queue (write_slot c d))) 4 (unat (queue_back d))
           (Suc (unat (queue_fill d))) = dm_items d @ [copy_call c]"
    unfolding dm_items_def m using room l by (simp add: slice_put)
qed

lemma bump_front_ring:
  assumes ok: "ring_ok d" and room: "unat (queue_fill d) < 4"
  shows "ring_ok (bump_front d)"
    and "dm_items (bump_front d) =
      slice (map task_call (dm_queue d)) 4 (unat (queue_back d)) (Suc (unat (queue_fill d)))"
proof -
  have "unat (queue_fill d + 1) = Suc (unat (queue_fill d))" using room by (simp add: unat_add_no_ovf)
  then show "ring_ok (bump_front d)" and "dm_items (bump_front d) =
      slice (map task_call (dm_queue d)) 4 (unat (queue_back d)) (Suc (unat (queue_fill d)))"
    using ok room by (simp_all add: ring_ok_def bump_front_def dm_items_def unat_dm_index mod_Suc_eq)
qed

lemma bump_back_ring:
  assumes ok: "ring_ok d" and ne: "0 < unat (queue_fill d)"
  shows "ring_ok (bump_back d)" and "dm_items d = back_call d # dm_items (bump_back d)"
proof -
  obtain n where n: "unat (queue_fill d) = Suc n" using ne by (cases "unat (queue_fill d)") auto
  have f: "unat (queue_fill d - 1) = n" using n by (simp add: unat_sub_no_ovf)
  have b: "unat (queue_back d) < 4" and l: "length (dm_queue d) = 4"
    using ok by (simp_all add: ring_ok_def)
  show "ring_ok (bump_back d)"
    using ok n by (simp add: ring_ok_def bump_back_def f unat_dm_index mod_add_left_eq)
  show "dm_items d = back_call d # dm_items (bump_back d)"
    using b l by (simp add: dm_items_def n slice_first bump_back_def f unat_dm_index back_call_def)
qed

interpretation dmq: fifo dm_items ring_ok 4 copy_call dm_put back_call bump_back
proof
  fix d c
  assume "ring_ok d" and "length (dm_items d) < 4"
  then have r: "ring_ok d" "unat (queue_fill d) < 4" by simp_all
  note w = write_slot_ring [OF r, of c]
  have f: "queue_fill (write_slot c d) = queue_fill d" "queue_back (write_slot c d) = queue_back d"
    by (simp_all add: write_slot_def)
  show "ring_ok (dm_put c d)" and "dm_items (dm_put c d) = dm_items d @ [copy_call c]"
    using bump_front_ring [OF w(1)] r(2) w(3) by (simp_all add: dm_put_def f)
next
  fix d
  assume "ring_ok d" and "dm_items d \<noteq> []"
  then show "ring_ok (bump_back d)" and "dm_items d = back_call d # dm_items (bump_back d)"
    using bump_back_ring [of d] by (simp_all add: dm_items_def)
qed

subsection \<open>The cores and the data mover\<close>

text \<open>
  A call of a core: the two copies, \<open>dm_start\<close>, \<open>dm_wait\<close>, \<open>dm_wait_ready\<close>, \<open>dm_exit\<close>.
\<close>

datatype dm_req = Rq_copy dm_copy | Rq_start | Rq_wait | Rq_ready | Rq_exit

text \<open>
  Where a core is. \<open>C_poll\<close>: polling the fill count; \<open>C_lock\<close>, \<open>C_insert\<close>, \<open>C_bump\<close>,
  \<open>C_unlock\<close>: taking the mutex, writing the slot, moving the front, releasing; \<open>C_wake k\<close> and
  \<open>C_signal k\<close>: in \<open>wake_dm\<close>, waiting for the data mover to sleep and setting its interrupt,
  before \<open>k\<close>; \<open>C_drain\<close>, \<open>C_quiet\<close>: the first two waits of \<open>dm_wait\<close>; \<open>C_qlock\<close>, \<open>C_reset\<close>,
  \<open>C_request\<close>, \<open>C_answer\<close>, \<open>C_done\<close>: a request and the wait for its answer; \<open>C_exit\<close>: in
  \<open>dm_exit\<close>.
\<close>

datatype dm_cont = K_return | K_drain | K_answer en_stat

datatype core_pc = C_idle | C_poll dm_copy | C_lock dm_copy | C_insert dm_copy | C_bump dm_copy
  | C_unlock | C_wake dm_cont | C_signal dm_cont | C_drain | C_quiet | C_qlock en_stat
  | C_reset en_stat | C_request en_stat | C_answer en_stat | C_done en_stat | C_exit

text \<open>
  Where the data mover is in \<open>dm_main\<close>; the argument of the last six is \<open>do_exit\<close>.
\<close>

datatype mover_pc = D_loop | D_issue | D_bump | D_stat | D_pvalid | D_clear
  | D_chk_fill bool | D_chk_stat bool | D_inc bool | D_wfi bool | D_clr bool | D_dec bool | D_exited

record dm_sys =
  dm :: dm_t
  dm_irq :: bool                 \<comment> \<open>the pending cluster interrupt of the data mover core\<close>
  c_pc :: "nat \<Rightarrow> core_pc"
  d_pc :: mover_pc
  busy :: nat                    \<comment> \<open>transfers in flight\<close>
  issued :: "sdma_call list"     \<comment> \<open>the calls of \<open>__builtin_sdma_start_*\<close>, in order\<close>
  submitted :: "dm_copy list"    \<comment> \<open>the copies whose queuing is complete, in order\<close>

definition c_goto :: "nat \<Rightarrow> core_pc \<Rightarrow> dm_sys \<Rightarrow> dm_sys" where
  "c_goto h pc s = s\<lparr>c_pc := (c_pc s)(h := pc)\<rparr>"

definition dm_upd :: "(dm_t \<Rightarrow> dm_t) \<Rightarrow> dm_sys \<Rightarrow> dm_sys" where
  "dm_upd f s = s\<lparr>dm := f (dm s)\<rparr>"

fun dm_call :: "dm_req \<Rightarrow> core_pc" where
  "dm_call (Rq_copy c) = C_poll c"
| "dm_call Rq_start = C_wake K_return"
| "dm_call Rq_wait = C_wake K_drain"
| "dm_call Rq_ready = C_qlock STAT_READY"
| "dm_call Rq_exit = C_exit"

fun dm_continue :: "dm_cont \<Rightarrow> core_pc" where
  "dm_continue K_return = C_idle"
| "dm_continue K_drain = C_drain"
| "dm_continue (K_answer q) = C_answer q"

definition dm_core_step :: "nat \<Rightarrow> dm_req \<Rightarrow> dm_sys \<Rightarrow> dm_sys option" where
  "dm_core_step h rq s = (case c_pc s h of
     C_idle \<Rightarrow> Some (c_goto h (dm_call rq) s)
   | C_poll c \<Rightarrow> if of_nat DM_TASK_QUEUE_SIZE \<le> queue_fill (dm s) then None
        else Some (c_goto h (C_lock c) s)
   | C_lock c \<Rightarrow> if dm_mutex (dm s) \<noteq> 0 then None
        else Some (c_goto h (C_insert c) (dm_upd (\<lambda>d. d\<lparr>dm_mutex := 1\<rparr>) s))
   | C_insert c \<Rightarrow> Some (c_goto h (C_bump c) (dm_upd (write_slot c) s))
   | C_bump c \<Rightarrow> Some (c_goto h C_unlock (dm_upd bump_front (s\<lparr>submitted := submitted s @ [c]\<rparr>)))
   | C_unlock \<Rightarrow> Some (c_goto h C_idle (dm_upd (\<lambda>d. d\<lparr>dm_mutex := 0\<rparr>) s))
   | C_wake k \<Rightarrow> if dm_wfi (dm s) = 0 then None else Some (c_goto h (C_signal k) s)
   | C_signal k \<Rightarrow> Some (c_goto h (dm_continue k) (s\<lparr>dm_irq := True\<rparr>))
   | C_drain \<Rightarrow> if queue_fill (dm s) \<noteq> 0 then None else Some (c_goto h C_quiet s)
   | C_quiet \<Rightarrow> if stat_q (dm s) \<noteq> None then None else Some (c_goto h (C_qlock STAT_WAIT_IDLE) s)
   | C_qlock q \<Rightarrow> if dm_mutex (dm s) \<noteq> 0 then None
        else Some (c_goto h (C_reset q) (dm_upd (\<lambda>d. d\<lparr>dm_mutex := 1\<rparr>) s))
   | C_reset q \<Rightarrow> Some (c_goto h (C_request q) (dm_upd (\<lambda>d. d\<lparr>stat_pvalid := 0\<rparr>) s))
   | C_request q \<Rightarrow> Some (c_goto h (C_wake (K_answer q)) (dm_upd (\<lambda>d. d\<lparr>stat_q := Some q\<rparr>) s))
   | C_answer q \<Rightarrow> if stat_pvalid (dm s) = 0 then None else Some (c_goto h (C_done q) s)
   | C_done q \<Rightarrow> Some (c_goto h C_idle (dm_upd (\<lambda>d. d\<lparr>dm_mutex := 0\<rparr>) s))
   | C_exit \<Rightarrow> Some (c_goto h (C_wake K_return) (dm_upd (\<lambda>d. d\<lparr>stat_q := Some STAT_EXIT\<rparr>) s)))"

definition d_goto :: "mover_pc \<Rightarrow> dm_sys \<Rightarrow> dm_sys" where
  "d_goto pc s = s\<lparr>d_pc := pc\<rparr>"

text \<open>The test of the loop \<open>while (!do_exit)\<close>.\<close>

definition d_again :: "bool \<Rightarrow> mover_pc" where
  "d_again do_exit = (if do_exit then D_exited else D_loop)"

definition dm_main_step :: "nat \<Rightarrow> dm_sys \<Rightarrow> dm_sys option" where
  "dm_main_step dma_cap s = (case d_pc s of
     D_loop \<Rightarrow> Some (d_goto (if queue_fill (dm s) \<noteq> 0 then D_issue else D_stat) s)
   | D_issue \<Rightarrow> if busy s < dma_cap
        then Some (d_goto D_bump (s\<lparr>issued := issued s @ [back_call (dm s)], busy := busy s + 1\<rparr>))
        else None
   | D_bump \<Rightarrow> Some (d_goto D_stat (dm_upd bump_back s))
   | D_stat \<Rightarrow> Some (d_goto (case stat_q (dm s) of None \<Rightarrow> D_chk_fill False
        | Some STAT_WAIT_IDLE \<Rightarrow> (if busy s = 0 then D_pvalid else D_chk_fill False)
        | Some STAT_EXIT \<Rightarrow> D_chk_fill True
        | Some STAT_READY \<Rightarrow> D_pvalid) s)
   | D_pvalid \<Rightarrow> Some (d_goto D_clear (dm_upd (\<lambda>d. d\<lparr>stat_pvalid := 1\<rparr>) s))
   | D_clear \<Rightarrow> Some (d_goto (D_chk_fill False) (dm_upd (\<lambda>d. d\<lparr>stat_q := None\<rparr>) s))
   | D_chk_fill e \<Rightarrow> Some (d_goto (if queue_fill (dm s) = 0 then D_chk_stat e else d_again e) s)
   | D_chk_stat e \<Rightarrow> Some (d_goto (if stat_q (dm s) = None then D_inc e else d_again e) s)
   | D_inc e \<Rightarrow> Some (d_goto (D_wfi e) (dm_upd (\<lambda>d. d\<lparr>dm_wfi := dm_wfi d + 1\<rparr>) s))
   | D_wfi e \<Rightarrow> if dm_irq s then Some (d_goto (D_clr e) s) else None
   | D_clr e \<Rightarrow> Some (d_goto (D_dec e) (s\<lparr>dm_irq := False\<rparr>))
   | D_dec e \<Rightarrow> Some (d_goto (d_again e) (dm_upd (\<lambda>d. d\<lparr>dm_wfi := dm_wfi d - 1\<rparr>) s))
   | D_exited \<Rightarrow> None)"

text \<open>The cores \<open>0..<n\<close> use the data mover; the engine completes a transfer at any time.\<close>

inductive dm_step :: "nat \<Rightarrow> nat \<Rightarrow> dm_sys \<Rightarrow> dm_sys \<Rightarrow> bool" for n dma_cap where
  dm_core: "h < n \<Longrightarrow> dm_core_step h rq s = Some t \<Longrightarrow> dm_step n dma_cap s t"
| dm_mover: "dm_main_step dma_cap s = Some t \<Longrightarrow> dm_step n dma_cap s t"
| dm_engine: "0 < busy s \<Longrightarrow> dm_step n dma_cap s (s\<lparr>busy := busy s - 1\<rparr>)"

inductive_cases dm_stepE: "dm_step n dma_cap s t"

definition dm_start_state :: "dm_sys \<Rightarrow> bool" where
  "dm_start_state s \<longleftrightarrow> dm s = dm_zero \<and> \<not> dm_irq s \<and> (\<forall>h. c_pc s h = C_idle) \<and> d_pc s = D_loop
     \<and> busy s = 0 \<and> issued s = [] \<and> submitted s = []"

subsection \<open>One client\<close>

text \<open>The invariant of a system in which core 0 is the only client.\<close>

fun waiting_idle :: "core_pc \<Rightarrow> bool" where
  "waiting_idle C_quiet \<longleftrightarrow> True"
| "waiting_idle (C_qlock q) \<longleftrightarrow> q = STAT_WAIT_IDLE"
| "waiting_idle (C_reset q) \<longleftrightarrow> q = STAT_WAIT_IDLE"
| "waiting_idle (C_request q) \<longleftrightarrow> q = STAT_WAIT_IDLE"
| "waiting_idle (C_wake k) \<longleftrightarrow> k = K_answer STAT_WAIT_IDLE"
| "waiting_idle (C_signal k) \<longleftrightarrow> k = K_answer STAT_WAIT_IDLE"
| "waiting_idle (C_answer q) \<longleftrightarrow> q = STAT_WAIT_IDLE"
| "waiting_idle (C_done q) \<longleftrightarrow> q = STAT_WAIT_IDLE"
| "waiting_idle _ \<longleftrightarrow> False"

fun core_inv :: "core_pc \<Rightarrow> dm_t \<Rightarrow> nat \<Rightarrow> mover_pc \<Rightarrow> bool" where
  "core_inv (C_lock c) d b m \<longleftrightarrow> unat (queue_fill d) < 4"
| "core_inv (C_insert c) d b m \<longleftrightarrow> unat (queue_fill d) < 4"
| "core_inv (C_bump c) d b m \<longleftrightarrow> unat (queue_fill d) < 4
     \<and> task_call (dm_queue d ! unat (queue_front d)) = copy_call c"
| "core_inv (C_qlock q) d b m \<longleftrightarrow> q = STAT_WAIT_IDLE \<longrightarrow> stat_q d = None"
| "core_inv (C_reset q) d b m \<longleftrightarrow> q = STAT_WAIT_IDLE \<longrightarrow> stat_q d = None"
| "core_inv (C_request q) d b m \<longleftrightarrow> q = STAT_WAIT_IDLE \<longrightarrow> stat_q d = None \<and> stat_pvalid d = 0"
| "core_inv (C_wake k) d b m \<longleftrightarrow> k = K_answer STAT_WAIT_IDLE \<longrightarrow>
     (stat_q d = None \<or> stat_q d = Some STAT_WAIT_IDLE) \<and> (stat_pvalid d \<noteq> 0 \<or> m = D_pvalid \<longrightarrow> b = 0)"
| "core_inv (C_signal k) d b m \<longleftrightarrow> k = K_answer STAT_WAIT_IDLE \<longrightarrow>
     (stat_q d = None \<or> stat_q d = Some STAT_WAIT_IDLE) \<and> (stat_pvalid d \<noteq> 0 \<or> m = D_pvalid \<longrightarrow> b = 0)"
| "core_inv (C_answer q) d b m \<longleftrightarrow> q = STAT_WAIT_IDLE \<longrightarrow>
     (stat_q d = None \<or> stat_q d = Some STAT_WAIT_IDLE) \<and> (stat_pvalid d \<noteq> 0 \<or> m = D_pvalid \<longrightarrow> b = 0)"
| "core_inv (C_done q) d b m \<longleftrightarrow> q = STAT_WAIT_IDLE \<longrightarrow> b = 0"
| "core_inv _ d b m \<longleftrightarrow> True"

definition unissued :: "mover_pc \<Rightarrow> dm_t \<Rightarrow> sdma_call list" where
  "unissued m d = (if m = D_bump then tl (dm_items d) else dm_items d)"

definition dm_inv :: "dm_sys \<Rightarrow> bool" where
  "dm_inv s \<longleftrightarrow> ring_ok (dm s)
     \<and> issued s @ unissued (d_pc s) (dm s) = map copy_call (submitted s)
     \<and> (d_pc s = D_issue \<or> d_pc s = D_bump \<longrightarrow> 0 < unat (queue_fill (dm s)))
     \<and> (d_pc s = D_pvalid \<or> d_pc s = D_clear \<longrightarrow> stat_q (dm s) \<noteq> None)
     \<and> core_inv (c_pc s 0) (dm s) (busy s) (d_pc s)
     \<and> (waiting_idle (c_pc s 0) \<longrightarrow> queue_fill (dm s) = 0)"

lemma dm_invD:
  assumes "dm_inv s"
  shows "ring_ok (dm s)"
    and "issued s @ unissued (d_pc s) (dm s) = map copy_call (submitted s)"
    and "d_pc s = D_issue \<or> d_pc s = D_bump \<Longrightarrow> 0 < unat (queue_fill (dm s))"
    and "d_pc s = D_pvalid \<or> d_pc s = D_clear \<Longrightarrow> stat_q (dm s) \<noteq> None"
    and "core_inv (c_pc s 0) (dm s) (busy s) (d_pc s)"
    and "waiting_idle (c_pc s 0) \<Longrightarrow> queue_fill (dm s) = 0"
  using assms by (simp_all add: dm_inv_def)

text \<open>Updates that leave the ring alone.\<close>

definition same_ring :: "dm_t \<Rightarrow> dm_t \<Rightarrow> bool" where
  "same_ring d d' \<longleftrightarrow> dm_queue d' = dm_queue d \<and> queue_back d' = queue_back d
     \<and> queue_front d' = queue_front d \<and> queue_fill d' = queue_fill d"

lemma same_ring_keeps:
  "same_ring d d' \<Longrightarrow> ring_ok d' = ring_ok d" "same_ring d d' \<Longrightarrow> dm_items d' = dm_items d"
  "same_ring d d' \<Longrightarrow> unissued m d' = unissued m d"
  by (simp_all add: same_ring_def ring_ok_def dm_items_def unissued_def)

lemma stat_updates_same_ring [simp]:
  "same_ring d (d\<lparr>dm_mutex := x\<rparr>)" "same_ring d (d\<lparr>stat_pvalid := x\<rparr>)"
  "same_ring d (d\<lparr>stat_q := q\<rparr>)" "same_ring d (d\<lparr>dm_wfi := x\<rparr>)" "same_ring d d"
  by (simp_all add: same_ring_def)

lemmas dm_step_simps = c_goto_def d_goto_def dm_upd_def

lemma write_slot_sel [simp]:
  "queue_fill (write_slot c d) = queue_fill d" "queue_back (write_slot c d) = queue_back d"
  "queue_front (write_slot c d) = queue_front d" "stat_q (write_slot c d) = stat_q d"
  by (simp_all add: write_slot_def)

lemma bump_front_sel [simp]: "stat_q (bump_front d) = stat_q d"
  by (simp add: bump_front_def)

lemma write_slot_front:
  "ring_ok d \<Longrightarrow> task_call (dm_queue (write_slot c d) ! unat (queue_front d)) = copy_call c"
  by (simp add: write_slot_def ring_ok_def)

lemma bump_front_items:
  assumes "ring_ok d" "unat (queue_fill d) < 4"
    and "task_call (dm_queue d ! unat (queue_front d)) = copy_call c"
  shows "dm_items (bump_front d) = dm_items d @ [copy_call c]"
proof -
  have "unat (queue_front d) = (unat (queue_back d) + unat (queue_fill d)) mod 4"
    and "length (dm_queue d) = 4" using assms(1) by (simp_all add: ring_ok_def)
  then show ?thesis
    using assms(3) unfolding bump_front_ring(2) [OF assms(1,2)]
    by (simp add: slice_Suc dm_items_def)
qed

lemma unissued_snoc:
  "dm_items d' = dm_items d @ [x] \<Longrightarrow> (m = D_bump \<Longrightarrow> dm_items d \<noteq> []) \<Longrightarrow>
    unissued m d' = unissued m d @ [x]"
  by (simp add: unissued_def)

lemma fill_lt: "\<not> of_nat DM_TASK_QUEUE_SIZE \<le> f \<Longrightarrow> unat (f :: u32) < 4"
  by (simp add: DM_TASK_QUEUE_SIZE_def word_le_nat_alt)

lemma call_inv: "core_inv (dm_call rq) d b m" "\<not> waiting_idle (dm_call rq)"
  by (cases rq; simp)+

lemma continue_inv:
  "core_inv (C_signal k) d b m \<Longrightarrow> core_inv (dm_continue k) d b m"
  "waiting_idle (dm_continue k) = waiting_idle (C_signal k)"
  by (cases k; simp)+

lemma dm_core_inv:
  assumes inv: "dm_inv s" and step: "dm_core_step 0 rq s = Some t"
  shows "dm_inv t"
proof -
  note D = dm_invD [OF inv]
  consider c where "c_pc s 0 = C_insert c" | c where "c_pc s 0 = C_bump c"
    | "\<And>c. c_pc s 0 \<noteq> C_insert c" "\<And>c. c_pc s 0 \<noteq> C_bump c" by blast
  then show ?thesis
  proof cases
    case 1
    then have t: "t = c_goto 0 (C_bump c) (dm_upd (write_slot c) s)"
      and r: "unat (queue_fill (dm s)) < 4" using step D(5) by (simp_all add: dm_core_step_def)
    have "unissued m (write_slot c (dm s)) = unissued m (dm s)" for m
      using write_slot_ring(2) [OF D(1) r, of c] by (simp add: unissued_def)
    then show ?thesis
      using D(2-4) write_slot_ring(1) [OF D(1) r, of c] write_slot_front [OF D(1), of c] r
      by (simp add: t dm_inv_def dm_step_simps)
  next
    case 2
    then have t: "t = c_goto 0 C_unlock (dm_upd bump_front (s\<lparr>submitted := submitted s @ [c]\<rparr>))"
      and r: "unat (queue_fill (dm s)) < 4"
      and f: "task_call (dm_queue (dm s) ! unat (queue_front (dm s))) = copy_call c"
      using step D(5) by (simp_all add: dm_core_step_def)
    have "unissued (d_pc s) (bump_front (dm s)) = unissued (d_pc s) (dm s) @ [copy_call c]"
      using bump_front_items [OF D(1) r f] D(3) by (intro unissued_snoc) (auto simp: dm_items_def)
    moreover have "0 < unat (queue_fill (bump_front (dm s)))"
      using r by (simp add: bump_front_def unat_add_no_ovf)
    ultimately show ?thesis using D(2,4) bump_front_ring(1) [OF D(1) r]
      by (simp add: t dm_inv_def dm_step_simps)
  next
    case 3
    have ee: "same_ring (dm s) (dm t) \<and> issued t = issued s \<and> submitted t = submitted s
        \<and> d_pc t = d_pc s \<and> busy t = busy s \<and> (stat_q (dm s) \<noteq> None \<longrightarrow> stat_q (dm t) \<noteq> None)"
      using step 3
      by (cases "c_pc s 0") (auto simp: dm_core_step_def dm_step_simps split: if_splits)
    note e = conjunct1 [OF ee] conjunct2 [OF ee]
    have i: "core_inv (c_pc t 0) (dm t) (busy t) (d_pc t)
        \<and> (waiting_idle (c_pc t 0) \<longrightarrow> queue_fill (dm t) = 0)"
    proof (cases "\<exists>k. c_pc s 0 = C_signal k")
      case True
      then obtain k where k: "c_pc s 0 = C_signal k" by blast
      then have t: "t = c_goto 0 (dm_continue k) (s\<lparr>dm_irq := True\<rparr>)"
        using step by (simp add: dm_core_step_def)
      show ?thesis using D(5,6) continue_inv [of k] unfolding t k by (simp add: dm_step_simps)
    next
      case False
      then show ?thesis using step 3 D(4-6) fill_lt
        by (cases "c_pc s 0") (auto simp: dm_core_step_def dm_step_simps call_inv split: if_splits)
    qed
    have "queue_fill (dm t) = queue_fill (dm s)" using e(1) by (simp add: same_ring_def)
    then show ?thesis
      unfolding dm_inv_def using e(2) i D(1-4) by (simp add: same_ring_keeps [OF e(1)])
  qed
qed

lemma bump_back_sel [simp]: "stat_q (bump_back d) = stat_q d" "stat_pvalid (bump_back d) = stat_pvalid d"
  "queue_front (bump_back d) = queue_front d" "dm_queue (bump_back d) = dm_queue d"
  by (simp_all add: bump_back_def)

lemma unat_fill_bump_back: "0 < unat (queue_fill d) \<Longrightarrow> unat (queue_fill (bump_back d)) = unat (queue_fill d) - 1"
  by (simp add: bump_back_def unat_sub_no_ovf)

lemma core_inv_keeps:
  assumes "core_inv pc d b m"
    and "same_ring d d' \<and> stat_q d' = stat_q d \<and> stat_pvalid d' = stat_pvalid d
      \<and> (m' = D_pvalid \<longrightarrow> b = 0 \<or> stat_q d = Some STAT_READY)"
  shows "core_inv pc d' b m'"
  using assms by (cases pc) (auto simp: same_ring_def)

lemma dm_main_inv:
  assumes inv: "dm_inv s" and step: "dm_main_step dma_cap s = Some t"
  shows "dm_inv t"
proof -
  note D = dm_invD [OF inv]
  consider "d_pc s = D_issue" | "d_pc s = D_bump" | "d_pc s \<noteq> D_issue" "d_pc s \<noteq> D_bump" by blast
  then show ?thesis
  proof cases
    case 1
    then have f: "0 < unat (queue_fill (dm s))" using D(3) by simp
    have t: "t = d_goto D_bump (s\<lparr>issued := issued s @ [back_call (dm s)], busy := busy s + 1\<rparr>)"
      using step 1 by (simp add: dm_main_step_def split: if_splits)
    have "\<not> waiting_idle (c_pc s 0)" using D(6) f by auto
    then have "core_inv (c_pc s 0) (dm s) (busy s + 1) D_bump"
      using D(5) by (cases "c_pc s 0") auto
    then show ?thesis using D(1,2,6) f bump_back_ring(2) [OF D(1) f] 1
      by (simp add: t dm_inv_def dm_step_simps unissued_def)
  next
    case 2
    then have f: "0 < unat (queue_fill (dm s))" using D(3) by simp
    have t: "t = d_goto D_stat (dm_upd bump_back s)" using step 2 by (simp add: dm_main_step_def)
    have "\<not> waiting_idle (c_pc s 0)" using D(6) f by auto
    moreover from this have "core_inv (c_pc s 0) (bump_back (dm s)) (busy s) D_stat"
      using D(5) f by (cases "c_pc s 0") (auto simp: unat_fill_bump_back)
    ultimately show ?thesis using D(2) bump_back_ring [OF D(1) f] 2
      by (simp add: t dm_inv_def dm_step_simps unissued_def)
  next
    case 3
    have ee: "same_ring (dm s) (dm t) \<and> issued t = issued s \<and> submitted t = submitted s
        \<and> c_pc t = c_pc s \<and> busy t = busy s \<and> d_pc t \<noteq> D_bump
        \<and> (d_pc t = D_issue \<longrightarrow> queue_fill (dm s) \<noteq> 0)
        \<and> (d_pc t = D_pvalid \<or> d_pc t = D_clear \<longrightarrow> stat_q (dm t) \<noteq> None)"
      using step 3 D(4) by (cases "d_pc s") (auto simp: dm_main_step_def dm_step_simps d_again_def
        split: if_splits option.splits en_stat.splits)
    note e = conjunct1 [OF ee] conjunct2 [OF ee]
    have i: "core_inv (c_pc s 0) (dm t) (busy s) (d_pc t)"
    proof (cases "d_pc s = D_pvalid \<or> d_pc s = D_clear")
      case True
      then show ?thesis using step D(4,5)
        by (cases "c_pc s 0") (auto simp: dm_main_step_def dm_step_simps)
    next
      case False
      then have "same_ring (dm s) (dm t) \<and> stat_q (dm t) = stat_q (dm s)
          \<and> stat_pvalid (dm t) = stat_pvalid (dm s)
          \<and> (d_pc t = D_pvalid \<longrightarrow> busy s = 0 \<or> stat_q (dm s) = Some STAT_READY)"
        using step 3 by (cases "d_pc s") (auto simp: dm_main_step_def dm_step_simps d_again_def
          split: if_splits option.splits en_stat.splits)
      then show ?thesis using core_inv_keeps D(5) by blast
    qed
    have f: "queue_fill (dm t) = queue_fill (dm s)" using e(1) by (simp add: same_ring_def)
    have "unissued (d_pc t) (dm s) = unissued (d_pc s) (dm s)" using e(2) 3 by (simp add: unissued_def)
    then show ?thesis
      unfolding dm_inv_def using e(2) i D(1,2,6)
      by (auto simp: same_ring_keeps [OF e(1)] f unat_gt_0)
  qed
qed

subsection \<open>Properties of the data mover\<close>

lemma dm_start_inv: "dm_start_state s \<Longrightarrow> dm_inv s"
  by (simp add: dm_start_state_def dm_inv_def ring_ok_def dm_zero_def DM_TASK_QUEUE_SIZE_def
      unissued_def dm_items_def)

lemma dm_engine_inv: "dm_inv s \<Longrightarrow> dm_inv (s\<lparr>busy := busy s - Suc 0\<rparr>)"
  unfolding dm_inv_def by (cases "c_pc s 0") auto

lemma dm_reach_inv:
  assumes "reachable (dm_step 1 dma_cap) dm_start_state s"
  shows "dm_inv s"
  using assms by (rule reachable_invariant)
    (auto intro: dm_start_inv dm_engine_inv elim!: dm_stepE dest: dm_core_inv dm_main_inv)

text \<open>
  C17: with one client the data mover is faithful. In every reachable state of every
  interleaving, the transfers handed to the DMA engine are the first ones of those submitted,
  in the order of their submission, with the addresses, sizes and strides that were asked for;
  the rest, at most 4, are still queued.\<close>

theorem dm_transfers_in_order:
  assumes "reachable (dm_step 1 dma_cap) dm_start_state s"
  shows "\<exists>waiting. length waiting \<le> 4 \<and> issued s @ waiting = map copy_call (submitted s)"
proof -
  note D = dm_invD [OF dm_reach_inv [OF assms]]
  have "length (unissued (d_pc s) (dm s)) \<le> 4"
    using D(1) by (auto simp: unissued_def ring_ok_def)
  with D(2) show ?thesis by blast
qed

text \<open>
  C18: \<open>dm_wait\<close> waits. With one client, when the wait for the answer of the data mover is over,
  every submitted copy has been handed to the DMA engine and no transfer is in flight. With two clients a submitted
  copy can be overwritten in the queue and lost (lemma \<open>dm_two_clients_overflow\<close>), so this cannot hold for them.\<close>

theorem dm_wait_complete:
  assumes "reachable (dm_step 1 dma_cap) dm_start_state s" and "c_pc s 0 = C_done STAT_WAIT_IDLE"
  shows "issued s = map copy_call (submitted s) \<and> busy s = 0"
proof -
  note D = dm_invD [OF dm_reach_inv [OF assms(1)]]
  have "queue_fill (dm s) = 0" "busy s = 0" using D(5,6) assms(2) by simp_all
  moreover have "dm_items (dm s) = []" using calculation by (simp add: dm_items_def)
  moreover have "unissued (d_pc s) (dm s) = []" using calculation by (simp add: unissued_def)
  ultimately show ?thesis using D(2) by simp
qed

subsection \<open>Schedules\<close>

datatype dm_pick = Pk_core nat dm_req | Pk_mover | Pk_engine

fun dm_exec :: "nat \<Rightarrow> nat \<Rightarrow> dm_pick list \<Rightarrow> dm_sys \<Rightarrow> dm_sys option" where
  "dm_exec n dma_cap [] s = Some s"
| "dm_exec n dma_cap (Pk_core h rq # ps) s =
     (if h < n then Option.bind (dm_core_step h rq s) (dm_exec n dma_cap ps) else None)"
| "dm_exec n dma_cap (Pk_mover # ps) s = Option.bind (dm_main_step dma_cap s) (dm_exec n dma_cap ps)"
| "dm_exec n dma_cap (Pk_engine # ps) s =
     (if 0 < busy s then dm_exec n dma_cap ps (s\<lparr>busy := busy s - 1\<rparr>) else None)"

lemma reach_core:
  "reachable (dm_step n k) dm_start_state s \<Longrightarrow> h < n \<Longrightarrow> dm_core_step h rq s = Some t \<Longrightarrow>
    reachable (dm_step n k) dm_start_state t"
  using reach_step dm_core by metis

lemma reach_mover:
  "reachable (dm_step n k) dm_start_state s \<Longrightarrow> dm_main_step k s = Some t \<Longrightarrow>
    reachable (dm_step n k) dm_start_state t"
  using reach_step dm_mover by metis

lemma reach_engine:
  "reachable (dm_step n k) dm_start_state s \<Longrightarrow> 0 < busy s \<Longrightarrow>
    reachable (dm_step n k) dm_start_state (s\<lparr>busy := busy s - 1\<rparr>)"
  using reach_step dm_engine by metis

lemma dm_exec_reachable:
  assumes "reachable (dm_step n dma_cap) dm_start_state s" and "dm_exec n dma_cap ps s = Some t"
  shows "reachable (dm_step n dma_cap) dm_start_state t"
  using assms
  by (induction n dma_cap ps s rule: dm_exec.induct)
    (auto simp: Option.bind_eq_Some_conv simp del: One_nat_def split: if_splits
      intro: reach_core reach_mover reach_engine)

definition dm_state0 :: dm_sys where
  "dm_state0 = \<lparr>dm = dm_zero, dm_irq = False, c_pc = (\<lambda>_. C_idle), d_pc = D_loop, busy = 0,
     issued = [], submitted = []\<rparr>"

lemma dm_state0_start: "reachable (dm_step n dma_cap) dm_start_state dm_state0"
  by (rule reach_start) (simp add: dm_start_state_def dm_state0_def)

lemmas dm_exec_reach = dm_exec_reachable [OF dm_state0_start]

definition sample_copy :: "u32 \<Rightarrow> dm_copy" where
  "sample_copy i = Copy_1d (0x10000000 + i) (0x80000000 + i) 64"

text \<open>A core runs the six steps of a copy; the data mover falls asleep in five.\<close>

definition do_copy :: "nat \<Rightarrow> dm_copy \<Rightarrow> dm_pick list" where
  "do_copy h c = replicate 6 (Pk_core h (Rq_copy c))"

definition mover_sleeps :: "dm_pick list" where
  "mover_sleeps = replicate 5 Pk_mover"

text \<open>One copy and a wait for it, up to its answer.\<close>

definition wait_schedule :: "dm_pick list" where
  "wait_schedule = mover_sleeps @ do_copy 0 (sample_copy 0)
     @ replicate 3 (Pk_core 0 Rq_wait) @ replicate 5 Pk_mover @ [Pk_mover, Pk_engine]
     @ replicate 5 (Pk_core 0 Rq_wait) @ replicate 6 Pk_mover
     @ replicate 3 (Pk_core 0 Rq_wait)"

lemma wait_schedule_result:
  "map_option (\<lambda>s. (c_pc s 0, d_pc s, issued s)) (dm_exec 1 8 wait_schedule dm_state0)
    = Some (C_done STAT_WAIT_IDLE, D_wfi False, [copy_call (sample_copy 0)])"
  by code_simp

text \<open>
  A wait, then an exit: the data mover has answered the wait but has not yet cleared the
  request word when the exit request is written into it.
\<close>

definition exit_race_schedule :: "dm_pick list" where
  "exit_race_schedule = mover_sleeps @ replicate 10 (Pk_core 0 Rq_wait) @ replicate 6 Pk_mover
     @ replicate 2 (Pk_core 0 Rq_wait) @ replicate 2 (Pk_core 0 Rq_exit) @ replicate 4 Pk_mover
     @ replicate 2 (Pk_core 0 Rq_exit) @ replicate 8 Pk_mover"

lemma exit_race_result:
  "map_option (\<lambda>s. (c_pc s 0, d_pc s, dm_irq s, stat_q (dm s))) (dm_exec 1 8 exit_race_schedule dm_state0)
    = Some (C_idle, D_wfi False, False, None)"
  by code_simp

text \<open>Two clients that both see three tasks in the ring.\<close>

definition overflow_schedule :: "dm_pick list" where
  "overflow_schedule = do_copy 0 (sample_copy 1) @ do_copy 0 (sample_copy 2) @ do_copy 0 (sample_copy 3)
     @ replicate 2 (Pk_core 0 (Rq_copy (sample_copy 4))) @ replicate 2 (Pk_core 1 (Rq_copy (sample_copy 5)))
     @ replicate 4 (Pk_core 0 Rq_start) @ replicate 4 (Pk_core 1 Rq_start)
     @ replicate 25 Pk_mover"

lemma overflow_result:
  "map_option (\<lambda>s. (c_pc s 0, c_pc s 1, issued s, submitted s)) (dm_exec 2 8 overflow_schedule dm_state0)
    = Some (C_idle, C_idle, map (\<lambda>i. copy_call (sample_copy i)) [5, 2, 3, 4, 5],
        map sample_copy [1, 2, 3, 4, 5])"
  by code_simp

theorem dm_transfers_in_order_witness:
  "\<exists>s waiting. reachable (dm_step 1 8) dm_start_state s \<and> issued s = [copy_call (sample_copy 0)]
     \<and> issued s @ waiting = map copy_call (submitted s)"
proof -
  obtain s where s: "dm_exec 1 8 wait_schedule dm_state0 = Some s"
    and i: "issued s = [copy_call (sample_copy 0)]"
    using wait_schedule_result by auto
  have r: "reachable (dm_step 1 8) dm_start_state s" by (rule dm_exec_reach [OF s])
  from dm_transfers_in_order [OF r] i r show ?thesis by blast
qed

theorem dm_wait_complete_witness:
  "\<exists>s. reachable (dm_step 1 8) dm_start_state s \<and> c_pc s 0 = C_done STAT_WAIT_IDLE
     \<and> submitted s \<noteq> [] \<and> busy s = 0"
proof -
  obtain s where s: "dm_exec 1 8 wait_schedule dm_state0 = Some s"
    and i: "c_pc s 0 = C_done STAT_WAIT_IDLE" "issued s = [copy_call (sample_copy 0)]"
    using wait_schedule_result by auto
  have r: "reachable (dm_step 1 8) dm_start_state s" by (rule dm_exec_reach [OF s])
  from dm_wait_complete [OF r i(1)] i r show ?thesis by (intro exI [of _ s]) auto
qed

text \<open>
  a request of \<open>dm_exit\<close> that follows a \<open>dm_wait\<close> can be lost. The data mover answers a
  request (\<open>stat_pvalid\<close>) before it clears the request word; \<open>dm_wait\<close> returns on the answer,
  \<open>dm_exit\<close> stores its request, and the data mover then clears it. The call of \<open>dm_exit\<close>
  returns, and the data mover sleeps with no request and no interrupt pending: it never exits.\<close>

lemma dm_exit_lost:
  "\<exists>s. reachable (dm_step 1 8) dm_start_state s \<and> c_pc s 0 = C_idle \<and> stat_q (dm s) = None
     \<and> dm_main_step 8 s = None \<and> d_pc s \<noteq> D_exited"
proof -
  obtain s where s: "dm_exec 1 8 exit_race_schedule dm_state0 = Some s"
    and i: "c_pc s 0 = C_idle" "d_pc s = D_wfi False" "\<not> dm_irq s" "stat_q (dm s) = None"
    using exit_race_result by auto
  then show ?thesis using dm_exec_reach [OF s] by (intro exI [of _ s]) (simp add: dm_main_step_def)
qed

text \<open>
  two clients overflow the ring. The fill count is polled before the mutex is taken, so two
  clients can both see room for one task: the second one overwrites the oldest queued task. Of the
  five copies submitted the first is never started and the last is started twice.\<close>

lemma dm_two_clients_overflow:
  "\<exists>s. reachable (dm_step 2 8) dm_start_state s \<and> submitted s = map sample_copy [1, 2, 3, 4, 5]
     \<and> issued s = map (\<lambda>i. copy_call (sample_copy i)) [5, 2, 3, 4, 5]"
proof -
  obtain s where s: "dm_exec 2 8 overflow_schedule dm_state0 = Some s"
    and i: "issued s = map (\<lambda>i. copy_call (sample_copy i)) [5, 2, 3, 4, 5]"
      "submitted s = map sample_copy [1, 2, 3, 4, 5]"
    using overflow_result by auto
  then show ?thesis using dm_exec_reach [OF s] by (intro exI [of _ s]) simp
qed

text \<open>
  the task ring on its own is a bounded queue. Any sequence of insertions and removals that
  never inserts into a full ring or removes from an empty one hands out the tasks in the order
  in which they were inserted, through any number of wrap-arounds of the indices.\<close>

lemma dm_ring_is_fifo:
  assumes "ops_fit 4 0 ops" and "queue_run dm_put back_call bump_back ops dm_zero = (calls, d)"
  shows "calls @ dm_items d = map copy_call (puts_of ops)"
  by (rule dmq.run_from_empty [OF _ _ assms])
    (simp_all add: ring_ok_def dm_zero_def dm_items_def DM_TASK_QUEUE_SIZE_def)

lemma dm_ring_is_fifo_witness:
  "fst (queue_run dm_put back_call bump_back
      [Some (sample_copy 1), Some (sample_copy 2), None, Some (sample_copy 3), None, None] dm_zero)
    = map (\<lambda>i. copy_call (sample_copy i)) [1, 2, 3]"
proof -
  let ?ops = "[Some (sample_copy 1), Some (sample_copy 2), None, Some (sample_copy 3), None, None]"
  obtain calls d where r: "queue_run dm_put back_call bump_back ?ops dm_zero = (calls, d)"
    by (cases "queue_run dm_put back_call bump_back ?ops dm_zero")
  have "length calls = 3" using arg_cong [OF r, of "length \<circ> fst"] by (simp split: prod.splits)
  then show ?thesis using dm_ring_is_fifo [OF _ r] r by (simp add: append_eq_conv_conj)
qed

end
