(* ===== verification/Npu_Driver.thy ===== *)
theory Npu_Driver
  imports Ring_Queue Bump_Allocator
begin

text \<open>
  The host side of the NPU (\<open>sw/npu_driver/npu_mmio.h\<close>, \<open>npu_driver.c\<close>): the micro-coded
  commands, the command queue in DDR memory, the tensor allocator and the mailboxes.

  A command queue is a header and an array of commands; the array is a function of the index, so
  that it can stand for the memory behind the queue too. The host reads a mailbox register
  repeatedly; the successive values it reads are an argument.
\<close>

subsection \<open>Memory map and commands\<close>

definition NPU_DDR_MEMORY_BASE :: u32 where "NPU_DDR_MEMORY_BASE = 0x80000000"
definition NPU_MBOX_BASE :: u32 where "NPU_MBOX_BASE = 0x40000000"
definition MBOX_TRIGGER_OFFSET :: u32 where "MBOX_TRIGGER_OFFSET = 4"

datatype npu_opcode = OP_NOP | OP_DMA_READ | OP_DMA_WRITE | OP_WAIT_DMA | OP_WAIT_COMPUTE
  | OP_COMPUTE_CONV2D | OP_COMPUTE_ACT_SILU | OP_COMPUTE_ACT_MISH | OP_COMPUTE_ACT_SIGMOID
  | OP_CFG_MATMUL | OP_COMPUTE_MATMUL | OP_COMPUTE_MATMUL_LARGE | OP_COMPUTE_MAXPOOL
  | OP_FW_SOFTMAX | OP_FW_RESIZE_NN | OP_FW_SLICE | OP_FW_TRANSPOSE | OP_FINISH

fun opcode_of :: "npu_opcode \<Rightarrow> u8" where
  "opcode_of OP_NOP = 0x00"
| "opcode_of OP_DMA_READ = 0x10"
| "opcode_of OP_DMA_WRITE = 0x11"
| "opcode_of OP_WAIT_DMA = 0x20"
| "opcode_of OP_WAIT_COMPUTE = 0x21"
| "opcode_of OP_COMPUTE_CONV2D = 0x30"
| "opcode_of OP_COMPUTE_ACT_SILU = 0x31"
| "opcode_of OP_COMPUTE_ACT_MISH = 0x32"
| "opcode_of OP_COMPUTE_ACT_SIGMOID = 0x33"
| "opcode_of OP_CFG_MATMUL = 0x34"
| "opcode_of OP_COMPUTE_MATMUL = 0x35"
| "opcode_of OP_COMPUTE_MATMUL_LARGE = 0x36"
| "opcode_of OP_COMPUTE_MAXPOOL = 0x37"
| "opcode_of OP_FW_SOFTMAX = 0x41"
| "opcode_of OP_FW_RESIZE_NN = 0x42"
| "opcode_of OP_FW_SLICE = 0x43"
| "opcode_of OP_FW_TRANSPOSE = 0x44"
| "opcode_of OP_FINISH = 0xFF"

text \<open>The union of the arguments is its three words, under the names of each variant in turn.\<close>

record npu_cmd =
  opcode :: u8
  cmd_flags :: u8
  cluster_id :: u16
  arg0 :: u32   \<comment> \<open>\<open>ext_addr\<close>, \<open>act_addr\<close>\<close>
  arg1 :: u32   \<comment> \<open>\<open>tcdm_addr\<close>, \<open>wgt_addr\<close>\<close>
  arg2 :: u32   \<comment> \<open>\<open>size\<close>, \<open>out_addr\<close>\<close>

record npu_queue =
  q_head :: u32
  q_tail :: u32
  q_capacity :: u32
  q_status :: u32
  q_cmds :: "nat \<Rightarrow> npu_cmd"

subsection \<open>Driver\<close>

text \<open>A store to a mailbox register.\<close>

type_synonym mmio = "(u32 \<times> u32) list"

definition mbox_trigger :: "u32 \<Rightarrow> u32" where
  "mbox_trigger cl = NPU_MBOX_BASE + cl * 0x1000 + MBOX_TRIGGER_OFFSET"

text \<open>The heap pointer after \<open>npu_init\<close>, and the stores that clear the mailboxes.\<close>

definition npu_init :: "u32 \<times> mmio" where
  "npu_init = (NPU_DDR_MEMORY_BASE, map (\<lambda>i. (mbox_trigger (of_nat i), 0)) [0..<4])"

definition npu_alloc :: "u32 \<Rightarrow> u32 \<Rightarrow> u32 \<times> u32" where
  "npu_alloc size0 heap = (let size' = (size0 + 31) AND NOT 31 in (heap, heap + size'))"

definition npu_free :: "u32 \<Rightarrow> u32 \<Rightarrow> u32" where
  "npu_free ptr heap = heap"

definition npu_queue_create :: "(nat \<Rightarrow> npu_cmd) \<Rightarrow> u32 \<Rightarrow> npu_queue" where
  "npu_queue_create memory capacity = \<lparr>q_head = 0, q_tail = 0, q_capacity = capacity, q_status = 0,
     q_cmds = memory\<rparr>"

definition npu_enqueue :: "npu_queue \<Rightarrow> npu_cmd \<Rightarrow> bool \<times> npu_queue" where
  "npu_enqueue q cmd =
     (let next_tail = (q_tail q + 1) mod q_capacity q;
          head = q_head q
      in if next_tail = head then (False, q)
         else (True, q\<lparr>q_cmds := (q_cmds q)(unat (q_tail q) := cmd), q_tail := next_tail\<rparr>))"

definition npu_ring_doorbell :: "u16 \<Rightarrow> mmio" where
  "npu_ring_doorbell cl = (if 4 \<le> cl then [] else [(mbox_trigger (ucast cl), 1)])"

definition npu_ring_doorbell_all :: mmio where
  "npu_ring_doorbell_all = concat (map (\<lambda>i. npu_ring_doorbell (of_nat i)) [0..<4])"

text \<open>
  \<open>npu_wait_cluster\<close> on the values it reads: the return code and the stores, or \<open>None\<close> while
  none of the values ends the loop.
\<close>

fun poll_mailbox :: "u32 \<Rightarrow> u32 list \<Rightarrow> (int \<times> mmio) option" where
  "poll_mailbox mbox [] = None"
| "poll_mailbox mbox (val # vals) =
     (if val = 2 \<or> val = 0xA5A5 then Some (0, [(mbox, 0)])
      else if val = 0xDEAD \<or> val = 0xDEADBEEF then Some (-1, [(mbox, 0)])
      else poll_mailbox mbox vals)"

definition npu_wait_cluster :: "u16 \<Rightarrow> u32 list \<Rightarrow> (int \<times> mmio) option" where
  "npu_wait_cluster cl vals =
     (if 4 \<le> cl then Some (-1, []) else poll_mailbox (mbox_trigger (ucast cl)) vals)"

fun wait_from :: "nat \<Rightarrow> nat \<Rightarrow> int \<Rightarrow> (nat \<Rightarrow> u32 list) \<Rightarrow> int option" where
  "wait_from 0 i ret vals = Some ret"
| "wait_from (Suc n) i ret vals =
     (case npu_wait_cluster (of_nat i) (vals i) of
        None \<Rightarrow> None
      | Some (r, _) \<Rightarrow> wait_from n (Suc i) (if r \<noteq> 0 then r else ret) vals)"

definition npu_wait_all :: "(nat \<Rightarrow> u32 list) \<Rightarrow> int option" where
  "npu_wait_all vals = wait_from 4 0 0 vals"

subsection \<open>The queue\<close>

definition npu_len :: "npu_queue \<Rightarrow> nat" where
  "npu_len q = (unat (q_tail q) + unat (q_capacity q) - unat (q_head q)) mod unat (q_capacity q)"

definition npu_items :: "npu_queue \<Rightarrow> npu_cmd list" where
  "npu_items q = slice (map (q_cmds q) [0..<unat (q_capacity q)]) (unat (q_capacity q))
     (unat (q_head q)) (npu_len q)"

definition npu_ok :: "nat \<Rightarrow> npu_queue \<Rightarrow> bool" where
  "npu_ok k q \<longleftrightarrow> unat (q_capacity q) = k \<and> unat (q_head q) < k \<and> unat (q_tail q) < k"

text \<open>The reader's side: \<open>head + 1\<close>, back to 0 at the end (see \<open>npu_runtime.c\<close>).\<close>

definition npu_advance :: "npu_queue \<Rightarrow> npu_queue" where
  "npu_advance q =
     (let head = q_head q + 1; head = (if q_capacity q \<le> head then 0 else head)
      in q\<lparr>q_head := head\<rparr>)"

definition npu_next :: "npu_queue \<Rightarrow> npu_cmd" where
  "npu_next q = q_cmds q (unat (q_head q))"

definition npu_put :: "npu_cmd \<Rightarrow> npu_queue \<Rightarrow> npu_queue" where
  "npu_put cmd q = snd (npu_enqueue q cmd)"

lemma length_npu_items [simp]: "length (npu_items q) = npu_len q"
  by (simp add: npu_items_def)

subsection \<open>Distances on the ring\<close>

lemma mod_below_twice: "x < 2 * k \<Longrightarrow> x mod k = (if x < k then x else x - k)" for x k :: nat
  by (auto simp: le_mod_geq)

lemma dist_zero: "h < k \<Longrightarrow> t < k \<Longrightarrow> (t + k - h) mod k = 0 \<longleftrightarrow> t = h" for h t k :: nat
  by (subst mod_below_twice) auto

lemma dist_pos: "h < k \<Longrightarrow> t < k \<Longrightarrow> (h + (t + k - h) mod k) mod k = t" for h t k :: nat
  by (simp add: mod_add_right_eq)

lemma succ_mod: "t < k \<Longrightarrow> (t + 1) mod k = (if t + 1 = k then 0 else t + 1)" for t k :: nat
  by auto

lemma dist_eq:
  fixes h t k :: nat
  assumes "h < k" "t < k"
  shows "(t + k - h) mod k = (if t < h then t + k - h else t - h)"
  using assms by (subst mod_below_twice) auto

lemma succ_mod_lt: "t < k \<Longrightarrow> (t + 1) mod k < k" for t k :: nat
  by simp

lemma dist_Suc:
  fixes h t k :: nat
  assumes "h < k" "t < k" "(t + 1) mod k \<noteq> h"
  shows "((t + 1) mod k + k - h) mod k = Suc ((t + k - h) mod k)"
  using assms(1,2,3)
  unfolding dist_eq [OF assms(1,2)] dist_eq [OF assms(1) succ_mod_lt [OF assms(2)]]
  unfolding succ_mod [OF assms(2)]
  by (auto split: if_splits)

lemma dist_full:
  fixes h t k :: nat
  assumes "h < k" "t < k"
  shows "(t + 1) mod k = h \<longleftrightarrow> (t + k - h) mod k = k - 1"
  using assms unfolding dist_eq [OF assms] succ_mod [OF assms(2)] by (auto split: if_splits)

lemma dist_drop:
  fixes h t k :: nat
  assumes "h < k" "t < k" "t \<noteq> h"
  shows "(t + k - h) mod k = Suc ((t + k - (h + 1) mod k) mod k)"
  using assms
  unfolding dist_eq [OF assms(1,2)] dist_eq [OF succ_mod_lt [OF assms(1)] assms(2)]
  unfolding succ_mod [OF assms(1)]
  by (auto split: if_splits)

lemma unat_succ_below: "unat (x :: u32) < unat (y :: u32) \<Longrightarrow> unat (x + 1) = unat x + 1"
  using unat_lt_pow32 [of y] by (simp add: unat_add_no_ovf)

lemma unat_tail_next:
  assumes "npu_ok k q"
  shows "unat ((q_tail q + 1) mod q_capacity q) = (unat (q_tail q) + 1) mod k"
  using assms by (auto simp: npu_ok_def unat_mod unat_succ_below)

lemma unat_head_next:
  assumes "npu_ok k q"
  shows "unat (q_head (npu_advance q)) = (unat (q_head q) + 1) mod k"
proof -
  have "unat (q_head q + 1) = unat (q_head q) + 1"
    using assms unat_succ_below [of "q_head q" "q_capacity q"] by (simp add: npu_ok_def)
  moreover have "unat (q_head q) < k" using assms by (simp add: npu_ok_def)
  ultimately show ?thesis unfolding succ_mod [OF \<open>unat (q_head q) < k\<close>]
    using assms by (auto simp: npu_advance_def Let_def npu_ok_def word_le_nat_alt)
qed

lemma npu_items_empty: "npu_ok k q \<Longrightarrow> npu_items q = [] \<longleftrightarrow> q_head q = q_tail q"
  using dist_zero [of "unat (q_head q)" k "unat (q_tail q)"]
  by (auto simp: npu_items_def npu_len_def npu_ok_def word_unat_eq_iff)

text \<open>One slot stays empty: a full queue is told from an empty one by its indices.\<close>

lemma npu_enqueue_full:
  assumes "npu_ok k q"
  shows "fst (npu_enqueue q cmd) \<longleftrightarrow> length (npu_items q) < k - 1"
proof -
  have "npu_len q < k" using assms by (auto simp: npu_len_def npu_ok_def)
  moreover have "(q_tail q + 1) mod q_capacity q = q_head q \<longleftrightarrow> npu_len q = k - 1"
    unfolding word_unat_eq_iff unat_tail_next [OF assms]
    using dist_full [of "unat (q_head q)" k "unat (q_tail q)"] assms
    by (simp add: npu_len_def npu_ok_def)
  ultimately show ?thesis by (auto simp: npu_enqueue_def Let_def)
qed

lemma npu_put_correct:
  assumes ok: "npu_ok k q" and room: "length (npu_items q) < k - 1"
  shows "npu_ok k (npu_put cmd q)" and "npu_items (npu_put cmd q) = npu_items q @ [cmd]"
proof -
  have k: "unat (q_capacity q) = k" "unat (q_head q) < k" "unat (q_tail q) < k"
    using ok by (simp_all add: npu_ok_def)
  have n: "npu_len q < k" using room by simp
  let ?nt = "(q_tail q + 1) mod q_capacity q"
  have ne: "?nt \<noteq> q_head q"
    using npu_enqueue_full [OF ok, of cmd] room by (auto simp: npu_enqueue_def Let_def)
  then have ne': "(unat (q_tail q) + 1) mod k \<noteq> unat (q_head q)"
    using unat_tail_next [OF ok] by (metis word_unat_eq_iff)
  have put: "npu_put cmd q = q\<lparr>q_cmds := (q_cmds q)(unat (q_tail q) := cmd), q_tail := ?nt\<rparr>"
    using ne by (simp add: npu_put_def npu_enqueue_def Let_def)
  have len: "npu_len (npu_put cmd q) = Suc (npu_len q)"
    using dist_Suc [OF k(2,3) ne'] by (simp add: npu_len_def put unat_tail_next [OF ok] k(1))
  have pos: "(unat (q_head q) + npu_len q) mod k = unat (q_tail q)"
    using dist_pos [OF k(2,3)] by (simp add: npu_len_def k(1))
  have upd: "map ((q_cmds q)(unat (q_tail q) := cmd)) [0..<k]
      = (map (q_cmds q) [0..<k])[(unat (q_head q) + npu_len q) mod k := cmd]"
    by (auto intro!: nth_equalityI simp: pos nth_list_update)
  show "npu_ok k (npu_put cmd q)"
    using k unat_tail_next [OF ok] mod_less_divisor [of k "unat (q_tail q) + 1"]
    by (auto simp: npu_ok_def put)
  show "npu_items (npu_put cmd q) = npu_items q @ [cmd]"
    unfolding npu_items_def len using n
    by (simp add: put k(1) upd slice_put)
qed

lemma npu_advance_correct:
  assumes ok: "npu_ok k q" and ne: "npu_items q \<noteq> []"
  shows "npu_ok k (npu_advance q)" and "npu_items q = npu_next q # npu_items (npu_advance q)"
proof -
  have k: "unat (q_capacity q) = k" "unat (q_head q) < k" "unat (q_tail q) < k"
    using ok by (simp_all add: npu_ok_def)
  have "unat (q_tail q) \<noteq> unat (q_head q)"
    using ne npu_items_empty [OF ok] by (metis word_unat_eq_iff)
  note d = dist_drop [OF k(2,3) this]
  have sel: "q_capacity (npu_advance q) = q_capacity q" "q_tail (npu_advance q) = q_tail q"
    "q_cmds (npu_advance q) = q_cmds q" by (simp_all add: npu_advance_def Let_def)
  have len: "npu_len q = Suc (npu_len (npu_advance q))"
    using d by (simp add: npu_len_def sel k(1) unat_head_next [OF ok])
  show "npu_ok k (npu_advance q)"
    using k unat_head_next [OF ok] mod_less_divisor [of k "unat (q_head q) + 1"]
    by (auto simp: npu_ok_def sel)
  show "npu_items q = npu_next q # npu_items (npu_advance q)"
    unfolding npu_items_def len using k
    by (simp add: slice_first sel unat_head_next [OF ok] npu_next_def)
qed

interpretation npuq: fifo npu_items "npu_ok k" "k - 1" "\<lambda>c. c" npu_put npu_next npu_advance for k
  by unfold_locales (use npu_put_correct npu_advance_correct in blast)+

subsection \<open>Tensor allocation\<close>

text \<open>A request whose block would reach the end of the address space counts as an error.\<close>

definition npu_alloc_nat :: "u32 \<Rightarrow> u32 \<Rightarrow> unit + nat \<times> u32" where
  "npu_alloc_nat size' heap =
     (let (p, heap') = npu_alloc size' heap
      in if unat heap + unat size' + 31 < 2 ^ 32 then Inr (unat p, heap') else Inl ())"

definition heap_aligned :: "u32 \<Rightarrow> bool" where
  "heap_aligned heap \<longleftrightarrow> 32 dvd unat heap"

lemma npu_alloc_natD:
  assumes "npu_alloc_nat n heap = Inr (p, heap')"
  shows "p = unat heap" and "unat heap' = unat heap + ((unat n + 31) div 32) * 32"
proof -
  have lim: "unat heap + unat n + 31 < 4294967296" and e: "p = unat heap"
    "heap' = heap + ((n + 31) AND NOT 31)"
    using assms by (auto simp: npu_alloc_nat_def npu_alloc_def Let_def split: if_splits)
  have "unat (n + 31) = unat n + 31" using lim by (simp add: unat_add_no_ovf)
  then have r: "unat ((n + 31) AND NOT 31) = ((unat n + 31) div 32) * 32"
    by (simp only: unat_and_not_31)
  show "p = unat heap" by (rule e)
  have "((unat n + 31) div 32) * 32 \<le> unat n + 31" by simp
  then show "unat heap' = unat heap + ((unat n + 31) div 32) * 32"
    unfolding e(2) using lim r by (subst unat_add_no_ovf) simp_all
qed

interpretation npa: bump_allocator npu_alloc_nat unat unat heap_aligned "\<lambda>_ _. True"
proof
  fix heap heap' n p
  assume "heap_aligned heap" and "npu_alloc_nat n heap = Inr (p, heap')"
  note D = npu_alloc_natD [OF this(2)]
  show "unat heap \<le> p" by (simp add: D(1))
  show "p + unat n \<le> unat heap'" unfolding D using round_up_ge [of 32 "unat n"] by simp
  show "heap_aligned heap'" using \<open>heap_aligned heap\<close> by (simp add: heap_aligned_def D(2))
qed

lemma npa_run_aligned:
  assumes "alloc_run npu_alloc_nat unat ns heap = Inr (bs, t)" and "heap_aligned heap"
  shows "\<forall>b \<in> set bs. 32 dvd fst b"
  using assms
proof (induction ns arbitrary: heap bs)
  case (Cons n ns)
  from Cons.prems(1) obtain p h cs where s: "npu_alloc_nat n heap = Inr (p, h)"
    "alloc_run npu_alloc_nat unat ns h = Inr (cs, t)" "bs = (p, unat n) # cs"
    by (rule npa.alloc_run_Cons_cases)
  have "heap_aligned h" using npa.alloc_inv [OF Cons.prems(2) _ s(1)] by simp
  from Cons.IH [OF s(2) this] s(3) npu_alloc_natD(1) [OF s(1)] Cons.prems(2)
  show ?case by (simp add: heap_aligned_def)
qed simp

text \<open>
  The tensors that the host allocates do not overlap. After \<open>npu_init\<close>, as long as no request
  reaches the end of the address space (the allocator itself does not check), the blocks that a
  sequence of calls of \<open>npu_alloc\<close> returns are pairwise disjoint, in DDR memory and aligned to the
  32 bytes of a DMA beat.\<close>

theorem npu_tensors_disjoint:
  assumes "alloc_run npu_alloc_nat unat ns (fst npu_init) = Inr (bs, heap)"
  shows "sorted_wrt blocks_apart bs \<and> (\<forall>b \<in> set bs. 0x80000000 \<le> fst b \<and> 32 dvd fst b)"
proof -
  have h: "heap_aligned (fst npu_init)" "unat (fst npu_init) = 0x80000000"
    by (simp_all add: npu_init_def heap_aligned_def NPU_DDR_MEMORY_BASE_def)
  from npa.alloc_run_correct [OF assms h(1)] h(2) npa_run_aligned [OF assms h(1)]
  show ?thesis by (auto simp: split_paired_all)
qed

theorem npu_tensors_disjoint_witness:
  "\<exists>heap. alloc_run npu_alloc_nat unat [100, 7, 64] (fst npu_init)
      = Inr ([(0x80000000, 100), (0x80000080, 7), (0x800000A0, 64)], heap)
    \<and> sorted_wrt blocks_apart [(0x80000000, 100), (0x80000080, 7), (0x800000A0, 64 :: nat)]"
proof -
  obtain heap where r: "alloc_run npu_alloc_nat unat [100, 7, 64] (fst npu_init)
      = Inr ([(0x80000000, 100), (0x80000080, 7), (0x800000A0, 64)], heap)"
    by (simp add: npu_alloc_nat_def npu_alloc_def Let_def npu_init_def NPU_DDR_MEMORY_BASE_def)
  from npu_tensors_disjoint [OF r] r show ?thesis by blast
qed

subsection \<open>Waiting\<close>

definition final_code :: "u32 \<Rightarrow> bool" where
  "final_code v \<longleftrightarrow> v = 2 \<or> v = 0xA5A5 \<or> v = 0xDEAD \<or> v = 0xDEADBEEF"

definition success_code :: "u32 \<Rightarrow> bool" where
  "success_code v \<longleftrightarrow> v = 2 \<or> v = 0xA5A5"

lemma poll_mailbox_find:
  "poll_mailbox mbox vals = map_option (\<lambda>v. (if success_code v then 0 else -1, [(mbox, 0)]))
     (find final_code vals)"
  by (induction vals) (auto simp: final_code_def success_code_def)

text \<open>
  \<open>npu_wait_all\<close> returns exactly when every mailbox has shown a final code, and then 0 exactly
  when the first final code of each of the four clusters is a success code (2 or 0xA5A5): values in
  between, such as the 1 of the doorbell, are ignored, and no error of one cluster is masked by
  the success of a later one.\<close>

lemma npu_wait_all_result:
  "npu_wait_all vals =
     (if \<forall>i < 4. find final_code (vals i) \<noteq> None
      then Some (if \<forall>i < 4. success_code (the (find final_code (vals i))) then 0 else -1)
      else None)"
proof -
  have four: "(\<forall>i < 4. P i) \<longleftrightarrow> P 0 \<and> P (Suc 0) \<and> P 2 \<and> P 3" for P :: "nat \<Rightarrow> bool"
    by (simp add: numeral_eq_Suc All_less_Suc conj_ac)
  have w: "npu_wait_cluster (of_nat i) (vals i) = poll_mailbox (mbox_trigger (of_nat i)) (vals i)"
    if "i \<in> {0, 1, 2, 3}" for i
    using that by (auto simp: npu_wait_cluster_def word_le_nat_alt)
  have r: "wait_from 4 0 0 vals = (case poll_mailbox (mbox_trigger 0) (vals 0) of None \<Rightarrow> None
      | Some (r0, _) \<Rightarrow> (case poll_mailbox (mbox_trigger 1) (vals 1) of None \<Rightarrow> None
      | Some (r1, _) \<Rightarrow> (case poll_mailbox (mbox_trigger 2) (vals 2) of None \<Rightarrow> None
      | Some (r2, _) \<Rightarrow> (case poll_mailbox (mbox_trigger 3) (vals 3) of None \<Rightarrow> None
      | Some (r3, _) \<Rightarrow> Some (if r3 \<noteq> 0 then r3 else if r2 \<noteq> 0 then r2 else if r1 \<noteq> 0 then r1
           else r0)))))"
    using w [of 0] w [of 1] w [of 2] w [of 3] by (simp add: numeral_eq_Suc split: option.splits)
  show ?thesis
    unfolding npu_wait_all_def r four poll_mailbox_find
    by (auto simp: split: option.splits)
qed

lemma npu_wait_all_result_witness:
  "npu_wait_all (\<lambda>i. [1, if i = 2 then 0xDEAD else 2]) = Some (-1)"
  unfolding npu_wait_all_result by (auto simp: final_code_def success_code_def)

end
