(* ===== verification/Npu_Runtime.thy ===== *)
theory Npu_Runtime
  imports Npu_Driver
begin

text \<open>
  The firmware of an NPU cluster (\<open>sw/npu_runtime/npu_runtime.c\<close>): the interpretation of a command,
  and the main loop that copies the command queue from DDR memory and processes it.

  The firmware drives memory-mapped registers. Its effect is the list of its register stores and of
  its waits for a unit to be idle, in program order; a wait ends when the unit does, which is not
  part of the firmware. The three words of the MatMul configuration are its state.
\<close>

subsection \<open>Registers\<close>

datatype npu_ev = Wait_core nat | Wait_dma | Wait_doorbell | Reg u32 u32

definition MBOX_TRIGGER :: u32 where "MBOX_TRIGGER = 0x40000004"
definition DMA_SRC :: u32 where "DMA_SRC = 0x70000000"
definition DMA_DST :: u32 where "DMA_DST = 0x70000004"
definition DMA_DIM_X :: u32 where "DMA_DIM_X = 0x70000008"
definition DMA_DIM_Y :: u32 where "DMA_DIM_Y = 0x7000000C"
definition DMA_STRIDE_S :: u32 where "DMA_STRIDE_S = 0x70000010"
definition DMA_STRIDE_D :: u32 where "DMA_STRIDE_D = 0x70000014"
definition DMA_TRIGGER :: u32 where "DMA_TRIGGER = 0x70000018"

text \<open>The registers of core \<open>c\<close>.\<close>

definition core_reg :: "nat \<Rightarrow> u32 \<Rightarrow> u32" where
  "core_reg c off = 0x60000000 + of_nat c * 0x100 + off"

definition CORE_ACT :: "nat \<Rightarrow> u32" where "CORE_ACT c = core_reg c 0x00"
definition CORE_WGT :: "nat \<Rightarrow> u32" where "CORE_WGT c = core_reg c 0x04"
definition CORE_OUT :: "nat \<Rightarrow> u32" where "CORE_OUT c = core_reg c 0x08"
definition CORE_SLIDE :: "nat \<Rightarrow> u32" where "CORE_SLIDE c = core_reg c 0x0C"
definition CORE_IMG_WIDTH :: "nat \<Rightarrow> u32" where "CORE_IMG_WIDTH c = core_reg c 0x10"
definition CORE_KERNEL_SIZE :: "nat \<Rightarrow> u32" where "CORE_KERNEL_SIZE c = core_reg c 0x14"
definition CORE_STRIDE :: "nat \<Rightarrow> u32" where "CORE_STRIDE c = core_reg c 0x18"
definition CORE_CTRL :: "nat \<Rightarrow> u32" where "CORE_CTRL c = core_reg c 0x1C"

record mm_cfg =
  mm_M :: u32
  mm_K :: u32
  mm_N :: u32

subsection \<open>Multiplication by shifts\<close>

function soft_mul_loop :: "u32 \<Rightarrow> u32 \<Rightarrow> u32 \<Rightarrow> u32" where
  "soft_mul_loop res a b =
     (if 0 < b
      then soft_mul_loop (if b AND 1 \<noteq> 0 then res + a else res) (push_bit 1 a) (drop_bit 1 b)
      else res)"
  by pat_completeness auto

termination
proof (relation "measure (\<lambda>(res, a, b). unat b)")
  fix res a b :: u32
  assume "0 < b"
  then have "0 < unat b" by (simp add: word_less_nat_alt)
  then show "((if b AND 1 \<noteq> 0 then res + a else res, push_bit 1 a, drop_bit 1 b), res, a, b)
      \<in> measure (\<lambda>(res, a, b). unat b)"
    by (simp add: drop_bit_eq_div unat_div)
qed simp

declare soft_mul_loop.simps [simp del]

definition soft_mul :: "u32 \<Rightarrow> u32 \<Rightarrow> u32" where
  "soft_mul a b = soft_mul_loop 0 a b"

subsection \<open>Commands\<close>

definition dma_copy :: "u32 \<Rightarrow> u32 \<Rightarrow> u32 \<Rightarrow> npu_ev list" where
  "dma_copy src dst size' =
     [Wait_dma, Reg DMA_SRC src, Reg DMA_DST dst, Reg DMA_DIM_X size', Reg DMA_TRIGGER 1, Wait_dma]"

definition maxpool_dim :: "u32 \<Rightarrow> u32 \<Rightarrow> u32 \<Rightarrow> u32" where
  "maxpool_dim len kernel_size stride =
     (if stride = 2 then drop_bit 1 (len - kernel_size) + 1 else (len - kernel_size) + 1)"

definition do_maxpool :: "npu_cmd \<Rightarrow> npu_ev list" where
  "do_maxpool cmd =
     (let act_addr = arg0 cmd;
          width = arg1 cmd AND 0xFF;
          height = drop_bit 8 (arg1 cmd) AND 0xFF;
          kernel_size = drop_bit 16 (arg1 cmd) AND 0xFF;
          stride = drop_bit 24 (arg1 cmd) AND 0xFF;
          out_addr = arg2 cmd;
          height = (if height = 0 then width else height);
          out_w = maxpool_dim width kernel_size stride;
          out_h = maxpool_dim height kernel_size stride;
          max_slides = soft_mul out_w out_h
      in [Wait_core 0, Reg (CORE_ACT 0) act_addr, Reg (CORE_WGT 0) 0, Reg (CORE_OUT 0) out_addr,
          Reg (CORE_SLIDE 0) (push_bit 16 max_slides OR out_w), Reg (CORE_IMG_WIDTH 0) width,
          Reg (CORE_KERNEL_SIZE 0) kernel_size, Reg (CORE_STRIDE 0) stride,
          Reg (CORE_CTRL 0) (push_bit 8 7 OR 0x05)])"

text \<open>One tile: the wait for the core and its five stores.\<close>

definition dispatch_tile :: "nat \<Rightarrow> u32 \<Rightarrow> u32 \<Rightarrow> u32 \<Rightarrow> u32 \<Rightarrow> u32 \<Rightarrow> npu_ev list" where
  "dispatch_tile core act_addr wgt_addr out_addr num_k_tiles ctrl =
     [Wait_core core, Reg (CORE_ACT core) act_addr, Reg (CORE_WGT core) wgt_addr,
      Reg (CORE_OUT core) out_addr, Reg (CORE_SLIDE core) num_k_tiles, Reg (CORE_CTRL core) ctrl]"

definition act_code :: "u8 \<Rightarrow> u32" where
  "act_code opc =
     (if opc = opcode_of OP_COMPUTE_ACT_SILU then push_bit 8 5
      else if opc = opcode_of OP_COMPUTE_ACT_MISH then push_bit 8 6
      else if opc = opcode_of OP_COMPUTE_ACT_SIGMOID then push_bit 8 3
      else 0)"

text \<open>The two nested loops; the state of the loops is the next core and the events so far.\<close>

definition do_matmul :: "mm_cfg \<Rightarrow> npu_cmd \<Rightarrow> npu_ev list" where
  "do_matmul g cmd =
     (let act_base = arg0 cmd; wgt_base = arg1 cmd; out_base = arg2 cmd;
          k_pad = push_bit 5 (drop_bit 5 (mm_K g + 31));
          num_m_tiles = (mm_M g + 1 - 1) div 1;
          num_k_tiles = drop_bit 5 (mm_K g + 32 - 1);
          num_n_tiles = drop_bit 2 (mm_N g + 4 - 1)
      in snd (for_upto 0 (unat num_n_tiles) (\<lambda>n.
           for_upto 0 (unat num_m_tiles) (\<lambda>m (core, es).
             let act_addr = act_base + soft_mul (of_nat m) k_pad;
                 wgt_addr = wgt_base + soft_mul (push_bit 2 (of_nat n)) k_pad;
                 out_addr = out_base + soft_mul (push_bit 2 (of_nat n)) (mm_M g)
                   + push_bit 2 (of_nat m)
             in (if 10 \<le> core + 1 then 0 else core + 1,
                 es @ dispatch_tile core act_addr wgt_addr out_addr num_k_tiles
                        (act_code (opcode cmd) OR 0x05)))) (0, [])))"

definition execute_op :: "npu_cmd \<Rightarrow> mm_cfg \<Rightarrow> npu_ev list \<times> mm_cfg" where
  "execute_op cmd g =
     (let opc = opcode cmd in
      if opc = opcode_of OP_NOP then ([], g)
      else if opc = opcode_of OP_DMA_READ then (dma_copy (arg0 cmd) (arg1 cmd) (arg2 cmd), g)
      else if opc = opcode_of OP_DMA_WRITE then (dma_copy (arg1 cmd) (arg0 cmd) (arg2 cmd), g)
      else if opc = opcode_of OP_WAIT_DMA then ([Wait_dma], g)
      else if opc = opcode_of OP_WAIT_COMPUTE then (map Wait_core [0..<10], g)
      else if opc = opcode_of OP_COMPUTE_MAXPOOL then (do_maxpool cmd, g)
      else if opc = opcode_of OP_CFG_MATMUL
        then ([], \<lparr>mm_M = arg0 cmd, mm_K = arg1 cmd, mm_N = arg2 cmd\<rparr>)
      else if opc \<in> {opcode_of OP_COMPUTE_CONV2D, opcode_of OP_COMPUTE_ACT_SILU,
          opcode_of OP_COMPUTE_ACT_MISH, opcode_of OP_COMPUTE_ACT_SIGMOID,
          opcode_of OP_COMPUTE_MATMUL} then (do_matmul g cmd, g)
      else ([], g))"

subsection \<open>The main loop\<close>

text \<open>
  The DMA brings 2048 bytes of the queue in DDR memory over the queue in the TCDM: the header of
  16 bytes and 127 commands of 16 bytes.
\<close>

definition fetched_cmds :: nat where
  "fetched_cmds = (2048 - 16) div 16"

definition fetch_queue :: "npu_queue \<Rightarrow> npu_queue \<Rightarrow> npu_queue" where
  "fetch_queue ddr tcdm = ddr\<lparr>q_cmds := (\<lambda>i. if i < fetched_cmds then q_cmds ddr i else q_cmds tcdm i)\<rparr>"

definition queue_addr :: "u32 \<Rightarrow> u32" where
  "queue_addr cl = 0x1003f000 + cl * 0x100"

definition fetch_events :: "u32 \<Rightarrow> npu_ev list" where
  "fetch_events cl = [Wait_doorbell, Reg MBOX_TRIGGER 1, Wait_dma,
     Reg DMA_SRC (0x80000000 + cl * 0x100000), Reg DMA_DST (queue_addr cl), Reg DMA_DIM_X 2048,
     Reg DMA_DIM_Y 1, Reg DMA_STRIDE_S 0, Reg DMA_STRIDE_D 0, Reg DMA_TRIGGER 1, Wait_dma]"

text \<open>The loop over the commands; it may run for ever when the tail is no index of the queue.\<close>

partial_function (option) process_cmds ::
  "npu_queue \<Rightarrow> mm_cfg \<Rightarrow> npu_ev list \<Rightarrow> (npu_queue \<times> mm_cfg \<times> npu_ev list) option" where
  "process_cmds q g log =
     (if q_head q = q_tail q then Some (q, g, log)
      else let cmd = npu_next q; (es, g') = execute_op cmd g
        in if opcode cmd = opcode_of OP_FINISH
           then Some (npu_advance q, g', log @ es @ [Reg MBOX_TRIGGER 0xA5A5, Reg MBOX_TRIGGER 2])
           else process_cmds (npu_advance q) g' (log @ es))"

text \<open>One doorbell: the queue in the TCDM and the configuration before and after, and the events.\<close>

definition npu_service ::
  "u32 \<Rightarrow> npu_queue \<Rightarrow> npu_queue \<Rightarrow> mm_cfg \<Rightarrow> (npu_queue \<times> mm_cfg \<times> npu_ev list) option" where
  "npu_service cl ddr tcdm g = process_cmds (fetch_queue ddr tcdm) g (fetch_events cl)"

subsection \<open>Multiplication\<close>

lemma soft_mul_loop_correct: "soft_mul_loop res a b = res + a * b"
proof (induction res a b rule: soft_mul_loop.induct)
  case (1 res a b)
  show ?case
  proof (cases "0 < b")
    case True
    have "b = 2 * drop_bit 1 b + (b AND 1)"
      by (simp only: drop_bit_eq_div and_one_eq power_one_right mult_div_mod_eq)
    then have "a * b = a * (2 * drop_bit 1 b + (b AND 1))" by simp
    also have "\<dots> = push_bit 1 a * drop_bit 1 b + a * (b AND 1)"
      by (simp add: push_bit_eq_mult algebra_simps)
    also have "a * (b AND 1) = (if b AND 1 \<noteq> 0 then a else 0)"
      by (simp add: and_one_eq mod_2_eq_odd)
    finally have "a * b = push_bit 1 a * drop_bit 1 b + (if b AND 1 \<noteq> 0 then a else 0)" .
    with 1 [OF True] show ?thesis
      using True by (subst soft_mul_loop.simps) simp
  next
    case False
    then have "b = 0" by (metis word_gt_0)
    then show ?thesis by (subst soft_mul_loop.simps) simp
  qed
qed

text \<open>The multiplication, which the core has no instruction for, is the product modulo
  \<open>2\<^sup>3\<^sup>2\<close>, for all operands.\<close>

lemma soft_mul_correct: "soft_mul a b = a * b"
  by (simp add: soft_mul_def soft_mul_loop_correct)

subsection \<open>Processing a queue\<close>

text \<open>The specification: the commands in order, up to the first \<open>OP_FINISH\<close>, which is announced.\<close>

fun run_cmds :: "npu_cmd list \<Rightarrow> mm_cfg \<Rightarrow> npu_ev list \<times> mm_cfg" where
  "run_cmds [] g = ([], g)"
| "run_cmds (c # cs) g =
     (let (es, g') = execute_op c g
      in if opcode c = opcode_of OP_FINISH
         then (es @ [Reg MBOX_TRIGGER 0xA5A5, Reg MBOX_TRIGGER 2], g')
         else (let (fs, g'') = run_cmds cs g' in (es @ fs, g'')))"

lemma process_run:
  assumes "npu_ok k q"
  shows "\<exists>q'. process_cmds q g log = Some (q', snd (run_cmds (npu_items q) g),
      log @ fst (run_cmds (npu_items q) g))"
  using assms
proof (induction "length (npu_items q)" arbitrary: q g log)
  case 0
  then have "npu_items q = []" by (metis length_0_conv)
  moreover from this have "q_head q = q_tail q" using npu_items_empty [OF \<open>npu_ok k q\<close>] by simp
  ultimately show ?case by (subst process_cmds.simps) simp
next
  case (Suc n)
  have ne: "npu_items q \<noteq> []" using Suc.hyps(2) by (metis list.size(3) nat.distinct(1))
  then have ht: "q_head q \<noteq> q_tail q" using npu_items_empty [OF Suc.prems] by simp
  note a = npu_advance_correct [OF Suc.prems ne]
  obtain es g' where x: "execute_op (npu_next q) g = (es, g')" by (cases "execute_op (npu_next q) g")
  have l: "n = length (npu_items (npu_advance q))" using Suc.hyps(2) a(2) by simp
  from Suc.hyps(1) [OF l a(1), of g' "log @ es"]
  obtain q' where "process_cmds (npu_advance q) g' (log @ es)
      = Some (q', snd (run_cmds (npu_items (npu_advance q)) g'),
          (log @ es) @ fst (run_cmds (npu_items (npu_advance q)) g'))" by blast
  then show ?case
    using ht x a(2) by (subst process_cmds.simps) (auto split: prod.splits)
qed

text \<open>
  C20: the firmware processes a well-formed queue and stops. For every queue whose indices are
  below its capacity the loop over the commands ends, and its effect is that of the queued
  commands, from the head to the tail across the end of the array, in their order, up to the first
  \<open>OP_FINISH\<close>.\<close>

theorem firmware_processes_queue:
  assumes "npu_ok k q"
  shows "\<exists>q'. process_cmds q g log = Some (q', snd (run_cmds (npu_items q) g),
      log @ fst (run_cmds (npu_items q) g))"
  using assms by (rule process_run)

subsection \<open>Host and firmware\<close>

definition enqueue_all :: "npu_cmd list \<Rightarrow> npu_queue \<Rightarrow> npu_queue" where
  "enqueue_all cs q = fold npu_put cs q"

lemma create_ok: "0 < unat cap \<Longrightarrow> npu_ok (unat cap) (npu_queue_create memory cap)
    \<and> npu_items (npu_queue_create memory cap) = []"
  by (simp add: npu_ok_def npu_queue_create_def npu_items_def npu_len_def)

lemma enqueue_all_correct:
  assumes "npu_ok k q" and "length (npu_items q) + length cs < k"
  shows "npu_ok k (enqueue_all cs q) \<and> npu_items (enqueue_all cs q) = npu_items q @ cs
    \<and> q_head (enqueue_all cs q) = q_head q"
  using assms
proof (induction cs arbitrary: q)
  case Nil
  then show ?case by (simp add: enqueue_all_def)
next
  case (Cons c cs)
  have r: "length (npu_items q) < k - 1" using Cons.prems(2) by simp
  note p = npu_put_correct [OF Cons.prems(1) r, of c]
  have "q_head (npu_put c q) = q_head q" by (simp add: npu_put_def npu_enqueue_def Let_def)
  with Cons.IH [OF p(1)] p(2) Cons.prems(2) show ?case by (simp add: enqueue_all_def)
qed

lemma fetch_ok: "npu_ok k ddr \<Longrightarrow> npu_ok k (fetch_queue ddr tcdm)"
  by (simp add: npu_ok_def fetch_queue_def)

text \<open>With the head at 0 the commands are the first of the array, and 127 of them are fetched.\<close>

lemma fetch_items:
  assumes "npu_ok k ddr" and "q_head ddr = 0" and "length (npu_items ddr) \<le> 127"
  shows "npu_items (fetch_queue ddr tcdm) = npu_items ddr"
proof -
  have f: "npu_len (fetch_queue ddr tcdm) = npu_len ddr" "q_capacity (fetch_queue ddr tcdm) = q_capacity ddr"
    "q_head (fetch_queue ddr tcdm) = q_head ddr" by (simp_all add: fetch_queue_def npu_len_def)
  have n: "npu_len ddr \<le> 127" "npu_len ddr < k" using assms by (auto simp: npu_len_def npu_ok_def)
  show ?thesis unfolding npu_items_def f using n assms(1,2)
    by (auto simp: slice_def npu_ok_def fetch_queue_def fetched_cmds_def)
qed

lemma service_run:
  assumes "0 < unat cap" and "length cs < unat cap" and "length cs \<le> 127"
  shows "\<exists>q'. npu_service cl (enqueue_all cs (npu_queue_create memory cap)) tcdm g
    = Some (q', snd (run_cmds cs g), fetch_events cl @ fst (run_cmds cs g))"
proof -
  let ?ddr = "enqueue_all cs (npu_queue_create memory cap)"
  have c: "npu_ok (unat cap) (npu_queue_create memory cap)" "npu_items (npu_queue_create memory cap) = []"
    using create_ok [OF assms(1)] by simp_all
  have h: "q_head (npu_queue_create memory cap) = 0" by (simp add: npu_queue_create_def)
  have e: "npu_ok (unat cap) ?ddr" "npu_items ?ddr = cs" "q_head ?ddr = 0"
    using enqueue_all_correct [OF c(1), of cs] assms(2) unfolding c(2) h by simp_all
  have "npu_items (fetch_queue ?ddr tcdm) = cs" using fetch_items [OF e(1,3)] assms(3) unfolding e(2) by blast
  then show ?thesis
    using process_run [OF fetch_ok [OF e(1)], of tcdm g "fetch_events cl"]
    unfolding npu_service_def by simp
qed

text \<open>
  C19: a batch of commands reaches the hardware. The host creates a queue, enqueues fewer commands
  than its capacity (and at most the 127 that one fetch brings) and rings the doorbell: the firmware
  fetches the queue and drives exactly the register accesses of those commands, in their order, up to
  \<open>OP_FINISH\<close>, whatever was in the memory behind the queue and in the TCDM before.\<close>

theorem npu_batch_executed:
  assumes "length cs < unat cap" and "length cs \<le> 127"
  shows "\<exists>q'. npu_service cl (enqueue_all cs (npu_queue_create memory cap)) tcdm g
    = Some (q', snd (run_cmds cs g), fetch_events cl @ fst (run_cmds cs g))"
  using service_run [OF _ assms] assms(1) by simp

lemma run_cmds_finish:
  "\<exists>c \<in> set cs. opcode c = opcode_of OP_FINISH \<Longrightarrow> run_cmds (cs @ ds) g = run_cmds cs g"
proof (induction cs arbitrary: g)
  case (Cons c cs)
  then show ?case by (cases "opcode c = opcode_of OP_FINISH") (auto simp: case_prod_beta)
qed simp

lemma enqueue_all_append: "enqueue_all ds (enqueue_all cs q) = enqueue_all (cs @ ds) q"
  by (simp add: enqueue_all_def)

text \<open>
  C22: a second batch is never executed. The firmware advances the head of its own copy only, and the
  next doorbell copies the host's header over it, with the head still 0: the batch \<open>cs\<close>, which ends
  in \<open>OP_FINISH\<close>, is executed again, and the commands \<open>ds\<close> that the host enqueued after it
  are not reached.\<close>

theorem npu_second_batch_ignored:
  assumes "length (cs @ ds) < unat cap" and "length (cs @ ds) \<le> 127"
    and "\<exists>c \<in> set cs. opcode c = opcode_of OP_FINISH"
    and "npu_service cl (enqueue_all cs (npu_queue_create memory cap)) tcdm g = Some (tcdm', g', es)"
  shows "\<exists>q'. npu_service cl (enqueue_all ds (enqueue_all cs (npu_queue_create memory cap))) tcdm' g'
    = Some (q', snd (run_cmds cs g'), fetch_events cl @ fst (run_cmds cs g'))"
  using npu_batch_executed [OF assms(1,2), of cl memory tcdm' g'] run_cmds_finish [OF assms(3), of ds g']
  unfolding enqueue_all_append by simp

definition fw_cmd :: "npu_opcode \<Rightarrow> u32 \<Rightarrow> u32 \<Rightarrow> u32 \<Rightarrow> npu_cmd" where
  "fw_cmd opc x y z = \<lparr>opcode = opcode_of opc, cmd_flags = 0, cluster_id = 0, arg0 = x, arg1 = y, arg2 = z\<rparr>"

definition junk_queue :: npu_queue where
  "junk_queue = \<lparr>q_head = 9, q_tail = 0, q_capacity = 0, q_status = 7, q_cmds = (\<lambda>i. fw_cmd OP_NOP 0 0 0)\<rparr>"

theorem firmware_processes_queue_witness:
  "\<exists>q'. process_cmds \<lparr>q_head = 3, q_tail = 1, q_capacity = 4, q_status = 0,
        q_cmds = (\<lambda>i. if i = 3 then fw_cmd OP_WAIT_DMA 0 0 0 else fw_cmd OP_FINISH 0 0 0)\<rparr>
      \<lparr>mm_M = 0, mm_K = 0, mm_N = 0\<rparr> []
    = Some (q', \<lparr>mm_M = 0, mm_K = 0, mm_N = 0\<rparr>, [Wait_dma, Reg MBOX_TRIGGER 0xA5A5, Reg MBOX_TRIGGER 2])"
proof -
  let ?q = "\<lparr>q_head = 3, q_tail = 1, q_capacity = 4, q_status = 0,
        q_cmds = (\<lambda>i. if i = 3 then fw_cmd OP_WAIT_DMA 0 0 0 else fw_cmd OP_FINISH 0 0 0)\<rparr>"
  have ok: "npu_ok 4 ?q" by (simp add: npu_ok_def)
  have i: "npu_items ?q = [fw_cmd OP_WAIT_DMA 0 0 0, fw_cmd OP_FINISH 0 0 0]"
    by (simp add: npu_items_def npu_len_def slice_def upt_rec)
  show ?thesis using firmware_processes_queue [OF ok, of "\<lparr>mm_M = 0, mm_K = 0, mm_N = 0\<rparr>" "[]"] unfolding i
    by (simp add: fw_cmd_def execute_op_def)
qed

theorem npu_batch_executed_witness:
  "\<exists>q'. npu_service 1 (enqueue_all [fw_cmd OP_DMA_READ 0x80001000 0x10000000 512, fw_cmd OP_FINISH 0 0 0]
        (npu_queue_create (\<lambda>i. fw_cmd OP_NOP 0 0 0) 64)) junk_queue \<lparr>mm_M = 0, mm_K = 0, mm_N = 0\<rparr>
    = Some (q', \<lparr>mm_M = 0, mm_K = 0, mm_N = 0\<rparr>, fetch_events 1
        @ [Wait_dma, Reg DMA_SRC 0x80001000, Reg DMA_DST 0x10000000, Reg DMA_DIM_X 512, Reg DMA_TRIGGER 1,
           Wait_dma, Reg MBOX_TRIGGER 0xA5A5, Reg MBOX_TRIGGER 2])"
  using npu_batch_executed [of "[fw_cmd OP_DMA_READ 0x80001000 0x10000000 512, fw_cmd OP_FINISH 0 0 0]"
    64 1 "\<lambda>i. fw_cmd OP_NOP 0 0 0" junk_queue "\<lparr>mm_M = 0, mm_K = 0, mm_N = 0\<rparr>"]
  by (simp add: fw_cmd_def execute_op_def dma_copy_def)

theorem npu_second_batch_ignored_witness:
  "\<exists>q tcdm' g' es q'.
    npu_service 0 (enqueue_all [fw_cmd OP_WAIT_DMA 0 0 0, fw_cmd OP_FINISH 0 0 0] q) junk_queue
      \<lparr>mm_M = 0, mm_K = 0, mm_N = 0\<rparr> = Some (tcdm', g', es)
    \<and> npu_service 0 (enqueue_all [fw_cmd OP_DMA_READ 1 2 3, fw_cmd OP_FINISH 0 0 0]
        (enqueue_all [fw_cmd OP_WAIT_DMA 0 0 0, fw_cmd OP_FINISH 0 0 0] q)) tcdm' g'
      = Some (q', g', fetch_events 0 @ [Wait_dma, Reg MBOX_TRIGGER 0xA5A5, Reg MBOX_TRIGGER 2])"
proof -
  let ?cs = "[fw_cmd OP_WAIT_DMA 0 0 0, fw_cmd OP_FINISH 0 0 0]"
  let ?ds = "[fw_cmd OP_DMA_READ 1 2 3, fw_cmd OP_FINISH 0 0 0]"
  let ?g = "\<lparr>mm_M = 0, mm_K = 0, mm_N = 0\<rparr>"
  let ?q = "npu_queue_create (\<lambda>i. fw_cmd OP_NOP 0 0 0) 64"
  obtain t where t: "npu_service 0 (enqueue_all ?cs ?q) junk_queue ?g
      = Some (t, snd (run_cmds ?cs ?g), fetch_events 0 @ fst (run_cmds ?cs ?g))"
    using service_run [of 64 ?cs 0 "\<lambda>i. fw_cmd OP_NOP 0 0 0" junk_queue ?g] by (auto simp del: run_cmds.simps)
  have "\<exists>q'. npu_service 0 (enqueue_all ?ds (enqueue_all ?cs ?q)) t (snd (run_cmds ?cs ?g))
      = Some (q', snd (run_cmds ?cs (snd (run_cmds ?cs ?g))),
          fetch_events 0 @ fst (run_cmds ?cs (snd (run_cmds ?cs ?g))))"
    by (rule npu_second_batch_ignored [OF _ _ _ t]) (simp_all add: fw_cmd_def)
  with t show ?thesis by (simp add: fw_cmd_def execute_op_def) blast
qed

subsection \<open>The tiles of a matrix product\<close>

lemma tile_loops:
  fixes T :: "nat \<Rightarrow> nat \<Rightarrow> nat \<Rightarrow> 'e list"
  defines "step \<equiv> \<lambda>n m (core, es). (if 10 \<le> core + 1 then 0 else core + 1, es @ T n m core)"
  shows "for_upto 0 N (\<lambda>n. for_upto 0 M (step n)) (0, [])
    = ((N * M) mod 10, concat (map (\<lambda>i. T (i div M) (i mod M) (i mod 10)) [0..<N * M]))"
proof -
  let ?L = "\<lambda>k. (k mod 10, concat (map (\<lambda>i. T (i div M) (i mod M) (i mod 10)) [0..<k]))"
  have row: "for_upto 0 M (step n) (?L (n * M)) = ?L (n * M + M)" for n
  proof -
    have "for_upto 0 m (step n) (?L (n * M)) = ?L (n * M + m)" if "m \<le> M" for m
      using that
    proof (induction m)
      case (Suc m)
      have "step n m (?L (n * M + m)) = ?L (n * M + Suc m)"
        using Suc.prems by (auto simp: step_def mod_Suc)
      with Suc show ?case by (simp add: for_upto_Suc)
    qed simp
    then show ?thesis by simp
  qed
  show ?thesis
  proof (induction N)
    case (Suc N)
    then show ?case using row [of N] by (simp add: for_upto_Suc add.commute)
  qed simp
qed

lemma unat_ceil_div_32: "unat K + 31 < 2 ^ 32 \<Longrightarrow> unat (drop_bit 5 (K + 31 :: u32)) = (unat K + 31) div 32"
  by (simp add: unat_drop_bit_eq drop_bit_eq_div unat_word_ariths take_bit_eq_mod)

lemma unat_ceil_div_4: "unat N + 3 < 2 ^ 32 \<Longrightarrow> unat (drop_bit 2 (N + 3 :: u32)) = (unat N + 3) div 4"
  by (simp add: unat_drop_bit_eq drop_bit_eq_div unat_word_ariths take_bit_eq_mod)

text \<open>Tile \<open>i\<close> of a product: its row is \<open>i mod M\<close>, its four columns are block \<open>i div M\<close>.\<close>

definition matmul_tile :: "mm_cfg \<Rightarrow> npu_cmd \<Rightarrow> nat \<Rightarrow> npu_ev list" where
  "matmul_tile g cmd i =
     (let M = unat (mm_M g); kt = (unat (mm_K g) + 31) div 32
      in dispatch_tile (i mod 10) (arg0 cmd + of_nat (i mod M * (32 * kt)))
           (arg1 cmd + of_nat (4 * (i div M) * (32 * kt))) (arg2 cmd + of_nat (4 * i)) (of_nat kt)
           (act_code (opcode cmd) OR 0x05))"

lemma tile_addresses:
  assumes "0 < unat (mm_M g)" and "unat (mm_K g) + 31 < 2 ^ 32"
  shows "dispatch_tile (i mod 10)
      (arg0 cmd + soft_mul (of_nat (i mod unat (mm_M g))) (push_bit 5 (drop_bit 5 (mm_K g + 31))))
      (arg1 cmd + soft_mul (push_bit 2 (of_nat (i div unat (mm_M g)))) (push_bit 5 (drop_bit 5 (mm_K g + 31))))
      (arg2 cmd + soft_mul (push_bit 2 (of_nat (i div unat (mm_M g)))) (mm_M g)
         + push_bit 2 (of_nat (i mod unat (mm_M g))))
      (drop_bit 5 (mm_K g + 31)) (act_code (opcode cmd) OR 0x05) = matmul_tile g cmd i"
proof -
  have k: "drop_bit 5 (mm_K g + 31) = of_nat ((unat (mm_K g) + 31) div 32)"
    using unat_ceil_div_32 [OF assms(2)] by (metis of_nat_unat ucast_id)
  have i: "(of_nat i :: u32) = of_nat (i div unat (mm_M g)) * mm_M g + of_nat (i mod unat (mm_M g))"
    by (metis div_mult_mod_eq of_nat_add of_nat_mult of_nat_unat ucast_id)
  show ?thesis unfolding matmul_tile_def Let_def soft_mul_correct k
    by (simp add: i push_bit_eq_mult algebra_simps)
qed

text \<open>
  C21: the two loops of a matrix product dispatch each tile once. For configured sizes M, K, N (below
  the wrap-around of the rounding) the command drives \<open>M * \<lceil>N/4\<rceil>\<close> tiles, the i-th on core i mod 10
  after waiting for it, with the row i mod M of the padded activations, the block i div M of four
  columns of the weights and the output word 4i: the outputs of the tiles are one gapless array.\<close>

theorem matmul_tiles:
  assumes "unat (mm_K g) + 31 < 2 ^ 32" and "unat (mm_N g) + 3 < 2 ^ 32"
  shows "do_matmul g cmd
    = concat (map (matmul_tile g cmd) [0..<(unat (mm_N g) + 3) div 4 * unat (mm_M g)])"
proof -
  have sizes: "mm_K g + 32 - 1 = mm_K g + 31" "mm_N g + 4 - 1 = mm_N g + 3"
    "(mm_M g + 1 - 1) div 1 = mm_M g" by simp_all
  have "do_matmul g cmd = concat (map (\<lambda>i. dispatch_tile (i mod 10)
      (arg0 cmd + soft_mul (of_nat (i mod unat (mm_M g))) (push_bit 5 (drop_bit 5 (mm_K g + 31))))
      (arg1 cmd + soft_mul (push_bit 2 (of_nat (i div unat (mm_M g)))) (push_bit 5 (drop_bit 5 (mm_K g + 31))))
      (arg2 cmd + soft_mul (push_bit 2 (of_nat (i div unat (mm_M g)))) (mm_M g)
         + push_bit 2 (of_nat (i mod unat (mm_M g))))
      (drop_bit 5 (mm_K g + 31)) (act_code (opcode cmd) OR 0x05))
      [0..<(unat (mm_N g) + 3) div 4 * unat (mm_M g)])"
    unfolding do_matmul_def Let_def sizes tile_loops snd_conv unat_ceil_div_4 [OF assms(2)] ..
  then show ?thesis
    by (cases "unat (mm_M g) = 0") (simp_all add: tile_addresses [OF _ assms(1)])
qed

theorem matmul_tiles_witness:
  "\<exists>g cmd. g = \<lparr>mm_M = 2, mm_K = 40, mm_N = 5\<rparr> \<and> cmd = fw_cmd OP_COMPUTE_MATMUL 0x100 0x200 0x300
    \<and> do_matmul g cmd = dispatch_tile 0 0x100 0x200 0x300 2 5 @ dispatch_tile 1 0x140 0x200 0x304 2 5
        @ dispatch_tile 2 0x100 0x300 0x308 2 5 @ dispatch_tile 3 0x140 0x300 0x30C 2 5"
  using matmul_tiles [of "\<lparr>mm_M = 2, mm_K = 40, mm_N = 5\<rparr>" "fw_cmd OP_COMPUTE_MATMUL 0x100 0x200 0x300"]
  by (simp add: upt_rec matmul_tile_def fw_cmd_def act_code_def flip: numeral_2_eq_2)

subsection \<open>The host program\<close>

text \<open>
  \<open>sw/host_driver/host_main.c\<close>: the arguments of the second command are not initialised and are
  arguments here, as are the values that the host reads from the mailbox.
\<close>

definition host_cmd1 :: npu_cmd where
  "host_cmd1 = \<lparr>opcode = opcode_of OP_COMPUTE_CONV2D, cmd_flags = 0, cluster_id = 0,
     arg0 = 0x10000000, arg1 = 0x10000200, arg2 = 0x10000400\<rparr>"

definition host_cmd2 :: "u32 \<Rightarrow> u32 \<Rightarrow> u32 \<Rightarrow> npu_cmd" where
  "host_cmd2 x y z = \<lparr>opcode = opcode_of OP_FINISH, cmd_flags = 0, cluster_id = 0,
     arg0 = x, arg1 = y, arg2 = z\<rparr>"

definition host_main ::
  "(nat \<Rightarrow> npu_cmd) \<Rightarrow> u32 \<Rightarrow> u32 \<Rightarrow> u32 \<Rightarrow> u32 list \<Rightarrow> (npu_queue \<times> mmio) option" where
  "host_main memory x y z vals =
     (let q0 = npu_queue_create memory 64;
          (_, q1) = npu_enqueue q0 host_cmd1;
          (_, q2) = npu_enqueue q1 (host_cmd2 x y z)
      in case npu_wait_cluster 0 vals of
           None \<Rightarrow> None
         | Some (res, ack) \<Rightarrow> Some (q2, snd npu_init @ npu_ring_doorbell 0 @ ack
             @ (if res = 0 then [(mbox_trigger 0, 0x12345678)] else [])))"

lemma host_main_queue:
  "host_main memory x y z vals = Some (q, st)
    \<Longrightarrow> q = enqueue_all [host_cmd1, host_cmd2 x y z] (npu_queue_create memory 64)"
  by (auto simp: host_main_def Let_def enqueue_all_def npu_put_def split: prod.splits option.splits)

text \<open>
  The host program reports success without any computation: its convolution comes before any
  \<open>OP_CFG_MATMUL\<close>, the configuration is still 0, and the firmware dispatches no tile.
\<close>

lemma host_main_computes_nothing:
  assumes "host_main memory x y z vals = Some (q, st)"
  shows "\<exists>q'. npu_service 0 q tcdm \<lparr>mm_M = 0, mm_K = 0, mm_N = 0\<rparr>
    = Some (q', \<lparr>mm_M = 0, mm_K = 0, mm_N = 0\<rparr>,
        fetch_events 0 @ [Reg MBOX_TRIGGER 0xA5A5, Reg MBOX_TRIGGER 2])"
  unfolding host_main_queue [OF assms]
  using service_run [of 64 "[host_cmd1, host_cmd2 x y z]" 0 memory tcdm "\<lparr>mm_M = 0, mm_K = 0, mm_N = 0\<rparr>"]
  by (simp add: host_cmd1_def host_cmd2_def execute_op_def do_matmul_def)

text \<open>The commands announced for the firmware's own fallback operations have no effect.\<close>

lemma fallback_ops_ignored:
  "opcode c \<in> opcode_of ` {OP_FW_SOFTMAX, OP_FW_RESIZE_NN, OP_FW_SLICE, OP_FW_TRANSPOSE, OP_COMPUTE_MATMUL_LARGE}
    \<Longrightarrow> execute_op c g = ([], g)"
  by (auto simp: execute_op_def)

end
