(* ===== verification/Alloc_V2.thy ===== *)
theory Alloc_V2
  imports Alloc
begin

text \<open>
  The second allocator API (\<open>sw/runtime/src/alloc_v2.h\<close>): every core keeps its own copy of the
  allocator of its cluster's L1 memory (thread-local storage) and the cores stay in step by making
  the same calls. An allocation that passes the end of the heap executes \<open>ecall\<close>; the model
  returns the trap with the allocator as it is at that point.
\<close>

datatype snrt_trap = Ecall snrt_allocator

definition snrt_l1_next_v2 :: "snrt_allocator \<Rightarrow> u32" where
  "snrt_l1_next_v2 a = ucast (al_next a)"

definition snrt_l1_next_aligned_hyperbank :: "snrt_cfg \<Rightarrow> snrt_allocator \<Rightarrow> u32" where
  "snrt_l1_next_aligned_hyperbank c a = snrt_align_up_hyperbank c (snrt_l1_next_v2 a)"

definition snrt_l1_update_next_v2 :: "u32 \<Rightarrow> snrt_allocator \<Rightarrow> snrt_allocator" where
  "snrt_l1_update_next_v2 nxt a = a\<lparr>al_next := ucast nxt\<rparr>"

definition snrt_l1_alloc_check_bounds :: "snrt_allocator \<Rightarrow> snrt_trap + unit" where
  "snrt_l1_alloc_check_bounds a = (if al_next a > al_end a then Inl (Ecall a) else Inr ())"

text \<open>\<open>next = snrt_align_up(next, alignment)\<close>: the 64-bit field is narrowed to a pointer and widened.\<close>

definition align_next :: "u32 \<Rightarrow> snrt_allocator \<Rightarrow> snrt_allocator" where
  "align_next alignment a = a\<lparr>al_next := ucast (snrt_align_up (ucast (al_next a)) alignment 0)\<rparr>"

definition snrt_l1_alloc_cluster_local :: "u32 \<Rightarrow> u32 \<Rightarrow> snrt_allocator
    \<Rightarrow> snrt_trap + u32 \<times> snrt_allocator" where
  "snrt_l1_alloc_cluster_local size' alignment a =
     (let a1 = align_next alignment a;
          retval = snrt_l1_next_v2 a1;
          a2 = a1\<lparr>al_next := al_next a1 + ucast size'\<rparr>
      in case snrt_l1_alloc_check_bounds a2 of
           Inl t \<Rightarrow> Inl t
         | Inr _ \<Rightarrow> Inr (retval, a2))"

text \<open>The template overload, for \<open>count\<close> objects of a type of \<open>sizeof_T\<close> bytes.\<close>

definition snrt_l1_alloc_cluster_local_T :: "u32 \<Rightarrow> u32 \<Rightarrow> u32 \<Rightarrow> snrt_allocator
    \<Rightarrow> snrt_trap + u32 \<times> snrt_allocator" where
  "snrt_l1_alloc_cluster_local_T sizeof_T count' alignment a =
     (let a1 = align_next alignment a;
          retval = snrt_l1_next_v2 a1;
          a2 = a1\<lparr>al_next := al_next a1 + ucast (count' * sizeof_T)\<rparr>
      in case snrt_l1_alloc_check_bounds a2 of
           Inl t \<Rightarrow> Inl t
         | Inr _ \<Rightarrow> Inr (retval, a2))"

definition snrt_l1_alloc_compute_core_local :: "snrt_cfg \<Rightarrow> u32 \<Rightarrow> u32 \<Rightarrow> u32 \<Rightarrow> snrt_allocator
    \<Rightarrow> snrt_trap + u32 \<times> snrt_allocator" where
  "snrt_l1_alloc_compute_core_local c h size' alignment a =
     (let a1 = align_next alignment a;
          retval = snrt_l1_next_v2 a1 + size' * snrt_cluster_core_idx c h;
          a2 = a1\<lparr>al_next := al_next a1 + ucast (size' * snrt_cluster_compute_core_num c)\<rparr>
      in case snrt_l1_alloc_check_bounds a2 of
           Inl t \<Rightarrow> Inl t
         | Inr _ \<Rightarrow> Inr (retval, a2))"

definition snrt_l1_init :: "snrt_cfg \<Rightarrow> linker \<Rightarrow> u32 \<Rightarrow> snrt_allocator" where
  "snrt_l1_init c lk h =
     (let heap_end_addr = snrt_cls_base_addr c lk h
            - push_bit (LOG2_STACK_SIZE c) 1 * snrt_cluster_core_num c - 128;
          l1_start_addr = snrt_cluster_self c h;
          b = ucast (snrt_align_up l1_start_addr MIN_CHUNK_SIZE 0)
      in \<lparr>al_base = b, al_end = ucast heap_end_addr, al_next = b\<rparr>)"

subsection \<open>L3 allocation\<close>

definition snrt_l3_next_v2 :: "snrt_allocator \<Rightarrow> u32" where
  "snrt_l3_next_v2 a = ucast (al_next a)"

definition snrt_l3_alloc_check_bounds :: "snrt_allocator \<Rightarrow> snrt_trap + unit" where
  "snrt_l3_alloc_check_bounds a = (if al_next a \<ge> al_end a then Inl (Ecall a) else Inr ())"

definition snrt_l3_alloc_v2 :: "u32 \<Rightarrow> u32 \<Rightarrow> snrt_allocator \<Rightarrow> snrt_trap + u32 \<times> snrt_allocator" where
  "snrt_l3_alloc_v2 size' alignment a =
     (let a1 = align_next alignment a;
          retval = snrt_l3_next_v2 a1;
          a2 = a1\<lparr>al_next := al_next a1 + ucast size'\<rparr>
      in case snrt_l3_alloc_check_bounds a2 of
           Inl t \<Rightarrow> Inl t
         | Inr _ \<Rightarrow> Inr (retval, a2))"

definition snrt_l3_init :: "snrt_cfg \<Rightarrow> linker \<Rightarrow> snrt_allocator" where
  "snrt_l3_init c lk =
     (let b = ucast (snrt_align_up (edram lk) MIN_CHUNK_SIZE 0)
      in \<lparr>al_base = b, al_end = L3_END_ADDR c, al_next = b\<rparr>)"

subsection \<open>Pointer translation\<close>

definition snrt_compute_core_local_ptr :: "snrt_cfg \<Rightarrow> u32 \<Rightarrow> u32 \<Rightarrow> u32 \<Rightarrow> u32 \<Rightarrow> u32" where
  "snrt_compute_core_local_ptr c h ptr core_idx size' =
     (let offset = (core_idx - snrt_cluster_core_idx c h) * size' in ptr + offset)"

definition snrt_remote_l1_ptr :: "snrt_cfg \<Rightarrow> u32 \<Rightarrow> u32 \<Rightarrow> u32 \<Rightarrow> u32" where
  "snrt_remote_l1_ptr c ptr src_cluster_idx dst_cluster_idx =
     ptr + (dst_cluster_idx - src_cluster_idx) * CLUSTER_OFFSET c"

lemmas alloc_v2_defs = snrt_l1_alloc_cluster_local_def snrt_l1_alloc_compute_core_local_def
  snrt_l1_alloc_check_bounds_def align_next_def snrt_l1_next_v2_def Let_def

lemma cluster_local_T_eq:
  "snrt_l1_alloc_cluster_local_T sizeof_T count' alignment a
     = snrt_l1_alloc_cluster_local (count' * sizeof_T) alignment a"
  by (simp add: snrt_l1_alloc_cluster_local_T_def snrt_l1_alloc_cluster_local_def)

subsection \<open>The allocator contract\<close>

text \<open>
  A heap is well formed when \<open>base \<le> next \<le> end < 2 ^ 32\<close>. A request is a size and an alignment;
  its alignment fits when rounding up an address of the heap stays in the address space.
\<close>

definition heap_ok :: "snrt_allocator \<Rightarrow> bool" where
  "heap_ok a \<longleftrightarrow> al_base a \<le> al_next a \<and> al_next a \<le> al_end a \<and> unat (al_end a) < 2 ^ 32"

definition req_fits :: "u32 \<times> u32 \<Rightarrow> snrt_allocator \<Rightarrow> bool" where
  "req_fits r a \<longleftrightarrow> 0 < snd r \<and> unat (al_end a) + unat (snd r) \<le> 2 ^ 32"

definition v2_req_size :: "u32 \<times> u32 \<Rightarrow> nat" where
  "v2_req_size r = unat (fst r)"

definition v2_alloc_nat :: "u32 \<times> u32 \<Rightarrow> snrt_allocator \<Rightarrow> snrt_trap + nat \<times> snrt_allocator" where
  "v2_alloc_nat r a = (case snrt_l1_alloc_cluster_local (fst r) (snd r) a of
     Inl t \<Rightarrow> Inl t | Inr (p, a') \<Rightarrow> Inr (unat p, a'))"

lemma align_fits_next:
  assumes "heap_ok a" and "req_fits (size', alignment) a"
  shows "align_fits (ucast (al_next a)) alignment 0"
proof -
  have "unat (al_next a) \<le> unat (al_end a)" using assms(1) by (simp add: heap_ok_def word_le_nat_alt)
  then show ?thesis
    using assms by (simp add: align_fits_def req_fits_def heap_ok_def unat_ucast64_32)
qed

lemma next_lt32: "heap_ok a \<Longrightarrow> unat (al_next a) < 4294967296"
  by (simp add: heap_ok_def word_le_nat_alt)

text \<open>The aligned next pointer, as a number.\<close>

definition aligned_next :: "u32 \<Rightarrow> snrt_allocator \<Rightarrow> nat" where
  "aligned_next alignment a = unat (snrt_align_up (ucast (al_next a)) alignment 0)"

lemma aligned_next_ge:
  assumes "heap_ok a" and "req_fits (size', alignment) a"
  shows "unat (al_next a) \<le> aligned_next alignment a"
  using align_up_ge [OF align_fits_next [OF assms]] next_lt32 [OF assms(1)]
  by (simp add: aligned_next_def unat_ucast64_32)

lemma aligned_next_dvd:
  assumes "heap_ok a" and "req_fits (size', alignment) a"
  shows "unat alignment dvd aligned_next alignment a"
  using align_up_dvd [OF align_fits_next [OF assms]] by (simp add: aligned_next_def)

lemma unat_bump:
  "unat (al_next (align_next alignment a) + ucast (size' :: u32)) = aligned_next alignment a + unat size'"
proof -
  have "aligned_next alignment a < 4294967296" by (simp add: aligned_next_def unat_lt_pow32)
  moreover have "unat size' < 4294967296" by (rule unat_lt_pow32)
  ultimately show ?thesis
    by (simp add: align_next_def unat_add_no_ovf aligned_next_def)
qed

lemma cluster_local_cases:
  "snrt_l1_alloc_cluster_local size' alignment a =
     (let a2 = (align_next alignment a)\<lparr>al_next := al_next (align_next alignment a) + ucast size'\<rparr>
      in if unat (al_end a) < aligned_next alignment a + unat size' then Inl (Ecall a2)
         else Inr (snrt_align_up (ucast (al_next a)) alignment 0, a2))"
  using unat_bump [of alignment a size']
  by (simp add: alloc_v2_defs word_less_nat_alt)

lemma cluster_local_InrD:
  assumes "snrt_l1_alloc_cluster_local size' alignment a = Inr (p, a')"
  shows "unat p = aligned_next alignment a"
    and "unat (al_next a') = aligned_next alignment a + unat size'"
    and "al_end a' = al_end a" and "al_base a' = al_base a"
    and "unat (al_next a') \<le> unat (al_end a)"
  using assms unat_bump [of alignment a size']
  by (auto simp: cluster_local_cases Let_def aligned_next_def align_next_def split: if_splits)

lemma v2_alloc_natD:
  assumes "v2_alloc_nat r a = Inr (p, a')"
  shows "p = aligned_next (snd r) a" "unat (al_next a') = p + unat (fst r)"
    "al_end a' = al_end a" "al_base a' = al_base a" "unat (al_next a') \<le> unat (al_end a)"
proof -
  obtain q where q: "snrt_l1_alloc_cluster_local (fst r) (snd r) a = Inr (q, a')" and p: "p = unat q"
    using assms by (auto simp: v2_alloc_nat_def split: sum.splits prod.splits)
  note D = cluster_local_InrD [OF q]
  show "p = aligned_next (snd r) a" "unat (al_next a') = p + unat (fst r)"
    "al_end a' = al_end a" "al_base a' = al_base a" "unat (al_next a') \<le> unat (al_end a)"
    using D p by simp_all
qed

interpretation l1v2: bump_allocator v2_alloc_nat v2_req_size l1_next_nat heap_ok req_fits
proof
  fix a a' :: snrt_allocator and r q :: "u32 \<times> u32" and p :: nat
  assume a: "heap_ok a" "req_fits r a" "v2_alloc_nat r a = Inr (p, a')"
  note D = v2_alloc_natD [OF a(3)]
  have ge: "unat (al_next a) \<le> p"
    using aligned_next_ge [of a "fst r" "snd r"] a D(1) by simp
  show "l1_next_nat a \<le> p" using ge by (simp add: l1_next_nat_def)
  show "p + v2_req_size r \<le> l1_next_nat a'" using D by (simp add: l1_next_nat_def v2_req_size_def)
  show "heap_ok a'" using a(1) ge D by (simp add: heap_ok_def word_le_nat_alt)
  show "req_fits q a \<Longrightarrow> req_fits q a'" using D by (simp add: req_fits_def)
qed

lemma alloc_run_end: "alloc_run v2_alloc_nat v2_req_size rs a = Inr (bs, t) \<Longrightarrow> heap_ok a
    \<Longrightarrow> \<forall>r \<in> set rs. req_fits r a \<Longrightarrow> al_end t = al_end a"
proof (induction rs arbitrary: a bs)
  case Nil
  then show ?case by simp
next
  case (Cons r rs)
  from Cons.prems(1) obtain p a' cs where step: "v2_alloc_nat r a = Inr (p, a')"
    and run: "alloc_run v2_alloc_nat v2_req_size rs a' = Inr (cs, t)"
    by (rule l1v2.alloc_run_Cons_cases)
  have r: "req_fits r a" using Cons.prems(3) by simp
  have "\<forall>q \<in> set rs. req_fits q a'"
    using Cons.prems(3) l1v2.fits_stable [OF Cons.prems(2) r step] by simp
  with Cons.IH [OF run l1v2.alloc_inv [OF Cons.prems(2) r step]] v2_alloc_natD(3) [OF step]
  show ?case by simp
qed

subsection \<open>Core-local blocks\<close>

lemma core_local_next_uniform:
  "map_sum id snd (snrt_l1_alloc_compute_core_local c h size' alignment a)
     = map_sum id snd (snrt_l1_alloc_compute_core_local c h' size' alignment a)"
  by (simp add: alloc_v2_defs)

lemma core_local_ptr_translates:
  assumes "snrt_l1_alloc_compute_core_local c h size' alignment a = Inr (p, a')"
    and "snrt_l1_alloc_compute_core_local c h' size' alignment a = Inr (q, b')"
  shows "snrt_compute_core_local_ptr c h p (snrt_cluster_core_idx c h') size' = q"
  using assms
  by (auto simp: alloc_v2_defs snrt_compute_core_local_ptr_def algebra_simps split: if_splits)

lemma remote_l1_ptr_roundtrip: "snrt_remote_l1_ptr c (snrt_remote_l1_ptr c p i j) j i = p"
  by (simp add: snrt_remote_l1_ptr_def algebra_simps)

lemma remote_l1_ptr_trans: "snrt_remote_l1_ptr c (snrt_remote_l1_ptr c p i j) j k = snrt_remote_l1_ptr c p i k"
  by (simp add: snrt_remote_l1_ptr_def algebra_simps)

lemma core_local_InrD:
  assumes "snrt_l1_alloc_compute_core_local c h size' alignment a = Inr (p, a')"
  shows "p = snrt_align_up (ucast (al_next a)) alignment 0 + size' * snrt_cluster_core_idx c h"
    and "aligned_next alignment a + unat (size' * snrt_cluster_compute_core_num c) \<le> unat (al_end a)"
    and "unat (al_next a') = aligned_next alignment a + unat (size' * snrt_cluster_compute_core_num c)"
  using assms unat_bump [of alignment a "size' * snrt_cluster_compute_core_num c"]
  by (auto simp: alloc_v2_defs word_less_nat_alt split: if_splits)

text \<open>The block of the \<open>i\<close>-th compute core starts \<open>i\<close> sizes after the aligned next pointer.\<close>

lemma core_local_block:
  assumes "cfg_ok c" and "valid_core c cl i" and "i < unat (snrt_cluster_compute_core_num c)"
    and "heap_ok a"
    and "unat size' * unat (snrt_cluster_compute_core_num c) < 2 ^ 32"
    and "snrt_l1_alloc_compute_core_local c (hart_of c cl i) size' alignment a = Inr (p, a')"
  shows "unat p = aligned_next alignment a + unat size' * i"
    and "unat p + unat size' \<le> unat (al_next a')" and "unat (al_next a') \<le> unat (al_end a)"
proof -
  let ?n = "unat (snrt_cluster_compute_core_num c)"
  note D = core_local_InrD [OF assms(6)]
  have idx: "unat (snrt_cluster_core_idx c (hart_of c cl i)) = i"
    using assms(1,2) by (rule cluster_core_idx_hart_of)
  have le: "unat size' * i + unat size' \<le> unat size' * ?n"
  proof -
    have "unat size' * Suc i \<le> unat size' * ?n" using assms(3) by (intro mult_le_mono2) simp
    then show ?thesis by simp
  qed
  have tot: "unat (size' * snrt_cluster_compute_core_num c) = unat size' * ?n"
    using assms(5) by (simp add: unat_mult_no_ovf)
  have off: "unat (size' * snrt_cluster_core_idx c (hart_of c cl i)) = unat size' * i"
    using le assms(5) by (simp add: unat_mult_no_ovf idx)
  have lim: "aligned_next alignment a + unat size' * ?n < 2 ^ 32"
    using D(2) tot assms(4) by (simp add: heap_ok_def)
  show p: "unat p = aligned_next alignment a + unat size' * i"
    using lim le by (simp add: D(1) unat_add_no_ovf off aligned_next_def)
  show "unat p + unat size' \<le> unat (al_next a')" using D(3) tot le p by simp
  show "unat (al_next a') \<le> unat (al_end a)" using D(2,3) by simp
qed

subsection \<open>Properties\<close>

definition sample_heap :: snrt_allocator where
  "sample_heap = \<lparr>al_base = 0x1000, al_end = 0x2000, al_next = 0x1004\<rparr>"

lemma sample_heap_ok: "heap_ok sample_heap"
  by (simp add: heap_ok_def sample_heap_def)

text \<open>
  C1: Safety of the L1 heap. Whenever a sequence of cluster-local allocations succeeds from a
  well-formed heap, the blocks it returned never overlap, they lie between the next pointer of
  the start and the end of the heap, and each has the requested size and alignment.
\<close>

theorem l1_heap_blocks_disjoint:
  assumes "heap_ok a" and "\<forall>r \<in> set rs. req_fits r a"
    and "alloc_run v2_alloc_nat v2_req_size rs a = Inr (bs, t)"
  shows "sorted_wrt blocks_apart bs
    \<and> (\<forall>b \<in> set bs. block_within (unat (al_next a)) (unat (al_end a)) b)
    \<and> list_all2 (\<lambda>r b. snd b = unat (fst r) \<and> unat (snd r) dvd fst b) rs bs"
proof (intro conjI)
  note run = l1v2.alloc_run_correct [OF assms(3,1,2)]
  show "sorted_wrt blocks_apart bs" using run by blast
  have "unat (al_next t) \<le> unat (al_end a)"
    using run alloc_run_end [OF assms(3,1,2)] by (simp add: heap_ok_def word_le_nat_alt)
  then show "\<forall>b \<in> set bs. block_within (unat (al_next a)) (unat (al_end a)) b"
    using run by (auto simp: l1_next_nat_def intro: block_within_weaken)
  show "list_all2 (\<lambda>r b. snd b = unat (fst r) \<and> unat (snd r) dvd fst b) rs bs"
    using assms
  proof (induction rs arbitrary: a bs)
    case Nil
    then show ?case by simp
  next
    case (Cons r rs)
    from Cons.prems(3) obtain p a' cs where step: "v2_alloc_nat r a = Inr (p, a')"
      and run: "alloc_run v2_alloc_nat v2_req_size rs a' = Inr (cs, t)" and bs: "bs = (p, v2_req_size r) # cs"
      by (rule l1v2.alloc_run_Cons_cases)
    have r: "req_fits r a" using Cons.prems(2) by simp
    have "\<forall>q \<in> set rs. req_fits q a'"
      using Cons.prems(2) l1v2.fits_stable [OF Cons.prems(1) r step] by simp
    note IH = Cons.IH [OF l1v2.alloc_inv [OF Cons.prems(1) r step] this run]
    have "unat (snd r) dvd p"
      using aligned_next_dvd [of a "fst r" "snd r"] Cons.prems(1) r v2_alloc_natD(1) [OF step] by simp
    then show ?case using IH bs by (simp add: v2_req_size_def)
  qed
qed

theorem l1_heap_blocks_disjoint_witness:
  "\<exists>bs t. alloc_run v2_alloc_nat v2_req_size [(16, 8), (3, 1), (64, 64)] sample_heap = Inr (bs, t)
     \<and> bs = [(0x1008, 16), (0x1018, 3), (0x1040, 64)] \<and> sorted_wrt blocks_apart bs"
proof -
  let ?rs = "[(16, 8), (3, 1), (64, 64)] :: (u32 \<times> u32) list"
  let ?bs = "[(0x1008, 16), (0x1018, 3), (0x1040, 64)] :: block list"
  have run: "alloc_run v2_alloc_nat v2_req_size ?rs sample_heap
      = Inr (?bs, \<lparr>al_base = 0x1000, al_end = 0x2000, al_next = 0x1080\<rparr>)"
    by (simp add: sample_heap_def v2_alloc_nat_def v2_req_size_def alloc_v2_defs snrt_align_up_def)
  have "\<forall>r \<in> set ?rs. req_fits r sample_heap" by (simp add: req_fits_def sample_heap_def)
  from l1_heap_blocks_disjoint [OF sample_heap_ok this run] run show ?thesis by blast
qed

text \<open>
  C2: Core-local allocation. When the cores of a cluster make the same
  \<open>snrt_l1_alloc_compute_core_local\<close> call on equal allocators, every compute core gets its own
  block: the blocks of two different compute cores do not overlap, all lie below the end of the
  heap, and \<open>snrt_compute_core_local_ptr\<close> turns one core's pointer into the other core's.
\<close>

theorem core_local_blocks_disjoint:
  assumes "cfg_ok c" and "valid_core c cl i" and "valid_core c cl j"
    and "i < unat (snrt_cluster_compute_core_num c)" and "j < unat (snrt_cluster_compute_core_num c)"
    and "heap_ok a" and "unat size' * unat (snrt_cluster_compute_core_num c) < 2 ^ 32"
    and "snrt_l1_alloc_compute_core_local c (hart_of c cl i) size' alignment a = Inr (p, a')"
    and "snrt_l1_alloc_compute_core_local c (hart_of c cl j) size' alignment a = Inr (q, b')"
    and "i \<noteq> j"
  shows "blocks_apart (unat p, unat size') (unat q, unat size')
    \<and> unat p + unat size' \<le> unat (al_end a) \<and> unat q + unat size' \<le> unat (al_end a)
    \<and> snrt_compute_core_local_ptr c (hart_of c cl i) p
        (snrt_cluster_core_idx c (hart_of c cl j)) size' = q"
proof -
  note P = core_local_block [OF assms(1,2,4,6,7,8)] and Q = core_local_block [OF assms(1,3,5,6,7,9)]
  have "unat size' * i + unat size' \<le> unat size' * j \<or> unat size' * j + unat size' \<le> unat size' * i"
  proof (cases "i < j")
    case True
    then have "unat size' * Suc i \<le> unat size' * j" by (intro mult_le_mono2) simp
    then show ?thesis by simp
  next
    case False
    with assms(10) have "unat size' * Suc j \<le> unat size' * i" by (intro mult_le_mono2) simp
    then show ?thesis by simp
  qed
  then have "blocks_apart (unat p, unat size') (unat q, unat size')"
    using P(1) Q(1) by auto
  then show ?thesis
    using P Q core_local_ptr_translates [OF assms(8,9)] by auto
qed

theorem core_local_blocks_disjoint_witness:
  "\<exists>p q a'. snrt_l1_alloc_compute_core_local sample_cfg (hart_of sample_cfg 1 2) 40 8 sample_heap = Inr (p, a')
     \<and> snrt_l1_alloc_compute_core_local sample_cfg (hart_of sample_cfg 1 5) 40 8 sample_heap = Inr (q, a')
     \<and> blocks_apart (unat p, unat (40 :: u32)) (unat q, unat (40 :: u32))"
proof -
  let ?a' = "\<lparr>al_base = 0x1000, al_end = 0x2000, al_next = 0x1148\<rparr> :: snrt_allocator"
  have p: "snrt_l1_alloc_compute_core_local sample_cfg (hart_of sample_cfg 1 2) 40 8 sample_heap = Inr (0x1058, ?a')"
    and q: "snrt_l1_alloc_compute_core_local sample_cfg (hart_of sample_cfg 1 5) 40 8 sample_heap = Inr (0x10d0, ?a')"
    by (simp_all add: alloc_v2_defs sample_heap_def sample_cfg_def hart_of_def snrt_align_up_def team_defs)
  have n: "unat (snrt_cluster_compute_core_num sample_cfg) = 8"
    by (simp add: team_defs sample_cfg_def)
  have "blocks_apart (unat (0x1058 :: u32), unat (40 :: u32)) (unat (0x10d0 :: u32), unat (40 :: u32))"
    using core_local_blocks_disjoint [OF cfg_ok_sample valid_core_sample valid_core_sample _ _ sample_heap_ok _ p q]
    by (simp add: n)
  with p q show ?thesis by blast
qed

text \<open>
  The two bounds checks disagree. An allocation that exactly fills the heap succeeds in L1
  (\<open>next > end\<close> traps) and traps in L3 (\<open>next >= end\<close> traps), so the last byte of the L3 heap
  can never be allocated.
\<close>

lemma exact_fill_l1_ok_l3_traps:
  assumes "heap_ok a" and "req_fits (size', alignment) a"
    and "aligned_next alignment a + unat size' = unat (al_end a)"
  shows "snrt_l1_alloc_cluster_local size' alignment a \<in> range Inr
    \<and> snrt_l3_alloc_v2 size' alignment a \<in> range Inl"
proof -
  have eq: "al_next (align_next alignment a) + ucast size' = al_end a"
    using unat_bump [of alignment a size'] assms(3) by (intro unat_eqI) simp
  have e: "al_end (align_next alignment a) = al_end a" by (simp add: align_next_def)
  show ?thesis
    by (simp add: snrt_l1_alloc_cluster_local_def snrt_l3_alloc_v2_def Let_def eq e
        snrt_l1_alloc_check_bounds_def snrt_l3_alloc_check_bounds_def)
qed

lemma exact_fill_l1_ok_l3_traps_witness:
  "snrt_l1_alloc_cluster_local 0xff8 8 sample_heap \<in> range Inr
    \<and> snrt_l3_alloc_v2 0xff8 8 sample_heap \<in> range Inl"
proof (rule exact_fill_l1_ok_l3_traps [OF sample_heap_ok])
  show "req_fits (0xff8, 8) sample_heap" by (simp add: req_fits_def sample_heap_def)
  show "aligned_next 8 sample_heap + unat (0xff8 :: u32) = unat (al_end sample_heap)"
    by (simp add: aligned_next_def snrt_align_up_def sample_heap_def)
qed

end
