(* ===== verification/Comm.thy ===== *)
theory Comm
  imports Alloc_V2
begin

text \<open>
  Communicators and collective operations: the types of \<open>sw/runtime/api/sync_decls.h\<close>, the
  communicator functions of \<open>sw/runtime/src/sync.h\<close> and the user-field functions that turn the
  following stores of a core into multicasts or reductions.

  A communicator is the record \<open>snrt_comm_info\<close>; its clusters are the encoding \<open>(base, mask)\<close>:
  the numbers that agree with \<open>base\<close> outside \<open>mask\<close>.
\<close>

subsection \<open>Types\<close>

record snrt_comm_info =
  barrier_ptr :: u32
  cm_size :: u32
  cm_mask :: u32
  cm_base :: u32
  is_participant :: bool

datatype snrt_collective_opcode =
    SNRT_COLLECTIVE_UNICAST
  | SNRT_COLLECTIVE_MULTICAST
  | SNRT_REDUCTION_BARRIER
  | SNRT_REDUCTION_FADD
  | SNRT_REDUCTION_FMUL
  | SNRT_REDUCTION_FMIN
  | SNRT_REDUCTION_FMAX
  | SNRT_REDUCTION_ADD
  | SNRT_REDUCTION_MUL
  | SNRT_REDUCTION_MIN
  | SNRT_REDUCTION_MINU
  | SNRT_REDUCTION_MAX
  | SNRT_REDUCTION_MAXU

fun opcode_value :: "snrt_collective_opcode \<Rightarrow> u64" where
  "opcode_value SNRT_COLLECTIVE_UNICAST = 0"
| "opcode_value SNRT_COLLECTIVE_MULTICAST = 1"
| "opcode_value SNRT_REDUCTION_BARRIER = 2"
| "opcode_value SNRT_REDUCTION_FADD = 3"
| "opcode_value SNRT_REDUCTION_FMUL = 4"
| "opcode_value SNRT_REDUCTION_FMIN = 5"
| "opcode_value SNRT_REDUCTION_FMAX = 6"
| "opcode_value SNRT_REDUCTION_ADD = 7"
| "opcode_value SNRT_REDUCTION_MUL = 8"
| "opcode_value SNRT_REDUCTION_MIN = 9"
| "opcode_value SNRT_REDUCTION_MINU = 10"
| "opcode_value SNRT_REDUCTION_MAX = 11"
| "opcode_value SNRT_REDUCTION_MAXU = 12"

text \<open>
  The word of \<open>snrt_collective_t\<close>: the opcode in the low bits of the configured width, the mask
  in the remaining bits; both bit fields drop the bits they have no room for.
\<close>

definition collective_word :: "snrt_cfg \<Rightarrow> snrt_collective_opcode \<Rightarrow> u64 \<Rightarrow> u64" where
  "collective_word c op msk =
     (let w = COLLECTIVE_OPCODE_WIDTH c
      in take_bit w (opcode_value op) OR push_bit w (take_bit (64 - w) msk))"

lemma opcode_value_fits: "4 \<le> w \<Longrightarrow> take_bit w (opcode_value op) = opcode_value op"
proof -
  assume "4 \<le> w"
  have "take_bit 4 (opcode_value op) = opcode_value op" by (cases op) simp_all
  moreover have "take_bit w (take_bit 4 (opcode_value op)) = take_bit 4 (opcode_value op)"
    using \<open>4 \<le> w\<close> by (simp only: take_bit_take_bit min.absorb2)
  ultimately show ?thesis by simp
qed

lemma opcode_value_inj: "opcode_value a = opcode_value b \<Longrightarrow> a = b"
  by (cases a; cases b) simp_all

text \<open>The hardware reads the opcode and the mask back from the two fields of the word.\<close>

lemma collective_word_opcode:
  assumes "4 \<le> COLLECTIVE_OPCODE_WIDTH c"
  shows "take_bit (COLLECTIVE_OPCODE_WIDTH c) (collective_word c op msk) = opcode_value op"
  using assms
  by (simp add: collective_word_def Let_def take_bit_push_bit opcode_value_fits)

lemma collective_word_mask:
  assumes "COLLECTIVE_OPCODE_WIDTH c \<le> 64"
  shows "drop_bit (COLLECTIVE_OPCODE_WIDTH c) (collective_word c op msk)
    = take_bit (64 - COLLECTIVE_OPCODE_WIDTH c) msk"
  by (rule bit_word_eqI)
    (use assms in \<open>auto simp: collective_word_def Let_def bit_drop_bit_eq bit_or_iff
       bit_take_bit_iff bit_push_bit_iff possible_bit_word\<close>)

subsection \<open>User field\<close>

definition snrt_set_awuser :: "u64 \<Rightarrow> hw_event list" where
  "snrt_set_awuser field = [Ev_user_low (ucast field), Ev_user_high (ucast (drop_bit 32 field))]"

definition snrt_set_awuser_low :: "u32 \<Rightarrow> hw_event list" where
  "snrt_set_awuser_low field = [Ev_user_low field]"

definition snrt_enable_multicast :: "snrt_cfg \<Rightarrow> u64 \<Rightarrow> hw_event list" where
  "snrt_enable_multicast c msk = snrt_set_awuser (collective_word c SNRT_COLLECTIVE_MULTICAST msk)"

definition snrt_disable_multicast :: "hw_event list" where
  "snrt_disable_multicast = snrt_set_awuser 0"

definition snrt_enable_reduction :: "snrt_cfg \<Rightarrow> u64 \<Rightarrow> snrt_collective_opcode \<Rightarrow> hw_event list" where
  "snrt_enable_reduction c msk op = snrt_set_awuser (collective_word c op msk)"

definition snrt_disable_reduction :: "hw_event list" where
  "snrt_disable_reduction = snrt_set_awuser 0"

text \<open>The user field a store is sent with: the last values written to the two CSRs.\<close>

fun awuser_effect :: "hw_event \<Rightarrow> u64 \<Rightarrow> u64" where
  "awuser_effect (Ev_user_low lo) u = (push_bit 32 (drop_bit 32 u)) OR ucast lo"
| "awuser_effect (Ev_user_high hi) u = (take_bit 32 u) OR push_bit 32 (ucast hi)"
| "awuser_effect _ u = u"

definition awuser_run :: "hw_event list \<Rightarrow> u64 \<Rightarrow> u64" where
  "awuser_run es u = fold awuser_effect es u"

lemma awuser_after_set: "awuser_run (snrt_set_awuser field) u = field"
  by (rule bit_word_eqI)
    (auto simp: awuser_run_def snrt_set_awuser_def bit_or_iff bit_take_bit_iff bit_push_bit_iff
      bit_drop_bit_eq bit_ucast_iff possible_bit_word dest: bit_imp_le_length)

subsection \<open>Communicators\<close>

definition snrt_get_collective_mask :: "snrt_cfg \<Rightarrow> snrt_comm_info \<Rightarrow> u64" where
  "snrt_get_collective_mask c comm = ucast (cm_mask comm * CLUSTER_OFFSET c)"

text \<open>The default-initialised world communicator of \<open>sync.c\<close>; \<open>gcnt\<close> is \<open>&_snrt_barrier.cnt\<close>.\<close>

definition snrt_comm_world_info :: "snrt_cfg \<Rightarrow> u32 \<Rightarrow> snrt_comm_info" where
  "snrt_comm_world_info c gcnt =
     \<lparr>barrier_ptr = gcnt, cm_size = CLUSTER_NUM c, cm_mask = CLUSTER_NUM c - 1, cm_base = 0,
      is_participant = True\<rparr>"

text \<open>
  What a call of \<open>snrt_comm_init\<close> or \<open>snrt_comm_create\<close> does beside returning: the allocators of
  the calling core and of its cluster, and the events (stores, the barriers it enters). The
  global barriers are the parameters \<open>sw_barrier\<close> and \<open>gl_barrier\<close>, defined in theory \<open>Sync\<close>.
\<close>

definition snrt_comm_init :: "snrt_cfg \<Rightarrow> u32 \<Rightarrow> u32 \<Rightarrow> (snrt_comm_info \<Rightarrow> hw_event list)
    \<Rightarrow> snrt_allocator \<Rightarrow> snrt_allocator
    \<Rightarrow> snrt_trap + snrt_comm_info \<times> snrt_allocator \<times> snrt_allocator \<times> hw_event list" where
  "snrt_comm_init c gcnt h sw_barrier l1 l1v2 =
     (let world = snrt_comm_world_info c gcnt in
      case snrt_l1_alloc_cluster_local 4 1 l1v2 of
        Inl t \<Rightarrow> Inl t
      | Inr (p, l1v2') \<Rightarrow>
          (let bptr = snrt_remote_l1_ptr c p (snrt_cluster_idx c h) 0;
               (l1', es) =
                 (if snrt_global_core_idx c h = 0
                  then (snrt_l1_update_next (snrt_l1_next_aligned_hyperbank c l1v2') l1, [Ev_store32 bptr 0])
                  else (l1, []))
           in Inr (world\<lparr>barrier_ptr := bptr\<rparr>, l1', l1v2', es @ sw_barrier world)))"

definition SIZEOF_COMM_INFO :: u32 where
  "SIZEOF_COMM_INFO = 20"

definition snrt_comm_create :: "snrt_cfg \<Rightarrow> u32 \<Rightarrow> u32 \<Rightarrow> hw_event list \<Rightarrow> snrt_allocator
    \<Rightarrow> snrt_trap + u32 \<times> snrt_comm_info \<times> snrt_allocator \<times> hw_event list" where
  "snrt_comm_create c h size0 gl_barrier l1v2 =
     (case snrt_l1_alloc_cluster_local SIZEOF_COMM_INFO 1 l1v2 of
        Inl t \<Rightarrow> Inl t
      | Inr (cptr, a1) \<Rightarrow>
          (case snrt_l1_alloc_cluster_local 4 1 a1 of
             Inl t \<Rightarrow> Inl t
           | Inr (p, a2) \<Rightarrow>
               (let bptr = snrt_remote_l1_ptr c p (snrt_cluster_idx c h) 0;
                    es = (if snrt_global_core_idx c h = 0 then [Ev_store32 bptr 0] else [])
                in Inr (cptr,
                     \<lparr>barrier_ptr = bptr, cm_size = size0, cm_mask = size0 - 1, cm_base = 0,
                      is_participant = snrt_cluster_idx c h < size0\<rparr>,
                     a2, es @ gl_barrier))))"

end
