(* ===== verification/Dma_Engine.thy ===== *)
theory Dma_Engine
  imports Comm
begin

text \<open>
  The DMA as the Xdma instructions show it (\<open>docs/rm/hw/custom_instructions.md\<close>): the registers
  that the \<open>DM*\<close> instructions set, and per channel the transfers issued and not completed and the
  identifiers of the next and of the last completed transfer.

  \<^item> The engine completes the oldest transfer of a channel in one step (\<open>dma_step\<close>); each row of a
    transfer is read before it is written.
  \<^item> The order in which the channels are served is the environment's choice: a schedule, a list
    of channel numbers, one per poll of a waiting core.
  \<^item> A transfer whose user field is not 0 is a multicast or a reduction. Its effect depends on the
    system (\<open>AWUSER\<close> in the document) and is the parameter \<open>coll\<close>.
\<close>

subsection \<open>State\<close>

record transfer =
  tx_src :: u64
  tx_dst :: u64
  tx_size :: u32
  tx_src_stride :: u64
  tx_dst_stride :: u64
  tx_repeat :: u32
  tx_user :: u64

record dma_chan =
  ch_pending :: "transfer list"
  ch_next_id :: u32
  ch_completed_id :: u32

record dma =
  dm_src :: u64
  dm_dst :: u64
  dm_src_stride :: u64
  dm_dst_stride :: u64
  dm_rep :: u32
  dm_user :: u64
  dm_chan :: "u32 \<Rightarrow> dma_chan"
  dm_mem :: mem

subsection \<open>Instructions\<close>

definition join64 :: "u32 \<Rightarrow> u32 \<Rightarrow> u64" where
  "join64 lo hi = push_bit 32 (ucast hi) OR ucast lo"

definition lo32 :: "u64 \<Rightarrow> u32" where
  "lo32 a = ucast (a AND 0xFFFFFFFF)"

definition hi32 :: "u64 \<Rightarrow> u32" where
  "hi32 a = ucast (drop_bit 32 a)"

lemma bit_mask32: "bit (0xFFFFFFFF :: u64) n \<longleftrightarrow> n < 32"
proof -
  have e: "mask 32 = (0xFFFFFFFF :: u64)" by (simp add: mask_eq_exp_minus_1)
  have "bit (mask 32 :: u64) n \<longleftrightarrow> n < 32" by (auto simp: bit_mask_iff possible_bit_word)
  then show ?thesis by (simp only: e)
qed

lemma lo32_ucast: "lo32 a = ucast a"
  by (rule bit_word_eqI)
    (simp only: lo32_def bit_and_iff bit_mask32 bit_unsigned_iff, auto simp: possible_bit_word)

lemma join64_lo_hi [simp]: "join64 (lo32 a) (hi32 a) = a"
  by (rule bit_word_eqI)
    (auto simp: join64_def lo32_ucast hi32_def bit_or_iff bit_push_bit_iff bit_ucast_iff
      bit_drop_bit_eq possible_bit_word not_le dest: bit_imp_le_length)

definition dmsrc :: "u32 \<Rightarrow> u32 \<Rightarrow> dma \<Rightarrow> dma" where
  "dmsrc lo hi s = s\<lparr>dm_src := join64 lo hi\<rparr>"

definition dmdst :: "u32 \<Rightarrow> u32 \<Rightarrow> dma \<Rightarrow> dma" where
  "dmdst lo hi s = s\<lparr>dm_dst := join64 lo hi\<rparr>"

definition dmstr :: "u32 \<Rightarrow> u32 \<Rightarrow> dma \<Rightarrow> dma" where
  "dmstr src_stride dst_stride s = s\<lparr>dm_src_stride := scast src_stride, dm_dst_stride := scast dst_stride\<rparr>"

definition dmrep :: "u32 \<Rightarrow> dma \<Rightarrow> dma" where
  "dmrep n s = s\<lparr>dm_rep := n\<rparr>"

definition dmuser :: "u32 \<Rightarrow> u32 \<Rightarrow> dma \<Rightarrow> dma" where
  "dmuser lo hi s = s\<lparr>dm_user := join64 lo hi\<rparr>"

text \<open>
  \<open>dmcpyi\<close>: bit 1 of \<open>config\<close> enables the second dimension, bits 4 to 2 select the channel. A
  one-dimensional transfer is a transfer of one row.
\<close>

definition dmcpyi :: "u32 \<Rightarrow> u32 \<Rightarrow> dma \<Rightarrow> u32 \<times> dma" where
  "dmcpyi n config s =
     (let ch = drop_bit 2 config;
          q = dm_chan s ch;
          t = \<lparr>tx_src = dm_src s, tx_dst = dm_dst s, tx_size = n,
               tx_src_stride = dm_src_stride s, tx_dst_stride = dm_dst_stride s,
               tx_repeat = (if bit config 1 then dm_rep s else 1), tx_user = dm_user s\<rparr>
      in (ch_next_id q,
          s\<lparr>dm_chan := (dm_chan s)(ch := q\<lparr>ch_pending := ch_pending q @ [t],
                                             ch_next_id := ch_next_id q + 1\<rparr>)\<rparr>))"

definition dmstati_completed :: "u32 \<Rightarrow> dma \<Rightarrow> u32" where
  "dmstati_completed ch s = ch_completed_id (dm_chan s ch)"

definition dmstati_busy :: "u32 \<Rightarrow> dma \<Rightarrow> u32" where
  "dmstati_busy ch s = c_bool (ch_pending (dm_chan s ch) \<noteq> [])"

subsection \<open>Copies\<close>

text \<open>The \<open>n\<close> bytes from \<open>base\<close>.\<close>

definition in_block :: "u64 \<Rightarrow> nat \<Rightarrow> u64 \<Rightarrow> bool" where
  "in_block base n a \<longleftrightarrow> unat (a - base) < n"

definition copy_1d :: "u64 \<Rightarrow> u64 \<Rightarrow> nat \<Rightarrow> mem \<Rightarrow> mem" where
  "copy_1d dst src n m = (\<lambda>a. if in_block dst n a then m (src + (a - dst)) else m a)"

definition copy_2d :: "u64 \<Rightarrow> u64 \<Rightarrow> nat \<Rightarrow> u64 \<Rightarrow> u64 \<Rightarrow> nat \<Rightarrow> mem \<Rightarrow> mem" where
  "copy_2d dst src n dstr sstr rep =
     for_upto 0 rep (\<lambda>i. copy_1d (dst + of_nat i * dstr) (src + of_nat i * sstr) n)"

definition fill :: "u64 \<Rightarrow> u8 \<Rightarrow> nat \<Rightarrow> mem \<Rightarrow> mem" where
  "fill base v n m = (\<lambda>a. if in_block base n a then v else m a)"

definition perform :: "(transfer \<Rightarrow> mem \<Rightarrow> mem) \<Rightarrow> transfer \<Rightarrow> mem \<Rightarrow> mem" where
  "perform coll t m =
     (if tx_user t = 0
      then copy_2d (tx_dst t) (tx_src t) (unat (tx_size t)) (tx_dst_stride t) (tx_src_stride t)
             (unat (tx_repeat t)) m
      else coll t m)"

lemma copy_1d_in: "in_block dst n a \<Longrightarrow> copy_1d dst src n m a = m (src + (a - dst))"
  by (simp add: copy_1d_def)

lemma copy_1d_out: "\<not> in_block dst n a \<Longrightarrow> copy_1d dst src n m a = m a"
  by (simp add: copy_1d_def)

lemma copy_2d_0 [simp]: "copy_2d dst src n dstr sstr 0 m = m"
  by (simp add: copy_2d_def)

lemma copy_2d_Suc: "copy_2d dst src n dstr sstr (Suc r) m
    = copy_1d (dst + of_nat r * dstr) (src + of_nat r * sstr) n (copy_2d dst src n dstr sstr r m)"
  by (simp add: copy_2d_def for_upto_Suc)

lemma copy_2d_1 [simp]: "copy_2d dst src n dstr sstr (Suc 0) m = copy_1d dst src n m"
  by (simp add: copy_2d_Suc)

lemma copy_2d_frame:
  assumes "\<forall>i < rep. \<not> in_block (dst + of_nat i * dstr) n a"
  shows "copy_2d dst src n dstr sstr rep m a = m a"
  using assms by (induction rep) (simp_all add: copy_2d_Suc copy_1d_out)

text \<open>
  A byte of row \<open>i\<close> of the destination is the byte of row \<open>i\<close> of the source, when no later row
  overwrites it and no earlier row has changed the source byte.
\<close>

lemma copy_2d_row:
  assumes "i < rep" and "in_block (dst + of_nat i * dstr) n a"
    and "\<forall>j < rep. i < j \<longrightarrow> \<not> in_block (dst + of_nat j * dstr) n a"
    and "\<forall>j < i. \<not> in_block (dst + of_nat j * dstr) n (src + of_nat i * sstr + (a - (dst + of_nat i * dstr)))"
  shows "copy_2d dst src n dstr sstr rep m a = m (src + of_nat i * sstr + (a - (dst + of_nat i * dstr)))"
  using assms(1,3)
proof (induction rep)
  case 0
  then show ?case by simp
next
  case (Suc r)
  show ?case
  proof (cases "i = r")
    case True
    then show ?thesis
      using assms(2,4) by (simp add: copy_2d_Suc copy_1d_in copy_2d_frame)
  next
    case False
    with Suc show ?thesis by (simp add: copy_2d_Suc copy_1d_out)
  qed
qed

subsection \<open>Engine\<close>

definition dma_step :: "(transfer \<Rightarrow> mem \<Rightarrow> mem) \<Rightarrow> u32 \<Rightarrow> dma \<Rightarrow> dma" where
  "dma_step coll ch s =
     (let q = dm_chan s ch in
      case ch_pending q of
        [] \<Rightarrow> s
      | t # ts \<Rightarrow> s\<lparr>dm_mem := perform coll t (dm_mem s),
                   dm_chan := (dm_chan s)(ch := q\<lparr>ch_pending := ts,
                                                     ch_completed_id := ch_completed_id q + 1\<rparr>)\<rparr>)"

text \<open>
  A loop that polls a condition: after each failed poll the engine serves the next channel of the
  schedule. \<open>None\<close> means that the condition does not hold within the schedule.
\<close>

fun dma_poll :: "(transfer \<Rightarrow> mem \<Rightarrow> mem) \<Rightarrow> (dma \<Rightarrow> bool) \<Rightarrow> u32 list \<Rightarrow> dma \<Rightarrow> (dma \<times> u32 list) option" where
  "dma_poll coll ready [] s = (if ready s then Some (s, []) else None)"
| "dma_poll coll ready (ch # sch) s =
     (if ready s then Some (s, ch # sch) else dma_poll coll ready sch (dma_step coll ch s))"

definition chan_ok :: "dma_chan \<Rightarrow> bool" where
  "chan_ok q \<longleftrightarrow> unat (ch_next_id q) = unat (ch_completed_id q) + 1 + length (ch_pending q)"

lemma dma_poll_ready: "dma_poll coll ready sch s = Some (t, sch') \<Longrightarrow> ready t"
  by (induction coll ready sch s rule: dma_poll.induct) (auto split: if_splits)

lemma dma_poll_invariant:
  assumes "dma_poll coll ready sch s = Some (t, sch')" and "P s"
    and "\<And>ch s. P s \<Longrightarrow> \<not> ready s \<Longrightarrow> P (dma_step coll ch s)"
  shows "P t"
  using assms
  by (induction coll ready sch s rule: dma_poll.induct) (auto split: if_splits)

lemma dma_step_other: "ch' \<noteq> ch \<Longrightarrow> dm_chan (dma_step coll ch s) ch' = dm_chan s ch'"
  by (simp add: dma_step_def Let_def split: list.splits)

lemma dma_step_pending: "ch_pending (dm_chan (dma_step coll ch s) ch) = tl (ch_pending (dm_chan s ch))"
  by (simp add: dma_step_def Let_def split: list.splits)

lemma dma_step_regs [simp]:
  "dm_user (dma_step coll ch s) = dm_user s"
  by (simp add: dma_step_def Let_def split: list.splits)

lemma dma_step_chan_ok:
  assumes "chan_ok (dm_chan s ch)"
  shows "chan_ok (dm_chan (dma_step coll ch' s) ch)"
proof (cases "ch' = ch \<and> ch_pending (dm_chan s ch) \<noteq> []")
  case True
  then obtain t ts where q: "ch_pending (dm_chan s ch) = t # ts" by (auto simp: neq_Nil_conv)
  have "unat (ch_completed_id (dm_chan s ch)) + 1 < 2 ^ 32"
    using assms q unat_lt_pow32 [of "ch_next_id (dm_chan s ch)"] by (simp add: chan_ok_def)
  then have "unat (ch_completed_id (dm_chan s ch) + 1) = unat (ch_completed_id (dm_chan s ch)) + 1"
    by (subst unat_add_no_ovf) simp_all
  then show ?thesis using True q assms by (simp add: dma_step_def Let_def chan_ok_def)
next
  case False
  then show ?thesis using assms
    by (cases "ch' = ch") (auto simp: dma_step_other dma_step_def Let_def split: list.splits)
qed

text \<open>The engine drains a channel served often enough, and the poll loop returns.\<close>

lemma dma_poll_drains:
  assumes "length (ch_pending (dm_chan s ch)) \<le> n + count_list sch ch"
    and "\<And>t. length (ch_pending (dm_chan t ch)) \<le> n \<Longrightarrow> chan_ok (dm_chan t ch) \<Longrightarrow>
      ch_next_id (dm_chan t ch) = ch_next_id (dm_chan s ch) \<Longrightarrow> ready t"
    and "chan_ok (dm_chan s ch)"
  shows "\<exists>t sch'. dma_poll coll ready sch s = Some (t, sch')"
  using assms
proof (induction sch arbitrary: s)
  case Nil
  then show ?case by simp
next
  case (Cons c sch)
  show ?case
  proof (cases "ready s")
    case True
    then show ?thesis by simp
  next
    case False
    have id: "ch_next_id (dm_chan (dma_step coll c s) ch) = ch_next_id (dm_chan s ch)"
      by (cases "c = ch") (auto simp: dma_step_other dma_step_def Let_def split: list.splits)
    have len: "length (ch_pending (dm_chan (dma_step coll c s) ch)) \<le> n + count_list sch ch"
      using Cons.prems(1) by (cases "c = ch") (auto simp: dma_step_other dma_step_pending)
    have "\<exists>t sch'. dma_poll coll ready sch (dma_step coll c s) = Some (t, sch')"
      by (rule Cons.IH [OF len]) (use Cons.prems dma_step_chan_ok id in auto)
    with False show ?thesis by simp
  qed
qed

end
