(* ===== verification/Dma.thy ===== *)
theory Dma
  imports Dma_Engine
begin

text \<open>
  The DMA functions of the runtime (\<open>sw/runtime/src/dma.h\<close>) over the engine of \<open>Dma_Engine\<close>. A
  configuration without a DMA takes the branches of \<open>#ifndef SNRT_SUPPORTS_DMA\<close>. The overloads on
  \<open>void *\<close> have the suffix \<open>_p\<close>, those on a communicator the suffix \<open>_comm\<close>, those without a
  leading dimension the suffix \<open>_packed\<close>; their pointers are 32 bit and zero-extended.
\<close>

subsection \<open>Starting transfers\<close>

definition snrt_dma_start_1d :: "snrt_cfg \<Rightarrow> u64 \<Rightarrow> u64 \<Rightarrow> u32 \<Rightarrow> u32 \<Rightarrow> dma \<Rightarrow> u32 \<times> dma" where
  "snrt_dma_start_1d c dst src n channel s =
     (if SUPPORTS_DMA c then
        dmcpyi n (push_bit 2 channel OR 0)
          (dmdst (lo32 dst) (hi32 dst) (dmsrc (lo32 src) (hi32 src) s))
      else (0, s\<lparr>dm_mem := copy_1d dst src (unat n) (dm_mem s)\<rparr>))"

definition snrt_dma_start_1d_p :: "snrt_cfg \<Rightarrow> u32 \<Rightarrow> u32 \<Rightarrow> u32 \<Rightarrow> u32 \<Rightarrow> dma \<Rightarrow> u32 \<times> dma" where
  "snrt_dma_start_1d_p c dst src n channel = snrt_dma_start_1d c (ucast dst) (ucast src) n channel"

definition snrt_dma_set_awuser :: "snrt_cfg \<Rightarrow> u64 \<Rightarrow> dma \<Rightarrow> dma" where
  "snrt_dma_set_awuser c field s =
     (if SUPPORTS_DMA c then dmuser (ucast field) (ucast (drop_bit 32 field)) s else s)"

definition snrt_dma_enable_multicast :: "snrt_cfg \<Rightarrow> u64 \<Rightarrow> dma \<Rightarrow> dma" where
  "snrt_dma_enable_multicast c msk =
     snrt_dma_set_awuser c (collective_word c SNRT_COLLECTIVE_MULTICAST msk)"

definition snrt_dma_enable_reduction :: "snrt_cfg \<Rightarrow> u64 \<Rightarrow> snrt_collective_opcode \<Rightarrow> dma \<Rightarrow> dma" where
  "snrt_dma_enable_reduction c msk op = snrt_dma_set_awuser c (collective_word c op msk)"

definition snrt_dma_disable_multicast :: "snrt_cfg \<Rightarrow> dma \<Rightarrow> dma" where
  "snrt_dma_disable_multicast c = snrt_dma_set_awuser c 0"

definition snrt_dma_disable_reduction :: "snrt_cfg \<Rightarrow> dma \<Rightarrow> dma" where
  "snrt_dma_disable_reduction c = snrt_dma_set_awuser c 0"

definition snrt_dma_start_1d_reduction :: "snrt_cfg \<Rightarrow> u64 \<Rightarrow> u64 \<Rightarrow> u32 \<Rightarrow> u64
    \<Rightarrow> snrt_collective_opcode \<Rightarrow> u32 \<Rightarrow> dma \<Rightarrow> u32 \<times> dma" where
  "snrt_dma_start_1d_reduction c dst src n msk op channel s =
     (let s1 = snrt_dma_enable_reduction c msk op s;
          (txid, s2) = snrt_dma_start_1d c dst src n channel s1;
          s3 = snrt_dma_disable_reduction c s2
      in (txid, s3))"

definition snrt_dma_start_1d_reduction_comm :: "snrt_cfg \<Rightarrow> u64 \<Rightarrow> u64 \<Rightarrow> u32 \<Rightarrow> snrt_comm_info
    \<Rightarrow> snrt_collective_opcode \<Rightarrow> u32 \<Rightarrow> dma \<Rightarrow> u32 \<times> dma" where
  "snrt_dma_start_1d_reduction_comm c dst src n comm op channel =
     snrt_dma_start_1d_reduction c dst src n (snrt_get_collective_mask c comm) op channel"

definition snrt_dma_start_1d_mcast :: "snrt_cfg \<Rightarrow> u64 \<Rightarrow> u64 \<Rightarrow> u32 \<Rightarrow> u64 \<Rightarrow> u32 \<Rightarrow> dma \<Rightarrow> u32 \<times> dma" where
  "snrt_dma_start_1d_mcast c dst src n msk channel s =
     (let s1 = snrt_dma_enable_multicast c msk s;
          (txid, s2) = snrt_dma_start_1d c dst src n channel s1;
          s3 = snrt_dma_disable_multicast c s2
      in (txid, s3))"

definition snrt_dma_start_1d_mcast_comm :: "snrt_cfg \<Rightarrow> u64 \<Rightarrow> u64 \<Rightarrow> u32 \<Rightarrow> snrt_comm_info \<Rightarrow> u32
    \<Rightarrow> dma \<Rightarrow> u32 \<times> dma" where
  "snrt_dma_start_1d_mcast_comm c dst src n comm channel =
     snrt_dma_start_1d_mcast c dst src n (snrt_get_collective_mask c comm) channel"

definition snrt_dma_start_1d_reduction_p :: "snrt_cfg \<Rightarrow> u32 \<Rightarrow> u32 \<Rightarrow> u32 \<Rightarrow> u64
    \<Rightarrow> snrt_collective_opcode \<Rightarrow> u32 \<Rightarrow> dma \<Rightarrow> u32 \<times> dma" where
  "snrt_dma_start_1d_reduction_p c dst src n msk op channel =
     snrt_dma_start_1d_reduction c (ucast dst) (ucast src) n msk op channel"

definition snrt_dma_start_1d_mcast_p :: "snrt_cfg \<Rightarrow> u32 \<Rightarrow> u32 \<Rightarrow> u32 \<Rightarrow> u64 \<Rightarrow> u32 \<Rightarrow> dma
    \<Rightarrow> u32 \<times> dma" where
  "snrt_dma_start_1d_mcast_p c dst src n msk channel =
     snrt_dma_start_1d_mcast c (ucast dst) (ucast src) n msk channel"

definition snrt_dma_start_2d :: "snrt_cfg \<Rightarrow> u64 \<Rightarrow> u64 \<Rightarrow> u32 \<Rightarrow> u32 \<Rightarrow> u32 \<Rightarrow> u32 \<Rightarrow> u32 \<Rightarrow> dma
    \<Rightarrow> u32 \<times> dma" where
  "snrt_dma_start_2d c dst src n dst_stride src_stride repeat channel s =
     (if SUPPORTS_DMA c then
        dmcpyi n (push_bit 2 channel OR 2)
          (dmrep repeat (dmstr src_stride dst_stride
             (dmdst (lo32 dst) (hi32 dst) (dmsrc (lo32 src) (hi32 src) s))))
      else (0, s))"

definition snrt_dma_start_2d_p :: "snrt_cfg \<Rightarrow> u32 \<Rightarrow> u32 \<Rightarrow> u32 \<Rightarrow> u32 \<Rightarrow> u32 \<Rightarrow> u32 \<Rightarrow> u32 \<Rightarrow> dma
    \<Rightarrow> u32 \<times> dma" where
  "snrt_dma_start_2d_p c dst src n dst_stride src_stride repeat channel =
     snrt_dma_start_2d c (ucast dst) (ucast src) n dst_stride src_stride repeat channel"

definition snrt_dma_start_2d_mcast :: "snrt_cfg \<Rightarrow> u64 \<Rightarrow> u64 \<Rightarrow> u32 \<Rightarrow> u32 \<Rightarrow> u32 \<Rightarrow> u32 \<Rightarrow> u32
    \<Rightarrow> u32 \<Rightarrow> dma \<Rightarrow> u32 \<times> dma" where
  "snrt_dma_start_2d_mcast c dst src n dst_stride src_stride repeat msk channel s =
     (let s1 = snrt_dma_enable_multicast c (ucast msk) s;
          (txid, s2) = snrt_dma_start_2d c dst src n dst_stride src_stride repeat channel s1;
          s3 = snrt_dma_disable_multicast c s2
      in (txid, s3))"

definition snrt_dma_start_2d_mcast_p :: "snrt_cfg \<Rightarrow> u32 \<Rightarrow> u32 \<Rightarrow> u32 \<Rightarrow> u32 \<Rightarrow> u32 \<Rightarrow> u32 \<Rightarrow> u32
    \<Rightarrow> u32 \<Rightarrow> dma \<Rightarrow> u32 \<times> dma" where
  "snrt_dma_start_2d_mcast_p c dst src n dst_stride src_stride repeat msk channel =
     snrt_dma_start_2d_mcast c (ucast dst) (ucast src) n dst_stride src_stride repeat msk channel"

subsection \<open>Waiting\<close>

definition snrt_dma_wait :: "snrt_cfg \<Rightarrow> (transfer \<Rightarrow> mem \<Rightarrow> mem) \<Rightarrow> u32 \<Rightarrow> u32 \<Rightarrow> u32 list \<Rightarrow> dma
    \<Rightarrow> (dma \<times> u32 list) option" where
  "snrt_dma_wait c coll txid channel sch s =
     (if SUPPORTS_DMA c
      then dma_poll coll (\<lambda>s. \<not> dmstati_completed (drop_bit 2 (push_bit 2 channel OR 0)) s < txid) sch s
      else Some (s, sch))"

definition snrt_dma_wait_all :: "snrt_cfg \<Rightarrow> (transfer \<Rightarrow> mem \<Rightarrow> mem) \<Rightarrow> u32 \<Rightarrow> u32 list \<Rightarrow> dma
    \<Rightarrow> (dma \<times> u32 list) option" where
  "snrt_dma_wait_all c coll channel sch s =
     (if SUPPORTS_DMA c
      then dma_poll coll (\<lambda>s. dmstati_busy (drop_bit 2 (push_bit 2 channel OR 2)) s = 0) sch s
      else Some (s, sch))"

fun wait_channels_from :: "snrt_cfg \<Rightarrow> (transfer \<Rightarrow> mem \<Rightarrow> mem) \<Rightarrow> u32 \<Rightarrow> nat \<Rightarrow> u32 list \<Rightarrow> dma
    \<Rightarrow> (dma \<times> u32 list) option" where
  "wait_channels_from c coll ch 0 sch s = Some (s, sch)"
| "wait_channels_from c coll ch (Suc n) sch s =
     (case snrt_dma_wait_all c coll ch sch s of
        None \<Rightarrow> None
      | Some (s', sch') \<Rightarrow> wait_channels_from c coll (ch + 1) n sch' s')"

definition snrt_dma_wait_all_channels :: "snrt_cfg \<Rightarrow> (transfer \<Rightarrow> mem \<Rightarrow> mem) \<Rightarrow> u32 \<Rightarrow> u32 list
    \<Rightarrow> dma \<Rightarrow> (dma \<times> u32 list) option" where
  "snrt_dma_wait_all_channels c coll num_channels sch s =
     wait_channels_from c coll 0 (unat num_channels) sch s"

subsection \<open>Memset\<close>

text \<open>The byte loop of the core: \<open>while (nbytes--) *p++ = value\<close>.\<close>

definition set_bytes :: "u32 \<Rightarrow> u8 \<Rightarrow> u32 \<Rightarrow> mem \<Rightarrow> mem" where
  "set_bytes p v nbytes =
     for_upto 0 (unat nbytes) (\<lambda>i m. m(ucast (p + of_nat i) := v))"

definition snrt_dma_memset :: "snrt_cfg \<Rightarrow> (transfer \<Rightarrow> mem \<Rightarrow> mem) \<Rightarrow> u32 \<Rightarrow> u8 \<Rightarrow> u32 \<Rightarrow> u32 list
    \<Rightarrow> dma \<Rightarrow> (dma \<times> u32 list) option" where
  "snrt_dma_memset c coll ptr v len sch s =
     (if SUPPORTS_DMA c then
        (let n_1d_transfers = len div 64;
             use_dma = len mod 64 = 0 \<and> len > 64;
             nbytes = (if len < 64 \<or> \<not> use_dma then len else 64);
             s1 = s\<lparr>dm_mem := set_bytes ptr v nbytes (dm_mem s)\<rparr>
         in if use_dma then
              (case snrt_dma_start_2d_p c ptr ptr 64 64 0 n_1d_transfers 0 s1 of
                 (_, s2) \<Rightarrow> snrt_dma_wait_all c coll 0 sch s2)
            else Some (s1, sch))
      else Some (s\<lparr>dm_mem := fill (ucast ptr) v (unat len) (dm_mem s)\<rparr>, sch))"

subsection \<open>Tiles\<close>

definition snrt_dma_load_1d_tile :: "snrt_cfg \<Rightarrow> u32 \<Rightarrow> u32 \<Rightarrow> u32 \<Rightarrow> u32 \<Rightarrow> u32 \<Rightarrow> dma \<Rightarrow> u32 \<times> dma" where
  "snrt_dma_load_1d_tile c dst src tile_idx tile_size prec =
     (let tile_nbytes = tile_size * prec
      in snrt_dma_start_1d c (ucast dst) (ucast src + ucast (tile_idx * tile_nbytes)) tile_nbytes 0)"

definition snrt_dma_load_1d_tile_mcast :: "snrt_cfg \<Rightarrow> u32 \<Rightarrow> u32 \<Rightarrow> u32 \<Rightarrow> u32 \<Rightarrow> u32 \<Rightarrow> u64 \<Rightarrow> dma
    \<Rightarrow> u32 \<times> dma" where
  "snrt_dma_load_1d_tile_mcast c dst src tile_idx tile_size prec msk =
     (let tile_nbytes = tile_size * prec
      in snrt_dma_start_1d_mcast c (ucast dst) (ucast (src + tile_idx * tile_nbytes)) tile_nbytes msk 0)"

definition snrt_dma_reduction_load_1d_tile :: "snrt_cfg \<Rightarrow> u32 \<Rightarrow> u32 \<Rightarrow> u32 \<Rightarrow> u32 \<Rightarrow> u32 \<Rightarrow> u64
    \<Rightarrow> snrt_collective_opcode \<Rightarrow> dma \<Rightarrow> u32 \<times> dma" where
  "snrt_dma_reduction_load_1d_tile c dst src tile_idx tile_size prec msk op =
     (let tile_nbytes = tile_size * prec
      in snrt_dma_start_1d_reduction c (ucast dst) (ucast (src + tile_idx * tile_nbytes)) tile_nbytes
           msk op 0)"

definition snrt_dma_1d_to_2d :: "snrt_cfg \<Rightarrow> u32 \<Rightarrow> u32 \<Rightarrow> u32 \<Rightarrow> u32 \<Rightarrow> u32 \<Rightarrow> dma \<Rightarrow> u32 \<times> dma" where
  "snrt_dma_1d_to_2d c dst src n row_size stride =
     snrt_dma_start_2d_p c dst src row_size stride row_size (n div row_size) 0"

definition snrt_dma_2d_to_1d :: "snrt_cfg \<Rightarrow> u32 \<Rightarrow> u32 \<Rightarrow> u32 \<Rightarrow> u32 \<Rightarrow> u32 \<Rightarrow> dma \<Rightarrow> u32 \<times> dma" where
  "snrt_dma_2d_to_1d c dst src n row_size stride =
     snrt_dma_start_2d_p c dst src row_size row_size stride (n div row_size) 0"

definition snrt_dma_store_1d_tile :: "snrt_cfg \<Rightarrow> u32 \<Rightarrow> u32 \<Rightarrow> u32 \<Rightarrow> u32 \<Rightarrow> u32 \<Rightarrow> dma \<Rightarrow> u32 \<times> dma" where
  "snrt_dma_store_1d_tile c dst src tile_idx tile_size prec =
     (let tile_nbytes = tile_size * prec
      in snrt_dma_start_1d c (ucast dst + ucast (tile_idx * tile_nbytes)) (ucast src) tile_nbytes 0)"

text \<open>The byte offset of a tile in an array of rows of \<open>full_x0_size\<close> elements.\<close>

definition tile_offset :: "u32 \<Rightarrow> u32 \<Rightarrow> u32 \<Rightarrow> u32 \<Rightarrow> u32 \<Rightarrow> u32 \<Rightarrow> u32" where
  "tile_offset x1_idx x0_idx x1_size x0_size full_x0_size prec =
     (let off = 0;
          off = off + x0_idx * x0_size;
          off = off + x1_idx * x1_size * full_x0_size
      in off * prec)"

definition snrt_dma_load_2d_tile :: "snrt_cfg \<Rightarrow> u32 \<Rightarrow> u32 \<Rightarrow> u32 \<Rightarrow> u32 \<Rightarrow> u32 \<Rightarrow> u32 \<Rightarrow> u32
    \<Rightarrow> u32 \<Rightarrow> u32 \<Rightarrow> dma \<Rightarrow> u32 \<times> dma" where
  "snrt_dma_load_2d_tile c dst src x1_idx x0_idx x1_size x0_size full_x0_size prec tile_ld =
     (let src_offset = tile_offset x1_idx x0_idx x1_size x0_size full_x0_size prec
      in snrt_dma_start_2d c (ucast dst) (ucast src + ucast src_offset) (x0_size * prec) tile_ld
           (full_x0_size * prec) x1_size 0)"

definition snrt_dma_load_2d_tile_packed :: "snrt_cfg \<Rightarrow> u32 \<Rightarrow> u32 \<Rightarrow> u32 \<Rightarrow> u32 \<Rightarrow> u32 \<Rightarrow> u32 \<Rightarrow> u32
    \<Rightarrow> u32 \<Rightarrow> dma \<Rightarrow> u32 \<times> dma" where
  "snrt_dma_load_2d_tile_packed c dst src x1_idx x0_idx x1_size x0_size full_x0_size prec =
     snrt_dma_load_2d_tile c dst src x1_idx x0_idx x1_size x0_size full_x0_size prec (x0_size * prec)"

definition snrt_dma_load_2d_tile_mcast :: "snrt_cfg \<Rightarrow> u32 \<Rightarrow> u32 \<Rightarrow> u32 \<Rightarrow> u32 \<Rightarrow> u32 \<Rightarrow> u32 \<Rightarrow> u32
    \<Rightarrow> u32 \<Rightarrow> u32 \<Rightarrow> u32 \<Rightarrow> dma \<Rightarrow> u32 \<times> dma" where
  "snrt_dma_load_2d_tile_mcast c dst src x1_idx x0_idx x1_size x0_size full_x0_size prec tile_ld msk =
     (let src_offset = tile_offset x1_idx x0_idx x1_size x0_size full_x0_size prec
      in snrt_dma_start_2d_mcast c (ucast dst) (ucast src + ucast src_offset) (x0_size * prec) tile_ld
           (full_x0_size * prec) x1_size msk 0)"

definition snrt_dma_load_2d_tile_mcast_packed :: "snrt_cfg \<Rightarrow> u32 \<Rightarrow> u32 \<Rightarrow> u32 \<Rightarrow> u32 \<Rightarrow> u32 \<Rightarrow> u32
    \<Rightarrow> u32 \<Rightarrow> u32 \<Rightarrow> u32 \<Rightarrow> dma \<Rightarrow> u32 \<times> dma" where
  "snrt_dma_load_2d_tile_mcast_packed c dst src x1_idx x0_idx x1_size x0_size full_x0_size prec msk =
     snrt_dma_load_2d_tile_mcast c dst src x1_idx x0_idx x1_size x0_size full_x0_size prec
       (x0_size * prec) msk"

definition snrt_dma_load_2d_tile_mcast_comm :: "snrt_cfg \<Rightarrow> u32 \<Rightarrow> u32 \<Rightarrow> u32 \<Rightarrow> u32 \<Rightarrow> u32 \<Rightarrow> u32
    \<Rightarrow> u32 \<Rightarrow> u32 \<Rightarrow> snrt_comm_info \<Rightarrow> dma \<Rightarrow> u32 \<times> dma" where
  "snrt_dma_load_2d_tile_mcast_comm c dst src x1_idx x0_idx x1_size x0_size full_x0_size prec comm =
     (let msk = snrt_get_collective_mask c comm
      in snrt_dma_load_2d_tile_mcast_packed c dst src x1_idx x0_idx x1_size x0_size full_x0_size prec
           (ucast msk))"

text \<open>
  \<open>ceil(a / (double) b)\<close> on 32-bit unsigned operands: the quotient in double precision is exact
  enough for the ceiling to be that of the rational number.
\<close>

definition ceil_div :: "u32 \<Rightarrow> u32 \<Rightarrow> u32" where
  "ceil_div a b = of_nat ((unat a + unat b - 1) div unat b)"

definition snrt_dma_load_2d_tile_in_banks :: "snrt_cfg \<Rightarrow> u32 \<Rightarrow> u32 \<Rightarrow> u32 \<Rightarrow> u32 \<Rightarrow> u32 \<Rightarrow> u32
    \<Rightarrow> u32 \<Rightarrow> u32 \<Rightarrow> u32 \<Rightarrow> dma \<Rightarrow> u32 \<times> dma" where
  "snrt_dma_load_2d_tile_in_banks c dst src x1_idx x0_idx x1_size x0_size full_x0_size prec num_banks =
     (let x0_size_in_banks = (num_banks * TCDM_BANK_WIDTH c) div prec;
          x1_size_in_banks = ceil_div (x1_size * x0_size) x0_size_in_banks;
          tile_ld = TCDM_HYPERBANK_WIDTH c
      in snrt_dma_load_2d_tile c dst src x1_idx x0_idx x1_size_in_banks x0_size_in_banks full_x0_size
           prec tile_ld)"

definition snrt_dma_store_2d_tile :: "snrt_cfg \<Rightarrow> u32 \<Rightarrow> u32 \<Rightarrow> u32 \<Rightarrow> u32 \<Rightarrow> u32 \<Rightarrow> u32 \<Rightarrow> u32
    \<Rightarrow> u32 \<Rightarrow> u32 \<Rightarrow> dma \<Rightarrow> u32 \<times> dma" where
  "snrt_dma_store_2d_tile c dst src x1_idx x0_idx x1_size x0_size full_x0_size prec tile_ld =
     (let dst_offset = tile_offset x1_idx x0_idx x1_size x0_size full_x0_size prec
      in snrt_dma_start_2d c (ucast dst + ucast dst_offset) (ucast src) (x0_size * prec)
           (full_x0_size * prec) tile_ld x1_size 0)"

definition snrt_dma_store_2d_tile_packed :: "snrt_cfg \<Rightarrow> u32 \<Rightarrow> u32 \<Rightarrow> u32 \<Rightarrow> u32 \<Rightarrow> u32 \<Rightarrow> u32 \<Rightarrow> u32
    \<Rightarrow> u32 \<Rightarrow> dma \<Rightarrow> u32 \<times> dma" where
  "snrt_dma_store_2d_tile_packed c dst src x1_idx x0_idx x1_size x0_size full_x0_size prec =
     snrt_dma_store_2d_tile c dst src x1_idx x0_idx x1_size x0_size full_x0_size prec (x0_size * prec)"

definition snrt_dma_store_2d_tile_from_banks :: "snrt_cfg \<Rightarrow> u32 \<Rightarrow> u32 \<Rightarrow> u32 \<Rightarrow> u32 \<Rightarrow> u32 \<Rightarrow> u32
    \<Rightarrow> u32 \<Rightarrow> u32 \<Rightarrow> u32 \<Rightarrow> dma \<Rightarrow> u32 \<times> dma" where
  "snrt_dma_store_2d_tile_from_banks c dst src x1_idx x0_idx x1_size x0_size full_x0_size prec num_banks =
     (let x0_size_in_banks = (num_banks * TCDM_BANK_WIDTH c) div prec;
          x1_size_in_banks = ceil_div (x1_size * x0_size) x0_size_in_banks;
          tile_ld = TCDM_HYPERBANK_WIDTH c
      in snrt_dma_store_2d_tile c dst src x1_idx x0_idx x1_size_in_banks x0_size_in_banks full_x0_size
           prec tile_ld)"

subsection \<open>Rows of a tile\<close>

lemma row_offset:
  fixes dst D :: u64
  assumes "j < rep" and "y < n" and "n \<le> unat D" and "rep * unat D \<le> 2 ^ 64"
  shows "unat (dst + of_nat j * D + of_nat y - dst) = j * unat D + y"
    and "j * unat D + y < rep * unat D"
proof -
  have "j * unat D + y < Suc j * unat D" using assms by simp
  also have "\<dots> \<le> rep * unat D" using assms(1) by (intro mult_le_mono1) simp
  finally show lt: "j * unat D + y < rep * unat D" .
  have "dst + of_nat j * D + of_nat y - dst = of_nat (j * unat D + y)"
    by (simp add: algebra_simps)
  then show "unat (dst + of_nat j * D + of_nat y - dst) = j * unat D + y"
    using lt assms(4) by (simp only: unsigned_of_nat) (simp add: take_bit_nat_eq_self)
qed

lemma row_in_block:
  assumes "in_block (dst + of_nat j * D) n a" and "j < rep" and "n \<le> unat D" and "rep * unat D \<le> 2 ^ 64"
  shows "in_block dst (rep * unat D) a" and "unat (a - dst) = j * unat D + unat (a - (dst + of_nat j * D))"
proof -
  let ?y = "unat (a - (dst + of_nat j * D))"
  have y: "?y < n" using assms(1) by (simp add: in_block_def)
  have d: "a - dst = dst + of_nat j * D + of_nat ?y - dst" by simp
  show u: "unat (a - dst) = j * unat D + ?y"
    unfolding d by (rule row_offset(1) [OF assms(2) y assms(3,4)])
  show "in_block dst (rep * unat D) a"
    unfolding in_block_def u by (rule row_offset(2) [OF assms(2) y assms(3,4)])
qed

lemma copy_2d_outside:
  assumes "\<not> in_block dst (rep * unat D) a" and "n \<le> unat D" and "rep * unat D \<le> 2 ^ 64"
  shows "copy_2d dst src n D S rep m a = m a"
  by (rule copy_2d_frame) (use row_in_block(1) assms in blast)

lemma copy_2d_tile:
  assumes "i < rep" and "k < n" and "n \<le> unat D" and "rep * unat D \<le> 2 ^ 64"
    and src: "\<not> in_block dst (i * unat D) (src + of_nat i * S + of_nat k)"
  shows "copy_2d dst src n D S rep m (dst + of_nat i * D + of_nat k) = m (src + of_nat i * S + of_nat k)"
proof -
  let ?a = "dst + of_nat i * D + of_nat k"
  note ro = row_offset(1) [OF assms(1-4), of dst]
  have k64: "unat (of_nat k :: u64) = k"
  proof -
    have "k < 2 ^ 64" using assms(2,3) unat_lt_pow64 [of D] by simp
    then show ?thesis by (simp add: unsigned_of_nat take_bit_nat_eq_self)
  qed
  have row: "in_block (dst + of_nat i * D) n ?a" using assms(2) k64 by (simp add: in_block_def)
  have later: "\<not> in_block (dst + of_nat j * D) n ?a" if "j < rep" "i < j" for j
  proof
    assume "in_block (dst + of_nat j * D) n ?a"
    from row_in_block(2) [OF this that(1) assms(3,4)] ro
    have "j * unat D \<le> i * unat D + k" by simp
    moreover have "Suc i * unat D \<le> j * unat D" using that(2) by (intro mult_le_mono1) simp
    ultimately show False using assms(2,3) by simp
  qed
  have earlier: "\<not> in_block (dst + of_nat j * D) n (src + of_nat i * S + of_nat k)" if "j < i" for j
  proof
    assume a: "in_block (dst + of_nat j * D) n (src + of_nat i * S + of_nat k)"
    have "i * unat D \<le> rep * unat D" using assms(1) by (intro mult_le_mono1) simp
    then have "i * unat D \<le> 2 ^ 64" using assms(4) by (rule order_trans)
    with row_in_block(1) [OF a that assms(3)] src show False by blast
  qed
  show ?thesis
    using copy_2d_row [OF assms(1) row, of src S m] later earlier by simp
qed

subsection \<open>One transfer at a time\<close>

definition dma_idle :: "dma \<Rightarrow> bool" where
  "dma_idle s \<longleftrightarrow> (\<forall>ch. ch_pending (dm_chan s ch) = [])"

lemma scast_small: "unat (x :: u32) < 2 ^ 31 \<Longrightarrow> (scast x :: u64) = ucast x"
proof -
  assume a: "unat x < 2 ^ 31"
  have "bit x 31 \<longleftrightarrow> bit (unat x) 31" by (simp add: bit_unsigned_iff)
  with a have "\<not> bit x 31" by (simp add: bit_iff_odd)
  moreover have "bit x n \<Longrightarrow> n < 32" for n using bit_imp_le_length [of x n] by simp
  ultimately have small: "bit x n \<Longrightarrow> n < 31" for n
    by (cases "n = 31") force+
  then show ?thesis
    by (intro bit_word_eqI) (auto simp: bit_signed_iff bit_ucast_iff min_def dest: small)
qed

lemma chan_sel:
  assumes "unat ch < 2 ^ 30"
  shows "drop_bit 2 (push_bit 2 ch OR 2) = (ch :: u32)" and "drop_bit 2 (push_bit 2 ch OR 0) = ch"
proof -
  have hi: "n < 30" if "bit ch n" for n
  proof (rule ccontr)
    assume "\<not> n < 30"
    then have "unat ch div 2 ^ n = 0"
      using assms power_increasing [of 30 n "2 :: nat"] by simp
    moreover have "bit (unat ch) n" using that by (simp add: bit_unsigned_iff)
    ultimately show False by (simp add: bit_iff_odd)
  qed
  have two: "\<not> bit (2 :: u32) (2 + n)" for n
    using bit_pow2_word [of 1 "2 + n", where 'a = 32] by simp
  show "drop_bit 2 (push_bit 2 ch OR 2) = ch"
    by (rule bit_word_eqI)
      (auto simp: bit_drop_bit_eq bit_or_iff bit_push_bit_iff two possible_bit_word dest: hi)
  show "drop_bit 2 (push_bit 2 ch OR 0) = ch"
    by (rule bit_word_eqI)
      (auto simp: bit_drop_bit_eq bit_push_bit_iff possible_bit_word dest: hi)
qed

subsection \<open>The sequential meaning of the channel\<close>

text \<open>
  With all transfers on channel 0 the engine completes them in the order of their start. The memory
  that a program may rely on after its next wait is the one in which all of them are performed; serving
  the channel does not change it.
\<close>

definition dma_seq :: "(transfer \<Rightarrow> mem \<Rightarrow> mem) \<Rightarrow> dma \<Rightarrow> mem" where
  "dma_seq coll s = fold (perform coll) (ch_pending (dm_chan s 0)) (dm_mem s)"

definition only_ch0 :: "dma \<Rightarrow> bool" where
  "only_ch0 s \<longleftrightarrow> dm_user s = 0 \<and> (\<forall>ch. ch \<noteq> 0 \<longrightarrow> ch_pending (dm_chan s ch) = [])"

lemma dma_seq_idle: "ch_pending (dm_chan s 0) = [] \<Longrightarrow> dma_seq coll s = dm_mem s"
  by (simp add: dma_seq_def)

lemma only_ch0_idle: "only_ch0 s \<Longrightarrow> ch_pending (dm_chan s 0) = [] \<Longrightarrow> dma_idle s"
  by (metis only_ch0_def dma_idle_def)

lemma idle_only_ch0: "dma_idle s \<Longrightarrow> dm_user s = 0 \<Longrightarrow> only_ch0 s"
  by (simp add: only_ch0_def dma_idle_def)

lemma dma_seq_step:
  assumes "only_ch0 s"
  shows "dma_seq coll (dma_step coll ch s) = dma_seq coll s" and "only_ch0 (dma_step coll ch s)"
  using assms
  by (cases "ch = 0"; auto simp: dma_seq_def only_ch0_def dma_step_def Let_def split: list.splits)+

lemma poll_empties:
  assumes "only_ch0 s" and "length (ch_pending (dm_chan s 0)) \<le> count_list sch 0"
  shows "\<exists>s' sch'. dma_poll coll (\<lambda>s. ch_pending (dm_chan s 0) = []) sch s = Some (s', sch')
    \<and> dm_mem s' = dma_seq coll s \<and> only_ch0 s' \<and> ch_pending (dm_chan s' 0) = []
    \<and> count_list sch 0 \<le> count_list sch' 0 + length (ch_pending (dm_chan s 0))"
  using assms
proof (induction sch arbitrary: s)
  case Nil
  then show ?case by (simp add: dma_seq_idle)
next
  case (Cons ch sch)
  show ?case
  proof (cases "ch_pending (dm_chan s 0) = []")
    case True
    with Cons.prems show ?thesis by (simp add: dma_seq_idle)
  next
    case False
    note st = dma_seq_step [OF Cons.prems(1), of coll ch]
    have len: "length (ch_pending (dm_chan (dma_step coll ch s) 0))
        = (if ch = 0 then length (ch_pending (dm_chan s 0)) - 1 else length (ch_pending (dm_chan s 0)))"
      by (simp add: dma_step_pending dma_step_other)
    have "length (ch_pending (dm_chan (dma_step coll ch s) 0)) \<le> count_list sch 0"
      using Cons.prems(2) unfolding len by (auto split: if_splits)
    from Cons.IH [OF st(2) this] obtain s' sch' where
      "dma_poll coll (\<lambda>s. ch_pending (dm_chan s 0) = []) sch (dma_step coll ch s) = Some (s', sch')"
      "dm_mem s' = dma_seq coll s" "only_ch0 s'" "ch_pending (dm_chan s' 0) = []"
      "count_list sch 0 \<le> count_list sch' 0 + length (ch_pending (dm_chan (dma_step coll ch s) 0))"
      unfolding st(1) by blast
    with False len show ?thesis by (cases "ch_pending (dm_chan s 0)") (auto split: if_splits)
  qed
qed

lemma wait_all_seq:
  assumes "SUPPORTS_DMA c" and "only_ch0 s" and "length (ch_pending (dm_chan s 0)) \<le> count_list sch 0"
  shows "\<exists>s' sch'. snrt_dma_wait_all c coll 0 sch s = Some (s', sch')
    \<and> dm_mem s' = dma_seq coll s \<and> only_ch0 s' \<and> ch_pending (dm_chan s' 0) = []
    \<and> count_list sch 0 \<le> count_list sch' 0 + length (ch_pending (dm_chan s 0))"
  using poll_empties [OF assms(2,3), of coll] assms(1)
  by (simp add: snrt_dma_wait_all_def dmstati_busy_def chan_sel)

text \<open>A copy of one row, as the one-dimensional starts issue it.\<close>

definition plain_copy :: "u64 \<Rightarrow> u64 \<Rightarrow> nat \<Rightarrow> transfer \<Rightarrow> bool" where
  "plain_copy dst src n t \<longleftrightarrow> tx_user t = 0 \<and> tx_dst t = dst \<and> tx_src t = src \<and> unat (tx_size t) = n
     \<and> tx_repeat t = 1"

lemma perform_plain: "plain_copy dst src n t \<Longrightarrow> perform coll t m = copy_1d dst src n m"
  by (auto simp: plain_copy_def perform_def)

lemma start_1d_seq:
  assumes "SUPPORTS_DMA c" and "only_ch0 s"
  shows "\<exists>t s'. snrt_dma_start_1d c dst src n 0 s = (ch_next_id (dm_chan s 0), s') \<and> only_ch0 s'
    \<and> plain_copy dst src (unat n) t \<and> ch_pending (dm_chan s' 0) = ch_pending (dm_chan s 0) @ [t]
    \<and> dma_seq coll s' = copy_1d dst src (unat n) (dma_seq coll s) \<and> dm_mem s' = dm_mem s"
proof -
  let ?t = "\<lparr>tx_src = src, tx_dst = dst, tx_size = n, tx_src_stride = dm_src_stride s,
      tx_dst_stride = dm_dst_stride s, tx_repeat = 1, tx_user = 0\<rparr>"
  let ?s' = "snd (snrt_dma_start_1d c dst src n 0 s)"
  have p: "plain_copy dst src (unat n) ?t" by (simp add: plain_copy_def)
  have "snrt_dma_start_1d c dst src n 0 s = (ch_next_id (dm_chan s 0), ?s')"
    "ch_pending (dm_chan ?s' 0) = ch_pending (dm_chan s 0) @ [?t]" "only_ch0 ?s'" "dm_mem ?s' = dm_mem s"
    using assms by (simp_all add: snrt_dma_start_1d_def dmcpyi_def Let_def only_ch0_def dmsrc_def dmdst_def)
  moreover from this have "dma_seq coll ?s' = copy_1d dst src (unat n) (dma_seq coll s)"
    by (simp add: dma_seq_def perform_plain [OF p])
  ultimately show ?thesis using p by blast
qed

subsection \<open>Stores of the core while transfers are in flight\<close>

text \<open>The stored block is neither read nor written by a transfer in flight.\<close>

definition apart_from :: "u64 \<Rightarrow> nat \<Rightarrow> u64 \<Rightarrow> nat \<Rightarrow> bool" where
  "apart_from p k b n \<longleftrightarrow> (\<forall>a. in_block p k a \<longrightarrow> \<not> in_block b n a)"

lemma copy_fill_commute:
  assumes "apart_from p k dst n" and "apart_from p k src n"
  shows "copy_1d dst src n (fill p v k m) = fill p v k (copy_1d dst src n m)"
proof
  fix a
  have "in_block src n (src + (a - dst))" if "in_block dst n a" using that by (simp add: in_block_def)
  then show "copy_1d dst src n (fill p v k m) a = fill p v k (copy_1d dst src n m) a"
    using assms by (auto simp: copy_1d_def fill_def apart_from_def)
qed

definition inert :: "u64 \<Rightarrow> nat \<Rightarrow> transfer \<Rightarrow> bool" where
  "inert p k t \<longleftrightarrow> (\<exists>dst src n. plain_copy dst src n t \<and> apart_from p k dst n \<and> apart_from p k src n)"

lemma perform_fill: "inert p k t \<Longrightarrow> perform coll t (fill p v k m) = fill p v k (perform coll t m)"
  by (auto simp: inert_def perform_plain copy_fill_commute)

lemma seq_fill:
  assumes "\<forall>t \<in> set (ch_pending (dm_chan s 0)). inert p k t"
  shows "dma_seq coll (s\<lparr>dm_mem := fill p v k (dm_mem s)\<rparr>) = fill p v k (dma_seq coll s)"
proof -
  have "\<forall>t \<in> set ts. inert p k t \<Longrightarrow> fold (perform coll) ts (fill p v k m) = fill p v k (fold (perform coll) ts m)" for ts m
    by (induction ts arbitrary: m) (simp_all add: perform_fill)
  then show ?thesis using assms by (simp add: dma_seq_def)
qed

text \<open>While a core polls, a channel loses transfers at its front only and starts none.\<close>

lemma step_history:
  assumes "ch_pending (dm_chan s ch) = fin @ ch_pending (dm_chan u ch)"
  shows "\<exists>fin. ch_pending (dm_chan s ch) = fin @ ch_pending (dm_chan (dma_step coll ch' u) ch)"
proof (cases "ch' = ch")
  case True
  have "ch_pending (dm_chan u ch) = take 1 (ch_pending (dm_chan u ch)) @ tl (ch_pending (dm_chan u ch))"
    by (cases "ch_pending (dm_chan u ch)") simp_all
  then show ?thesis using True assms by (metis append.assoc dma_step_pending)
qed (use assms in \<open>auto simp: dma_step_other\<close>)

lemma step_next_id: "ch_next_id (dm_chan (dma_step coll ch' u) ch) = ch_next_id (dm_chan u ch)"
  by (cases "ch' = ch") (simp_all add: dma_step_other dma_step_def Let_def split: list.splits)

lemma poll_history:
  assumes "dma_poll coll ready sch s = Some (t, sch')" and "chan_ok (dm_chan s ch)"
  shows "chan_ok (dm_chan t ch) \<and> (\<exists>fin. ch_pending (dm_chan s ch) = fin @ ch_pending (dm_chan t ch))
    \<and> ch_next_id (dm_chan t ch) = ch_next_id (dm_chan s ch)"
  by (rule dma_poll_invariant [OF assms(1)])
    (use assms(2) in simp, metis step_history dma_step_chan_ok step_next_id)

subsection \<open>Starting and waiting\<close>

lemma start_2d_seq:
  assumes "SUPPORTS_DMA c" and "only_ch0 s"
  shows "\<exists>t s'. snrt_dma_start_2d c dst src n dstr sstr rep 0 s = (ch_next_id (dm_chan s 0), s') \<and> only_ch0 s'
    \<and> ch_pending (dm_chan s' 0) = ch_pending (dm_chan s 0) @ [t] \<and> dm_mem s' = dm_mem s
    \<and> dma_seq coll s' = copy_2d dst src (unat n) (scast dstr) (scast sstr) (unat rep) (dma_seq coll s)"
proof -
  let ?t = "\<lparr>tx_src = src, tx_dst = dst, tx_size = n, tx_src_stride = scast sstr,
      tx_dst_stride = scast dstr, tx_repeat = rep, tx_user = 0\<rparr>"
  let ?s' = "snd (snrt_dma_start_2d c dst src n dstr sstr rep 0 s)"
  have "snrt_dma_start_2d c dst src n dstr sstr rep 0 s = (ch_next_id (dm_chan s 0), ?s')"
    "ch_pending (dm_chan ?s' 0) = ch_pending (dm_chan s 0) @ [?t]" "only_ch0 ?s'" "dm_mem ?s' = dm_mem s"
    using assms
    by (simp_all add: snrt_dma_start_2d_def dmcpyi_def Let_def only_ch0_def dmsrc_def dmdst_def dmstr_def
        dmrep_def bit_numeral_rec)
  moreover from this
  have "dma_seq coll ?s' = copy_2d dst src (unat n) (scast dstr) (scast sstr) (unat rep) (dma_seq coll s)"
    by (simp add: dma_seq_def perform_def)
  ultimately show ?thesis by blast
qed

lemma count_list_pos: "x \<in> set xs \<Longrightarrow> 0 < count_list xs x"
  using count_list_0_iff [of xs x] by simp

lemma start_2d_then_wait:
  assumes "SUPPORTS_DMA c" and "dma_idle s" and "dm_user s = 0" and "0 \<in> set sch"
    and "snrt_dma_start_2d c dst src n dstr sstr rep 0 s = (tx, s1)"
  shows "\<exists>s' sch'. snrt_dma_wait_all c coll 0 sch s1 = Some (s', sch')
    \<and> dm_mem s' = copy_2d dst src (unat n) (scast dstr) (scast sstr) (unat rep) (dm_mem s)
    \<and> dma_idle s' \<and> dm_user s' = 0"
proof -
  have p: "ch_pending (dm_chan s 0) = []" using assms(2) by (simp add: dma_idle_def)
  obtain t where s1: "only_ch0 s1" "ch_pending (dm_chan s1 0) = [t]"
    "dma_seq coll s1 = copy_2d dst src (unat n) (scast dstr) (scast sstr) (unat rep) (dm_mem s)"
    using start_2d_seq [OF assms(1) idle_only_ch0 [OF assms(2,3)], of dst src n dstr sstr rep coll] assms(5)
    by (auto simp: p dma_seq_idle)
  moreover have "length (ch_pending (dm_chan s1 0)) \<le> count_list sch 0"
    using count_list_pos [OF assms(4)] s1(2) by simp
  ultimately show ?thesis
    using wait_all_seq [OF assms(1) s1(1), of sch coll] by (auto simp: only_ch0_idle only_ch0_def)
qed

lemma start_1d_then_wait:
  assumes "SUPPORTS_DMA c" and "dma_idle s" and "dm_user s = 0" and "0 \<in> set sch"
    and "snrt_dma_start_1d c dst src n 0 s = (tx, s1)"
  shows "\<exists>s' sch'. snrt_dma_wait_all c coll 0 sch s1 = Some (s', sch')
    \<and> dm_mem s' = copy_1d dst src (unat n) (dm_mem s) \<and> dma_idle s' \<and> dm_user s' = 0"
proof -
  have p: "ch_pending (dm_chan s 0) = []" using assms(2) by (simp add: dma_idle_def)
  obtain t where s1: "only_ch0 s1" "ch_pending (dm_chan s1 0) = [t]"
    "dma_seq coll s1 = copy_1d dst src (unat n) (dm_mem s)"
    using start_1d_seq [OF assms(1) idle_only_ch0 [OF assms(2,3)], of dst src n coll] assms(5)
    by (auto simp: p dma_seq_idle)
  moreover have "length (ch_pending (dm_chan s1 0)) \<le> count_list sch 0"
    using count_list_pos [OF assms(4)] s1(2) by simp
  ultimately show ?thesis
    using wait_all_seq [OF assms(1) s1(1), of sch coll] by (auto simp: only_ch0_idle only_ch0_def)
qed

subsection \<open>Tile addresses\<close>

text \<open>The tile \<open>(x1_idx, x0_idx)\<close> lies in an array that does not leave the 32-bit address space.\<close>

definition tile_fits :: "u32 \<Rightarrow> u32 \<Rightarrow> u32 \<Rightarrow> u32 \<Rightarrow> u32 \<Rightarrow> u32 \<Rightarrow> bool" where
  "tile_fits x1_idx x0_idx x1_size x0_size full prec \<longleftrightarrow>
     ((unat x1_idx + 1) * unat x1_size * unat full + unat x0_idx * unat x0_size) * unat prec < 2 ^ 31
     \<and> 0 < unat prec \<and> 0 < unat x1_size \<and> 0 < unat x0_size \<and> unat x0_size \<le> unat full"

definition tile_byte :: "u32 \<Rightarrow> u32 \<Rightarrow> u32 \<Rightarrow> u32 \<Rightarrow> u32 \<Rightarrow> u32 \<Rightarrow> nat \<Rightarrow> nat \<Rightarrow> nat" where
  "tile_byte x1_idx x0_idx x1_size x0_size full prec r k =
     ((unat x1_idx * unat x1_size + r) * unat full + unat x0_idx * unat x0_size) * unat prec + k"

lemma tile_offset_unat:
  assumes "tile_fits x1_idx x0_idx x1_size x0_size full prec"
  shows "unat (tile_offset x1_idx x0_idx x1_size x0_size full prec)
      = (unat x1_idx * unat x1_size * unat full + unat x0_idx * unat x0_size) * unat prec"
    and "unat (x0_size * prec) = unat x0_size * unat prec"
    and "unat (full * prec) = unat full * unat prec" and "unat full * unat prec < 2 ^ 31"
proof -
  let ?A = "unat x1_idx * unat x1_size" and ?B = "unat x0_idx * unat x0_size"
  let ?F = "unat full" and ?P = "unat prec" and ?S = "unat x1_size"
  have pos: "0 < ?P" "0 < ?S" "0 < unat x0_size" and x0: "unat x0_size \<le> ?F" and F: "0 < ?F"
    and lim: "((unat x1_idx + 1) * ?S * ?F + ?B) * ?P < 2147483648"
    using assms by (auto simp: tile_fits_def)
  have split: "((unat x1_idx + 1) * ?S * ?F + ?B) * ?P = ?A * ?F * ?P + ?S * ?F * ?P + ?B * ?P"
    by (simp add: algebra_simps)
  have FP: "?F * ?P \<le> ?S * ?F * ?P" using pos(2) by (cases ?S) simp_all
  then have "?F * ?P < 2147483648" using lim unfolding split by linarith
  then show f31: "?F * ?P < 2 ^ 31" by simp
  show "unat (full * prec) = ?F * ?P" using f31 by (simp add: unat_mult_no_ovf)
  have "unat x0_size * ?P \<le> ?F * ?P" using x0 by (rule mult_le_mono1)
  then have "unat x0_size * ?P < 4294967296" by (rule le_less_trans) (use f31 in simp)
  then show "unat (x0_size * prec) = unat x0_size * ?P" by (simp add: unat_mult_no_ovf)
  have mul: "x \<le> x * y" if "0 < y" for x y :: nat using that by simp
  have a: "?A * ?F * ?P < 2147483648" "?B * ?P < 2147483648" using lim split by simp_all
  then have a1: "?A * ?F < 2147483648" "?B < 2147483648"
    using mul [OF pos(1), of "?A * ?F"] mul [OF pos(1), of ?B] by linarith+
  then have a2: "?A < 2147483648" using mul [OF F, of ?A] by linarith
  have "unat (x1_idx * x1_size) = ?A" using a2 by (simp add: unat_mult_no_ovf)
  then have u1: "unat (x1_idx * x1_size * full) = ?A * ?F" using a1 by (simp add: unat_mult_no_ovf)
  have u0: "unat (x0_idx * x0_size) = ?B" using a1 by (simp add: unat_mult_no_ovf)
  have u: "unat (x0_idx * x0_size + x1_idx * x1_size * full) = ?B + ?A * ?F"
    using a1 by (subst unat_add_no_ovf) (simp_all add: u0 u1)
  have "(?B + ?A * ?F) * ?P < 4294967296" using lim split by (simp add: algebra_simps)
  then have "unat ((x0_idx * x0_size + x1_idx * x1_size * full) * prec) = (?B + ?A * ?F) * ?P"
    by (subst unat_mult_no_ovf) (simp_all add: u)
  then show "unat (tile_offset x1_idx x0_idx x1_size x0_size full prec) = (?A * ?F + ?B) * ?P"
    unfolding tile_offset_def Let_def by (simp only: add_0 add.commute [of ?B])
qed

lemma tile_row_addr:
  assumes "tile_fits x1_idx x0_idx x1_size x0_size full prec"
  shows "ucast base + ucast (tile_offset x1_idx x0_idx x1_size x0_size full prec)
      + of_nat r * scast (full * prec) + of_nat k
    = (ucast base + of_nat (tile_byte x1_idx x0_idx x1_size x0_size full prec r k) :: u64)"
proof -
  note T = tile_offset_unat [OF assms]
  have s: "(scast (full * prec) :: u64) = of_nat (unat full * unat prec)"
    using T(3,4) scast_small [of "full * prec"] by (metis of_nat_unat)
  have o: "(ucast (tile_offset x1_idx x0_idx x1_size x0_size full prec) :: u64)
    = of_nat ((unat x1_idx * unat x1_size * unat full + unat x0_idx * unat x0_size) * unat prec)"
    using T(1) by (metis of_nat_unat)
  show ?thesis
    unfolding s o by (simp add: tile_byte_def algebra_simps)
qed

lemma tile_byte_rows:
  "tile_byte x1_idx x0_idx x1_size x0_size full prec r k
     = tile_byte x1_idx x0_idx x1_size x0_size full prec 0 0 + r * (unat full * unat prec) + k"
  by (simp add: tile_byte_def algebra_simps)

lemma in_block_mono: "\<not> in_block b n a \<Longrightarrow> m \<le> n \<Longrightarrow> \<not> in_block b m a"
  by (simp add: in_block_def)

lemma scast_of_nat: "unat (x :: u32) < 2 ^ 31 \<Longrightarrow> (scast x :: u64) = of_nat (unat x)"
  by (simp add: scast_small)

lemma rows_fit: "unat (x :: u32) * unat (d :: u32) \<le> 2 ^ 64"
proof -
  have "unat x * unat d \<le> 4294967296 * 4294967296"
    using unat_lt_pow32 [of x] unat_lt_pow32 [of d] by (intro mult_le_mono) simp_all
  then show ?thesis by simp
qed

lemma load_2d_tile_elements:
  assumes "SUPPORTS_DMA c" and "dma_idle s" and "dm_user s = 0" and "0 \<in> set sch"
    and fits: "tile_fits x1_idx x0_idx x1_size x0_size full prec"
    and ld: "unat x0_size * unat prec \<le> unat tile_ld" "unat tile_ld < 2 ^ 31"
    and apart: "\<forall>r < unat x1_size. \<forall>k < unat x0_size * unat prec.
      \<not> in_block (ucast dst) (unat x1_size * unat tile_ld)
          (ucast src + of_nat (tile_byte x1_idx x0_idx x1_size x0_size full prec r k))"
    and start: "snrt_dma_load_2d_tile c dst src x1_idx x0_idx x1_size x0_size full prec tile_ld s = (tx, s1)"
  shows "\<exists>s' sch'. snrt_dma_wait_all c coll 0 sch s1 = Some (s', sch') \<and> dma_idle s' \<and> dm_user s' = 0
    \<and> (\<forall>r < unat x1_size. \<forall>k < unat x0_size * unat prec.
         dm_mem s' (ucast dst + of_nat (r * unat tile_ld + k))
         = dm_mem s (ucast src + of_nat (tile_byte x1_idx x0_idx x1_size x0_size full prec r k)))
    \<and> (\<forall>a. \<not> in_block (ucast dst) (unat x1_size * unat tile_ld) a \<longrightarrow> dm_mem s' a = dm_mem s a)"
proof -
  let ?off = "tile_offset x1_idx x0_idx x1_size x0_size full prec"
  let ?tb = "tile_byte x1_idx x0_idx x1_size x0_size full prec"
  note T = tile_offset_unat [OF fits]
  have st: "snrt_dma_start_2d c (ucast dst) (ucast src + ucast ?off) (x0_size * prec) tile_ld
      (full * prec) x1_size 0 s = (tx, s1)"
    using start by (simp add: snrt_dma_load_2d_tile_def Let_def)
  have D: "unat (scast tile_ld :: u64) = unat tile_ld" using ld(2) by (simp add: scast_small)
  obtain s' sch' where w: "snrt_dma_wait_all c coll 0 sch s1 = Some (s', sch')" "dma_idle s'" "dm_user s' = 0"
    and m: "dm_mem s' = copy_2d (ucast dst) (ucast src + ucast ?off) (unat x0_size * unat prec)
      (scast tile_ld) (scast (full * prec)) (unat x1_size) (dm_mem s)"
    using start_2d_then_wait [OF assms(1-4) st, of coll] by (auto simp: T(2))
  have fit64: "unat x1_size * unat (scast tile_ld :: u64) \<le> 2 ^ 64" unfolding D by (rule rows_fit)
  have row: "dm_mem s' (ucast dst + of_nat (r * unat tile_ld + k))
      = dm_mem s (ucast src + of_nat (?tb r k))"
    if "r < unat x1_size" "k < unat x0_size * unat prec" for r k
  proof -
    have "r * unat tile_ld \<le> unat x1_size * unat tile_ld" using that(1) by (intro mult_le_mono1) simp
    then have nb: "\<not> in_block (ucast dst) (r * unat (scast tile_ld :: u64))
        (ucast src + ucast ?off + of_nat r * scast (full * prec) + of_nat k)"
      unfolding tile_row_addr [OF fits] D
      using apart that in_block_mono by blast
    have e: "ucast dst + of_nat (r * unat tile_ld + k) = ucast dst + of_nat r * scast tile_ld + (of_nat k :: u64)"
      unfolding scast_of_nat [OF ld(2)] by (simp only: of_nat_add of_nat_mult add.assoc)
    show ?thesis
      unfolding m e tile_row_addr [OF fits, symmetric]
      by (rule copy_2d_tile [OF that _ fit64 nb]) (simp add: D ld(1))
  qed
  have "\<forall>a. \<not> in_block (ucast dst) (unat x1_size * unat tile_ld) a \<longrightarrow> dm_mem s' a = dm_mem s a"
    unfolding m using ld(1) fit64 by (auto simp: D intro!: copy_2d_outside)
  with w row show ?thesis by blast
qed

lemma store_2d_tile_elements:
  assumes "SUPPORTS_DMA c" and "dma_idle s" and "dm_user s = 0" and "0 \<in> set sch"
    and fits: "tile_fits x1_idx x0_idx x1_size x0_size full prec"
    and ld: "unat tile_ld < 2 ^ 31"
    and apart: "\<forall>r < unat x1_size. \<forall>k < unat x0_size * unat prec.
      \<not> in_block (ucast dst + of_nat (tile_byte x1_idx x0_idx x1_size x0_size full prec 0 0))
          (unat x1_size * (unat full * unat prec)) (ucast src + of_nat (r * unat tile_ld + k))"
    and start: "snrt_dma_store_2d_tile c dst src x1_idx x0_idx x1_size x0_size full prec tile_ld s = (tx, s1)"
  shows "\<exists>s' sch'. snrt_dma_wait_all c coll 0 sch s1 = Some (s', sch') \<and> dma_idle s' \<and> dm_user s' = 0
    \<and> (\<forall>r < unat x1_size. \<forall>k < unat x0_size * unat prec.
         dm_mem s' (ucast dst + of_nat (tile_byte x1_idx x0_idx x1_size x0_size full prec r k))
         = dm_mem s (ucast src + of_nat (r * unat tile_ld + k)))"
proof -
  let ?off = "tile_offset x1_idx x0_idx x1_size x0_size full prec"
  let ?tb = "tile_byte x1_idx x0_idx x1_size x0_size full prec"
  note T = tile_offset_unat [OF fits]
  have st: "snrt_dma_start_2d c (ucast dst + ucast ?off) (ucast src) (x0_size * prec) (full * prec)
      tile_ld x1_size 0 s = (tx, s1)"
    using start by (simp add: snrt_dma_store_2d_tile_def Let_def)
  have D: "unat (scast (full * prec) :: u64) = unat full * unat prec"
    using T(3,4) by (simp add: scast_small)
  have S: "unat (scast tile_ld :: u64) = unat tile_ld" using ld by (simp add: scast_small)
  obtain s' sch' where w: "snrt_dma_wait_all c coll 0 sch s1 = Some (s', sch')" "dma_idle s'" "dm_user s' = 0"
    and m: "dm_mem s' = copy_2d (ucast dst + ucast ?off) (ucast src) (unat x0_size * unat prec)
      (scast (full * prec)) (scast tile_ld) (unat x1_size) (dm_mem s)"
    using start_2d_then_wait [OF assms(1-4) st, of coll] by (auto simp: T(2))
  have fit64: "unat x1_size * unat (scast (full * prec) :: u64) \<le> 2 ^ 64"
    unfolding D T(3) [symmetric] by (rule rows_fit)
  have le: "unat x0_size * unat prec \<le> unat (scast (full * prec) :: u64)"
    using fits unfolding D by (intro mult_le_mono1) (simp add: tile_fits_def)
  have base: "ucast dst + ucast ?off = (ucast dst + of_nat (?tb 0 0) :: u64)"
    using tile_row_addr [OF fits, of dst 0 0] by simp
  have row: "dm_mem s' (ucast dst + of_nat (?tb r k)) = dm_mem s (ucast src + of_nat (r * unat tile_ld + k))"
    if "r < unat x1_size" "k < unat x0_size * unat prec" for r k
  proof -
    have e: "ucast src + of_nat (r * unat tile_ld + k) = ucast src + of_nat r * scast tile_ld + (of_nat k :: u64)"
      unfolding scast_of_nat [OF ld] by (simp only: of_nat_add of_nat_mult add.assoc)
    have "r * (unat full * unat prec) \<le> unat x1_size * (unat full * unat prec)"
      using that(1) by (intro mult_le_mono1) simp
    then have nb: "\<not> in_block (ucast dst + ucast ?off) (r * unat (scast (full * prec) :: u64))
        (ucast src + of_nat r * scast tile_ld + of_nat k)"
      unfolding base D e [symmetric] using apart that in_block_mono by blast
    show ?thesis
      unfolding m e tile_row_addr [OF fits, symmetric]
      by (rule copy_2d_tile [OF that le fit64 nb])
  qed
  with w show ?thesis by blast
qed

subsection \<open>Memset\<close>

lemma ptr_byte:
  fixes p n :: u32
  assumes "unat p + unat n \<le> 2 ^ 32" and "i < unat n"
  shows "(ucast (p + of_nat i) :: u64) = ucast p + of_nat i"
proof (rule unat_eqI)
  have i: "i < 2 ^ 32" "unat p + i < 2 ^ 32" using assms by simp_all
  have ui: "unat (of_nat i :: u32) = i" using i(1) by (simp add: unsigned_of_nat take_bit_nat_eq_self)
  have "unat (p + of_nat i) = unat p + i" using i(2) by (subst unat_add_no_ovf) (simp_all add: ui)
  moreover have uj: "unat (of_nat i :: u64) = i" using i(1) by (simp add: unsigned_of_nat take_bit_nat_eq_self)
  ultimately show "unat (ucast (p + of_nat i) :: u64) = unat (ucast p + of_nat i :: u64)"
    using i(2) by (subst unat_add_no_ovf) (simp_all add: uj)
qed

lemma set_bytes_fill:
  assumes "unat p + unat n \<le> 2 ^ 32"
  shows "set_bytes p v n m = fill (ucast p) v (unat n) m"
proof -
  have "k \<le> unat n \<Longrightarrow> for_upto 0 k (\<lambda>i m. m(ucast (p + of_nat i) := v)) m = fill (ucast p) v k m" for k
  proof (induction k)
    case 0
    then show ?case by (auto simp: fill_def in_block_def)
  next
    case (Suc k)
    have "k < 2 ^ 64" using Suc.prems unat_lt_pow32 [of n] by simp
    then have k64: "unat (of_nat k :: u64) = k" by (simp add: unsigned_of_nat take_bit_nat_eq_self)
    have "in_block (ucast p) (Suc k) a \<longleftrightarrow> a = ucast p + of_nat k \<or> in_block (ucast p) k a" for a
    proof -
      have "unat (a - ucast p) = k \<longleftrightarrow> a - ucast p = of_nat k" using k64 by (metis unat_eqI)
      also have "\<dots> \<longleftrightarrow> a = ucast p + of_nat k" by (auto simp: algebra_simps)
      finally show ?thesis by (auto simp: in_block_def less_Suc_eq)
    qed
    then show ?case
      using Suc ptr_byte [OF assms, of k] by (auto simp: for_upto_Suc fill_def)
  qed
  then show ?thesis by (simp add: set_bytes_def)
qed

text \<open>Copying the first 64 bytes of a region over its multiples of 64 repeats them.\<close>

lemma copy_2d_repeats:
  assumes "in_block p (r * 64) a" and "r * 64 \<le> 2 ^ 64"
  shows "copy_2d p p 64 64 0 r m a = m (p + of_nat (unat (a - p) mod 64))"
  using assms
proof (induction r arbitrary: a)
  case 0
  then show ?case by (simp add: in_block_def)
next
  case (Suc r)
  let ?x = "unat (a - p)"
  have r64: "Suc r * unat (64 :: u64) \<le> 2 ^ 64" using Suc.prems(2) by simp
  show ?case
  proof (cases "in_block (p + of_nat r * 64) 64 a")
    case True
    define k where "k = unat (a - (p + of_nat r * 64))"
    have k: "k < 64" using True by (simp add: in_block_def k_def)
    have x: "?x = r * 64 + k" using row_in_block(2) [OF True _ _ r64] by (simp add: k_def)
    have km: "?x mod 64 = k" unfolding x using k by simp
    have kw: "a - (p + of_nat r * 64) = of_nat k" by (simp add: k_def)
    have uk: "unat (of_nat k :: u64) = k" using k by (simp add: unsigned_of_nat take_bit_nat_eq_self)
    have "copy_2d p p 64 64 0 (Suc r) m a = copy_2d p p 64 64 0 r m (p + of_nat k)"
      using True kw by (simp add: copy_2d_Suc copy_1d_in)
    also have "\<dots> = m (p + of_nat k)"
    proof (cases "r = 0")
      case True
      then show ?thesis by simp
    next
      case False
      have "in_block p (r * 64) (p + of_nat k)" using k False by (simp add: in_block_def uk)
      from Suc.IH [OF this] Suc.prems(2) k show ?thesis by (simp add: uk)
    qed
    finally show ?thesis unfolding km .
  next
    case False
    have "in_block p (r * 64) a"
    proof (rule ccontr)
      assume n: "\<not> in_block p (r * 64) a"
      have x: "r * 64 \<le> ?x" "?x < Suc r * 64" using n Suc.prems(1) by (simp_all add: in_block_def)
      have "a - (p + of_nat r * 64) = of_nat ?x - of_nat (r * 64)" by (simp add: algebra_simps)
      also have "\<dots> = of_nat (?x - r * 64)" using x(1) by (simp add: of_nat_diff)
      finally have "unat (a - (p + of_nat r * 64)) \<le> ?x - r * 64"
        by (simp add: unsigned_of_nat take_bit_nat_less_eq_self)
      with False x(2) show False by (simp add: in_block_def)
    qed
    then show ?thesis using False Suc by (simp add: copy_2d_Suc copy_1d_out)
  qed
qed

text \<open>The first 64 bytes of a block, set by the core, repeated over the block by the DMA.\<close>

lemma copy_2d_fill:
  assumes "64 \<le> r * 64" and "r * 64 \<le> 2 ^ 64"
  shows "copy_2d p p 64 64 0 r (fill p v 64 m) = fill p v (r * 64) m"
proof
  fix a
  show "copy_2d p p 64 64 0 r (fill p v 64 m) a = fill p v (r * 64) m a"
  proof (cases "in_block p (r * 64) a")
    case inb: True
    have "copy_2d p p 64 64 0 r (fill p v 64 m) a = fill p v 64 m (p + of_nat (unat (a - p) mod 64))"
      by (rule copy_2d_repeats [OF inb assms(2)])
    moreover have "unat (of_nat (unat (a - p) mod 64) :: u64) < 64"
      by (rule le_less_trans [of _ "unat (a - p) mod 64"])
        (simp_all only: unsigned_of_nat of_nat_id take_bit_nat_less_eq_self mod_less_divisor zero_less_numeral)
    ultimately show ?thesis using inb by (simp add: fill_def in_block_def)
  next
    case outb: False
    then have "\<not> in_block p 64 a" using assms(1) by (auto simp: in_block_def)
    moreover have "copy_2d p p 64 64 0 r (fill p v 64 m) a = fill p v 64 m a"
      using outb assms(2) copy_2d_outside [of p r 64 a 64] by simp
    ultimately show ?thesis using outb by (simp add: fill_def)
  qed
qed

lemma memset_len:
  assumes "len mod 64 = 0" and "64 < (len :: u32)"
  shows "unat (len div 64) * 64 = unat len" and "64 \<le> unat len"
proof -
  have "64 \<le> unat len" "unat len mod 64 = 0"
    using assms unat_mod [of len 64] by (simp_all add: word_less_nat_alt)
  then show "unat (len div 64) * 64 = unat len" "64 \<le> unat len"
    using div_mult_mod_eq [of "unat len" 64] by (simp_all add: unat_div)
qed

lemma inert_mono: "inert p k t \<Longrightarrow> k' \<le> k \<Longrightarrow> inert p k' t"
  unfolding inert_def apart_from_def in_block_def by (meson order_less_le_trans)

text \<open>
  A memset while plain copies that do not touch its block are in flight: it returns, and means the
  filled block, whether the core stores all bytes or the DMA repeats the first 64.
\<close>

lemma memset_seq:
  assumes "SUPPORTS_DMA c" and s: "only_ch0 s" and fits: "unat ptr + unat len \<le> 2 ^ 32"
    and inert: "\<forall>t \<in> set (ch_pending (dm_chan s 0)). inert (ucast ptr) (unat len) t"
    and sch: "length (ch_pending (dm_chan s 0)) < count_list sch 0"
  shows "\<exists>s' sch'. snrt_dma_memset c coll ptr v len sch s = Some (s', sch') \<and> only_ch0 s'
    \<and> dma_seq coll s' = fill (ucast ptr) v (unat len) (dma_seq coll s)
    \<and> set (ch_pending (dm_chan s' 0)) \<subseteq> set (ch_pending (dm_chan s 0))
    \<and> count_list sch 0 + length (ch_pending (dm_chan s' 0))
       \<le> count_list sch' 0 + length (ch_pending (dm_chan s 0)) + 1"
proof (cases "len mod 64 = 0 \<and> 64 < len")
  case False
  have "snrt_dma_memset c coll ptr v len sch s = Some (s\<lparr>dm_mem := fill (ucast ptr) v (unat len) (dm_mem s)\<rparr>, sch)"
    using False assms(1) by (simp only: snrt_dma_memset_def Let_def if_True if_False disj_not1 simp_thms
      set_bytes_fill [OF fits])
  then show ?thesis using s seq_fill [OF inert] by (auto simp: only_ch0_def)
next
  case True
  let ?p = "ucast ptr :: u64"
  note L = memset_len [OF conjunct1 [OF True] conjunct2 [OF True]]
  let ?s1 = "s\<lparr>dm_mem := fill ?p v 64 (dm_mem s)\<rparr>"
  have sb: "set_bytes ptr v 64 (dm_mem s) = fill ?p v 64 (dm_mem s)"
    using set_bytes_fill [of ptr 64 v "dm_mem s"] fits L(2) by simp
  have i64: "\<forall>t \<in> set (ch_pending (dm_chan s 0)). inert ?p 64 t"
    using inert L(2) inert_mono by blast
  have s1: "only_ch0 ?s1" "dma_seq coll ?s1 = fill ?p v 64 (dma_seq coll s)"
    using s seq_fill [OF i64] by (simp_all add: only_ch0_def)
  obtain t s2 where s2: "snrt_dma_start_2d c ?p ?p 64 64 0 (len div 64) 0 ?s1 = (ch_next_id (dm_chan ?s1 0), s2)"
      "only_ch0 s2" "ch_pending (dm_chan s2 0) = ch_pending (dm_chan s 0) @ [t]"
    and seq: "dma_seq coll s2 = copy_2d ?p ?p 64 64 0 (unat (len div 64)) (fill ?p v 64 (dma_seq coll s))"
    using start_2d_seq [OF assms(1) s1(1), of ?p ?p 64 64 0 "len div 64" coll] s1(2) by auto
  have "length (ch_pending (dm_chan s2 0)) \<le> count_list sch 0" using sch s2(3) by simp
  from wait_all_seq [OF assms(1) s2(2) this, of coll] obtain s' sch' where
    w: "snrt_dma_wait_all c coll 0 sch s2 = Some (s', sch')" "dm_mem s' = dma_seq coll s2" "only_ch0 s'"
      "ch_pending (dm_chan s' 0) = []" "count_list sch 0 \<le> count_list sch' 0 + length (ch_pending (dm_chan s2 0))"
    by blast
  have "unat (len div 64) * 64 \<le> 2 ^ 64" using unat_lt_pow32 [of len] by (simp add: L(1))
  then have "dma_seq coll s2 = fill ?p v (unat len) (dma_seq coll s)"
    unfolding seq using copy_2d_fill [of "unat (len div 64)"] L by simp
  moreover have "snrt_dma_memset c coll ptr v len sch s = Some (s', sch')"
    using True s2(1) w(1) order_less_not_sym [of 64 len] assms(1)
    by (simp add: snrt_dma_memset_def Let_def sb snrt_dma_start_2d_p_def)
  ultimately show ?thesis using w s2(3) by (simp add: dma_seq_idle)
qed

subsection \<open>Properties\<close>

definition sample_dma :: "mem \<Rightarrow> dma" where
  "sample_dma m = \<lparr>dm_src = 0, dm_dst = 0, dm_src_stride = 0, dm_dst_stride = 0, dm_rep = 0, dm_user = 0,
     dm_chan = (\<lambda>_. \<lparr>ch_pending = [], ch_next_id = 1, ch_completed_id = 0\<rparr>), dm_mem = m\<rparr>"

lemma sample_dma_idle: "dma_idle (sample_dma m)" "dm_user (sample_dma m) = 0" "dm_mem (sample_dma m) = m"
  by (simp_all add: dma_idle_def sample_dma_def)

lemma sample_supports_dma: "SUPPORTS_DMA sample_cfg"
  by (simp add: sample_cfg_def)

text \<open>
  C4: \<open>snrt_dma_memset\<close> returns and sets exactly the requested bytes, for every length: by the
  core alone, or by the core for the first 64 bytes and a 2D transfer of stride 0 that repeats
  them, or by the C library when there is no DMA.
\<close>

theorem dma_memset_fills:
  assumes "dma_idle s" and "dm_user s = 0" and "0 \<in> set sch" and "unat ptr + unat len \<le> 2 ^ 32"
  shows "\<exists>s' sch'. snrt_dma_memset c coll ptr v len sch s = Some (s', sch') \<and> dma_idle s'
    \<and> dm_mem s' = fill (ucast ptr) v (unat len) (dm_mem s)"
proof (cases "SUPPORTS_DMA c")
  case True
  have p: "ch_pending (dm_chan s 0) = []" using assms(1) by (simp add: dma_idle_def)
  then obtain s' sch' where "snrt_dma_memset c coll ptr v len sch s = Some (s', sch')" "only_ch0 s'"
    "dma_seq coll s' = fill (ucast ptr) v (unat len) (dm_mem s)" "ch_pending (dm_chan s' 0) = []"
    using memset_seq [OF True idle_only_ch0 [OF assms(1,2)] assms(4), of sch coll v] count_list_pos [OF assms(3)]
    by (auto simp: dma_seq_idle)
  then show ?thesis by (auto simp: dma_seq_idle only_ch0_idle)
next
  case False
  then show ?thesis using assms(1) by (simp add: snrt_dma_memset_def dma_idle_def)
qed

theorem dma_memset_fills_witness:
  "\<exists>s' sch'. snrt_dma_memset sample_cfg (\<lambda>_ m. m) 0x1000 7 192 [3, 0] (sample_dma (\<lambda>_. 0)) = Some (s', sch')
     \<and> dm_mem s' 0x10bf = 7 \<and> dm_mem s' 0x10c0 = 0"
  using dma_memset_fills [of "sample_dma (\<lambda>_. 0)" "[3, 0]" "0x1000" 192 sample_cfg "\<lambda>_ m. m" 7]
  by (auto simp: sample_dma_idle fill_def in_block_def)

text \<open>
  C3: Round trip of a 2D tile. Loading the tile \<open>(x1_idx, x0_idx)\<close> of the array \<open>A\<close> into a buffer
  and storing the buffer to the same tile of the array \<open>B\<close>, waiting for the channel after each,
  makes every byte of the tile of \<open>B\<close> equal to the one of \<open>A\<close>: element
  \<open>(x1_idx * x1_size + r, x0_idx * x0_size + j)\<close> of the row-major array, whatever the schedule.
\<close>

theorem tile_roundtrip:
  assumes "SUPPORTS_DMA c" and "dma_idle s" and "dm_user s = 0" and "0 \<in> set sch1" and "0 \<in> set sch2"
    and fits: "tile_fits x1_idx x0_idx x1_size x0_size full prec"
    and ld: "unat x0_size * unat prec \<le> unat tile_ld" "unat tile_ld < 2 ^ 31"
    and apart1: "\<forall>r < unat x1_size. \<forall>k < unat x0_size * unat prec.
      \<not> in_block (ucast buf) (unat x1_size * unat tile_ld)
          (ucast A + of_nat (tile_byte x1_idx x0_idx x1_size x0_size full prec r k))"
    and apart2: "\<forall>r < unat x1_size. \<forall>k < unat x0_size * unat prec.
      \<not> in_block (ucast B + of_nat (tile_byte x1_idx x0_idx x1_size x0_size full prec 0 0))
          (unat x1_size * (unat full * unat prec)) (ucast buf + of_nat (r * unat tile_ld + k))"
    and load: "snrt_dma_load_2d_tile c buf A x1_idx x0_idx x1_size x0_size full prec tile_ld s = (tx1, s1)"
  shows "\<exists>s2 sch1'. snrt_dma_wait_all c coll 0 sch1 s1 = Some (s2, sch1')
    \<and> (\<exists>tx2 s3 s4 sch2'.
         snrt_dma_store_2d_tile c B buf x1_idx x0_idx x1_size x0_size full prec tile_ld s2 = (tx2, s3)
         \<and> snrt_dma_wait_all c coll 0 sch2 s3 = Some (s4, sch2')
         \<and> (\<forall>r < unat x1_size. \<forall>k < unat x0_size * unat prec.
              dm_mem s4 (ucast B + of_nat (tile_byte x1_idx x0_idx x1_size x0_size full prec r k))
              = dm_mem s (ucast A + of_nat (tile_byte x1_idx x0_idx x1_size x0_size full prec r k))))"
proof -
  obtain s2 sch1' where s2: "snrt_dma_wait_all c coll 0 sch1 s1 = Some (s2, sch1')" "dma_idle s2" "dm_user s2 = 0"
    and m2: "\<forall>r < unat x1_size. \<forall>k < unat x0_size * unat prec.
         dm_mem s2 (ucast buf + of_nat (r * unat tile_ld + k))
         = dm_mem s (ucast A + of_nat (tile_byte x1_idx x0_idx x1_size x0_size full prec r k))"
    using load_2d_tile_elements [OF assms(1-4) fits ld apart1 load, of coll] by blast
  obtain tx2 s3 where st:
    "snrt_dma_store_2d_tile c B buf x1_idx x0_idx x1_size x0_size full prec tile_ld s2 = (tx2, s3)"
    by (cases "snrt_dma_store_2d_tile c B buf x1_idx x0_idx x1_size x0_size full prec tile_ld s2")
  obtain s4 sch2' where s4: "snrt_dma_wait_all c coll 0 sch2 s3 = Some (s4, sch2')"
    and m4: "\<forall>r < unat x1_size. \<forall>k < unat x0_size * unat prec.
         dm_mem s4 (ucast B + of_nat (tile_byte x1_idx x0_idx x1_size x0_size full prec r k))
         = dm_mem s2 (ucast buf + of_nat (r * unat tile_ld + k))"
    using store_2d_tile_elements [OF assms(1) s2(2,3) assms(5) fits ld(2) apart2 st, of coll] by blast
  from s2(1) st s4 m2 m4 show ?thesis by (metis (no_types, lifting))
qed

lemma less_2_cases: "(\<forall>i < (2::nat). P i) \<longleftrightarrow> P 0 \<and> P 1"
  by (auto simp: less_Suc_eq numeral_2_eq_2)

text \<open>The tile (1, 1) of 2 by 2 bytes of an array of rows of 4 bytes; row 1, byte 0 is element 14.\<close>

theorem tile_roundtrip_witness:
  "\<exists>s1 s2 s3 s4 sch1 sch2.
     snrt_dma_load_2d_tile sample_cfg 0x2000 0x1000 1 1 2 2 4 1 8 (sample_dma ucast) = (1, s1)
     \<and> snrt_dma_wait_all sample_cfg (\<lambda>_ m. m) 0 [0] s1 = Some (s2, sch1)
     \<and> (\<exists>tx. snrt_dma_store_2d_tile sample_cfg 0x3000 0x2000 1 1 2 2 4 1 8 s2 = (tx, s3))
     \<and> snrt_dma_wait_all sample_cfg (\<lambda>_ m. m) 0 [1, 0] s3 = Some (s4, sch2)
     \<and> dm_mem s4 0x300e = 0x0e"
proof -
  obtain tx1 s1 where l: "snrt_dma_load_2d_tile sample_cfg 0x2000 0x1000 1 1 2 2 4 1 8 (sample_dma ucast) = (tx1, s1)"
    by (cases "snrt_dma_load_2d_tile sample_cfg 0x2000 0x1000 1 1 2 2 4 1 8 (sample_dma ucast)")
  have tx: "tx1 = 1"
    using l by (simp add: snrt_dma_load_2d_tile_def snrt_dma_start_2d_def Let_def sample_supports_dma
        dmcpyi_def sample_dma_def dmrep_def dmstr_def dmdst_def dmsrc_def)
  have f: "tile_fits 1 1 2 2 4 1" by (simp add: tile_fits_def)
  have b: "tile_byte 1 1 2 2 4 1 r k = 10 + 4 * r + k" for r k by (simp add: tile_byte_def)
  have "\<forall>r < unat (2 :: u32). \<forall>k < unat (2 :: u32) * unat (1 :: u32).
      \<not> in_block (ucast (0x2000 :: u32)) (unat (2 :: u32) * unat (8 :: u32))
        (ucast (0x1000 :: u32) + of_nat (tile_byte 1 1 2 2 4 1 r k))"
    by (simp add: less_2_cases in_block_def b)
  moreover have "\<forall>r < unat (2 :: u32). \<forall>k < unat (2 :: u32) * unat (1 :: u32).
      \<not> in_block (ucast (0x3000 :: u32) + of_nat (tile_byte 1 1 2 2 4 1 0 0))
        (unat (2 :: u32) * (unat (4 :: u32) * unat (1 :: u32)))
        (ucast (0x2000 :: u32) + of_nat (r * unat (8 :: u32) + k))"
    by (simp add: less_2_cases in_block_def b)
  ultimately obtain s2 sch1' tx2 s3 s4 sch2' where
    r: "snrt_dma_wait_all sample_cfg (\<lambda>_ m. m) 0 [0] s1 = Some (s2, sch1')"
      "snrt_dma_store_2d_tile sample_cfg 0x3000 0x2000 1 1 2 2 4 1 8 s2 = (tx2, s3)"
      "snrt_dma_wait_all sample_cfg (\<lambda>_ m. m) 0 [1, 0] s3 = Some (s4, sch2')"
    and m: "\<forall>r < unat (2 :: u32). \<forall>k < unat (2 :: u32) * unat (1 :: u32).
        dm_mem s4 (ucast (0x3000 :: u32) + of_nat (tile_byte 1 1 2 2 4 1 r k))
        = dm_mem (sample_dma ucast) (ucast (0x1000 :: u32) + of_nat (tile_byte 1 1 2 2 4 1 r k))"
    using tile_roundtrip [OF sample_supports_dma sample_dma_idle(1,2) _ _ f _ _ _ _ l, of "[0]" "[1, 0]" "0x3000" "\<lambda>_ m. m"]
    by auto
  from m have "dm_mem s4 0x300e = 0x0e"
    by (simp add: less_2_cases b sample_dma_idle)
  with l tx r show ?thesis by blast
qed

text \<open>
  C5: \<open>snrt_dma_wait\<close> returns as soon as the engine has served the channel often enough, and then
  the transfer it waits for and every older one of the channel is done: what is still pending is
  a suffix of what was pending, and the completed identifier has reached \<open>txid\<close>.
\<close>

theorem dma_wait_returns:
  assumes "SUPPORTS_DMA c" and "unat channel < 8" and "chan_ok (dm_chan s channel)"
    and "txid < ch_next_id (dm_chan s channel)"
    and "unat txid \<le> unat (ch_completed_id (dm_chan s channel)) + count_list sch channel"
  shows "\<exists>s' sch' fin. snrt_dma_wait c coll txid channel sch s = Some (s', sch')
    \<and> txid \<le> ch_completed_id (dm_chan s' channel)
    \<and> ch_pending (dm_chan s channel) = fin @ ch_pending (dm_chan s' channel)
    \<and> unat (ch_completed_id (dm_chan s' channel))
        = unat (ch_completed_id (dm_chan s channel)) + length fin"
proof -
  let ?ready = "\<lambda>s. \<not> ch_completed_id (dm_chan s channel) < txid"
  have w: "snrt_dma_wait c coll txid channel sch s = dma_poll coll ?ready sch s"
    using assms(1) chan_sel(2) [of channel] assms(2) by (simp add: snrt_dma_wait_def dmstati_completed_def)
  define n where "n = unat (ch_next_id (dm_chan s channel)) - 1 - unat txid"
  have tx: "unat txid < unat (ch_next_id (dm_chan s channel))"
    using assms(4) by (simp add: word_less_nat_alt)
  have "\<exists>t sch'. dma_poll coll ?ready sch s = Some (t, sch')"
  proof (rule dma_poll_drains [of s channel n])
    show "length (ch_pending (dm_chan s channel)) \<le> n + count_list sch channel"
      using assms(3,5) tx by (simp add: chan_ok_def n_def)
    show "\<And>t. length (ch_pending (dm_chan t channel)) \<le> n \<Longrightarrow> chan_ok (dm_chan t channel) \<Longrightarrow>
      ch_next_id (dm_chan t channel) = ch_next_id (dm_chan s channel) \<Longrightarrow> ?ready t"
      using tx by (simp add: chan_ok_def n_def word_less_nat_alt)
  qed (rule assms(3))
  then obtain t sch' where t: "dma_poll coll ?ready sch s = Some (t, sch')" by blast
  from poll_history [OF t assms(3)] obtain fin where fin: "ch_pending (dm_chan s channel) = fin @ ch_pending (dm_chan t channel)"
    and ok: "chan_ok (dm_chan t channel)" "ch_next_id (dm_chan t channel) = ch_next_id (dm_chan s channel)"
    by blast
  have "unat (ch_completed_id (dm_chan t channel)) = unat (ch_completed_id (dm_chan s channel)) + length fin"
    using ok assms(3) fin by (simp add: chan_ok_def)
  with t w fin dma_poll_ready [OF t] show ?thesis by (auto simp: not_less)
qed

theorem dma_wait_returns_witness:
  "\<exists>s1 s2 s3 sch'. snrt_dma_start_1d sample_cfg 0x2000 0x1000 8 1 (sample_dma ucast) = (1, s1)
     \<and> snrt_dma_start_1d sample_cfg 0x3000 0x1000 8 1 s1 = (2, s2)
     \<and> snrt_dma_wait sample_cfg (\<lambda>_ m. m) 1 1 [0, 1] s2 = Some (s3, sch')
     \<and> 1 \<le> ch_completed_id (dm_chan s3 1)"
proof -
  obtain tx1 s1 where 1: "snrt_dma_start_1d sample_cfg 0x2000 0x1000 8 1 (sample_dma ucast) = (tx1, s1)"
    by (cases "snrt_dma_start_1d sample_cfg 0x2000 0x1000 8 1 (sample_dma ucast)")
  obtain tx2 s2 where 2: "snrt_dma_start_1d sample_cfg 0x3000 0x1000 8 1 s1 = (tx2, s2)"
    by (cases "snrt_dma_start_1d sample_cfg 0x3000 0x1000 8 1 s1")
  have e: "tx1 = 1" "tx2 = 2" "ch_next_id (dm_chan s2 1) = 3" "ch_completed_id (dm_chan s2 1) = 0"
    "length (ch_pending (dm_chan s2 1)) = 2"
    using 1 2 by (auto simp: snrt_dma_start_1d_def sample_supports_dma dmcpyi_def Let_def dmsrc_def
        dmdst_def sample_dma_def)
  have "chan_ok (dm_chan s2 1)" by (simp add: chan_ok_def e)
  from dma_wait_returns [OF sample_supports_dma _ this, of 1 "[0, 1]" "\<lambda>_ m. m"] 1 2 e
  show ?thesis by (auto simp: count_list.simps)
qed

text \<open>
  A multicast transfer carries the multicast user field and leaves none behind. After
  \<open>snrt_dma_start_1d_mcast\<close> exactly one transfer has been queued on the channel, from whose user
  field the hardware reads the multicast opcode and the mask, and the user field is 0 again, so
  the transfers started later are unicast.
\<close>

lemma mcast_user_field:
  assumes "SUPPORTS_DMA c" and "unat channel < 8"
    and "4 \<le> COLLECTIVE_OPCODE_WIDTH c" and "COLLECTIVE_OPCODE_WIDTH c \<le> 64"
    and "snrt_dma_start_1d_mcast c dst src n msk channel s = (txid, s')"
  shows "dm_user s' = 0 \<and> txid = ch_next_id (dm_chan s channel)
    \<and> (\<forall>ch. ch \<noteq> channel \<longrightarrow> dm_chan s' ch = dm_chan s ch)
    \<and> (\<exists>t. ch_pending (dm_chan s' channel) = ch_pending (dm_chan s channel) @ [t]
         \<and> tx_dst t = dst \<and> tx_src t = src \<and> tx_size t = n \<and> tx_repeat t = 1
         \<and> take_bit (COLLECTIVE_OPCODE_WIDTH c) (tx_user t) = opcode_value SNRT_COLLECTIVE_MULTICAST
         \<and> drop_bit (COLLECTIVE_OPCODE_WIDTH c) (tx_user t) = take_bit (64 - COLLECTIVE_OPCODE_WIDTH c) msk)"
proof -
  have sel: "drop_bit 2 (push_bit 2 channel OR 0) = channel" using chan_sel(2) [of channel] assms(2) by simp
  have bit1: "\<not> bit (push_bit 2 channel OR (0 :: u32)) 1" by (simp add: bit_push_bit_iff)
  have u: "join64 (ucast w) (ucast (drop_bit 32 w)) = w" for w
    using join64_lo_hi [of w] by (simp add: lo32_ucast hi32_def)
  have z: "join64 0 0 = 0" by (simp add: join64_def)
  show ?thesis
    using assms(1,5) sel bit1 collective_word_opcode [OF assms(3)] collective_word_mask [OF assms(4)]
    by (auto simp: snrt_dma_start_1d_mcast_def snrt_dma_enable_multicast_def snrt_dma_disable_multicast_def
        snrt_dma_set_awuser_def snrt_dma_start_1d_def dmcpyi_def dmuser_def dmsrc_def dmdst_def Let_def u z
        simp del: or.right_neutral)
qed

lemma mcast_user_field_witness:
  "\<exists>s'. snrt_dma_start_1d_mcast sample_cfg 0x2000 0x1000 8 0x40000 0 (sample_dma ucast) = (1, s')
     \<and> dm_user s' = 0 \<and> (\<exists>t. ch_pending (dm_chan s' 0) = [t] \<and> drop_bit 4 (tx_user t) = 0x40000)"
proof -
  obtain tx s' where r: "snrt_dma_start_1d_mcast sample_cfg 0x2000 0x1000 8 0x40000 0 (sample_dma ucast) = (tx, s')"
    by (cases "snrt_dma_start_1d_mcast sample_cfg 0x2000 0x1000 8 0x40000 0 (sample_dma ucast)")
  have w: "COLLECTIVE_OPCODE_WIDTH sample_cfg = 4" by (simp add: sample_cfg_def)
  have p: "ch_pending (dm_chan (sample_dma ucast) 0) = []" "ch_next_id (dm_chan (sample_dma ucast) 0) = 1"
    by (simp_all add: sample_dma_def)
  have t: "take_bit 60 (0x40000 :: u64) = 0x40000" by simp
  from mcast_user_field [OF sample_supports_dma _ _ _ r] r show ?thesis by (auto simp: w p t)
qed

text \<open>
  Reshaping into banks reads the wrong elements. For a contiguous array of 4 rows of 4
  doubles loaded into 8 banks (rows of 8 doubles in the TCDM), the second row in the banks should
  start with element 8 of the array; \<open>snrt_dma_load_2d_tile_in_banks\<close> puts element 4 there,
  because it keeps the row stride of the source.
\<close>

lemma in_banks_repeats_elements:
  "\<exists>tx s1 s2 sch. snrt_dma_load_2d_tile_in_banks sample_cfg 0x10000000 0x80000000 0 0 4 4 4 8 8 (sample_dma m) = (tx, s1)
     \<and> snrt_dma_wait_all sample_cfg coll 0 [0] s1 = Some (s2, sch)
     \<and> dm_mem s2 (0x10000000 + 0x100) = m (0x80000000 + 4 * 8)"
proof -
  let ?l = "snrt_dma_load_2d_tile_in_banks sample_cfg 0x10000000 0x80000000 0 0 4 4 4 8 8 (sample_dma m)"
  obtain tx s1 where l: "?l = (tx, s1)" by (cases ?l)
  then have st: "snrt_dma_start_2d sample_cfg 0x10000000 0x80000000 64 256 32 2 0 (sample_dma m) = (tx, s1)"
    by (simp add: snrt_dma_load_2d_tile_in_banks_def snrt_dma_load_2d_tile_def Let_def tile_offset_def
        ceil_div_def sample_cfg_def)
  obtain s2 sch where w: "snrt_dma_wait_all sample_cfg coll 0 [0] s1 = Some (s2, sch)"
    and mm: "dm_mem s2 = copy_2d 0x10000000 0x80000000 64 256 32 2 m"
    using start_2d_then_wait [OF sample_supports_dma sample_dma_idle(1,2) _ st, of "[0]" coll]
    by (auto simp: sample_dma_idle)
  have "dm_mem s2 = copy_2d 0x10000000 0x80000000 64 256 32 (Suc (Suc 0)) m"
    unfolding mm by (simp only: numeral_2_eq_2)
  then have "dm_mem s2 (0x10000000 + 0x100) = m (0x80000000 + 4 * 8)"
    by (simp add: copy_2d_Suc copy_1d_def in_block_def)
  with l w show ?thesis by blast
qed

end
