(* ===== verification/Sync.thy ===== *)
theory Sync
  imports Comm
begin

text \<open>
  The barriers between clusters of \<open>sw/runtime/src/sync.h\<close>: the enumeration of the clusters of a
  communicator, \<open>snrt_wake_clusters\<close>, and the barrier functions as lists of the events a core
  issues; the value an atomic increment returns is an argument.

  A communicator argument that may be \<open>NULL\<close> is an option; the world communicator of the core is
  the argument \<open>world\<close>.
\<close>

subsection \<open>Submask enumeration\<close>

text \<open>
  \<open>submask = 0; do { ... submask = (submask - 1) & mask; } while (submask != 0)\<close>: the body runs
  for 0 and then for the values of \<open>submasks_from\<close>.
\<close>

lemma pred_and_less: "s \<noteq> 0 \<Longrightarrow> unat ((s - 1) AND msk :: u32) < unat s"
proof -
  assume "s \<noteq> 0"
  then have "0 < unat s" by (simp add: unat_gt_0)
  then have "unat (s - 1) < unat s" by (subst unat_sub_no_ovf) simp_all
  moreover have "unat ((s - 1) AND msk) \<le> unat (s - 1)"
    using word_and_le2 [of "s - 1" msk] by (simp add: word_le_nat_alt)
  ultimately show ?thesis by linarith
qed

function submasks_from :: "u32 \<Rightarrow> u32 \<Rightarrow> u32 list" where
  "submasks_from msk s = (if s = 0 then [] else s # submasks_from msk ((s - 1) AND msk))"
  by auto
termination by (relation "measure (\<lambda>(msk, s). unat s)") (simp_all add: pred_and_less)

declare submasks_from.simps [simp del]

definition wake_submasks :: "u32 \<Rightarrow> u32 list" where
  "wake_submasks msk = 0 # submasks_from msk ((0 - 1) AND msk)"

text \<open>The clusters that \<open>snrt_wake_clusters\<close> writes to, in order.\<close>

definition wake_targets :: "u32 \<Rightarrow> snrt_comm_info \<Rightarrow> u32 list" where
  "wake_targets self comm =
     (let msk = cm_mask comm;
          fixed = cm_base comm AND NOT msk
      in filter (\<lambda>i. self \<noteq> i) (map (\<lambda>submask. fixed OR submask) (wake_submasks msk)))"

subsection \<open>Barrier functions\<close>

definition comm_or_world :: "snrt_comm_info option \<Rightarrow> snrt_comm_info \<Rightarrow> snrt_comm_info" where
  "comm_or_world comm world = (case comm of None \<Rightarrow> world | Some cm \<Rightarrow> cm)"

definition snrt_wake_clusters :: "snrt_cfg \<Rightarrow> u32 \<Rightarrow> snrt_comm_info \<Rightarrow> u32 \<Rightarrow> snrt_comm_info option
    \<Rightarrow> hw_event list" where
  "snrt_wake_clusters c h world core_mask comm0 =
     (let comm = comm_or_world comm0 world in
      if SUPPORTS_NARROW_MULTICAST c then
        (if snrt_cluster_num c > 0 then
           (let mcast_mask = ucast (snrt_get_collective_mask c comm) :: u32
            in snrt_enable_multicast c (ucast mcast_mask) @ [Ev_clint_set 0 (ucast core_mask)]
                 @ snrt_disable_multicast)
         else [])
      else concat (map (snrt_int_cluster_set_of core_mask) (wake_targets (snrt_cluster_idx c h) comm)))"

definition snrt_cluster_hw_barrier :: "hw_event list" where
  "snrt_cluster_hw_barrier = [Ev_barrier]"

definition snrt_inter_cluster_sw_barrier :: "snrt_cfg \<Rightarrow> u32 \<Rightarrow> snrt_comm_info
    \<Rightarrow> snrt_comm_info option \<Rightarrow> u32 \<Rightarrow> hw_event list" where
  "snrt_inter_cluster_sw_barrier c h world comm0 cnt =
     (let comm = comm_or_world comm0 world in
      if \<not> is_participant comm then []
      else [Ev_amoadd (barrier_ptr comm) 1]
        @ (if cnt = cm_size comm
           then [Ev_store32 (barrier_ptr comm) 0] @ snrt_fence
             @ snrt_wake_clusters c h world (bit_of (snrt_cluster_core_idx c h)) (Some comm)
           else snrt_wfi)
        @ snrt_int_clr_mcip c h)"

definition snrt_inter_cluster_barrier :: "snrt_cfg \<Rightarrow> u32 \<Rightarrow> snrt_comm_info
    \<Rightarrow> snrt_comm_info option \<Rightarrow> u32 \<Rightarrow> hw_event list" where
  "snrt_inter_cluster_barrier c h world comm0 cnt =
     (let comm = comm_or_world comm0 world in
      if \<not> is_participant comm then []
      else if SUPPORTS_NARROW_REDUCTION c then
        snrt_enable_reduction c (snrt_get_collective_mask c comm) SNRT_REDUCTION_BARRIER
          @ [Ev_store32 (barrier_ptr comm) 0] @ snrt_disable_reduction @ snrt_fence
      else snrt_inter_cluster_sw_barrier c h world (Some comm) cnt)"

definition snrt_global_sw_barrier :: "snrt_cfg \<Rightarrow> u32 \<Rightarrow> snrt_comm_info
    \<Rightarrow> snrt_comm_info option \<Rightarrow> u32 \<Rightarrow> hw_event list" where
  "snrt_global_sw_barrier c h world comm cnt =
     snrt_cluster_hw_barrier
     @ (if snrt_is_dm_core c h then snrt_inter_cluster_sw_barrier c h world comm cnt else [])
     @ snrt_cluster_hw_barrier"

definition snrt_global_barrier :: "snrt_cfg \<Rightarrow> u32 \<Rightarrow> snrt_comm_info
    \<Rightarrow> snrt_comm_info option \<Rightarrow> u32 \<Rightarrow> hw_event list" where
  "snrt_global_barrier c h world comm cnt =
     snrt_cluster_hw_barrier
     @ (if snrt_is_dm_core c h then snrt_inter_cluster_barrier c h world comm cnt else [])
     @ snrt_cluster_hw_barrier"

subsection \<open>The enumeration visits every submask once\<close>

definition submask :: "u32 \<Rightarrow> u32 \<Rightarrow> bool" where
  "submask msk s \<longleftrightarrow> s AND msk = s"

text \<open>Between a submask \<open>s\<close> and \<open>(s - 1) & mask\<close> there is no other submask.\<close>

lemma nat_submask_pred:
  fixes s t m :: nat
  assumes "s AND m = s" and "t AND m = t" and "t < s"
  shows "t \<le> (s - 1) AND m"
  using assms
proof (induction m arbitrary: s t rule: less_induct)
  case (less m)
  have m0: "m \<noteq> 0" using less.prems by (cases "m = 0") simp_all
  have half: "(x AND m) div 2 = (x div 2) AND (m div 2)" for x
    using drop_bit_and [of 1 x m] by (simp add: drop_bit_eq_div)
  have par: "odd (x AND m) \<longleftrightarrow> odd x \<and> odd m" for x by (simp add: even_and_iff)
  have s2: "(s div 2) AND (m div 2) = s div 2" and t2: "(t div 2) AND (m div 2) = t div 2"
    using less.prems half by metis+
  have tp: "odd t \<Longrightarrow> odd m" using less.prems(2) par by metis
  show ?case
  proof (cases "odd s")
    case True
    have "(s - 1) div 2 = s div 2" using True by presburger
    then have "((s - 1) AND m) div 2 = s div 2" using half s2 by simp
    moreover have "even ((s - 1) AND m)" using True par [of "s - 1"] by simp
    ultimately have "(s - 1) AND m = s - 1" using True by presburger
    with less.prems(3) show ?thesis by simp
  next
    case False
    have pos: "0 < s div 2" using False less.prems(3) by presburger
    have "(s - 1) div 2 = s div 2 - 1" using False by presburger
    then have h: "((s - 1) AND m) div 2 = (s div 2 - 1) AND (m div 2)" using half by simp
    have "odd ((s - 1) AND m) \<longleftrightarrow> odd m" using False par less.prems(3) by simp
    moreover have "t div 2 < s div 2" using False less.prems(3) by presburger
    then have "t div 2 \<le> (s div 2 - 1) AND (m div 2)"
      using less.IH [of "m div 2" "s div 2" "t div 2"] m0 s2 t2 by simp
    ultimately show ?thesis using h tp by presburger
  qed
qed


lemma submask_pred:
  assumes "submask msk s" and "submask msk t" and "t < s"
  shows "t \<le> (s - 1) AND msk"
proof -
  have "0 < unat s" using assms(3) by (simp add: word_less_nat_alt)
  then have u: "unat (s - 1) = unat s - 1" by (subst unat_sub_no_ovf) simp_all
  have "unat t \<le> (unat s - 1) AND unat msk"
    by (rule nat_submask_pred)
      (use assms in \<open>simp_all add: submask_def word_less_nat_alt flip: unsigned_and_eq\<close>)
  then show ?thesis by (simp add: word_le_nat_alt unsigned_and_eq u)
qed

lemma submask_and [simp]: "submask msk (x AND msk)"
  by (simp add: submask_def and.assoc)

lemma submasks_from_set:
  "submask msk s \<Longrightarrow> set (submasks_from msk s) = {t. submask msk t \<and> 0 < t \<and> t \<le> s}"
proof (induction msk s rule: submasks_from.induct)
  case (1 msk s)
  show ?case
  proof (cases "s = 0")
    case True
    then show ?thesis by (auto simp: submasks_from.simps)
  next
    case False
    let ?p = "(s - 1) AND msk"
    have lt: "?p < s" using pred_and_less [OF False] by (simp add: word_less_nat_alt)
    have "set (submasks_from msk s) = insert s {t. submask msk t \<and> 0 < t \<and> t \<le> ?p}"
      using 1 False by (simp add: submasks_from.simps [of msk s])
    moreover have "t \<le> s \<longleftrightarrow> t = s \<or> t \<le> ?p" if "submask msk t" for t
      using submask_pred [OF 1(2) that] lt by (auto simp: order_le_less dest: order_le_less_trans)
    ultimately show ?thesis using 1(2) False by (auto simp: word_gt_0)
  qed
qed

lemma submasks_from_distinct: "submask msk s \<Longrightarrow> distinct (submasks_from msk s)"
proof (induction msk s rule: submasks_from.induct)
  case (1 msk s)
  show ?case
  proof (cases "s = 0")
    case True
    then show ?thesis by (simp add: submasks_from.simps)
  next
    case False
    then have "(s - 1) AND msk < s" using pred_and_less by (simp add: word_less_nat_alt)
    then have "s \<notin> set (submasks_from msk ((s - 1) AND msk))"
      by (simp add: submasks_from_set not_le)
    then show ?thesis using 1 False by (simp add: submasks_from.simps [of msk s])
  qed
qed

lemma wake_submasks_set: "set (wake_submasks msk) = {s. submask msk s}"
proof -
  have "submask msk t \<Longrightarrow> t \<le> (0 - 1) AND msk" for t
    using word_and_le1 [of t msk] by (simp add: submask_def)
  then show ?thesis
    by (auto simp: wake_submasks_def submasks_from_set submask_def word_gt_0)
qed

lemma wake_submasks_distinct: "distinct (wake_submasks msk)"
  by (simp add: wake_submasks_def submasks_from_set submasks_from_distinct del: diff_0)

text \<open>A communicator of \<open>2 ^ k\<close> clusters starting at 0 wakes exactly its other clusters.\<close>

lemma submask_pow2: "k < 32 \<Longrightarrow> submask (2 ^ k - 1) s \<longleftrightarrow> unat s < 2 ^ k"
proof -
  assume k: "k < 32"
  have "submask (2 ^ k - 1) s \<longleftrightarrow> take_bit k s = s"
    by (simp add: submask_def take_bit_eq_mask mask_eq_exp_minus_1)
  also have "\<dots> \<longleftrightarrow> take_bit k (unat s) = unat s"
    by (metis unat_eqI unsigned_take_bit_eq)
  also have "\<dots> \<longleftrightarrow> unat s < 2 ^ k" by (simp add: take_bit_nat_eq_self_iff)
  finally show ?thesis .
qed

lemma wake_targets_set:
  assumes "cm_base comm = 0" and "cm_mask comm = 2 ^ k - 1" and "k < 32"
  shows "set (wake_targets self comm) = {j. unat j < 2 ^ k \<and> j \<noteq> self}"
    and "distinct (wake_targets self comm)"
proof -
  have "(OR) (0 :: u32) = id" by auto
  then show "set (wake_targets self comm) = {j. unat j < 2 ^ k \<and> j \<noteq> self}" "distinct (wake_targets self comm)"
    using assms wake_submasks_distinct [of "2 ^ k - 1"]
    by (auto simp: wake_targets_def Let_def wake_submasks_set submask_pow2)
qed

lemma clint_run_wake:
  "clint_run (map (\<lambda>i. Ev_clint_set i (ucast m)) js) p
     = (\<lambda>j. if j \<in> set js then p j OR m else p j)"
proof (induction js arbitrary: p)
  case Nil
  then show ?case by simp
next
  case (Cons i js)
  have "(x OR m) OR m = x OR m" for x :: u32 by (simp add: or.assoc)
  then show ?case
    by (auto simp: fun_eq_iff Cons.IH)
qed

subsection \<open>Multicast stores\<close>

text \<open>
  With multicast the interrupts are one store: as \<open>snrt_enable_multicast\<close> documents, a store that a core
  makes while its user field holds the multicast opcode goes to all addresses that agree with its own outside the
  mask of the user field. \<open>off\<close> is the offset of the register \<open>cl_clint_set\<close> in a cluster, which the generated
  address map gives. The state is the user field of the core and the pending interrupts.
\<close>

definition clint_addr :: "snrt_cfg \<Rightarrow> u32 \<Rightarrow> u32 \<Rightarrow> u64" where
  "clint_addr c off j = ucast (snrt_cluster_addr c j + off)"

fun coll_effect :: "snrt_cfg \<Rightarrow> u32 \<Rightarrow> hw_event \<Rightarrow> u64 \<times> pending \<Rightarrow> u64 \<times> pending" where
  "coll_effect c off (Ev_clint_set cl m) (u, p) =
     (u, if take_bit (COLLECTIVE_OPCODE_WIDTH c) u = opcode_value SNRT_COLLECTIVE_MULTICAST
         then (\<lambda>j. if (clint_addr c off j XOR clint_addr c off cl) AND NOT (drop_bit (COLLECTIVE_OPCODE_WIDTH c) u) = 0
                   then p j OR ucast m else p j)
         else clint_effect (Ev_clint_set cl m) p)"
| "coll_effect c off e (u, p) = (awuser_effect e u, clint_effect e p)"

definition coll_run :: "snrt_cfg \<Rightarrow> u32 \<Rightarrow> hw_event list \<Rightarrow> u64 \<times> pending \<Rightarrow> u64 \<times> pending" where
  "coll_run c off es up = fold (coll_effect c off) es up"

text \<open>
  The layout that makes a mask of the cluster index a mask of addresses: clusters of \<open>2 ^ m\<close> bytes from an
  address aligned to the \<open>2 ^ k\<close> clusters of the communicator, inside the 32-bit address space.
\<close>

definition mcast_layout :: "snrt_cfg \<Rightarrow> u32 \<Rightarrow> nat \<Rightarrow> nat \<Rightarrow> bool" where
  "mcast_layout c off m k \<longleftrightarrow> CLUSTER_OFFSET c = 2 ^ m \<and> m + k \<le> 32 \<and> m < 32 \<and> unat off < 2 ^ m
     \<and> unat (TCDM_START_ADDR c) mod 2 ^ (m + k) = 0
     \<and> 0 < CLUSTER_NUM c \<and> unat (TCDM_START_ADDR c) + unat (CLUSTER_NUM c) * 2 ^ m \<le> 2 ^ 32
     \<and> 4 \<le> COLLECTIVE_OPCODE_WIDTH c \<and> COLLECTIVE_OPCODE_WIDTH c \<le> 32"

lemma mcast_match:
  fixes x y :: u64
  shows "(x XOR y) AND NOT (push_bit m (mask k)) = 0
    \<longleftrightarrow> unat x mod 2 ^ m = unat y mod 2 ^ m \<and> unat x div 2 ^ (m + k) = unat y div 2 ^ (m + k)"
proof -
  have "(x XOR y) AND NOT (push_bit m (mask k)) = 0 \<longleftrightarrow> (\<forall>n < 64. n < m \<or> m + k \<le> n \<longrightarrow> bit x n = bit y n)"
    by (auto simp: bit_eq_iff bit_and_iff bit_xor_iff bit_not_iff bit_push_bit_iff bit_mask_iff possible_bit_word)
  also have "\<dots> \<longleftrightarrow> (\<forall>n. n < m \<longrightarrow> bit (unat x) n = bit (unat y) n) \<and> (\<forall>n. bit (unat x) (m + k + n) = bit (unat y) (m + k + n))"
    (is "?L \<longleftrightarrow> ?R")
  proof
    assume L: ?L
    show ?R
    proof (intro conjI allI impI)
      show "bit (unat x) n = bit (unat y) n" if "n < m" for n
        using L that by (cases "n < 64") (auto simp: bit_unsigned_iff dest: bit_imp_le_length)
      show "bit (unat x) (m + k + n) = bit (unat y) (m + k + n)" for n
        using L by (cases "m + k + n < 64") (auto simp: bit_unsigned_iff dest: bit_imp_le_length)
    qed
  next
    assume R: ?R
    show ?L
    proof (intro allI impI)
      fix n :: nat
      assume n: "n < 64" "n < m \<or> m + k \<le> n"
      have "bit (unat x) n = bit (unat y) n"
      proof (cases "n < m")
        case False
        then obtain i where "n = m + k + i" using n(2) le_iff_add by auto
        then show ?thesis using R by simp
      qed (use R in simp)
      then show "bit x n = bit y n" using n(1) by (simp add: bit_unsigned_iff)
    qed
  qed
  also have "(\<forall>n. n < m \<longrightarrow> bit (unat x) n = bit (unat y) n) \<longleftrightarrow> take_bit m (unat x) = take_bit m (unat y)"
    by (auto simp: bit_eq_iff bit_take_bit_iff)
  also have "(\<forall>n. bit (unat x) (m + k + n) = bit (unat y) (m + k + n)) \<longleftrightarrow> drop_bit (m + k) (unat x) = drop_bit (m + k) (unat y)"
    by (auto simp: bit_eq_iff bit_drop_bit_eq)
  finally show ?thesis by (simp add: take_bit_eq_mod drop_bit_eq_div)
qed

lemma clint_addr_unat:
  assumes "mcast_layout c off m k" and "unat j < unat (CLUSTER_NUM c)"
  shows "unat (clint_addr c off j) = unat (TCDM_START_ADDR c) + unat j * 2 ^ m + unat off"
proof -
  have L: "CLUSTER_OFFSET c = 2 ^ m" "m < 32" "unat off < 2 ^ m"
    "unat (TCDM_START_ADDR c) + unat (CLUSTER_NUM c) * 2 ^ m \<le> 2 ^ 32"
    using assms(1) by (simp_all add: mcast_layout_def)
  have "Suc (unat j) * 2 ^ m \<le> unat (CLUSTER_NUM c) * 2 ^ m" using assms(2) by (intro mult_le_mono1) simp
  then have b: "unat (TCDM_START_ADDR c) + unat j * 2 ^ m + unat off < 2 ^ 32" using L(3,4) by simp
  have p: "unat (2 ^ m :: u32) = 2 ^ m" using L(2) by (rule unat_pow2)
  have "unat (j * 2 ^ m) = unat j * 2 ^ m" using b p by (subst unat_mult_no_ovf) simp_all
  moreover have "unat (TCDM_START_ADDR c + j * 2 ^ m) = unat (TCDM_START_ADDR c) + unat j * 2 ^ m"
    using b calculation by (subst unat_add_no_ovf) simp_all
  ultimately have "unat (TCDM_START_ADDR c + j * 2 ^ m + off) = unat (TCDM_START_ADDR c) + unat j * 2 ^ m + unat off"
    using b by (subst unat_add_no_ovf) simp_all
  then show ?thesis by (simp add: clint_addr_def snrt_cluster_addr_def L(1) unsigned_ucast_eq take_bit_nat_eq_self)
qed

lemma mcast_reaches:
  assumes L: "mcast_layout c off m k" and j: "unat j < unat (CLUSTER_NUM c)"
  shows "(clint_addr c off j XOR clint_addr c off 0) AND NOT (push_bit m (mask k)) = 0 \<longleftrightarrow> unat j < 2 ^ k"
proof -
  let ?S = "unat (TCDM_START_ADDR c)" and ?o = "unat off"
  have o: "?o < 2 ^ m" and S: "?S mod 2 ^ (m + k) = 0" and n: "unat (0 :: u32) < unat (CLUSTER_NUM c)"
    using L by (simp_all add: mcast_layout_def word_less_nat_alt)
  obtain q where q: "?S = 2 ^ (m + k) * q" using S by auto
  have a: "unat (clint_addr c off j) = 2 ^ (m + k) * q + (unat j * 2 ^ m + ?o)"
    "unat (clint_addr c off 0) = 2 ^ (m + k) * q + ?o"
    using clint_addr_unat [OF L j] clint_addr_unat [OF L n] by (simp_all add: q)
  have o': "?o < 2 ^ (m + k)"
  proof -
    have "(2 :: nat) ^ m \<le> 2 ^ (m + k)" by (rule power_increasing) simp_all
    then show ?thesis using o by linarith
  qed
  have "unat (clint_addr c off j) mod 2 ^ m = unat (clint_addr c off 0) mod 2 ^ m"
    unfolding a by (simp add: power_add mult.assoc)
  moreover have "unat (clint_addr c off 0) div 2 ^ (m + k) = q" unfolding a using o' by simp
  moreover have "unat (clint_addr c off j) div 2 ^ (m + k) = q + (unat j * 2 ^ m + ?o) div 2 ^ (m + k)"
    unfolding a by simp
  moreover have "(unat j * 2 ^ m + ?o) div 2 ^ (m + k) = unat j div 2 ^ k"
    using o by (simp add: power_add div_mult2_eq)
  ultimately show ?thesis unfolding mcast_match by (simp add: div_eq_0_iff)
qed

lemma ucast_32_64: "ucast (ucast x :: u64) = (x :: u32)"
  by (rule bit_word_eqI) (simp add: bit_unsigned_iff)

lemma coll_run_append: "coll_run c off (es @ fs) up = coll_run c off fs (coll_run c off es up)"
  by (simp add: coll_run_def)

lemma coll_run_Cons: "coll_run c off (e # es) up = coll_run c off es (coll_effect c off e up)"
  by (simp add: coll_run_def)

lemma coll_run_awuser: "coll_run c off (snrt_set_awuser field) (u, p) = (field, p)"
  using awuser_after_set [of field u]
  by (simp add: coll_run_def snrt_set_awuser_def awuser_run_def)

lemma coll_run_unicast: "coll_run c off (map (\<lambda>i. Ev_clint_set i (ucast m)) js) (0, p)
    = (0, clint_run (map (\<lambda>i. Ev_clint_set i (ucast m)) js) p)"
  by (induction js arbitrary: p) (simp_all add: coll_run_def clint_run_def)

lemma mcast_mask:
  assumes L: "mcast_layout c off m k" and "cm_mask comm = 2 ^ k - 1"
  shows "drop_bit (COLLECTIVE_OPCODE_WIDTH c) (collective_word c SNRT_COLLECTIVE_MULTICAST
      (ucast (ucast (snrt_get_collective_mask c comm) :: u32))) = push_bit m (mask k)"
proof -
  have l: "CLUSTER_OFFSET c = 2 ^ m" "m + k \<le> 32" "COLLECTIVE_OPCODE_WIDTH c \<le> 32" using L by (simp_all add: mcast_layout_def)
  have e: "cm_mask comm * CLUSTER_OFFSET c = push_bit m (mask k)"
    by (simp add: assms(2) l(1) push_bit_eq_mult mask_eq_exp_minus_1)
  have "ucast (ucast (snrt_get_collective_mask c comm) :: u32) = (push_bit m (mask k) :: u64)"
    using l(2) by (auto simp: snrt_get_collective_mask_def e bit_eq_iff bit_unsigned_iff bit_push_bit_iff bit_mask_iff possible_bit_word)
  moreover have "take_bit (64 - COLLECTIVE_OPCODE_WIDTH c) (push_bit m (mask k)) = (push_bit m (mask k) :: u64)"
    using l by (auto simp: bit_eq_iff bit_take_bit_iff bit_push_bit_iff bit_mask_iff possible_bit_word)
  ultimately show ?thesis using l(3) by (simp add: collective_word_mask)
qed

definition sample_comm :: "u32 \<Rightarrow> snrt_comm_info" where
  "sample_comm n = \<lparr>barrier_ptr = 0x1000, cm_size = n, cm_mask = n - 1, cm_base = 0, is_participant = True\<rparr>"

text \<open>
  C8: \<open>snrt_wake_clusters\<close> terminates and sets the interrupts of exactly the clusters of the communicator:
  without multicast those but the caller's, with multicast the caller's too. On a communicator of
  \<open>2 ^ k\<close> clusters as \<open>snrt_comm_create\<close> makes it, the bits of \<open>core_mask\<close> become pending in these clusters,
  nothing changes in the others, and the user field is that of a plain store again.
\<close>

theorem wake_clusters_exact:
  assumes "cm_base comm = 0" and "cm_mask comm = 2 ^ k - 1" and "k < 32"
    and "SUPPORTS_NARROW_MULTICAST c \<Longrightarrow> mcast_layout c off m k" and "unat j < unat (CLUSTER_NUM c)"
    and "coll_run c off (snrt_wake_clusters c h world core_mask (Some comm)) (0, p) = (u, q)"
  shows "u = 0 \<and> q j = (if unat j < 2 ^ k \<and> (SUPPORTS_NARROW_MULTICAST c \<or> j \<noteq> snrt_cluster_idx c h)
                         then p j OR core_mask else p j)"
proof (cases "SUPPORTS_NARROW_MULTICAST c")
  case True
  note L = assms(4) [OF True]
  let ?w = "collective_word c SNRT_COLLECTIVE_MULTICAST (ucast (ucast (snrt_get_collective_mask c comm) :: u32))"
  have n: "0 < CLUSTER_NUM c" and w: "4 \<le> COLLECTIVE_OPCODE_WIDTH c" using L by (simp_all add: mcast_layout_def)
  have "(u, q) = coll_run c off snrt_disable_multicast (coll_effect c off (Ev_clint_set 0 (ucast core_mask)) (?w, p))"
    using assms(6) True n by (simp add: snrt_wake_clusters_def comm_or_world_def snrt_cluster_num_def Let_def
        coll_run_append coll_run_Cons snrt_enable_multicast_def coll_run_awuser del: coll_effect.simps)
  also have "coll_effect c off (Ev_clint_set 0 (ucast core_mask)) (?w, p)
    = (?w, \<lambda>j. if (clint_addr c off j XOR clint_addr c off 0) AND NOT (push_bit m (mask k)) = 0 then p j OR core_mask else p j)"
    using collective_word_opcode [OF w] mcast_mask [OF L assms(2)] by (simp add: ucast_32_64 cong: if_cong)
  finally show ?thesis
    using mcast_reaches [OF L assms(5)] True by (simp add: snrt_disable_multicast_def coll_run_awuser)
next
  case False
  have "(u, q) = (0, clint_run (map (\<lambda>i. Ev_clint_set i (ucast core_mask)) (wake_targets (snrt_cluster_idx c h) comm)) p)"
    using assms(6) False by (simp add: snrt_wake_clusters_def comm_or_world_def snrt_int_cluster_set_of_def [abs_def] coll_run_unicast)
  then show ?thesis using False wake_targets_set(1) [OF assms(1-3)] by (simp add: clint_run_wake)
qed

theorem wake_clusters_exact_witness:
  "snd (coll_run sample_cfg 0x20200 (snrt_wake_clusters sample_cfg (hart_of sample_cfg 1 8) (sample_comm 2) 256 (Some (sample_comm 2)))
     (0, \<lambda>_. 1)) 0 = 257
   \<and> snd (coll_run (sample_cfg\<lparr>SUPPORTS_NARROW_MULTICAST := True\<rparr>) 0x20200
     (snrt_wake_clusters (sample_cfg\<lparr>SUPPORTS_NARROW_MULTICAST := True\<rparr>) (hart_of sample_cfg 1 8) (sample_comm 2) 256 (Some (sample_comm 2)))
     (0, \<lambda>_. 1)) 1 = 257"
proof -
  let ?m = "sample_cfg\<lparr>SUPPORTS_NARROW_MULTICAST := True\<rparr>" and ?comm = "sample_comm 2" and ?h = "hart_of sample_cfg 1 8"
  have L: "mcast_layout ?m 0x20200 18 1" by (simp add: mcast_layout_def sample_cfg_def)
  have c: "cm_base ?comm = 0" "cm_mask ?comm = 2 ^ 1 - 1" by (simp_all add: sample_comm_def)
  obtain u q where 1: "coll_run sample_cfg 0x20200 (snrt_wake_clusters sample_cfg ?h ?comm 256 (Some ?comm)) (0, \<lambda>_. 1) = (u, q)"
    by (rule prod.exhaust)
  obtain u' q' where 2: "coll_run ?m 0x20200 (snrt_wake_clusters ?m ?h ?comm 256 (Some ?comm)) (0, \<lambda>_. 1) = (u', q')"
    by (rule prod.exhaust)
  have "q 0 = 257"
    using wake_clusters_exact [OF c _ _ _ 1, of 18 0] by (simp add: sample_cfg_def hart_of_def team_defs)
  moreover have "q' 1 = 257"
    using wake_clusters_exact [OF c _ L _ 2, of 1] by (simp add: sample_cfg_def)
  ultimately show ?thesis unfolding 1 2 by simp
qed

end
