(* ===== verification/Cluster_Barrier.thy ===== *)
theory Cluster_Barrier
  imports Sync
begin

text \<open>
  The software barrier between clusters, \<open>snrt_inter_cluster_sw_barrier\<close>, as interleaved steps of
  the data mover cores of the participating clusters (without multicast). One step is one access
  to the shared counter, one interrupt set, one test of the core's own interrupt by \<open>wfi\<close>, or its
  clearing.

  The locale \<open>wakes\<close> is what the barrier needs of \<open>snrt_wake_clusters\<close>: the last cluster wakes
  each other participant once. It holds for communicators of \<open>2 ^ k\<close> clusters.
\<close>

subsection \<open>Model\<close>

text \<open>
  \<open>Cb_wfi\<close>: counted and sleeping; \<open>Cb_reset\<close>: the last cluster before the reset of the counter;
  \<open>Cb_wake js\<close>: it still has to wake \<open>js\<close>; \<open>Cb_clear\<close>: before \<open>snrt_int_clr_mcip\<close>. \<open>cb_pend i\<close> is the
  pending interrupt of the data mover core of cluster \<open>i\<close>.
\<close>

datatype cbar_pc = Cb_out | Cb_wfi | Cb_reset | Cb_wake "nat list" | Cb_clear

record cbar =
  cb_cnt :: u32
  cb_pend :: "nat \<Rightarrow> bool"
  cb_pc :: "nat \<Rightarrow> cbar_pc"
  cb_done :: "nat \<Rightarrow> nat"

definition cbar_step :: "u32 \<Rightarrow> (nat \<Rightarrow> nat list) \<Rightarrow> nat \<Rightarrow> cbar \<Rightarrow> cbar" where
  "cbar_step size' targets i s =
     (case cb_pc s i of
        Cb_out \<Rightarrow>
          (let cnt = cb_cnt s + 1
           in s\<lparr>cb_cnt := cnt, cb_pc := (cb_pc s)(i := if cnt = size' then Cb_reset else Cb_wfi)\<rparr>)
      | Cb_reset \<Rightarrow> s\<lparr>cb_cnt := 0, cb_pc := (cb_pc s)(i := Cb_wake (targets i))\<rparr>
      | Cb_wake [] \<Rightarrow> s\<lparr>cb_pc := (cb_pc s)(i := Cb_clear)\<rparr>
      | Cb_wake (j # js) \<Rightarrow> s\<lparr>cb_pend := (cb_pend s)(j := True), cb_pc := (cb_pc s)(i := Cb_wake js)\<rparr>
      | Cb_wfi \<Rightarrow> (if cb_pend s i then s\<lparr>cb_pc := (cb_pc s)(i := Cb_clear)\<rparr> else s)
      | Cb_clear \<Rightarrow> s\<lparr>cb_pend := (cb_pend s)(i := False), cb_pc := (cb_pc s)(i := Cb_out),
                     cb_done := (cb_done s)(i := Suc (cb_done s i))\<rparr>)"

definition cbar_run :: "u32 \<Rightarrow> (nat \<Rightarrow> nat list) \<Rightarrow> nat list \<Rightarrow> cbar \<Rightarrow> cbar" where
  "cbar_run size' targets sched s = fold (cbar_step size' targets) sched s"

definition cbar_start :: cbar where
  "cbar_start = \<lparr>cb_cnt = 0, cb_pend = (\<lambda>_. False), cb_pc = (\<lambda>_. Cb_out), cb_done = (\<lambda>_. 0)\<rparr>"

text \<open>The clusters that the barrier of a communicator wakes, as the code computes them.\<close>

definition comm_targets :: "snrt_comm_info \<Rightarrow> nat \<Rightarrow> nat list" where
  "comm_targets comm i = map unat (wake_targets (of_nat i) comm)"

subsection \<open>Invariant\<close>

definition counted :: "nat \<Rightarrow> nat \<Rightarrow> cbar \<Rightarrow> nat set" where
  "counted P R s = {i. i < P \<and> cb_done s i = R \<and> (cb_pc s i = Cb_wfi \<or> cb_pc s i = Cb_reset)}"

text \<open>A cluster to be woken: it sleeps in the old round \<open>R - 1\<close> and its interrupt is not yet set.\<close>

definition asleep :: "nat \<Rightarrow> nat \<Rightarrow> cbar \<Rightarrow> nat \<Rightarrow> bool" where
  "asleep P R s i \<longleftrightarrow> i < P \<and> cb_pc s i = Cb_wfi \<and> Suc (cb_done s i) = R \<and> \<not> cb_pend s i"

fun cpc_ok :: "nat \<Rightarrow> nat \<Rightarrow> cbar \<Rightarrow> nat \<Rightarrow> cbar_pc \<Rightarrow> bool" where
  "cpc_ok P R s i Cb_out \<longleftrightarrow> cb_done s i = R \<and> \<not> cb_pend s i"
| "cpc_ok P R s i Cb_wfi \<longleftrightarrow> (cb_done s i = R \<and> \<not> cb_pend s i)
     \<or> (Suc (cb_done s i) = R \<and> (cb_pend s i \<or> (\<exists>w < P. \<exists>js. cb_pc s w = Cb_wake js \<and> i \<in> set js)))"
| "cpc_ok P R s i Cb_reset \<longleftrightarrow> cb_done s i = R \<and> \<not> cb_pend s i
     \<and> (\<forall>k < P. k \<noteq> i \<longrightarrow> cb_pc s k = Cb_wfi \<and> cb_done s k = R)"
| "cpc_ok P R s i (Cb_wake js) \<longleftrightarrow> Suc (cb_done s i) = R \<and> distinct js \<and> (\<forall>j \<in> set js. asleep P R s j)
     \<and> (\<forall>k < P. k \<noteq> i \<longrightarrow> (\<forall>ks. cb_pc s k \<noteq> Cb_wake ks))"
| "cpc_ok P R s i Cb_clear \<longleftrightarrow> Suc (cb_done s i) = R"

definition cbar_inv :: "nat \<Rightarrow> nat \<Rightarrow> cbar \<Rightarrow> bool" where
  "cbar_inv P R s \<longleftrightarrow> (\<forall>i < P. cpc_ok P R s i (cb_pc s i))
     \<and> unat (cb_cnt s) = card (counted P R s)
     \<and> ((\<forall>i < P. cb_pc s i \<noteq> Cb_reset) \<longrightarrow> card (counted P R s) < P)"

lemma cbar_invI:
  assumes "\<And>i. i < P \<Longrightarrow> cpc_ok P R s i (cb_pc s i)"
    and "unat (cb_cnt s) = card (counted P R s)"
    and "(\<And>i. i < P \<Longrightarrow> cb_pc s i \<noteq> Cb_reset) \<Longrightarrow> card (counted P R s) < P"
  shows "cbar_inv P R s"
  using assms by (simp add: cbar_inv_def)

lemma cbar_invD:
  assumes "cbar_inv P R s"
  shows "i < P \<Longrightarrow> cpc_ok P R s i (cb_pc s i)"
    and "unat (cb_cnt s) = card (counted P R s)"
    and "(\<And>i. i < P \<Longrightarrow> cb_pc s i \<noteq> Cb_reset) \<Longrightarrow> card (counted P R s) < P"
  using assms by (simp_all add: cbar_inv_def)

lemma cbar_start_inv: "0 < P \<Longrightarrow> cbar_inv P 0 cbar_start"
  by (simp add: cbar_inv_def cbar_start_def counted_def)

text \<open>A cluster that is neither sleeping nor resetting shows that nobody resets.\<close>

lemma no_reset:
  assumes inv: "cbar_inv P R s" and "i < P" and "cb_pc s i \<noteq> Cb_wfi" and "cb_pc s i \<noteq> Cb_reset"
    and "k < P"
  shows "cb_pc s k \<noteq> Cb_reset"
proof
  assume "cb_pc s k = Cb_reset"
  with cbar_invD(1) [OF inv assms(5)] assms(2-4) show False by auto
qed

lemma finite_counted [simp]: "finite (counted P R s)"
  by (simp add: counted_def)

lemma counted_subset: "counted P R s \<subseteq> {..<P}"
  by (auto simp: counted_def)

subsection \<open>Preservation\<close>

lemma cstep_out:
  assumes inv: "cbar_inv P R s" and n: "unat n = P" and i: "i < P" and pc: "cb_pc s i = Cb_out"
  shows "cbar_inv P R (cbar_step n T i s)"
proof -
  let ?t = "cbar_step n T i s" and ?C = "counted P R s"
  note I = cbar_invD [OF inv]
  have no: "cb_pc s k \<noteq> Cb_reset" if "k < P" for k
    using no_reset [OF inv i _ _ that] pc by simp
  have di: "cb_done s i = R" "\<not> cb_pend s i" using I(1) [OF i] pc by simp_all
  have lt: "card ?C < P" using I(3) no by blast
  have P32: "P < 2 ^ 32" using n unat_lt_pow32 [of n] by simp
  have cnt: "unat (cb_cnt s + 1) = Suc (card ?C)"
    using I(2) lt P32 by (subst unat_add_no_ovf) simp_all
  have last: "cb_cnt s + 1 = n \<longleftrightarrow> Suc (card ?C) = P" using cnt n by (metis unat_eqI)
  have t: "cb_cnt ?t = cb_cnt s + 1" "cb_pend ?t = cb_pend s" "cb_done ?t = cb_done s"
    "cb_pc ?t = (cb_pc s)(i := if cb_cnt s + 1 = n then Cb_reset else Cb_wfi)"
    using pc by (simp_all add: cbar_step_def Let_def)
  have ni: "i \<notin> ?C" using pc by (simp add: counted_def)
  have set: "counted P R ?t = insert i ?C"
  proof (rule set_eqI)
    fix k
    show "k \<in> counted P R ?t \<longleftrightarrow> k \<in> insert i ?C"
      using di i by (cases "k = i") (simp_all add: counted_def t)
  qed
  have card: "card (counted P R ?t) = Suc (card ?C)" unfolding set using ni by simp
  have all: "cb_pc s k = Cb_wfi \<and> cb_done s k = R" if "cb_cnt s + 1 = n" "k < P" "k \<noteq> i" for k
  proof -
    have "card (insert i ?C) = card {..<P}" using that(1) last ni by simp
    moreover have "insert i ?C \<subseteq> {..<P}" using i counted_subset by auto
    ultimately have "insert i ?C = {..<P}" by (metis card_subset_eq finite_lessThan)
    then have "k \<in> ?C" using that(2,3) by blast
    then show ?thesis using no [OF that(2)] by (auto simp: counted_def)
  qed
  have asl: "asleep P R ?t k" if "asleep P R s k" for k
  proof -
    have "k \<noteq> i" using that pc by (auto simp: asleep_def)
    then show ?thesis using that by (simp add: asleep_def t)
  qed
  have wk: "\<exists>w < P. \<exists>js. cb_pc ?t w = Cb_wake js \<and> k \<in> set js"
    if "w < P" "cb_pc s w = Cb_wake js" "k \<in> set js" for k w js
  proof -
    have "w \<noteq> i" using that(2) pc by auto
    then have "cb_pc ?t w = Cb_wake js" using that(2) by (simp add: t)
    then show ?thesis using that(1,3) by blast
  qed
  show ?thesis
  proof (rule cbar_invI)
    fix k
    assume k: "k < P"
    show "cpc_ok P R ?t k (cb_pc ?t k)"
    proof (cases "k = i")
      case True
      then show ?thesis using di all by (auto simp: t)
    next
      case False
      then have e: "cb_pc ?t k = cb_pc s k" by (simp add: t)
      note ok = I(1) [OF k]
      show ?thesis unfolding e
      proof (cases "cb_pc s k")
        case Cb_wfi
        show "cpc_ok P R ?t k (cb_pc s k)"
          using ok wk unfolding Cb_wfi cpc_ok.simps(2) t(2,3) by blast
      next
        case (Cb_wake js)
        show "cpc_ok P R ?t k (cb_pc s k)"
          using ok asl unfolding Cb_wake by (simp add: t)
      qed (use ok no [OF k] in \<open>simp_all add: t\<close>)
    qed
  next
    show "unat (cb_cnt ?t) = card (counted P R ?t)" unfolding card t(1) by (rule cnt)
    assume "\<And>k. k < P \<Longrightarrow> cb_pc ?t k \<noteq> Cb_reset"
    from this [OF i] have "cb_cnt s + 1 \<noteq> n" by (auto simp: t)
    then show "card (counted P R ?t) < P" unfolding card using last lt by simp
  qed
qed


lemma cstep_reset:
  assumes inv: "cbar_inv P R s" and i: "i < P" and pc: "cb_pc s i = Cb_reset"
    and T: "set (T i) = {..<P} - {i}" "distinct (T i)"
  shows "cbar_inv P (Suc R) (cbar_step n T i s)"
proof -
  let ?t = "cbar_step n T i s"
  note I = cbar_invD [OF inv]
  have t: "cb_cnt ?t = 0" "cb_pend ?t = cb_pend s" "cb_done ?t = cb_done s"
    "cb_pc ?t = (cb_pc s)(i := Cb_wake (T i))"
    using pc by (simp_all add: cbar_step_def)
  have ii: "cb_done s i = R" "\<not> cb_pend s i"
    and others: "\<And>k. k < P \<Longrightarrow> k \<noteq> i \<Longrightarrow> cb_pc s k = Cb_wfi \<and> cb_done s k = R"
    using I(1) [OF i] pc by simp_all
  have np: "\<not> cb_pend s k" if "k < P" "k \<noteq> i" for k
    using I(1) [OF that(1)] others [OF that] by auto
  have d: "cb_done s k = R" if "k < P" for k using that ii others by (cases "k = i") simp_all
  then have none: "counted P (Suc R) ?t = {}" by (auto simp: counted_def t)
  show ?thesis
  proof (rule cbar_invI)
    fix k
    assume k: "k < P"
    show "cpc_ok P (Suc R) ?t k (cb_pc ?t k)"
    proof (cases "k = i")
      case True
      have "asleep P (Suc R) ?t j" if "j \<in> set (T i)" for j
        using that others [of j] np [of j] by (simp add: T asleep_def t)
      then show ?thesis using True T(2) ii others by (auto simp: t)
    next
      case False
      then have "k \<in> set (T i)" using k T by simp
      then show ?thesis using False k i others [OF k False] by (auto simp: t)
    qed
  next
    show "unat (cb_cnt ?t) = card (counted P (Suc R) ?t)" unfolding none by (simp add: t)
    show "card (counted P (Suc R) ?t) < P" unfolding none using i by simp
  qed
qed

text \<open>Steps of a cluster in the old round change neither the counter nor who is counted.\<close>

lemma counted_frame:
  assumes "cb_cnt t = cb_cnt s" and "\<And>k. k < P \<Longrightarrow> k \<in> counted P R t \<longleftrightarrow> k \<in> counted P R s"
    and "cbar_inv P R s" and "i < P" and "cb_pc s i \<noteq> Cb_reset" and "cb_done s i \<noteq> R"
  shows "unat (cb_cnt t) = card (counted P R t)" and "card (counted P R t) < P"
proof -
  have e: "counted P R t = counted P R s"
    using assms(2) counted_subset [of P R] by blast
  show "unat (cb_cnt t) = card (counted P R t)" using e assms(1) cbar_invD(2) [OF assms(3)] by simp
  have "i \<notin> counted P R s" using assms(6) by (simp add: counted_def)
  then have "counted P R s \<subset> {..<P}" using counted_subset assms(4) by auto
  then have "card (counted P R s) < card {..<P}" by (intro psubset_card_mono) simp_all
  then show "card (counted P R t) < P" using e by simp
qed

lemma cstep_wake_nil:
  assumes inv: "cbar_inv P R s" and i: "i < P" and pc: "cb_pc s i = Cb_wake []"
  shows "cbar_inv P R (cbar_step n T i s)"
proof -
  let ?t = "cbar_step n T i s"
  note I = cbar_invD [OF inv]
  have t: "cb_cnt ?t = cb_cnt s" "cb_pend ?t = cb_pend s" "cb_done ?t = cb_done s"
    "cb_pc ?t = (cb_pc s)(i := Cb_clear)"
    using pc by (simp_all add: cbar_step_def)
  have ii: "Suc (cb_done s i) = R" and uniq: "\<And>k ks. k < P \<Longrightarrow> k \<noteq> i \<Longrightarrow> cb_pc s k \<noteq> Cb_wake ks"
    using I(1) [OF i] pc by simp_all
  show ?thesis
  proof (rule cbar_invI)
    fix k
    assume k: "k < P"
    note ok = I(1) [OF k]
    show "cpc_ok P R ?t k (cb_pc ?t k)"
    proof (cases "k = i")
      case True
      then show ?thesis using ii by (simp add: t)
    next
      case False
      then have e: "cb_pc ?t k = cb_pc s k" by (simp add: t)
      show ?thesis unfolding e
      proof (cases "cb_pc s k")
        case Cb_wfi
        have "\<not> (\<exists>w < P. \<exists>js. cb_pc s w = Cb_wake js \<and> k \<in> set js)"
        proof
          assume "\<exists>w < P. \<exists>js. cb_pc s w = Cb_wake js \<and> k \<in> set js"
          then obtain w js where w: "w < P" "cb_pc s w = Cb_wake js" "k \<in> set js" by blast
          then have "w = i" using uniq by blast
          then show False using w pc by simp
        qed
        then show "cpc_ok P R ?t k (cb_pc s k)"
          using ok unfolding Cb_wfi cpc_ok.simps(2) t(2,3) by blast
      next
        case (Cb_wake js)
        then show "cpc_ok P R ?t k (cb_pc s k)" using uniq [OF k False] by blast
      next
        case Cb_reset
        then show "cpc_ok P R ?t k (cb_pc s k)" using ok ii i False by auto
      qed (use ok in \<open>simp_all add: t\<close>)
    qed
  next
    have c: "k \<in> counted P R ?t \<longleftrightarrow> k \<in> counted P R s" for k
      using pc by (cases "k = i") (simp_all add: counted_def t)
    have "cb_pc s i \<noteq> Cb_reset" "cb_done s i \<noteq> R" using pc ii by simp_all
    from counted_frame [OF t(1) c inv i this]
    show "unat (cb_cnt ?t) = card (counted P R ?t)" "card (counted P R ?t) < P" by blast+
  qed
qed

lemma cstep_wake_cons:
  assumes inv: "cbar_inv P R s" and i: "i < P" and pc: "cb_pc s i = Cb_wake (j # js)"
  shows "cbar_inv P R (cbar_step n T i s)"
proof -
  let ?t = "cbar_step n T i s"
  note I = cbar_invD [OF inv]
  have t: "cb_cnt ?t = cb_cnt s" "cb_pend ?t = (cb_pend s)(j := True)" "cb_done ?t = cb_done s"
    "cb_pc ?t = (cb_pc s)(i := Cb_wake js)"
    using pc by (simp_all add: cbar_step_def)
  have ii: "Suc (cb_done s i) = R" "distinct (j # js)" "\<And>x. x \<in> set (j # js) \<Longrightarrow> asleep P R s x"
    and uniq: "\<And>k ks. k < P \<Longrightarrow> k \<noteq> i \<Longrightarrow> cb_pc s k \<noteq> Cb_wake ks"
    using I(1) [OF i] pc by auto
  have aj: "cb_pc s j = Cb_wfi" "Suc (cb_done s j) = R" "j < P" using ii(3) [of j] by (simp_all add: asleep_def)
  have ij: "j \<noteq> i" using aj pc by auto
  show ?thesis
  proof (rule cbar_invI)
    fix k
    assume k: "k < P"
    note ok = I(1) [OF k]
    show "cpc_ok P R ?t k (cb_pc ?t k)"
    proof (cases "k = i")
      case True
      have "asleep P R ?t x" if "x \<in> set js" for x
      proof -
        have "asleep P R s x" "x \<noteq> j" using ii(2,3) that by auto
        moreover have "x \<noteq> i" using \<open>asleep P R s x\<close> pc by (auto simp: asleep_def)
        ultimately show ?thesis by (simp add: asleep_def t)
      qed
      then show ?thesis using True ii uniq by (simp add: t)
    next
      case False
      then have e: "cb_pc ?t k = cb_pc s k" by (simp add: t)
      show ?thesis unfolding e
      proof (cases "cb_pc s k")
        case Cb_wfi
        show "cpc_ok P R ?t k (cb_pc s k)"
        proof (cases "k = j")
          case True
          then show ?thesis unfolding Cb_wfi using aj by (simp add: t)
        next
          case kj: False
          have "\<exists>w < P. \<exists>ks. cb_pc ?t w = Cb_wake ks \<and> k \<in> set ks"
            if ex: "\<exists>w < P. \<exists>ks. cb_pc s w = Cb_wake ks \<and> k \<in> set ks"
          proof -
            from ex obtain w ks where w: "w < P" "cb_pc s w = Cb_wake ks" "k \<in> set ks" by blast
            then have "w = i" using uniq by blast
            then have "k \<in> set js" using w pc kj by auto
            then show ?thesis using i by (auto simp: t)
          qed
          moreover have "cb_pend ?t k = cb_pend s k" using kj by (simp add: t)
          ultimately show ?thesis using ok unfolding Cb_wfi cpc_ok.simps(2) t(3) by blast
        qed
      next
        case (Cb_wake ks)
        then show "cpc_ok P R ?t k (cb_pc s k)" using uniq [OF k False] by blast
      next
        case Cb_reset
        then show "cpc_ok P R ?t k (cb_pc s k)" using ok ii(1) i False by auto
      qed (use ok aj in \<open>auto simp: t\<close>)
    qed
  next
    have c: "k \<in> counted P R ?t \<longleftrightarrow> k \<in> counted P R s" for k
      using pc by (cases "k = i") (simp_all add: counted_def t)
    have "cb_pc s i \<noteq> Cb_reset" "cb_done s i \<noteq> R" using pc ii by simp_all
    from counted_frame [OF t(1) c inv i this]
    show "unat (cb_cnt ?t) = card (counted P R ?t)" "card (counted P R ?t) < P" by blast+
  qed
qed


lemma cstep_wfi:
  assumes inv: "cbar_inv P R s" and i: "i < P" and pc: "cb_pc s i = Cb_wfi"
  shows "cbar_inv P R (cbar_step n T i s)"
proof (cases "cb_pend s i")
  case False
  then show ?thesis using inv pc by (simp add: cbar_step_def)
next
  case True
  let ?t = "cbar_step n T i s"
  note I = cbar_invD [OF inv]
  have t: "cb_cnt ?t = cb_cnt s" "cb_pend ?t = cb_pend s" "cb_done ?t = cb_done s"
    "cb_pc ?t = (cb_pc s)(i := Cb_clear)"
    using pc True by (simp_all add: cbar_step_def)
  have ii: "Suc (cb_done s i) = R" using I(1) [OF i] pc True by simp
  have na: "\<not> asleep P R s i" using True by (simp add: asleep_def)
  have asl: "asleep P R ?t k" if "asleep P R s k" for k
  proof -
    have "k \<noteq> i" using that na by blast
    then show ?thesis using that by (simp add: asleep_def t)
  qed
  have wk: "\<exists>w < P. \<exists>js. cb_pc ?t w = Cb_wake js \<and> k \<in> set js"
    if "w < P" "cb_pc s w = Cb_wake js" "k \<in> set js" for k w js
  proof -
    have "w \<noteq> i" using that(2) pc by auto
    then have "cb_pc ?t w = Cb_wake js" using that(2) by (simp add: t)
    then show ?thesis using that(1,3) by blast
  qed
  show ?thesis
  proof (rule cbar_invI)
    fix k
    assume k: "k < P"
    note ok = I(1) [OF k]
    show "cpc_ok P R ?t k (cb_pc ?t k)"
    proof (cases "k = i")
      case True
      then show ?thesis using ii by (simp add: t)
    next
      case False
      then have e: "cb_pc ?t k = cb_pc s k" by (simp add: t)
      show ?thesis unfolding e
      proof (cases "cb_pc s k")
        case Cb_wfi
        show "cpc_ok P R ?t k (cb_pc s k)"
          using ok wk unfolding Cb_wfi cpc_ok.simps(2) t(2,3) by blast
      next
        case (Cb_wake js)
        show "cpc_ok P R ?t k (cb_pc s k)" using ok asl unfolding Cb_wake by (simp add: t)
      next
        case Cb_reset
        then show "cpc_ok P R ?t k (cb_pc s k)" using ok ii i False by auto
      qed (use ok in \<open>simp_all add: t\<close>)
    qed
  next
    have c: "k \<in> counted P R ?t \<longleftrightarrow> k \<in> counted P R s" for k
      using ii by (cases "k = i") (simp_all add: counted_def t)
    have "cb_pc s i \<noteq> Cb_reset" "cb_done s i \<noteq> R" using pc ii by simp_all
    from counted_frame [OF t(1) c inv i this]
    show "unat (cb_cnt ?t) = card (counted P R ?t)" "card (counted P R ?t) < P" by blast+
  qed
qed

lemma cstep_clear:
  assumes inv: "cbar_inv P R s" and i: "i < P" and pc: "cb_pc s i = Cb_clear"
  shows "cbar_inv P R (cbar_step n T i s)"
proof -
  let ?t = "cbar_step n T i s"
  note I = cbar_invD [OF inv]
  have t: "cb_cnt ?t = cb_cnt s" "cb_pend ?t = (cb_pend s)(i := False)"
    "cb_done ?t = (cb_done s)(i := Suc (cb_done s i))" "cb_pc ?t = (cb_pc s)(i := Cb_out)"
    using pc by (simp_all add: cbar_step_def)
  have ii: "Suc (cb_done s i) = R" using I(1) [OF i] pc by simp
  have asl: "asleep P R ?t k" if "asleep P R s k" for k
  proof -
    have "k \<noteq> i" using that pc by (auto simp: asleep_def)
    then show ?thesis using that by (simp add: asleep_def t)
  qed
  have wk: "\<exists>w < P. \<exists>js. cb_pc ?t w = Cb_wake js \<and> k \<in> set js"
    if "w < P" "cb_pc s w = Cb_wake js" "k \<in> set js" for k w js
  proof -
    have "w \<noteq> i" using that(2) pc by auto
    then have "cb_pc ?t w = Cb_wake js" using that(2) by (simp add: t)
    then show ?thesis using that(1,3) by blast
  qed
  show ?thesis
  proof (rule cbar_invI)
    fix k
    assume k: "k < P"
    note ok = I(1) [OF k]
    show "cpc_ok P R ?t k (cb_pc ?t k)"
    proof (cases "k = i")
      case True
      then show ?thesis using ii by (simp add: t)
    next
      case False
      then have e: "cb_pc ?t k = cb_pc s k" "cb_pend ?t k = cb_pend s k" "cb_done ?t k = cb_done s k"
        by (simp_all add: t)
      show ?thesis unfolding e(1)
      proof (cases "cb_pc s k")
        case Cb_wfi
        show "cpc_ok P R ?t k (cb_pc s k)"
          using ok wk unfolding Cb_wfi cpc_ok.simps(2) e(2,3) by blast
      next
        case (Cb_wake js)
        show "cpc_ok P R ?t k (cb_pc s k)" using ok asl e unfolding Cb_wake by (simp add: t)
      next
        case Cb_reset
        then show "cpc_ok P R ?t k (cb_pc s k)" using ok ii i False pc by auto
      qed (use ok e in \<open>simp_all add: t\<close>)
    qed
  next
    have c: "k \<in> counted P R ?t \<longleftrightarrow> k \<in> counted P R s" for k
      using pc by (cases "k = i") (simp_all add: counted_def t)
    have "cb_pc s i \<noteq> Cb_reset" "cb_done s i \<noteq> R" using pc ii by simp_all
    from counted_frame [OF t(1) c inv i this]
    show "unat (cb_cnt ?t) = card (counted P R ?t)" "card (counted P R ?t) < P" by blast+
  qed
qed

subsection \<open>What the barrier needs of the wake-up\<close>

locale wakes =
  fixes size' :: u32
    and targets :: "nat \<Rightarrow> nat list"
  assumes size_pos: "0 < unat size'"
    and targets_set: "i < unat size' \<Longrightarrow> set (targets i) = {..<unat size'} - {i}"
    and targets_distinct: "i < unat size' \<Longrightarrow> distinct (targets i)"
begin

lemma step_inv:
  assumes "cbar_inv (unat size') R s" and "i < unat size'"
  shows "\<exists>R'. cbar_inv (unat size') R' (cbar_step size' targets i s)"
proof (cases "cb_pc s i")
  case Cb_out
  then show ?thesis using cstep_out assms by blast
next
  case Cb_wfi
  then show ?thesis using cstep_wfi assms by blast
next
  case Cb_reset
  then show ?thesis using cstep_reset assms targets_set targets_distinct by blast
next
  case (Cb_wake js)
  then show ?thesis using cstep_wake_nil cstep_wake_cons assms by (cases js) blast+
next
  case Cb_clear
  then show ?thesis using cstep_clear assms by blast
qed

lemma run_inv:
  assumes "set sched \<subseteq> {..<unat size'}"
  shows "\<exists>R. cbar_inv (unat size') R (cbar_run size' targets sched cbar_start)"
proof -
  have "\<exists>R'. cbar_inv (unat size') R' (fold (cbar_step size' targets) sched s)"
    if "cbar_inv (unat size') R s" for R s
    using assms that
  proof (induction sched arbitrary: s R)
    case Nil
    then show ?case by auto
  next
    case (Cons i sched)
    then obtain R' where "cbar_inv (unat size') R' (cbar_step size' targets i s)"
      using step_inv [OF Cons.prems(2), of i] by auto
    with Cons show ?case by simp
  qed
  with cbar_start_inv [OF size_pos] show ?thesis by (auto simp: cbar_run_def)
qed

lemma rounds:
  assumes "set sched \<subseteq> {..<unat size'}" and "s = cbar_run size' targets sched cbar_start"
    and "i < unat size'" and "k < unat size'"
  shows "cb_done s i \<le> Suc (cb_done s k)" and "cb_done s k < cb_done s i \<Longrightarrow> cb_pc s k \<noteq> Cb_out"
    and "\<forall>j < unat size'. cb_pc s j \<noteq> Cb_out \<Longrightarrow> \<exists>j < unat size'. cbar_step size' targets j s \<noteq> s"
proof -
  obtain R where inv: "cbar_inv (unat size') R s" using run_inv [OF assms(1)] assms(2) by blast
  have d: "cb_done s x = R \<or> (Suc (cb_done s x) = R \<and> cb_pc s x \<noteq> Cb_out)" if "x < unat size'" for x
    using cbar_invD(1) [OF inv that] by (cases "cb_pc s x") auto
  show "cb_done s i \<le> Suc (cb_done s k)" using d [OF assms(3)] d [OF assms(4)] by auto
  show "cb_done s k < cb_done s i \<Longrightarrow> cb_pc s k \<noteq> Cb_out"
    using d [OF assms(3)] d [OF assms(4)] by auto
  assume no: "\<forall>j < unat size'. cb_pc s j \<noteq> Cb_out"
  show "\<exists>j < unat size'. cbar_step size' targets j s \<noteq> s"
  proof (rule ccontr)
    assume "\<not> ?thesis"
    then have stuck: "cbar_step size' targets j s = s" if "j < unat size'" for j using that by blast
    have w: "cb_pc s j = Cb_wfi \<and> \<not> cb_pend s j" if "j < unat size'" for j
    proof -
      have "cb_pc (cbar_step size' targets j s) j = cb_pc s j" using stuck [OF that] by simp
      then show ?thesis using no that
        by (cases "cb_pc s j") (auto simp: cbar_step_def Let_def split: if_splits list.splits)
    qed
    have "cb_done s j = R" if "j < unat size'" for j
      using cbar_invD(1) [OF inv that] w that by auto
    then have "counted (unat size') R s = {..<unat size'}" using w by (auto simp: counted_def)
    moreover have "card (counted (unat size') R s) < unat size'"
      using w by (intro cbar_invD(3) [OF inv]) simp
    ultimately show False by simp
  qed
qed

text \<open>
  Clusters that call the barrier \<open>D\<close> times and then do something else: while one of them has not returned from
  its last call, and all those that have not are inside a call, one of those can move on.
\<close>

lemma progress:
  assumes "set sched \<subseteq> {..<unat size'}" and "s = cbar_run size' targets sched cbar_start"
    and "i < unat size'" and "cb_done s i < D" and "\<And>j. j < unat size' \<Longrightarrow> cb_done s j < D \<Longrightarrow> cb_pc s j \<noteq> Cb_out"
  shows "\<exists>j < unat size'. cb_done s j < D \<and> cbar_step size' targets j s \<noteq> s"
proof (rule ccontr)
  assume no: "\<not> ?thesis"
  obtain R where inv: "cbar_inv (unat size') R s" using run_inv [OF assms(1)] assms(2) by blast
  have w: "cb_pc s j = Cb_wfi \<and> \<not> cb_pend s j" if j: "j < unat size'" "cb_done s j < D" for j
  proof -
    have "cb_pc (cbar_step size' targets j s) j = cb_pc s j" using no j by auto
    then show ?thesis using assms(5) [OF j]
      by (cases "cb_pc s j") (auto simp: cbar_step_def Let_def split: if_splits list.splits)
  qed
  have new: "cb_done s j = R" if j: "j < unat size'" "cb_done s j < D" for j
  proof (rule ccontr)
    assume "cb_done s j \<noteq> R"
    then obtain v js where v: "Suc (cb_done s j) = R" "v < unat size'" "cb_pc s v = Cb_wake js"
      using cbar_invD(1) [OF inv j(1)] w [OF j] by auto
    then have "cb_done s v < D" using cbar_invD(1) [OF inv v(2)] j(2) by simp
    from w [OF v(2) this] v(3) show False by simp
  qed
  have all: "cb_done s j < D" if "j < unat size'" for j
    using cbar_invD(1) [OF inv that] new [OF assms(3,4)] assms(4) by (cases "cb_pc s j") auto
  then have "counted (unat size') R s = {..<unat size'}" using w new by (auto simp: counted_def)
  moreover have "card (counted (unat size') R s) < unat size'"
    using w all by (intro cbar_invD(3) [OF inv]) simp
  ultimately show False by simp
qed

end

subsection \<open>Communicators of a power of two\<close>

text \<open>A communicator as \<open>snrt_comm_create\<close> fills it, for \<open>2 ^ k\<close> clusters.\<close>

definition pow2_comm :: "nat \<Rightarrow> snrt_comm_info" where
  "pow2_comm k = \<lparr>barrier_ptr = 0, cm_size = 2 ^ k, cm_mask = 2 ^ k - 1, cm_base = 0, is_participant = True\<rparr>"

lemma comm_targets_pow2:
  assumes "k < 32" and "cm_base comm = 0" and "cm_mask comm = 2 ^ k - 1" and "i < 2 ^ k"
  shows "set (comm_targets comm i) = {..<2 ^ k} - {i}" and "distinct (comm_targets comm i)"
proof -
  note W = wake_targets_set [OF assms(2,3,1), of "of_nat i"]
  have "(2 :: nat) ^ k < 2 ^ 32" using assms(1) by (rule power_strict_increasing) simp
  then have small: "unat (of_nat j :: u32) = j" if "j < 2 ^ k" for j
    using that by (simp only: unsigned_of_nat) (simp add: take_bit_nat_eq_self)
  show "set (comm_targets comm i) = {..<2 ^ k} - {i}"
  proof (rule set_eqI)
    fix j
    show "j \<in> set (comm_targets comm i) \<longleftrightarrow> j \<in> {..<2 ^ k} - {i}"
    proof
      assume "j \<in> set (comm_targets comm i)"
      then obtain w :: u32 where "j = unat w" "unat w < 2 ^ k" "w \<noteq> of_nat i"
        by (auto simp: comm_targets_def W(1))
      then show "j \<in> {..<2 ^ k} - {i}" by auto
    next
      assume j: "j \<in> {..<2 ^ k} - {i}"
      have "(of_nat j :: u32) \<noteq> of_nat i" using j small [of j] small [OF assms(4)] by auto
      then have "(of_nat j :: u32) \<in> set (wake_targets (of_nat i) comm)" using j small [of j] by (simp add: W(1))
      then show "j \<in> set (comm_targets comm i)"
        unfolding comm_targets_def using small [of j] j by (force intro: rev_image_eqI)
    qed
  qed
  show "distinct (comm_targets comm i)"
    using W(2) by (auto simp: comm_targets_def distinct_map inj_on_def intro: unat_eqI)
qed

text \<open>The exponent is taken modulo 32, the width of the mask, so that the interpretation has no premise.\<close>

interpretation wk2: wakes "2 ^ (k mod 32)" "comm_targets (pow2_comm (k mod 32))" for k
proof
  let ?k = "k mod 32"
  have k: "?k < 32" by simp
  show "0 < unat (2 ^ ?k :: u32)" by (simp add: unat_pow2 [OF k])
  show "i < unat (2 ^ ?k :: u32) \<Longrightarrow> set (comm_targets (pow2_comm ?k) i) = {..<unat (2 ^ ?k :: u32)} - {i}" for i
    using comm_targets_pow2(1) [OF k, of "pow2_comm ?k" i] by (simp add: pow2_comm_def unat_pow2 [OF k])
  show "i < unat (2 ^ ?k :: u32) \<Longrightarrow> distinct (comm_targets (pow2_comm ?k) i)" for i
    using comm_targets_pow2(2) [OF k, of "pow2_comm ?k" i] by (simp add: pow2_comm_def unat_pow2 [OF k])
qed

subsection \<open>Properties\<close>

text \<open>
  C9: The software barrier between \<open>2 ^ k\<close> clusters separates rounds and does not get stuck, with the
  interrupts that \<open>snrt_wake_clusters\<close> sends. However the steps of the clusters interleave, a
  cluster that has returned once more often than another has not left before the other arrived,
  and when all are inside their calls some cluster can move on.
\<close>

theorem cluster_barrier_rounds:
  assumes "n < 32" and "set sched \<subseteq> {..<2 ^ n}" and "i < 2 ^ n" and "k < 2 ^ n"
    and "s = cbar_run (2 ^ n) (comm_targets (pow2_comm n)) sched cbar_start"
  shows "cb_done s i \<le> Suc (cb_done s k)
    \<and> (cb_done s k < cb_done s i \<longrightarrow> cb_pc s k \<noteq> Cb_out)
    \<and> ((\<forall>j < 2 ^ n. cb_pc s j \<noteq> Cb_out) \<longrightarrow>
         (\<exists>j < 2 ^ n. cbar_step (2 ^ n) (comm_targets (pow2_comm n)) j s \<noteq> s))"
  using wk2.rounds [of sched n s i k] assms by (simp add: unat_pow2)

theorem cluster_barrier_rounds_witness:
  "\<exists>s. s = cbar_run 4 (comm_targets (pow2_comm 2)) [0, 1, 2, 3, 3, 3, 1, 1] cbar_start
     \<and> cb_done s 1 = 0 \<and> cb_done s 0 \<le> 1"
proof -
  let ?s = "cbar_run 4 (comm_targets (pow2_comm 2)) [0, 1, 2, 3, 3, 3, 1, 1] cbar_start"
  have d: "cb_done ?s 1 = 0" by code_simp
  have "set [0, 1, 2, 3, 3, 3, 1, 1 :: nat] \<subseteq> {..<2 ^ 2}" by simp
  from cluster_barrier_rounds [OF _ this, of 0 1 ?s] d show ?thesis by simp
qed

lemma wfi_stuck: "cb_pc s i = Cb_wfi \<Longrightarrow> \<not> cb_pend s i \<Longrightarrow> cbar_step n T i s = s"
  by (simp add: cbar_step_def)

text \<open>
  The barrier deadlocks when the number of clusters is not a power of two. For a world
  communicator of three clusters the mask is 2, so the cluster that arrives last wakes cluster 0
  only. After the schedule below, clusters 0 and 2 have returned and entered the next round, and
  no step of any of the three clusters changes the state: cluster 1 never returns.
\<close>

lemma three_clusters_deadlock:
  "\<exists>s. s = cbar_run 3 (comm_targets (sample_comm 3)) [0, 1, 2, 2, 2, 2, 2, 0, 0, 0, 2] cbar_start
     \<and> cb_done s 0 = 1 \<and> cb_done s 1 = 0 \<and> cb_done s 2 = 1
     \<and> cbar_step 3 (comm_targets (sample_comm 3)) 0 s = s
     \<and> cbar_step 3 (comm_targets (sample_comm 3)) 1 s = s
     \<and> cbar_step 3 (comm_targets (sample_comm 3)) 2 s = s"
proof -
  let ?s = "cbar_run 3 (comm_targets (sample_comm 3)) [0, 1, 2, 2, 2, 2, 2, 0, 0, 0, 2] cbar_start"
  have d: "cb_done ?s 0 = 1" "cb_done ?s 1 = 0" "cb_done ?s 2 = 1" by code_simp+
  have w: "cb_pc ?s 0 = Cb_wfi" "cb_pc ?s 1 = Cb_wfi" "cb_pc ?s 2 = Cb_wfi" by code_simp+
  have p: "\<not> cb_pend ?s 0" "\<not> cb_pend ?s 1" "\<not> cb_pend ?s 2" by code_simp+
  show ?thesis using d w [THEN wfi_stuck] p by blast
qed

end
