(* ===== verification/Reduction.thy ===== *)
theory Reduction
  imports Cluster_Barrier
begin

text \<open>
  The reductions of \<open>sw/runtime/src/sync.h\<close>: the binary-tree sum between clusters
  (\<open>snrt_global_reduction_dma\<close>) and the all-to-all sum of one word per core
  (\<open>snrt_global_all_to_all_reduction\<close>).

  The cores interleave as the barriers of the code allow. In the tree these are a global barrier between the transfers
  and the additions of a level and a barrier of the cluster alone at its end, so a cluster may be one level
  ahead of another one; in the all-to-all reduction the data movers take the steps of the barrier of theory
  \<open>Cluster_Barrier\<close>. The buffers are lists per cluster; the element type is any type with an addition.
\<close>

subsection \<open>Number of levels\<close>

text \<open>\<open>ceil(log2(size))\<close> for \<open>size > 1\<close>.\<close>

fun ceil_log2 :: "nat \<Rightarrow> nat" where
  "ceil_log2 n = (if n \<le> 1 then 0 else Suc (ceil_log2 ((n + 1) div 2)))"

declare ceil_log2.simps [simp del]

lemma ceil_log2_ge: "n \<le> 2 ^ ceil_log2 n"
proof (induction n rule: ceil_log2.induct)
  case (1 n)
  show ?case
  proof (cases "n \<le> 1")
    case True
    then show ?thesis by (simp add: ceil_log2.simps)
  next
    case False
    then show ?thesis using 1 by (simp add: ceil_log2.simps [of n])
  qed
qed

lemma ceil_log2_pos: "1 < n \<Longrightarrow> 0 < ceil_log2 n"
  by (simp add: ceil_log2.simps [of n])

lemma ceil_log2_less: "1 < n \<Longrightarrow> 2 ^ (ceil_log2 n - 1) < n"
proof (induction n rule: ceil_log2.induct)
  case (1 n)
  show ?case
  proof (cases "n = 2")
    case True
    then show ?thesis by (simp add: ceil_log2.simps)
  next
    case False
    then have "1 < (n + 1) div 2" using 1(2) by simp
    with 1 have "2 ^ (ceil_log2 ((n + 1) div 2) - 1) < (n + 1) div 2" by simp
    moreover have "0 < ceil_log2 ((n + 1) div 2)"
      using \<open>1 < (n + 1) div 2\<close> by (rule ceil_log2_pos)
    ultimately have "2 * 2 ^ (ceil_log2 ((n + 1) div 2) - 1) < n" by simp
    then show ?thesis
      using 1(2) \<open>0 < ceil_log2 ((n + 1) div 2)\<close>
      by (simp add: ceil_log2.simps [of n] flip: power_Suc)
  qed
qed

lemma ceil_log2_pow2: "ceil_log2 (2 ^ k) = k"
proof (induction k)
  case 0
  then show ?case by (simp add: ceil_log2.simps)
next
  case (Suc k)
  have "(2 * 2 ^ k + 1 :: nat) div 2 = 2 ^ k" by simp
  moreover have "1 \<le> (2 :: nat) ^ k" by simp
  then have "1 < (2 * 2 ^ k :: nat)" by linarith
  ultimately show ?case using Suc by (simp add: ceil_log2.simps [of "2 * 2 ^ k"])
qed

subsection \<open>Tree reduction\<close>

record 'a reduction_state =
  red_src :: "nat \<Rightarrow> 'a list"
  red_dst :: "nat \<Rightarrow> 'a list"

definition red_active :: "nat \<Rightarrow> nat \<Rightarrow> bool" where
  "red_active level i \<longleftrightarrow> i mod 2 ^ level = 0"

definition red_sender :: "nat \<Rightarrow> nat \<Rightarrow> bool" where
  "red_sender level i \<longleftrightarrow> i mod 2 ^ (level + 1) \<noteq> 0"

text \<open>
  The address a sender of cluster \<open>i\<close> writes to is its own destination buffer minus
  \<open>(1 << level) * SNRT_CLUSTER_OFFSET\<close>, the same buffer of cluster \<open>i - (1 << level)\<close>.
\<close>

definition red_dst_addr :: "snrt_cfg \<Rightarrow> u32 \<Rightarrow> nat \<Rightarrow> u32" where
  "red_dst_addr c dst_buffer level = dst_buffer - 2 ^ level * CLUSTER_OFFSET c"

lemma red_dst_addr_remote:
  assumes "2 ^ level \<le> i"
  shows "red_dst_addr c p level = snrt_remote_l1_ptr c p (of_nat i) (of_nat (i - 2 ^ level))"
proof -
  obtain d where "i = 2 ^ level + d" using assms by (metis le_Suc_ex)
  then show ?thesis by (simp add: red_dst_addr_def snrt_remote_l1_ptr_def algebra_simps)
qed

text \<open>\<open>src_buffer[abs_i] += dst_buffer[abs_i]\<close> for the items of each compute core.\<close>

definition red_add_core :: "nat \<Rightarrow> nat \<Rightarrow> nat \<Rightarrow> 'a::plus list \<Rightarrow> 'a list \<Rightarrow> 'a list" where
  "red_add_core len cores core_idx dst src =
     (let items_per_core = len div cores;
          core_offset = core_idx * items_per_core
      in for_upto 0 items_per_core (\<lambda>i xs. xs[core_offset + i := xs ! (core_offset + i) + dst ! (core_offset + i)]) src)"

text \<open>
  The steps of level \<open>l\<close>: the data mover of cluster \<open>i\<close> runs \<open>snrt_dma_start_1d\<close> and waits, when the cluster
  is a sender; a compute core adds its items, when the cluster is a receiver.
\<close>

datatype red_step = Red_send nat nat | Red_add nat nat nat

fun red_run :: "nat \<Rightarrow> nat \<Rightarrow> red_step \<Rightarrow> 'a::plus reduction_state \<Rightarrow> 'a reduction_state" where
  "red_run len cores (Red_send level i) s =
     (if red_active level i \<and> red_sender level i
      then s\<lparr>red_dst := (red_dst s)(i - 2 ^ level := take len (red_src s i) @ drop len (red_dst s (i - 2 ^ level)))\<rparr> else s)"
| "red_run len cores (Red_add level i co) s =
     (if red_active level i \<and> \<not> red_sender level i
      then s\<lparr>red_src := (red_src s)(i := red_add_core len cores co (red_dst s i) (red_src s i))\<rparr> else s)"

text \<open>
  The steps that may follow those of \<open>past\<close> (the last one first): a data mover goes on to the next level when
  its own cluster has ended the additions; the additions of a level start when all data movers have reached
  the global barrier. An order of all steps is a list.
\<close>

fun red_next :: "nat \<Rightarrow> nat \<Rightarrow> red_step list \<Rightarrow> red_step \<Rightarrow> bool" where
  "red_next n cores past (Red_send level i) \<longleftrightarrow> level < ceil_log2 n \<and> i < n
     \<and> (0 < level \<longrightarrow> (\<forall>co < cores. Red_add (level - 1) i co \<in> set past))"
| "red_next n cores past (Red_add level i co) \<longleftrightarrow> level < ceil_log2 n \<and> i < n \<and> co < cores
     \<and> (\<forall>k < n. Red_send level k \<in> set past)"

fun red_sched :: "nat \<Rightarrow> nat \<Rightarrow> red_step list \<Rightarrow> red_step list \<Rightarrow> bool" where
  "red_sched n cores past [] \<longleftrightarrow> (\<forall>level < ceil_log2 n. \<forall>i < n. \<forall>co < cores. Red_add level i co \<in> set past)"
| "red_sched n cores past (x # xs) \<longleftrightarrow> x \<notin> set past \<and> red_next n cores past x \<and> red_sched n cores (x # past) xs"

definition snrt_global_reduction_dma :: "nat \<Rightarrow> nat \<Rightarrow> nat \<Rightarrow> red_step list \<Rightarrow> 'a::plus reduction_state \<Rightarrow> 'a reduction_state" where
  "snrt_global_reduction_dma len cores n sched s = (if n > 1 then fold (red_run len cores) sched s else s)"

text \<open>
  No barrier makes a sender wait for its receiver's additions of the level before, although both use the
  destination buffer of the receiver. An order is timely when the sender is not ahead.
\<close>

fun red_timely :: "nat \<Rightarrow> red_step list \<Rightarrow> red_step list \<Rightarrow> bool" where
  "red_timely cores past [] \<longleftrightarrow> True"
| "red_timely cores past (Red_add level i co # xs) \<longleftrightarrow> red_timely cores (Red_add level i co # past) xs"
| "red_timely cores past (Red_send level i # xs) \<longleftrightarrow>
     (0 < level \<and> red_active level i \<and> red_sender level i
        \<longrightarrow> (\<forall>co < cores. Red_add (level - 1) (i - 2 ^ level) co \<in> set past))
     \<and> red_timely cores (Red_send level i # past) xs"

subsection \<open>All-to-all reduction\<close>

text \<open>
  Each core adds its word to the word of its cluster (\<open>cls->reduction\<close>); after the hardware barrier
  the data mover adds the word of the cluster to the global word, takes the steps of the barrier between the
  clusters, and copies the global word back; after a second hardware barrier every core reads the word of its
  cluster. \<open>a2a_added\<close>: which cores have made their addition; \<open>a2a_dm\<close>: where the data movers are.
\<close>

datatype a2a_pc = A2a_add | A2a_barrier | A2a_copy | A2a_end

record a2a_state =
  a2a_cluster :: "nat \<Rightarrow> u32"
  a2a_global :: u32
  a2a_added :: "nat \<Rightarrow> nat \<Rightarrow> bool"
  a2a_dm :: "nat \<Rightarrow> a2a_pc"
  a2a_bar :: cbar

definition a2a_start :: "(nat \<Rightarrow> u32) \<Rightarrow> u32 \<Rightarrow> a2a_state" where
  "a2a_start cluster global = \<lparr>a2a_cluster = cluster, a2a_global = global, a2a_added = (\<lambda>_ _. False),
     a2a_dm = (\<lambda>_. A2a_add), a2a_bar = cbar_start\<rparr>"

datatype a2a_call = Core_adds nat nat | Mover nat

fun a2a_step :: "snrt_comm_info \<Rightarrow> nat \<Rightarrow> (nat \<Rightarrow> nat \<Rightarrow> u32) \<Rightarrow> a2a_call \<Rightarrow> a2a_state \<Rightarrow> a2a_state" where
  "a2a_step comm cores v (Core_adds cl co) s =
     (if a2a_added s cl co then s
      else s\<lparr>a2a_cluster := (a2a_cluster s)(cl := a2a_cluster s cl + v cl co),
             a2a_added := (a2a_added s)(cl := (a2a_added s cl)(co := True))\<rparr>)"
| "a2a_step comm cores v (Mover cl) s =
     (case a2a_dm s cl of
        A2a_add \<Rightarrow> (if \<forall>co < cores. a2a_added s cl co
           then s\<lparr>a2a_global := a2a_global s + a2a_cluster s cl, a2a_dm := (a2a_dm s)(cl := A2a_barrier)\<rparr> else s)
      | A2a_barrier \<Rightarrow>
          (let bar = cbar_step (cm_size comm) (comm_targets comm) cl (a2a_bar s)
           in s\<lparr>a2a_bar := bar, a2a_dm := (a2a_dm s)(cl := if cb_done bar cl = cb_done (a2a_bar s) cl then A2a_barrier else A2a_copy)\<rparr>)
      | A2a_copy \<Rightarrow> s\<lparr>a2a_cluster := (a2a_cluster s)(cl := a2a_global s), a2a_dm := (a2a_dm s)(cl := A2a_end)\<rparr>
      | A2a_end \<Rightarrow> s)"

text \<open>The value a core of each cluster returns, when the data mover of the cluster has come to the second hardware barrier.\<close>

definition snrt_global_all_to_all_reduction :: "snrt_comm_info \<Rightarrow> nat \<Rightarrow> (nat \<Rightarrow> nat \<Rightarrow> u32) \<Rightarrow> a2a_call list
    \<Rightarrow> a2a_state \<Rightarrow> (nat \<Rightarrow> u32 option) \<times> a2a_state" where
  "snrt_global_all_to_all_reduction comm cores v sched s =
     (let t = fold (a2a_step comm cores v) sched s
      in (\<lambda>cl. if a2a_dm t cl = A2a_end then Some (a2a_cluster t cl) else None, t))"

text \<open>
  The same function as the events of one core. What the core reads is an argument: the counter its atomic increment of the
  barrier returns, the word of the cluster and the global word. \<open>cls\<close> is the address of the cluster-local storage,
  whose second word is \<open>reduction\<close>, and \<open>gres\<close> that of \<open>_reduction_result\<close>.
\<close>

record reduction_view =
  rv_cnt :: u32
  rv_cluster :: u32
  rv_sum :: u32

definition all_to_all_events :: "snrt_cfg \<Rightarrow> u32 \<Rightarrow> snrt_comm_info \<Rightarrow> u32 \<Rightarrow> u32 \<Rightarrow> reduction_view \<Rightarrow> u32 \<Rightarrow> hw_event list" where
  "all_to_all_events c h world cls gres view v =
     [Ev_amoadd (cls + 4) v] @ snrt_cluster_hw_barrier
     @ (if snrt_is_dm_core c h
        then [Ev_amoadd gres (rv_cluster view)] @ snrt_inter_cluster_barrier c h world None (rv_cnt view)
             @ [Ev_store32 (cls + 4) (rv_sum view)]
        else [])
     @ snrt_cluster_hw_barrier"

subsection \<open>The addition phase\<close>

lemma red_add_core_length [simp]: "length (red_add_core len cores co dst src) = length src"
proof -
  have "length (for_upto 0 n (\<lambda>i xs. xs[f i := g i xs]) src) = length src" for n f and g :: "nat \<Rightarrow> 'a list \<Rightarrow> 'a"
    by (induction n) (simp_all add: for_upto_Suc)
  then show ?thesis by (simp add: red_add_core_def Let_def)
qed

lemma red_add_core_nth:
  assumes "j < length src"
  shows "red_add_core len cores co dst src ! j
    = (if co * (len div cores) \<le> j \<and> j < (co + 1) * (len div cores) then src ! j + dst ! j else src ! j)"
proof -
  let ?q = "len div cores" and ?o = "co * (len div cores)"
  let ?f = "\<lambda>i xs. xs[?o + i := xs ! (?o + i) + dst ! (?o + i)]"
  have len: "length (for_upto 0 m ?f src) = length src" for m
    by (induction m) (simp_all add: for_upto_Suc)
  have "for_upto 0 m ?f src ! j = (if ?o \<le> j \<and> j < ?o + m then src ! j + dst ! j else src ! j)" for m
  proof (induction m)
    case 0
    then show ?case by auto
  next
    case (Suc m)
    show ?case
      using Suc assms len [of m] by (cases "j = ?o + m") (auto simp: for_upto_Suc nth_list_update)
  qed
  then show ?thesis by (simp add: red_add_core_def Let_def algebra_simps)
qed

lemma sender_mod:
  assumes "i = 2 ^ l * q"
  shows "red_active l i" and "red_sender l i \<longleftrightarrow> odd q"
proof -
  show "red_active l i" using assms by (simp add: red_active_def)
  have "i mod 2 ^ (l + 1) = 2 ^ l * (q mod 2)"
    unfolding assms power_add power_one_right by (rule mod_mult_mult1)
  then show "red_sender l i \<longleftrightarrow> odd q" by (simp add: red_sender_def odd_iff_mod_2_eq_one)
qed

lemma sum_split_at: "(\<Sum>t < a + b. f t) = (\<Sum>t < a. f t) + (\<Sum>t < b. f (a + t :: nat) :: 'a::comm_monoid_add)"
  by (induction b) (simp_all add: add.assoc)


subsection \<open>Invariant of the tree\<close>

definition red_order :: "nat \<Rightarrow> nat \<Rightarrow> red_step list \<Rightarrow> bool" where
  "red_order K cores past \<longleftrightarrow>
     (\<forall>l i. Red_send l i \<in> set past \<longrightarrow> i < 2 ^ K) \<and> (\<forall>l i co. Red_add l i co \<in> set past \<longrightarrow> l < K)
   \<and> (\<forall>l i co. Red_add l i co \<in> set past \<longrightarrow> (\<forall>k < 2 ^ K. Red_send l k \<in> set past))
   \<and> (\<forall>l i. Red_send (Suc l) i \<in> set past \<longrightarrow> (\<forall>co < cores. Red_add l i co \<in> set past))"

lemma red_orderD:
  assumes "red_order K cores past"
  shows "Red_send l i \<in> set past \<Longrightarrow> i < 2 ^ K"
    and "Red_add l i co \<in> set past \<Longrightarrow> k < 2 ^ K \<Longrightarrow> Red_send l k \<in> set past"
    and "Red_send (Suc l) i \<in> set past \<Longrightarrow> co < cores \<Longrightarrow> Red_add l i co \<in> set past"
    and "Red_add l i co \<in> set past \<Longrightarrow> l < K"
  using assms unfolding red_order_def by blast+

text \<open>A transfer of level \<open>l\<close> comes after all steps of the levels below that its cluster or the barriers order before it.\<close>

lemma red_order_below:
  assumes "red_order K cores past" and "Red_send l i \<in> set past" and "l' < l" and "co < cores"
  shows "Red_add l' i co \<in> set past" and "k < 2 ^ K \<Longrightarrow> Red_send l' k \<in> set past"
proof -
  have "Red_add l' i co \<in> set past" using assms(2,3)
  proof (induction l)
    case (Suc l)
    have a: "Red_add l i co \<in> set past" by (rule red_orderD(3) [OF assms(1) Suc.prems(1) assms(4)])
    then have "Red_send l i \<in> set past"
      using red_orderD(2) [OF assms(1) a] red_orderD(1) [OF assms(1) Suc.prems(1)] by blast
    then show ?case using Suc a by (cases "l' = l") simp_all
  qed simp
  then show "Red_add l' i co \<in> set past" and "k < 2 ^ K \<Longrightarrow> Red_send l' k \<in> set past"
    using red_orderD(2) [OF assms(1)] by blast+
qed

lemma red_order_add_below:
  assumes "red_order K cores past" and "Red_add l i co \<in> set past" and "l' < l" and "co' < cores" and "k < 2 ^ K"
  shows "Red_add l' k co' \<in> set past"
  using red_order_below(1) [OF assms(1) _ assms(3,4)] red_orderD(2) [OF assms(1,2,5)] by blast

lemma red_order_step:
  assumes "red_order K cores past" and "red_next (2 ^ K) cores past x"
  shows "red_order K cores (x # past)"
  using assms by (cases x) (auto simp: red_order_def ceil_log2_pow2)

text \<open>
  What an element of the buffers holds during a timely run; core \<open>co\<close> covers it. The source of a cluster that
  has ended its first \<open>m\<close> levels holds the sum over its \<open>2 ^ m\<close> clusters; the destination of a receiver that
  has not yet added holds the sum of its sender.
\<close>

definition red_inv :: "nat \<Rightarrow> nat \<Rightarrow> nat \<Rightarrow> nat \<Rightarrow> 'a::comm_monoid_add reduction_state \<Rightarrow> red_step list \<Rightarrow> 'a reduction_state \<Rightarrow> bool" where
  "red_inv K len j co s0 past s \<longleftrightarrow>
     (\<forall>i. length (red_dst s i) = len) \<and> (\<forall>i < 2 ^ K. length (red_src s i) = len)
   \<and> (\<forall>m i. i < 2 ^ K \<and> i mod 2 ^ m = 0 \<and> (\<forall>l < m. Red_add l i co \<in> set past)
        \<and> (Red_add m i co \<in> set past \<longrightarrow> i mod 2 ^ Suc m \<noteq> 0)
        \<longrightarrow> red_src s i ! j = (\<Sum>t < 2 ^ m. red_src s0 (i + t) ! j))
   \<and> (\<forall>l i. i < 2 ^ K \<and> i mod 2 ^ Suc l = 0 \<and> Red_send l (i + 2 ^ l) \<in> set past \<and> Red_add l i co \<notin> set past
        \<longrightarrow> red_dst s i ! j = (\<Sum>t < 2 ^ l. red_src s0 (i + 2 ^ l + t) ! j))"

lemma red_invI:
  assumes "\<And>i. length (red_dst s i) = len" and "\<And>i. i < 2 ^ K \<Longrightarrow> length (red_src s i) = len"
    and "\<And>m i. i < 2 ^ K \<Longrightarrow> i mod 2 ^ m = 0 \<Longrightarrow> (\<And>l. l < m \<Longrightarrow> Red_add l i co \<in> set past)
        \<Longrightarrow> (Red_add m i co \<in> set past \<Longrightarrow> i mod 2 ^ Suc m \<noteq> 0)
        \<Longrightarrow> red_src s i ! j = (\<Sum>t < 2 ^ m. red_src s0 (i + t) ! j)"
    and "\<And>l i. i < 2 ^ K \<Longrightarrow> i mod 2 ^ Suc l = 0 \<Longrightarrow> Red_send l (i + 2 ^ l) \<in> set past \<Longrightarrow> Red_add l i co \<notin> set past
        \<Longrightarrow> red_dst s i ! j = (\<Sum>t < 2 ^ l. red_src s0 (i + 2 ^ l + t) ! j)"
  shows "red_inv K len j co s0 past s"
  by (simp add: red_inv_def assms)

lemma red_invD:
  assumes "red_inv K len j co s0 past s"
  shows "length (red_dst s i) = len" and "i < 2 ^ K \<Longrightarrow> length (red_src s i) = len"
    and "i < 2 ^ K \<Longrightarrow> i mod 2 ^ m = 0 \<Longrightarrow> (\<And>l. l < m \<Longrightarrow> Red_add l i co \<in> set past)
        \<Longrightarrow> (Red_add m i co \<in> set past \<Longrightarrow> i mod 2 ^ Suc m \<noteq> 0)
        \<Longrightarrow> red_src s i ! j = (\<Sum>t < 2 ^ m. red_src s0 (i + t) ! j)"
    and "i < 2 ^ K \<Longrightarrow> i mod 2 ^ Suc l = 0 \<Longrightarrow> Red_send l (i + 2 ^ l) \<in> set past \<Longrightarrow> Red_add l i co \<notin> set past
        \<Longrightarrow> red_dst s i ! j = (\<Sum>t < 2 ^ l. red_src s0 (i + 2 ^ l + t) ! j)"
  using assms unfolding red_inv_def by simp_all

text \<open>The receivers and the senders of a level.\<close>

lemma receiver_iff: "red_active l i \<and> \<not> red_sender l i \<longleftrightarrow> i mod 2 ^ Suc l = 0"
proof -
  have "i mod 2 ^ Suc l = 0 \<Longrightarrow> i mod 2 ^ l = 0" by (metis dvd_eq_mod_eq_0 dvd_power_le dvd_trans le_add2 order_refl plus_1_eq_Suc power_Suc dvd_triv_right)
  then show ?thesis by (auto simp: red_active_def red_sender_def)
qed

lemma sender_of:
  assumes "red_active l i" and "red_sender l i"
  shows "\<exists>r. i = r + 2 ^ l \<and> r mod 2 ^ Suc l = 0"
proof -
  obtain q where q: "i = 2 ^ l * q" using assms(1) by (auto simp: red_active_def elim: dvdE)
  then have "odd q" using sender_mod(2) [OF q] assms(2) by simp
  then obtain h where "q = 2 * h + 1" by (rule oddE)
  then have "i = 2 ^ Suc l * h + 2 ^ l" by (simp add: q algebra_simps)
  then show ?thesis by (metis mod_mult_self1_is_0)
qed

lemma red_inv_send:
  assumes O: "red_order K cores past" and I: "red_inv K len j co s0 past s" and co: "co < cores" and j: "j < len"
    and x: "red_next (2 ^ K) cores past (Red_send l i)" "Red_send l i \<notin> set past"
    and T: "0 < l \<Longrightarrow> red_active l i \<Longrightarrow> red_sender l i \<Longrightarrow> \<forall>co < cores. Red_add (l - 1) (i - 2 ^ l) co \<in> set past"
  shows "red_inv K len j co s0 (Red_send l i # past) (red_run len cores (Red_send l i) s)"
proof (cases "red_active l i \<and> red_sender l i")
  case False
  note D = red_invD [OF I]
  have "red_dst s r ! j = (\<Sum>t < 2 ^ l'. red_src s0 (r + 2 ^ l' + t) ! j)"
    if r: "r < 2 ^ K" "r mod 2 ^ Suc l' = 0" "Red_send l' (r + 2 ^ l') \<in> set (Red_send l i # past)" "Red_add l' r co \<notin> set past" for l' r
  proof -
    obtain q where "r = 2 ^ Suc l' * q" using r(2) by auto
    then have "r + 2 ^ l' = 2 ^ l' * (2 * q + 1)" by simp
    from sender_mod [OF this] have "red_active l' (r + 2 ^ l') \<and> red_sender l' (r + 2 ^ l')" by simp
    then have "Red_send l' (r + 2 ^ l') \<in> set past" using r(3) False by auto
    then show ?thesis using D(4) r by simp
  qed
  then show ?thesis using D False by (intro red_invI) auto
next
  case True
  note D = red_invD [OF I]
  obtain r where r: "i = r + 2 ^ l" "r mod 2 ^ Suc l = 0" using sender_of [of l i] True by auto
  have i: "i < 2 ^ K" "r < 2 ^ K" using x(1) r(1) by auto
  have below: "Red_add l' i co \<in> set past" if "l' < l" for l'
  proof -
    have a: "Red_add (l - 1) i co \<in> set past" using x(1) co that by simp
    then show ?thesis using red_order_add_below [OF O a _ co i(1)] that by (cases "l' = l - 1") auto
  qed
  have iS: "i mod 2 ^ l = 0" "i mod 2 ^ Suc l \<noteq> 0" using True by (simp_all add: red_active_def red_sender_def)
  have src: "red_src s i ! j = (\<Sum>t < 2 ^ l. red_src s0 (i + t) ! j)" using D(3) [OF i(1) iS(1) below] iS(2) by blast
  let ?t = "red_run len cores (Red_send l i) s"
  have t: "red_src ?t = red_src s" "red_dst ?t = (red_dst s)(r := red_src s i)"
    using True D(1) [of r] D(2) [OF i(1)] by (simp_all add: r(1))
  show ?thesis
  proof (rule red_invI)
    show "length (red_dst ?t k) = len" for k using D(1) D(2) [OF i(1)] by (simp add: t)
    show "length (red_src ?t k) = len" if "k < 2 ^ K" for k using D(2) that by (simp add: t)
    show "red_src ?t k ! j = (\<Sum>t < 2 ^ m. red_src s0 (k + t) ! j)"
      if "k < 2 ^ K" "k mod 2 ^ m = 0" "\<And>l'. l' < m \<Longrightarrow> Red_add l' k co \<in> set (Red_send l i # past)"
        "Red_add m k co \<in> set (Red_send l i # past) \<Longrightarrow> k mod 2 ^ Suc m \<noteq> 0" for m k
      unfolding t by (rule D(3)) (use that in auto)
    show "red_dst ?t k ! j = (\<Sum>t < 2 ^ m. red_src s0 (k + 2 ^ m + t) ! j)"
      if k: "k < 2 ^ K" "k mod 2 ^ Suc m = 0" "Red_send m (k + 2 ^ m) \<in> set (Red_send l i # past)"
        "Red_add m k co \<notin> set (Red_send l i # past)" for m k
    proof (cases "k = r")
      case False
      have "Red_send m (k + 2 ^ m) \<in> set past" using k(3) False r(1) by auto
      then show ?thesis unfolding t using D(4) [OF k(1,2)] k(4) False by simp
    next
      case kr: True
      have "m = l"
      proof (rule ccontr)
        assume ne: "m \<noteq> l"
        then have s: "Red_send m (k + 2 ^ m) \<in> set past" using k(3) by simp
        show False
        proof (cases "m < l")
          case True
          have a: "Red_add (l - 1) r co \<in> set past" using T \<open>red_active l i \<and> red_sender l i\<close> True co r(1) by auto
          then have "Red_add m r co \<in> set past" using red_order_add_below [OF O a _ co i(2)] True by (cases "m = l - 1") auto
          then show False using k(4) kr by simp
        next
          case False
          then have "Red_send l i \<in> set past" using red_order_below(2) [OF O s _ co i(1)] ne by simp
          then show False using x(2) by simp
        qed
      qed
      then show ?thesis unfolding t using src by (simp add: kr r(1))
    qed
  qed
qed

lemma pow_mod_le: "i mod 2 ^ n = 0 \<Longrightarrow> m \<le> n \<Longrightarrow> i mod 2 ^ m = (0 :: nat)"
  by (metis dvd_eq_mod_eq_0 dvd_trans le_imp_power_dvd)

lemma partner_less:
  assumes "i mod 2 ^ Suc l = 0" and "i < 2 ^ K" and "l < K"
  shows "i + 2 ^ l < (2 :: nat) ^ K"
proof -
  obtain d where d: "K = Suc l + d" using assms(3) by (metis Suc_leI le_iff_add)
  obtain q where q: "i = 2 ^ Suc l * q" using assms(1) by auto
  have "2 ^ Suc l * q < 2 ^ Suc l * 2 ^ d" using assms(2) unfolding d q power_add .
  then have "q < 2 ^ d" by simp
  then have "2 ^ Suc l * (q + 1) \<le> 2 ^ Suc l * 2 ^ d" by (intro mult_le_mono2) simp
  then have "i + 2 ^ Suc l \<le> 2 ^ K" unfolding d q power_add by simp
  moreover have "(2 :: nat) ^ l < 2 ^ Suc l" by simp
  ultimately show ?thesis by linarith
qed

lemma core_of_item: "co * q \<le> j \<Longrightarrow> j < (co + 1) * q \<Longrightarrow> co' * q \<le> j \<Longrightarrow> j < (co' + 1) * q \<Longrightarrow> co = (co' :: nat)"
  by (metis Suc_eq_plus1 less_le_trans linorder_neqE_nat mult_le_mono1 not_less Suc_leI)

lemma red_run_add:
  assumes "length (red_src s i) = len" and "j < len" "co * (len div cores) \<le> j" "j < (co + 1) * (len div cores)"
    and "t = red_run len cores (Red_add l i co') s"
  shows "red_dst t = red_dst s" and "length (red_src t k) = length (red_src s k)"
    and "red_src t k ! j = (if i mod 2 ^ Suc l = 0 \<and> k = i \<and> co' = co then red_src s i ! j + red_dst s i ! j else red_src s k ! j)"
proof -
  have "co' * (len div cores) \<le> j \<and> j < (co' + 1) * (len div cores) \<longleftrightarrow> co' = co"
    using core_of_item [OF assms(3,4)] assms(3,4) by blast
  moreover have "red_active l i \<and> \<not> red_sender l i \<longleftrightarrow> i mod 2 ^ Suc l = 0" by (rule receiver_iff)
  ultimately show "red_dst t = red_dst s" "length (red_src t k) = length (red_src s k)"
    "red_src t k ! j = (if i mod 2 ^ Suc l = 0 \<and> k = i \<and> co' = co then red_src s i ! j + red_dst s i ! j else red_src s k ! j)"
    using assms(1-4) by (auto simp add: assms(5) red_add_core_nth)
qed

lemma red_inv_add:
  assumes O: "red_order K cores past" and I: "red_inv K len j co s0 past s" and co: "co < cores"
    and j: "j < len" "co * (len div cores) \<le> j" "j < (co + 1) * (len div cores)"
    and x: "red_next (2 ^ K) cores past (Red_add l i co')" "Red_add l i co' \<notin> set past"
  shows "red_inv K len j co s0 (Red_add l i co' # past) (red_run len cores (Red_add l i co') s)"
proof -
  let ?t = "red_run len cores (Red_add l i co') s" and ?past = "Red_add l i co' # past"
  note D = red_invD [OF I]
  have i: "i < 2 ^ K" and l: "l < K" and sent: "\<And>k. k < 2 ^ K \<Longrightarrow> Red_send l k \<in> set past"
    using x(1) by (simp_all add: ceil_log2_pow2)
  note t = red_run_add [OF D(2) [OF i] j refl, of l co']
  have below: "Red_add l' i co \<in> set past" if "l' < l" for l' using red_order_below(1) [OF O sent [OF i] that co] .
  show ?thesis
  proof (rule red_invI)
    show "length (red_dst ?t k) = len" for k using D(1) by (simp only: t)
    show "length (red_src ?t k) = len" if "k < 2 ^ K" for k using D(2) [OF that] by (simp only: t)
    show "red_dst ?t k ! j = (\<Sum>t < 2 ^ m. red_src s0 (k + 2 ^ m + t) ! j)"
      if "k < 2 ^ K" "k mod 2 ^ Suc m = 0" "Red_send m (k + 2 ^ m) \<in> set ?past" "Red_add m k co \<notin> set ?past" for m k
      unfolding t(1) by (rule D(4)) (use that in auto)
    fix m k
    assume k: "k < 2 ^ K" "k mod 2 ^ m = 0" "\<And>l'. l' < m \<Longrightarrow> Red_add l' k co \<in> set ?past"
      "Red_add m k co \<in> set ?past \<Longrightarrow> k mod 2 ^ Suc m \<noteq> 0"
    show "red_src ?t k ! j = (\<Sum>t < 2 ^ m. red_src s0 (k + t) ! j)"
    proof (cases "i mod 2 ^ Suc l = 0 \<and> k = i \<and> co' = co")
      case False
      have "Red_add l' k co \<in> set past" if "l' < m" for l'
        using k(3) [OF that] False pow_mod_le [OF k(2), of "Suc l'"] that by auto
      then have "red_src s k ! j = (\<Sum>t < 2 ^ m. red_src s0 (k + t) ! j)"
        using D(3) [OF k(1,2)] k(4) by simp
      then show ?thesis using False by (simp only: t if_False)
    next
      case True
      have "\<not> Suc l < m"
      proof
        assume "Suc l < m"
        then have "Red_add (Suc l) i co \<in> set past" using k(3) [of "Suc l"] True by simp
        from red_order_add_below [OF O this _ co i, of l] show False using x(2) True by simp
      qed
      moreover have "\<not> m \<le> l"
      proof
        assume m: "m \<le> l"
        then have "Red_add m i co \<in> set ?past" using below True by (cases "m = l") simp_all
        moreover have "i mod 2 ^ Suc m = 0" using pow_mod_le [of i "Suc l" "Suc m"] True m by simp
        ultimately show False using k(4) True by simp
      qed
      ultimately have m: "m = Suc l" by simp
      have "red_src s i ! j = (\<Sum>t < 2 ^ l. red_src s0 (i + t) ! j)"
        using D(3) [OF i, of l] below x(2) True pow_mod_le [of i "Suc l" l] by simp
      moreover have "red_dst s i ! j = (\<Sum>t < 2 ^ l. red_src s0 (i + 2 ^ l + t) ! j)"
        using D(4) [OF i, of l] sent partner_less [OF _ i l] x(2) True by simp
      moreover have "red_src ?t k ! j = red_src s i ! j + red_dst s i ! j" using t(3) [of k] True by simp
      ultimately show ?thesis using True by (simp add: m mult_2 sum_split_at add.assoc)
    qed
  qed
qed

lemma red_fold_inv:
  assumes "red_sched (2 ^ K) cores past xs" and "red_timely cores past xs" and "red_order K cores past"
    and "red_inv K len j co s0 past s" and co: "co < cores"
    and j: "j < len" "co * (len div cores) \<le> j" "j < (co + 1) * (len div cores)"
  shows "\<exists>past'. red_sched (2 ^ K) cores past' [] \<and> red_order K cores past' \<and> red_inv K len j co s0 past' (fold (red_run len cores) xs s)"
  using assms(1-4)
proof (induction xs arbitrary: past s)
  case Nil
  then show ?case by auto
next
  case (Cons x xs)
  have n: "x \<notin> set past" "red_next (2 ^ K) cores past x" "red_sched (2 ^ K) cores (x # past) xs"
    using Cons.prems(1) by simp_all
  have t: "red_timely cores (x # past) xs" using Cons.prems(2) by (cases x) simp_all
  have "red_inv K len j co s0 (x # past) (red_run len cores x s)"
  proof (cases x)
    case (Red_send l i)
    show ?thesis unfolding Red_send
      by (rule red_inv_send [OF Cons.prems(3,4) co j(1)]) (use n(1,2) Cons.prems(2) Red_send in simp_all)
  next
    case (Red_add l i co')
    show ?thesis unfolding Red_add
      by (rule red_inv_add [OF Cons.prems(3,4) co j]) (use n(1,2) Red_add in simp_all)
  qed
  from Cons.IH [OF n(3) t red_order_step [OF Cons.prems(3) n(2)] this] show ?case by simp
qed

text \<open>With two clusters there is one level, and every order is timely.\<close>

lemma red_timely_one_level: "ceil_log2 n \<le> 1 \<Longrightarrow> red_sched n cores past xs \<Longrightarrow> red_timely cores past xs"
proof (induction xs arbitrary: past)
  case (Cons x xs)
  then show ?case by (cases x) auto
qed simp

subsection \<open>The tree sums\<close>

text \<open>
  C10: The tree reduction sums over the clusters when no transfer overtakes an addition. For \<open>2 ^ K\<close> clusters whose buffers
  have \<open>len\<close> elements and every order of the steps of the cores that the barriers allow, \<open>snrt_global_reduction_dma\<close> leaves
  in the source buffer of cluster 0, at every index that the compute cores cover (all of them when \<open>len\<close> is a multiple of their
  number), the sum of that element over all clusters. With two clusters this holds without further conditions; with more it assumes
  what the code does not ensure, that a receiver has added before the next level's sender writes to its destination buffer.
  The addition may be any commutative and associative one.
\<close>

theorem reduction_dma_sums:
  fixes s :: "'a::comm_monoid_add reduction_state"
  assumes "\<forall>i. length (red_dst s i) = len" and "\<forall>i < 2 ^ K. length (red_src s i) = len"
    and "j < cores * (len div cores)"
    and "red_sched (2 ^ K) cores [] sched" and "1 < K \<longrightarrow> red_timely cores [] sched"
  shows "red_src (snrt_global_reduction_dma len cores (2 ^ K) sched s) 0 ! j = (\<Sum>i < 2 ^ K. red_src s i ! j)"
proof (cases "K = 0")
  case True
  then show ?thesis by (simp add: snrt_global_reduction_dma_def)
next
  case False
  let ?q = "len div cores" and ?t = "fold (red_run len cores) sched s"
  define co where "co = j div ?q"
  have q: "0 < ?q" using assms(3) by (cases "?q = 0") simp_all
  have co: "co < cores" using assms(3) by (simp add: co_def less_mult_imp_div_less)
  have "cores * ?q \<le> len" by simp
  then have "j < len" using assms(3) by linarith
  moreover have "co * ?q \<le> j" "j < (co + 1) * ?q" using q by (simp_all add: co_def dividend_less_div_times add.commute)
  moreover have "red_timely cores [] sched"
    using assms(5) red_timely_one_level [OF _ assms(4)] by (cases "1 < K") (simp_all add: ceil_log2_pow2)
  moreover have "red_order K cores []" by (simp add: red_order_def)
  moreover have "red_inv K len j co s [] s"
  proof (rule red_invI)
    show "red_src s i ! j = (\<Sum>t < 2 ^ m. red_src s (i + t) ! j)" if "\<And>l. l < m \<Longrightarrow> Red_add l i co \<in> set []" for m i
      using that [of 0] by (cases "m = 0") simp_all
  qed (use assms(1,2) in simp_all)
  ultimately obtain past where p: "red_sched (2 ^ K) cores past []" "red_order K cores past" "red_inv K len j co s past ?t"
    using red_fold_inv [OF assms(4) _ _ _ co] by metis
  have "red_src ?t 0 ! j = (\<Sum>t < 2 ^ K. red_src s (0 + t) ! j)"
  proof (rule red_invD(3) [OF p(3)])
    show "Red_add l 0 co \<in> set past" if "l < K" for l using p(1) that co by (simp add: ceil_log2_pow2)
    show "(0 :: nat) mod 2 ^ Suc K \<noteq> 0" if "Red_add K 0 co \<in> set past"
      using red_orderD(4) [OF p(2) that] by simp
  qed simp_all
  moreover have "(2 :: nat) ^ K > 1" using False by (intro one_less_power) simp_all
  ultimately show ?thesis by (simp add: snrt_global_reduction_dma_def)
qed

definition sample_red :: "nat list \<Rightarrow> int reduction_state" where
  "sample_red xs = \<lparr>red_src = (\<lambda>i. [int (xs ! i), 1]), red_dst = (\<lambda>_. [100, 100])\<rparr>"

text \<open>All steps of a level in the order of the clusters.\<close>

definition red_level :: "nat \<Rightarrow> nat \<Rightarrow> nat \<Rightarrow> red_step list" where
  "red_level n cores level = map (Red_send level) [0..<n] @ concat (map (\<lambda>i. map (Red_add level i) [0..<cores]) [0..<n])"

theorem reduction_dma_sums_witness:
  "red_src (snrt_global_reduction_dma 2 2 4 (red_level 4 2 0 @ red_level 4 2 1) (sample_red [1, 2, 4, 8])) 0 ! 0 = 15"
proof -
  have "red_src (snrt_global_reduction_dma 2 2 (2 ^ 2) (red_level 4 2 0 @ red_level 4 2 1) (sample_red [1, 2, 4, 8])) 0 ! 0
      = (\<Sum>i < 2 ^ 2. red_src (sample_red [1, 2, 4, 8]) i ! 0)"
  proof (rule reduction_dma_sums)
    show "red_sched (2 ^ 2) 2 [] (red_level 4 2 0 @ red_level 4 2 1)" by code_simp
    have "red_timely 2 [] (red_level 4 2 0 @ red_level 4 2 1)" by code_simp
    then show "1 < (2 :: nat) \<longrightarrow> red_timely 2 [] (red_level 4 2 0 @ red_level 4 2 1)" ..
  qed (simp_all add: sample_red_def)
  then show ?thesis by (simp add: sample_red_def eval_nat_numeral)
qed

text \<open>
  From four clusters on the reduction has a race. Here cluster 0 is late with its addition of level 0: cluster 2, which has
  only waited for its own cores, already sends its sum of level 1 into the same destination buffer, so cluster 0
  adds \<open>4 + 8\<close> twice and never \<open>2\<close>.
\<close>

definition late_addition :: "red_step list" where
  "late_addition = map (Red_send 0) [0, 1, 2, 3] @ [Red_add 0 1 0, Red_add 0 2 0, Red_add 0 3 0,
     Red_send 1 1, Red_send 1 2, Red_send 1 3, Red_add 0 0 0, Red_send 1 0,
     Red_add 1 0 0, Red_add 1 1 0, Red_add 1 2 0, Red_add 1 3 0]"

lemma reduction_race:
  "red_sched 4 1 [] late_addition \<and> red_src (snrt_global_reduction_dma 2 1 4 late_addition (sample_red [1, 2, 4, 8])) 0 ! 0 = 1 + (4 + 8) + (4 + 8)"
proof
  show "red_sched 4 1 [] late_addition" by code_simp
  show "red_src (snrt_global_reduction_dma 2 1 4 late_addition (sample_red [1, 2, 4, 8])) 0 ! 0 = 1 + (4 + 8) + (4 + 8)" by code_simp
qed

text \<open>
  With three clusters the tree reduction adds stale data, even if their barriers returned. Cluster 2 is active and no sender at
  level 0, but has no partner, and adds its own destination buffer (here 100), which nobody
  wrote: the result is not 1 + 2 + 4.
\<close>

lemma reduction_three_clusters_stale:
  "red_src (snrt_global_reduction_dma 2 2 3 (red_level 3 2 0 @ red_level 3 2 1) (sample_red [1, 2, 4])) 0 ! 0 = 1 + 2 + (4 + 100)"
  by code_simp

subsection \<open>Invariant of the all-to-all reduction\<close>

fun a2a_valid :: "nat \<Rightarrow> nat \<Rightarrow> a2a_call \<Rightarrow> bool" where
  "a2a_valid N M (Core_adds cl co) \<longleftrightarrow> cl < N \<and> co < M"
| "a2a_valid N M (Mover cl) \<longleftrightarrow> cl < N"

text \<open>
  What holds during a run: the words hold what has been added so far; a data mover that has added is at its first
  call of the barrier, and one that has returned from it knows that all have added.
\<close>

definition a2a_total :: "nat \<Rightarrow> nat \<Rightarrow> (nat \<Rightarrow> nat \<Rightarrow> u32) \<Rightarrow> (nat \<Rightarrow> u32) \<Rightarrow> u32 \<Rightarrow> u32" where
  "a2a_total N M v c0 g0 = g0 + (\<Sum>cl < N. c0 cl + (\<Sum>co < M. v cl co))"

fun a2a_ok :: "nat \<Rightarrow> (nat \<Rightarrow> u32) \<Rightarrow> u32 \<Rightarrow> u32 \<Rightarrow> nat \<Rightarrow> (nat \<Rightarrow> bool) \<Rightarrow> u32 \<Rightarrow> cbar_pc \<Rightarrow> a2a_pc \<Rightarrow> bool" where
  "a2a_ok M w c tot done added word pc A2a_add \<longleftrightarrow> done = 0 \<and> pc = Cb_out \<and> word = c + (\<Sum>co < M. if added co then w co else 0)"
| "a2a_ok M w c tot done added word pc A2a_barrier \<longleftrightarrow> done = 0 \<and> (\<forall>co < M. added co)"
| "a2a_ok M w c tot done added word pc A2a_copy \<longleftrightarrow> done = 1 \<and> (\<forall>co < M. added co)"
| "a2a_ok M w c tot done added word pc A2a_end \<longleftrightarrow> done = 1 \<and> (\<forall>co < M. added co) \<and> word = tot"

definition a2a_inv :: "nat \<Rightarrow> nat \<Rightarrow> (nat \<Rightarrow> nat \<Rightarrow> u32) \<Rightarrow> (nat \<Rightarrow> u32) \<Rightarrow> u32 \<Rightarrow> a2a_state \<Rightarrow> bool" where
  "a2a_inv K M v c0 g0 s \<longleftrightarrow>
     (\<exists>sched. set sched \<subseteq> {..<2 ^ K} \<and> a2a_bar s = cbar_run (2 ^ K) (comm_targets (pow2_comm K)) sched cbar_start)
   \<and> (\<forall>cl < 2 ^ K. a2a_ok M (v cl) (c0 cl) (a2a_total (2 ^ K) M v c0 g0) (cb_done (a2a_bar s) cl) (a2a_added s cl)
        (a2a_cluster s cl) (cb_pc (a2a_bar s) cl) (a2a_dm s cl))
   \<and> a2a_global s = g0 + (\<Sum>cl < 2 ^ K. if a2a_dm s cl = A2a_add then 0 else c0 cl + (\<Sum>co < M. v cl co))"

lemma a2a_invD:
  assumes "a2a_inv K M v c0 g0 s"
  shows "\<exists>sched. set sched \<subseteq> {..<2 ^ K} \<and> a2a_bar s = cbar_run (2 ^ K) (comm_targets (pow2_comm K)) sched cbar_start"
    and "cl < 2 ^ K \<Longrightarrow> a2a_ok M (v cl) (c0 cl) (a2a_total (2 ^ K) M v c0 g0) (cb_done (a2a_bar s) cl) (a2a_added s cl)
        (a2a_cluster s cl) (cb_pc (a2a_bar s) cl) (a2a_dm s cl)"
    and "a2a_global s = g0 + (\<Sum>cl < 2 ^ K. if a2a_dm s cl = A2a_add then 0 else c0 cl + (\<Sum>co < M. v cl co))"
  using assms by (simp_all add: a2a_inv_def)

lemma a2a_invI:
  assumes "set sched \<subseteq> {..<2 ^ K}" and "a2a_bar s = cbar_run (2 ^ K) (comm_targets (pow2_comm K)) sched cbar_start"
    and "\<And>cl. cl < 2 ^ K \<Longrightarrow> a2a_ok M (v cl) (c0 cl) (a2a_total (2 ^ K) M v c0 g0) (cb_done (a2a_bar s) cl) (a2a_added s cl)
        (a2a_cluster s cl) (cb_pc (a2a_bar s) cl) (a2a_dm s cl)"
    and "a2a_global s = g0 + (\<Sum>cl < 2 ^ K. if a2a_dm s cl = A2a_add then 0 else c0 cl + (\<Sum>co < M. v cl co))"
  shows "a2a_inv K M v c0 g0 s"
  using assms unfolding a2a_inv_def by blast

lemma a2a_done: "a2a_inv K M v c0 g0 s \<Longrightarrow> i < 2 ^ K \<Longrightarrow> cb_done (a2a_bar s) i = (if a2a_dm s i \<in> {A2a_copy, A2a_end} then 1 else 0)"
  using a2a_invD(2) [of K M v c0 g0 s i] by (cases "a2a_dm s i") simp_all

text \<open>Nobody returns from the barrier before all data movers have added.\<close>

lemma a2a_all_added:
  assumes "K < 32" and "a2a_inv K M v c0 g0 s" and "i < 2 ^ K" and "a2a_dm s i \<in> {A2a_copy, A2a_end}" and "k < 2 ^ K"
  shows "a2a_dm s k \<noteq> A2a_add"
proof
  assume add: "a2a_dm s k = A2a_add"
  obtain sched where r: "set sched \<subseteq> {..<2 ^ K}" "a2a_bar s = cbar_run (2 ^ K) (comm_targets (pow2_comm K)) sched cbar_start"
    using a2a_invD(1) [OF assms(2)] by blast
  have "cb_done (a2a_bar s) k < cb_done (a2a_bar s) i" using a2a_done [OF assms(2)] assms(3-5) add by simp
  moreover have "cb_pc (a2a_bar s) k = Cb_out" using a2a_invD(2) [OF assms(2,5)] add by simp
  ultimately show False using wk2.rounds(2) [of sched K "a2a_bar s" i k] r assms(1,3,5) by (simp add: unat_pow2)
qed

lemma a2a_global_total:
  assumes "K < 32" and "a2a_inv K M v c0 g0 s" and "i < 2 ^ K" and "a2a_dm s i \<in> {A2a_copy, A2a_end}"
  shows "a2a_global s = a2a_total (2 ^ K) M v c0 g0"
  using a2a_invD(3) [OF assms(2)] a2a_all_added [OF assms] by (simp add: a2a_total_def)

lemma cbar_step_others:
  "k \<noteq> i \<Longrightarrow> cb_done (cbar_step n T i s) k = cb_done s k \<and> cb_pc (cbar_step n T i s) k = cb_pc s k"
  "cb_done (cbar_step n T i s) i \<noteq> cb_done s i \<Longrightarrow> cb_done (cbar_step n T i s) i = Suc (cb_done s i)"
  by (auto simp: cbar_step_def Let_def split: cbar_pc.splits list.splits if_splits)

lemma sum_bump: "c < N \<Longrightarrow> (\<And>k. k \<noteq> c \<Longrightarrow> g k = h k) \<Longrightarrow> g c = h c + d \<Longrightarrow> (\<Sum>k < N. g k) = (\<Sum>k < N. h k) + (d :: u32)" for c :: nat
  by (simp add: sum.remove [of "{..<N}" c] algebra_simps)

lemma sum_pc_same: "(pc = A2a_add \<longleftrightarrow> P cl = A2a_add) \<Longrightarrow>
    (\<Sum>k < N. if (P(cl := pc)) k = A2a_add then 0 else f k) = (\<Sum>k < N. if P k = A2a_add then 0 else (f k :: u32))"
  by (rule sum.cong) auto

lemma a2a_step_inv:
  assumes K: "K < 32" and I: "a2a_inv K M v c0 g0 s" and x: "a2a_valid (2 ^ K) M x"
  shows "a2a_inv K M v c0 g0 (a2a_step (pow2_comm K) M v x s)"
proof -
  let ?T = "comm_targets (pow2_comm K)"
  note D = a2a_invD [OF I]
  obtain sched where r: "set sched \<subseteq> {..<2 ^ K}" "a2a_bar s = cbar_run (2 ^ K) ?T sched cbar_start" using D(1) by blast
  show ?thesis
  proof (cases x)
    case (Core_adds cl co)
    show ?thesis
    proof (cases "a2a_added s cl co")
      case False
      have c: "cl < 2 ^ K" "co < M" using x Core_adds by simp_all
      then have add: "a2a_dm s cl = A2a_add" using D(2) [of cl] False by (cases "a2a_dm s cl") auto
      have "(\<Sum>k < M. if ((a2a_added s cl)(co := True)) k then v cl k else 0) = (\<Sum>k < M. if a2a_added s cl k then v cl k else 0) + v cl co"
        using False by (intro sum_bump [OF c(2)]) simp_all
      then have "a2a_ok M (v cl) (c0 cl) (a2a_total (2 ^ K) M v c0 g0) (cb_done (a2a_bar s) cl) ((a2a_added s cl)(co := True))
        (a2a_cluster s cl + v cl co) (cb_pc (a2a_bar s) cl) (a2a_dm s cl)"
        using D(2) [OF c(1)] add by (simp add: add.assoc del: fun_upd_apply)
      with False show ?thesis unfolding Core_adds by (intro a2a_invI [OF r(1)]) (use r(2) D(2,3) in auto)
    qed (use I in \<open>simp add: Core_adds\<close>)
  next
    case (Mover cl)
    have cl: "cl < 2 ^ K" using x Mover by simp
    show ?thesis
    proof (cases "a2a_dm s cl")
      case A2a_add
      show ?thesis
      proof (cases "\<forall>co < M. a2a_added s cl co")
        case True
        let ?f = "\<lambda>k. c0 k + (\<Sum>co < M. v k co)"
        have "a2a_cluster s cl = ?f cl" using D(2) [OF cl] A2a_add True by simp
        moreover have "(\<Sum>k < 2 ^ K. if ((a2a_dm s)(cl := A2a_barrier)) k = A2a_add then 0 else ?f k)
            = (\<Sum>k < 2 ^ K. if a2a_dm s k = A2a_add then 0 else ?f k) + ?f cl"
          using A2a_add by (intro sum_bump [OF cl]) simp_all
        ultimately show ?thesis unfolding Mover using A2a_add True D(2) [OF cl] D(2,3)
          by (intro a2a_invI [OF r(1)]) (auto simp: r(2) add.assoc)
      qed (use I A2a_add in \<open>auto simp: Mover\<close>)
    next
      case A2a_barrier
      let ?b = "cbar_step (2 ^ K) ?T cl (a2a_bar s)"
      have b: "set (sched @ [cl]) \<subseteq> {..<2 ^ K}" "?b = cbar_run (2 ^ K) ?T (sched @ [cl]) cbar_start"
        using r cl by (simp_all add: cbar_run_def)
      have size: "cm_size (pow2_comm K) = 2 ^ K" by (simp add: pow2_comm_def)
      let ?pc = "if cb_done ?b cl = cb_done (a2a_bar s) cl then A2a_barrier else A2a_copy"
      have "a2a_ok M (v cl) (c0 cl) (a2a_total (2 ^ K) M v c0 g0) (cb_done ?b cl) (a2a_added s cl) (a2a_cluster s cl) (cb_pc ?b cl) ?pc"
        using D(2) [OF cl] A2a_barrier cbar_step_others(2) [of "2 ^ K" ?T cl "a2a_bar s"] by auto
      moreover have "cb_done ?b k = cb_done (a2a_bar s) k \<and> cb_pc ?b k = cb_pc (a2a_bar s) k" if "k \<noteq> cl" for k
        by (rule cbar_step_others(1) [OF that])
      moreover have "(\<Sum>k < 2 ^ K. if ((a2a_dm s)(cl := ?pc)) k = A2a_add then 0 else c0 k + (\<Sum>co < M. v k co))
          = (\<Sum>k < 2 ^ K. if a2a_dm s k = A2a_add then 0 else c0 k + (\<Sum>co < M. v k co))"
        using A2a_barrier by (intro sum_pc_same) simp
      ultimately show ?thesis unfolding Mover a2a_step.simps A2a_barrier a2a_pc.case Let_def size
        by (intro a2a_invI [OF b(1)]) (use D(2,3) b(2) in \<open>simp_all\<close>)
    next
      case A2a_copy
      have "a2a_global s = a2a_total (2 ^ K) M v c0 g0" using a2a_global_total [OF K I cl] A2a_copy by simp
      moreover have "(\<Sum>k < 2 ^ K. if ((a2a_dm s)(cl := A2a_end)) k = A2a_add then 0 else c0 k + (\<Sum>co < M. v k co))
          = (\<Sum>k < 2 ^ K. if a2a_dm s k = A2a_add then 0 else c0 k + (\<Sum>co < M. v k co))"
        using A2a_copy by (intro sum_pc_same) simp
      ultimately show ?thesis unfolding Mover using A2a_copy D(2) [OF cl]
        by (intro a2a_invI [OF r(1)]) (use r(2) D(2,3) in auto)
    next
      case A2a_end
      then show ?thesis using I by (simp add: Mover)
    qed
  qed
qed

lemma a2a_start_inv: "a2a_inv K M v c0 g0 (a2a_start c0 g0)"
  by (rule a2a_invI [of "[]"]) (simp_all add: a2a_start_def cbar_start_def cbar_run_def)

lemma a2a_run_inv:
  assumes "K < 32" and "a2a_inv K M v c0 g0 s" and "\<forall>x \<in> set sched. a2a_valid (2 ^ K) M x"
  shows "a2a_inv K M v c0 g0 (fold (a2a_step (pow2_comm K) M v) sched s)"
  using assms(2,3) by (induction sched arbitrary: s) (simp_all add: a2a_step_inv [OF assms(1)])

text \<open>While some data mover has not ended, a core or a data mover can move on.\<close>

lemma a2a_progress:
  assumes K: "K < 32" and I: "a2a_inv K M v c0 g0 s" and i: "i < 2 ^ K" "a2a_dm s i \<noteq> A2a_end"
  shows "\<exists>x. a2a_valid (2 ^ K) M x \<and> a2a_step (pow2_comm K) M v x s \<noteq> s"
proof (rule ccontr)
  assume "\<not> ?thesis"
  then have stuck: "a2a_step (pow2_comm K) M v x s = s" if "a2a_valid (2 ^ K) M x" for x using that by blast
  note D = a2a_invD [OF I]
  have added: "a2a_added s cl co" if "cl < 2 ^ K" "co < M" for cl co
  proof (rule ccontr)
    assume n: "\<not> a2a_added s cl co"
    have "a2a_added (a2a_step (pow2_comm K) M v (Core_adds cl co) s) cl co = a2a_added s cl co"
      using that by (simp only: stuck a2a_valid.simps)
    then show False using n by simp
  qed
  have pc: "a2a_dm s cl \<in> {A2a_barrier, A2a_end}" if cl: "cl < 2 ^ K" for cl
  proof -
    have "a2a_dm (a2a_step (pow2_comm K) M v (Mover cl) s) cl = a2a_dm s cl" using cl by (simp only: stuck a2a_valid.simps)
    then show ?thesis using added [OF cl] by (cases "a2a_dm s cl") simp_all
  qed
  obtain sched where r: "set sched \<subseteq> {..<2 ^ K}" "a2a_bar s = cbar_run (2 ^ K) (comm_targets (pow2_comm K)) sched cbar_start"
    using D(1) by blast
  have bar: "cbar_step (2 ^ K) (comm_targets (pow2_comm K)) cl (a2a_bar s) = a2a_bar s" if cl: "cl < 2 ^ K" "cb_done (a2a_bar s) cl < 1" for cl
  proof -
    have "a2a_dm s cl = A2a_barrier" using pc [OF cl(1)] a2a_done [OF I cl(1)] cl(2) by auto
    then have "a2a_bar (a2a_step (pow2_comm K) M v (Mover cl) s) = cbar_step (2 ^ K) (comm_targets (pow2_comm K)) cl (a2a_bar s)"
      by (simp add: Let_def pow2_comm_def)
    then show ?thesis using stuck [of "Mover cl"] cl(1) by simp
  qed
  have "cb_pc (a2a_bar s) cl \<noteq> Cb_out" if "cl < 2 ^ K" "cb_done (a2a_bar s) cl < 1" for cl
  proof
    assume "cb_pc (a2a_bar s) cl = Cb_out"
    then have "cb_pc (cbar_step (2 ^ K) (comm_targets (pow2_comm K)) cl (a2a_bar s)) cl \<noteq> Cb_out" by (simp add: cbar_step_def Let_def)
    then show False using bar [OF that] \<open>cb_pc (a2a_bar s) cl = Cb_out\<close> by simp
  qed
  moreover have "cb_done (a2a_bar s) i < 1" using pc [OF i(1)] a2a_done [OF I i(1)] i(2) by simp
  ultimately show False
    using wk2.progress [of sched K "a2a_bar s" i 1] r K i(1) bar by (auto simp: unat_pow2)
qed

text \<open>What is left to do; every step that changes the state takes some of it.\<close>

fun barrier_left :: "nat \<Rightarrow> cbar_pc \<Rightarrow> nat" where
  "barrier_left N Cb_out = N + 4"
| "barrier_left N Cb_reset = N + 3"
| "barrier_left N (Cb_wake js) = length js + 2"
| "barrier_left N Cb_wfi = 2"
| "barrier_left N Cb_clear = 1"

fun mover_left :: "nat \<Rightarrow> cbar_pc \<Rightarrow> a2a_pc \<Rightarrow> nat" where
  "mover_left N pc A2a_add = barrier_left N pc + 2"
| "mover_left N pc A2a_barrier = barrier_left N pc + 1"
| "mover_left N pc A2a_copy = 1"
| "mover_left N pc A2a_end = 0"

definition a2a_left :: "nat \<Rightarrow> nat \<Rightarrow> a2a_state \<Rightarrow> nat" where
  "a2a_left N M s = (\<Sum>cl < N. mover_left N (cb_pc (a2a_bar s) cl) (a2a_dm s cl) + (\<Sum>co < M. if a2a_added s cl co then 0 else 1))"

lemma pow2_size: "cm_size (pow2_comm K) = 2 ^ K"
  by (simp add: pow2_comm_def)

lemma targets_length: "K < 32 \<Longrightarrow> i < 2 ^ K \<Longrightarrow> length (comm_targets (pow2_comm K) i) \<le> 2 ^ K"
proof -
  assume K: "K < 32" and i: "i < 2 ^ K"
  have T: "set (comm_targets (pow2_comm K) i) = {..<2 ^ K} - {i}" "distinct (comm_targets (pow2_comm K) i)"
    using comm_targets_pow2 [OF K, of "pow2_comm K" i] i by (simp_all add: pow2_comm_def)
  have "length (comm_targets (pow2_comm K) i) = card ({..<2 ^ K} - {i} :: nat set)"
    unfolding T(1) [symmetric] by (rule distinct_card [OF T(2), symmetric])
  also have "\<dots> \<le> card {..<(2 :: nat) ^ K}" by (rule card_mono) auto
  finally show ?thesis by simp
qed

lemma cbar_step_left:
  assumes "length (T i) \<le> N" and "cbar_step n T i b \<noteq> b" and "cb_done (cbar_step n T i b) i = cb_done b i"
  shows "barrier_left N (cb_pc (cbar_step n T i b) i) < barrier_left N (cb_pc b i)"
  using assms by (auto simp: cbar_step_def Let_def split: cbar_pc.splits list.splits if_splits)

lemma sum_less: "c < N \<Longrightarrow> (\<And>k. k \<noteq> c \<Longrightarrow> g k = h k) \<Longrightarrow> g c < h c \<Longrightarrow> (\<Sum>k < N. g k) < (\<Sum>k < N. h k :: nat)" for c :: nat
  by (simp add: sum.remove [of "{..<N}" c])

lemma a2a_step_left:
  assumes "K < 32" and "a2a_valid (2 ^ K) M x" and "a2a_step (pow2_comm K) M v x s \<noteq> s"
  shows "a2a_left (2 ^ K) M (a2a_step (pow2_comm K) M v x s) < a2a_left (2 ^ K) M s"
proof (cases x)
  case (Core_adds cl co)
  then have n: "\<not> a2a_added s cl co" and c: "cl < 2 ^ K" "co < M" using assms(2,3) by (auto split: if_splits)
  have "(\<Sum>k < M. if ((a2a_added s cl)(co := True)) k then 0 else 1 :: nat) < (\<Sum>k < M. if a2a_added s cl k then 0 else 1)"
    using n by (intro sum_less [OF c(2)]) simp_all
  then show ?thesis unfolding a2a_left_def Core_adds using n
    by (intro sum_less [OF c(1)]) (simp_all del: fun_upd_apply add: fun_upd_other fun_upd_same)
next
  case (Mover cl)
  have cl: "cl < 2 ^ K" using assms(2) Mover by simp
  let ?b = "cbar_step (2 ^ K) (comm_targets (pow2_comm K)) cl (a2a_bar s)"
  note o = cbar_step_others(1) [of _ cl "2 ^ K" "comm_targets (pow2_comm K)" "a2a_bar s"]
  show ?thesis
  proof (cases "a2a_dm s cl")
    case A2a_barrier
    have "barrier_left (2 ^ K) (cb_pc (a2a_bar s) cl) \<noteq> 0" by (cases "cb_pc (a2a_bar s) cl") simp_all
    moreover have "?b \<noteq> a2a_bar s"
    proof
      assume "?b = a2a_bar s"
      then have "a2a_step (pow2_comm K) M v x s = s" using A2a_barrier by (simp add: Mover Let_def pow2_size fun_upd_idem)
      then show False using assms(3) by simp
    qed
    ultimately show ?thesis unfolding a2a_left_def Mover
      using A2a_barrier o cbar_step_left [of "comm_targets (pow2_comm K)", OF targets_length [OF assms(1) cl], of "2 ^ K" "a2a_bar s"]
      by (intro sum_less [OF cl]) (auto simp: Let_def pow2_size)
  qed (use assms(3) Mover in \<open>auto simp: a2a_left_def intro!: sum_less [OF cl] split: if_splits\<close>)
qed

text \<open>
  C11: \<open>snrt_global_all_to_all_reduction\<close> returns the sum of all values to every core. For \<open>2 ^ K\<close> clusters, words that are 0
  (as at the start of a program), and every interleaving of the cores, the data movers and their steps in the software barrier, the cores
  of a cluster whose data mover is done return the sum; while some data mover is not done, some step changes the state, and every
  such step takes something off a finite amount of work, so that all of them return.
\<close>

theorem all_to_all_sum:
  assumes "K < 32" and "\<forall>x \<in> set sched. a2a_valid (2 ^ K) M x" and "i < 2 ^ K"
    and "snrt_global_all_to_all_reduction (pow2_comm K) M v sched (a2a_start (\<lambda>_. 0) 0) = (result, t)"
  shows "(result i \<noteq> None \<longrightarrow> result i = Some (\<Sum>cl < 2 ^ K. \<Sum>co < M. v cl co))
    \<and> (result i = None \<longrightarrow> (\<exists>x. a2a_valid (2 ^ K) M x \<and> a2a_step (pow2_comm K) M v x t \<noteq> t))
    \<and> (\<forall>x. a2a_valid (2 ^ K) M x \<and> a2a_step (pow2_comm K) M v x t \<noteq> t
         \<longrightarrow> a2a_left (2 ^ K) M (a2a_step (pow2_comm K) M v x t) < a2a_left (2 ^ K) M t)"
proof -
  have I: "a2a_inv K M v (\<lambda>_. 0) 0 t"
    using a2a_run_inv [OF assms(1) a2a_start_inv assms(2), of v "\<lambda>_. 0" 0] assms(4) by (simp add: snrt_global_all_to_all_reduction_def Let_def)
  have r: "result i = (if a2a_dm t i = A2a_end then Some (a2a_cluster t i) else None)"
    using assms(4) by (auto simp: snrt_global_all_to_all_reduction_def Let_def)
  have "a2a_dm t i = A2a_end \<Longrightarrow> a2a_cluster t i = (\<Sum>cl < 2 ^ K. \<Sum>co < M. v cl co)"
    using a2a_invD(2) [OF I assms(3)] by (simp add: a2a_total_def)
  then show ?thesis using r a2a_progress [OF assms(1) I assms(3)] a2a_step_left [OF assms(1)] by auto
qed

definition sample_a2a :: "a2a_call list" where
  "sample_a2a = [Core_adds 1 0, Core_adds 0 1, Mover 0, Core_adds 0 0, Core_adds 1 1, Mover 1, Mover 1, Mover 0, Mover 0, Mover 0,
     Mover 0, Mover 1, Mover 0, Mover 0, Mover 1, Mover 0, Mover 1]"

theorem all_to_all_sum_witness:
  "fst (snrt_global_all_to_all_reduction (pow2_comm 1) 2 (\<lambda>cl co. of_nat (10 * cl + co)) sample_a2a (a2a_start (\<lambda>_. 0) 0)) 1 = Some 22"
proof -
  let ?r = "snrt_global_all_to_all_reduction (pow2_comm 1) 2 (\<lambda>cl co. of_nat (10 * cl + co)) sample_a2a (a2a_start (\<lambda>_. 0) 0)"
  have "fst ?r 1 \<noteq> None" by code_simp
  moreover have "\<forall>x \<in> set sample_a2a. a2a_valid (2 ^ 1) 2 x" by (simp add: sample_a2a_def)
  ultimately show ?thesis
    using all_to_all_sum [of 1 sample_a2a 2 1 "\<lambda>cl co. of_nat (10 * cl + co)" "fst ?r" "snd ?r"] by (simp add: numeral_2_eq_2)
qed

text \<open>
  A second all-to-all reduction is wrong. The words are never set back to 0: they all hold the first result \<open>S\<close>, and a second call
  returns \<open>S\<close> once for the global word and once more for each cluster, plus the sum it should return.
\<close>

lemma all_to_all_words:
  assumes "K < 32" and "a2a_inv K M v c0 g0 t" and "i < 2 ^ K" and "a2a_dm t i = A2a_end"
  shows "a2a_cluster t i = a2a_total (2 ^ K) M v c0 g0 \<and> a2a_global t = a2a_total (2 ^ K) M v c0 g0"
  using a2a_invD(2) [OF assms(2,3)] a2a_global_total [OF assms(1-3)] assms(4) by simp

lemma all_to_all_not_reusable:
  assumes "K < 32" and "i < 2 ^ K" and "\<forall>x \<in> set sched. a2a_valid (2 ^ K) M x"
    and "snrt_global_all_to_all_reduction (pow2_comm K) M w sched (a2a_start (\<lambda>_. S) S) = (result, t)" and "result i = Some r"
  shows "r = of_nat (2 ^ K + 1) * S + (\<Sum>cl < 2 ^ K. \<Sum>co < M. w cl co)"
proof -
  have t: "t = fold (a2a_step (pow2_comm K) M w) sched (a2a_start (\<lambda>_. S) S)" "a2a_dm t i = A2a_end" "r = a2a_cluster t i"
    using assms(4,5) by (auto simp: snrt_global_all_to_all_reduction_def Let_def split: if_splits)
  have "a2a_inv K M w (\<lambda>_. S) S t" unfolding t(1) by (rule a2a_run_inv [OF assms(1) a2a_start_inv assms(3)])
  from all_to_all_words [OF assms(1) this assms(2) t(2)] show ?thesis
    by (simp add: t(3) a2a_total_def sum.distrib algebra_simps)
qed

end
