(* ===== verification/Start.thy ===== *)
theory Start
  imports Dma Alloc_V2 Reduction
begin

text \<open>
  The start of a program: the registers that the assembly start-up computes
  (\<open>sw/runtime/src/start.S\<close>), the C start-up of each section (\<open>start.c\<close>) and the exit
  (\<open>start.h\<close>), with the flags of \<open>sw/runtime/impl/snitch_cluster_start.h\<close>.

  A start-up function of a hart is its events (interrupts, barriers) and, where it drives the DMA,
  the state of the DMA and the rest of the schedule it leaves, as in theory \<open>Dma\<close>.
\<close>

subsection \<open>Registers\<close>

definition tdata_size :: "linker \<Rightarrow> u32" where "tdata_size lk = tdata_end lk - tdata_start lk"
definition tbss_size :: "linker \<Rightarrow> u32" where "tbss_size lk = tbss_end lk - tbss_start lk"

text \<open>\<open>init_core_info\<close>, \<open>init_cls\<close>: the register \<open>a2\<close>, the end of the TCDM below the CLS.\<close>

definition crt0_tcdm_end :: "snrt_cfg \<Rightarrow> linker \<Rightarrow> u32 \<Rightarrow> u32" where
  "crt0_tcdm_end c lk hartid =
     (let a0 = hartid - BASE_HARTID c;
          a1 = CLUSTER_CORE_NUM c;
          t0 = sdiv32 a0 a1;
          a2 = TCDM_START_ADDR c;
          t1 = CLUSTER_OFFSET c;
          t0 = t1 * t0;
          a2 = a2 + t0;
          t0 = TCDM_SIZE c;
          a2 = a2 + t0;
          a2 = a2 - (cdata_end lk - cdata_start lk)
      in a2 - (cbss_end lk - cbss_start lk))"

text \<open>\<open>init_stack\<close>: the stack pointer before the thread-local storage is reserved.\<close>

definition crt0_stack :: "snrt_cfg \<Rightarrow> linker \<Rightarrow> u32 \<Rightarrow> u32" where
  "crt0_stack c lk hartid =
     (let a0 = (hartid - BASE_HARTID c) mod CLUSTER_CORE_NUM c;
          a2 = crt0_tcdm_end c lk hartid - 8;
          t0 = push_bit (LOG2_STACK_SIZE c) a0;
          sp = a2 - t0;
          t0 = push_bit 3 a0
      in sp - t0)"

text \<open>\<open>init_tls\<close>: the thread pointer, from which the stack grows down.\<close>

definition crt0_tp :: "snrt_cfg \<Rightarrow> linker \<Rightarrow> u32 \<Rightarrow> u32" where
  "crt0_tp c lk hartid =
     (let sp = crt0_stack c lk hartid - tdata_size lk;
          sp = sp - tbss_size lk
      in sp AND NOT 7)"

subsection \<open>Sections\<close>

fun memset_each :: "snrt_cfg \<Rightarrow> (transfer \<Rightarrow> mem \<Rightarrow> mem) \<Rightarrow> u32 \<Rightarrow> u32 \<Rightarrow> u32 \<Rightarrow> nat \<Rightarrow> nat \<Rightarrow> u32 list
    \<Rightarrow> dma \<Rightarrow> (dma \<times> u32 list) option" where
  "memset_each c coll ptr off len i 0 sch s = Some (s, sch)"
| "memset_each c coll ptr off len i (Suc n) sch s =
     (case snrt_dma_memset c coll (ptr + of_nat i * off) 0 len sch s of
        None \<Rightarrow> None
      | Some (s', sch') \<Rightarrow> memset_each c coll ptr off len (Suc i) n sch' s')"

definition tls_offset :: "snrt_cfg \<Rightarrow> u32" where
  "tls_offset c = push_bit (LOG2_STACK_SIZE c) 1 + 8"

definition snrt_init_tls :: "snrt_cfg \<Rightarrow> (transfer \<Rightarrow> mem \<Rightarrow> mem) \<Rightarrow> linker \<Rightarrow> u32 \<Rightarrow> u32 \<Rightarrow> u32 list \<Rightarrow> dma
    \<Rightarrow> (hw_event list \<times> dma \<times> u32 list) option" where
  "snrt_init_tls c coll lk tp h sch s0 =
     map_option (\<lambda>(s, sch). (snrt_cluster_hw_barrier, s, sch))
      (if snrt_is_dm_core c h then
        (let len = tdata_size lk;
             tls_ptr = tp;
             (_, s1) = snrt_dma_start_1d c (ucast tls_ptr) (ucast (tdata_start lk)) len 0 s0
         in case snrt_dma_wait_all c coll 0 sch s1 of
              None \<Rightarrow> None
            | Some (s2, sch2) \<Rightarrow>
               (let s3 = for_upto 1 (unat (snrt_cluster_core_num c)) (\<lambda>i s.
                      snd (snrt_dma_start_1d c (ucast (tls_ptr + of_nat i * tls_offset c)) (ucast tls_ptr) len 0 s)) s2;
                    tls_ptr = tls_ptr + len;
                    len = tbss_size lk
                in case memset_each c coll tls_ptr (tls_offset c) len 0 (unat (snrt_cluster_core_num c)) sch2 s3 of
                     None \<Rightarrow> None
                   | Some (s4, sch4) \<Rightarrow> snrt_dma_wait_all c coll 0 sch4 s4))
       else Some (s0, sch))"

definition snrt_init_bss :: "snrt_cfg \<Rightarrow> (transfer \<Rightarrow> mem \<Rightarrow> mem) \<Rightarrow> linker \<Rightarrow> u32 \<Rightarrow> u32 list \<Rightarrow> dma
    \<Rightarrow> (hw_event list \<times> dma \<times> u32 list) option" where
  "snrt_init_bss c coll lk h sch s =
     (if snrt_cluster_idx c h = 0 then
        map_option (\<lambda>(s, sch). (snrt_cluster_hw_barrier, s, sch))
          (if snrt_is_dm_core c h then
             (let len = bss_end lk - bss_start lk
              in case snrt_dma_memset c coll (bss_start lk) 0 len sch s of
                   None \<Rightarrow> None
                 | Some (s', sch') \<Rightarrow> snrt_dma_wait_all c coll 0 sch' s')
           else Some (s, sch))
      else Some ([], s, sch))"

definition snrt_wake_up :: "snrt_cfg \<Rightarrow> u32 \<Rightarrow> hw_event list" where
  "snrt_wake_up c h =
     (if snrt_cluster_idx c h = 0 \<and> snrt_cluster_core_idx c h = 0
      then concat (map (\<lambda>i. if snrt_cluster_idx c h \<noteq> of_nat i
             then [Ev_clint_set (of_nat i) (ucast (push_bit (unat (snrt_cluster_core_num c)) 1 - 1 :: u32))]
             else []) [0..<unat (snrt_cluster_num c)]) @ snrt_fence
      else [])
     @ snrt_cluster_hw_barrier @ snrt_int_clr_mcip c h"

text \<open>The first component is the value of \<open>_cls_ptr\<close> of the hart.\<close>

definition snrt_init_cls :: "snrt_cfg \<Rightarrow> (transfer \<Rightarrow> mem \<Rightarrow> mem) \<Rightarrow> linker \<Rightarrow> u32 \<Rightarrow> u32 list \<Rightarrow> dma
    \<Rightarrow> (u32 \<times> hw_event list \<times> dma \<times> u32 list) option" where
  "snrt_init_cls c coll lk h sch s =
     map_option (\<lambda>(s, sch). (snrt_cls_base_addr c lk h, snrt_cluster_hw_barrier, s, sch))
      (if snrt_is_dm_core c h then
        (let ptr = (ucast (snrt_cls_base_addr c lk h) :: u64);
             len = cdata_end lk - cdata_start lk;
             (_, s1) = snrt_dma_start_1d c ptr (ucast (cdata_start lk)) len 0 s;
             ptr = ptr + ucast len;
             len = cbss_end lk - cbss_start lk
         in case snrt_dma_memset c coll (ucast ptr) 0 len sch s1 of
              None \<Rightarrow> None
            | Some (s2, sch2) \<Rightarrow> snrt_dma_wait_all c coll 0 sch2 s2)
       else Some (s, sch))"

text \<open>The allocators of both APIs and the communicators; a trap of the allocator ends the start-up.\<close>

definition snrt_init_libs :: "snrt_cfg \<Rightarrow> linker \<Rightarrow> u32 \<Rightarrow> u32 \<Rightarrow> (snrt_comm_info \<Rightarrow> hw_event list)
    \<Rightarrow> snrt_allocator \<times> snrt_allocator
    \<Rightarrow> snrt_trap + snrt_comm_info \<times> (snrt_allocator \<times> snrt_allocator) \<times> (snrt_allocator \<times> snrt_allocator) \<times> hw_event list" where
  "snrt_init_libs c lk gcnt h sw_barrier st =
     (let ((l1, l3), es1) = snrt_alloc_init c lk h st;
          l1v2 = snrt_l1_init c lk h;
          l3v2 = snrt_l3_init c lk
      in case snrt_comm_init c gcnt h sw_barrier l1 l1v2 of
           Inl t \<Rightarrow> Inl t
         | Inr (world, l1', l1v2', es2) \<Rightarrow> Inr (world, (l1', l3), (l1v2', l3v2), es1 @ es2))"

subsection \<open>Exit\<close>

text \<open>\<open>dest\<close> is \<open>snrt_exit_code_destination()\<close>.\<close>

definition snrt_exit_default :: "snrt_cfg \<Rightarrow> u32 \<Rightarrow> u32 \<Rightarrow> u32 \<Rightarrow> snrt_comm_info \<Rightarrow> u32 \<Rightarrow> reduction_view \<Rightarrow> u32 \<Rightarrow> hw_event list" where
  "snrt_exit_default c dest gres h world cls view exit_code =
     (let reduced = rv_sum view
      in all_to_all_events c h world cls gres view exit_code
         @ (if snrt_global_core_idx c h = 0 then [Ev_store32 dest (push_bit 1 reduced OR 1)] else []))"

subsection \<open>The main routine\<close>

text \<open>
  \<open>main_ev\<close> is the program, which is not part of this code: its exit code and its events. \<open>view\<close> is what this hart reads in
  the reduction of the exit codes.
\<close>

definition snrt_main :: "snrt_cfg \<Rightarrow> (transfer \<Rightarrow> mem \<Rightarrow> mem) \<Rightarrow> linker \<Rightarrow> u32 \<Rightarrow> u32 \<Rightarrow> u32 \<Rightarrow> u32 \<Rightarrow> u32
    \<Rightarrow> (snrt_comm_info \<Rightarrow> hw_event list) \<Rightarrow> snrt_allocator \<times> snrt_allocator \<Rightarrow> u32 \<times> hw_event list
    \<Rightarrow> reduction_view \<Rightarrow> u32 list \<Rightarrow> dma \<Rightarrow> (snrt_trap + hw_event list \<times> dma) option" where
  "snrt_main c coll lk gcnt dest gres tp h sw_barrier st main_ev view sch s =
     (case snrt_init_bss c coll lk h sch s of None \<Rightarrow> None | Some (e1, s1, sch1) \<Rightarrow>
      (case snrt_init_tls c coll lk tp h sch1 s1 of None \<Rightarrow> None | Some (e2, s2, sch2) \<Rightarrow>
      (case snrt_init_cls c coll lk h sch2 s2 of None \<Rightarrow> None | Some (cls, e3, s3, _) \<Rightarrow>
      (case snrt_init_libs c lk gcnt h sw_barrier st of
         Inl t \<Rightarrow> Some (Inl t)
       | Inr (world, _, _, e4) \<Rightarrow>
           (let (exit_code, e5) = main_ev
            in Some (Inr (
                (if snrt_cluster_idx c h = 0 then snrt_int_clr_mcip c h else [])
                @ e1 @ snrt_wake_up c h @ e2 @ e3 @ e4
                @ snrt_cluster_hw_barrier @ e5 @ snrt_cluster_hw_barrier
                @ snrt_exit_default c dest gres h world cls view exit_code, s3)))))))"

subsection \<open>Barriers\<close>

definition barriers :: "hw_event list \<Rightarrow> nat" where
  "barriers es = count_list es Ev_barrier"

lemma barriers_append [simp]: "barriers (es @ fs) = barriers es + barriers fs"
  by (simp add: barriers_def)

lemma barriers_list [simp]: "barriers [] = 0" "barriers (e # es) = (if e = Ev_barrier then 1 else 0) + barriers es"
  by (simp_all add: barriers_def)

lemma barriers_simple [simp]:
  "barriers snrt_cluster_hw_barrier = 1" "barriers snrt_fence = 0"
  "barriers snrt_wfi = 0" "barriers (snrt_int_clr_mcip c h) = 0"
  "barriers (snrt_int_cluster_set_of m cl) = 0"
  "barriers (snrt_enable_multicast c x) = 0" "barriers snrt_disable_multicast = 0"
  by (simp_all add: snrt_cluster_hw_barrier_def snrt_fence_def snrt_wfi_def
      snrt_int_clr_mcip_def snrt_int_clr_mcip_unsafe_def snrt_int_cluster_clr_def
      snrt_int_cluster_set_of_def snrt_enable_multicast_def snrt_disable_multicast_def snrt_set_awuser_def)

lemma barriers_concat: "(\<And>es. es \<in> set ess \<Longrightarrow> barriers es = 0) \<Longrightarrow> barriers (concat ess) = 0"
  by (induction ess) simp_all

lemma barriers_wake_clusters [simp]: "barriers (snrt_wake_clusters c h world m comm) = 0"
  by (auto simp: snrt_wake_clusters_def Let_def intro!: barriers_concat)

lemma barriers_wake_up [simp]: "barriers (snrt_wake_up c h) = 1"
  by (auto simp: snrt_wake_up_def intro!: barriers_concat)

lemma barriers_sw [simp]: "barriers (snrt_inter_cluster_sw_barrier c h world comm cnt) = 0"
  by (simp add: snrt_inter_cluster_sw_barrier_def Let_def)

lemma barriers_inter_cluster [simp]: "barriers (snrt_inter_cluster_barrier c h world comm cnt) = 0"
  by (simp add: snrt_inter_cluster_barrier_def Let_def snrt_enable_reduction_def snrt_disable_reduction_def snrt_set_awuser_def)

text \<open>Every core of a cluster passes two barriers in the reduction of the exit codes, the data mover between the clusters too.\<close>

lemma barriers_exit [simp]: "barriers (snrt_exit_default c dest gres h world cls view code) = 2"
  by (simp add: snrt_exit_default_def all_to_all_events_def Let_def)

lemma barriers_global_sw [simp]: "barriers (snrt_global_sw_barrier c h world comm cnt) = 2"
  by (simp add: snrt_global_sw_barrier_def)

lemma barriers_bss: "snrt_init_bss c coll lk h sch s = Some (es, s', sch')
    \<Longrightarrow> barriers es = (if snrt_cluster_idx c h = 0 then 1 else 0)"
  by (auto simp: snrt_init_bss_def split: if_splits)

lemma barriers_tls: "snrt_init_tls c coll lk tp h sch s = Some (es, s', sch') \<Longrightarrow> barriers es = 1"
  by (auto simp: snrt_init_tls_def)

lemma barriers_cls: "snrt_init_cls c coll lk h sch s = Some (p, es, s', sch') \<Longrightarrow> barriers es = 1"
  by (auto simp: snrt_init_cls_def)

lemma barriers_libs:
  assumes "snrt_init_libs c lk gcnt h sw st = Inr (w, a, b, es)" and "\<And>w. barriers (sw w) = 2"
  shows "barriers es = 3"
  using assms
  by (auto simp: snrt_init_libs_def snrt_alloc_init_def snrt_comm_init_def Let_def
      split: prod.splits sum.splits if_splits)

lemma snrt_main_barriers:
  assumes "snrt_main c coll lk gcnt dest gres tp h sw st main_ev view sch s = Some (Inr (es, s'))"
    and "\<And>w. barriers (sw w) = 2"
  shows "barriers es = (if snrt_cluster_idx c h = 0 then 11 else 10) + barriers (snd main_ev)"
  using assms
  by (auto simp: snrt_main_def dest!: barriers_bss barriers_tls barriers_cls barriers_libs
      split: option.splits sum.splits prod.splits)

text \<open>
  C24: No core is left at a barrier of the runtime. Two cores of one cluster that run the start-up, a program and the exit with its
  reduction of the exit codes pass the same number of hardware barriers when the program passes as many on both, although only one
  of them clears sections, wakes clusters, drives the DMA or synchronises the clusters, and
  although cluster 0 has one barrier more than the others.\<close>

theorem startup_barriers_match:
  assumes "snrt_main c coll lk gcnt dest gres tp h (\<lambda>w. snrt_global_sw_barrier c h w None cnt) st main_ev
        view sch s = Some (Inr (es, t))"
    and "snrt_main c coll lk gcnt dest gres tp' h' (\<lambda>w. snrt_global_sw_barrier c h' w None cnt') st' main_ev'
        view' sch' s' = Some (Inr (es', t'))"
    and "snrt_cluster_idx c h = snrt_cluster_idx c h'"
    and "count_list (snd main_ev) Ev_barrier = count_list (snd main_ev') Ev_barrier"
  shows "count_list es Ev_barrier = count_list es' Ev_barrier"
  using snrt_main_barriers [OF assms(1) barriers_global_sw] snrt_main_barriers [OF assms(2) barriers_global_sw] assms(3,4)
  unfolding barriers_def by simp

definition sample_linker :: linker where
  "sample_linker = \<lparr>cdata_start = 0x80001000, cdata_end = 0x80001010, cbss_start = 0x80001010, cbss_end = 0x80001020,
     tdata_start = 0x80001020, tdata_end = 0x80001028, tbss_start = 0x80001028, tbss_end = 0x80001070,
     bss_start = 0x80002000, bss_end = 0x80002080, edram = 0x80003000\<rparr>"

definition no_heap :: snrt_allocator where
  "no_heap = \<lparr>al_base = 0, al_end = 0, al_next = 0\<rparr>"

text \<open>Without a DMA the cores copy and clear themselves, and the start-up cannot be stuck.\<close>

lemma memset_each_no_dma: "\<not> SUPPORTS_DMA c \<Longrightarrow> \<exists>s'. memset_each c coll p off len i n sch s = Some (s', sch)"
  by (induction n arbitrary: i s) (auto simp: snrt_dma_memset_def)

lemma main_no_dma:
  assumes "\<not> SUPPORTS_DMA c" and "snrt_init_libs c lk gcnt h sw st = Inr r"
  shows "\<exists>es t. snrt_main c coll lk gcnt dest gres tp h sw st main_ev view sch s = Some (Inr (es, t))"
proof -
  have w: "snrt_dma_wait_all c coll 0 sch s = Some (s, sch)" for sch s
    using assms(1) by (simp add: snrt_dma_wait_all_def)
  have b: "\<exists>es s'. snrt_init_bss c coll lk h sch s = Some (es, s', sch)" for s
    using assms(1) by (auto simp: snrt_init_bss_def snrt_dma_memset_def w)
  define f where "f p off len i n s = fst (the (memset_each c coll p off len i n sch s))" for p off len i n s
  have f: "memset_each c coll p off len i n sch s = Some (f p off len i n s, sch)" for p off len i n s
    using memset_each_no_dma [OF assms(1), of coll p off len i n sch s] by (auto simp: f_def)
  have t: "\<exists>es s'. snrt_init_tls c coll lk tp h sch s = Some (es, s', sch)" for s
    by (simp add: snrt_init_tls_def w f Let_def case_prod_beta)
  have l: "\<exists>p es s'. snrt_init_cls c coll lk h sch s = Some (p, es, s', sch)" for s
    using assms(1) by (auto simp: snrt_init_cls_def snrt_dma_memset_def w Let_def split: prod.splits)
  obtain e1 s1 where b': "snrt_init_bss c coll lk h sch s = Some (e1, s1, sch)" using b by blast
  obtain e2 s2 where t': "snrt_init_tls c coll lk tp h sch s1 = Some (e2, s2, sch)" using t by blast
  obtain p e3 s3 where l': "snrt_init_cls c coll lk h sch s2 = Some (p, e3, s3, sch)" using l by blast
  show ?thesis
    by (simp add: snrt_main_def b' t' l' assms(2) case_prod_beta)
qed

lemma sample_l1: "h = 16 \<or> h = 24 \<Longrightarrow>
  \<exists>r. snrt_l1_alloc_cluster_local 4 1 (snrt_l1_init (sample_cfg\<lparr>SUPPORTS_DMA := False\<rparr>) sample_linker h) = Inr r"
  by (elim disjE; simp add: snrt_l1_init_def snrt_cls_base_addr_def sample_cfg_def sample_linker_def team_defs
    snrt_cluster_self_def snrt_cluster_addr_def snrt_align_up_def MIN_CHUNK_SIZE_def snrt_l1_alloc_cluster_local_def
    align_next_def snrt_l1_next_v2_def snrt_l1_alloc_check_bounds_def Let_def)

lemma sample_libs: "h = 16 \<or> h = 24
  \<Longrightarrow> \<exists>r. snrt_init_libs (sample_cfg\<lparr>SUPPORTS_DMA := False\<rparr>) sample_linker 0x80000100 h sw (no_heap, no_heap) = Inr r"
  using sample_l1 [of h] by (auto simp: snrt_init_libs_def snrt_comm_init_def Let_def snrt_alloc_init_def case_prod_beta)

definition sample_view :: reduction_view where
  "sample_view = \<lparr>rv_cnt = 1, rv_cluster = 0, rv_sum = 0\<rparr>"

theorem startup_barriers_match_witness:
  "\<exists>es t es' t'.
    snrt_main (sample_cfg\<lparr>SUPPORTS_DMA := False\<rparr>) (\<lambda>_ m. m) sample_linker 0x80000100 0x80000200 0x80000104 0x1001e000 16
      (\<lambda>w. snrt_global_sw_barrier (sample_cfg\<lparr>SUPPORTS_DMA := False\<rparr>) 16 w None 1) (no_heap, no_heap)
      (0, [Ev_barrier]) sample_view [] (sample_dma (\<lambda>_. 0)) = Some (Inr (es, t))
    \<and> snrt_main (sample_cfg\<lparr>SUPPORTS_DMA := False\<rparr>) (\<lambda>_ m. m) sample_linker 0x80000100 0x80000200 0x80000104 0x1001c000 24
      (\<lambda>w. snrt_global_sw_barrier (sample_cfg\<lparr>SUPPORTS_DMA := False\<rparr>) 24 w None 2) (no_heap, no_heap)
      (0, [Ev_barrier]) sample_view [] (sample_dma (\<lambda>_. 0)) = Some (Inr (es', t'))
    \<and> count_list es Ev_barrier = count_list es' Ev_barrier"
proof -
  let ?c = "sample_cfg\<lparr>SUPPORTS_DMA := False\<rparr>"
  have nd: "\<not> SUPPORTS_DMA ?c" by simp
  have id: "snrt_cluster_idx ?c 16 = snrt_cluster_idx ?c 24"
    by (simp add: team_defs sample_cfg_def)
  obtain r1 where r1: "snrt_init_libs ?c sample_linker 0x80000100 16
      (\<lambda>w. snrt_global_sw_barrier ?c 16 w None 1) (no_heap, no_heap) = Inr r1" using sample_libs by blast
  obtain r2 where r2: "snrt_init_libs ?c sample_linker 0x80000100 24
      (\<lambda>w. snrt_global_sw_barrier ?c 24 w None 2) (no_heap, no_heap) = Inr r2" using sample_libs by blast
  obtain es t where 1: "snrt_main ?c (\<lambda>_ m. m) sample_linker 0x80000100 0x80000200 0x80000104 0x1001e000 16
      (\<lambda>w. snrt_global_sw_barrier ?c 16 w None 1) (no_heap, no_heap)
      (0, [Ev_barrier]) sample_view [] (sample_dma (\<lambda>_. 0)) = Some (Inr (es, t))"
    using main_no_dma [OF nd r1] by blast
  obtain es' t' where 2: "snrt_main ?c (\<lambda>_ m. m) sample_linker 0x80000100 0x80000200 0x80000104 0x1001c000 24
      (\<lambda>w. snrt_global_sw_barrier ?c 24 w None 2) (no_heap, no_heap)
      (0, [Ev_barrier]) sample_view [] (sample_dma (\<lambda>_. 0)) = Some (Inr (es', t'))"
    using main_no_dma [OF nd r2] by blast
  show ?thesis using 1 2 startup_barriers_match [OF 1 2 id] by auto
qed

subsection \<open>Thread-local storage\<close>

text \<open>Byte \<open>k\<close> of slot \<open>j\<close>; the slots are \<open>d\<close> bytes apart.\<close>

definition slot :: "u32 \<Rightarrow> nat \<Rightarrow> nat \<Rightarrow> nat \<Rightarrow> u64" where
  "slot base d j k = ucast base + of_nat (j * d + k)"

lemma in_block_offsets:
  assumes "p < 2 ^ 33" and "q < 2 ^ 33" and "n < 2 ^ 33"
  shows "in_block (b + of_nat p) n (b + of_nat q :: u64) \<longleftrightarrow> p \<le> q \<and> q < p + n"
proof (cases "p \<le> q")
  case True
  have "b + of_nat q - (b + of_nat p) = (of_nat (q - p) :: u64)" using True by (simp add: of_nat_diff)
  moreover have "unat (of_nat (q - p) :: u64) = q - p"
    using assms by (intro unat_of_nat_small) simp
  ultimately show ?thesis using True by (auto simp: in_block_def)
next
  case False
  have "b + of_nat q - (b + of_nat p) = (- of_nat (p - q) :: u64)" using False by (simp add: of_nat_diff)
  moreover have "unat (of_nat (p - q) :: u64) = p - q"
    using assms by (intro unat_of_nat_small) simp
  moreover have "unat (- of_nat (p - q) :: u64) = 2 ^ 64 - (p - q)"
    using calculation(2) False by (subst unat_neg) auto
  ultimately show ?thesis using False assms by (simp add: in_block_def)
qed

lemma slot_disjoint:
  fixes d :: nat
  assumes "x + n \<le> d" and "y < d" and "j \<noteq> i"
  shows "\<not> (i * d + x \<le> j * d + y \<and> j * d + y < i * d + x + n)"
proof (cases "j < i")
  case True
  then have "Suc j * d \<le> i * d" by (intro mult_le_mono1) simp
  then show ?thesis using assms by simp
next
  case False
  then have "Suc i * d \<le> j * d" using assms(3) by (intro mult_le_mono1) simp
  then show ?thesis using assms by simp
qed

text \<open>The layout: \<open>n\<close> slots of \<open>d\<close> bytes below \<open>2\<^sup>3\<^sup>2\<close>, each with \<open>dn\<close> bytes of data and \<open>bn\<close> bytes to clear.\<close>

definition tls_fits :: "u32 \<Rightarrow> nat \<Rightarrow> nat \<Rightarrow> nat \<Rightarrow> nat \<Rightarrow> bool" where
  "tls_fits base d n dn bn \<longleftrightarrow> unat base + n * d \<le> 2 ^ 32 \<and> dn + bn \<le> d"

lemma slot_bound:
  assumes "tls_fits base d n dn bn" and "j < n" and "k \<le> d"
  shows "unat base + j * d + k \<le> 2 ^ 32"
proof -
  have "Suc j * d \<le> n * d" using assms(2) by (intro mult_le_mono1) simp
  then show ?thesis using assms(1,3) by (simp add: tls_fits_def)
qed

lemma slot_in_block:
  assumes "tls_fits base d n dn bn" and "j < n" "i < n" and "x + len \<le> d" and "y < d"
  shows "in_block (slot base d i x) len (slot base d j y) \<longleftrightarrow> i = j \<and> x \<le> y \<and> y < x + len"
proof -
  have "i * d + x < 2 ^ 33" "j * d + y < 2 ^ 33" "len < 2 ^ 33"
    using slot_bound [OF assms(1,3), of x] slot_bound [OF assms(1,2), of y]
      slot_bound [OF assms(1,3), of len] assms(4,5) by simp_all
  then have "in_block (slot base d i x) len (slot base d j y)
      \<longleftrightarrow> i * d + x \<le> j * d + y \<and> j * d + y < i * d + x + len"
    unfolding slot_def by (rule in_block_offsets)
  then show ?thesis using slot_disjoint [OF assms(4,5), of j i] by (cases "i = j") auto
qed

lemma unat_slot:
  assumes "tls_fits base d n dn bn" and "j < n" and "k < d"
  shows "unat base + j * d + k < 4294967296" and "unat (slot base d j k) = unat base + j * d + k"
proof -
  have "unat base + j * d + d \<le> 2 ^ 32" using slot_bound [OF assms(1,2), of d] by simp
  then show b: "unat base + j * d + k < 4294967296" using assms(3) by simp
  then have "unat (slot base d j k) = unat base + (j * d + k)"
    unfolding slot_def
    by (subst unat_add_no_ovf) (simp_all add: unat_of_nat_small del: of_nat_add of_nat_mult)
  then show "unat (slot base d j k) = unat base + j * d + k" by simp
qed

lemma slot_addr:
  assumes "tls_fits base d n dn bn" and "j < n" and "k < d" and "unat off = d" and "unat x = k"
  shows "ucast (base + x + of_nat j * off) = slot base d j k"
proof (rule unat_eqI)
  note b = unat_slot(1) [OF assms(1-3)]
  have "unat (of_nat j * off) = j * d"
  proof (cases "j = 0")
    case False
    then have "0 < d" using assms(3) by simp
    then have "j \<le> j * d" by simp
    with b have "j < 4294967296" by linarith
    then have "unat (of_nat j :: u32) = j" by (intro unat_of_nat_small) simp
    then show ?thesis using b assms(4) by (subst unat_mult_no_ovf) simp_all
  qed simp
  then have "unat (base + x + of_nat j * off) = unat base + k + j * d"
    using b assms(5) by (simp add: unat_add_no_ovf)
  then show "unat (ucast (base + x + of_nat j * off) :: u64) = unat (slot base d j k)"
    using unat_slot(2) [OF assms(1-3)] by simp
qed

lemma slot_plus: "slot base d j x + of_nat k = slot base d j (x + k)"
  by (simp add: slot_def algebra_simps)

lemma slot_apart:
  assumes "tls_fits base d n dn bn" and "j < n" "i < n"
    and "x + len \<le> d" and "y + m \<le> d" and "i \<noteq> j \<or> x + len \<le> y \<or> y + m \<le> x"
  shows "apart_from (slot base d i x) len (slot base d j y) m"
  unfolding apart_from_def
proof (intro allI impI notI)
  fix a
  assume a: "in_block (slot base d i x) len a" and b: "in_block (slot base d j y) m a"
  define k where "k = unat (a - slot base d j y)"
  have k: "k < m" using b by (simp add: k_def in_block_def)
  have "a = slot base d j y + of_nat k" by (simp add: k_def)
  then have "a = slot base d j (y + k)" by (simp only: slot_plus)
  then show False using a slot_in_block [OF assms(1-4), of "y + k"] k assms(5,6) by auto
qed

text \<open>The copies: after step \<open>i\<close> the first \<open>i\<close> slots mean the data, and the copies in flight are between slots.\<close>

definition slot_copy :: "u32 \<Rightarrow> nat \<Rightarrow> nat \<Rightarrow> nat \<Rightarrow> transfer \<Rightarrow> bool" where
  "slot_copy base d n dn t \<longleftrightarrow> (\<exists>j < n. plain_copy (slot base d j 0) (slot base d 0 0) dn t)"

definition data_slots :: "u32 \<Rightarrow> nat \<Rightarrow> nat \<Rightarrow> nat \<Rightarrow> (nat \<Rightarrow> u8) \<Rightarrow> mem \<Rightarrow> bool" where
  "data_slots base d i dn img m \<longleftrightarrow> (\<forall>j < i. \<forall>k < dn. m (slot base d j k) = img k)"

lemma copy_slot:
  assumes "tls_fits base d n dn bn" and "0 < i" "i < n" and "data_slots base d i dn img m"
  shows "data_slots base d (Suc i) dn img (copy_1d (slot base d i 0) (slot base d 0 0) dn m)"
  unfolding data_slots_def
proof (intro allI impI)
  fix j k
  assume j: "j < Suc i" and k: "k < dn"
  have jn: "j < n" and kd: "k < d" "0 + dn \<le> d" using j k assms(1,3) by (simp_all add: tls_fits_def)
  note B = slot_in_block [OF assms(1) jn assms(3) kd(2) kd(1)]
  show "copy_1d (slot base d i 0) (slot base d 0 0) dn m (slot base d j k) = img k"
  proof (cases "j = i")
    case True
    have "slot base d i k - slot base d i 0 = of_nat k" by (simp add: slot_def)
    then have "copy_1d (slot base d i 0) (slot base d 0 0) dn m (slot base d i k) = m (slot base d 0 k)"
      using B k True by (simp add: copy_1d_in slot_plus)
    then show ?thesis using True assms(2,4) k by (simp add: data_slots_def)
  next
    case False
    then have "copy_1d (slot base d i 0) (slot base d 0 0) dn m (slot base d j k) = m (slot base d j k)"
      using B by (simp add: copy_1d_out)
    then show ?thesis using False j assms(4) k by (simp add: data_slots_def)
  qed
qed

definition zero_slots :: "u32 \<Rightarrow> nat \<Rightarrow> nat \<Rightarrow> nat \<Rightarrow> nat \<Rightarrow> mem \<Rightarrow> bool" where
  "zero_slots base d i dn bn m \<longleftrightarrow> (\<forall>j < i. \<forall>k < bn. m (slot base d j (dn + k)) = 0)"

lemma fill_slot:
  assumes "tls_fits base d n dn bn" and "i < n"
  shows "data_slots base d n dn img m \<Longrightarrow> data_slots base d n dn img (fill (slot base d i dn) 0 bn m)"
    and "zero_slots base d i dn bn m \<Longrightarrow> zero_slots base d (Suc i) dn bn (fill (slot base d i dn) 0 bn m)"
proof -
  have f: "dn + bn \<le> d" using assms(1) by (simp add: tls_fits_def)
  have B: "in_block (slot base d i dn) bn (slot base d j y) \<longleftrightarrow> i = j \<and> dn \<le> y \<and> y < dn + bn"
    if "j < n" "y < d" for j y
    by (rule slot_in_block [OF assms(1) that(1) assms(2) f that(2)])
  show "data_slots base d n dn img m \<Longrightarrow> data_slots base d n dn img (fill (slot base d i dn) 0 bn m)"
    using B f by (simp add: data_slots_def fill_def)
  show "zero_slots base d i dn bn m \<Longrightarrow> zero_slots base d (Suc i) dn bn (fill (slot base d i dn) 0 bn m)"
    using B f assms(2) by (auto simp: zero_slots_def fill_def less_Suc_eq)
qed

lemma slot_copy_inert:
  assumes "tls_fits base d n dn bn" and "i < n" and "slot_copy base d n dn t"
  shows "inert (slot base d i dn) bn t"
proof -
  obtain j where j: "j < n" "plain_copy (slot base d j 0) (slot base d 0 0) dn t"
    using assms(3) by (auto simp: slot_copy_def)
  have f: "dn + bn \<le> d" "0 + dn \<le> d" "0 < n" using assms(1,2) by (simp_all add: tls_fits_def)
  show ?thesis unfolding inert_def
    using j slot_apart [OF assms(1) j(1) assms(2) f(1,2)] slot_apart [OF assms(1) f(3) assms(2) f(1,2)] by auto
qed

lemma slot_0: "slot base d 0 0 = ucast base"
  by (simp add: slot_def)

definition tls_state :: "(transfer \<Rightarrow> mem \<Rightarrow> mem) \<Rightarrow> u32 \<Rightarrow> nat \<Rightarrow> nat \<Rightarrow> nat \<Rightarrow> nat \<Rightarrow> (nat \<Rightarrow> u8) \<Rightarrow> dma \<Rightarrow> bool" where
  "tls_state coll base d n i dn img s \<longleftrightarrow> only_ch0 s \<and> data_slots base d i dn img (dma_seq coll s)
     \<and> (\<forall>t \<in> set (ch_pending (dm_chan s 0)). slot_copy base d n dn t)"

lemma copy_loop:
  assumes "SUPPORTS_DMA c" and "tls_fits base d n dn bn" and "unat off = d" and "unat len = dn" and "0 < d" and "0 < n"
    and s: "tls_state coll base d n 1 dn img s" "ch_pending (dm_chan s 0) = []"
  defines "t \<equiv> for_upto 1 n (\<lambda>i s. snd (snrt_dma_start_1d c (ucast (base + of_nat i * off)) (ucast base) len 0 s)) s"
  shows "tls_state coll base d n n dn img t \<and> length (ch_pending (dm_chan t 0)) = n - 1"
proof -
  have "1 \<le> n" using assms(6) by simp
  then show ?thesis unfolding t_def
  proof (rule for_upto_induct [where P = "\<lambda>i u. tls_state coll base d n i dn img u \<and> length (ch_pending (dm_chan u 0)) = i - 1"])
    show "tls_state coll base d n 1 dn img s \<and> length (ch_pending (dm_chan s 0)) = 1 - 1" using s by simp
    fix i u
    assume step: "1 \<le> i" "i < n" "tls_state coll base d n i dn img u \<and> length (ch_pending (dm_chan u 0)) = i - 1"
    have ad: "ucast (base + of_nat i * off) = slot base d i 0" "ucast base = slot base d 0 0"
      using slot_addr [OF assms(2) step(2) assms(5,3), of 0] by (simp_all add: slot_0)
    obtain x u' where u': "snrt_dma_start_1d c (slot base d i 0) (slot base d 0 0) len 0 u = (ch_next_id (dm_chan u 0), u')"
      "only_ch0 u'" "plain_copy (slot base d i 0) (slot base d 0 0) (unat len) x"
      "ch_pending (dm_chan u' 0) = ch_pending (dm_chan u 0) @ [x]"
      "dma_seq coll u' = copy_1d (slot base d i 0) (slot base d 0 0) (unat len) (dma_seq coll u)"
      using start_1d_seq [OF assms(1), of u "slot base d i 0" "slot base d 0 0" len coll] step(3)
      unfolding tls_state_def by blast
    have "data_slots base d (Suc i) dn img (dma_seq coll u')"
      using copy_slot [OF assms(2) _ step(2), of img "dma_seq coll u"] step(1,3) u'(5) assms(4)
      by (simp add: tls_state_def)
    moreover have "slot_copy base d n dn x" using u'(3) step(2) assms(4) by (auto simp: slot_copy_def)
    ultimately show "tls_state coll base d n (Suc i) dn img
          (snd (snrt_dma_start_1d c (ucast (base + of_nat i * off)) (ucast base) len 0 u))
        \<and> length (ch_pending (dm_chan (snd (snrt_dma_start_1d c (ucast (base + of_nat i * off)) (ucast base) len 0 u)) 0))
          = Suc i - 1"
      using step(1,3) u' unfolding ad by (auto simp: tls_state_def)
  qed
qed

lemma clear_loop:
  assumes "SUPPORTS_DMA c" and "tls_fits base d n dn bn" and "unat off = d" and "unat x = dn" "unat len = bn"
    and "dn < d" and "i + m = n"
    and "tls_state coll base d n n dn img s" and "zero_slots base d i dn bn (dma_seq coll s)"
    and "length (ch_pending (dm_chan s 0)) + m \<le> count_list sch 0"
  shows "\<exists>t sch'. memset_each c coll (base + x) off len i m sch s = Some (t, sch')
    \<and> tls_state coll base d n n dn img t \<and> zero_slots base d n dn bn (dma_seq coll t)
    \<and> length (ch_pending (dm_chan t 0)) \<le> count_list sch' 0"
  using assms(7-10)
proof (induction m arbitrary: i s sch)
  case 0
  then show ?case by simp
next
  case (Suc m)
  have i: "i < n" using Suc.prems(1) by simp
  have ad: "ucast (base + x + of_nat i * off) = slot base d i dn"
    using slot_addr [OF assms(2) i assms(6,3,4)] .
  have st: "only_ch0 s" "\<forall>t \<in> set (ch_pending (dm_chan s 0)). inert (slot base d i dn) (unat len) t"
    using Suc.prems(2) slot_copy_inert [OF assms(2) i] assms(5) by (auto simp: tls_state_def)
  have fit: "unat (base + x + of_nat i * off) + unat len \<le> 2 ^ 32"
  proof -
    have "unat (base + x + of_nat i * off) = unat (slot base d i dn)" by (simp only: ad [symmetric] unat_ucast32_64)
    also have "\<dots> = unat base + i * d + dn" by (rule unat_slot(2) [OF assms(2) i assms(6)])
    finally show ?thesis
      using slot_bound [OF assms(2) i, of "dn + bn"] assms(2,5) by (simp add: tls_fits_def)
  qed
  obtain u sch' where u: "snrt_dma_memset c coll (base + x + of_nat i * off) 0 len sch s = Some (u, sch')" "only_ch0 u"
    "dma_seq coll u = fill (slot base d i dn) 0 bn (dma_seq coll s)"
    "set (ch_pending (dm_chan u 0)) \<subseteq> set (ch_pending (dm_chan s 0))"
    "count_list sch 0 + length (ch_pending (dm_chan u 0)) \<le> count_list sch' 0 + length (ch_pending (dm_chan s 0)) + 1"
    using memset_seq [OF assms(1) st(1) fit, of sch coll 0] st(2) Suc.prems(4) assms(5) unfolding ad by auto
  have "tls_state coll base d n n dn img u" "zero_slots base d (Suc i) dn bn (dma_seq coll u)"
    using u(2-4) Suc.prems(2,3) fill_slot [OF assms(2) i] by (auto simp: tls_state_def)
  moreover have "length (ch_pending (dm_chan u 0)) + m \<le> count_list sch' 0" using u(5) Suc.prems(4) by simp
  ultimately show ?case using Suc.IH [of "Suc i" u sch'] Suc.prems(1) u(1) by simp
qed

lemma init_tls_slots:
  assumes "SUPPORTS_DMA c" and "snrt_is_dm_core c h" and "dma_idle s" and "dm_user s = 0"
    and n: "n = unat (CLUSTER_CORE_NUM c)" "0 < n"
    and fits: "tls_fits base d n dn bn" "unat (tls_offset c) = d" "unat (tdata_size lk) = dn" "unat (tbss_size lk) = bn" "dn < d"
    and sch: "2 * n \<le> count_list sch 0"
  shows "\<exists>t sch'. snrt_init_tls c coll lk base h sch s = Some (snrt_cluster_hw_barrier, t, sch')
    \<and> data_slots base d n dn (\<lambda>k. dm_mem s (ucast (tdata_start lk) + of_nat k)) (dm_mem t)
    \<and> zero_slots base d n dn bn (dm_mem t)"
proof -
  let ?img = "\<lambda>k. dm_mem s (ucast (tdata_start lk) + of_nat k)"
  have p: "ch_pending (dm_chan s 0) = []" using assms(3) by (simp add: dma_idle_def)
  note i0 = idle_only_ch0 [OF assms(3,4)]
  obtain x s1 where s1: "snrt_dma_start_1d c (ucast base) (ucast (tdata_start lk)) (tdata_size lk) 0 s = (ch_next_id (dm_chan s 0), s1)"
    "only_ch0 s1" "ch_pending (dm_chan s1 0) = [x]"
    "dma_seq coll s1 = copy_1d (ucast base) (ucast (tdata_start lk)) dn (dm_mem s)"
    using start_1d_seq [OF assms(1) i0, of "ucast base" "ucast (tdata_start lk)" "tdata_size lk" coll] fits(3)
    by (auto simp: p dma_seq_idle)
  obtain s2 sch2 where s2: "snrt_dma_wait_all c coll 0 sch s1 = Some (s2, sch2)" "dm_mem s2 = dma_seq coll s1" "only_ch0 s2"
    "ch_pending (dm_chan s2 0) = []" "count_list sch 0 \<le> count_list sch2 0 + 1"
    using wait_all_seq [OF assms(1) s1(2), of sch coll] s1(3) sch n(2) by auto
  have "data_slots base d 1 dn ?img (dma_seq coll s2)"
  proof -
    have "dm_mem s2 (slot base d 0 k) = ?img k" if "k < dn" for k
    proof -
      have "in_block (slot base d 0 0) dn (slot base d 0 k)"
        using slot_in_block [OF fits(1) n(2) n(2), of 0 dn k] that fits(5) by simp
      moreover have "slot base d 0 k - slot base d 0 0 = of_nat k" by (simp add: slot_def)
      ultimately show ?thesis by (simp add: s2(2) s1(4) copy_1d_in flip: slot_0 [of base d])
    qed
    then show ?thesis using s2(4) by (simp add: data_slots_def dma_seq_idle)
  qed
  then have S2: "tls_state coll base d n 1 dn ?img s2" using s2(3,4) by (simp add: tls_state_def)
  have d: "0 < d" using fits(5) by simp
  define s3 where "s3 = for_upto 1 n (\<lambda>i s. snd (snrt_dma_start_1d c (ucast (base + of_nat i * tls_offset c)) (ucast base) (tdata_size lk) 0 s)) s2"
  have S3: "tls_state coll base d n n dn ?img s3" "length (ch_pending (dm_chan s3 0)) = n - 1"
    using copy_loop [OF assms(1) fits(1,2,3) d n(2) S2 s2(4)] by (simp_all add: s3_def)
  have z: "zero_slots base d 0 dn bn (dma_seq coll s3)" by (simp add: zero_slots_def)
  have "length (ch_pending (dm_chan s3 0)) + n \<le> count_list sch2 0" using S3(2) sch s2(5) n(2) by linarith
  from clear_loop [OF assms(1) fits(1-5) _ S3(1) z this]
  obtain s4 sch4 where s4: "memset_each c coll (base + tdata_size lk) (tls_offset c) (tbss_size lk) 0 n sch2 s3 = Some (s4, sch4)"
    "tls_state coll base d n n dn ?img s4" "zero_slots base d n dn bn (dma_seq coll s4)"
    "length (ch_pending (dm_chan s4 0)) \<le> count_list sch4 0" by auto
  have "only_ch0 s4" using s4(2) by (simp add: tls_state_def)
  from wait_all_seq [OF assms(1) this s4(4), of coll] obtain t sch' where
    t: "snrt_dma_wait_all c coll 0 sch4 s4 = Some (t, sch')" "dm_mem t = dma_seq coll s4" by blast
  have "snrt_init_tls c coll lk base h sch s = Some (snrt_cluster_hw_barrier, t, sch')"
    using assms(2) s1(1) s2(1) s4(1) t(1)
    by (simp add: snrt_init_tls_def Let_def snrt_cluster_core_num_def n(1) [symmetric] s3_def [symmetric] del: One_nat_def)
  then show ?thesis using s4(2,3) t(2) by (simp add: tls_state_def)
qed

subsection \<open>The layout of the TCDM\<close>

text \<open>The assembly and \<open>snrt_cls_base_addr\<close> agree on the end of the TCDM.\<close>

lemma crt0_tcdm_end_eq:
  assumes "unat (snrt_global_core_idx c h) < 2 ^ 31" and "unat (CLUSTER_CORE_NUM c) < 2 ^ 31"
  shows "crt0_tcdm_end c lk h = snrt_cls_base_addr c lk h"
  using sdiv32_small [OF assms]
  by (simp add: crt0_tcdm_end_def snrt_cls_base_addr_def Let_def snrt_cluster_idx_def snrt_global_core_idx_def
      snrt_global_core_base_hartid_def snrt_cluster_core_num_def mult.commute)

text \<open>
  A hart has its TLS and its stack in a slot of \<open>2 ^ LOG2_STACK_SIZE + 8\<close> bytes. \<open>top\<close> is the
  end of the cluster's slots: the start of the cluster-local storage less the 8 bytes of the
  return value.
\<close>

definition stack_slot :: "snrt_cfg \<Rightarrow> nat" where
  "stack_slot c = 2 ^ LOG2_STACK_SIZE c + 8"

definition stacks_fit :: "snrt_cfg \<Rightarrow> linker \<Rightarrow> nat \<Rightarrow> bool" where
  "stacks_fit c lk cl \<longleftrightarrow> 3 \<le> LOG2_STACK_SIZE c \<and> LOG2_STACK_SIZE c < 31
     \<and> unat (CLUSTER_NUM c) * unat (CLUSTER_CORE_NUM c) < 2 ^ 31
     \<and> unat (tdata_size lk) + unat (tbss_size lk) + 7 \<le> 2 ^ LOG2_STACK_SIZE c
     \<and> unat (CLUSTER_CORE_NUM c) * stack_slot c + 128 \<le> unat (snrt_cls_base_addr c lk (hart_of c cl 0))
     \<and> unat (snrt_cls_base_addr c lk (hart_of c cl 0)) + stack_slot c \<le> 2 ^ 32"

lemma unat_tls_offset: "LOG2_STACK_SIZE c < 31 \<Longrightarrow> unat (tls_offset c) = stack_slot c"
proof -
  assume L: "LOG2_STACK_SIZE c < 31"
  have "(2 :: nat) ^ LOG2_STACK_SIZE c \<le> 2 ^ 30" using L by (intro power_increasing) simp_all
  moreover have "unat (push_bit (LOG2_STACK_SIZE c) 1 :: u32) = 2 ^ LOG2_STACK_SIZE c"
    using L by (simp add: push_bit_eq_mult unat_pow2)
  ultimately show ?thesis by (simp add: tls_offset_def stack_slot_def unat_add_no_ovf)
qed

lemma same_cluster:
  assumes "cfg_ok c" and "valid_core c cl co"
  shows "snrt_cls_base_addr c lk (hart_of c cl co) = snrt_cls_base_addr c lk (hart_of c cl 0)"
proof -
  have "valid_core c cl 0" using assms(2) by (auto simp: valid_core_def)
  then have "snrt_cluster_idx c (hart_of c cl co) = snrt_cluster_idx c (hart_of c cl 0)"
    using cluster_idx_hart_of [OF assms(1)] assms(2) by (metis unat_eqI)
  then show ?thesis by (simp add: snrt_cls_base_addr_def)
qed

lemma unat_crt0_stack:
  assumes "cfg_ok c" and "valid_core c cl co" and "stacks_fit c lk cl"
  shows "unat (crt0_stack c lk (hart_of c cl co)) + 8 + co * stack_slot c
    = unat (snrt_cls_base_addr c lk (hart_of c cl 0))"
proof -
  let ?h = "hart_of c cl co"
  let ?B = "unat (snrt_cls_base_addr c lk (hart_of c cl 0))"
  have L: "LOG2_STACK_SIZE c < 31" using assms(3) by (simp add: stacks_fit_def)
  have "unat (snrt_global_core_idx c ?h) < 2 ^ 31"
    using global_core_idx_hart_of [OF assms(1,2)] core_offset_bound [OF assms(2)] assms(3) by (simp add: stacks_fit_def)
  moreover have "unat (CLUSTER_CORE_NUM c) < 2 ^ 31"
  proof -
    have "1 * unat (CLUSTER_CORE_NUM c) \<le> unat (CLUSTER_NUM c) * unat (CLUSTER_CORE_NUM c)"
      using assms(1) by (intro mult_le_mono1) (simp add: cfg_ok_def word_less_nat_alt)
    then show ?thesis using assms(3) unfolding stacks_fit_def by linarith
  qed
  ultimately have e: "unat (crt0_tcdm_end c lk ?h) = ?B"
    using crt0_tcdm_end_eq same_cluster [OF assms(1,2)] by metis
  have co: "unat ((?h - BASE_HARTID c) mod CLUSTER_CORE_NUM c) = co"
    using cluster_core_idx_hart_of [OF assms(1,2)]
    by (simp add: snrt_cluster_core_idx_def snrt_global_core_idx_def snrt_global_core_base_hartid_def snrt_cluster_core_num_def)
  have slots: "Suc co * stack_slot c + 128 \<le> ?B"
  proof -
    have "Suc co * stack_slot c \<le> unat (CLUSTER_CORE_NUM c) * stack_slot c"
      using assms(2) by (intro mult_le_mono1) (simp add: valid_core_def)
    then show ?thesis using assms(3) by (simp add: stacks_fit_def)
  qed
  have s: "co * 2 ^ LOG2_STACK_SIZE c + co * 8 = co * stack_slot c" by (simp add: stack_slot_def algebra_simps)
  have B32: "?B < 4294967296" by (rule unat_lt_pow32)
  have 1: "unat (push_bit (LOG2_STACK_SIZE c) ((?h - BASE_HARTID c) mod CLUSTER_CORE_NUM c)) = co * 2 ^ LOG2_STACK_SIZE c"
    using slots s B32 L by (simp add: push_bit_eq_mult unat_mult_no_ovf co unat_pow2)
  have 2: "unat (push_bit 3 ((?h - BASE_HARTID c) mod CLUSTER_CORE_NUM c)) = co * 8"
    using slots s B32 by (simp add: push_bit_eq_mult unat_mult_no_ovf co)
  have a: "unat (crt0_tcdm_end c lk ?h - 8) = ?B - 8" using slots by (simp add: unat_sub_no_ovf e)
  have b: "unat (crt0_tcdm_end c lk ?h - 8 - push_bit (LOG2_STACK_SIZE c) ((?h - BASE_HARTID c) mod CLUSTER_CORE_NUM c))
      = ?B - 8 - co * 2 ^ LOG2_STACK_SIZE c"
    using slots s by (subst unat_sub_no_ovf) (simp_all add: a 1)
  have "unat (crt0_stack c lk ?h) = ?B - 8 - co * 2 ^ LOG2_STACK_SIZE c - co * 8"
    unfolding crt0_stack_def Let_def using slots s by (subst unat_sub_no_ovf) (simp_all add: b 2)
  then show ?thesis using slots s by simp
qed

lemma div_mult_diff:
  fixes x y k :: nat
  assumes "k dvd y" and "y \<le> x" and "0 < k"
  shows "(x - y) div k * k + y = x div k * k"
proof -
  obtain z where z: "y = k * z" using assms(1) by (rule dvdE)
  obtain w where w: "x = k * z + w" using assms(2) z le_Suc_ex by blast
  show ?thesis using assms(3) by (simp add: z w algebra_simps)
qed

text \<open>The thread pointers of a cluster: one slot apart, below the stacks' tops.\<close>

lemma unat_crt0_tp:
  assumes "cfg_ok c" and "valid_core c cl co" and "stacks_fit c lk cl"
  shows "unat (crt0_tp c lk (hart_of c cl co)) + co * stack_slot c
      = (unat (snrt_cls_base_addr c lk (hart_of c cl 0)) - 8 - unat (tdata_size lk) - unat (tbss_size lk)) div 8 * 8"
proof -
  let ?B = "unat (snrt_cls_base_addr c lk (hart_of c cl 0))"
  note st = unat_crt0_stack [OF assms]
  have tls: "unat (tdata_size lk) + unat (tbss_size lk) + 15 \<le> stack_slot c"
    using assms(3) by (simp add: stacks_fit_def stack_slot_def)
  have slots: "Suc co * stack_slot c + 128 \<le> ?B"
  proof -
    have "Suc co * stack_slot c \<le> unat (CLUSTER_CORE_NUM c) * stack_slot c"
      using assms(2) by (intro mult_le_mono1) (simp add: valid_core_def)
    then show ?thesis using assms(3) by (simp add: stacks_fit_def)
  qed
  have room: "unat (tdata_size lk) + unat (tbss_size lk) \<le> unat (crt0_stack c lk (hart_of c cl co))"
    using st tls slots by simp
  have "unat (crt0_stack c lk (hart_of c cl co) - tdata_size lk - tbss_size lk)
      = unat (crt0_stack c lk (hart_of c cl co)) - unat (tdata_size lk) - unat (tbss_size lk)"
    using room by (simp add: unat_sub_no_ovf)
  also have "\<dots> = ?B - 8 - unat (tdata_size lk) - unat (tbss_size lk) - co * stack_slot c" using st by simp
  finally have "unat (crt0_tp c lk (hart_of c cl co))
      = (?B - 8 - unat (tdata_size lk) - unat (tbss_size lk) - co * stack_slot c) div 8 * 8"
    unfolding crt0_tp_def Let_def unat_and_not_7 by (simp only:)
  moreover have "8 dvd co * stack_slot c"
  proof -
    have "(2 :: nat) ^ 3 dvd 2 ^ LOG2_STACK_SIZE c" using assms(3) by (intro le_imp_power_dvd) (simp add: stacks_fit_def)
    then show ?thesis by (simp add: stack_slot_def)
  qed
  moreover have "co * stack_slot c \<le> ?B - 8 - unat (tdata_size lk) - unat (tbss_size lk)" using slots tls by simp
  ultimately show ?thesis
    using div_mult_diff [of 8 "co * stack_slot c" "?B - 8 - unat (tdata_size lk) - unat (tbss_size lk)"]
    by (metis zero_less_numeral)
qed

lemma tp_slots:
  assumes "cfg_ok c" and "valid_core c cl co" and "stacks_fit c lk cl"
  shows "slot (crt0_tp c lk (hart_of c cl (unat (CLUSTER_CORE_NUM c) - 1))) (stack_slot c) (unat (CLUSTER_CORE_NUM c) - 1 - co) k
      = ucast (crt0_tp c lk (hart_of c cl co)) + of_nat k"
    and "tls_fits (crt0_tp c lk (hart_of c cl (unat (CLUSTER_CORE_NUM c) - 1))) (stack_slot c) (unat (CLUSTER_CORE_NUM c))
      (unat (tdata_size lk)) (unat (tbss_size lk))"
proof -
  let ?n = "unat (CLUSTER_CORE_NUM c)" and ?d = "stack_slot c"
  let ?base = "crt0_tp c lk (hart_of c cl (?n - 1))"
  have n: "0 < ?n" and co: "co < ?n" using assms(2) by (simp_all add: valid_core_def)
  have vd: "valid_core c cl (?n - 1)" "valid_core c cl 0" using assms(2) by (auto simp: valid_core_def)
  have e: "unat ?base + (?n - 1) * ?d = unat (crt0_tp c lk (hart_of c cl co)) + co * ?d"
    using unat_crt0_tp [OF assms] unat_crt0_tp [OF assms(1) vd(1) assms(3)] by simp
  have "(?n - 1 - co) * ?d + co * ?d = (?n - 1) * ?d"
    using co by (simp flip: add_mult_distrib)
  with e have "unat ?base + (?n - 1 - co) * ?d = unat (crt0_tp c lk (hart_of c cl co))" by linarith
  then have "(ucast (crt0_tp c lk (hart_of c cl co)) :: u64) = ucast ?base + of_nat ((?n - 1 - co) * ?d)"
    by (metis of_nat_add of_nat_unat)
  then show "slot ?base ?d (?n - 1 - co) k = ucast (crt0_tp c lk (hart_of c cl co)) + of_nat k"
    by (simp add: slot_def)
  have "unat ?base + (?n - 1) * ?d \<le> unat (snrt_cls_base_addr c lk (hart_of c cl 0))"
    using unat_crt0_tp [OF assms(1) vd(1) assms(3)] by simp
  moreover have "(?n - 1) * ?d + ?d = ?n * ?d" using n by (cases ?n) simp_all
  ultimately have "unat ?base + ?n * ?d \<le> 2 ^ 32" using assms(3) unfolding stacks_fit_def by linarith
  then show "tls_fits ?base ?d ?n (unat (tdata_size lk)) (unat (tbss_size lk))"
    using assms(3) by (simp add: tls_fits_def stacks_fit_def stack_slot_def)
qed

text \<open>
  C23: The start-up gives every core its thread-local storage. The data mover core of a cluster, at
  the thread pointer that the assembly computes for it, copies the initial data once from main memory
  and from there to the slots of the other cores, and clears the rest: afterwards, whatever the
  schedule of the engine, every core of the cluster finds at its own thread pointer the image of
  \<open>.tdata\<close> and zeros for \<open>.tbss\<close>.\<close>

theorem tls_initialised:
  assumes "cfg_ok c" and "CLUSTER_DM_CORE_NUM c = 1" and "SUPPORTS_DMA c" and "valid_core c cl co"
    and "stacks_fit c lk cl" and "dma_idle s" and "dm_user s = 0"
    and "2 * unat (CLUSTER_CORE_NUM c) \<le> count_list sch 0"
    and "dm = hart_of c cl (unat (CLUSTER_CORE_NUM c) - 1)"
  shows "\<exists>t sch'. snrt_init_tls c coll lk (crt0_tp c lk dm) dm sch s = Some ([Ev_barrier], t, sch')
    \<and> (\<forall>k < unat (tdata_size lk). dm_mem t (ucast (crt0_tp c lk (hart_of c cl co)) + of_nat k)
          = dm_mem s (ucast (tdata_start lk) + of_nat k))
    \<and> (\<forall>k < unat (tbss_size lk).
          dm_mem t (ucast (crt0_tp c lk (hart_of c cl co)) + of_nat (unat (tdata_size lk) + k)) = 0)"
proof -
  let ?n = "unat (CLUSTER_CORE_NUM c)" and ?d = "stack_slot c"
  have n: "0 < ?n" "?n - 1 - co < ?n" using assms(4) by (simp_all add: valid_core_def)
  have v: "valid_core c cl (?n - 1)" using assms(4) by (auto simp: valid_core_def)
  have m: "snrt_is_dm_core c dm" unfolding assms(9) is_dm_core_hart_of [OF assms(1) v] assms(2) by simp
  have L: "unat (tls_offset c) = ?d" "unat (tdata_size lk) < ?d"
    using assms(5) by (auto simp: stacks_fit_def stack_slot_def intro: unat_tls_offset [unfolded stack_slot_def])
  note T = tp_slots [OF assms(1,4,5)]
  from init_tls_slots [OF assms(3) m assms(6,7) refl n(1) T(2) [folded assms(9)] L(1) refl refl L(2) assms(8), of coll]
  obtain t sch' where t: "snrt_init_tls c coll lk (crt0_tp c lk dm) dm sch s = Some (snrt_cluster_hw_barrier, t, sch')"
    "data_slots (crt0_tp c lk dm) ?d ?n (unat (tdata_size lk)) (\<lambda>k. dm_mem s (ucast (tdata_start lk) + of_nat k)) (dm_mem t)"
    "zero_slots (crt0_tp c lk dm) ?d ?n (unat (tdata_size lk)) (unat (tbss_size lk)) (dm_mem t)" by blast
  then show ?thesis using n(2) T(1) [folded assms(9)]
    unfolding data_slots_def zero_slots_def snrt_cluster_hw_barrier_def by metis
qed

lemma sample_stacks_fit: "cl = 0 \<Longrightarrow> stacks_fit sample_cfg sample_linker cl"
  by (simp add: stacks_fit_def stack_slot_def sample_cfg_def sample_linker_def tdata_size_def tbss_size_def
    snrt_cls_base_addr_def team_defs hart_of_def)

theorem tls_initialised_witness:
  "\<exists>t sch'. snrt_init_tls sample_cfg (\<lambda>_ m. m) sample_linker (crt0_tp sample_cfg sample_linker (hart_of sample_cfg 0 8))
      (hart_of sample_cfg 0 8) (replicate 18 0) (sample_dma ucast) = Some ([Ev_barrier], t, sch')
    \<and> crt0_tp sample_cfg sample_linker (hart_of sample_cfg 0 3) = 0x1001F370
    \<and> dm_mem t 0x1001F375 = 0x25 \<and> dm_mem t 0x1001F380 = 0"
proof -
  have tp: "crt0_tp sample_cfg sample_linker (hart_of sample_cfg 0 3) = 0x1001F370"
    by (simp add: crt0_tp_def crt0_stack_def crt0_tcdm_end_def hart_of_def sample_cfg_def sample_linker_def
      tdata_size_def tbss_size_def sdiv32_def signed_divide_int_def Let_def)
  have cnt: "count_list (replicate k (0 :: u32)) 0 = k" for k by (induction k) simp_all
  have c: "CLUSTER_DM_CORE_NUM sample_cfg = 1" "unat (CLUSTER_CORE_NUM sample_cfg) = 9"
    "unat (tdata_size sample_linker) = 8" "unat (tbss_size sample_linker) = 72" "tdata_start sample_linker = 0x80001020"
    by (simp_all add: sample_cfg_def tdata_size_def tbss_size_def sample_linker_def)
  from tls_initialised [where sch = "replicate 18 0" and coll = "\<lambda>_ m. m", OF cfg_ok_sample c(1) sample_supports_dma valid_core_sample [of 0 3] sample_stacks_fit [OF refl]
      sample_dma_idle(1,2) _ refl, of ucast]
  obtain t sch' where t: "snrt_init_tls sample_cfg (\<lambda>_ m. m) sample_linker (crt0_tp sample_cfg sample_linker (hart_of sample_cfg 0 8))
      (hart_of sample_cfg 0 8) (replicate 18 0) (sample_dma ucast) = Some ([Ev_barrier], t, sch')"
    "\<forall>k < 8. dm_mem t (ucast (0x1001F370 :: u32) + of_nat k) = ucast (ucast (0x80001020 :: u32) + of_nat k :: u64)"
    "\<forall>k < 72. dm_mem t (ucast (0x1001F370 :: u32) + of_nat (8 + k)) = 0"
    unfolding tp c by (auto simp: cnt sample_dma_def)
  from t(2) [rule_format, of 5] t(3) [rule_format, of 8] have "dm_mem t 0x1001F375 = 0x25 \<and> dm_mem t 0x1001F380 = 0"
    by simp
  with t(1) tp show ?thesis by blast
qed

lemma heap_arith:
  fixes e :: nat
  assumes "b + s = t" and "s \<le> r" and "r = m + 8 * n" and "e + m + 128 = t" and "n \<le> 16"
  shows "e \<le> b"
  using assms by linarith

text \<open>The heap ends 128 bytes and one stack per core below the cluster-local storage.\<close>

lemma unat_heap_end:
  assumes "stacks_fit c lk cl"
  shows "unat (al_end (snrt_l1_init c lk (hart_of c cl 0))) + unat (CLUSTER_CORE_NUM c) * 2 ^ LOG2_STACK_SIZE c + 128
    = unat (snrt_cls_base_addr c lk (hart_of c cl 0))"
proof -
  let ?B = "snrt_cls_base_addr c lk (hart_of c cl 0)" and ?n = "unat (CLUSTER_CORE_NUM c)"
  have L: "LOG2_STACK_SIZE c < 31" using assms by (simp add: stacks_fit_def)
  have fit: "?n * 2 ^ LOG2_STACK_SIZE c + ?n * 8 + 128 \<le> unat ?B"
    using assms by (simp add: stacks_fit_def stack_slot_def algebra_simps)
  have m: "unat (push_bit (LOG2_STACK_SIZE c) 1 * CLUSTER_CORE_NUM c) = 2 ^ LOG2_STACK_SIZE c * ?n"
    using fit unat_lt_pow32 [of ?B] L
    by (subst unat_mult_no_ovf) (simp_all add: push_bit_eq_mult unat_pow2 mult.commute)
  have le: "unat (push_bit (LOG2_STACK_SIZE c) 1 * CLUSTER_CORE_NUM c) \<le> unat ?B"
    unfolding m using fit by (simp add: mult.commute)
  note s = unat_sub_no_ovf [OF le, unfolded m]
  have "unat (128 :: u32) \<le> unat (?B - push_bit (LOG2_STACK_SIZE c) 1 * CLUSTER_CORE_NUM c)"
    unfolding s using fit by (simp add: mult.commute)
  note s' = unat_sub_no_ovf [OF this, unfolded s]
  have "unat (?B - push_bit (LOG2_STACK_SIZE c) 1 * CLUSTER_CORE_NUM c - 128) = unat ?B - 2 ^ LOG2_STACK_SIZE c * ?n - 128"
    using s' by simp
  moreover have "unat (al_end (snrt_l1_init c lk (hart_of c cl 0)))
      = unat (?B - push_bit (LOG2_STACK_SIZE c) 1 * CLUSTER_CORE_NUM c - 128)"
    by (simp only: snrt_l1_init_def Let_def snrt_allocator.simps unat_ucast32_64 snrt_cluster_core_num_def)
  ultimately show ?thesis using fit by (simp add: mult.commute)
qed

text \<open>
  C25: The areas that the start-up lays out at the end of the TCDM. The stacks of the cores of a
  cluster are pairwise disjoint and below the cluster-local storage, each contains its core's
  thread pointer, and the heap of the L1 allocator ends below all stacks exactly when the cluster has
  at most 16 cores, which is what its safety margin of 128 bytes covers.\<close>

theorem tcdm_layout:
  assumes "cfg_ok c" and "stacks_fit c lk cl" and "cl < unat (CLUSTER_NUM c)"
    and "stack = (\<lambda>co. unat (crt0_stack c lk (hart_of c cl co)))"
    and "n = unat (CLUSTER_CORE_NUM c)" and "len = 2 ^ LOG2_STACK_SIZE c"
  shows "(\<forall>i < n. \<forall>j < n. i \<noteq> j \<longrightarrow> blocks_apart (stack i - len, len) (stack j - len, len))
    \<and> (\<forall>i < n. stack i < unat (snrt_cls_base_addr c lk (hart_of c cl 0))
        \<and> unat (crt0_tp c lk (hart_of c cl i)) \<in> {stack i - len .. stack i})
    \<and> ((\<forall>i < n. unat (al_end (snrt_l1_init c lk (hart_of c cl 0))) \<le> stack i - len) \<longleftrightarrow> n \<le> 16)"
proof -
  let ?B = "unat (snrt_cls_base_addr c lk (hart_of c cl 0))"
  have v: "valid_core c cl i" if "i < n" for i using that assms(3,5) by (simp add: valid_core_def)
  have st: "stack i + 8 + i * (len + 8) = ?B" if "i < n" for i
    using unat_crt0_stack [OF assms(1) v [OF that] assms(2)] by (simp add: assms(4,6) stack_slot_def)
  have le: "i * (len + 8) + (len + 8) \<le> n * (len + 8)" if "i < n" for i
  proof -
    have "Suc i * (len + 8) \<le> n * (len + 8)" using that by (intro mult_le_mono1) simp
    then show ?thesis by simp
  qed
  have room: "n * (len + 8) + 128 \<le> ?B" using assms(2) by (simp add: stacks_fit_def stack_slot_def assms(5,6))
  have ord: "stack j \<le> stack i - len" if "i < j" "j < n" for i j
  proof -
    have "Suc i * (len + 8) \<le> j * (len + 8)" using that by (intro mult_le_mono1) simp
    then show ?thesis using st [of i] st [of j] that by simp
  qed
  have lo: "len \<le> stack i" if "i < n" for i using st [OF that] le [OF that] room by linarith
  have "blocks_apart (stack i - len, len) (stack j - len, len)" if "i < n" "j < n" "i \<noteq> j" for i j
    using ord [of i j] ord [of j i] lo [of i] lo [of j] that by (cases "i < j") simp_all
  moreover have "stack i < ?B \<and> unat (crt0_tp c lk (hart_of c cl i)) \<in> {stack i - len .. stack i}" if "i < n" for i
  proof -
    have tls: "unat (tdata_size lk) + unat (tbss_size lk) + 7 \<le> len"
      using assms(2) by (simp add: stacks_fit_def assms(6))
    obtain x where x: "x = ?B - 8 - unat (tdata_size lk) - unat (tbss_size lk)" by blast
    have xB: "x + 8 + unat (tdata_size lk) + unat (tbss_size lk) = ?B" using x tls le [OF that] room by simp
    have tp: "unat (crt0_tp c lk (hart_of c cl i)) + i * (len + 8) = x div 8 * 8"
      using unat_crt0_tp [OF assms(1) v [OF that] assms(2)] by (simp only: x stack_slot_def assms(6))
    have dx: "x div 8 * 8 \<le> x" "x < x div 8 * 8 + 8" by (simp, presburger)
    show ?thesis unfolding atLeastAtMost_iff using st [OF that] tls xB tp dx by (intro conjI; linarith)
  qed
  moreover have "(\<forall>i < n. unat (al_end (snrt_l1_init c lk (hart_of c cl 0))) \<le> stack i - len) \<longleftrightarrow> n \<le> 16"
  proof -
    let ?E = "unat (al_end (snrt_l1_init c lk (hart_of c cl 0)))"
    have E: "?E + n * len + 128 = ?B" using unat_heap_end [OF assms(2)] by (simp add: assms(5,6))
    have nl: "n * (len + 8) = n * len + 8 * n" by (simp add: algebra_simps)
    have bot: "stack i - len + (i * (len + 8) + (len + 8)) = ?B" if "i < n" for i
      using st [OF that] lo [OF that] by linarith
    have n: "0 < n" using assms(1) by (simp add: assms(5) cfg_ok_def word_less_nat_alt)
    have last: "(n - 1) * (len + 8) + (len + 8) = n * (len + 8)" using n by (cases n) simp_all
    show ?thesis
    proof
      assume "\<forall>i < n. ?E \<le> stack i - len"
      then have "?E \<le> stack (n - 1) - len" using n by simp
      then show "n \<le> 16" using bot [of "n - 1"] n E nl last by linarith
    next
      assume "n \<le> 16"
      then show "\<forall>i < n. ?E \<le> stack i - len" using heap_arith [OF bot le nl E] by blast
    qed
  qed
  ultimately show ?thesis by blast
qed

theorem tcdm_layout_witness:
  "\<exists>stack. stack = (\<lambda>co. unat (crt0_stack sample_cfg sample_linker (hart_of sample_cfg 0 co)))
    \<and> stack 0 = 0x1001FFD8 \<and> stack 8 = 0x1001DF98
    \<and> (\<forall>i < 9. unat (al_end (snrt_l1_init sample_cfg sample_linker (hart_of sample_cfg 0 0))) \<le> stack i - 1024)"
proof -
  define stack where "stack = (\<lambda>co. unat (crt0_stack sample_cfg sample_linker (hart_of sample_cfg 0 co)))"
  have c: "unat (CLUSTER_NUM sample_cfg) = 2" "unat (CLUSTER_CORE_NUM sample_cfg) = 9" "LOG2_STACK_SIZE sample_cfg = 10"
    by (simp_all add: sample_cfg_def)
  have "stack 0 = 0x1001FFD8" "stack 8 = 0x1001DF98"
    by (simp_all add: stack_def crt0_stack_def crt0_tcdm_end_def hart_of_def sample_cfg_def sample_linker_def
      sdiv32_def signed_divide_int_def Let_def)
  moreover have "\<forall>i < 9. unat (al_end (snrt_l1_init sample_cfg sample_linker (hart_of sample_cfg 0 0))) \<le> stack i - 1024"
    using tcdm_layout [OF cfg_ok_sample sample_stacks_fit [OF refl] _ stack_def refl refl] unfolding c by simp
  ultimately show ?thesis using stack_def by blast
qed

subsection \<open>Exit codes\<close>

text \<open>
  The exit codes of the cores are added, so the failures of two cores can cancel: however the two cores of a single
  cluster interleave, the program reports success (a stored 1) although core 0 returned 1 and core 1 returned -1.
\<close>

lemma exit_codes_cancel:
  assumes "\<forall>x \<in> set sched. a2a_valid 1 2 x"
    and "snrt_global_all_to_all_reduction (pow2_comm 0) 2 (\<lambda>cl co. if co = 0 then 1 else 0xFFFFFFFF) sched (a2a_start (\<lambda>_. 0) 0) = (result, t)"
    and "result 0 = Some r"
  shows "last (snrt_exit_default c dest gres (BASE_HARTID c) world cls (view\<lparr>rv_sum := r\<rparr>) 1) = Ev_store32 dest 1"
proof -
  let ?v = "\<lambda>cl co. if co = 0 then 1 else 0xFFFFFFFF :: u32"
  have t: "t = fold (a2a_step (pow2_comm 0) 2 ?v) sched (a2a_start (\<lambda>_. 0) 0)" "a2a_dm t 0 = A2a_end" "r = a2a_cluster t 0"
    using assms(2,3) by (auto simp: snrt_global_all_to_all_reduction_def Let_def split: if_splits)
  have "a2a_inv 0 2 ?v (\<lambda>_. 0) 0 t" unfolding t(1) by (rule a2a_run_inv [OF _ a2a_start_inv]) (use assms(1) in simp_all)
  moreover have "{..<2 :: nat} = {0, 1}" by auto
  ultimately have "r = 0" using all_to_all_words [of 0 2 ?v "\<lambda>_. 0" 0 t 0] t(2) by (simp add: t(3) a2a_total_def)
  then show ?thesis
    by (simp add: snrt_exit_default_def snrt_global_core_idx_def snrt_global_core_base_hartid_def)
qed

end
