(* ===== verification/Sort.thy ===== *)
theory Sort
  imports Snitch_Prelude "HOL-Library.Multiset"
begin

text \<open>
  The sorting kernel (\<open>sw/kernels/misc/sort/src/sort.h\<close>): the in-place quicksort of one core (the
  bucket sort of a cluster is in \<open>Bucket_Sort\<close>). An \<open>int32_t\<close> array is a function from element indices to words,
  a pointer into it is its index (an \<open>int\<close>, since \<open>partition\<close> forms \<open>low - 1\<close>); words are
  compared as signed numbers.
\<close>

type_synonym i32_array = "int \<Rightarrow> u32"

subsection \<open>Quicksort\<close>

definition swap_el :: "int \<Rightarrow> int \<Rightarrow> i32_array \<Rightarrow> i32_array" where
  "swap_el a b m = (let temp = m a; m = m(a := m b) in m(b := temp))"

definition partition_body :: "u32 \<Rightarrow> int \<Rightarrow> int \<times> i32_array \<Rightarrow> int \<times> i32_array" where
  "partition_body pivot j im =
     (let (i, m) = im
      in if sint (m j) \<le> sint pivot then (let i = i + 1 in (i, swap_el i j m)) else (i, m))"

definition sort_partition :: "int \<Rightarrow> int \<Rightarrow> i32_array \<Rightarrow> int \<times> i32_array" where
  "sort_partition low high m =
     (let pivot = m high;
          (i, m) = fold (partition_body pivot) [low..high - 1] (low - 1, m);
          m = swap_el (i + 1) high m
      in (i + 1, m))"

text \<open>The array \<open>m'\<close> has the elements of \<open>m\<close> in another order between \<open>lo\<close> and \<open>hi\<close>.\<close>

definition rearranged :: "int \<Rightarrow> int \<Rightarrow> i32_array \<Rightarrow> i32_array \<Rightarrow> bool" where
  "rearranged lo hi m m' \<longleftrightarrow> image_mset m' (mset_set {lo..hi}) = image_mset m (mset_set {lo..hi})
     \<and> (\<forall>k. k \<notin> {lo..hi} \<longrightarrow> m' k = m k)"

definition sorted_range :: "int \<Rightarrow> int \<Rightarrow> i32_array \<Rightarrow> bool" where
  "sorted_range lo hi m \<longleftrightarrow> (\<forall>a b. lo \<le> a \<longrightarrow> a \<le> b \<longrightarrow> b \<le> hi \<longrightarrow> sint (m a) \<le> sint (m b))"

lemma sorted_range_trivial:
  assumes "high \<le> low"
  shows "sorted_range low high m"
proof -
  have "a = b" if "low \<le> a" "a \<le> b" "b \<le> high" for a b using assms that by linarith
  then show ?thesis by (auto simp: sorted_range_def)
qed

lemma rearranged_refl [simp]: "rearranged lo hi m m"
  by (simp add: rearranged_def)

lemma rearranged_trans: "rearranged lo hi m m' \<Longrightarrow> rearranged lo hi m' m'' \<Longrightarrow> rearranged lo hi m m''"
  by (simp add: rearranged_def)

lemma rearranged_outside: "rearranged lo hi m m' \<Longrightarrow> k < lo \<or> hi < k \<Longrightarrow> m' k = m k"
  by (auto simp: rearranged_def)

lemma rearranged_image: "rearranged lo hi m m' \<Longrightarrow> m' ` {lo..hi} = m ` {lo..hi}"
  unfolding rearranged_def by (metis finite_atLeastAtMost_int finite_set_mset_mset_set set_image_mset)

lemma rearranged_wider:
  assumes "rearranged lo hi m m'" and "LO \<le> lo" and "hi \<le> HI"
  shows "rearranged LO HI m m'"
proof -
  have "mset_set {LO..HI} = mset_set {lo..hi} + mset_set ({LO..HI} - {lo..hi})"
    using assms(2,3) by (subst mset_set_Union [symmetric]) (auto intro!: arg_cong [where f = mset_set])
  moreover have "image_mset m' (mset_set ({LO..HI} - {lo..hi})) = image_mset m (mset_set ({LO..HI} - {lo..hi}))"
    using assms(1) by (intro image_mset_cong) (auto simp: rearranged_def)
  ultimately show ?thesis using assms by (auto simp: rearranged_def)
qed

lemma swap_rearranged:
  assumes "a \<in> {lo..hi}" and "b \<in> {lo..hi}"
  shows "rearranged lo hi m (swap_el a b m)"
proof -
  let ?t = "\<lambda>k. if k = a then b else if k = b then a else k"
  have "swap_el a b m = m \<circ> ?t" by (auto simp: swap_el_def fun_eq_iff)
  moreover have "inj_on ?t {lo..hi}" by (auto simp: inj_on_def split: if_splits)
  moreover have "?t ` {lo..hi} = {lo..hi}" using assms by (auto simp: image_iff split: if_splits)
  ultimately have "image_mset (swap_el a b m) (mset_set {lo..hi}) = image_mset m (mset_set {lo..hi})"
    by (simp flip: multiset.map_comp add: image_mset_mset_set)
  then show ?thesis using assms by (auto simp: rearranged_def swap_el_def)
qed

text \<open>The invariant of the loop of \<open>partition\<close> before index \<open>j\<close>.\<close>

definition partition_inv :: "int \<Rightarrow> int \<Rightarrow> i32_array \<Rightarrow> int \<Rightarrow> int \<times> i32_array \<Rightarrow> bool" where
  "partition_inv low high m0 j im \<longleftrightarrow> (case im of (i, m) \<Rightarrow> low - 1 \<le> i \<and> i < j \<and> rearranged low high m0 m
     \<and> m high = m0 high \<and> (\<forall>k. low \<le> k \<and> k \<le> i \<longrightarrow> sint (m k) \<le> sint (m0 high))
     \<and> (\<forall>k. i < k \<and> k < j \<longrightarrow> sint (m0 high) < sint (m k)))"

lemma partition_body_inv:
  assumes "partition_inv low high m0 j im" and "low \<le> j" and "j < high"
  shows "partition_inv low high m0 (j + 1) (partition_body (m0 high) j im)"
proof -
  obtain i m where im: "im = (i, m)" by (cases im)
  have I: "low - 1 \<le> i" "i < j" "rearranged low high m0 m" "m high = m0 high"
    "\<And>k. low \<le> k \<Longrightarrow> k \<le> i \<Longrightarrow> sint (m k) \<le> sint (m0 high)"
    "\<And>k. i < k \<Longrightarrow> k < j \<Longrightarrow> sint (m0 high) < sint (m k)"
    using assms(1) by (auto simp: partition_inv_def im)
  show ?thesis
  proof (cases "sint (m j) \<le> sint (m0 high)")
    case True
    have "rearranged low high m (swap_el (i + 1) j m)"
      using I(1,2) assms(2,3) by (intro swap_rearranged) auto
    then have "rearranged low high m0 (swap_el (i + 1) j m)" by (rule rearranged_trans [OF I(3)])
    moreover have "sint (m0 high) < sint (m (i + 1))" if "i + 1 < j" using I(6) that by simp
    ultimately show ?thesis using True I assms(2,3)
      by (auto simp: im partition_body_def partition_inv_def swap_el_def Let_def)
  next
    case False
    then have "sint (m0 high) < sint (m k)" if "i < k" "k < j + 1" for k
      using I(6) [OF that(1)] that(2) by (cases "k = j") auto
    then show ?thesis using False I assms(2) by (auto simp: im partition_body_def partition_inv_def)
  qed
qed

lemma partition_loop:
  assumes "low \<le> j" and "j \<le> high"
  shows "partition_inv low high m j (fold (partition_body (m high)) [low..j - 1] (low - 1, m))"
  using assms
proof (induction j rule: int_ge_induct)
  case base
  then show ?case by (simp add: partition_inv_def)
next
  case (step j)
  have "[low..j + 1 - 1] = [low..j - 1] @ [j]" using step.hyps by (simp add: upto_rec2)
  then show ?case using step partition_body_inv [of low high m j] by simp
qed

lemma sort_partition_correct:
  assumes "low \<le> high" and "sort_partition low high m = (pi, m')"
  shows "low \<le> pi" and "pi \<le> high" and "rearranged low high m m'"
    and "\<And>k. low \<le> k \<Longrightarrow> k < pi \<Longrightarrow> sint (m' k) \<le> sint (m' pi)"
    and "\<And>k. pi < k \<Longrightarrow> k \<le> high \<Longrightarrow> sint (m' pi) < sint (m' k)"
proof -
  obtain i m1 where l: "fold (partition_body (m high)) [low..high - 1] (low - 1, m) = (i, m1)" by fastforce
  have r: "pi = i + 1" "m' = swap_el (i + 1) high m1"
    using assms(2) l by (auto simp: sort_partition_def Let_def)
  have I: "low - 1 \<le> i" "i < high" "rearranged low high m m1" "m1 high = m high"
    "\<And>k. low \<le> k \<Longrightarrow> k \<le> i \<Longrightarrow> sint (m1 k) \<le> sint (m high)"
    "\<And>k. i < k \<Longrightarrow> k < high \<Longrightarrow> sint (m high) < sint (m1 k)"
    using partition_loop [OF assms(1) order.refl, of m] by (auto simp: l partition_inv_def)
  show "low \<le> pi" "pi \<le> high" using I r by auto
  have "rearranged low high m1 m'" unfolding r using I assms(1) by (intro swap_rearranged) auto
  then show "rearranged low high m m'" by (rule rearranged_trans [OF I(3)])
  show "sint (m' k) \<le> sint (m' pi)" if "low \<le> k" "k < pi" for k
    using that I by (auto simp: r swap_el_def Let_def)
  show "sint (m' pi) < sint (m' k)" if "pi < k" "k \<le> high" for k
    using that I(4) I(6) [of k] I(6) [of "i + 1"] by (auto simp: r swap_el_def Let_def)
qed

function quicksort :: "int \<Rightarrow> int \<Rightarrow> i32_array \<Rightarrow> i32_array" where
  "quicksort low high m =
     (if low < high then
        (let (pi, m) = sort_partition low high m;
             m = quicksort low (pi - 1) m
         in quicksort (pi + 1) high m)
      else m)"
  by pat_completeness auto

termination
proof (relation "measure (\<lambda>(low, high, m). nat (high - low + 1))")
  fix low high :: int and m x pi m1
  assume a: "low < high" and "x = sort_partition low high m" and "(pi, m1) = x"
  then have "sort_partition low high m = (pi, m1)" by simp
  note b = sort_partition_correct(1,2) [OF less_imp_le [OF a] this]
  show "((low, pi - 1, m1), low, high, m) \<in> measure (\<lambda>(low, high, m). nat (high - low + 1))"
    using a b by simp
  show "((pi + 1, high, y), low, high, m) \<in> measure (\<lambda>(low, high, m). nat (high - low + 1))" for y
    using a b by simp
qed auto

declare quicksort.simps [simp del]

lemma sorted_around_pivot:
  assumes "sorted_range low (pi - 1) m" and "sorted_range (pi + 1) high m"
    and "\<And>k. low \<le> k \<Longrightarrow> k < pi \<Longrightarrow> sint (m k) \<le> sint (m pi)"
    and "\<And>k. pi < k \<Longrightarrow> k \<le> high \<Longrightarrow> sint (m pi) \<le> sint (m k)"
  shows "sorted_range low high m"
  unfolding sorted_range_def
proof (intro allI impI)
  fix a b assume ab: "low \<le> a" "a \<le> b" "b \<le> high"
  consider "b < pi" | "pi < a" | "a \<le> pi" "pi \<le> b" using ab by linarith
  then show "sint (m a) \<le> sint (m b)"
  proof cases
    case 3
    then show ?thesis using assms(3) [of a] assms(4) [of b] ab by (cases "a = pi"; cases "b = pi") auto
  qed (use assms(1,2) ab in \<open>auto simp: sorted_range_def\<close>)
qed

lemma quicksort_correct: "rearranged low high m (quicksort low high m) \<and> sorted_range low high (quicksort low high m)"
proof (induction low high m rule: quicksort.induct)
  case (1 low high m)
  show ?case
  proof (cases "low < high")
    case False
    then have "quicksort low high m = m" by (subst quicksort.simps) simp
    then show ?thesis using False by (simp add: sorted_range_trivial)
  next
    case True
    obtain pi m1 where p: "sort_partition low high m = (pi, m1)" by fastforce
    define m2 where "m2 = quicksort low (pi - 1) m1"
    define m3 where "m3 = quicksort (pi + 1) high m2"
    have q: "quicksort low high m = m3"
      using True by (subst quicksort.simps) (simp add: p m2_def m3_def)
    note P = sort_partition_correct [OF less_imp_le [OF True] p]
    have A: "rearranged low (pi - 1) m1 m2" "sorted_range low (pi - 1) m2"
      using 1(1) [OF True p [symmetric] refl] by (simp_all add: m2_def)
    have B: "rearranged (pi + 1) high m2 m3" "sorted_range (pi + 1) high m3"
      using 1(2) [OF True p [symmetric] refl m2_def] by (simp_all add: m3_def)
    have "rearranged low high m1 m2" "rearranged low high m2 m3"
      using P(1,2) by (auto intro: rearranged_wider [OF A(1)] rearranged_wider [OF B(1)])
    then have R: "rearranged low high m m3" by (blast intro: rearranged_trans P(3))
    have left: "m3 k = m2 k" if "k \<le> pi" for k using rearranged_outside [OF B(1), of k] that by simp
    have piv: "m3 pi = m1 pi" using left [of pi] rearranged_outside [OF A(1), of pi] by simp
    have small: "sint (m3 k) \<le> sint (m1 pi)" if k: "low \<le> k" "k < pi" for k
    proof -
      have "m2 k \<in> m1 ` {low..pi - 1}" using k by (subst rearranged_image [OF A(1), symmetric]) simp
      then show ?thesis using left [of k] k P(4) by auto
    qed
    have big: "sint (m1 pi) < sint (m3 k)" if k: "pi < k" "k \<le> high" for k
    proof -
      have "m3 k \<in> m2 ` {pi + 1..high}" using k by (subst rearranged_image [OF B(1), symmetric]) simp
      then obtain l where "l \<in> {pi + 1..high}" "m3 k = m2 l" by (rule imageE)
      then have l: "pi < l" "l \<le> high" "m3 k = m2 l" by simp_all
      moreover have "m2 l = m1 l" using rearranged_outside [OF A(1), of l] l by simp
      ultimately show ?thesis using P(5) by simp
    qed
    have "sorted_range low (pi - 1) m3" using A(2) left by (auto simp: sorted_range_def)
    then have "sorted_range low high m3"
      by (rule sorted_around_pivot [OF _ B(2)]) (use small big piv in \<open>auto simp: less_imp_le\<close>)
    then show ?thesis using R by (simp add: q)
  qed
qed


subsection \<open>Slices of an array\<close>

definition elems :: "int \<Rightarrow> nat \<Rightarrow> i32_array \<Rightarrow> u32 list" where
  "elems p c m = map (\<lambda>j. m (p + int j)) [0..<c]"

lemma length_elems [simp]: "length (elems p c m) = c"
  by (simp add: elems_def)

lemma elems_append: "elems p (a + b) m = elems p a m @ elems (p + int a) b m"
  by (induction b) (simp_all add: elems_def algebra_simps)

lemma elems_cong: "(\<And>j. j < c \<Longrightarrow> m (p + int j) = m' (p' + int j)) \<Longrightarrow> elems p c m = elems p' c m'"
  by (simp add: elems_def)

lemma mset_elems: "mset (elems p c m) = image_mset m (mset_set {p..p + int c - 1})"
proof -
  have "(\<lambda>j. p + int j) ` {0..<c} = {p..p + int c - 1}"
  proof
    show "{p..p + int c - 1} \<subseteq> (\<lambda>j. p + int j) ` {0..<c}"
    proof
      fix k assume "k \<in> {p..p + int c - 1}"
      then have "k = p + int (nat (k - p))" "nat (k - p) \<in> {0..<c}" by auto
      then show "k \<in> (\<lambda>j. p + int j) ` {0..<c}" by (rule image_eqI)
    qed
  qed auto
  then have "mset_set {p..p + int c - 1} = image_mset (\<lambda>j. p + int j) (mset_set {0..<c})"
    by (subst image_mset_mset_set) (auto simp: inj_on_def)
  then show ?thesis by (simp add: elems_def multiset.map_comp o_def)
qed

lemma sorted_elems: "sorted (map sint (elems p c m)) \<longleftrightarrow> sorted_range p (p + int c - 1) m"
proof
  assume s: "sorted (map sint (elems p c m))"
  show "sorted_range p (p + int c - 1) m"
    unfolding sorted_range_def
  proof (intro allI impI)
    fix a b assume "p \<le> a" "a \<le> b" "b \<le> p + int c - 1"
    then show "sint (m a) \<le> sint (m b)"
      using sorted_nth_mono [OF s, of "nat (a - p)" "nat (b - p)"] by (simp add: elems_def)
  qed
next
  assume "sorted_range p (p + int c - 1) m"
  then show "sorted (map sint (elems p c m))"
    by (auto simp: sorted_range_def elems_def sorted_iff_nth_mono)
qed

lemma quicksort_elems:
  fixes m p c
  defines "m' \<equiv> quicksort p (p + int c - 1) m"
  shows "mset (elems p c m') = mset (elems p c m)" and "sorted (map sint (elems p c m'))"
    and "\<And>k. k < p \<or> p + int c \<le> k \<Longrightarrow> m' k = m k"
proof -
  note Q = quicksort_correct [of p "p + int c - 1" m, folded m'_def]
  show "mset (elems p c m') = mset (elems p c m)" "sorted (map sint (elems p c m'))"
    using Q by (simp_all add: mset_elems sorted_elems rearranged_def)
  show "m' k = m k" if "k < p \<or> p + int c \<le> k" for k
    using Q that by (intro rearranged_outside [of p "p + int c - 1"]) auto
qed

lemma mset_upto_range: "mset (map m [lo..hi]) = image_mset m (mset_set {lo..hi})"
  using mset_set_set [of "[lo..hi]"] by simp

lemma sorted_upto_range: "sorted_range lo hi m \<Longrightarrow> sorted (map (\<lambda>k. sint (m k)) [lo..hi])"
  by (auto simp: sorted_range_def sorted_iff_nth_mono nth_upto)

text \<open>
  C29: Quicksort is correct. For all bounds, \<open>quicksort(low, high)\<close> ends, sorts the elements from
  \<open>low\<close> to \<open>high\<close> as signed numbers, permutes them, and changes nothing outside.\<close>

theorem quicksort_sorts:
  "sorted (map (\<lambda>k. sint (quicksort low high m k)) [low..high])
    \<and> mset (map (quicksort low high m) [low..high]) = mset (map m [low..high])
    \<and> (\<forall>k. k < low \<or> high < k \<longrightarrow> quicksort low high m k = m k)"
  using quicksort_correct [of low high m] unfolding mset_upto_range rearranged_def
  by (auto intro: sorted_upto_range)

theorem quicksort_sorts_witness: "quicksort 0 1 (\<lambda>k. if k = 0 then 5 else - 3) 2 = - 3"
  using quicksort_sorts [of 0 1 "\<lambda>k. if k = 0 then 5 else - 3"] by simp

end
