(* ===== verification/Bucket_Sort.thy ===== *)
theory Bucket_Sort
  imports Sort
begin

text \<open>
  The bucket sort of a cluster (\<open>bucketSort\<close> of \<open>sw/kernels/misc/sort/src/sort.h\<close>): the cores
  distribute the elements over the buckets concurrently, with an atomic counter per bucket, sort
  the buckets with \<open>Sort.quicksort\<close> and copy them back at the prefix sums of the counts.
\<close>

subsection \<open>Definitions\<close>

text \<open>
  \<open>cores\<close> is \<open>snrt_cluster_compute_core_num()\<close> and \<open>co\<close> a compute core's \<open>core_idx\<close>. The
  buckets are slices of one scratchpad of \<open>n * numBuckets\<close> elements.
\<close>

definition prefixSum :: "i32_array \<Rightarrow> nat \<Rightarrow> i32_array" where
  "prefixSum a n = for_upto 1 n (\<lambda>i b. b(int i := b (int i - 1) + a (int i - 1))) ((\<lambda>_. 0)(0 := 0))"

definition bucket_range :: "u32 \<Rightarrow> u32 \<Rightarrow> u32 \<Rightarrow> u32" where
  "bucket_range numBuckets maximum minimum = (maximum - minimum) div numBuckets + 1"

definition bucket_index :: "u32 \<Rightarrow> u32 \<Rightarrow> u32 \<Rightarrow> u32" where
  "bucket_index rng minimum v = sdiv32 (v - minimum) rng"

definition bucket_ptr :: "u32 \<Rightarrow> u32 \<Rightarrow> int" where
  "bucket_ptr n b = int (unat (b * n))"

text \<open>
  Distribution: every core runs over its share of \<open>x\<close>. \<open>Dist_at i\<close> is the head of the loop,
  \<open>Dist_store i b cur\<close> lies between the atomic addition and the store.
\<close>

datatype dist_pc = Dist_at nat | Dist_store nat u32 u32

record dist_state =
  ds_scratch :: i32_array
  ds_count :: i32_array
  ds_pc :: "nat \<Rightarrow> dist_pc"

definition frac_core :: "u32 \<Rightarrow> u32 \<Rightarrow> u32" where
  "frac_core n cores = n div cores"

definition offset_core :: "u32 \<Rightarrow> u32 \<Rightarrow> nat \<Rightarrow> u32" where
  "offset_core n cores co = of_nat co * frac_core n cores"

definition dist_step :: "i32_array \<Rightarrow> u32 \<Rightarrow> u32 \<Rightarrow> u32 \<Rightarrow> u32 \<Rightarrow> nat \<Rightarrow> dist_state \<Rightarrow> dist_state" where
  "dist_step x n cores minimum rng co s =
     (if \<not> co < unat cores then s else case ds_pc s co of
        Dist_at i \<Rightarrow>
          if i < unat (offset_core n cores co + frac_core n cores) then
            (let bucketIndex = bucket_index rng minimum (x (int i));
                 current_index = ds_count s (sint bucketIndex)
             in s\<lparr>ds_count := (ds_count s)(sint bucketIndex := current_index + 1),
                  ds_pc := (ds_pc s)(co := Dist_store i bucketIndex current_index)\<rparr>)
          else s
      | Dist_store i bucketIndex current_index \<Rightarrow>
          s\<lparr>ds_scratch := (ds_scratch s)(bucket_ptr n bucketIndex + sint current_index := x (int i)),
            ds_pc := (ds_pc s)(co := Dist_at (Suc i))\<rparr>)"

definition dist_start :: "i32_array \<Rightarrow> u32 \<Rightarrow> u32 \<Rightarrow> u32 \<Rightarrow> dist_state" where
  "dist_start scratch n cores numBuckets =
     \<lparr>ds_scratch = scratch, ds_count = for_upto 0 (unat numBuckets) (\<lambda>i c. c(int i := 0)) (\<lambda>_. 0),
      ds_pc = (\<lambda>co. Dist_at (unat (offset_core n cores co)))\<rparr>"

definition dist_finished :: "u32 \<Rightarrow> u32 \<Rightarrow> dist_state \<Rightarrow> bool" where
  "dist_finished n cores s \<longleftrightarrow>
     (\<forall>co < unat cores. ds_pc s co = Dist_at (unat (offset_core n cores co + frac_core n cores)))"

text \<open>The loops over the buckets of a core have an 8-bit counter; they may run for ever.\<close>

partial_function (option) bucket_loop :: "u32 \<Rightarrow> u32 \<Rightarrow> (u8 \<Rightarrow> 's \<Rightarrow> 's) \<Rightarrow> u8 \<Rightarrow> 's \<Rightarrow> 's option" where
  "bucket_loop numBuckets cores f next_bucket s =
     (if unat next_bucket < unat numBuckets
      then bucket_loop numBuckets cores f (next_bucket + ucast cores) (f next_bucket s)
      else Some s)"

declare bucket_loop.simps [code]

definition sort_bucket :: "u32 \<Rightarrow> i32_array \<Rightarrow> u8 \<Rightarrow> i32_array \<Rightarrow> i32_array" where
  "sort_bucket n cnt b scratch =
     (if 0 < sint (cnt (uint b))
      then quicksort (bucket_ptr n (ucast b)) (bucket_ptr n (ucast b) + sint (cnt (uint b)) - 1) scratch
      else scratch)"

definition merge_bucket :: "u32 \<Rightarrow> i32_array \<Rightarrow> i32_array \<Rightarrow> i32_array \<Rightarrow> nat \<Rightarrow> i32_array \<Rightarrow> i32_array" where
  "merge_bucket n cnt idx_offset scratch core_idx x =
     for_upto 0 (unat (cnt (int core_idx))) (\<lambda>j x.
       (let i_x = of_nat j + idx_offset (int core_idx) :: u32
        in x(uint i_x := scratch (bucket_ptr n (of_nat core_idx) + int j)))) x"

fun each_core :: "(nat \<Rightarrow> 's \<Rightarrow> 's option) \<Rightarrow> nat list \<Rightarrow> 's \<Rightarrow> 's option" where
  "each_core f [] s = Some s"
| "each_core f (co # cos) s = (case f co s of None \<Rightarrow> None | Some t \<Rightarrow> each_core f cos t)"

text \<open>
  The whole sort, for the schedule \<open>sch\<close> of the cores during the distribution. The barriers
  separate the phases; in the sort and merge phases the cores work on different slices, their
  order does not matter. \<open>None\<close>: the program has not returned.
\<close>

definition bucketSort :: "i32_array \<Rightarrow> u32 \<Rightarrow> u32 \<Rightarrow> u32 \<Rightarrow> u32 \<Rightarrow> u32 \<Rightarrow> nat list \<Rightarrow> i32_array \<Rightarrow> i32_array option" where
  "bucketSort x n numBuckets maximum minimum cores sch scratch =
     (let rng = bucket_range numBuckets maximum minimum;
          s = fold (dist_step x n cores minimum rng) sch (dist_start scratch n cores numBuckets)
      in if \<not> dist_finished n cores s then None
         else (case each_core (\<lambda>co. bucket_loop numBuckets cores (sort_bucket n (ds_count s)) (of_nat co))
                 [0..<unat cores] (ds_scratch s) of
             None \<Rightarrow> None
           | Some scratch \<Rightarrow>
               (let idx_offset = prefixSum (ds_count s) (unat numBuckets)
                in each_core (\<lambda>co. bucket_loop numBuckets cores
                     (\<lambda>next_bucket. merge_bucket n (ds_count s) idx_offset scratch co) (of_nat co))
                   [0..<unat cores] x)))"

subsection \<open>The bucket of a value\<close>

text \<open>The values that \<open>bucketSort\<close> is called with.\<close>

definition bsort_args :: "i32_array \<Rightarrow> u32 \<Rightarrow> u32 \<Rightarrow> u32 \<Rightarrow> u32 \<Rightarrow> u32 \<Rightarrow> bool" where
  "bsort_args x n numBuckets maximum minimum cores \<longleftrightarrow>
     0 < unat numBuckets \<and> 0 < unat cores \<and> unat numBuckets + unat cores \<le> 256
     \<and> unat cores dvd unat n \<and> unat n * unat numBuckets < 2147483648
     \<and> (\<forall>i < unat n. sint minimum \<le> sint (x (int i)) \<and> sint (x (int i)) \<le> sint maximum)
     \<and> sint minimum \<le> sint maximum \<and> sint maximum - sint minimum < 2147483647"

definition bkt :: "u32 \<Rightarrow> u32 \<Rightarrow> u32 \<Rightarrow> u32 \<Rightarrow> nat" where
  "bkt numBuckets maximum minimum v =
     nat (sint v - sint minimum) div (nat (sint maximum - sint minimum) div unat numBuckets + 1)"

lemma sint_diff:
  fixes v w :: u32
  assumes "sint w \<le> sint v" and "sint v - sint w < 2147483648"
  shows "v - w = of_nat (nat (sint v - sint w))" and "unat (v - w) = nat (sint v - sint w)"
proof -
  have "v - w = word_of_int (sint v - sint w)" by simp
  also have "\<dots> = of_nat (nat (sint v - sint w))" using assms(1) by (simp add: of_nat_nat)
  finally show e: "v - w = of_nat (nat (sint v - sint w))" .
  then show "unat (v - w) = nat (sint v - sint w)"
    using assms by (simp only: e) (rule unat_of_nat_small, simp)
qed

lemma bucket_index_eq:
  assumes "0 < unat nb" and "sint lo \<le> sint v" and "sint v \<le> sint hi" and "sint hi - sint lo < 2147483647"
  shows "bucket_index (bucket_range nb hi lo) lo v = of_nat (bkt nb hi lo v)" and "bkt nb hi lo v < unat nb"
proof -
  let ?D = "nat (sint hi - sint lo)" and ?d = "nat (sint v - sint lo)"
  have d: "?d \<le> ?D" "?D < 2147483647" using assms by auto
  have "?D div unat nb \<le> ?D" by simp
  then have q: "?D div unat nb + 1 < 2147483648" using d by linarith
  have r: "bucket_range nb hi lo = of_nat (?D div unat nb + 1)"
    unfolding bucket_range_def using sint_diff(2) [of lo hi] assms(2-4)
    by (simp flip: word_unat_eq_iff add: unat_div word_arith_nat_div)
  have u: "unat (bucket_range nb hi lo) = ?D div unat nb + 1"
    unfolding r using q by (intro unat_of_nat_small) simp
  have "bucket_index (bucket_range nb hi lo) lo v = (v - lo) div bucket_range nb hi lo"
    unfolding bucket_index_def using sint_diff(2) [of lo v] assms(2-4) d q by (intro sdiv32_small) (simp_all add: u)
  also have "\<dots> = of_nat (bkt nb hi lo v)"
    using sint_diff(2) [of lo v] assms(2-4) by (simp add: word_arith_nat_div u bkt_def)
  finally show "bucket_index (bucket_range nb hi lo) lo v = of_nat (bkt nb hi lo v)" .
  have "?D < (?D div unat nb + 1) * unat nb"
    using assms(1) dividend_less_div_times [of "unat nb" ?D] by (simp add: algebra_simps)
  then have "?d < unat nb * (?D div unat nb + 1)" using d(1) by (simp add: algebra_simps)
  then show "bkt nb hi lo v < unat nb" unfolding bkt_def by (simp add: less_mult_imp_div_less)
qed

lemma bkt_mono: "sint lo \<le> sint v \<Longrightarrow> sint v \<le> sint w \<Longrightarrow> bkt nb hi lo v \<le> bkt nb hi lo w"
  unfolding bkt_def by (intro div_le_mono) simp

subsection \<open>The distribution\<close>

text \<open>What \<open>bsort_args\<close> gives.\<close>

lemma bsort_argsD:
  assumes "bsort_args x n nb hi lo cores"
  shows "0 < unat nb" and "0 < unat cores" and "unat nb + unat cores \<le> 256" and "unat cores dvd unat n"
    and "unat n * unat nb < 2147483648" and "sint lo \<le> sint hi" and "sint hi - sint lo < 2147483647"
    and "\<And>i. i < unat n \<Longrightarrow> sint lo \<le> sint (x (int i))" and "\<And>i. i < unat n \<Longrightarrow> sint (x (int i)) \<le> sint hi"
    and "unat n < 2147483648"
proof -
  show b: "0 < unat nb" "0 < unat cores" "unat nb + unat cores \<le> 256" "unat cores dvd unat n"
    "unat n * unat nb < 2147483648" "sint lo \<le> sint hi" "sint hi - sint lo < 2147483647"
    "\<And>i. i < unat n \<Longrightarrow> sint lo \<le> sint (x (int i))" "\<And>i. i < unat n \<Longrightarrow> sint (x (int i)) \<le> sint hi"
    using assms by (auto simp: bsort_args_def)
  have "unat n * 1 \<le> unat n * unat nb" by (rule mult_le_mono2) (use b(1) in simp)
  then show "unat n < 2147483648" using b(5) by linarith
qed

definition share :: "u32 \<Rightarrow> u32 \<Rightarrow> nat" where
  "share n cores = unat n div unat cores"

lemma share_bounds:
  assumes "unat cores dvd unat n" and "co < unat cores"
  shows "unat (offset_core n cores co) = co * share n cores"
    and "unat (offset_core n cores co + frac_core n cores) = Suc co * share n cores"
    and "Suc co * share n cores \<le> unat n"
proof -
  have f: "unat (frac_core n cores) = share n cores" by (simp add: frac_core_def share_def unat_div)
  have c: "unat (of_nat co :: u32) = co"
    using assms(2) unat_lt_pow32 [of cores] by (intro unat_of_nat_small) simp
  have le: "Suc co * share n cores \<le> unat cores * share n cores" using assms(2) by (intro mult_le_mono1) simp
  also have "\<dots> = unat n" using assms(1) by (simp add: share_def)
  finally show le: "Suc co * share n cores \<le> unat n" .
  then have lt: "Suc co * share n cores < 4294967296" using unat_lt_pow32 [of n] by (rule le_less_trans)
  show o: "unat (offset_core n cores co) = co * share n cores"
    unfolding offset_core_def using lt by (subst unat_mult_no_ovf) (simp_all add: f c)
  show "unat (offset_core n cores co + frac_core n cores) = Suc co * share n cores"
    using lt by (subst unat_add_no_ovf) (simp_all add: o f)
qed

text \<open>
  The core that owns an index, the indices that a core has taken, and the slots of the bucket
  they went to.
\<close>

fun dist_taken :: "dist_pc \<Rightarrow> nat" where
  "dist_taken (Dist_at i) = i"
| "dist_taken (Dist_store i b cur) = Suc i"

definition taken :: "u32 \<Rightarrow> u32 \<Rightarrow> (nat \<Rightarrow> dist_pc) \<Rightarrow> nat set" where
  "taken n cores pcs = {e. e < unat n \<and> e < dist_taken (pcs (e div share n cores))}"

definition dist_pc_ok :: "i32_array \<Rightarrow> u32 \<Rightarrow> u32 \<Rightarrow> u32 \<Rightarrow> u32 \<Rightarrow> u32 \<Rightarrow> (nat \<Rightarrow> nat) \<Rightarrow> nat \<Rightarrow> dist_pc \<Rightarrow> bool" where
  "dist_pc_ok x n nb hi lo cores slot co pc = (case pc of
      Dist_at i \<Rightarrow> co * share n cores \<le> i \<and> i \<le> Suc co * share n cores
    | Dist_store i b cur \<Rightarrow> co * share n cores \<le> i \<and> i < Suc co * share n cores
        \<and> b = of_nat (bkt nb hi lo (x (int i))) \<and> cur = of_nat (slot i))"

text \<open>Distinct slots below the fill count of each bucket.\<close>

definition slots_ok :: "(nat \<Rightarrow> nat) \<Rightarrow> (nat \<Rightarrow> nat) \<Rightarrow> nat set \<Rightarrow> bool" where
  "slots_ok k slot T \<longleftrightarrow> (\<forall>e \<in> T. slot e < card {e' \<in> T. k e' = k e}) \<and> inj_on (\<lambda>e. (k e, slot e)) T"

lemma card_insert_bucket:
  assumes "finite T" and "i \<notin> T"
  shows "card {e \<in> insert i T. k e = b} = card {e \<in> T. k e = b} + (if b = k i then 1 else 0)"
proof -
  have "{e \<in> insert i T. k e = b} = (if b = k i then insert i {e \<in> T. k e = b} else {e \<in> T. k e = b})"
    by auto
  then show ?thesis using assms by simp
qed

lemma slots_ok_insert:
  assumes "finite T" and "i \<notin> T" and "slots_ok k slot T"
  shows "slots_ok k (slot(i := card {e \<in> T. k e = k i})) (insert i T)"
proof -
  let ?s = "slot(i := card {e \<in> T. k e = k i})"
  have lt: "slot e < card {e' \<in> T. k e' = k e}" if "e \<in> T" for e using assms(3) that by (simp add: slots_ok_def)
  have inj: "e = e'" if "e \<in> T" "e' \<in> T" "k e = k e'" "slot e = slot e'" for e e'
    using assms(3) that by (auto simp: slots_ok_def inj_on_def)
  have ne: "e \<noteq> i" if "e \<in> T" for e using that assms(2) by blast
  have old: "k e \<noteq> k i \<or> slot e \<noteq> card {e' \<in> T. k e' = k i}" if "e \<in> T" for e using lt [OF that] by auto
  show ?thesis
    unfolding slots_ok_def card_insert_bucket [OF assms(1,2)]
  proof (intro conjI ballI inj_onI)
    fix e assume "e \<in> insert i T"
    then show "?s e < card {e' \<in> T. k e' = k e} + (if k e = k i then 1 else 0)"
      using lt [of e] by (cases "e = i") simp_all
  next
    fix e e' assume "e \<in> insert i T" "e' \<in> insert i T" "(k e, ?s e) = (k e', ?s e')"
    then show "e = e'" using inj [of e e'] old [of e] old [of e'] by (cases "e = i"; cases "e' = i") auto
  qed
qed

definition dist_inv :: "i32_array \<Rightarrow> u32 \<Rightarrow> u32 \<Rightarrow> u32 \<Rightarrow> u32 \<Rightarrow> u32 \<Rightarrow> (nat \<Rightarrow> nat) \<Rightarrow> dist_state \<Rightarrow> bool" where
  "dist_inv x n nb hi lo cores slot s \<longleftrightarrow>
     (\<forall>co < unat cores. dist_pc_ok x n nb hi lo cores slot co (ds_pc s co))
     \<and> (\<forall>b < unat nb. ds_count s (int b) = of_nat (card {e \<in> taken n cores (ds_pc s). bkt nb hi lo (x (int e)) = b}))
     \<and> slots_ok (\<lambda>e. bkt nb hi lo (x (int e))) slot (taken n cores (ds_pc s))
     \<and> (\<forall>e \<in> taken n cores (ds_pc s). (\<forall>b cur. ds_pc s (e div share n cores) \<noteq> Dist_store e b cur) \<longrightarrow>
          ds_scratch s (int (bkt nb hi lo (x (int e)) * unat n + slot e)) = x (int e))"

lemma taken_finite [simp]: "finite (taken n cores pcs)"
  by (rule finite_subset [of _ "{..<unat n}"]) (auto simp: taken_def)

lemma card_bucket_le: "card {e \<in> taken n cores pcs. P e} \<le> unat n"
proof -
  have "card {e \<in> taken n cores pcs. P e} \<le> card {..<unat n}" by (rule card_mono) (auto simp: taken_def)
  then show ?thesis by simp
qed

lemma owner:
  assumes "co * share n cores \<le> i" and "i < Suc co * share n cores"
  shows "i div share n cores = co"
  using assms by (intro div_nat_eqI) (simp_all add: mult.commute)

text \<open>Taking the next index, and storing it.\<close>

lemma taken_take:
  assumes "unat cores dvd unat n" and "co < unat cores" and "pcs co = Dist_at i"
    and "co * share n cores \<le> i" and "i < Suc co * share n cores"
  shows "taken n cores (pcs(co := Dist_store i b cur)) = insert i (taken n cores pcs)"
    and "i \<notin> taken n cores pcs"
proof -
  note o = owner [OF assms(4,5)]
  have "i < unat n" using assms(5) share_bounds(3) [OF assms(1,2)] by simp
  then show "taken n cores (pcs(co := Dist_store i b cur)) = insert i (taken n cores pcs)"
    using assms(3) by (auto simp: taken_def o less_Suc_eq)
  show "i \<notin> taken n cores pcs" using assms(3) by (simp add: taken_def o)
qed

lemma taken_store: "pcs co = Dist_store i b cur \<Longrightarrow> taken n cores (pcs(co := Dist_at (Suc i))) = taken n cores pcs"
  by (auto simp: taken_def)

lemma of_nat_bucket:
  assumes "b < 256"
  shows "sint (of_nat b :: u32) = int b" and "unat (of_nat b :: u32) = b"
  using assms by (simp_all add: sint32_of_nat) (simp add: unat_of_nat_small)

lemma dist_take_inv:
  assumes A: "bsort_args x n nb hi lo cores" and I: "dist_inv x n nb hi lo cores slot s"
    and co: "co < unat cores" and pc: "ds_pc s co = Dist_at i" and i: "i < Suc co * share n cores"
  shows "\<exists>slot. dist_inv x n nb hi lo cores slot (dist_step x n cores lo (bucket_range nb hi lo) co s)"
proof -
  note D = bsort_argsD [OF A]
  let ?k = "\<lambda>e. bkt nb hi lo (x (int e))" and ?T = "taken n cores (ds_pc s)"
  have lo: "co * share n cores \<le> i" using I co pc by (auto simp: dist_inv_def dist_pc_ok_def)
  note T = taken_take [where pcs = "ds_pc s", OF D(4) co pc lo i]
  have iN: "i < unat n" using i share_bounds(3) [OF D(4) co] by simp
  note B = bucket_index_eq [OF D(1) D(8,9) [OF iN] D(7)]
  have kb: "?k i < 256" using B(2) D(2,3) by simp
  define c where "c = card {e \<in> ?T. ?k e = ?k i}"
  define slot' where "slot' = slot(i := c)"
  have cnt: "ds_count s (int (?k i)) = of_nat c" using I B(2) by (simp add: dist_inv_def c_def)
  define t where "t = s\<lparr>ds_count := (ds_count s)(int (?k i) := of_nat c + 1),
     ds_pc := (ds_pc s)(co := Dist_store i (of_nat (?k i)) (of_nat c))\<rparr>"
  have t: "dist_step x n cores lo (bucket_range nb hi lo) co s = t"
    using co pc i share_bounds(2) [OF D(4) co] by (simp add: dist_step_def Let_def B(1) of_nat_bucket [OF kb] cnt t_def)
  have tk: "taken n cores (ds_pc t) = insert i ?T" by (simp add: t_def T(1))
  note card = card_insert_bucket [OF taken_finite T(2), of ?k]
  have old: "slot' e = slot e" if "e \<in> ?T" for e using that T(2) by (auto simp: slot'_def)
  have own: "e div share n cores \<noteq> co \<or> e < i" if "e \<in> ?T" for e using that pc by (auto simp: taken_def)
  have "dist_inv x n nb hi lo cores slot' t"
    unfolding dist_inv_def tk
  proof (intro conjI allI impI ballI)
    fix k assume k: "k < unat cores"
    have ok: "dist_pc_ok x n nb hi lo cores slot k (ds_pc s k)" using I k by (simp add: dist_inv_def)
    show "dist_pc_ok x n nb hi lo cores slot' k (ds_pc t k)"
    proof (cases "k = co")
      case True
      then show ?thesis using lo i by (simp add: t_def dist_pc_ok_def slot'_def)
    next
      case False
      have "slot' j = slot j" if "k * share n cores \<le> j" "j < Suc k * share n cores" for j
        using owner [OF that] owner [OF lo i] False by (auto simp: slot'_def)
      then show ?thesis using ok False by (auto simp: t_def dist_pc_ok_def split: dist_pc.splits)
    qed
  next
    fix b assume "b < unat nb"
    then show "ds_count t (int b) = of_nat (card {e \<in> insert i ?T. ?k e = b})"
      using I unfolding card by (auto simp: t_def dist_inv_def c_def)
  next
    show "slots_ok ?k slot' (insert i ?T)"
      unfolding slot'_def c_def by (rule slots_ok_insert [OF _ T(2)]) (use I in \<open>simp_all add: dist_inv_def\<close>)
  next
    fix e assume e: "e \<in> insert i ?T" "\<forall>b cur. ds_pc t (e div share n cores) \<noteq> Dist_store e b cur"
    then have "e \<in> ?T" using owner [OF lo i] by (auto simp: t_def)
    moreover have "ds_pc s (e div share n cores) \<noteq> Dist_store e b cur" for b cur
      using e(2) pc by (auto simp: t_def split: if_splits)
    ultimately show "ds_scratch t (int (?k e * unat n + slot' e)) = x (int e)"
      using I old by (simp add: dist_inv_def t_def)
  qed
  then show ?thesis unfolding t by blast
qed

lemma slot_address:
  fixes N :: nat
  assumes "k * N + a = k' * N + b" and "a < N" and "b < N"
  shows "k = k' \<and> a = b"
proof -
  have "(k * N + a) div N = k" "(k' * N + b) div N = k'" using assms(2,3) by simp_all
  then show ?thesis using assms(1) by simp
qed

lemma bucket_address:
  assumes A: "bsort_args x n nb hi lo cores" and "b < unat nb" and "c \<le> unat n"
  shows "bucket_ptr n (of_nat b) = int (b * unat n)" and "sint (of_nat c :: u32) = int c"
proof -
  note D = bsort_argsD [OF A]
  have "b * unat n \<le> unat nb * unat n" using assms(2) by (intro mult_le_mono1) simp
  then have lt: "b * unat n < 4294967296" using D(5) mult.commute [of "unat nb" "unat n"] by linarith
  have "unat (of_nat b :: u32) = b" using D(2,3) assms(2) by (intro of_nat_bucket) simp
  then show "bucket_ptr n (of_nat b) = int (b * unat n)"
    unfolding bucket_ptr_def using lt by (subst unat_mult_no_ovf) simp_all
  show "sint (of_nat c :: u32) = int c" using D(10) assms(3) by (intro sint32_of_nat) simp
qed

lemma dist_store_inv:
  assumes A: "bsort_args x n nb hi lo cores" and I: "dist_inv x n nb hi lo cores slot s"
    and co: "co < unat cores" and pc: "ds_pc s co = Dist_store i b cur"
  shows "dist_inv x n nb hi lo cores slot (dist_step x n cores lo (bucket_range nb hi lo) co s)"
proof -
  note D = bsort_argsD [OF A]
  let ?k = "\<lambda>e. bkt nb hi lo (x (int e))" and ?T = "taken n cores (ds_pc s)"
  have ok: "co * share n cores \<le> i" "i < Suc co * share n cores" "b = of_nat (?k i)" "cur = of_nat (slot i)"
    using I co pc by (auto simp: dist_inv_def dist_pc_ok_def)
  note o = owner [OF ok(1,2)]
  have iT: "i \<in> ?T" using ok(2) share_bounds(3) [OF D(4) co] by (simp add: taken_def o pc)
  have slot_lt: "slot e < unat n" if "e \<in> ?T" for e
    using I that less_le_trans [OF _ card_bucket_le] by (auto simp: dist_inv_def slots_ok_def)
  have kb: "?k i < unat nb" using iT by (intro bucket_index_eq D) (simp_all add: taken_def)
  define t where "t = s\<lparr>ds_scratch := (ds_scratch s)(int (?k i * unat n + slot i) := x (int i)),
      ds_pc := (ds_pc s)(co := Dist_at (Suc i))\<rparr>"
  have t: "dist_step x n cores lo (bucket_range nb hi lo) co s = t"
    using co pc bucket_address [OF A kb less_imp_le [OF slot_lt [OF iT]]]
    by (simp add: dist_step_def t_def ok(3,4))
  have tk: "taken n cores (ds_pc t) = ?T" using taken_store [of "ds_pc s", OF pc] by (simp add: t_def)
  have apart: "?k e * unat n + slot e \<noteq> ?k i * unat n + slot i" if "e \<in> ?T" "e \<noteq> i" for e
    using slot_address [of "?k e" "unat n" "slot e" "?k i" "slot i"] slot_lt that iT I
    by (auto simp: dist_inv_def slots_ok_def inj_on_def)
  show ?thesis unfolding t dist_inv_def tk
  proof (intro conjI allI impI ballI)
    fix k assume "k < unat cores"
    then show "dist_pc_ok x n nb hi lo cores slot k (ds_pc t k)"
      using I ok(1,2) by (auto simp: t_def dist_inv_def dist_pc_ok_def)
  next
    fix b assume "b < unat nb"
    then show "ds_count t (int b) = of_nat (card {e \<in> ?T. ?k e = b})" using I by (simp add: t_def dist_inv_def)
  next
    show "slots_ok ?k slot ?T" using I by (simp add: dist_inv_def)
  next
    fix e assume e: "e \<in> ?T" "\<forall>b cur. ds_pc t (e div share n cores) \<noteq> Dist_store e b cur"
    show "ds_scratch t (int (?k e * unat n + slot e)) = x (int e)"
    proof (cases "e = i")
      case False
      have "ds_pc s (e div share n cores) \<noteq> Dist_store e b cur" for b cur
        using e(2) pc False by (auto simp: t_def split: if_splits)
      then have "ds_scratch s (int (?k e * unat n + slot e)) = x (int e)" using I e(1) by (simp add: dist_inv_def)
      then show ?thesis using apart [OF e(1) False] by (simp add: t_def del: of_nat_add of_nat_mult)
    qed (simp add: t_def)
  qed
qed

lemma dist_step_inv:
  assumes A: "bsort_args x n nb hi lo cores" and I: "dist_inv x n nb hi lo cores slot s"
  shows "\<exists>slot. dist_inv x n nb hi lo cores slot (dist_step x n cores lo (bucket_range nb hi lo) co s)"
proof (cases "co < unat cores \<and> dist_step x n cores lo (bucket_range nb hi lo) co s \<noteq> s")
  case True
  then have co: "co < unat cores" ..
  show ?thesis
  proof (cases "ds_pc s co")
    case (Dist_at i)
    then have "i < Suc co * share n cores"
      using True share_bounds(2) [OF bsort_argsD(4) [OF A] co] by (auto simp: dist_step_def split: if_splits)
    then show ?thesis by (rule dist_take_inv [OF A I co Dist_at])
  next
    case (Dist_store i b cur)
    then show ?thesis using dist_store_inv [OF A I co] by blast
  qed
next
  case False
  then have "dist_step x n cores lo (bucket_range nb hi lo) co s = s" by (auto simp: dist_step_def)
  then show ?thesis using I by auto
qed

lemma clear_counts: "for_upto 0 k (\<lambda>i c. c(int i := 0)) c (int b) = (if b < k then 0 else c (int b) :: u32)"
  by (induction k) (auto simp: for_upto_Suc)

lemma dist_start_inv:
  assumes "bsort_args x n nb hi lo cores"
  shows "dist_inv x n nb hi lo cores (\<lambda>_. 0) (dist_start scratch n cores nb)"
proof -
  note D = bsort_argsD [OF assms]
  have "\<not> e < dist_taken (ds_pc (dist_start scratch n cores nb) (e div share n cores))" if "e < unat n" for e
  proof -
    have "e < unat cores * share n cores" using that D(4) by (simp add: share_def)
    then have "e div share n cores < unat cores" by (simp add: less_mult_imp_div_less)
    then show ?thesis using share_bounds(1) [OF D(4)] by (simp add: dist_start_def not_less)
  qed
  then have "taken n cores (ds_pc (dist_start scratch n cores nb)) = {}" by (auto simp: taken_def)
  then show ?thesis using share_bounds(1) [OF D(4)]
    by (simp add: dist_inv_def slots_ok_def dist_pc_ok_def dist_start_def clear_counts)
qed

lemma dist_run_inv:
  assumes "bsort_args x n nb hi lo cores" and "dist_inv x n nb hi lo cores slot s"
  shows "\<exists>slot. dist_inv x n nb hi lo cores slot (fold (dist_step x n cores lo (bucket_range nb hi lo)) sch s)"
  using assms(2)
proof (induction sch arbitrary: slot s)
  case (Cons co sch)
  then show ?case using dist_step_inv [OF assms(1) Cons.prems, of co] by auto
qed auto

text \<open>Every turn of a core brings it one step further.\<close>

fun dist_rank :: "dist_pc \<Rightarrow> nat" where
  "dist_rank (Dist_at i) = 2 * i"
| "dist_rank (Dist_store i b cur) = 2 * i + 1"

lemma dist_rank_even: "dist_rank pc = 2 * m \<Longrightarrow> pc = Dist_at m"
proof (cases pc)
  case (Dist_store i b cur)
  assume "dist_rank pc = 2 * m"
  then have "2 * i + 1 = 2 * m" by (simp add: Dist_store)
  then have False by presburger
  then show ?thesis ..
qed simp

lemma dist_step_rank:
  assumes A: "bsort_args x n nb hi lo cores" and I: "dist_inv x n nb hi lo cores slot s" and co: "co < unat cores"
  shows "dist_rank (ds_pc (dist_step x n cores lo rng k s) co)
    = (if k = co then min (Suc (dist_rank (ds_pc s co))) (2 * (Suc co * share n cores)) else dist_rank (ds_pc s co))"
    and "dist_rank (ds_pc s co) \<le> 2 * (Suc co * share n cores)"
proof -
  have ok: "dist_pc_ok x n nb hi lo cores slot co (ds_pc s co)" using I co by (simp add: dist_inv_def)
  note h = share_bounds(2) [OF bsort_argsD(4) [OF A] co]
  show "dist_rank (ds_pc s co) \<le> 2 * (Suc co * share n cores)"
    using ok by (auto simp: dist_pc_ok_def split: dist_pc.splits)
  show "dist_rank (ds_pc (dist_step x n cores lo rng k s) co)
    = (if k = co then min (Suc (dist_rank (ds_pc s co))) (2 * (Suc co * share n cores)) else dist_rank (ds_pc s co))"
  proof (cases "k = co")
    case True
    then show ?thesis using ok co h by (cases "ds_pc s co") (auto simp: dist_step_def dist_pc_ok_def Let_def)
  next
    case False
    then show ?thesis by (auto simp: dist_step_def Let_def split: dist_pc.splits)
  qed
qed

lemma dist_run_rank:
  assumes A: "bsort_args x n nb hi lo cores" and "dist_inv x n nb hi lo cores slot s" and co: "co < unat cores"
  shows "dist_rank (ds_pc (fold (dist_step x n cores lo (bucket_range nb hi lo)) sch s) co)
    = min (dist_rank (ds_pc s co) + count_list sch co) (2 * (Suc co * share n cores))"
  using assms(2)
proof (induction sch arbitrary: slot s)
  case Nil
  then show ?case using dist_step_rank(2) [OF A _ co] by (simp add: min_absorb1)
next
  case (Cons k sch)
  obtain slot' where "dist_inv x n nb hi lo cores slot' (dist_step x n cores lo (bucket_range nb hi lo) k s)"
    using dist_step_inv [OF A Cons.prems] by blast
  from Cons.IH [OF this] show ?case using dist_step_rank(1) [OF A Cons.prems co, of "bucket_range nb hi lo" k] dist_step_rank(2) [OF A Cons.prems co] by auto
qed

text \<open>Enough turns of every core finish the distribution.\<close>

lemma dist_finishes:
  assumes A: "bsort_args x n nb hi lo cores" and sch: "\<And>co. co < unat cores \<Longrightarrow> 2 * share n cores \<le> count_list sch co"
  shows "dist_finished n cores (fold (dist_step x n cores lo (bucket_range nb hi lo)) sch (dist_start scratch n cores nb))"
  unfolding dist_finished_def
proof (intro allI impI)
  fix co assume co: "co < unat cores"
  let ?s = "fold (dist_step x n cores lo (bucket_range nb hi lo)) sch (dist_start scratch n cores nb)"
  note h = share_bounds [OF bsort_argsD(4) [OF A] co]
  have "dist_rank (ds_pc ?s co) = 2 * (Suc co * share n cores)"
    using dist_run_rank [OF A dist_start_inv [OF A] co] sch [OF co] h(1) by (simp add: dist_start_def)
  then show "ds_pc ?s co = Dist_at (unat (offset_core n cores co + frac_core n cores))"
    unfolding h(2) by (rule dist_rank_even)
qed

text \<open>A finished distribution: every bucket holds its values, in some order.\<close>

lemma slots_ok_onto:
  assumes "finite T" and "slots_ok k slot T"
  shows "bij_betw slot {e \<in> T. k e = b} {0..<card {e \<in> T. k e = b}}"
proof -
  have inj: "inj_on slot {e \<in> T. k e = b}" using assms(2) by (auto simp: slots_ok_def inj_on_def)
  have "slot ` {e \<in> T. k e = b} \<subseteq> {0..<card {e \<in> T. k e = b}}" using assms(2) by (auto simp: slots_ok_def)
  then have "slot ` {e \<in> T. k e = b} = {0..<card {e \<in> T. k e = b}}"
    by (intro card_subset_eq) (simp_all add: card_image [OF inj])
  then show ?thesis using inj by (simp add: bij_betw_def)
qed

lemma dist_result:
  assumes A: "bsort_args x n nb hi lo cores" and I: "dist_inv x n nb hi lo cores slot s"
    and f: "dist_finished n cores s" and b: "b < unat nb"
  defines "c \<equiv> length (filter (\<lambda>v. bkt nb hi lo v = b) (elems 0 (unat n) x))"
  shows "ds_count s (int b) = of_nat c" and "c \<le> unat n"
    and "mset (elems (int (b * unat n)) c (ds_scratch s)) = mset (filter (\<lambda>v. bkt nb hi lo v = b) (elems 0 (unat n) x))"
proof -
  note D = bsort_argsD [OF A]
  let ?k = "\<lambda>e. bkt nb hi lo (x (int e))"
  have own: "e div share n cores < unat cores" "e < Suc (e div share n cores) * share n cores" if "e < unat n" for e
  proof -
    have m: "e < unat cores * share n cores" using that D(4) by (simp add: share_def)
    then show "e div share n cores < unat cores" by (simp add: less_mult_imp_div_less)
    have "0 < share n cores" using m by (cases "share n cores = 0") simp_all
    then show "e < Suc (e div share n cores) * share n cores"
      using dividend_less_div_times [of "share n cores" e] by simp
  qed
  have pc: "ds_pc s (e div share n cores) = Dist_at (Suc (e div share n cores) * share n cores)" if "e < unat n" for e
    using f own(1) [OF that] share_bounds(2) [OF D(4) own(1) [OF that]] by (simp add: dist_finished_def)
  have T: "taken n cores (ds_pc s) = {..<unat n}"
    using own(2) pc by (fastforce simp: taken_def simp del: mult_Suc)
  have e: "mset (filter (\<lambda>v. bkt nb hi lo v = b) (elems 0 (unat n) x))
      = image_mset (\<lambda>e. x (int e)) (mset_set {e \<in> {..<unat n}. ?k e = b})"
    by (simp add: elems_def filter_map o_def mset_filter filter_mset_mset_set mset_upt atLeast0LessThan)
  then have c: "c = card {e \<in> {..<unat n}. ?k e = b}"
    unfolding c_def size_mset [symmetric] by simp
  show "ds_count s (int b) = of_nat c" using I b by (simp add: dist_inv_def T c)
  have "c \<le> card {..<unat n}" unfolding c by (rule card_mono) auto
  then show "c \<le> unat n" by simp
  have bij: "bij_betw slot {e \<in> {..<unat n}. ?k e = b} {0..<c}"
    using slots_ok_onto [of "{..<unat n}" ?k slot b] I by (simp add: dist_inv_def T c)
  have "mset_set {0..<c} = image_mset slot (mset_set {e \<in> {..<unat n}. ?k e = b})"
    using bij unfolding bij_betw_def by (elim conjE) (simp only: image_mset_mset_set)
  then have "mset (elems (int (b * unat n)) c (ds_scratch s))
      = image_mset (\<lambda>e. ds_scratch s (int (b * unat n) + int (slot e))) (mset_set {e \<in> {..<unat n}. ?k e = b})"
    by (simp add: elems_def multiset.map_comp o_def)
  also have "\<dots> = image_mset (\<lambda>e. x (int e)) (mset_set {e \<in> {..<unat n}. ?k e = b})"
    using I pc by (intro image_mset_cong) (auto simp: dist_inv_def T)
  finally show "mset (elems (int (b * unat n)) c (ds_scratch s)) = mset (filter (\<lambda>v. bkt nb hi lo v = b) (elems 0 (unat n) x))"
    by (simp only: e)
qed

subsection \<open>The loops over the buckets\<close>

lemma unat8: "b < 256 \<Longrightarrow> unat (of_nat b :: u8) = b"
  by (simp add: unat_of_nat_small)

lemma bucket_loop_inv:
  assumes "unat nb + unat cores \<le> 256" and "0 < unat cores" and "k < 256" and "P k s"
    and step: "\<And>b s. b < unat nb \<Longrightarrow> P b s \<Longrightarrow> P (b + unat cores) (f (of_nat b) s)"
  shows "\<exists>t b. bucket_loop nb cores f (of_nat k) s = Some t \<and> P b t \<and> unat nb \<le> b"
  using assms(3,4)
proof (induction "unat nb - k" arbitrary: k s rule: less_induct)
  case less
  show ?case
  proof (cases "k < unat nb")
    case False
    then have "bucket_loop nb cores f (of_nat k) s = Some s"
      using less.prems(1) by (subst bucket_loop.simps) (simp add: unat8)
    then show ?thesis using False less.prems(2) by (intro exI [of _ s] exI [of _ k]) simp
  next
    case True
    have "ucast cores = (of_nat (unat cores) :: u8)" by simp
    then have e: "bucket_loop nb cores f (of_nat k) s = bucket_loop nb cores f (of_nat (k + unat cores)) (f (of_nat k) s)"
      using True less.prems(1) by (subst bucket_loop.simps) (simp add: unat8)
    show ?thesis unfolding e
      using True assms(1,2) less.prems by (intro less.hyps step) simp_all
  qed
qed

lemma each_core_inv:
  assumes "P 0 s" and "\<And>co s. co < m \<Longrightarrow> P co s \<Longrightarrow> \<exists>t. f co s = Some t \<and> P (Suc co) t"
  shows "\<exists>t. each_core f [0..<m] s = Some t \<and> P m t"
proof -
  have "\<exists>t. each_core f [k..<m] s = Some t \<and> P m t" if "k \<le> m" "P k s" for k s
    using that
  proof (induction "m - k" arbitrary: k s)
    case 0
    then show ?case by simp
  next
    case (Suc d)
    then have k: "k < m" by simp
    obtain t where "f k s = Some t" "P (Suc k) t" using assms(2) [OF k Suc.prems(2)] by blast
    then show ?case using Suc.hyps(1) [of "Suc k" t] Suc.hyps(2) k by (simp add: upt_conv_Cons)
  qed
  then show ?thesis using assms(1) by blast
qed

text \<open>A counter that wraps: with more than 256 buckets the loop does not end.\<close>

lemma bucket_loop_for_ever:
  assumes "256 \<le> unat nb"
  shows "bucket_loop nb cores f b s = None"
proof -
  have "bucket_loop nb cores f b s = Some t \<Longrightarrow> 256 \<le> unat nb \<longrightarrow> False" for t
  proof (rule bucket_loop.raw_induct [where P = "\<lambda>nb cores f b s t. 256 \<le> unat nb \<longrightarrow> False"])
    fix loop nb cores f and b :: u8 and s t
    assume "\<And>nb cores f b s t. loop nb cores f b s = Some t \<Longrightarrow> 256 \<le> unat nb \<longrightarrow> False"
      and "(if unat b < unat nb then loop nb cores f (b + ucast cores) (f b s) else Some s) = Some t"
    moreover have "unat b < 256" using unsigned_less [of b, where 'a = nat] by simp
    ultimately show "256 \<le> unat nb \<longrightarrow> False" by (auto split: if_splits)
  qed
  then show ?thesis using assms by (cases "bucket_loop nb cores f b s") auto
qed

subsection \<open>Sorting and merging\<close>

text \<open>The buckets of \<open>cnt\<close> have \<open>c b\<close> elements each.\<close>

definition counts :: "i32_array \<Rightarrow> (nat \<Rightarrow> nat) \<Rightarrow> nat \<Rightarrow> nat \<Rightarrow> bool" where
  "counts cnt c N nb \<longleftrightarrow> (\<forall>b < nb. cnt (int b) = of_nat (c b) \<and> c b \<le> N) \<and> (\<Sum>b < nb. c b) = N"

lemma slices_apart:
  fixes b b' N :: nat
  assumes "b \<noteq> b'" and "j < c" and "c \<le> N" and "c' \<le> N"
  shows "int (b * N) + int j < int (b' * N) \<or> int (b' * N) + int c' \<le> int (b * N) + int j"
proof (cases "b < b'")
  case True
  then have "Suc b * N \<le> b' * N" by (intro mult_le_mono1) simp
  then show ?thesis using assms by (auto simp: algebra_simps simp flip: of_nat_mult of_nat_add)
next
  case False
  then have "Suc b' * N \<le> b * N" using assms(1) by (intro mult_le_mono1) simp
  then show ?thesis using assms by (auto simp: algebra_simps simp flip: of_nat_mult of_nat_add)
qed

lemma sort_bucket_elems:
  fixes s :: i32_array
  assumes A: "bsort_args x n nb hi lo cores" and C: "counts cnt c (unat n) (unat nb)" and b: "b < unat nb"
  defines "t \<equiv> sort_bucket n cnt (of_nat b) s"
  shows "mset (elems (int (b * unat n)) (c b) t) = mset (elems (int (b * unat n)) (c b) s)"
    and "sorted (map sint (elems (int (b * unat n)) (c b) t))"
    and "\<And>b'. b' < unat nb \<Longrightarrow> b' \<noteq> b \<Longrightarrow> elems (int (b' * unat n)) (c b') t = elems (int (b' * unat n)) (c b') s"
proof -
  have cb: "cnt (int b) = of_nat (c b)" "c b \<le> unat n" using C b by (simp_all add: counts_def)
  have b256: "b < 256" using bsort_argsD(3) [OF A] b by simp
  have u: "uint (of_nat b :: u8) = int b" by (simp only: uint_nat unat8 [OF b256])
  have w: "ucast (of_nat b :: u8) = (of_nat b :: u32)"
    using unat8 [OF b256] of_nat_bucket(2) [OF b256] b256 by (intro unat_eqI) (simp add: unsigned_ucast_eq take_bit_nat_eq_self)
  note ad = bucket_address [OF A b cb(2)]
  have t: "t = (if 0 < c b then quicksort (int (b * unat n)) (int (b * unat n) + int (c b) - 1) s else s)"
    by (simp add: t_def sort_bucket_def u w ad cb(1))
  note Q = quicksort_elems [where p = "int (b * unat n)" and c = "c b" and m = s]
  show "mset (elems (int (b * unat n)) (c b) t) = mset (elems (int (b * unat n)) (c b) s)"
    unfolding t using Q(1) by auto
  show "sorted (map sint (elems (int (b * unat n)) (c b) t))"
    unfolding t using Q(2) by (cases "c b = 0") (auto simp: elems_def)
  show "elems (int (b' * unat n)) (c b') t = elems (int (b' * unat n)) (c b') s" if b': "b' < unat nb" "b' \<noteq> b" for b'
  proof (rule elems_cong)
    fix j assume "j < c b'"
    then have "int (b' * unat n) + int j < int (b * unat n) \<or> int (b * unat n) + int (c b) \<le> int (b' * unat n) + int j"
      using C b' cb(2) by (intro slices_apart [where c = "c b'"]) (simp_all add: counts_def)
    then show "t (int (b' * unat n) + int j) = s (int (b' * unat n) + int j)"
      unfolding t using Q(3) by auto
  qed
qed

lemma sort_phase:
  assumes A: "bsort_args x n nb hi lo cores" and C: "counts cnt c (unat n) (unat nb)"
  shows "\<exists>t. each_core (\<lambda>co. bucket_loop nb cores (sort_bucket n cnt) (of_nat co)) [0..<unat cores] s = Some t
    \<and> (\<forall>b < unat nb. mset (elems (int (b * unat n)) (c b) t) = mset (elems (int (b * unat n)) (c b) s)
         \<and> sorted (map sint (elems (int (b * unat n)) (c b) t)))"
proof -
  note D = bsort_argsD [OF A]
  define P where "P done t \<longleftrightarrow> (\<forall>b < unat nb. mset (elems (int (b * unat n)) (c b) t) = mset (elems (int (b * unat n)) (c b) s)
     \<and> (done b \<longrightarrow> sorted (map sint (elems (int (b * unat n)) (c b) t))))" for "done" t
  have sort: "P (\<lambda>b'. done b' \<or> b' = b) (sort_bucket n cnt (of_nat b) t)" if "b < unat nb" "P done t" for "done" b t
    unfolding P_def
  proof (intro allI impI)
    fix b' assume "b' < unat nb"
    then show "mset (elems (int (b' * unat n)) (c b') (sort_bucket n cnt (of_nat b) t)) = mset (elems (int (b' * unat n)) (c b') s)
      \<and> (done b' \<or> b' = b \<longrightarrow> sorted (map sint (elems (int (b' * unat n)) (c b') (sort_bucket n cnt (of_nat b) t))))"
      using that sort_bucket_elems [where s = t, OF A C that(1)] by (cases "b' = b") (simp_all add: P_def)
  qed
  have "\<exists>t. each_core (\<lambda>co. bucket_loop nb cores (sort_bucket n cnt) (of_nat co)) [0..<unat cores] s = Some t
      \<and> P (\<lambda>b. b mod unat cores < unat cores) t"
  proof (rule each_core_inv [where P = "\<lambda>co. P (\<lambda>b. b mod unat cores < co)"])
    show "P (\<lambda>b. b mod unat cores < 0) s" by (simp add: P_def)
    fix co s assume co: "co < unat cores" and s: "P (\<lambda>b. b mod unat cores < co) s"
    let ?Q = "\<lambda>k t. k mod unat cores = co \<and> P (\<lambda>b. b mod unat cores < co \<or> b mod unat cores = co \<and> b < k) t"
    have "\<exists>t b. bucket_loop nb cores (sort_bucket n cnt) (of_nat co) s = Some t \<and> ?Q b t \<and> unat nb \<le> b"
    proof (rule bucket_loop_inv [where P = ?Q, OF D(3,2)])
      show "co < 256" using co D(1,3) by simp
      have "(b mod unat cores < co \<or> b mod unat cores = co \<and> b < co) = (b mod unat cores < co)" for b
        by (metis leD mod_less_eq_dividend)
      then show "?Q co s" using co s by simp
    next
      fix b t assume b: "b < unat nb" and t: "?Q b t"
      have "b' = b \<or> b' < b" if "b' < b + unat cores" "b' mod unat cores = co" for b'
      proof (rule ccontr)
        assume "\<not> ?thesis"
        then have "0 < b' - b" "b' - b < unat cores" "b' = b + (b' - b)" using that(1) by auto
        moreover have "unat cores dvd b' - b" using that(2) t calculation by (metis mod_eq_dvd_iff_nat le_add1)
        ultimately show False by (auto dest: dvd_imp_le)
      qed
      then have "P (\<lambda>b'. b' mod unat cores < co \<or> b' mod unat cores = co \<and> b' < b + unat cores) (sort_bucket n cnt (of_nat b) t)"
        using sort [OF b conjunct2 [OF t]] unfolding P_def by blast
      then show "?Q (b + unat cores) (sort_bucket n cnt (of_nat b) t)" using t by simp
    qed
    then obtain t b where t: "bucket_loop nb cores (sort_bucket n cnt) (of_nat co) s = Some t" "?Q b t" "unat nb \<le> b"
      by blast
    then have "P (\<lambda>b. b mod unat cores < Suc co) t" by (fastforce simp: P_def less_Suc_eq)
    then show "\<exists>t. bucket_loop nb cores (sort_bucket n cnt) (of_nat co) s = Some t \<and> P (\<lambda>b. b mod unat cores < Suc co) t"
      using t(1) by blast
  qed
  then show ?thesis using D(2) by (simp add: P_def)
qed

lemma sum_counts_le: "counts cnt c N nb \<Longrightarrow> b \<le> nb \<Longrightarrow> (\<Sum>a < b. c a) \<le> N"
  unfolding counts_def by (metis (full_types) finite_lessThan lessThan_subset_iff sum_mono2 zero_le)

lemma prefixSum_counts:
  assumes C: "counts cnt c N nb" and "b < nb"
  shows "prefixSum cnt nb (int b) = of_nat (\<Sum>a < b. c a)"
proof -
  have "\<forall>b < nb. prefixSum cnt nb (int b) = of_nat (\<Sum>a < b. c a)"
    unfolding prefixSum_def
  proof (rule for_upto_induct [where P = "\<lambda>m p. \<forall>b < m. p (int b) = of_nat (\<Sum>a < b. c a)"])
    show "1 \<le> nb" using assms(2) by simp
    show "\<forall>b < 1. ((\<lambda>_. 0)(0 := 0)) (int b) = (of_nat (\<Sum>a < b. c a) :: u32)" by simp
    fix i p assume i: "1 \<le> i" "i < nb" and p: "\<forall>b < i. p (int b) = (of_nat (\<Sum>a < b. c a) :: u32)"
    obtain j where j: "i = Suc j" using i(1) by (cases i) auto
    have "p (int j) + cnt (int j) = of_nat (\<Sum>a < i. c a)" using p C i(2) by (simp add: j counts_def)
    then show "\<forall>b < Suc i. (p(int i := p (int i - 1) + cnt (int i - 1))) (int b) = of_nat (\<Sum>a < b. c a)"
      using p by (auto simp: j less_Suc_eq)
  qed
  then show ?thesis using assms(2) by blast
qed

text \<open>Merging bucket \<open>k\<close>.\<close>

lemma copy_loop_at:
  "for_upto 0 m (\<lambda>j y. y(int (p + j) := g j)) y i
    = (if int p \<le> i \<and> i < int (p + m) then g (nat (i - int p)) else y i)"
  by (induction m) (auto simp: for_upto_Suc)

lemma merge_bucket_at:
  assumes A: "bsort_args x n nb hi lo cores" and C: "counts cnt c (unat n) (unat nb)" and k: "k < unat nb"
  shows "merge_bucket n cnt (prefixSum cnt (unat nb)) scr k y i
    = (if int (\<Sum>a < k. c a) \<le> i \<and> i < int (\<Sum>a < Suc k. c a)
       then scr (int (k * unat n) + int (nat (i - int (\<Sum>a < k. c a)))) else y i)"
proof -
  define p where "p = (\<Sum>a < k. c a)"
  have ck: "cnt (int k) = of_nat (c k)" "c k \<le> unat n" using C k by (simp_all add: counts_def)
  have N: "p + c k \<le> unat n" using sum_counts_le [OF C, of "Suc k"] k by (simp add: p_def)
  have uc: "unat (of_nat (c k) :: u32) = c k" using ck(2) unat_lt_pow32 [of n] by (intro unat_of_nat_small) simp
  have addr: "uint (of_nat j + of_nat p :: u32) = int (p + j)" if "j < c k" for j
  proof -
    have "unat (of_nat (p + j) :: u32) = p + j" using that N unat_lt_pow32 [of n] by (intro unat_of_nat_small) simp
    then show ?thesis unfolding uint_nat by (simp add: add.commute)
  qed
  have "merge_bucket n cnt (prefixSum cnt (unat nb)) scr k
      = for_upto 0 (c k) (\<lambda>j y. y(int (p + j) := scr (int (k * unat n) + int j)))"
    unfolding merge_bucket_def Let_def prefixSum_counts [OF C k] bucket_address(1) [OF A k ck(2)] ck(1) uc p_def [symmetric]
    by (intro for_upto_cong) (simp only: addr)
  then show ?thesis by (simp only: copy_loop_at p_def sum.lessThan_Suc)
qed

lemma merge_idempotent:
  assumes "bsort_args x n nb hi lo cores" and "counts cnt c (unat n) (unat nb)" and "k < unat nb"
  shows "merge_bucket n cnt (prefixSum cnt (unat nb)) scr k (merge_bucket n cnt (prefixSum cnt (unat nb)) scr k y)
    = merge_bucket n cnt (prefixSum cnt (unat nb)) scr k y"
  by (rule ext) (simp only: merge_bucket_at [OF assms] if_cancel split: if_split, simp)

lemma merge_phase:
  assumes A: "bsort_args x n nb hi lo cores" and C: "counts cnt c (unat n) (unat nb)"
  shows "each_core (\<lambda>co. bucket_loop nb cores (\<lambda>_. merge_bucket n cnt (prefixSum cnt (unat nb)) scr co) (of_nat co))
      [0..<unat cores] y
    = Some (fold (merge_bucket n cnt (prefixSum cnt (unat nb)) scr) [0..<min (unat cores) (unat nb)] y)"
proof -
  note D = bsort_argsD [OF A]
  let ?M = "merge_bucket n cnt (prefixSum cnt (unat nb)) scr"
  have "\<exists>t. each_core (\<lambda>co. bucket_loop nb cores (\<lambda>_. ?M co) (of_nat co)) [0..<unat cores] y = Some t
      \<and> t = fold ?M [0..<min (unat cores) (unat nb)] y"
  proof (rule each_core_inv [where P = "\<lambda>co t. t = fold ?M [0..<min co (unat nb)] y"])
    fix co s assume co: "co < unat cores" and s: "s = fold ?M [0..<min co (unat nb)] y"
    let ?Q = "\<lambda>b t. b = co \<and> t = s \<or> co < b \<and> co < unat nb \<and> t = ?M co s"
    have "\<exists>t b. bucket_loop nb cores (\<lambda>_. ?M co) (of_nat co) s = Some t \<and> ?Q b t \<and> unat nb \<le> b"
    proof (rule bucket_loop_inv [where P = ?Q, OF D(3,2)])
      show "co < 256" using co D(1,3) by simp
      show "?Q (b + unat cores) (?M co t)" if "b < unat nb" "?Q b t" for b t
        using that D(2) merge_idempotent [OF A C, of co scr s] by auto
    qed simp
    moreover have "fold ?M [0..<min (Suc co) (unat nb)] y = (if co < unat nb then ?M co s else s)"
      by (auto simp: s min_def)
    ultimately show "\<exists>t. bucket_loop nb cores (\<lambda>_. ?M co) (of_nat co) s = Some t
        \<and> t = fold ?M [0..<min (Suc co) (unat nb)] y" by (auto split: if_splits)
  qed simp
  then show ?thesis by blast
qed

lemma merge_result:
  fixes y scr :: i32_array
  assumes A: "bsort_args x n nb hi lo cores" and C: "counts cnt c (unat n) (unat nb)" and m: "m \<le> unat nb"
  defines "t \<equiv> fold (merge_bucket n cnt (prefixSum cnt (unat nb)) scr) [0..<m] y"
  shows "elems 0 (\<Sum>b < m. c b) t = concat (map (\<lambda>b. elems (int (b * unat n)) (c b) scr) [0..<m])
    \<and> (\<forall>i. i < 0 \<or> int (\<Sum>b < m. c b) \<le> i \<longrightarrow> t i = y i)"
  using m unfolding t_def
proof (induction m)
  case 0
  then show ?case by (simp add: elems_def)
next
  case (Suc m)
  define p where "p = (\<Sum>b < m. c b)"
  define s where "s = fold (merge_bucket n cnt (prefixSum cnt (unat nb)) scr) [0..<m] y"
  define t where "t = fold (merge_bucket n cnt (prefixSum cnt (unat nb)) scr) [0..<Suc m] y"
  have s: "elems 0 p s = concat (map (\<lambda>b. elems (int (b * unat n)) (c b) scr) [0..<m])"
    "\<And>i. i < 0 \<or> int p \<le> i \<Longrightarrow> s i = y i" using Suc by (auto simp: s_def p_def)
  have t: "t i = (if int p \<le> i \<and> i < int (p + c m) then scr (int (m * unat n) + int (nat (i - int p))) else s i)" for i
    using merge_bucket_at [OF A C, of m scr s i] Suc.prems by (simp add: t_def s_def p_def)
  have "elems 0 (p + c m) t = elems 0 p s @ elems (int (m * unat n)) (c m) scr"
    unfolding elems_append by (intro arg_cong2 [where f = "(@)"] elems_cong) (simp_all add: t)
  moreover have "(\<Sum>b < Suc m. c b) = p + c m" by (simp add: p_def)
  moreover have "\<forall>i. i < 0 \<or> int (p + c m) \<le> i \<longrightarrow> t i = y i" using s(2) t by auto
  ultimately show ?case using s(1) unfolding t_def [symmetric] by simp
qed

text \<open>The values of all buckets together.\<close>

lemma mset_filter_Suc:
  fixes f :: "'a \<Rightarrow> nat"
  shows
  "mset (filter (\<lambda>v. f v < Suc m) xs) = mset (filter (\<lambda>v. f v < m) xs) + mset (filter (\<lambda>v. f v = m) xs)"
  by (induction xs) auto

lemma mset_filter_below:
  fixes f :: "'a \<Rightarrow> nat"
  shows "(\<Sum>b < m. mset (filter (\<lambda>v. f v = b) xs)) = mset (filter (\<lambda>v. f v < m) xs)"
  by (induction m) (simp_all only: mset_filter_Suc sum.lessThan_Suc, simp)

lemma mset_concat_upt: "mset (concat (map L [0..<m])) = (\<Sum>b < m. mset (L b))"
  by (induction m) simp_all

lemma length_filter_below:
  fixes f :: "'a \<Rightarrow> nat"
  shows "(\<Sum>b < m. length (filter (\<lambda>v. f v = b) xs)) = length (filter (\<lambda>v. f v < m) xs)"
proof (induction m)
  case (Suc m)
  have "length (filter (\<lambda>v. f v < Suc m) xs) = length (filter (\<lambda>v. f v < m) xs) + length (filter (\<lambda>v. f v = m) xs)"
    by (induction xs) auto
  then show ?case using Suc by simp
qed simp

lemma sorted_concat:
  assumes "\<And>b. b < m \<Longrightarrow> sorted (map f (L b))" and "\<And>b v. b < m \<Longrightarrow> v \<in> set (L b) \<Longrightarrow> g v = b"
    and "\<And>a b v w. a < m \<Longrightarrow> b < m \<Longrightarrow> v \<in> set (L a) \<Longrightarrow> w \<in> set (L b) \<Longrightarrow> g v < g w \<Longrightarrow> f v \<le> f w"
  shows "sorted (map f (concat (map L [0..<m])))"
  using assms
proof (induction m)
  case (Suc m)
  have "sorted (map f (concat (map L [0..<m])))" by (rule Suc.IH) (blast intro: less_SucI Suc.prems)+
  moreover have "f v \<le> f w" if "a < m" "v \<in> set (L a)" "w \<in> set (L m)" for a v w
    using that Suc.prems(2) [of a v] Suc.prems(2) [of m w] by (intro Suc.prems(3) [of a m]) auto
  ultimately show ?case using Suc.prems(1) [of m] by (auto simp: sorted_append)
qed simp

subsection \<open>Properties\<close>

text \<open>
  What a run computes: the sorted buckets, of which the first ones, as many as there are cores,
  are copied back in order.
\<close>

lemma bucketSort_result:
  assumes A: "bsort_args x n nb hi lo cores"
    and sch: "\<And>co. co < unat cores \<Longrightarrow> 2 * (unat n div unat cores) \<le> count_list sch co"
  shows "\<exists>y L. bucketSort x n nb hi lo cores sch scratch = Some y
    \<and> (\<forall>b < unat nb. mset (L b) = mset (filter (\<lambda>v. bkt nb hi lo v = b) (elems 0 (unat n) x)) \<and> sorted (map sint (L b)))
    \<and> elems 0 (\<Sum>b < min (unat cores) (unat nb). length (L b)) y = concat (map L [0..<min (unat cores) (unat nb)])
    \<and> (\<forall>i. i < 0 \<or> int (\<Sum>b < min (unat cores) (unat nb). length (L b)) \<le> i \<longrightarrow> y i = x i)"
proof -
  note D = bsort_argsD [OF A]
  define s where "s = fold (dist_step x n cores lo (bucket_range nb hi lo)) sch (dist_start scratch n cores nb)"
  have f: "dist_finished n cores s" unfolding s_def using sch by (intro dist_finishes [OF A]) (simp add: share_def)
  obtain slot where "dist_inv x n nb hi lo cores slot s"
    using dist_run_inv [OF A dist_start_inv [OF A]] s_def by blast
  note R = dist_result [OF A this f]
  define c where "c b = length (filter (\<lambda>v. bkt nb hi lo v = b) (elems 0 (unat n) x))" for b
  have "filter (\<lambda>v. bkt nb hi lo v < unat nb) (elems 0 (unat n) x) = elems 0 (unat n) x"
    using bucket_index_eq(2) [OF D(1) D(8,9) D(7)] by (auto simp: filter_id_conv elems_def)
  then have "(\<Sum>b < unat nb. c b) = unat n" unfolding c_def length_filter_below by simp
  then have C: "counts (ds_count s) c (unat n) (unat nb)" using R(1,2) by (simp add: counts_def c_def)
  obtain t where t: "each_core (\<lambda>co. bucket_loop nb cores (sort_bucket n (ds_count s)) (of_nat co)) [0..<unat cores] (ds_scratch s) = Some t"
    "\<And>b. b < unat nb \<Longrightarrow> mset (elems (int (b * unat n)) (c b) t) = mset (elems (int (b * unat n)) (c b) (ds_scratch s))"
    "\<And>b. b < unat nb \<Longrightarrow> sorted (map sint (elems (int (b * unat n)) (c b) t))"
    using sort_phase [OF A C, of "ds_scratch s"] by blast
  define y where "y = fold (merge_bucket n (ds_count s) (prefixSum (ds_count s) (unat nb)) t) [0..<min (unat cores) (unat nb)] x"
  define L where "L = (\<lambda>b. elems (int (b * unat n)) (c b) t)"
  have y: "bucketSort x n nb hi lo cores sch scratch = Some y"
    using f t(1) merge_phase [OF A C, of t x] by (simp add: bucketSort_def Let_def y_def flip: s_def)
  have M: "elems 0 (\<Sum>b < min (unat cores) (unat nb). c b) y = concat (map L [0..<min (unat cores) (unat nb)])"
    "\<forall>i. i < 0 \<or> int (\<Sum>b < min (unat cores) (unat nb). c b) \<le> i \<longrightarrow> y i = x i"
    using merge_result [OF A C, of "min (unat cores) (unat nb)" t x] by (simp_all add: y_def L_def)
  have "mset (L b) = mset (filter (\<lambda>v. bkt nb hi lo v = b) (elems 0 (unat n) x)) \<and> sorted (map sint (L b))" if "b < unat nb" for b
    using t(2,3) [OF that] R(3) [OF that] by (simp only: L_def c_def simp_thms)
  moreover have "length (L b) = c b" for b by (simp add: L_def)
  ultimately show ?thesis using y M by (intro exI [of _ y] exI [of _ L]) simp
qed

text \<open>
  C28: Bucket sort sorts. With at most as many buckets as compute cores, which divide the number
  of elements, and a maximum and minimum that bound them, for every interleaving of the cores'
  distribution that gives each of them its two steps per element, \<open>bucketSort\<close> returns, the
  array is sorted as signed numbers, it is a permutation of the input, and nothing else is
  written.\<close>

theorem bucket_sort_sorts:
  assumes "bsort_args x n nb hi lo cores" and "unat nb \<le> unat cores"
    and "\<And>co. co < unat cores \<Longrightarrow> 2 * (unat n div unat cores) \<le> count_list sch co"
  shows "\<exists>y. bucketSort x n nb hi lo cores sch scratch = Some y
    \<and> sorted (map sint (elems 0 (unat n) y)) \<and> mset (elems 0 (unat n) y) = mset (elems 0 (unat n) x)
    \<and> (\<forall>i. i < 0 \<or> int (unat n) \<le> i \<longrightarrow> y i = x i)"
proof -
  note D = bsort_argsD [OF assms(1)]
  have m: "min (unat cores) (unat nb) = unat nb" using assms(2) by simp
  let ?B = "\<lambda>b. filter (\<lambda>v. bkt nb hi lo v = b) (elems 0 (unat n) x)"
  obtain y L where r: "bucketSort x n nb hi lo cores sch scratch = Some y"
    and L: "\<And>b. b < unat nb \<Longrightarrow> mset (L b) = mset (?B b)" "\<And>b. b < unat nb \<Longrightarrow> sorted (map sint (L b))"
    and e: "elems 0 (\<Sum>b < unat nb. length (L b)) y = concat (map L [0..<unat nb])"
    and o: "\<forall>i. i < 0 \<or> int (\<Sum>b < unat nb. length (L b)) \<le> i \<longrightarrow> y i = x i"
    using bucketSort_result [OF assms(1,3), of scratch] unfolding m by metis
  have all: "filter (\<lambda>v. bkt nb hi lo v < unat nb) (elems 0 (unat n) x) = elems 0 (unat n) x"
    using bucket_index_eq(2) [OF D(1) D(8,9) D(7)] by (auto simp: filter_id_conv elems_def)
  have len: "length (L b) = length (?B b)" if "b < unat nb" for b using L(1) [OF that] by (metis size_mset)
  have N: "(\<Sum>b < unat nb. length (L b)) = unat n" using len all by (simp add: length_filter_below)
  have inL: "v \<in> set (elems 0 (unat n) x) \<and> bkt nb hi lo v = b" if "b < unat nb" "v \<in> set (L b)" for b v
    using that mset_eq_setD [OF L(1) [OF that(1)]] by auto
  have "mset (concat (map L [0..<unat nb])) = (\<Sum>b < unat nb. mset (?B b))"
    unfolding mset_concat_upt using L(1) by simp
  also have "\<dots> = mset (elems 0 (unat n) x)" by (simp only: mset_filter_below all)
  finally have p: "mset (elems 0 (unat n) y) = mset (elems 0 (unat n) x)" using e N by simp
  have mono: "sint v \<le> sint w" if "v \<in> set (elems 0 (unat n) x)" "w \<in> set (elems 0 (unat n) x)"
    "bkt nb hi lo v < bkt nb hi lo w" for v w
  proof (rule ccontr)
    assume "\<not> sint v \<le> sint w"
    moreover have "sint lo \<le> sint w" using D(8) that(2) by (auto simp: elems_def)
    ultimately show False using bkt_mono [of lo w v nb hi] that(3) by simp
  qed
  have "sorted (map sint (concat (map L [0..<unat nb])))"
  proof (rule sorted_concat [where g = "bkt nb hi lo"])
    show "sint v \<le> sint w" if "a < unat nb" "b < unat nb" "v \<in> set (L a)" "w \<in> set (L b)" "bkt nb hi lo v < bkt nb hi lo w" for a b v w
      using inL [OF that(1,3)] inL [OF that(2,4)] that(5) by (intro mono) simp_all
  qed (use L(2) inL in blast)+
  then show ?thesis using r e o p unfolding N by metis
qed

definition sample_x :: i32_array where
  "sample_x i = (if i = 0 then 5 else if i = 1 then - 3 else if i = 2 then 7 else if i = 3 then 0 else 0)"

lemma sample_elems: "elems 0 4 sample_x = [5, - 3, 7, 0]" "elems 0 2 sample_x = [5, - 3]"
  by (simp_all add: elems_def sample_x_def upt_rec)

lemma less_small: "(i :: nat) < 4 \<longleftrightarrow> i = 0 \<or> i = 1 \<or> i = 2 \<or> i = 3" "(i :: nat) < 2 \<longleftrightarrow> i = 0 \<or> i = 1"
  by auto

lemma sample_args: "bsort_args sample_x 4 2 7 (- 3) 2" "bsort_args sample_x 2 2 7 (- 3) 1"
  by (auto simp: bsort_args_def sample_x_def less_small)

theorem bucket_sort_sorts_witness:
  "\<exists>y. bucketSort sample_x 4 2 7 (- 3) 2 [0, 1, 1, 0, 0, 1, 0, 1] (\<lambda>_. 0) = Some y
    \<and> sorted (map sint (elems 0 4 y)) \<and> mset (elems 0 4 y) = {#5, - 3, 7, 0#} \<and> y 4 = 0"
proof -
  have "2 * (unat (4 :: u32) div unat (2 :: u32)) \<le> count_list [0, 1, 1, 0, 0, 1, 0, 1] co" if "co < unat (2 :: u32)" for co :: nat
    using that by (auto simp: less_small)
  from bucket_sort_sorts [OF sample_args(1) _ this, of "\<lambda>_. 0"] show ?thesis
    by (auto simp: sample_elems) (auto simp: sample_x_def)
qed

text \<open>
  With more buckets than cores, values are lost. The merge loop copies bucket \<open>core_idx\<close>
  again instead of \<open>next_bucket\<close>: when \<open>bucketSort\<close> returns, the array starts with the values of
  the first \<open>cores\<close> buckets, and behind them nothing has been written at all.\<close>

lemma bucket_sort_loses_buckets:
  assumes "bsort_args x n nb hi lo cores" and "unat cores < unat nb"
    and "\<And>co. co < unat cores \<Longrightarrow> 2 * (unat n div unat cores) \<le> count_list sch co"
    and "p = length (filter (\<lambda>v. bkt nb hi lo v < unat cores) (elems 0 (unat n) x))"
  shows "\<exists>y. bucketSort x n nb hi lo cores sch scratch = Some y
    \<and> mset (elems 0 p y) = mset (filter (\<lambda>v. bkt nb hi lo v < unat cores) (elems 0 (unat n) x))
    \<and> (\<forall>i. int p \<le> i \<longrightarrow> y i = x i)"
proof -
  have m: "min (unat cores) (unat nb) = unat cores" using assms(2) by simp
  let ?B = "\<lambda>b. filter (\<lambda>v. bkt nb hi lo v = b) (elems 0 (unat n) x)"
  obtain y L where r: "bucketSort x n nb hi lo cores sch scratch = Some y"
    and L: "\<And>b. b < unat nb \<Longrightarrow> mset (L b) = mset (?B b)"
    and e: "elems 0 (\<Sum>b < unat cores. length (L b)) y = concat (map L [0..<unat cores])"
    and o: "\<forall>i. i < 0 \<or> int (\<Sum>b < unat cores. length (L b)) \<le> i \<longrightarrow> y i = x i"
    using bucketSort_result [OF assms(1,3), of scratch] unfolding m by metis
  have "length (L b) = length (?B b)" if "b < unat cores" for b using L [of b] that assms(2) by (metis less_trans size_mset)
  then have p: "(\<Sum>b < unat cores. length (L b)) = p" by (simp add: assms(4) length_filter_below)
  have "mset (elems 0 p y) = (\<Sum>b < unat cores. mset (?B b))"
    using L assms(2) unfolding e [unfolded p] mset_concat_upt by (intro sum.cong) auto
  then show ?thesis using r o unfolding p mset_filter_below by blast
qed

lemma bucket_sort_loses_buckets_witness:
  "\<exists>y. bucketSort sample_x 2 2 7 (- 3) 1 [0, 0, 0, 0] (\<lambda>_. 0) = Some y \<and> y 0 = - 3 \<and> y 1 = - 3"
proof -
  have "2 * (unat (2 :: u32) div unat (1 :: u32)) \<le> count_list [0, 0, 0, 0] co" if "co < unat (1 :: u32)" for co :: nat
    using that by simp
  moreover have b: "filter (\<lambda>v. bkt 2 7 (- 3) v < unat (1 :: u32)) (elems 0 (unat (2 :: u32)) sample_x) = [- 3]"
    by (simp add: sample_elems bkt_def)
  ultimately obtain y where y: "bucketSort sample_x 2 2 7 (- 3) 1 [0, 0, 0, 0] (\<lambda>_. 0) = Some y"
    "mset (elems 0 1 y) = {#- 3#}" "\<forall>i \<ge> 1. y i = sample_x i"
    using bucket_sort_loses_buckets [OF sample_args(2) _ _ refl, of "[0, 0, 0, 0]" "\<lambda>_. 0"] by auto
  then have "y 0 = - 3" "y 1 = - 3" by (simp_all add: elems_def sample_x_def)
  then show ?thesis using y(1) by blast
qed

text \<open>
  With 256 buckets or more the sort never returns: the 8-bit counter \<open>next_bucket\<close> wraps
  before it reaches the number of buckets.\<close>

lemma bucket_sort_for_ever:
  assumes "256 \<le> unat nb" and "0 < unat cores"
  shows "bucketSort x n nb hi lo cores sch scratch = None"
  using assms(2) by (auto simp: bucketSort_def Let_def bucket_loop_for_ever [OF assms(1)] upt_conv_Cons)

lemma bucket_sort_for_ever_witness: "bucketSort sample_x 4 256 7 (- 3) 8 [0, 1] (\<lambda>_. 0) = None"
  by (rule bucket_sort_for_ever) simp_all

end
