(* ===== verification/Prng.thy ===== *)
theory Prng
  imports Snitch_Prelude
begin

text \<open>
  The pseudo-random number generators of the kernels (\<open>sw/kernels/misc/prng\<close>): the linear
  congruential generator with its leapfrog sequences (\<open>lcg.h\<close>), SplitMix64 (\<open>splitmix64.h\<close>) and
  xoshiro128+ with its jump function (\<open>xoshiro128p.h\<close>). An array of generators is a list.
\<close>

subsection \<open>Linear congruential generator\<close>

definition LCG_A :: u32 where "LCG_A = 1664525"
definition LCG_C :: u32 where "LCG_C = 1013904223"

record lcg =
  lcg_state :: u32
  lcg_mul :: u32
  lcg_add :: u32

definition lcg_init_default :: "u32 \<Rightarrow> lcg" where
  "lcg_init_default seed = \<lparr>lcg_state = seed, lcg_mul = LCG_A, lcg_add = LCG_C\<rparr>"

definition lcg_init :: "u32 \<Rightarrow> u32 \<Rightarrow> u32 \<Rightarrow> lcg" where
  "lcg_init seed a c = \<lparr>lcg_state = seed, lcg_mul = a, lcg_add = c\<rparr>"

definition lcg_next :: "lcg \<Rightarrow> u32 \<times> lcg" where
  "lcg_next g = (let x = lcg_state g * lcg_mul g + lcg_add g in (x, g\<lparr>lcg_state := x\<rparr>))"

definition lcg_init_n :: "u32 \<Rightarrow> u32 \<Rightarrow> u32 \<Rightarrow> u32 \<Rightarrow> lcg list" where
  "lcg_init_n seed a c n =
     (let (ap, cp) = for_upto 0 (unat n) (\<lambda>p (ap, cp). (ap * a, cp + ap)) (1, 0);
          cp = cp * c;
          lcg0 = lcg_init seed a c
      in snd (for_upto 0 (unat n) (\<lambda>i (lcg0, lcgs).
           (let (x, lcg0) = lcg_next lcg0 in (lcg0, lcgs @ [lcg_init x ap cp]))) (lcg0, [])))"

definition lcg_init_n_default :: "u32 \<Rightarrow> u32 \<Rightarrow> lcg list" where
  "lcg_init_n_default seed n = lcg_init_n seed LCG_A LCG_C n"

text \<open>The \<open>m\<close>-th number of the single generator.\<close>

definition lcg_number :: "lcg \<Rightarrow> nat \<Rightarrow> u32" where
  "lcg_number g m = lcg_state (((\<lambda>g. snd (lcg_next g)) ^^ m) g)"

lemma lcg_next_params: "lcg_mul (snd (lcg_next g)) = lcg_mul g" "lcg_add (snd (lcg_next g)) = lcg_add g"
  by (simp_all add: lcg_next_def Let_def)

lemma lcg_iter_params:
  "lcg_mul (((\<lambda>g. snd (lcg_next g)) ^^ m) g) = lcg_mul g"
  "lcg_add (((\<lambda>g. snd (lcg_next g)) ^^ m) g) = lcg_add g"
  by (induction m) (simp_all add: lcg_next_params)

lemma lcg_number_0: "lcg_number g 0 = lcg_state g"
  by (simp add: lcg_number_def)

lemma lcg_number_Suc: "lcg_number g (Suc m) = lcg_number g m * lcg_mul g + lcg_add g"
  using lcg_iter_params [of m g] by (simp add: lcg_number_def lcg_next_def Let_def)

lemma lcg_number_numeral: "lcg_number g (numeral k) = lcg_number g (pred_numeral k) * lcg_mul g + lcg_add g"
  by (simp add: numeral_eq_Suc lcg_number_Suc)

lemma geometric_Suc: "(\<Sum>p < Suc k. a ^ p) = (\<Sum>p < k. a ^ p) * a + (1 :: u32)"
proof (induction k)
  case (Suc k)
  have "(\<Sum>p < Suc (Suc k). a ^ p) = ((\<Sum>p < k. a ^ p) * a + 1) + a ^ Suc k"
    using Suc by (simp only: sum.lessThan_Suc [of _ "Suc k"])
  also have "\<dots> = (\<Sum>p < Suc k. a ^ p) * a + 1" by (simp add: algebra_simps)
  finally show ?case .
qed simp

text \<open>\<open>k\<close> steps at once.\<close>

lemma lcg_number_add:
  "lcg_number g (m + k) = lcg_number g m * lcg_mul g ^ k + (\<Sum>p < k. lcg_mul g ^ p) * lcg_add g"
proof (induction k)
  case (Suc k)
  then show ?case unfolding geometric_Suc add_Suc_right lcg_number_Suc by (simp add: algebra_simps)
qed simp

lemma leapfrog_params:
  "for_upto 0 n (\<lambda>p (ap, cp). (ap * a, cp + ap)) (1, 0) = (a ^ n, \<Sum>p < n. a ^ p :: u32)"
  by (induction n) (simp_all add: for_upto_Suc mult.commute)

lemma leapfrog_states:
  "for_upto 0 n (\<lambda>i (lcg0, lcgs). case lcg_next lcg0 of (x, lcg0) \<Rightarrow> (lcg0, lcgs @ [lcg_init x ap cp])) (g, [])
    = (((\<lambda>g. snd (lcg_next g)) ^^ n) g, map (\<lambda>i. lcg_init (lcg_number g (Suc i)) ap cp) [0..<n])"
  by (induction n) (simp_all add: for_upto_Suc case_prod_beta lcg_number_def lcg_next_def Let_def)

lemma lcg_init_n_eq:
  "lcg_init_n seed a c n = map (\<lambda>i. lcg_init (lcg_number (lcg_init seed a c) (Suc i)) (a ^ unat n)
     ((\<Sum>p < unat n. a ^ p) * c)) [0..<unat n]"
  by (simp add: lcg_init_n_def Let_def leapfrog_params leapfrog_states)

text \<open>
  C26: The leapfrog generators split one sequence. For all parameters the \<open>n\<close> generators of
  \<open>lcg_init_n\<close> deal out the numbers of the single generator round robin: after \<open>j\<close> steps
  generator \<open>i\<close> is at number \<open>i + 1 + j * n\<close> of the sequence of the seed, so no number is used twice
  and none is left out.\<close>

theorem lcg_leapfrog:
  assumes "i < unat n"
  shows "lcg_number (lcg_init_n seed a c n ! i) j = lcg_number (lcg_init seed a c) (i + 1 + j * unat n)"
proof -
  let ?g = "lcg_init seed a c"
  have g: "lcg_init_n seed a c n ! i = lcg_init (lcg_number ?g (Suc i)) (a ^ unat n) ((\<Sum>p < unat n. a ^ p) * c)"
    using assms by (simp add: lcg_init_n_eq)
  show ?thesis
  proof (induction j)
    case 0
    then show ?case by (simp add: g lcg_number_0 lcg_init_def)
  next
    case (Suc j)
    have "lcg_number ?g (i + 1 + j * unat n + unat n)
        = lcg_number ?g (i + 1 + j * unat n) * a ^ unat n + (\<Sum>p < unat n. a ^ p) * c"
      using lcg_number_add [of ?g "i + 1 + j * unat n" "unat n"] by (simp add: lcg_init_def)
    then show ?case using Suc by (simp add: lcg_number_Suc g lcg_init_def algebra_simps)
  qed
qed

theorem lcg_leapfrog_witness:
  "lcg_number (lcg_init_n 42 1664525 1013904223 3 ! 2) 1 = lcg_number (lcg_init 42 1664525 1013904223) 6
    \<and> lcg_number (lcg_init 42 1664525 1013904223) 6 = 110225632"
  using lcg_leapfrog [of 2 3 42 1664525 1013904223 1]
  by (simp add: lcg_number_numeral lcg_number_Suc lcg_number_0 lcg_init_def)

subsection \<open>SplitMix64\<close>

definition splitmix64_init :: "u64 \<Rightarrow> u64" where
  "splitmix64_init seed = seed"

definition splitmix64_next :: "u64 \<Rightarrow> u64 \<times> u64" where
  "splitmix64_next sp64 =
     (let state = sp64 + 0x9e3779b97f4a7c15;
          z = state;
          z = (z XOR drop_bit 30 z) * 0xbf58476d1ce4e5b9;
          z = (z XOR drop_bit 27 z) * 0x94d049bb133111eb
      in (z XOR drop_bit 31 z, state))"

subsection \<open>xoshiro128+\<close>

text \<open>The array \<open>s[4]\<close>.\<close>

type_synonym xoshiro128p = "u32 \<times> u32 \<times> u32 \<times> u32"

definition xoshiro128p_init :: "u32 \<Rightarrow> xoshiro128p" where
  "xoshiro128p_init seed =
     (let sp64 = splitmix64_init (ucast seed);
          (x0, sp64) = splitmix64_next sp64;
          (x1, sp64) = splitmix64_next sp64;
          (x2, sp64) = splitmix64_next sp64;
          (x3, sp64) = splitmix64_next sp64
      in (ucast x0, ucast x1, ucast x2, ucast x3))"

definition xoshiro128p_copy :: "xoshiro128p \<Rightarrow> xoshiro128p" where
  "xoshiro128p_copy source = source"

fun xoshiro128p_next :: "xoshiro128p \<Rightarrow> u32 \<times> xoshiro128p" where
  "xoshiro128p_next (s0, s1, s2, s3) =
     (let result = s0 + s3;
          t = push_bit 9 s1;
          s2 = s2 XOR s0;
          s3 = s3 XOR s1;
          s1 = s1 XOR s2;
          s0 = s0 XOR s3;
          s2 = s2 XOR t;
          s3 = push_bit 11 s3 OR drop_bit (32 - 11) s3
      in (result, s0, s1, s2, s3))"

definition JUMP :: "u32 list" where
  "JUMP = [0x8764000b, 0xf542d2d3, 0x6fa035c3, 0x77f2db5b]"

fun xo_xor :: "xoshiro128p \<Rightarrow> xoshiro128p \<Rightarrow> xoshiro128p" where
  "xo_xor (a0, a1, a2, a3) (b0, b1, b2, b3) = (a0 XOR b0, a1 XOR b1, a2 XOR b2, a3 XOR b3)"

definition xoshiro128p_jump :: "xoshiro128p \<Rightarrow> xoshiro128p" where
  "xoshiro128p_jump s =
     fst (for_upto 0 (length JUMP) (\<lambda>i. for_upto 0 32 (\<lambda>b (acc, s).
       (if JUMP ! i AND push_bit b 1 \<noteq> 0 then xo_xor acc s else acc, snd (xoshiro128p_next s))))
       ((0, 0, 0, 0), s))"

definition xoshiro128p_init_n :: "u32 \<Rightarrow> u32 \<Rightarrow> xoshiro128p list" where
  "xoshiro128p_init_n seed n =
     for_upto 1 (unat n) (\<lambda>i gs. gs @ [xoshiro128p_jump (xoshiro128p_copy (gs ! (i - 1)))])
       [xoshiro128p_init seed]"

end
