(* ===== verification/Xoshiro_Jump.thy ===== *)
theory Xoshiro_Jump
  imports Prng
begin

text \<open>
  The jump function of xoshiro128+ (\<open>sw/kernels/misc/prng/xoshiro128p.h\<close>) is \<open>2\<^sup>6\<^sup>4\<close> steps of the
  generator. The transition is linear over GF(2). A polynomial is a list of bits; its evaluation at the transition turns
  products of polynomials into compositions. The characteristic polynomial is found to kill the states with one bit of
  \<open>s[0]\<close>, by computation, and hence all states; so powers of the transition are computed
  modulo this polynomial, and 64 squarings of \<open>x\<close> give the constants of \<open>JUMP\<close>.
\<close>

subsection \<open>The state transition is linear\<close>

definition xo_T :: "xoshiro128p \<Rightarrow> xoshiro128p" where
  "xo_T s = snd (xoshiro128p_next s)"

abbreviation xo_0 :: xoshiro128p where
  "xo_0 \<equiv> (0, 0, 0, 0)"

text \<open>The rotation by 11.\<close>

definition xo_rot :: "u32 \<Rightarrow> u32" where
  "xo_rot x = push_bit 11 x OR drop_bit 21 x"

lemma xo_T_eq:
  "xo_T (s0, s1, s2, s3) = (s0 XOR (s3 XOR s1), s1 XOR (s2 XOR s0), (s2 XOR s0) XOR push_bit 9 s1, xo_rot (s3 XOR s1))"
  by (simp add: xo_T_def xo_rot_def Let_def)

lemma bit_xo_rot: "bit (xo_rot x) i \<longleftrightarrow> i < 32 \<and> bit x (if i < 11 then i + 21 else i - 11)"
  by (auto simp: xo_rot_def bit_simps add.commute dest: bit_imp_le_length)

lemma xo_rot_xor: "xo_rot (a XOR b) = xo_rot a XOR xo_rot b"
  by (rule bit_word_eqI) (auto simp: bit_xo_rot bit_xor_iff)

lemma xo_T_xor: "xo_T (xo_xor a b) = xo_xor (xo_T a) (xo_T b)"
  by (cases a; cases b) (simp add: xo_T_eq xo_rot_xor push_bit_xor ac_simps)

lemma xo_xor_0 [simp]: "xo_xor a xo_0 = a" "xo_xor xo_0 a = a" "xo_xor a a = xo_0"
  by (cases a; simp)+

lemma xo_xor_assoc: "xo_xor (xo_xor a b) c = xo_xor a (xo_xor b c)"
  by (cases a; cases b; cases c) (simp add: xor.assoc)

lemma xo_xor_comm: "xo_xor a b = xo_xor b a"
  by (cases a; cases b) (simp add: xor.commute)

lemma xo_xor_left_comm: "xo_xor a (xo_xor b c) = xo_xor b (xo_xor a c)"
  by (cases a; cases b; cases c) (simp add: xor.left_commute)

lemma xo_xor_cancel [simp]: "xo_xor a (xo_xor a b) = b"
  by (simp flip: xo_xor_assoc)

lemmas xo_ac = xo_xor_assoc xo_xor_comm xo_xor_left_comm

lemma xo_T_0 [simp]: "xo_T xo_0 = xo_0"
  by (simp add: xo_T_def)

subsection \<open>Polynomials in the transition\<close>

text \<open>
  A list of coefficients, the highest first, stands for a polynomial over GF(2); \<open>xo_ev\<close> applies
  it to the transition and a state, from the value \<open>a\<close> (Horner).
\<close>

definition xo_ev :: "bool list \<Rightarrow> xoshiro128p \<Rightarrow> xoshiro128p \<Rightarrow> xoshiro128p" where
  "xo_ev cs a s = fold (\<lambda>c acc. xo_xor (xo_T acc) (if c then s else xo_0)) cs a"

lemma xo_ev_simps [simp]:
  "xo_ev [] a s = a"
  "xo_ev (c # cs) a s = xo_ev cs (xo_xor (xo_T a) (if c then s else xo_0)) s"
  by (simp_all add: xo_ev_def)

lemma xo_ev_append: "xo_ev (cs @ ds) a s = xo_ev ds (xo_ev cs a s) s"
  by (simp add: xo_ev_def)

lemma xo_ev_snoc: "xo_ev (cs @ [c]) a s = xo_xor (xo_T (xo_ev cs a s)) (if c then s else xo_0)"
  by (simp add: xo_ev_append)

lemma xo_T_pow_xor: "(xo_T ^^ k) (xo_xor a b) = xo_xor ((xo_T ^^ k) a) ((xo_T ^^ k) b)"
  by (induction k) (simp_all add: xo_T_xor)

lemma xo_ev_start: "xo_ev cs a s = xo_xor ((xo_T ^^ length cs) a) (xo_ev cs xo_0 s)"
proof (induction cs arbitrary: a)
  case (Cons c cs)
  let ?c = "if c then s else xo_0"
  have "xo_ev (c # cs) a s = xo_xor ((xo_T ^^ length cs) (xo_xor (xo_T a) ?c)) (xo_ev cs xo_0 s)"
    using Cons [of "xo_xor (xo_T a) ?c"] by simp
  also have "\<dots> = xo_xor ((xo_T ^^ length (c # cs)) a) (xo_xor ((xo_T ^^ length cs) ?c) (xo_ev cs xo_0 s))"
    by (simp only: xo_T_pow_xor xo_xor_assoc length_Cons funpow_Suc_right o_apply)
  also have "xo_xor ((xo_T ^^ length cs) ?c) (xo_ev cs xo_0 s) = xo_ev (c # cs) xo_0 s"
    using Cons [of ?c] by simp
  finally show ?case .
qed simp

lemma xo_ev_T: "xo_ev cs (xo_T a) (xo_T s) = xo_T (xo_ev cs a s)"
proof (induction cs arbitrary: a)
  case (Cons c cs)
  show ?case using Cons [of "xo_xor (xo_T a) (if c then s else xo_0)"] by (cases c) (simp_all add: xo_T_xor)
qed simp

lemma xo_ev_xor: "xo_ev cs (xo_xor a b) (xo_xor s t) = xo_xor (xo_ev cs a s) (xo_ev cs b t)"
proof (induction cs arbitrary: a b)
  case (Cons c cs)
  have "xo_xor (xo_T (xo_xor a b)) (if c then xo_xor s t else xo_0)
      = xo_xor (xo_xor (xo_T a) (if c then s else xo_0)) (xo_xor (xo_T b) (if c then t else xo_0))"
    by (simp add: xo_T_xor xo_ac)
  then show ?case using Cons by simp
qed simp

text \<open>The sum of two polynomials, aligned at the highest coefficient.\<close>

fun xo_add :: "bool list \<Rightarrow> bool list \<Rightarrow> bool list" where
  "xo_add [] q = q"
| "xo_add (c # p) (d # q) = (c \<noteq> d) # xo_add p q"
| "xo_add p [] = []"

lemma length_xo_add [simp]: "length (xo_add p q) = length q"
  by (induction p q rule: xo_add.induct) auto

lemma xo_ev_replicate: "xo_ev (replicate k False) a s = (xo_T ^^ k) a"
  by (induction k arbitrary: a) (simp_all add: funpow_Suc_right del: funpow.simps)

lemma xo_ev_add:
  assumes "length p \<le> length q"
  shows "xo_ev (xo_add p q) (xo_xor a b) s = xo_xor (xo_ev (p @ replicate (length q - length p) False) a s) (xo_ev q b s)"
  using assms
proof (induction p q arbitrary: a b rule: xo_add.induct)
  case (1 q)
  show ?case by (simp add: xo_ev_replicate xo_T_pow_xor xo_ac xo_ev_start [of q "xo_xor a b"] xo_ev_start [of q b])
next
  case (2 c p d q)
  have "xo_xor (xo_T (xo_xor a b)) (if c \<noteq> d then s else xo_0)
      = xo_xor (xo_xor (xo_T a) (if c then s else xo_0)) (xo_xor (xo_T b) (if d then s else xo_0))"
    by (cases c; cases d) (simp_all add: xo_T_xor xo_ac)
  then show ?case using 2 by simp
qed simp

subsection \<open>Squaring\<close>

fun xo_spread :: "bool list \<Rightarrow> bool list" where
  "xo_spread [] = []"
| "xo_spread (c # cs) = False # c # xo_spread cs"

lemma xo_spread_snoc: "xo_spread (cs @ [c]) = xo_spread cs @ [False, c]"
  by (induction cs) simp_all

lemma length_xo_spread [simp]: "length (xo_spread cs) = 2 * length cs"
  by (induction cs) simp_all

text \<open>Over GF(2) the square of a polynomial is the polynomial of the squares.\<close>

lemma xo_ev_spread: "xo_ev (xo_spread p) xo_0 s = xo_ev p xo_0 (xo_ev p xo_0 s)"
proof (induction p rule: rev_induct)
  case (snoc c p)
  let ?P = "\<lambda>s. xo_ev p xo_0 s"
  have lin: "?P (xo_xor a b) = xo_xor (?P a) (?P b)" for a b using xo_ev_xor [of p xo_0 xo_0] by simp
  have com: "?P (xo_T a) = xo_T (?P a)" for a using xo_ev_T [of p xo_0] by simp
  have z: "?P xo_0 = xo_0" using com [of xo_0] lin [of xo_0 xo_0] by simp
  show ?case using snoc
    by (cases c) (simp_all add: xo_spread_snoc xo_ev_append lin com z xo_T_xor xo_ac)
qed simp

subsection \<open>The characteristic polynomial\<close>

text \<open>The four bits of a hexadecimal digit, the highest first.\<close>

definition nibble_bits :: "nat \<Rightarrow> bool list" where
  "nibble_bits n = [odd (n div 8), odd (n div 4), odd (n div 2), odd n]"

text \<open>\<open>x\<^sup>1\<^sup>2\<^sup>8\<close> plus this polynomial, the highest coefficient first.\<close>

definition xo_low :: "bool list" where
  "xo_low = concat (map nibble_bits
    [0, 0, 15, 12, 6, 5, 10, 2, 0, 0, 6, 2, 5, 4, 11, 1,
     1, 11, 4, 8, 9, 13, 11, 6, 13, 14, 1, 8, 15, 12, 0, 1])"

lemma length_xo_low: "length xo_low = 128"
  by (simp add: xo_low_def nibble_bits_def)

lemmas xo_low_bits = xo_low_def [simplified, unfolded nibble_bits_def, simplified]

definition xo_char :: "xoshiro128p \<Rightarrow> xoshiro128p" where
  "xo_char s = xo_ev (True # xo_low) xo_0 s"

lemma xo_char_xor: "xo_char (xo_xor s t) = xo_xor (xo_char s) (xo_char t)"
  unfolding xo_char_def using xo_ev_xor [of _ xo_0 xo_0] by simp

lemma xo_char_T: "xo_char (xo_T s) = xo_T (xo_char s)"
  unfolding xo_char_def using xo_ev_T [of _ xo_0] by (simp del: xo_ev_simps)

text \<open>
  It is evaluated on the states with one bit of \<open>s[0]\<close> over lists of bits, the lowest first.
\<close>

definition word_bits :: "u32 \<Rightarrow> bool list" where
  "word_bits w = map (bit w) [0..<32]"

definition bits_shl9 :: "bool list \<Rightarrow> bool list" where
  "bits_shl9 xs = replicate 9 False @ take 23 xs"

definition bits_rot :: "bool list \<Rightarrow> bool list" where
  "bits_rot xs = drop 21 xs @ take 21 xs"

definition bits_shl1 :: "bool list \<Rightarrow> bool list" where
  "bits_shl1 xs = False # take 31 xs"

fun horner :: "bool list \<Rightarrow> bool list \<Rightarrow> bool list \<Rightarrow> bool list \<Rightarrow> bool list \<Rightarrow> bool list \<Rightarrow> bool list list"
and horner_step :: "bool \<Rightarrow> bool list \<Rightarrow> bool list \<Rightarrow> bool list \<Rightarrow> bool list \<Rightarrow> bool list \<Rightarrow> bool list
    \<Rightarrow> bool list \<Rightarrow> bool list list" where
  "horner [] e s0 s1 s2 s3 = [s0, s1, s2, s3]"
| "horner (c # cs) e s0 s1 s2 s3 = horner_step c cs e s0 s1 (xo_add s2 s0) (xo_add s3 s1) (bits_shl9 s1)"
| "horner_step c cs e s0 s1 a b t =
     (if c then horner cs e (xo_add e (xo_add s0 b)) (xo_add s1 a) (xo_add a t) (bits_rot b)
      else horner cs e (xo_add s0 b) (xo_add s1 a) (xo_add a t) (bits_rot b))"

fun kills_units :: "bool list \<Rightarrow> bool list \<Rightarrow> bool list \<Rightarrow> bool" where
  "kills_units [] z e \<longleftrightarrow> True"
| "kills_units (u # us) z e \<longleftrightarrow>
     horner xo_low e e z z z = [z, z, z, z] \<and> kills_units us z (bits_shl1 e)"

lemma length_word_bits [simp]: "length (word_bits w) = 32"
  by (simp add: word_bits_def)

lemma nth_xo_add: "i < length p \<Longrightarrow> i < length q \<Longrightarrow> xo_add p q ! i = (p ! i \<noteq> q ! i)"
  by (induction p q arbitrary: i rule: xo_add.induct) (auto simp: nth_Cons split: nat.splits)

lemma word_bits_eqI: "length xs = 32 \<Longrightarrow> (\<And>i. i < 32 \<Longrightarrow> xs ! i = bit w i) \<Longrightarrow> xs = word_bits w"
  by (rule nth_equalityI) (simp_all add: word_bits_def)

lemma word_bits_xor: "xo_add (word_bits a) (word_bits b) = word_bits (a XOR b)"
  by (rule word_bits_eqI) (simp_all add: nth_xo_add, simp add: word_bits_def bit_xor_iff)

lemma word_bits_shl9: "bits_shl9 (word_bits a) = word_bits (push_bit 9 a)"
  by (rule word_bits_eqI) (auto simp: bits_shl9_def nth_append word_bits_def bit_simps)

lemma word_bits_shl1: "bits_shl1 (word_bits a) = word_bits (push_bit 1 a)"
proof (rule word_bits_eqI)
  fix i :: nat
  assume "i < 32"
  moreover have "bit (push_bit 1 a) i \<longleftrightarrow> 1 \<le> i \<and> i < 32 \<and> bit a (i - 1)"
    by (simp only: bit_push_bit_iff possible_bit_word) simp
  ultimately show "bits_shl1 (word_bits a) ! i = bit (push_bit 1 a) i"
    by (cases i) (simp_all add: bits_shl1_def word_bits_def)
qed (simp add: bits_shl1_def)

lemma word_bits_rot: "bits_rot (word_bits a) = word_bits (xo_rot a)"
  by (rule word_bits_eqI) (auto simp: bits_rot_def nth_append word_bits_def bit_xo_rot add.commute)

lemma horner_correct:
  "horner cs (word_bits e) (word_bits s0) (word_bits s1) (word_bits s2) (word_bits s3)
    = (case xo_ev cs (s0, s1, s2, s3) (e, 0, 0, 0) of
         (t0, t1, t2, t3) \<Rightarrow> [word_bits t0, word_bits t1, word_bits t2, word_bits t3])"
proof (induction cs arbitrary: s0 s1 s2 s3)
  case (Cons c cs)
  then show ?case
    by (simp add: word_bits_xor word_bits_shl9 word_bits_rot xo_T_eq xor.assoc xor.commute xor.left_commute)
qed simp

lemma word_bits_inj: "word_bits a = word_bits b \<longleftrightarrow> a = b"
  by (auto simp: word_bits_def intro: bit_word_eqI)

lemma kills_units_correct:
  assumes "kills_units us (word_bits 0) (word_bits e)" and "k < length us"
  shows "xo_char (push_bit k e, 0, 0, 0) = xo_0"
  using assms
proof (induction us arbitrary: e k)
  case (Cons u us)
  show ?case
  proof (cases k)
    case 0
    obtain t0 t1 t2 t3 where t: "xo_ev xo_low (e, 0, 0, 0) (e, 0, 0, 0) = (t0, t1, t2, t3)"
      by (cases "xo_ev xo_low (e, 0, 0, 0) (e, 0, 0, 0)")
    have "xo_char (e, 0, 0, 0) = (t0, t1, t2, t3)" unfolding xo_char_def by (simp add: t)
    then show ?thesis using Cons.prems(1) t 0 by (simp add: horner_correct word_bits_inj)
  next
    case (Suc j)
    have "xo_char (push_bit j (push_bit 1 e), 0, 0, 0) = xo_0"
      using Cons.prems Suc by (intro Cons.IH) (simp_all add: word_bits_shl1)
    then show ?thesis using Suc by (simp add: add.commute)
  qed
qed simp

text \<open>The rules for the evaluation: one per bit.\<close>

lemma xo_add_bits:
  "xo_add (True # p) (True # q) = False # xo_add p q" "xo_add (True # p) (False # q) = True # xo_add p q"
  "xo_add (False # p) (True # q) = True # xo_add p q" "xo_add (False # p) (False # q) = False # xo_add p q"
  by simp_all

lemma bits_shl9_list: "bits_shl9 [
     a0, a1, a2, a3, a4, a5, a6, a7, a8, a9, a10, a11, a12, a13, a14, a15, a16, a17, a18, a19, a20,
     a21, a22, a23, a24, a25, a26, a27, a28, a29, a30, a31]
  = [
     False, False, False, False, False, False, False, False, False, a0, a1, a2, a3, a4, a5, a6, a7,
     a8, a9, a10, a11, a12, a13, a14, a15, a16, a17, a18, a19, a20, a21, a22]"
  by (simp add: bits_shl9_def numeral_eq_Suc)

lemma bits_rot_list: "bits_rot [
     a0, a1, a2, a3, a4, a5, a6, a7, a8, a9, a10, a11, a12, a13, a14, a15, a16, a17, a18, a19, a20,
     a21, a22, a23, a24, a25, a26, a27, a28, a29, a30, a31]
  = [
     a21, a22, a23, a24, a25, a26, a27, a28, a29, a30, a31, a0, a1, a2, a3, a4, a5, a6, a7, a8, a9,
     a10, a11, a12, a13, a14, a15, a16, a17, a18, a19, a20]"
  by (simp add: bits_rot_def)

lemma bits_shl1_list: "bits_shl1 [
     a0, a1, a2, a3, a4, a5, a6, a7, a8, a9, a10, a11, a12, a13, a14, a15, a16, a17, a18, a19, a20,
     a21, a22, a23, a24, a25, a26, a27, a28, a29, a30, a31]
  = [
     False, a0, a1, a2, a3, a4, a5, a6, a7, a8, a9, a10, a11, a12, a13, a14, a15, a16, a17, a18,
     a19, a20, a21, a22, a23, a24, a25, a26, a27, a28, a29, a30]"
  by (simp add: bits_shl1_def)

lemma horner_step_bits:
  "horner_step True cs e s0 s1 a b t = horner cs e (xo_add e (xo_add s0 b)) (xo_add s1 a) (xo_add a t) (bits_rot b)"
  "horner_step False cs e s0 s1 a b t = horner cs e (xo_add s0 b) (xo_add s1 a) (xo_add a t) (bits_rot b)"
  by simp_all

lemmas bit_evaluation = horner.simps horner_step_bits xo_add.simps(1) xo_add_bits bits_shl9_list
  bits_rot_list bits_shl1_list

lemma replicate_numeral: "replicate (numeral k) x = x # replicate (pred_numeral k) x"
  by (simp add: numeral_eq_Suc)

lemmas replicate_evaluation = replicate_numeral pred_numeral_simps BitM.simps replicate.simps(1)

lemma zero_bits: "word_bits 0 = replicate 32 False"
  by (simp add: word_bits_def upt_rec replicate_numeral)

lemma one_bits: "word_bits 1 = True # replicate 31 False"
  by (simp add: word_bits_def upt_rec bit_1_iff replicate_numeral)

lemma xo_char_units: "kills_units (replicate 32 True) (word_bits 0) (word_bits 1)"
  unfolding zero_bits one_bits
  by (simp only: kills_units.simps bit_evaluation xo_low_bits replicate_evaluation simp_thms)

text \<open>The states that the characteristic polynomial kills: all of them.\<close>

lemma xo_char_0: "xo_char xo_0 = xo_0"
  using xo_char_xor [of xo_0 xo_0] by simp

lemma xo_char_s0: "xo_char (x, 0, 0, 0) = xo_0"
proof -
  have unit: "xo_char (push_bit k 1, 0, 0, 0) = xo_0" if "k < 32" for k
    by (rule kills_units_correct [OF xo_char_units]) (use that in simp)
  have "xo_char (take_bit n x, 0, 0, 0) = xo_0" if "n \<le> 32" for n
    using that
  proof (induction n)
    case 0
    show ?case by (simp add: xo_char_0)
  next
    case (Suc n)
    have "take_bit (Suc n) x = take_bit n x XOR (if bit x n then push_bit n 1 else 0)"
      by (rule bit_word_eqI) (auto simp: bit_simps less_Suc_eq)
    then have "(take_bit (Suc n) x, 0, 0, 0) = xo_xor (take_bit n x, 0, 0, 0) (if bit x n then (push_bit n 1, 0, 0, 0) else xo_0)"
      by simp
    moreover have "xo_char (take_bit n x, 0, 0, 0) = xo_0" "xo_char (push_bit n 1, 0, 0, 0) = xo_0"
      using Suc unit [of n] by simp_all
    ultimately show ?case by (simp only: xo_char_xor) (simp add: xo_char_0)
  qed
  from this [of 32] show ?thesis by (simp add: take_bit_word_eq_self)
qed

lemma xo_rot_surj: "\<exists>x. xo_rot x = z"
proof
  show "xo_rot (push_bit 21 z OR drop_bit 11 z) = z"
    by (rule bit_word_eqI) (auto simp: bit_xo_rot bit_simps add.commute dest: bit_imp_le_length)
qed

lemma xo_shift_surj: "\<exists>x. x XOR push_bit 9 x = (y :: u32)"
proof
  have "push_bit 36 y = 0" by (rule bit_word_eqI) (simp add: bit_simps)
  then show "(y XOR push_bit 9 y XOR push_bit 18 y XOR push_bit 27 y)
      XOR push_bit 9 (y XOR push_bit 9 y XOR push_bit 18 y XOR push_bit 27 y) = y"
    by (simp add: push_bit_xor xor.assoc xor.left_commute)
qed

theorem xo_char_zero: "xo_char s = xo_0"
proof -
  have kT: "xo_char (xo_T t) = xo_0" if "xo_char t = xo_0" for t
    using that by (simp add: xo_char_T)
  have kx: "xo_char (xo_xor t u) = xo_0" if "xo_char t = xo_0" "xo_char u = xo_0" for t u
    using that by (simp add: xo_char_xor)
  have B: "xo_char (0, x, x, 0) = xo_0" for x
    using kx [OF kT [OF xo_char_s0 [of x]] xo_char_s0 [of x]] by (simp add: xo_T_eq xo_rot_def)
  have C: "xo_char (0, 0, x XOR push_bit 9 x, xo_rot x) = xo_0" for x
    using kx [OF kT [OF B [of x]] xo_char_s0 [of x]] by (simp add: xo_T_eq)
  have "xo_char (0, 0, 0, xo_rot (xo_rot x)) = xo_0" for x
    using kx [OF kx [OF kT [OF C [of x]] xo_char_s0 [of "xo_rot x"]] B [of "x XOR push_bit 9 x"]]
    by (simp add: xo_T_eq)
  then have s3: "xo_char (0, 0, 0, z) = xo_0" for z using xo_rot_surj by metis
  have "xo_char (0, 0, x XOR push_bit 9 x, 0) = xo_0" for x
    using kx [OF C [of x] s3 [of "xo_rot x"]] by simp
  then have s2: "xo_char (0, 0, y, 0) = xo_0" for y using xo_shift_surj by metis
  have s1: "xo_char (0, y, 0, 0) = xo_0" for y using kx [OF B [of y] s2 [of y]] by simp
  obtain a b c d where s: "s = (a, b, c, d)" by (cases s)
  show ?thesis using kx [OF kx [OF xo_char_s0 [of a] s1 [of b]] kx [OF s2 [of c] s3 [of d]]] by (simp add: s)
qed

subsection \<open>Reduction and repeated squaring\<close>

lemma xo_low_T: "(xo_T ^^ 128) s = xo_ev xo_low xo_0 s"
proof -
  have "xo_xor ((xo_T ^^ 128) s) (xo_ev xo_low xo_0 s) = xo_0"
    using xo_char_zero [of s] xo_ev_start [of xo_low s s] by (simp add: xo_char_def length_xo_low)
  then show ?thesis by (metis xo_xor_0(1,2) xo_xor_cancel)
qed

text \<open>The leading coefficients are replaced, one for each element of the first list.\<close>

fun xo_reduce :: "bool list \<Rightarrow> bool list \<Rightarrow> bool list" where
  "xo_reduce [] q = q"
| "xo_reduce (u # us) (c # q) = xo_reduce us (if c then xo_add xo_low q else q)"
| "xo_reduce (u # us) [] = []"

lemma xo_reduce_correct:
  "length q = length us + 128 \<Longrightarrow> xo_ev (xo_reduce us q) xo_0 s = xo_ev q xo_0 s \<and> length (xo_reduce us q) = 128"
proof (induction us arbitrary: q)
  case (Cons u us)
  then obtain c r where q: "q = c # r" and r: "length r = length us + 128" by (cases q) auto
  have "xo_ev (xo_add xo_low r) xo_0 s = xo_ev r s s"
  proof -
    have "xo_ev (xo_add xo_low r) xo_0 s = xo_xor ((xo_T ^^ length us) (xo_ev xo_low xo_0 s)) (xo_ev r xo_0 s)"
      using xo_ev_add [of xo_low r xo_0 xo_0 s] r
      by (simp add: length_xo_low xo_ev_append xo_ev_replicate)
    also have "(xo_T ^^ length us) (xo_ev xo_low xo_0 s) = (xo_T ^^ length r) s"
      by (simp add: r funpow_add flip: xo_low_T)
    finally show ?thesis using xo_ev_start [of r s s] by simp
  qed
  then show ?case using Cons.IH [of r] Cons.IH [of "xo_add xo_low r"] r by (simp add: q)
qed simp

definition xo_square :: "bool list \<Rightarrow> bool list" where
  "xo_square p = xo_reduce p (xo_spread p)"

fun xo_squares :: "bool list \<Rightarrow> bool list \<Rightarrow> bool list" where
  "xo_squares [] p = p"
| "xo_squares (u # us) p = xo_square (xo_squares us p)"

lemma xo_square_correct:
  assumes "length p = 128" and "\<And>s. xo_ev p xo_0 s = (xo_T ^^ m) s"
  shows "length (xo_square p) = 128" and "xo_ev (xo_square p) xo_0 s = (xo_T ^^ (2 * m)) s"
proof -
  have "length (xo_spread p) = length p + 128" using assms(1) by simp
  note R = xo_reduce_correct [OF this]
  show "length (xo_square p) = 128" using R by (simp add: xo_square_def)
  show "xo_ev (xo_square p) xo_0 s = (xo_T ^^ (2 * m)) s"
    using R [of s] by (simp add: xo_square_def xo_ev_spread assms(2) mult_2 funpow_add)
qed

lemma xo_squares_correct:
  assumes "length p = 128" and "\<And>s. xo_ev p xo_0 s = (xo_T ^^ m) s"
  shows "length (xo_squares us p) = 128 \<and> (\<forall>s. xo_ev (xo_squares us p) xo_0 s = (xo_T ^^ (m * 2 ^ length us)) s)"
proof (induction us)
  case (Cons u us)
  note S = xo_square_correct [of "xo_squares us p" "m * 2 ^ length us"]
  show ?case using S Cons by (simp add: algebra_simps)
qed (use assms in simp)

definition xo_jump_poly :: "bool list" where
  "xo_jump_poly = concat (map nibble_bits
    [7, 7, 15, 2, 13, 11, 5, 11, 6, 15, 10, 0, 3, 5, 12, 3,
     15, 5, 4, 2, 13, 2, 13, 3, 8, 7, 6, 4, 0, 0, 0, 11])"

lemma xo_reduce_bits:
  "xo_reduce (u # us) (True # q) = xo_reduce us (xo_add xo_low q)" "xo_reduce (u # us) (False # q) = xo_reduce us q"
  by simp_all

lemmas squares_evaluation = xo_squares.simps xo_square_def xo_spread.simps xo_reduce.simps(1)
  xo_reduce_bits xo_add.simps(1) xo_add_bits xo_low_bits replicate_evaluation append.simps

lemma xo_T_pow_0: "(xo_T ^^ k) xo_0 = xo_0"
  by (induction k) simp_all

definition xo_x :: "bool list" where
  "xo_x = replicate 126 False @ [True, False]"

lemmas xo_jump_poly_bits = xo_jump_poly_def [simplified, unfolded nibble_bits_def, simplified]

text \<open>\<open>x\<close> squared 64 times.\<close>

lemma xo_squares_64: "xo_squares (replicate 64 True) xo_x = xo_jump_poly"
  by (simp only: squares_evaluation xo_x_def xo_jump_poly_bits)

lemma xo_jump_poly_correct: "xo_ev xo_jump_poly xo_0 s = (xo_T ^^ (2 ^ 64)) s"
proof -
  have "xo_ev xo_x xo_0 t = (xo_T ^^ 1) t" for t
    by (simp add: xo_x_def xo_ev_append xo_ev_replicate xo_T_pow_0)
  moreover have "length xo_x = 128" by (simp add: xo_x_def)
  ultimately have "xo_ev (xo_squares (replicate 64 True) xo_x) xo_0 s = (xo_T ^^ (1 * 2 ^ length (replicate 64 True))) s"
    using xo_squares_correct by blast
  then show ?thesis by (simp only: xo_squares_64 length_replicate mult_1)
qed

subsection \<open>The jump function\<close>

lemma jump_word:
  "for_upto 0 32 (\<lambda>b (acc, s). (if w AND push_bit b 1 \<noteq> 0 then xo_xor acc s else acc, snd (xoshiro128p_next s))) x
    = fold (\<lambda>c (acc, s). (if c then xo_xor acc s else acc, xo_T s)) (word_bits w) x"
proof -
  have "w AND push_bit b 1 \<noteq> 0 \<longleftrightarrow> bit w b" if "b < 32" for b
  proof -
    have "w AND push_bit b 1 = (if bit w b then push_bit b 1 else 0)"
      by (rule bit_word_eqI) (auto simp: bit_simps)
    moreover have "push_bit b (1 :: u32) \<noteq> 0" using that by (simp add: push_bit_eq_mult exp_eq_zero_iff)
    ultimately show ?thesis by simp
  qed
  then show ?thesis
    unfolding for_upto_def word_bits_def fold_map xo_T_def o_def by (intro fold_cong) auto
qed

lemma jump_fold:
  "fst (fold (\<lambda>c (acc, s). (if c then xo_xor acc s else acc, xo_T s)) cs (acc, s)) = xo_xor acc (xo_ev (rev cs) xo_0 s)"
proof (induction cs arbitrary: acc s)
  case (Cons c cs)
  have "xo_ev (rev cs) xo_0 (xo_T s) = xo_T (xo_ev (rev cs) xo_0 s)" using xo_ev_T [of "rev cs" xo_0 s] by simp
  then show ?case using Cons [of "if c then xo_xor acc s else acc" "xo_T s"]
    by (cases c) (simp_all add: xo_ev_snoc xo_ac)
qed simp

lemma jump_bits: "rev (concat (map word_bits JUMP)) = xo_jump_poly"
  by (simp add: JUMP_def word_bits_def xo_jump_poly_bits upt_rec)

lemma jump_eq: "xoshiro128p_jump s = xo_ev xo_jump_poly xo_0 s"
proof -
  have "xoshiro128p_jump s = fst (fold (\<lambda>c (acc, s). (if c then xo_xor acc s else acc, xo_T s))
      (concat (map word_bits JUMP)) (xo_0, s))"
    unfolding xoshiro128p_jump_def jump_word by (simp add: for_upto_def JUMP_def)
  then show ?thesis unfolding jump_fold jump_bits by simp
qed

text \<open>
  C27: The jump function is \<open>2\<^sup>6\<^sup>4\<close> calls of the generator, as its comment claims. For every state
  the sum over the set bits of the four constants of \<open>JUMP\<close> is the state after \<open>2\<^sup>6\<^sup>4\<close> steps: the
  constants are \<open>x\<close> to the power \<open>2\<^sup>6\<^sup>4\<close> modulo the characteristic polynomial of the transition.\<close>

theorem xoshiro_jump_2_64: "xoshiro128p_jump s = ((\<lambda>s. snd (xoshiro128p_next s)) ^^ (2 ^ 64)) s"
  using jump_eq xo_jump_poly_correct unfolding xo_T_def by simp

text \<open>The generators of \<open>xoshiro128p_init_n\<close> start \<open>2\<^sup>6\<^sup>4\<close> steps apart on the sequence of the seed.\<close>

lemma xoshiro_init_n_apart:
  assumes "i < unat n"
  shows "xoshiro128p_init_n seed n ! i = (xo_T ^^ (i * 2 ^ 64)) (xoshiro128p_init seed)"
proof -
  let ?f = "\<lambda>i gs. gs @ [xoshiro128p_jump (xoshiro128p_copy (gs ! (i - 1)))]"
  have j: "xoshiro128p_jump s = (xo_T ^^ (2 ^ 64)) s" for s using jump_eq xo_jump_poly_correct by simp
  have "1 \<le> unat n" using assms by simp
  then have "for_upto 1 (unat n) ?f [xoshiro128p_init seed]
      = map (\<lambda>i. (xo_T ^^ (i * 2 ^ 64)) (xoshiro128p_init seed)) [0..<unat n]"
  proof (rule for_upto_induct [where P = "\<lambda>m gs. gs = map (\<lambda>i. (xo_T ^^ (i * 2 ^ 64)) (xoshiro128p_init seed)) [0..<m]"])
    fix m gs
    assume m: "1 \<le> m" and gs: "gs = map (\<lambda>i. (xo_T ^^ (i * 2 ^ 64)) (xoshiro128p_init seed)) [0..<m]"
    obtain k where k: "m = Suc k" using m by (cases m) auto
    have "gs ! (m - 1) = (xo_T ^^ (k * 2 ^ 64)) (xoshiro128p_init seed)" by (simp add: gs k del: upt_Suc)
    then have "xoshiro128p_jump (xoshiro128p_copy (gs ! (m - 1))) = (xo_T ^^ (m * 2 ^ 64)) (xoshiro128p_init seed)"
      unfolding xoshiro128p_copy_def j k by (simp only: mult_Suc funpow_add o_apply)
    then show "?f m gs = map (\<lambda>i. (xo_T ^^ (i * 2 ^ 64)) (xoshiro128p_init seed)) [0..<Suc m]" by (simp add: gs)
  qed simp
  then show ?thesis using assms by (simp add: xoshiro128p_init_n_def)
qed

end
