(* ===== verification/Partial_Barrier.thy ===== *)
theory Partial_Barrier
  imports Comm
begin

text \<open>
  The software barrier \<open>snrt_partial_barrier\<close> of \<open>sw/runtime/src/sync.h\<close> on a counter and an
  iteration word, called over and over by a fixed set of \<open>n\<close> harts. One step of a hart is one
  access to the barrier variable; a schedule (a list of harts) is an interleaving.

  The main lemma is an invariant over the number \<open>R\<close> of completed rounds; from it follow that no
  hart leaves its call before every hart has arrived, and that the harts never get stuck.
\<close>

subsection \<open>Model\<close>

text \<open>
  \<open>Pb_read p\<close>: \<open>prev_it = p\<close> has been read; \<open>Pb_wait p\<close>: the hart has been counted and spins;
  \<open>Pb_reset\<close>, \<open>Pb_bump\<close>: the last hart before the two statements of its branch. \<open>pb_done\<close> counts
  the calls a hart has returned from.
\<close>

datatype pbar_pc = Pb_out | Pb_read u32 | Pb_wait u32 | Pb_reset | Pb_bump

record pbar =
  pb_cnt :: u32
  pb_iteration :: u32
  pb_pc :: "nat \<Rightarrow> pbar_pc"
  pb_done :: "nat \<Rightarrow> nat"

definition pbar_step :: "u32 \<Rightarrow> nat \<Rightarrow> pbar \<Rightarrow> pbar" where
  "pbar_step n h s =
     (case pb_pc s h of
        Pb_out \<Rightarrow> s\<lparr>pb_pc := (pb_pc s)(h := Pb_read (pb_iteration s))\<rparr>
      | Pb_read prev_it \<Rightarrow>
          (let cnt = pb_cnt s + 1
           in s\<lparr>pb_cnt := cnt, pb_pc := (pb_pc s)(h := if cnt = n then Pb_reset else Pb_wait prev_it)\<rparr>)
      | Pb_reset \<Rightarrow> s\<lparr>pb_cnt := 0, pb_pc := (pb_pc s)(h := Pb_bump)\<rparr>
      | Pb_bump \<Rightarrow> s\<lparr>pb_iteration := pb_iteration s + 1, pb_pc := (pb_pc s)(h := Pb_out),
                    pb_done := (pb_done s)(h := Suc (pb_done s h))\<rparr>
      | Pb_wait prev_it \<Rightarrow>
          (if prev_it = pb_iteration s then s
           else s\<lparr>pb_pc := (pb_pc s)(h := Pb_out), pb_done := (pb_done s)(h := Suc (pb_done s h))\<rparr>))"

definition pbar_run :: "u32 \<Rightarrow> nat list \<Rightarrow> pbar \<Rightarrow> pbar" where
  "pbar_run n sched s = fold (pbar_step n) sched s"

definition pbar_start :: pbar where
  "pbar_start = \<lparr>pb_cnt = 0, pb_iteration = 0, pb_pc = (\<lambda>_. Pb_out), pb_done = (\<lambda>_. 0)\<rparr>"

subsection \<open>Invariant\<close>

definition arrived :: "nat \<Rightarrow> pbar \<Rightarrow> nat \<Rightarrow> bool" where
  "arrived R s h \<longleftrightarrow> pb_done s h = R \<and> ((\<exists>p. pb_pc s h = Pb_wait p) \<or> pb_pc s h = Pb_reset)"

definition closing :: "pbar \<Rightarrow> nat \<Rightarrow> bool" where
  "closing s h \<longleftrightarrow> pb_pc s h = Pb_reset \<or> pb_pc s h = Pb_bump"

fun pc_ok :: "nat \<Rightarrow> pbar_pc \<Rightarrow> nat \<Rightarrow> bool" where
  "pc_ok R Pb_out d \<longleftrightarrow> d = R"
| "pc_ok R (Pb_read p) d \<longleftrightarrow> d = R \<and> p = of_nat R"
| "pc_ok R (Pb_wait p) d \<longleftrightarrow> (d = R \<or> Suc d = R) \<and> p = of_nat d"
| "pc_ok R Pb_reset d \<longleftrightarrow> d = R"
| "pc_ok R Pb_bump d \<longleftrightarrow> d = R"

definition pbar_inv :: "nat \<Rightarrow> nat \<Rightarrow> pbar \<Rightarrow> bool" where
  "pbar_inv N R s \<longleftrightarrow> pb_iteration s = of_nat R
     \<and> (\<forall>h < N. pc_ok R (pb_pc s h) (pb_done s h))
     \<and> (\<forall>h < N. closing s h \<longrightarrow> (\<forall>k < N. k \<noteq> h \<longrightarrow> arrived R s k \<and> \<not> closing s k))
     \<and> unat (pb_cnt s) = (if \<exists>h < N. pb_pc s h = Pb_bump then 0 else card {h. h < N \<and> arrived R s h})
     \<and> ((\<forall>h < N. \<not> closing s h) \<longrightarrow> card {h. h < N \<and> arrived R s h} < N)"

lemma pbar_invI:
  assumes "pb_iteration s = of_nat R"
    and "\<And>h. h < N \<Longrightarrow> pc_ok R (pb_pc s h) (pb_done s h)"
    and "\<And>h k. h < N \<Longrightarrow> closing s h \<Longrightarrow> k < N \<Longrightarrow> k \<noteq> h \<Longrightarrow> arrived R s k \<and> \<not> closing s k"
    and "unat (pb_cnt s) = (if \<exists>h < N. pb_pc s h = Pb_bump then 0 else card {h. h < N \<and> arrived R s h})"
    and "(\<And>h. h < N \<Longrightarrow> \<not> closing s h) \<Longrightarrow> card {h. h < N \<and> arrived R s h} < N"
  shows "pbar_inv N R s"
  using assms by (simp add: pbar_inv_def)

lemma pbar_start_inv: "0 < N \<Longrightarrow> pbar_inv N 0 pbar_start"
  by (simp add: pbar_inv_def pbar_start_def arrived_def closing_def)

lemma succ_word_neq: "(of_nat (Suc d) :: u32) \<noteq> of_nat d"
  by simp

text \<open>When a hart has not arrived, nobody is closing the round.\<close>

lemma not_arrived_no_closing:
  assumes "pbar_inv N R s" and "h < N" and "\<not> arrived R s h" and "\<not> closing s h"
  shows "\<forall>k < N. \<not> closing s k"
  using assms by (auto simp: pbar_inv_def)

text \<open>A step that changes neither who has arrived nor who is closing keeps the counter facts.\<close>

lemma pbar_inv_frame:
  assumes inv: "pbar_inv N R s"
    and "pb_cnt t = pb_cnt s" and "pb_iteration t = pb_iteration s"
    and "\<And>k. k \<noteq> h \<Longrightarrow> pb_pc t k = pb_pc s k \<and> pb_done t k = pb_done s k"
    and "\<not> arrived R s h" and "\<not> arrived R t h" and "\<not> closing s h" and "\<not> closing t h" and "h < N"
    and "pc_ok R (pb_pc t h) (pb_done t h)"
  shows "pbar_inv N R t"
proof -
  have other: "pb_pc t k = pb_pc s k" "pb_done t k = pb_done s k" if "k \<noteq> h" for k
    using assms(4) [OF that] by simp_all
  have arr: "arrived R t k \<longleftrightarrow> arrived R s k" for k
  proof (cases "k = h")
    case False
    then show ?thesis by (simp add: arrived_def other)
  qed (simp add: assms(5,6))
  have clo: "closing t k \<longleftrightarrow> closing s k" for k
  proof (cases "k = h")
    case False
    then show ?thesis by (simp add: closing_def other)
  qed (simp add: assms(7,8))
  have no: "\<forall>k < N. \<not> closing s k" using not_arrived_no_closing [OF inv assms(9,5,7)] .
  have bump: "\<not> (\<exists>k < N. pb_pc t k = Pb_bump)" "\<not> (\<exists>k < N. pb_pc s k = Pb_bump)"
    using no clo by (auto simp: closing_def)
  have ok: "pc_ok R (pb_pc t k) (pb_done t k)" if "k < N" for k
  proof (cases "k = h")
    case False
    have "pc_ok R (pb_pc s k) (pb_done s k)" using inv that by (simp add: pbar_inv_def)
    then show ?thesis by (simp add: other False)
  qed (simp add: assms(10))
  have cnt: "unat (pb_cnt s) = card {k. k < N \<and> arrived R s k}" "card {k. k < N \<and> arrived R s k} < N"
    and it: "pb_iteration s = of_nat R"
    using inv no bump(2) by (simp_all add: pbar_inv_def)
  show ?thesis
  proof (rule pbar_invI)
    show "pb_iteration t = of_nat R" using it assms(3) by simp
    show "arrived R t k \<and> \<not> closing t k" if "i < N" "closing t i" for i k using that no clo by blast
    show "unat (pb_cnt t) = (if \<exists>h < N. pb_pc t h = Pb_bump then 0 else card {h. h < N \<and> arrived R t h})"
      unfolding if_not_P [OF bump(1)] arr assms(2) by (rule cnt(1))
    show "card {h. h < N \<and> arrived R t h} < N" using cnt(2) by (simp add: arr)
  qed (rule ok)
qed

lemma step_read:
  assumes inv: "pbar_inv N R s" and n: "unat n = N" and h: "h < N" and pc: "pb_pc s h = Pb_read p"
  shows "pbar_inv N R (pbar_step n h s)"
proof -
  let ?A = "{k. k < N \<and> arrived R s k}"
  let ?t = "pbar_step n h s"
  have na: "\<not> arrived R s h" "\<not> closing s h" using pc by (simp_all add: arrived_def closing_def)
  have no: "\<forall>k < N. \<not> closing s k" using not_arrived_no_closing [OF inv h na] .
  then have nb: "\<not> (\<exists>k < N. pb_pc s k = Pb_bump)" by (auto simp: closing_def)
  have okh: "pb_done s h = R" "p = of_nat R" using inv h pc unfolding pbar_inv_def by (metis pc_ok.simps(2))+
  have cnt: "unat (pb_cnt s) = card ?A" "card ?A < N" using inv no nb by (simp_all add: pbar_inv_def)
  have N32: "N < 2 ^ 32" using n unat_lt_pow32 [of n] by simp
  have cnt': "unat (pb_cnt s + 1) = Suc (card ?A)"
    using cnt N32 by (subst unat_add_no_ovf) simp_all
  have last: "pb_cnt s + 1 = n \<longleftrightarrow> Suc (card ?A) = N" using cnt' n by (metis unat_eqI)
  have t: "pb_cnt ?t = pb_cnt s + 1" "pb_iteration ?t = pb_iteration s" "pb_done ?t = pb_done s"
    "pb_pc ?t = (pb_pc s)(h := if pb_cnt s + 1 = n then Pb_reset else Pb_wait p)"
    using pc by (simp_all add: pbar_step_def Let_def)
  have arr: "arrived R ?t k \<longleftrightarrow> k = h \<or> arrived R s k" for k
    using okh by (cases "k = h") (auto simp: arrived_def t)
  have set: "{k. k < N \<and> arrived R ?t k} = insert h ?A" using h arr by auto
  have card: "card {k. k < N \<and> arrived R ?t k} = Suc (card ?A)" unfolding set using na by simp
  have clo: "closing ?t k \<longleftrightarrow> k = h \<and> pb_cnt s + 1 = n" if "k < N" for k
    using no that by (cases "k = h") (auto simp: closing_def t)
  have all: "k \<in> insert h ?A" if "pb_cnt s + 1 = n" "k < N" for k
  proof -
    have "insert h ?A \<subseteq> {..<N}" using h by auto
    moreover have "card (insert h ?A) = card {..<N}" using that(1) last na by simp
    ultimately have "insert h ?A = {..<N}" by (metis card_subset_eq finite_lessThan)
    then show ?thesis using that(2) by blast
  qed
  have nb': "\<not> (\<exists>k < N. pb_pc ?t k = Pb_bump)" using nb by (auto simp: t)
  show ?thesis
  proof (rule pbar_invI)
    show "pb_iteration ?t = of_nat R" using inv by (simp add: t pbar_inv_def)
    show "pc_ok R (pb_pc ?t k) (pb_done ?t k)" if "k < N" for k
      using inv that okh by (cases "k = h") (auto simp: t pbar_inv_def)
    show "arrived R ?t k \<and> \<not> closing ?t k" if "i < N" "closing ?t i" "k < N" "k \<noteq> i" for i k
      using clo [OF that(1)] clo [OF that(3)] that(2,4) all [of k] that(3) arr by auto
    show "unat (pb_cnt ?t) = (if \<exists>k < N. pb_pc ?t k = Pb_bump then 0 else card {k. k < N \<and> arrived R ?t k})"
      unfolding if_not_P [OF nb'] card t(1) by (rule cnt')
    show "card {k. k < N \<and> arrived R ?t k} < N" if "\<And>k. k < N \<Longrightarrow> \<not> closing ?t k"
      using that [OF h] clo [OF h] last cnt(2) unfolding card by auto
  qed
qed

lemma pbar_invD:
  assumes "pbar_inv N R s"
  shows "pb_iteration s = of_nat R" and "h < N \<Longrightarrow> pc_ok R (pb_pc s h) (pb_done s h)"
    and "\<exists>h < N. pb_pc s h = Pb_bump \<Longrightarrow> pb_cnt s = 0"
    and "\<forall>h < N. \<not> closing s h \<Longrightarrow> card {h. h < N \<and> arrived R s h} < N"
proof -
  note I = assms [unfolded pbar_inv_def]
  show "pb_iteration s = of_nat R" using I by blast
  show "h < N \<Longrightarrow> pc_ok R (pb_pc s h) (pb_done s h)" using I by blast
  show "\<forall>h < N. \<not> closing s h \<Longrightarrow> card {h. h < N \<and> arrived R s h} < N" using I by blast
  assume "\<exists>h < N. pb_pc s h = Pb_bump"
  then have "unat (pb_cnt s) = 0" using I by (simp only: if_True)
  then show "pb_cnt s = 0" by (metis unat_eqI unsigned_0)
qed

lemma pbar_step_out:
  assumes inv: "pbar_inv N R s" and h: "h < N" and pc: "pb_pc s h = Pb_out"
  shows "pbar_inv N R (pbar_step n h s)"
proof (rule pbar_inv_frame [OF inv, where h = h])
  note pbar_invD(1,2) [OF inv]
  then show "pc_ok R (pb_pc (pbar_step n h s) h) (pb_done (pbar_step n h s) h)"
    using pc h by (force simp add: pbar_step_def)
qed (use pc h in \<open>simp_all add: pbar_step_def arrived_def closing_def\<close>)

lemma step_wait:
  assumes inv: "pbar_inv N R s" and h: "h < N" and pc: "pb_pc s h = Pb_wait p"
  shows "pbar_inv N R (pbar_step n h s)"
proof (cases "p = pb_iteration s")
  case True
  then show ?thesis using inv pc by (simp add: pbar_step_def)
next
  case False
  note ok = pbar_invD(1) [OF inv] pbar_invD(2) [OF inv h]
  then have d: "Suc (pb_done s h) = R" using pc False by auto
  show ?thesis
    by (rule pbar_inv_frame [OF inv, where h = h])
      (use pc h d False in \<open>auto simp: pbar_step_def arrived_def closing_def\<close>)
qed

lemma closing_others:
  assumes "pbar_inv N R s" and "h < N" and "closing s h" and "k < N" and "k \<noteq> h"
  shows "arrived R s k" and "\<not> closing s k" and "\<exists>p. pb_pc s k = Pb_wait p"
proof -
  show "arrived R s k" "\<not> closing s k"
    using assms(1) [unfolded pbar_inv_def] assms(2-5) by blast+
  then show "\<exists>p. pb_pc s k = Pb_wait p" by (auto simp: arrived_def closing_def)
qed

lemma step_reset:
  assumes inv: "pbar_inv N R s" and h: "h < N" and pc: "pb_pc s h = Pb_reset"
  shows "pbar_inv N R (pbar_step n h s)"
proof -
  let ?t = "pbar_step n h s"
  have ch: "closing s h" using pc by (simp add: closing_def)
  note O = closing_others [OF inv h ch]
  have t: "pb_cnt ?t = 0" "pb_iteration ?t = pb_iteration s" "pb_done ?t = pb_done s"
    "pb_pc ?t = (pb_pc s)(h := Pb_bump)"
    using pc by (simp_all add: pbar_step_def)
  have clo: "closing ?t k \<longleftrightarrow> k = h" if "k < N" for k
  proof (cases "k = h")
    case False
    then show ?thesis using O(2) [OF that] by (simp add: closing_def t)
  qed (simp add: closing_def t)
  have bump: "\<exists>k < N. pb_pc ?t k = Pb_bump" using h by (auto simp: t)
  show ?thesis
  proof (rule pbar_invI)
    show "pb_iteration ?t = of_nat R" using pbar_invD(1) [OF inv] by (simp add: t)
    show "pc_ok R (pb_pc ?t k) (pb_done ?t k)" if "k < N" for k
    proof (cases "k = h")
      case True
      have "pc_ok R (pb_pc s h) (pb_done s h)" using h by (rule pbar_invD(2) [OF inv])
      then show ?thesis using True pc by (simp add: t)
    next
      case False
      have "pc_ok R (pb_pc s k) (pb_done s k)" using that by (rule pbar_invD(2) [OF inv])
      then show ?thesis using False by (simp add: t)
    qed
    show "arrived R ?t k \<and> \<not> closing ?t k" if "i < N" "closing ?t i" "k < N" "k \<noteq> i" for i k
    proof -
      have "k \<noteq> h" using clo that by blast
      then show ?thesis using O(1) [OF that(3)] clo [OF that(3)] by (simp add: arrived_def t)
    qed
    show "unat (pb_cnt ?t) = (if \<exists>k < N. pb_pc ?t k = Pb_bump then 0 else card {k. k < N \<and> arrived R ?t k})"
      unfolding if_P [OF bump] by (simp add: t)
    show "card {k. k < N \<and> arrived R ?t k} < N" if "\<And>k. k < N \<Longrightarrow> \<not> closing ?t k"
      using that [OF h] clo [OF h] by simp
  qed
qed

lemma step_bump:
  assumes inv: "pbar_inv N R s" and h: "h < N" and pc: "pb_pc s h = Pb_bump"
  shows "pbar_inv N (Suc R) (pbar_step n h s)"
proof -
  let ?t = "pbar_step n h s"
  have ch: "closing s h" using pc by (simp add: closing_def)
  note O = closing_others [OF inv h ch]
  have t: "pb_cnt ?t = pb_cnt s" "pb_iteration ?t = pb_iteration s + 1"
    "pb_done ?t = (pb_done s)(h := Suc (pb_done s h))" "pb_pc ?t = (pb_pc s)(h := Pb_out)"
    using pc by (simp_all add: pbar_step_def)
  have okh: "pb_done s h = R" using pbar_invD(2) [OF inv h] pc by simp
  have clo: "\<not> closing ?t k" if "k < N" for k
    using O(2) [OF that] by (cases "k = h") (auto simp: closing_def t)
  have arr: "\<not> arrived (Suc R) ?t k" if "k < N" for k
    using O(1) [OF that] by (cases "k = h") (auto simp: arrived_def t)
  then have none: "{k. k < N \<and> arrived (Suc R) ?t k} = {}" by blast
  have nb: "\<not> (\<exists>k < N. pb_pc ?t k = Pb_bump)" using clo by (auto simp: closing_def)
  have "\<exists>k < N. pb_pc s k = Pb_bump" using h pc by blast
  then have c0: "pb_cnt s = 0" by (rule pbar_invD(3) [OF inv])
  show ?thesis
  proof (rule pbar_invI)
    show "pb_iteration ?t = of_nat (Suc R)" using pbar_invD(1) [OF inv] by (simp add: t)
    show "pc_ok (Suc R) (pb_pc ?t k) (pb_done ?t k)" if "k < N" for k
    proof (cases "k = h")
      case True
      then show ?thesis using okh by (simp add: t)
    next
      case False
      have k: "pc_ok R (pb_pc s k) (pb_done s k)" "arrived R s k" "\<exists>p. pb_pc s k = Pb_wait p"
        using pbar_invD(2) [OF inv that] O(1,3) [OF that False] by simp_all
      then show ?thesis using False by (auto simp: t arrived_def)
    qed
    show "unat (pb_cnt ?t) = (if \<exists>k < N. pb_pc ?t k = Pb_bump then 0 else card {k. k < N \<and> arrived (Suc R) ?t k})"
      unfolding if_not_P [OF nb] none using c0 by (simp add: t)
    show "card {k. k < N \<and> arrived (Suc R) ?t k} < N" unfolding none using h by simp
  qed (use clo in blast)
qed

lemma pbar_step_inv:
  assumes "pbar_inv N R s" and "unat n = N" and "h < N"
  shows "\<exists>R'. pbar_inv N R' (pbar_step n h s)"
proof (cases "pb_pc s h")
  case Pb_out
  then show ?thesis using pbar_step_out assms by blast
next
  case (Pb_read p)
  then show ?thesis using step_read assms by blast
next
  case (Pb_wait p)
  then show ?thesis using step_wait assms by blast
next
  case Pb_reset
  then show ?thesis using step_reset assms by blast
next
  case Pb_bump
  then show ?thesis using step_bump assms by blast
qed

lemma pbar_run_inv:
  assumes "set sched \<subseteq> {..<unat n}" and "0 < n"
  shows "\<exists>R. pbar_inv (unat n) R (pbar_run n sched pbar_start)"
proof -
  have "\<exists>R'. pbar_inv (unat n) R' (fold (pbar_step n) sched s)" if "pbar_inv (unat n) R s" for R s
    using assms(1) that
  proof (induction sched arbitrary: s R)
    case Nil
    then show ?case by auto
  next
    case (Cons h sched)
    then obtain R' where "pbar_inv (unat n) R' (pbar_step n h s)"
      using pbar_step_inv [OF Cons.prems(2) refl, of h] by auto
    with Cons show ?case by simp
  qed
  moreover have "pbar_inv (unat n) 0 pbar_start"
    using assms(2) by (intro pbar_start_inv) (simp add: word_less_nat_alt)
  ultimately show ?thesis by (simp add: pbar_run_def)
qed

lemma pbar_inv_done:
  assumes "pbar_inv N R s" and "h < N"
  shows "pb_done s h = R \<or> (Suc (pb_done s h) = R \<and> (\<exists>p. pb_pc s h = Pb_wait p \<and> p \<noteq> pb_iteration s))"
proof -
  note D = pbar_invD(1) [OF assms(1)] pbar_invD(2) [OF assms]
  show ?thesis
  proof (cases "pb_pc s h")
    case (Pb_wait p)
    then have "(pb_done s h = R \<or> Suc (pb_done s h) = R) \<and> p = of_nat (pb_done s h)" using D(2) by simp
    moreover have "of_nat (pb_done s h) \<noteq> (of_nat (Suc (pb_done s h)) :: u32)" by simp
    ultimately show ?thesis unfolding D(1) using Pb_wait by blast
  qed (use D(2) in simp_all)
qed

text \<open>When every hart is inside its call, a hart that is not stuck in its spin loop exists.\<close>

lemma pbar_inv_progress:
  assumes inv: "pbar_inv N R s" and "unat n = N" and "0 < N" and "\<forall>h < N. pb_pc s h \<noteq> Pb_out"
  shows "\<exists>h < N. pbar_step n h s \<noteq> s"
proof (rule ccontr)
  assume "\<not> ?thesis"
  then have stuck: "pbar_step n h s = s" if "h < N" for h using that by blast
  have w: "pb_pc s h = Pb_wait (pb_iteration s)" if "h < N" for h
  proof -
    have "pb_pc (pbar_step n h s) h = pb_pc s h" "pb_cnt (pbar_step n h s) = pb_cnt s"
      using stuck [OF that] by simp_all
    then show ?thesis using assms(4) that
      by (cases "pb_pc s h") (auto simp: pbar_step_def Let_def split: if_splits)
  qed
  have arr: "arrived R s h" if "h < N" for h
    using pbar_inv_done [OF inv that] w [OF that] by (auto simp: arrived_def)
  then have "{h. h < N \<and> arrived R s h} = {..<N}" by auto
  moreover have "\<forall>h < N. \<not> closing s h" using w by (simp add: closing_def)
  then have "card {h. h < N \<and> arrived R s h} < N" by (rule pbar_invD(4) [OF inv])
  ultimately show False by simp
qed

subsection \<open>Properties\<close>

text \<open>
  C7: The barrier \<open>snrt_partial_barrier\<close> separates rounds and does not get stuck. Let \<open>n\<close> harts call it
  repeatedly, their accesses interleaved in any way. A hart that has returned once more often than
  another has not left before the other arrived: the other is already counted in that round and
  leaves at its next read. And when all harts are inside their calls, some hart can move on.
\<close>

theorem partial_barrier_rounds:
  assumes "0 < n" and "set sched \<subseteq> {..<unat n}" and "h < unat n" and "k < unat n"
    and "s = pbar_run n sched pbar_start"
  shows "pb_done s h \<le> Suc (pb_done s k)
    \<and> (pb_done s k < pb_done s h \<longrightarrow>
         (\<exists>p. pb_pc s k = Pb_wait p) \<and> pb_done (pbar_step n k s) k = Suc (pb_done s k))
    \<and> ((\<forall>i < unat n. pb_pc s i \<noteq> Pb_out) \<longrightarrow> (\<exists>i < unat n. pbar_step n i s \<noteq> s))"
proof -
  obtain R where inv: "pbar_inv (unat n) R s" using pbar_run_inv [OF assms(2,1)] assms(5) by blast
  note D = pbar_inv_done [OF inv assms(3)] pbar_inv_done [OF inv assms(4)]
  have "\<exists>i < unat n. pbar_step n i s \<noteq> s" if "\<forall>i < unat n. pb_pc s i \<noteq> Pb_out"
    using pbar_inv_progress [OF inv refl _ that] assms(3) by simp
  with D show ?thesis by (auto simp: pbar_step_def)
qed

theorem partial_barrier_rounds_witness:
  "\<exists>s. s = pbar_run 2 [0, 1, 0, 1, 1, 1] pbar_start \<and> pb_done s 1 = 1 \<and> pb_done s 0 = 0
     \<and> pb_done (pbar_step 2 0 s) 0 = 1"
proof -
  let ?s = "pbar_run 2 [0, 1, 0, 1, 1, 1] pbar_start"
  have d: "pb_done ?s 1 = 1" "pb_done ?s 0 = 0"
    by (simp_all add: pbar_run_def pbar_start_def pbar_step_def Let_def)
  have "set [0, 1, 0, 1, 1, 1 :: nat] \<subseteq> {..<unat (2 :: u32)}" by simp
  from partial_barrier_rounds [OF _ this, of 1 0 ?s] d show ?thesis by auto
qed

end
