(* ===== verification/Ssr.thy ===== *)
theory Ssr
  imports Riscv
begin

text \<open>
  Stream semantic registers: the configuration functions of \<open>sw/runtime/src/ssr.h\<close> and the address
  generator that reads the configuration (\<open>hw/snitch_ssr/src/snitch_ssr_addr_gen.sv\<close>, natural
  iteration). The functions write a register file indexed by data mover and register; the
  generator is a state machine that emits one address per step.

  Index counters and pointers are taken to be 32 bit wide (\<open>Cfg.IndexWidth\<close>, \<open>Cfg.PointerWidth\<close>), the full width of the
  registers the software writes; clusters may be generated with narrower ones (about 17 bits by default), which cut off
  larger bounds and addresses. The memory words have 8 bytes (\<open>WordAddrMask\<close>).
\<close>

definition snrt_fpu_fence :: "hw_event list" where
  "snrt_fpu_fence = [Ev_fpu_fence]"

subsection \<open>Register file\<close>

type_synonym ssr_regs = "nat \<Rightarrow> nat \<Rightarrow> u32"

definition SNRT_SSR_DM_ALL :: nat where
  "SNRT_SSR_DM_ALL = 31"

datatype snrt_ssr_dim = SNRT_SSR_1D | SNRT_SSR_2D | SNRT_SSR_3D | SNRT_SSR_4D

fun dim_value :: "snrt_ssr_dim \<Rightarrow> nat" where
  "dim_value SNRT_SSR_1D = 0"
| "dim_value SNRT_SSR_2D = 1"
| "dim_value SNRT_SSR_3D = 2"
| "dim_value SNRT_SSR_4D = 3"

definition SSR_REG_STATUS :: nat where "SSR_REG_STATUS = 0"
definition SSR_REG_REPEAT :: nat where "SSR_REG_REPEAT = 1"
definition SSR_REG_BOUNDS :: nat where "SSR_REG_BOUNDS = 2"
definition SSR_REG_STRIDES :: nat where "SSR_REG_STRIDES = 6"
definition SSR_REG_IDX_CFG :: nat where "SSR_REG_IDX_CFG = 10"
definition SSR_REG_IDX_BASE :: nat where "SSR_REG_IDX_BASE = 11"
definition SSR_REG_RPTR_INDIR :: nat where "SSR_REG_RPTR_INDIR = 16"
definition SSR_REG_RPTR :: nat where "SSR_REG_RPTR = 24"
definition SSR_REG_WPTR :: nat where "SSR_REG_WPTR = 28"

lemmas ssr_reg_defs = SSR_REG_STATUS_def SSR_REG_REPEAT_def SSR_REG_BOUNDS_def SSR_REG_STRIDES_def
  SSR_REG_IDX_CFG_def SSR_REG_IDX_BASE_def SSR_REG_RPTR_INDIR_def SSR_REG_RPTR_def SSR_REG_WPTR_def

text \<open>\<open>has\<close> is \<open>SNRT_SUPPORTS_SSR\<close>.\<close>

definition read_ssr_cfg :: "bool \<Rightarrow> nat \<Rightarrow> nat \<Rightarrow> ssr_regs \<Rightarrow> u32" where
  "read_ssr_cfg has reg dm r = (if has then r dm reg else 0)"

definition write_ssr_cfg :: "bool \<Rightarrow> nat \<Rightarrow> nat \<Rightarrow> u32 \<Rightarrow> ssr_regs \<Rightarrow> ssr_regs" where
  "write_ssr_cfg has reg dm v r =
     (if has then
        (if dm = SNRT_SSR_DM_ALL then (\<lambda>d. (r d)(reg := v)) else r(dm := (r dm)(reg := v)))
      else r)"

definition snrt_ssr_loop_1d :: "bool \<Rightarrow> nat \<Rightarrow> u32 \<Rightarrow> u32 \<Rightarrow> ssr_regs \<Rightarrow> ssr_regs" where
  "snrt_ssr_loop_1d has dm b0 s0 r =
     (let b0 = b0 - 1;
          r = write_ssr_cfg has (SSR_REG_BOUNDS + 0) dm b0 r;
          a = 0
      in write_ssr_cfg has (SSR_REG_STRIDES + 0) dm (s0 - a) r)"

definition snrt_ssr_loop_2d :: "bool \<Rightarrow> nat \<Rightarrow> u32 \<Rightarrow> u32 \<Rightarrow> u32 \<Rightarrow> u32 \<Rightarrow> ssr_regs \<Rightarrow> ssr_regs" where
  "snrt_ssr_loop_2d has dm b0 b1 s0 s1 r =
     (let b0 = b0 - 1; b1 = b1 - 1;
          r = write_ssr_cfg has (SSR_REG_BOUNDS + 0) dm b0 r;
          r = write_ssr_cfg has (SSR_REG_BOUNDS + 1) dm b1 r;
          a = 0;
          r = write_ssr_cfg has (SSR_REG_STRIDES + 0) dm (s0 - a) r;
          a = a + s0 * b0
      in write_ssr_cfg has (SSR_REG_STRIDES + 1) dm (s1 - a) r)"

definition snrt_ssr_loop_3d :: "bool \<Rightarrow> nat \<Rightarrow> u32 \<Rightarrow> u32 \<Rightarrow> u32 \<Rightarrow> u32 \<Rightarrow> u32 \<Rightarrow> u32 \<Rightarrow> ssr_regs \<Rightarrow> ssr_regs" where
  "snrt_ssr_loop_3d has dm b0 b1 b2 s0 s1 s2 r =
     (let b0 = b0 - 1; b1 = b1 - 1; b2 = b2 - 1;
          r = write_ssr_cfg has (SSR_REG_BOUNDS + 0) dm b0 r;
          r = write_ssr_cfg has (SSR_REG_BOUNDS + 1) dm b1 r;
          r = write_ssr_cfg has (SSR_REG_BOUNDS + 2) dm b2 r;
          a = 0;
          r = write_ssr_cfg has (SSR_REG_STRIDES + 0) dm (s0 - a) r;
          a = a + s0 * b0;
          r = write_ssr_cfg has (SSR_REG_STRIDES + 1) dm (s1 - a) r;
          a = a + s1 * b1
      in write_ssr_cfg has (SSR_REG_STRIDES + 2) dm (s2 - a) r)"

definition snrt_ssr_loop_4d :: "bool \<Rightarrow> nat \<Rightarrow> u32 \<Rightarrow> u32 \<Rightarrow> u32 \<Rightarrow> u32 \<Rightarrow> u32 \<Rightarrow> u32 \<Rightarrow> u32 \<Rightarrow> u32
    \<Rightarrow> ssr_regs \<Rightarrow> ssr_regs" where
  "snrt_ssr_loop_4d has dm b0 b1 b2 b3 s0 s1 s2 s3 r =
     (let b0 = b0 - 1; b1 = b1 - 1; b2 = b2 - 1; b3 = b3 - 1;
          r = write_ssr_cfg has (SSR_REG_BOUNDS + 0) dm b0 r;
          r = write_ssr_cfg has (SSR_REG_BOUNDS + 1) dm b1 r;
          r = write_ssr_cfg has (SSR_REG_BOUNDS + 2) dm b2 r;
          r = write_ssr_cfg has (SSR_REG_BOUNDS + 3) dm b3 r;
          a = 0;
          r = write_ssr_cfg has (SSR_REG_STRIDES + 0) dm (s0 - a) r;
          a = a + s0 * b0;
          r = write_ssr_cfg has (SSR_REG_STRIDES + 1) dm (s1 - a) r;
          a = a + s1 * b1;
          r = write_ssr_cfg has (SSR_REG_STRIDES + 2) dm (s2 - a) r;
          a = a + s2 * b2
      in write_ssr_cfg has (SSR_REG_STRIDES + 3) dm (s3 - a) r)"

definition snrt_ssr_repeat :: "bool \<Rightarrow> nat \<Rightarrow> u32 \<Rightarrow> ssr_regs \<Rightarrow> ssr_regs" where
  "snrt_ssr_repeat has dm count = write_ssr_cfg has SSR_REG_REPEAT dm (count - 1)"

definition snrt_ssr_read :: "bool \<Rightarrow> nat \<Rightarrow> snrt_ssr_dim \<Rightarrow> u32 \<Rightarrow> ssr_regs \<Rightarrow> ssr_regs" where
  "snrt_ssr_read has dm dim ptr = write_ssr_cfg has (SSR_REG_RPTR + dim_value dim) dm ptr"

definition snrt_ssr_write :: "bool \<Rightarrow> nat \<Rightarrow> snrt_ssr_dim \<Rightarrow> u32 \<Rightarrow> ssr_regs \<Rightarrow> ssr_regs" where
  "snrt_ssr_write has dm dim ptr = write_ssr_cfg has (SSR_REG_WPTR + dim_value dim) dm ptr"

definition snrt_issr_set_idx_cfg :: "bool \<Rightarrow> nat \<Rightarrow> u32 \<Rightarrow> ssr_regs \<Rightarrow> ssr_regs" where
  "snrt_issr_set_idx_cfg has dm idxsize = write_ssr_cfg has SSR_REG_IDX_CFG dm (idxsize AND 0xFF)"

definition snrt_issr_set_bound :: "bool \<Rightarrow> nat \<Rightarrow> u32 \<Rightarrow> ssr_regs \<Rightarrow> ssr_regs" where
  "snrt_issr_set_bound has dm bound = write_ssr_cfg has SSR_REG_BOUNDS dm (bound - 1)"

definition snrt_issr_set_ptrs :: "bool \<Rightarrow> nat \<Rightarrow> u32 \<Rightarrow> u32 \<Rightarrow> ssr_regs \<Rightarrow> ssr_regs" where
  "snrt_issr_set_ptrs has dm base idcs r =
     write_ssr_cfg has SSR_REG_RPTR_INDIR dm idcs (write_ssr_cfg has SSR_REG_IDX_BASE dm base r)"

definition snrt_issr_read :: "bool \<Rightarrow> nat \<Rightarrow> u32 \<Rightarrow> u32 \<Rightarrow> u32 \<Rightarrow> u32 \<Rightarrow> ssr_regs \<Rightarrow> ssr_regs" where
  "snrt_issr_read has dm base idcs bound idxsize r =
     snrt_issr_set_ptrs has dm base idcs
       (snrt_issr_set_bound has dm bound (snrt_issr_set_idx_cfg has dm idxsize r))"

subsection \<open>Address generator\<close>

text \<open>
  The configuration a stream runs with: the stride and bound registers as the generator stores
  them, and the dimensions given by the pointer alias. The state is the pointer and the four loop
  counters.
\<close>

record addr_gen =
  ag_stride :: "nat \<Rightarrow> u32"
  ag_bound :: "nat \<Rightarrow> u32"
  ag_dims :: nat
  ag_pointer :: u32
  ag_index :: "nat \<Rightarrow> u32"
  ag_done :: bool

definition ag_loop_last :: "addr_gen \<Rightarrow> nat \<Rightarrow> bool" where
  "ag_loop_last g i \<longleftrightarrow>
     (if i = 0 then ag_index g 0 = ag_bound g 0 else ag_index g i = ag_bound g i \<or> ag_dims g < i)"

definition ag_loop_enabled :: "addr_gen \<Rightarrow> nat \<Rightarrow> bool" where
  "ag_loop_enabled g i \<longleftrightarrow> (\<forall>j \<in> {0..<i}. ag_loop_last g j)"

definition ag_all_last :: "addr_gen \<Rightarrow> bool" where
  "ag_all_last g \<longleftrightarrow> (\<forall>j \<in> {0..<4}. ag_loop_last g j)"

text \<open>\<open>outermost = loop_enabled & ~(loop_enabled >> 1)\<close>, and the \<open>OR\<close> of the selected strides.\<close>

definition ag_selected_stride :: "addr_gen \<Rightarrow> u32" where
  "ag_selected_stride g = fold (\<lambda>i acc. acc OR
     (if ag_loop_enabled g i \<and> \<not> (i + 1 < 4 \<and> ag_loop_enabled g (i + 1)) then ag_stride g i else 0)) [0..<4] 0"

definition ag_step :: "addr_gen \<Rightarrow> addr_gen" where
  "ag_step g = g\<lparr>ag_pointer := ag_pointer g + ag_selected_stride g,
     ag_index := (\<lambda>i. if i < 4 \<and> ag_loop_enabled g i
        then (if ag_loop_last g i then 0 else ag_index g i + 1) else ag_index g i),
     ag_done := ag_all_last g\<rparr>"

text \<open>The addresses of a stream: one per step until the stream is done; \<open>n\<close> bounds the steps.\<close>

fun ag_run :: "nat \<Rightarrow> addr_gen \<Rightarrow> u32 list" where
  "ag_run 0 g = []"
| "ag_run (Suc n) g = (if ag_done g then [] else ag_pointer g # ag_run n (ag_step g))"

definition ssr_start :: "ssr_regs \<Rightarrow> nat \<Rightarrow> nat \<Rightarrow> u32 \<Rightarrow> addr_gen" where
  "ssr_start r dm dims ptr =
     \<lparr>ag_stride = (\<lambda>i. r dm (SSR_REG_STRIDES + i) AND NOT 7), ag_bound = (\<lambda>i. r dm (SSR_REG_BOUNDS + i)),
      ag_dims = dims, ag_pointer = ptr, ag_index = (\<lambda>_. 0), ag_done = False\<rparr>"

subsection \<open>One step of the generator\<close>

lemma four_cases: "i < (4 :: nat) \<Longrightarrow> i = 0 \<or> i = 1 \<or> i = 2 \<or> i = 3"
  by linarith

lemma ag_enabled_upto:
  assumes "\<forall>j < i. ag_loop_last g j" and "\<not> ag_loop_last g i"
  shows "ag_loop_enabled g k \<longleftrightarrow> k \<le> i"
  using assms by (auto simp: ag_loop_enabled_def not_le)

lemma ag_selected_first:
  assumes "i < 4" and "\<forall>j < i. ag_loop_last g j" and "\<not> ag_loop_last g i"
  shows "ag_selected_stride g = ag_stride g i"
  using four_cases [OF assms(1)]
  by (auto simp: ag_selected_stride_def ag_enabled_upto [OF assms(2,3)] upt_rec
      numeral_2_eq_2 numeral_3_eq_3)

lemma ag_step_first:
  assumes "i < 4" and "\<forall>j < i. ag_loop_last g j" and "\<not> ag_loop_last g i"
  shows "ag_pointer (ag_step g) = ag_pointer g + ag_stride g i"
    and "ag_index (ag_step g) = (\<lambda>k. if k < i then 0 else if k = i then ag_index g i + 1 else ag_index g k)"
    and "\<not> ag_done (ag_step g)"
proof -
  show "ag_pointer (ag_step g) = ag_pointer g + ag_stride g i"
    by (simp add: ag_step_def ag_selected_first [OF assms])
  show "ag_index (ag_step g) = (\<lambda>k. if k < i then 0 else if k = i then ag_index g i + 1 else ag_index g k)"
    using assms by (auto simp: ag_step_def fun_eq_iff ag_enabled_upto [OF assms(2,3)])
  show "\<not> ag_done (ag_step g)"
    using assms(1,3) by (auto simp: ag_step_def ag_all_last_def)
qed

lemma ag_step_config [simp]:
  "ag_stride (ag_step g) = ag_stride g" "ag_bound (ag_step g) = ag_bound g" "ag_dims (ag_step g) = ag_dims g"
  by (simp_all add: ag_step_def)

subsection \<open>Counting in mixed radix\<close>

text \<open>
  \<open>digit B n i\<close> is the value of loop \<open>i\<close> in the \<open>n\<close>-th iteration of a nest of four loops with
  \<open>B i\<close> iterations each, loop 0 innermost.
\<close>

definition digit :: "(nat \<Rightarrow> nat) \<Rightarrow> nat \<Rightarrow> nat \<Rightarrow> nat" where
  "digit B n i = (n div (\<Prod>j < i. B j)) mod B i"

lemma digit_less: "0 < B i \<Longrightarrow> digit B n i < B i"
  by (simp add: digit_def)

lemma digit_zero [simp]: "digit B 0 i = 0"
  by (simp add: digit_def)

text \<open>The lower \<open>i\<close> loops are at their last iteration when the remainder is the last one.\<close>

lemma div_prod_Suc: "(n :: nat) div (\<Prod>j < Suc i. B j) = (n div (\<Prod>j < i. B j)) div B i"
  by (simp only: prod.lessThan_Suc div_mult2_eq)

lemma digit_carry:
  assumes "\<And>j. 0 < B j" and "\<And>j. j < i \<Longrightarrow> digit B n j = B j - 1"
  shows "Suc n div (\<Prod>j < i. B j) = Suc (n div (\<Prod>j < i. B j))"
  using assms(2)
proof (induction i)
  case 0
  then show ?case by simp
next
  case (Suc i)
  let ?q = "n div (\<Prod>j < i. B j)"
  have IH: "Suc n div (\<Prod>j < i. B j) = Suc ?q" using Suc by simp
  have "?q mod B i = B i - 1" using Suc.prems [of i] by (simp add: digit_def)
  then have "Suc ?q div B i = Suc (?q div B i)" using assms(1) [of i] by (simp add: div_Suc mod_Suc)
  then show ?case unfolding div_prod_Suc IH .
qed

lemma digit_Suc:
  assumes B: "\<And>j. 0 < B j" and low: "\<And>j. j < i \<Longrightarrow> digit B n j = B j - 1" and i: "digit B n i \<noteq> B i - 1"
  shows "digit B (Suc n) k = (if k < i then 0 else if k = i then Suc (digit B n i) else digit B n k)"
proof -
  have carry: "Suc n div (\<Prod>j < k. B j) = Suc (n div (\<Prod>j < k. B j))" if "k \<le> i" for k
    using that low by (intro digit_carry B) simp
  let ?q = "n div (\<Prod>j < i. B j)"
  have lt: "Suc (?q mod B i) < B i" using i digit_less [of B i n] B [of i] unfolding digit_def by linarith
  have same: "Suc n div (\<Prod>j < Suc (i + d). B j) = n div (\<Prod>j < Suc (i + d). B j)" for d
  proof (induction d)
    case 0
    have "Suc ?q div B i = ?q div B i" using lt by (simp add: div_Suc mod_Suc)
    then show ?case using carry [of i] by (simp only: div_prod_Suc add_0_right order_refl)
  next
    case (Suc d)
    then show ?case by (simp only: add_Suc_right div_prod_Suc [of _ B "Suc (i + d)"])
  qed
  consider "k < i" | "k = i" | "i < k" by linarith
  then show ?thesis
  proof cases
    case 1
    have "n div (\<Prod>j < k. B j) mod B k = B k - 1" using low [OF 1] by (simp add: digit_def)
    then show ?thesis using 1 carry [of k] B [of k] by (simp add: digit_def mod_Suc)
  next
    case 2
    then show ?thesis using carry [of i] lt by (simp add: digit_def mod_Suc)
  next
    case 3
    then obtain d where "k = Suc (i + d)" using less_iff_Suc_add by blast
    then show ?thesis using same [of d] by (simp add: digit_def)
  qed
qed

lemma digits_last:
  assumes "\<And>j. 0 < B j" and "n < (\<Prod>j < k. B j)" and "\<And>j. j < k \<Longrightarrow> digit B n j = B j - 1"
  shows "Suc n = (\<Prod>j < k. B j)"
proof -
  have pos: "0 < (\<Prod>j < k. B j)" using assms(1) by (simp add: prod_pos)
  have "Suc n div (\<Prod>j < k. B j) = 1" using digit_carry [OF assms(1,3)] assms(2) by simp
  then have "(\<Prod>j < k. B j) \<le> Suc n" by (metis div_less not_le zero_neq_one)
  with assms(2) show ?thesis by simp
qed

lemma digits_not_last:
  assumes "Suc n < (\<Prod>j < k. B j)" and "\<And>j. 0 < B j"
  shows "\<exists>i < k. (\<forall>j < i. digit B n j = B j - 1) \<and> digit B n i \<noteq> B i - 1"
proof -
  have "\<exists>i < k. digit B n i \<noteq> B i - 1"
  proof (rule ccontr)
    assume "\<not> ?thesis"
    then have "Suc n = (\<Prod>j < k. B j)" using assms by (intro digits_last) auto
    with assms(1) show False by simp
  qed
  then have "\<exists>i. i < k \<and> digit B n i \<noteq> B i - 1" by blast
  from exists_least_iff [THEN iffD1, OF this] obtain i where i: "i < k" "digit B n i \<noteq> B i - 1"
    and min: "\<forall>j < i. \<not> (j < k \<and> digit B n j \<noteq> B j - 1)" by blast
  then have "\<forall>j < i. digit B n j = B j - 1" by auto
  with i show ?thesis by blast
qed

subsection \<open>The generator counts in mixed radix\<close>

definition ag_extent :: "addr_gen \<Rightarrow> nat \<Rightarrow> nat" where
  "ag_extent g i = (if ag_dims g < i then 1 else unat (ag_bound g i) + 1)"

text \<open>The \<open>n\<close>-th address of an affine loop nest.\<close>

definition affine_addr :: "(nat \<Rightarrow> nat) \<Rightarrow> (nat \<Rightarrow> u32) \<Rightarrow> u32 \<Rightarrow> nat \<Rightarrow> u32" where
  "affine_addr B \<sigma> ptr n = ptr + of_nat (digit B n 0) * \<sigma> 0 + of_nat (digit B n 1) * \<sigma> 1
     + of_nat (digit B n 2) * \<sigma> 2 + of_nat (digit B n 3) * \<sigma> 3"

text \<open>The strides programmed for \<open>\<sigma>\<close>: each undoes the progress of the inner loops.\<close>

definition strides_for :: "(nat \<Rightarrow> u32) \<Rightarrow> addr_gen \<Rightarrow> bool" where
  "strides_for \<sigma> g \<longleftrightarrow> (\<forall>i < 4. i \<le> ag_dims g \<longrightarrow> ag_stride g i = \<sigma> i - (\<Sum>j < i. \<sigma> j * ag_bound g j))"

definition ag_at :: "(nat \<Rightarrow> nat) \<Rightarrow> (nat \<Rightarrow> u32) \<Rightarrow> u32 \<Rightarrow> nat \<Rightarrow> addr_gen \<Rightarrow> bool" where
  "ag_at B \<sigma> ptr n g \<longleftrightarrow> B = ag_extent g \<and> strides_for \<sigma> g \<and> \<not> ag_done g
     \<and> (\<forall>i < 4. ag_index g i = of_nat (digit B n i)) \<and> ag_pointer g = affine_addr B \<sigma> ptr n"

lemma ag_extent_pos: "0 < ag_extent g i"
  by (simp add: ag_extent_def)

lemma ag_last_iff:
  assumes "ag_at B \<sigma> ptr n g" and "i < 4"
  shows "ag_loop_last g i \<longleftrightarrow> digit B n i = B i - 1"
proof (cases "ag_dims g < i")
  case True
  then have "B i = 1" using assms(1) by (simp add: ag_at_def ag_extent_def)
  then show ?thesis using True by (simp add: ag_loop_last_def digit_def)
next
  case False
  have B: "B i = unat (ag_bound g i) + 1" and ix: "ag_index g i = of_nat (digit B n i)"
    using assms False by (simp_all add: ag_at_def ag_extent_def)
  have "digit B n i < B i" using B by (intro digit_less) simp
  then have "unat (of_nat (digit B n i) :: u32) = digit B n i"
    using B unat_lt_pow32 [of "ag_bound g i"] by (simp add: unsigned_of_nat take_bit_nat_eq_self)
  then have "ag_index g i = ag_bound g i \<longleftrightarrow> digit B n i = unat (ag_bound g i)"
    unfolding ix by (metis unat_eqI)
  then show ?thesis using False B by (auto simp: ag_loop_last_def)
qed

lemma ag_step_at:
  assumes at: "ag_at B \<sigma> ptr n g" and n: "Suc n < (\<Prod>j < 4. B j)"
  shows "ag_at B \<sigma> ptr (Suc n) (ag_step g)"
proof -
  have B: "B = ag_extent g" and st: "strides_for \<sigma> g" and ix: "\<And>i. i < 4 \<Longrightarrow> ag_index g i = of_nat (digit B n i)"
    and p: "ag_pointer g = affine_addr B \<sigma> ptr n"
    using at by (simp_all add: ag_at_def)
  have pos: "\<And>j. 0 < B j" by (simp add: B ag_extent_pos)
  obtain i where i: "i < 4" and low: "\<And>j. j < i \<Longrightarrow> digit B n j = B j - 1" and no: "digit B n i \<noteq> B i - 1"
    using digits_not_last [OF n pos] by blast
  have L: "\<forall>j < i. ag_loop_last g j" "\<not> ag_loop_last g i"
    using ag_last_iff [OF at] i low no by auto
  note S = ag_step_first [OF i L]
  have D: "digit B (Suc n) k = (if k < i then 0 else if k = i then Suc (digit B n i) else digit B n k)" for k
    by (rule digit_Suc) (fact pos low no)+
  have di: "i \<le> ag_dims g"
  proof (rule ccontr)
    assume "\<not> i \<le> ag_dims g"
    then show False using L(2) i by (auto simp: ag_loop_last_def split: if_splits)
  qed
  have lowb: "(of_nat (digit B n j) :: u32) = ag_bound g j" if "j < i" for j
    using low [OF that] that di by (simp add: B ag_extent_def)
  have stride: "ag_stride g i = \<sigma> i - (\<Sum>j < i. \<sigma> j * ag_bound g j)"
    using st i di by (simp add: strides_for_def)
  have "ag_pointer (ag_step g) = affine_addr B \<sigma> ptr (Suc n)"
    using four_cases [OF i] lowb
    unfolding S(1) p stride affine_addr_def D
    by (elim disjE) (simp_all add: eval_nat_numeral algebra_simps)
  moreover have "\<forall>k < 4. ag_index (ag_step g) k = of_nat (digit B (Suc n) k)"
    unfolding S(2) D using ix i by simp
  moreover have "B = ag_extent (ag_step g)" by (simp add: B ag_extent_def fun_eq_iff)
  moreover have "strides_for \<sigma> (ag_step g)" using st by (simp add: strides_for_def)
  ultimately show ?thesis using S(3) by (simp add: ag_at_def)
qed

lemma ag_step_done:
  assumes at: "ag_at B \<sigma> ptr n g" and n: "Suc n = (\<Prod>j < 4. B j)"
  shows "ag_done (ag_step g)"
proof -
  have pos: "\<And>j. 0 < B j" using at by (simp add: ag_at_def ag_extent_pos)
  have "\<forall>j < 4. digit B n j = B j - 1"
  proof (rule ccontr)
    assume "\<not> ?thesis"
    then have "\<exists>i. i < 4 \<and> digit B n i \<noteq> B i - 1" by blast
    from exists_least_iff [THEN iffD1, OF this] obtain i where i: "i < 4" "digit B n i \<noteq> B i - 1"
      and low: "\<And>j. j < i \<Longrightarrow> digit B n j = B j - 1" by (auto dest: less_trans)
    have D: "digit B (Suc n) i = Suc (digit B n i)"
      using digit_Suc [of B i n i] pos low i(2) by simp
    have "digit B (Suc n) i = 0"
    proof -
      have "Suc n = (\<Prod>j < i. B j) * (\<Prod>j \<in> {i..<4}. B j)"
        unfolding n using i(1) prod.atLeastLessThan_concat [of 0 i 4 B] by (simp add: lessThan_atLeast0)
      moreover have "(\<Prod>j \<in> {i..<4}. B j) = B i * (\<Prod>j \<in> {Suc i..<4}. B j)"
        using i(1) by (rule prod.atLeast_Suc_lessThan)
      moreover have "0 < (\<Prod>j < i. B j)" using pos by (simp add: prod_pos)
      ultimately show ?thesis by (simp add: digit_def)
    qed
    then show False using D by simp
  qed
  then show ?thesis using ag_last_iff [OF at] by (simp add: ag_step_def ag_all_last_def)
qed

lemma ag_run_at:
  assumes "ag_at B \<sigma> ptr n g" and "n < (\<Prod>j < 4. B j)" and "(\<Prod>j < 4. B j) - n \<le> fuel"
  shows "ag_run fuel g = map (affine_addr B \<sigma> ptr) [n..<(\<Prod>j < 4. B j)]"
  using assms
proof (induction fuel arbitrary: n g)
  case 0
  then show ?case by simp
next
  case (Suc fuel)
  let ?T = "\<Prod>j < 4. B j"
  have h: "\<not> ag_done g" "ag_pointer g = affine_addr B \<sigma> ptr n" using Suc.prems(1) by (simp_all add: ag_at_def)
  show ?case
  proof (cases "Suc n = ?T")
    case True
    have "ag_run fuel (ag_step g) = []"
      using ag_step_done [OF Suc.prems(1) True] by (cases fuel) simp_all
    moreover have "[n..<?T] = [n]" unfolding True [symmetric] by simp
    ultimately show ?thesis using h by simp
  next
    case False
    then have lt: "Suc n < ?T" using Suc.prems(2) by linarith
    have "ag_run fuel (ag_step g) = map (affine_addr B \<sigma> ptr) [Suc n..<?T]"
      by (rule Suc.IH [OF ag_step_at [OF Suc.prems(1) lt] lt]) (use Suc.prems(3) in linarith)
    then show ?thesis using h Suc.prems(2) by (simp add: upt_conv_Cons)
  qed
qed

subsection \<open>The loop functions program the generator\<close>

lemma and_not_7:
  assumes "8 dvd (x :: u32)"
  shows "x AND NOT 7 = x"
proof -
  obtain y where y: "x = 8 * y" using assms by (rule dvdE)
  have e: "mask 3 = (7 :: u32)" by (simp add: mask_eq_exp_minus_1)
  have "bit (mask 3 :: u32) n \<longleftrightarrow> n < 3" for n by (auto simp: bit_mask_iff possible_bit_word)
  then have seven: "bit (7 :: u32) n \<longleftrightarrow> n < 3" for n by (simp only: e)
  have "x = push_bit 3 y" by (simp add: y push_bit_eq_mult)
  then have low: "bit x n \<Longrightarrow> 3 \<le> n" for n by (simp add: bit_push_bit_iff)
  show ?thesis
  proof (rule bit_word_eqI)
    fix n
    assume "n < LENGTH(32)"
    then show "bit (x AND NOT 7) n \<longleftrightarrow> bit x n"
      unfolding bit_and_iff bit_not_iff seven possible_bit_word using low [of n] by auto
  qed
qed

text \<open>The loop function of each dimension, on the list of bounds and strides as functions.\<close>

fun ssr_loop :: "snrt_ssr_dim \<Rightarrow> nat \<Rightarrow> (nat \<Rightarrow> u32) \<Rightarrow> (nat \<Rightarrow> u32) \<Rightarrow> ssr_regs \<Rightarrow> ssr_regs" where
  "ssr_loop SNRT_SSR_1D dm b s = snrt_ssr_loop_1d True dm (b 0) (s 0)"
| "ssr_loop SNRT_SSR_2D dm b s = snrt_ssr_loop_2d True dm (b 0) (b 1) (s 0) (s 1)"
| "ssr_loop SNRT_SSR_3D dm b s = snrt_ssr_loop_3d True dm (b 0) (b 1) (b 2) (s 0) (s 1) (s 2)"
| "ssr_loop SNRT_SSR_4D dm b s = snrt_ssr_loop_4d True dm (b 0) (b 1) (b 2) (b 3) (s 0) (s 1) (s 2) (s 3)"

text \<open>Configure a loop nest, start a streaming read and run the generator on the registers.\<close>

definition ssr_read_stream :: "snrt_ssr_dim \<Rightarrow> nat \<Rightarrow> (nat \<Rightarrow> u32) \<Rightarrow> (nat \<Rightarrow> u32) \<Rightarrow> u32 \<Rightarrow> ssr_regs \<Rightarrow> addr_gen" where
  "ssr_read_stream dim dm b s ptr r =
     (let r' = snrt_ssr_read True dm dim ptr (ssr_loop dim dm b s r)
      in ssr_start r' dm (dim_value dim) (r' dm (SSR_REG_RPTR + dim_value dim)))"

lemmas ssr_loop_defs = snrt_ssr_loop_1d_def snrt_ssr_loop_2d_def snrt_ssr_loop_3d_def snrt_ssr_loop_4d_def
  write_ssr_cfg_def snrt_ssr_read_def ssr_start_def SNRT_SSR_DM_ALL_def ssr_reg_defs

lemma ssr_read_stream_regs:
  assumes "dm < 31"
  shows "ag_pointer (ssr_read_stream dim dm b s ptr r) = ptr"
    and "i \<le> dim_value dim \<Longrightarrow> ag_bound (ssr_read_stream dim dm b s ptr r) i = b i - 1"
    and "i \<le> dim_value dim \<Longrightarrow> ag_stride (ssr_read_stream dim dm b s ptr r) i
      = (s i - (\<Sum>j < i. s j * (b j - 1))) AND NOT 7"
    and "ag_dims (ssr_read_stream dim dm b s ptr r) = dim_value dim"
    and "ag_index (ssr_read_stream dim dm b s ptr r) = (\<lambda>_. 0)"
    and "\<not> ag_done (ssr_read_stream dim dm b s ptr r)"
proof -
  show "ag_pointer (ssr_read_stream dim dm b s ptr r) = ptr"
    "ag_dims (ssr_read_stream dim dm b s ptr r) = dim_value dim"
    "ag_index (ssr_read_stream dim dm b s ptr r) = (\<lambda>_. 0)"
    "\<not> ag_done (ssr_read_stream dim dm b s ptr r)"
    using assms by (simp_all add: ssr_read_stream_def Let_def ssr_loop_defs)
  have le: "i \<le> dim_value dim \<Longrightarrow> i < 4" by (cases dim) simp_all
  show "ag_bound (ssr_read_stream dim dm b s ptr r) i = b i - 1" if "i \<le> dim_value dim"
    using assms that four_cases [OF le [OF that]]
    by (cases dim) (auto simp: ssr_read_stream_def Let_def ssr_loop_defs)
  show "ag_stride (ssr_read_stream dim dm b s ptr r) i = (s i - (\<Sum>j < i. s j * (b j - 1))) AND NOT 7"
    if "i \<le> dim_value dim"
    using assms that four_cases [OF le [OF that]]
    by (cases dim) (auto simp: ssr_read_stream_def Let_def ssr_loop_defs eval_nat_numeral algebra_simps)
qed

lemma ssr_stream_start:
  assumes "dm < 31" and "\<forall>i \<le> dim_value dim. 0 < b i \<and> 8 dvd s i"
    and "B = (\<lambda>i. if i \<le> dim_value dim then unat (b i) else 1)"
  shows "ag_at B s ptr 0 (ssr_read_stream dim dm b s ptr r)"
proof -
  let ?g = "ssr_read_stream dim dm b s ptr r"
  note R = ssr_read_stream_regs [OF assms(1), where dim = dim and b = b and s = s and ptr = ptr and r = r]
  have "ag_extent ?g i = B i" for i
  proof (cases "i \<le> dim_value dim")
    case True
    then have "0 < unat (b i)" using assms(2) by (simp add: word_less_nat_alt)
    then have "unat (b i - 1) + 1 = unat (b i)" by (subst unat_sub_no_ovf) simp_all
    then show ?thesis using True by (simp add: ag_extent_def R assms(3))
  next
    case False
    then show ?thesis by (simp add: ag_extent_def R(4) assms(3))
  qed
  then have "B = ag_extent ?g" by auto
  moreover have "strides_for s ?g"
    unfolding strides_for_def
  proof (intro allI impI)
    fix i :: nat
    assume "i < 4" "i \<le> ag_dims ?g"
    then have i: "i \<le> dim_value dim" by (simp add: R(4))
    have "8 dvd s i - (\<Sum>j < i. s j * (b j - 1))"
      using assms(2) i by (intro dvd_diff dvd_sum dvd_mult2) auto
    moreover have "(\<Sum>j < i. s j * ag_bound ?g j) = (\<Sum>j < i. s j * (b j - 1))"
      using i by (intro sum.cong) (simp_all add: R(2))
    ultimately show "ag_stride ?g i = s i - (\<Sum>j < i. s j * ag_bound ?g j)"
      unfolding R(3) [OF i] by (simp only: and_not_7)
  qed
  ultimately show ?thesis by (simp add: ag_at_def R affine_addr_def)
qed

subsection \<open>Properties\<close>

text \<open>
  C12: The loop functions program an affine loop nest. After \<open>snrt_ssr_loop_1d\<close> to
  \<open>snrt_ssr_loop_4d\<close> and \<open>snrt_ssr_read\<close>, the generator emits, for bounds \<open>b\<close> and byte strides \<open>s\<close>
  given by the caller, exactly one address per iteration of the nest, \<open>ptr + i0 * s0 + i1 * s1
  + ...\<close> with loop 0 innermost, and then stops, although the registers hold decremented bounds
  and relative strides.
\<close>

theorem ssr_loop_addresses:
  assumes "dm < 31" and "\<forall>i \<le> dim_value dim. 0 < b i \<and> 8 dvd s i"
    and "B = (\<lambda>i. if i \<le> dim_value dim then unat (b i) else 1)"
    and "(\<Prod>i \<le> dim_value dim. unat (b i)) \<le> fuel"
  shows "ag_run fuel (ssr_read_stream dim dm b s ptr r)
    = map (\<lambda>n. ptr + (\<Sum>i \<le> dim_value dim. of_nat (digit B n i) * s i))
        [0..<(\<Prod>i \<le> dim_value dim. unat (b i))]"
proof -
  have T: "(\<Prod>j < 4. B j) = (\<Prod>i \<le> dim_value dim. unat (b i))"
    by (cases dim) (simp_all add: assms(3) eval_nat_numeral)
  have A: "affine_addr B s ptr n = ptr + (\<Sum>i \<le> dim_value dim. of_nat (digit B n i) * s i)" for n
  proof -
    have z: "digit B n i = 0" if "dim_value dim < i" for i
      using that by (simp add: assms(3) digit_def)
    show ?thesis
      by (cases dim) (use z in \<open>simp_all add: affine_addr_def eval_nat_numeral\<close>)
  qed
  have "0 < (\<Prod>i \<le> dim_value dim. unat (b i))"
    using assms(2) by (intro prod_pos) (auto simp: word_less_nat_alt)
  with ag_run_at [OF ssr_stream_start [OF assms(1,2,3)], of fuel ptr r] assms(4)
  show ?thesis unfolding T A by simp
qed

theorem ssr_loop_addresses_witness:
  "ag_run 10 (ssr_read_stream SNRT_SSR_2D 0 (\<lambda>i. [3, 2] ! i) (\<lambda>i. [8, 64] ! i) 0x1000 (\<lambda>_ _. 0))
     = [0x1000, 0x1008, 0x1010, 0x1040, 0x1048, 0x1050]"
proof -
  let ?b = "\<lambda>i. [3, 2] ! i :: u32" and ?s = "\<lambda>i. [8, 64] ! i :: u32"
  have e: "\<forall>i \<le> dim_value SNRT_SSR_2D. 0 < ?b i \<and> 8 dvd ?s i"
    by (auto simp: le_Suc_eq intro: dvdI [of _ _ 8])
  show ?thesis
    by (subst ssr_loop_addresses [OF _ e refl]) (simp_all add: digit_def upt_rec)
qed

end
