(* ===== verification/Fp_Stream.thy ===== *)
theory Fp_Stream
  imports Ssr "HOL-Library.Monad_Syntax"
begin

text \<open>
  Floating point code over the stream registers (\<open>sw/runtime/src/ssr.h\<close>): an instruction that reads
  \<open>ft0\<close> or \<open>ft1\<close> takes the next element of a stream, one that writes \<open>ft2\<close> stores the next element. The
  streams are the address generators of \<open>Ssr\<close>. An instruction that reads a stream that has ended
  waits for ever, which is \<open>None\<close>; the instructions take effect in program order. \<open>frep\<close> is the
  hardware loop, \<open>fma x y z\<close> the result of \<open>fmadd.d\<close>.

  The lemmas follow a group of eight instructions through the streams, whatever their addresses.
\<close>

subsection \<open>Loops that may not end\<close>

primrec for_opt :: "nat \<Rightarrow> (nat \<Rightarrow> 's \<Rightarrow> 's option) \<Rightarrow> 's \<Rightarrow> 's option" where
  "for_opt 0 f s = Some s"
| "for_opt (Suc n) f s = do { s \<leftarrow> for_opt n f s; f n s }"

text \<open>\<open>frep.o\<close> repeats its instructions once more than its operand says.\<close>

definition frep :: "u32 \<Rightarrow> ('s \<Rightarrow> 's option) \<Rightarrow> 's \<Rightarrow> 's option" where
  "frep n body = for_opt (unat n + 1) (\<lambda>_. body)"

lemma frep_times: "n \<noteq> 0 \<Longrightarrow> frep (n - 1) body = for_opt (unat n) (\<lambda>_. body)"
proof -
  assume "n \<noteq> 0"
  then have "0 < unat n" by (simp add: unat_gt_0)
  then have "unat (n - 1) + 1 = unat n" by (subst unat_sub_no_ovf) simp_all
  then show ?thesis by (simp only: frep_def)
qed

lemma for_opt_add: "for_opt (m + n) f s = do { s \<leftarrow> for_opt m f s; for_opt n (\<lambda>i. f (m + i)) s }"
  by (induction n) (simp_all add: Option.bind_assoc)

lemma for_opt_nest: "for_opt m (\<lambda>i. for_opt n (\<lambda>j. f (i * n + j))) s = for_opt (m * n) f s"
  by (induction m) (simp_all add: for_opt_add add.commute [of n])

lemma for_opt_cong: "(\<And>i s. i < n \<Longrightarrow> f i s = g i s) \<Longrightarrow> for_opt n f s = for_opt n g s"
  by (induction n) (auto intro: Option.bind_cong)

lemma for_opt_invariant:
  assumes "P 0 s" and "\<And>i s. i < n \<Longrightarrow> P i s \<Longrightarrow> \<exists>s'. f i s = Some s' \<and> P (Suc i) s'"
  shows "\<exists>s'. for_opt n f s = Some s' \<and> P n s'"
  using assms(2)
proof (induction n)
  case (Suc n)
  then obtain s' where "for_opt n f s = Some s'" "P n s'" by auto
  then show ?case using Suc.prems [of n s'] by auto
qed (use assms(1) in simp)

subsection \<open>The streams\<close>

text \<open>
  The stream registers, the running generators, how often the current element has been delivered
  (\<open>sf_rep\<close>), the accumulators \<open>c[0]\<close> to \<open>c[7]\<close> and the matrix \<open>C\<close> by element index.
\<close>

record 'a ssr_fp =
  sf_regs :: ssr_regs
  sf_gen :: "nat \<Rightarrow> addr_gen"
  sf_rep :: "nat \<Rightarrow> u32"
  sf_on :: bool
  sf_c :: "nat \<Rightarrow> 'a"
  sf_C :: "nat \<Rightarrow> 'a"

text \<open>The state before a kernel: no stream is running.\<close>

definition idle_gen :: addr_gen where
  "idle_gen = \<lparr>ag_stride = (\<lambda>_. 0), ag_bound = (\<lambda>_. 0), ag_dims = 0, ag_pointer = 0, ag_index = (\<lambda>_. 0), ag_done = True\<rparr>"

definition opt_state :: "ssr_regs \<Rightarrow> (nat \<Rightarrow> 'a) \<Rightarrow> (nat \<Rightarrow> 'a) \<Rightarrow> 'a ssr_fp" where
  "opt_state r acc C = \<lparr>sf_regs = r, sf_gen = (\<lambda>_. idle_gen), sf_rep = (\<lambda>_. 0), sf_on = False, sf_c = acc, sf_C = C\<rparr>"

definition stream_pop :: "nat \<Rightarrow> (u32 \<Rightarrow> 'a) \<Rightarrow> 'a ssr_fp \<Rightarrow> ('a \<times> 'a ssr_fp) option" where
  "stream_pop dm rd s =
     (let g = sf_gen s dm in
      if \<not> sf_on s \<or> ag_done g then None
      else if sf_rep s dm = sf_regs s dm SSR_REG_REPEAT
      then Some (rd (ag_pointer g), s\<lparr>sf_gen := (sf_gen s)(dm := ag_step g), sf_rep := (sf_rep s)(dm := 0)\<rparr>)
      else Some (rd (ag_pointer g), s\<lparr>sf_rep := (sf_rep s)(dm := sf_rep s dm + 1)\<rparr>))"

definition stream_push :: "nat \<Rightarrow> 'a \<Rightarrow> 'a ssr_fp \<Rightarrow> 'a ssr_fp option" where
  "stream_push dm v s =
     (let g = sf_gen s dm in
      if \<not> sf_on s \<or> ag_done g then None
      else Some (s\<lparr>sf_gen := (sf_gen s)(dm := ag_step g), sf_C := (sf_C s)(unat (ag_pointer g) div 8 := v)\<rparr>))"

text \<open>The pointer registers start a stream.\<close>

definition stream_start :: "nat \<Rightarrow> snrt_ssr_dim \<Rightarrow> nat \<Rightarrow> 'a ssr_fp \<Rightarrow> 'a ssr_fp" where
  "stream_start dm dim reg s =
     s\<lparr>sf_gen := (sf_gen s)(dm := ssr_start (sf_regs s) dm (dim_value dim) (sf_regs s dm (reg + dim_value dim))),
       sf_rep := (sf_rep s)(dm := 0)\<rparr>"

definition stream_read :: "nat \<Rightarrow> snrt_ssr_dim \<Rightarrow> u32 \<Rightarrow> 'a ssr_fp \<Rightarrow> 'a ssr_fp" where
  "stream_read dm dim ptr s = stream_start dm dim SSR_REG_RPTR (s\<lparr>sf_regs := snrt_ssr_read True dm dim ptr (sf_regs s)\<rparr>)"

definition stream_write :: "nat \<Rightarrow> snrt_ssr_dim \<Rightarrow> u32 \<Rightarrow> 'a ssr_fp \<Rightarrow> 'a ssr_fp" where
  "stream_write dm dim ptr s = stream_start dm dim SSR_REG_WPTR (s\<lparr>sf_regs := snrt_ssr_write True dm dim ptr (sf_regs s)\<rparr>)"

subsection \<open>The instructions\<close>

definition stream_operands :: "(u32 \<Rightarrow> 'a) \<Rightarrow> (u32 \<Rightarrow> 'a) \<Rightarrow> 'a ssr_fp \<Rightarrow> ('a \<times> 'a \<times> 'a ssr_fp) option" where
  "stream_operands A B s = do { (x, s) \<leftarrow> stream_pop 0 A s; (y, s) \<leftarrow> stream_pop 1 B s; Some (x, y, s) }"

definition fmul_c :: "(u32 \<Rightarrow> 'a::times) \<Rightarrow> (u32 \<Rightarrow> 'a) \<Rightarrow> nat \<Rightarrow> 'a ssr_fp \<Rightarrow> 'a ssr_fp option" where
  "fmul_c A B i s = do { (x, y, s) \<leftarrow> stream_operands A B s;
     Some (s\<lparr>sf_c := (sf_c s)(i := x * y)\<rparr>) }"

definition fmadd_c :: "('a \<Rightarrow> 'a \<Rightarrow> 'a \<Rightarrow> 'a) \<Rightarrow> (u32 \<Rightarrow> 'a) \<Rightarrow> (u32 \<Rightarrow> 'a) \<Rightarrow> nat \<Rightarrow> 'a ssr_fp \<Rightarrow> 'a ssr_fp option" where
  "fmadd_c fma A B i s = do { (x, y, s) \<leftarrow> stream_operands A B s;
     Some (s\<lparr>sf_c := (sf_c s)(i := fma x y (sf_c s i))\<rparr>) }"

definition fmadd_ft2 :: "('a \<Rightarrow> 'a \<Rightarrow> 'a \<Rightarrow> 'a) \<Rightarrow> (u32 \<Rightarrow> 'a) \<Rightarrow> (u32 \<Rightarrow> 'a) \<Rightarrow> nat \<Rightarrow> 'a ssr_fp \<Rightarrow> 'a ssr_fp option" where
  "fmadd_ft2 fma A B i s = do { (x, y, s) \<leftarrow> stream_operands A B s;
     stream_push 2 (fma x y (sf_c s i)) s }"

text \<open>The eight instructions of each kind, \<open>unroll = 8\<close>, and the eight \<open>fld\<close> from \<open>ptr\<close>.\<close>

definition fmul_8 :: "(u32 \<Rightarrow> 'a::times) \<Rightarrow> (u32 \<Rightarrow> 'a) \<Rightarrow> 'a ssr_fp \<Rightarrow> 'a ssr_fp option" where
  "fmul_8 A B = for_opt 8 (fmul_c A B)"

definition fmadd_8 :: "('a \<Rightarrow> 'a \<Rightarrow> 'a \<Rightarrow> 'a) \<Rightarrow> (u32 \<Rightarrow> 'a) \<Rightarrow> (u32 \<Rightarrow> 'a) \<Rightarrow> 'a ssr_fp \<Rightarrow> 'a ssr_fp option" where
  "fmadd_8 fma A B = for_opt 8 (fmadd_c fma A B)"

definition fmadd_ft2_8 :: "('a \<Rightarrow> 'a \<Rightarrow> 'a \<Rightarrow> 'a) \<Rightarrow> (u32 \<Rightarrow> 'a) \<Rightarrow> (u32 \<Rightarrow> 'a) \<Rightarrow> 'a ssr_fp \<Rightarrow> 'a ssr_fp option" where
  "fmadd_ft2_8 fma A B = for_opt 8 (fmadd_ft2 fma A B)"

definition fld_8 :: "u32 \<Rightarrow> 'a ssr_fp \<Rightarrow> 'a ssr_fp" where
  "fld_8 ptr s = s\<lparr>sf_c := (\<lambda>i. if i < 8 then sf_C s (unat (ptr + of_nat (8 * i)) div 8) else sf_c s i)\<rparr>"

subsection \<open>Streams as sequences of addresses\<close>

text \<open>\<open>P n\<close> holds of a generator that has emitted \<open>n\<close> addresses; the first \<open>T\<close> of them are \<open>adr\<close>.\<close>

definition emits :: "(nat \<Rightarrow> addr_gen \<Rightarrow> bool) \<Rightarrow> nat \<Rightarrow> (nat \<Rightarrow> u32) \<Rightarrow> bool" where
  "emits P T adr \<longleftrightarrow> (\<forall>n g. n < T \<longrightarrow> P n g \<longrightarrow> \<not> ag_done g \<and> ag_pointer g = adr n \<and> P (Suc n) (ag_step g))"

definition stream_at :: "(nat \<Rightarrow> nat) \<Rightarrow> (nat \<Rightarrow> u32) \<Rightarrow> u32 \<Rightarrow> nat \<Rightarrow> nat \<Rightarrow> addr_gen \<Rightarrow> bool" where
  "stream_at B \<sigma> ptr T n g \<longleftrightarrow> (n < T \<longrightarrow> ag_at B \<sigma> ptr n g)"

lemma emitsD:
  assumes "emits P T adr" and "n < T" and "P n g"
  shows "\<not> ag_done g" and "ag_pointer g = adr n" and "P (Suc n) (ag_step g)"
  using assms by (auto simp: emits_def)

lemma emits_stream:
  assumes "T \<le> (\<Prod>j < 4. B j)"
  shows "emits (stream_at B \<sigma> ptr T) T (affine_addr B \<sigma> ptr)"
  unfolding emits_def
proof (intro allI impI)
  fix n g assume n: "n < T" and "stream_at B \<sigma> ptr T n g"
  then have at: "ag_at B \<sigma> ptr n g" by (simp add: stream_at_def)
  have "ag_at B \<sigma> ptr (Suc n) (ag_step g)" if "Suc n < T" by (rule ag_step_at [OF at]) (use that assms in simp)
  then show "\<not> ag_done g \<and> ag_pointer g = affine_addr B \<sigma> ptr n \<and> stream_at B \<sigma> ptr T (Suc n) (ag_step g)"
    using at by (simp add: stream_at_def) (simp add: ag_at_def)
qed

lemma stream_at_start:
  assumes "ag_dims g = d" and "\<not> ag_done g" and "ag_index g = (\<lambda>_. 0)" and "ag_pointer g = ptr"
    and "B = ag_extent g" and "strides_for \<sigma> g"
  shows "stream_at B \<sigma> ptr T 0 g"
  using assms by (simp add: stream_at_def ag_at_def affine_addr_def)

text \<open>
  The code has consumed \<open>t\<close> operands and produced \<open>w\<close> results; every element of \<open>ft0\<close> is delivered
  \<open>R\<close> times.
\<close>

definition streams_at :: "nat \<Rightarrow> (nat \<Rightarrow> addr_gen \<Rightarrow> bool) \<Rightarrow> (nat \<Rightarrow> addr_gen \<Rightarrow> bool) \<Rightarrow> (nat \<Rightarrow> addr_gen \<Rightarrow> bool)
    \<Rightarrow> nat \<Rightarrow> nat \<Rightarrow> 'a ssr_fp \<Rightarrow> bool" where
  "streams_at R P0 P1 P2 t w s \<longleftrightarrow> 0 < R \<and> R \<le> 2 ^ 32 \<and> sf_on s
     \<and> sf_regs s 0 SSR_REG_REPEAT = of_nat (R - 1) \<and> sf_regs s 1 SSR_REG_REPEAT = 0
     \<and> sf_rep s 0 = of_nat (t mod R) \<and> sf_rep s 1 = 0 \<and> P0 (t div R) (sf_gen s 0) \<and> P1 t (sf_gen s 1) \<and> P2 w (sf_gen s 2)"

lemma rep_count:
  assumes "0 < R" and "R \<le> 2 ^ 32"
  shows "(of_nat (t mod R) :: u32) = of_nat (R - 1) \<longleftrightarrow> t mod R = R - 1"
proof -
  have "t mod R < R" using assms(1) by simp
  then have "t mod R < 2 ^ 32" using assms(2) by linarith
  moreover have "R - 1 < 2 ^ 32" using assms by linarith
  ultimately have "unat (of_nat (t mod R) :: u32) = t mod R" "unat (of_nat (R - 1) :: u32) = R - 1"
    by (intro unat_of_nat_small; simp)+
  then show ?thesis by metis
qed

lemma operands_at:
  assumes at: "streams_at R P0 P1 P2 t w s" and e0: "emits P0 T a0" and e1: "emits P1 (R * T) a1" and t: "t < R * T"
  shows "\<exists>s'. stream_operands A B s = Some (A (a0 (t div R)), B (a1 t), s') \<and> streams_at R P0 P1 P2 (Suc t) w s'
    \<and> sf_c s' = sf_c s \<and> sf_C s' = sf_C s"
proof -
  have R: "0 < R" "R \<le> 2 ^ 32" using at by (simp_all add: streams_at_def)
  have lt: "t div R < T" using t R(1) by (simp add: div_less_iff_less_mult mult.commute)
  have P: "P0 (t div R) (sf_gen s 0)" "P1 t (sf_gen s 1)" using at by (simp_all add: streams_at_def)
  note E0 = emitsD [OF e0 lt P(1)] and E1 = emitsD [OF e1 t P(2)]
  show ?thesis
  proof (cases "t mod R = R - 1")
    case True
    then have "Suc t div R = Suc (t div R)" "Suc t mod R = 0" using R(1) by (simp_all add: div_Suc mod_Suc)
    then show ?thesis using at E0 E1 True rep_count [OF R, of t]
      by (simp add: stream_operands_def stream_pop_def Let_def streams_at_def)
  next
    case False
    then have "Suc (t mod R) \<noteq> R" by linarith
    then have "Suc t div R = t div R" "Suc t mod R = Suc (t mod R)" by (simp_all add: div_Suc mod_Suc)
    then show ?thesis using at E0 E1 False rep_count [OF R, of t]
      by (simp add: stream_operands_def stream_pop_def Let_def streams_at_def add.commute)
  qed
qed

lemma streams_at_cong: "streams_at R P0 P1 P2 t w (s\<lparr>sf_c := c, sf_C := C\<rparr>) = streams_at R P0 P1 P2 t w s"
  "streams_at R P0 P1 P2 t w (s\<lparr>sf_c := c\<rparr>) = streams_at R P0 P1 P2 t w s"
  by (simp_all add: streams_at_def)

subsection \<open>One element at a time\<close>

lemma accumulate_at:
  assumes at: "streams_at 1 P0 P1 P2 t w s" and e: "emits P0 T a0" "emits P1 T a1" and n: "t + n \<le> T"
  shows "\<exists>s'. for_opt n (\<lambda>k. fmadd_c fma A B (f k)) s = Some s' \<and> streams_at 1 P0 P1 P2 (t + n) w s' \<and> sf_C s' = sf_C s
    \<and> sf_c s' = for_upto 0 n (\<lambda>k c. c(f k := fma (A (a0 (t + k))) (B (a1 (t + k))) (c (f k)))) (sf_c s)"
proof -
  define I where "I n t' \<longleftrightarrow> streams_at 1 P0 P1 P2 (t + n) w t' \<and> sf_C t' = sf_C s
    \<and> sf_c t' = for_upto 0 n (\<lambda>k c. c(f k := fma (A (a0 (t + k))) (B (a1 (t + k))) (c (f k)))) (sf_c s)" for n t'
  have "\<exists>s'. for_opt n (\<lambda>k. fmadd_c fma A B (f k)) s = Some s' \<and> I n s'"
  proof (rule for_opt_invariant)
    show "I 0 s" using at by (simp add: I_def)
    fix k t' assume k: "k < n" and t': "I k t'"
    have "streams_at 1 P0 P1 P2 (t + k) w t'" "t + k < 1 * T" using t' k n by (simp_all add: I_def)
    from operands_at [OF this(1) e(1) _ this(2), of a1 A B] e(2)
    show "\<exists>s'. fmadd_c fma A B (f k) t' = Some s' \<and> I (Suc k) s'"
      using t' by (auto simp: fmadd_c_def I_def streams_at_cong for_upto_Suc)
  qed
  then show ?thesis by (auto simp: I_def)
qed

lemma accumulate_one: "for_upto 0 n (\<lambda>k c. c(j := f k (c j))) c j = for_upto 0 n f (c j)"
  by (induction n) (simp_all add: for_upto_Suc)

text \<open>An instruction that stores a function of its operands.\<close>

lemma produce_at:
  assumes at: "streams_at 1 P0 P1 P2 t w s" and e: "emits P0 T a0" "emits P1 T a1" "emits P2 W a2"
    and n: "t + n \<le> T" "w + n \<le> W"
    and f: "\<And>s x y s'. stream_operands A B s = Some (x, y, s') \<Longrightarrow> instr s = stream_push 2 (f x y) s'"
  shows "\<exists>s'. for_opt n (\<lambda>_. instr) s = Some s' \<and> streams_at 1 P0 P1 P2 (t + n) (w + n) s' \<and> sf_c s' = sf_c s
    \<and> sf_C s' = for_upto 0 n (\<lambda>k C. C(unat (a2 (w + k)) div 8 := f (A (a0 (t + k))) (B (a1 (t + k))))) (sf_C s)"
proof -
  define I where "I n u \<longleftrightarrow> streams_at 1 P0 P1 P2 (t + n) (w + n) u \<and> sf_c u = sf_c s
    \<and> sf_C u = for_upto 0 n (\<lambda>k C. C(unat (a2 (w + k)) div 8 := f (A (a0 (t + k))) (B (a1 (t + k))))) (sf_C s)" for n u
  have "\<exists>s'. for_opt n (\<lambda>_. instr) s = Some s' \<and> I n s'"
  proof (rule for_opt_invariant)
    show "I 0 s" using at by (simp add: I_def)
    fix k u assume k: "k < n" and u: "I k u"
    have u1: "streams_at 1 P0 P1 P2 (t + k) (w + k) u" "t + k < 1 * T" "w + k < W" using u k n by (simp_all add: I_def)
    from operands_at [OF this(1) e(1) _ this(2), of a1 A B] e(2)
    obtain u' where u': "stream_operands A B u = Some (A (a0 (t + k)), B (a1 (t + k)), u')"
      "streams_at 1 P0 P1 P2 (Suc (t + k)) (w + k) u'" "sf_c u' = sf_c u" "sf_C u' = sf_C u" by auto
    then have "P2 (w + k) (sf_gen u' 2)" by (simp add: streams_at_def)
    note E = emitsD [OF e(3) u1(3) this]
    show "\<exists>s'. instr u = Some s' \<and> I (Suc k) s'"
      using u u' E f [OF u'(1)] by (auto simp: stream_push_def Let_def I_def streams_at_def for_upto_Suc)
  qed
  then show ?thesis by (auto simp: I_def)
qed

subsection \<open>Eight columns at a time\<close>

text \<open>Each element of \<open>ft0\<close> meets eight elements of \<open>ft1\<close>.\<close>

abbreviation opt_at :: "(nat \<Rightarrow> addr_gen \<Rightarrow> bool) \<Rightarrow> (nat \<Rightarrow> addr_gen \<Rightarrow> bool) \<Rightarrow> (nat \<Rightarrow> addr_gen \<Rightarrow> bool)
    \<Rightarrow> nat \<Rightarrow> nat \<Rightarrow> 'a ssr_fp \<Rightarrow> bool" where
  "opt_at \<equiv> streams_at 8"

lemmas opt_at_cong = streams_at_cong

text \<open>A group of \<open>R\<close> instructions, one for each accumulator.\<close>

lemma accumulate_group:
  assumes at: "streams_at R P0 P1 P2 (R * q) w s" and e0: "emits P0 T a0" and e1: "emits P1 (R * T) a1" and q: "q < T"
    and f: "\<And>i s x y s'. stream_operands A B s = Some (x, y, s') \<Longrightarrow> instr i s = Some (s'\<lparr>sf_c := (sf_c s')(i := f x y (sf_c s' i))\<rparr>)"
  shows "\<exists>s'. for_opt R instr s = Some s' \<and> streams_at R P0 P1 P2 (R * Suc q) w s' \<and> sf_C s' = sf_C s
    \<and> (\<forall>i < R. sf_c s' i = f (A (a0 q)) (B (a1 (R * q + i))) (sf_c s i))"
proof -
  define I where "I n t \<longleftrightarrow> streams_at R P0 P1 P2 (R * q + n) w t \<and> sf_C t = sf_C s
    \<and> sf_c t = (\<lambda>i. if i < n then f (A (a0 q)) (B (a1 (R * q + i))) (sf_c s i) else sf_c s i)" for n t
  have "\<exists>s'. for_opt R instr s = Some s' \<and> I R s'"
  proof (rule for_opt_invariant)
    show "I 0 s" using at by (simp add: I_def)
    fix n t assume n: "n < R" and t: "I n t"
    have "Suc q * R \<le> T * R" using q by (intro mult_le_mono1) simp
    then have lt: "R * q + n < R * T" and d: "(R * q + n) div R = q" using n by (simp_all add: mult.commute)
    obtain t' where t': "stream_operands A B t = Some (A (a0 q), B (a1 (R * q + n)), t')"
        "streams_at R P0 P1 P2 (Suc (R * q + n)) w t'" "sf_c t' = sf_c t" "sf_C t' = sf_C t"
      using operands_at [OF _ e0 e1 lt, of P2 w t A B] t unfolding d I_def by blast
    show "\<exists>s'. instr n t = Some s' \<and> I (Suc n) s'"
      using t t' f [OF t'(1)] by (auto simp: I_def streams_at_cong fun_eq_iff less_Suc_eq)
  qed
  then show ?thesis by (auto simp: I_def add.commute [of R])
qed

lemma fmadd_group_at:
  assumes "streams_at R P0 P1 P2 (R * q) w s" and "emits P0 T a0" and "emits P1 (R * T) a1" and "q < T"
  shows "\<exists>s'. for_opt R (fmadd_c fma A B) s = Some s' \<and> streams_at R P0 P1 P2 (R * Suc q) w s' \<and> sf_C s' = sf_C s
    \<and> (\<forall>i < R. sf_c s' i = fma (A (a0 q)) (B (a1 (R * q + i))) (sf_c s i))"
  using accumulate_group [OF assms, where f = fma and instr = "fmadd_c fma A B" and A = A and B = B]
  by (simp add: fmadd_c_def)

text \<open>The hardware loop over \<open>k\<close>.\<close>

lemma fmadd_loop_group_at:
  assumes at: "streams_at R P0 P1 P2 (R * q) w s" and e: "emits P0 T a0" "emits P1 (R * T) a1" and q: "q + n \<le> T"
  shows "\<exists>s'. for_opt n (\<lambda>_. for_opt R (fmadd_c fma A B)) s = Some s' \<and> streams_at R P0 P1 P2 (R * (q + n)) w s' \<and> sf_C s' = sf_C s
    \<and> (\<forall>i < R. sf_c s' i = for_upto 0 n (\<lambda>k c. fma (A (a0 (q + k))) (B (a1 (R * (q + k) + i))) c) (sf_c s i))"
proof -
  define I where "I n t \<longleftrightarrow> streams_at R P0 P1 P2 (R * (q + n)) w t \<and> sf_C t = sf_C s
    \<and> (\<forall>i < R. sf_c t i = for_upto 0 n (\<lambda>k c. fma (A (a0 (q + k))) (B (a1 (R * (q + k) + i))) c) (sf_c s i))" for n t
  have "\<exists>s'. for_opt n (\<lambda>_. for_opt R (fmadd_c fma A B)) s = Some s' \<and> I n s'"
  proof (rule for_opt_invariant)
    show "I 0 s" using at by (simp add: I_def)
    fix k t assume k: "k < n" and t: "I k t"
    have "streams_at R P0 P1 P2 (R * (q + k)) w t" "q + k < T" using t k q by (simp_all add: I_def)
    from fmadd_group_at [OF this(1) e this(2), of fma A B]
    show "\<exists>s'. for_opt R (fmadd_c fma A B) t = Some s' \<and> I (Suc k) s'" using t by (auto simp: I_def for_upto_Suc)
  qed
  then show ?thesis by (auto simp: I_def)
qed

lemma fmul_8_at:
  assumes "opt_at P0 P1 P2 (8 * q) w s" and "emits P0 T a0" and "emits P1 (8 * T) a1" and "q < T"
  shows "\<exists>s'. fmul_8 A B s = Some s' \<and> opt_at P0 P1 P2 (8 * Suc q) w s' \<and> sf_C s' = sf_C s
    \<and> (\<forall>i < 8. sf_c s' i = A (a0 q) * B (a1 (8 * q + i)))"
  unfolding fmul_8_def using accumulate_group [OF assms, where f = "\<lambda>x y _. x * y" and instr = "fmul_c A B" and A = A and B = B]
  by (simp add: fmul_c_def)

lemma fmadd_8_at:
  assumes "opt_at P0 P1 P2 (8 * q) w s" and "emits P0 T a0" and "emits P1 (8 * T) a1" and "q < T"
  shows "\<exists>s'. fmadd_8 fma A B s = Some s' \<and> opt_at P0 P1 P2 (8 * Suc q) w s' \<and> sf_C s' = sf_C s
    \<and> (\<forall>i < 8. sf_c s' i = fma (A (a0 q)) (B (a1 (8 * q + i))) (sf_c s i))"
  unfolding fmadd_8_def by (rule fmadd_group_at [OF assms])

lemma fmadd_loop_at:
  assumes "opt_at P0 P1 P2 (8 * q) w s" and "emits P0 T a0" "emits P1 (8 * T) a1" and "q + n \<le> T"
  shows "\<exists>s'. for_opt n (\<lambda>_. fmadd_8 fma A B) s = Some s' \<and> opt_at P0 P1 P2 (8 * (q + n)) w s' \<and> sf_C s' = sf_C s
    \<and> (\<forall>i < 8. sf_c s' i = for_upto 0 n (\<lambda>k c. fma (A (a0 (q + k))) (B (a1 (8 * (q + k) + i))) c) (sf_c s i))"
  unfolding fmadd_8_def by (rule fmadd_loop_group_at [OF assms])

text \<open>The eight results leave through \<open>ft2\<close>.\<close>

lemma fmadd_ft2_8_at:
  assumes at: "opt_at P0 P1 P2 (8 * q) (8 * p) s" and e0: "emits P0 T a0" and e1: "emits P1 (8 * T) a1"
    and e2: "emits P2 (8 * W) a2" and q: "q < T" and p: "p < W"
  shows "\<exists>s'. fmadd_ft2_8 fma A B s = Some s' \<and> opt_at P0 P1 P2 (8 * Suc q) (8 * Suc p) s'
    \<and> sf_C s' = for_upto 0 8 (\<lambda>i C. C(unat (a2 (8 * p + i)) div 8 := fma (A (a0 q)) (B (a1 (8 * q + i))) (sf_c s i))) (sf_C s)"
proof -
  define I where "I n t \<longleftrightarrow> opt_at P0 P1 P2 (8 * q + n) (8 * p + n) t \<and> sf_c t = sf_c s
    \<and> sf_C t = for_upto 0 n (\<lambda>i C. C(unat (a2 (8 * p + i)) div 8 := fma (A (a0 q)) (B (a1 (8 * q + i))) (sf_c s i))) (sf_C s)" for n t
  have "\<exists>s'. for_opt 8 (fmadd_ft2 fma A B) s = Some s' \<and> I 8 s'"
  proof (rule for_opt_invariant)
    show "I 0 s" using at by (simp add: I_def)
    fix n t assume n: "n < 8" and t: "I n t"
    have lt: "8 * q + n < 8 * T" "8 * p + n < 8 * W" and d: "(8 * q + n) div 8 = q" using n q p by simp_all
    obtain t' where t': "stream_operands A B t = Some (A (a0 q), B (a1 (8 * q + n)), t')"
        "opt_at P0 P1 P2 (Suc (8 * q + n)) (8 * p + n) t'" "sf_c t' = sf_c t" "sf_C t' = sf_C t"
      using operands_at [OF _ e0 e1 lt(1), of P2 "8 * p + n" t A B] t unfolding d I_def by blast
    then have "P2 (8 * p + n) (sf_gen t' 2)" by (simp add: streams_at_def)
    note E = emitsD [OF e2 lt(2) this]
    show "\<exists>s'. fmadd_ft2 fma A B n t = Some s' \<and> I (Suc n) s'"
      using t t' E by (auto simp: fmadd_ft2_def stream_push_def Let_def I_def streams_at_def for_upto_Suc)
  qed
  then show ?thesis unfolding fmadd_ft2_8_def by (auto simp: I_def add.commute [of 8])
qed

subsection \<open>Generators at their start\<close>

lemma ag_extent_eq: "ag_bound g i = b - 1 \<Longrightarrow> b \<noteq> 0 \<Longrightarrow> i \<le> ag_dims g \<Longrightarrow> ag_extent g i = unat b"
proof -
  assume a: "ag_bound g i = b - 1" "b \<noteq> 0" "i \<le> ag_dims g"
  then have "0 < unat b" by (simp add: unat_gt_0)
  then have "unat (b - 1) + 1 = unat b" by (subst unat_sub_no_ovf) simp_all
  then show ?thesis using a by (simp add: ag_extent_def)
qed

lemma digits_of:
  assumes "i0 < B 0" and "i1 < B 1" and "i2 < B 2" and "i3 < B 3"
  shows "digit B (((i3 * B 2 + i2) * B 1 + i1) * B 0 + i0) 0 = i0" and "digit B (((i3 * B 2 + i2) * B 1 + i1) * B 0 + i0) 1 = i1"
    and "digit B (((i3 * B 2 + i2) * B 1 + i1) * B 0 + i0) 2 = i2" and "digit B (((i3 * B 2 + i2) * B 1 + i1) * B 0 + i0) 3 = i3"
  using assms by (simp_all add: digit_def eval_nat_numeral div_mult2_eq)

text \<open>A stream of a generator that is at its start.\<close>

lemma start_stream:
  assumes "\<not> ag_done g" and "ag_index g = (\<lambda>_. 0)" and "strides_for \<sigma> g" and "T \<le> (\<Prod>j < 4. ag_extent g j)"
  shows "stream_at (ag_extent g) \<sigma> (ag_pointer g) T 0 g"
    and "emits (stream_at (ag_extent g) \<sigma> (ag_pointer g) T) T (affine_addr (ag_extent g) \<sigma> (ag_pointer g))"
  using assms emits_stream by (auto intro: stream_at_start)

lemma prod_4: "(\<Prod>j < (4 :: nat). B j) = B 0 * B 1 * B 2 * (B 3 :: nat)"
  by (simp add: eval_nat_numeral)

lemma lt_4_all: "(\<forall>i < 4. P i) \<longleftrightarrow> P 0 \<and> P 1 \<and> P 2 \<and> P (3 :: nat)"
  using four_cases by auto

lemma elem_addr: "i < y \<Longrightarrow> 8 * y \<le> 2 ^ 32 \<Longrightarrow> p = of_nat (8 * i) \<Longrightarrow> unat (p :: u32) div 8 = i"
  by (simp add: unat_of_nat_small del: of_nat_mult)

text \<open>A stream over one loop.\<close>

lemma stream_1d:
  assumes "\<not> ag_done g" and "ag_index g = (\<lambda>_. 0)" and "ag_dims g = 0" and "ag_bound g 0 = b - 1" and "b \<noteq> 0"
    and "ag_stride g 0 = st AND NOT 7" and "8 dvd st"
  shows "\<exists>P a. P 0 g \<and> emits P (unat b) a \<and> (\<forall>i < unat b. a i = ag_pointer g + of_nat i * st)"
proof -
  let ?E = "ag_extent g" and ?\<sigma> = "\<lambda>_ :: nat. st"
  have E: "?E 0 = unat b" "?E 1 = 1" "?E 2 = 1" "?E 3 = 1"
    using assms(3-5) by (auto intro: ag_extent_eq) (simp_all add: ag_extent_def)
  have "strides_for ?\<sigma> g" using assms(3,6) and_not_7 [OF assms(7)] by (simp add: strides_for_def)
  note S = start_stream [OF assms(1,2) this, of "unat b", unfolded prod_4 E, simplified]
  have "affine_addr ?E ?\<sigma> (ag_pointer g) i = ag_pointer g + of_nat i * st" if "i < unat b" for i
    using digits_of [of i ?E 0 0 0, unfolded E] that by (simp add: affine_addr_def)
  then show ?thesis using S by auto
qed

text \<open>Streams over two, three and four loops, innermost first.\<close>

lemma stream_2d:
  assumes "\<not> ag_done g" and "ag_index g = (\<lambda>_. 0)" and "ag_dims g = 1"
    and "ag_bound g 0 = b0 - 1" "ag_bound g 1 = b1 - 1" and "b0 \<noteq> 0" "b1 \<noteq> 0"
    and "ag_stride g 0 = st0 AND NOT 7" "ag_stride g 1 = (st1 - st0 * (b0 - 1)) AND NOT 7" and "8 dvd st0" "8 dvd st1"
  shows "\<exists>P a. P 0 g \<and> emits P (unat b1 * unat b0) a
    \<and> (\<forall>i1 < unat b1. \<forall>i0 < unat b0. a (i1 * unat b0 + i0) = ag_pointer g + of_nat i0 * st0 + of_nat i1 * st1)"
proof -
  let ?E = "ag_extent g" and ?\<sigma> = "\<lambda>i :: nat. [st0, st1] ! i"
  have E: "?E 0 = unat b0" "?E 1 = unat b1" "?E 2 = 1" "?E 3 = 1"
    using assms(3-7) by (auto intro: ag_extent_eq) (simp_all add: ag_extent_def)
  have "8 dvd st1 - st0 * (b0 - 1)" using assms(10,11) by (intro dvd_diff dvd_mult2)
  then have "strides_for ?\<sigma> g" using assms(3,4,8,9) and_not_7 [OF assms(10)] and_not_7
    unfolding strides_for_def lt_4_all by (simp add: eval_nat_numeral)
  note S = start_stream [OF assms(1,2) this, of "unat b1 * unat b0", unfolded prod_4 E, simplified]
  have "affine_addr ?E ?\<sigma> (ag_pointer g) (i1 * unat b0 + i0) = ag_pointer g + of_nat i0 * st0 + of_nat i1 * st1"
    if "i1 < unat b1" "i0 < unat b0" for i0 i1
    using digits_of [of i0 ?E i1 0 0, unfolded E] that by (simp add: affine_addr_def)
  then show ?thesis using S by (auto simp: mult.commute)
qed

lemma stream_3d:
  assumes "\<not> ag_done g" and "ag_index g = (\<lambda>_. 0)" and "2 \<le> ag_dims g"
    and "ag_bound g 0 = b0 - 1" "ag_bound g 1 = b1 - 1" "ag_bound g 2 = b2 - 1" and "b0 \<noteq> 0" "b1 \<noteq> 0" "b2 \<noteq> 0"
    and "ag_stride g 0 = st0 AND NOT 7" "ag_stride g 1 = (st1 - st0 * (b0 - 1)) AND NOT 7"
    and "ag_stride g 2 = (st2 - (st0 * (b0 - 1) + st1 * (b1 - 1))) AND NOT 7" and "8 dvd st0" "8 dvd st1" "8 dvd st2"
  shows "\<exists>P a. P 0 g \<and> emits P (unat b2 * unat b1 * unat b0) a
    \<and> (\<forall>i2 < unat b2. \<forall>i1 < unat b1. \<forall>i0 < unat b0. a ((i2 * unat b1 + i1) * unat b0 + i0)
        = ag_pointer g + of_nat i0 * st0 + of_nat i1 * st1 + of_nat i2 * st2)"
proof -
  let ?E = "ag_extent g" and ?\<sigma> = "\<lambda>i :: nat. if i = 3 then ag_stride g 3 + (st0 * (b0 - 1) + st1 * (b1 - 1) + st2 * (b2 - 1)) else [st0, st1, st2] ! i"
  have E: "?E 0 = unat b0" "?E 1 = unat b1" "?E 2 = unat b2" "0 < ?E 3"
    using assms(3-9) by (auto intro: ag_extent_eq) (simp_all add: ag_extent_def)
  have "8 dvd st1 - st0 * (b0 - 1)" "8 dvd st2 - (st0 * (b0 - 1) + st1 * (b1 - 1))"
    using assms(13-15) by (auto intro!: dvd_diff dvd_mult2 dvd_add)
  then have "strides_for ?\<sigma> g" using assms(4-6,10-12) and_not_7 [OF assms(13)] and_not_7
    unfolding strides_for_def lt_4_all by (simp add: eval_nat_numeral)
  note S = start_stream [OF assms(1,2) this, of "unat b2 * unat b1 * unat b0", unfolded prod_4 E]
  have "affine_addr ?E ?\<sigma> (ag_pointer g) ((i2 * unat b1 + i1) * unat b0 + i0)
      = ag_pointer g + of_nat i0 * st0 + of_nat i1 * st1 + of_nat i2 * st2"
    if "i2 < unat b2" "i1 < unat b1" "i0 < unat b0" for i0 i1 i2
    using digits_of [of i0 ?E i1 i2 0, unfolded E] E(4) that by (simp add: affine_addr_def)
  moreover have "unat b2 * unat b1 * unat b0 \<le> unat b0 * unat b1 * unat b2 * ?E 3" using E(4) by (simp add: mult.commute mult.left_commute)
  ultimately show ?thesis using S by blast
qed

lemma stream_4d:
  assumes "\<not> ag_done g" and "ag_index g = (\<lambda>_. 0)" and "ag_dims g = 3"
    and "ag_bound g 0 = b0 - 1" "ag_bound g 1 = b1 - 1" "ag_bound g 2 = b2 - 1" "ag_bound g 3 = b3 - 1"
    and "b0 \<noteq> 0" "b1 \<noteq> 0" "b2 \<noteq> 0" "b3 \<noteq> 0"
    and "ag_stride g 0 = st0 AND NOT 7" "ag_stride g 1 = (st1 - st0 * (b0 - 1)) AND NOT 7"
    and "ag_stride g 2 = (st2 - (st0 * (b0 - 1) + st1 * (b1 - 1))) AND NOT 7"
    and "ag_stride g 3 = (st3 - (st0 * (b0 - 1) + st1 * (b1 - 1) + st2 * (b2 - 1))) AND NOT 7"
    and "8 dvd st0" "8 dvd st1" "8 dvd st2" "8 dvd st3"
  shows "\<exists>P a. P 0 g \<and> emits P (unat b3 * unat b2 * unat b1 * unat b0) a
    \<and> (\<forall>i3 < unat b3. \<forall>i2 < unat b2. \<forall>i1 < unat b1. \<forall>i0 < unat b0. a (((i3 * unat b2 + i2) * unat b1 + i1) * unat b0 + i0)
        = ag_pointer g + of_nat i0 * st0 + of_nat i1 * st1 + of_nat i2 * st2 + of_nat i3 * st3)"
proof -
  let ?E = "ag_extent g" and ?\<sigma> = "\<lambda>i :: nat. [st0, st1, st2, st3] ! i"
  have E: "?E 0 = unat b0" "?E 1 = unat b1" "?E 2 = unat b2" "?E 3 = unat b3"
    using assms(3-11) by (auto intro: ag_extent_eq)
  have "8 dvd st1 - st0 * (b0 - 1)" "8 dvd st2 - (st0 * (b0 - 1) + st1 * (b1 - 1))"
    "8 dvd st3 - (st0 * (b0 - 1) + st1 * (b1 - 1) + st2 * (b2 - 1))"
    using assms(16-19) by (auto intro!: dvd_diff dvd_mult2 dvd_add)
  then have "strides_for ?\<sigma> g" using assms(4-7,12-15) and_not_7 [OF assms(16)] and_not_7
    unfolding strides_for_def lt_4_all by (simp add: eval_nat_numeral)
  note S = start_stream [OF assms(1,2) this, of "unat b3 * unat b2 * unat b1 * unat b0", unfolded prod_4 E]
  have "affine_addr ?E ?\<sigma> (ag_pointer g) (((i3 * unat b2 + i2) * unat b1 + i1) * unat b0 + i0)
      = ag_pointer g + of_nat i0 * st0 + of_nat i1 * st1 + of_nat i2 * st2 + of_nat i3 * st3"
    if "i3 < unat b3" "i2 < unat b2" "i1 < unat b1" "i0 < unat b0" for i0 i1 i2 i3
    using digits_of [of i0 ?E i1 i2 i3, unfolded E] that by (simp add: affine_addr_def eval_nat_numeral)
  moreover have "unat b3 * unat b2 * unat b1 * unat b0 \<le> unat b0 * unat b1 * unat b2 * unat b3" by (simp add: mult.commute mult.left_commute)
  ultimately show ?thesis using S by blast
qed

end
