(* ===== verification/Gemm_Kernel.thy ===== *)
theory Gemm_Kernel
  imports Snitch_Prelude
begin

text \<open>
  Matrix multiplication inside a cluster (\<open>sw/kernels/blas/blas.h\<close>,
  \<open>gemm/src/gemm_fp64.h\<close>: \<open>gemm_fp64_naive\<close>; \<open>gemm/src/gemm.h\<close>: \<open>sc_st_gemm\<close>).

  A matrix is a function from element indices to values, a pointer into it the index of an
  element. The element type and its operations are arbitrary: no law of arithmetic is used, so
  the results hold for floating point numbers, rounding included. \<open>dbl\<close> is the conversion of an
  unsigned integer. Sizes and indices are naturals; the matrices lie in the address space, so
  the index arithmetic of the code does not wrap.
\<close>

subsection \<open>The naive kernel\<close>

definition multiply_opt :: "'a::{times,zero} \<Rightarrow> 'a \<Rightarrow> 'a" where
  "multiply_opt multiplicand multiplier = (if multiplier \<noteq> 0 then multiplicand * multiplier else 0)"

text \<open>The width of the memory banks, in elements (\<open>lw\<close> per line of a buffer, \<open>hw\<close> per hyperbank).\<close>

record bank_layout =
  lw :: nat
  hw :: nat

definition pb_idx :: "bank_layout \<Rightarrow> nat \<Rightarrow> nat \<Rightarrow> nat \<Rightarrow> nat" where
  "pb_idx bl r ld j = r * ld + j div lw bl * hw bl + j mod lw bl"

type_synonym 'a gemm_fp =
  "bool \<Rightarrow> bool \<Rightarrow> bool \<Rightarrow> nat \<Rightarrow> nat \<Rightarrow> nat \<Rightarrow> (nat \<Rightarrow> 'a) \<Rightarrow> nat \<Rightarrow> nat \<Rightarrow> (nat \<Rightarrow> 'a) \<Rightarrow> nat \<Rightarrow> nat
    \<Rightarrow> nat \<Rightarrow> (nat \<Rightarrow> 'a) \<Rightarrow> nat \<Rightarrow> nat \<Rightarrow> (nat \<Rightarrow> 'a)"

definition naive_loops ::
  "(nat \<Rightarrow> 'a::{times,zero,plus}) \<Rightarrow> nat \<Rightarrow> nat \<Rightarrow> nat \<Rightarrow> (nat \<Rightarrow> nat \<Rightarrow> nat) \<Rightarrow> (nat \<Rightarrow> nat \<Rightarrow> nat \<Rightarrow> 'a)
    \<Rightarrow> nat \<Rightarrow> (nat \<Rightarrow> 'a) \<Rightarrow> (nat \<Rightarrow> 'a)" where
  "naive_loops dbl M N K c_idx ab beta C =
     for_upto 0 M (\<lambda>m C. for_upto 0 N (\<lambda>n C.
       (let c0 = multiply_opt (C (c_idx m n)) (dbl beta);
            c0 = for_upto 0 K (\<lambda>k c0. c0 + ab m n k) c0
        in C(c_idx m n := c0))) C) C"

definition gemm_fp64_naive :: "(nat \<Rightarrow> 'a::{times,zero,plus}) \<Rightarrow> bank_layout \<Rightarrow> 'a gemm_fp" where
  "gemm_fp64_naive dbl bl partition_banks transa transb M N K A a lda B b ldb beta C c ldc =
     (if \<not> transa \<and> \<not> transb then
        naive_loops dbl M N K
          (\<lambda>m n. c + (if partition_banks then pb_idx bl m ldc n else m * ldc + n))
          (\<lambda>m n k. A (a + (if partition_banks then pb_idx bl m lda k else m * lda + k))
            * B (b + (if partition_banks then pb_idx bl k ldb n else k * ldb + n))) beta C
      else if transa \<and> \<not> transb then
        naive_loops dbl M N K (\<lambda>m n. c + (m * ldc + n))
          (\<lambda>m n k. A (a + (k * M * lda + m * lda)) * B (b + (k * ldb + n))) beta C
      else if \<not> transa \<and> transb then
        naive_loops dbl M N K (\<lambda>m n. c + (m * ldc + n))
          (\<lambda>m n k. A (a + (m * lda + k)) * B (b + (n * ldb + k))) beta C
      else
        naive_loops dbl M N K (\<lambda>m n. c + (m * ldc + n))
          (\<lambda>m n k. A (a + (k * M * lda + m * lda)) * B (b + (k + n * ldb))) beta C)"

subsection \<open>The cores of a cluster\<close>

definition sc_st_gemm :: "'a gemm_fp \<Rightarrow> nat \<Rightarrow> nat \<Rightarrow> 'a gemm_fp" where
  "sc_st_gemm fp core_num core_idx partition_banks transa transb m n k A a lda B b ldb beta C c ldc =
     (let frac_m = m div core_num;
          rem_m = m mod core_num;
          frac_m = (if core_idx < rem_m then frac_m + 1 else frac_m)
      in if 0 < frac_m then
           fp partition_banks transa transb frac_m n k A (a + core_idx * lda) (core_num * lda) B b ldb beta
             C (c + core_idx * ldc) (core_num * ldc)
         else C)"

text \<open>All compute cores, in the order of the list.\<close>

definition sc_st_gemm_cores :: "'a gemm_fp \<Rightarrow> nat \<Rightarrow> nat list \<Rightarrow> 'a gemm_fp" where
  "sc_st_gemm_cores fp core_num cores partition_banks transa transb m n k A a lda B b ldb beta C c ldc =
     fold (\<lambda>co C. sc_st_gemm fp core_num co partition_banks transa transb m n k A a lda B b ldb beta C c ldc) cores C"

subsection \<open>What a kernel computes\<close>

text \<open>
  The element of row \<open>m\<close> and column \<open>n\<close> of \<open>beta * C + A * B\<close>, accumulated in the order of \<open>k\<close>;
  \<open>x\<close> is the old value. The specification of the whole product changes no other element.
\<close>

definition gemm_cell :: "(nat \<Rightarrow> 'a::{times,zero,plus}) \<Rightarrow> bool \<Rightarrow> nat \<Rightarrow> (nat \<Rightarrow> 'a) \<Rightarrow> nat \<Rightarrow> nat \<Rightarrow> (nat \<Rightarrow> 'a)
    \<Rightarrow> nat \<Rightarrow> nat \<Rightarrow> nat \<Rightarrow> 'a \<Rightarrow> nat \<Rightarrow> nat \<Rightarrow> 'a" where
  "gemm_cell dbl transb K A a lda B b ldb beta x m n =
     for_upto 0 K (\<lambda>k c0. c0 + A (a + (m * lda + k)) * B (b + (if transb then n * ldb + k else k * ldb + n)))
       (multiply_opt x (dbl beta))"

definition gemm_spec :: "(nat \<Rightarrow> 'a::{times,zero,plus}) \<Rightarrow> bool \<Rightarrow> nat \<Rightarrow> nat \<Rightarrow> nat \<Rightarrow> (nat \<Rightarrow> 'a) \<Rightarrow> nat \<Rightarrow> nat
    \<Rightarrow> (nat \<Rightarrow> 'a) \<Rightarrow> nat \<Rightarrow> nat \<Rightarrow> nat \<Rightarrow> (nat \<Rightarrow> 'a) \<Rightarrow> nat \<Rightarrow> nat \<Rightarrow> (nat \<Rightarrow> 'a)" where
  "gemm_spec dbl transb M N K A a lda B b ldb beta C c ldc = (\<lambda>i.
     if c \<le> i \<and> (i - c) div ldc < M \<and> (i - c) mod ldc < N
     then gemm_cell dbl transb K A a lda B b ldb beta (C i) ((i - c) div ldc) ((i - c) mod ldc) else C i)"

text \<open>The loops, one element each.\<close>

lemma naive_inner:
  assumes "n \<le> N" and "N \<le> ldc" and "0 < ldc"
  shows "for_upto 0 n (\<lambda>n C. C(c + (m * ldc + n) := f n (C (c + (m * ldc + n))))) C i
    = (if c \<le> i \<and> (i - c) div ldc = m \<and> (i - c) mod ldc < n then f ((i - c) mod ldc) (C i) else C i)"
  using assms(1)
proof (induction n)
  case (Suc n)
  have p: "(m * ldc + n) div ldc = m" "(m * ldc + n) mod ldc = n"
    using Suc.prems assms(2) div_mod_position [of n ldc m] by simp_all
  show ?case
  proof (cases "i = c + (m * ldc + n)")
    case True
    then show ?thesis using Suc p by (simp add: for_upto_Suc)
  next
    case False
    have "\<not> (c \<le> i \<and> (i - c) div ldc = m \<and> (i - c) mod ldc = n)"
      using False mult_div_mod_eq [of ldc "i - c"] by (auto simp: mult.commute)
    then show ?thesis using Suc False by (auto simp: for_upto_Suc less_Suc_eq)
  qed
qed simp

lemma naive_loops_eq:
  assumes "N \<le> ldc" and "0 < ldc"
  shows "naive_loops dbl M N K (\<lambda>m n. c + (m * ldc + n)) ab beta C i
    = (if c \<le> i \<and> (i - c) div ldc < M \<and> (i - c) mod ldc < N
       then for_upto 0 K (\<lambda>k c0. c0 + ab ((i - c) div ldc) ((i - c) mod ldc) k) (multiply_opt (C i) (dbl beta)) else C i)"
proof -
  let ?f = "\<lambda>m n x. for_upto 0 K (\<lambda>k c0. c0 + ab m n k) (multiply_opt x (dbl beta))"
  define G where "G m = for_upto 0 N (\<lambda>n C. C(c + (m * ldc + n) := ?f m n (C (c + (m * ldc + n)))))" for m
  have I: "G m C i = (if c \<le> i \<and> (i - c) div ldc = m \<and> (i - c) mod ldc < N then ?f m ((i - c) mod ldc) (C i) else C i)" for m C
    unfolding G_def by (rule naive_inner [OF order.refl assms])
  have "for_upto 0 m G C i
      = (if c \<le> i \<and> (i - c) div ldc < m \<and> (i - c) mod ldc < N then ?f ((i - c) div ldc) ((i - c) mod ldc) (C i) else C i)" for m
    by (induction m) (auto simp: for_upto_Suc I less_Suc_eq)
  then show ?thesis by (simp only: naive_loops_def Let_def G_def [abs_def])
qed

subsection \<open>The contract of a kernel\<close>

text \<open>
  What \<open>sc_st_gemm\<close> and the tiled product rely on, whatever kernel the function pointer names. A
  kernel may restrict the sizes (\<open>dims N K beta\<close>) and the addresses it can form: \<open>fits x\<close> says that
  the elements below index \<open>x\<close> can be addressed.
\<close>

definition in_space :: "(nat \<Rightarrow> bool) \<Rightarrow> bool \<Rightarrow> nat \<Rightarrow> nat \<Rightarrow> nat \<Rightarrow> nat \<Rightarrow> nat \<Rightarrow> nat \<Rightarrow> nat \<Rightarrow> nat \<Rightarrow> nat \<Rightarrow> bool" where
  "in_space fits transb M N K a lda b ldb c ldc \<longleftrightarrow> fits (a + (M - 1) * lda + K)
     \<and> fits (b + (if transb then (N - 1) * ldb + K else (K - 1) * ldb + N)) \<and> fits (c + (M - 1) * ldc + N)"

locale gemm_kernel =
  fixes fp :: "'a::{times,zero,plus} gemm_fp" and dbl :: "nat \<Rightarrow> 'a"
    and dims :: "nat \<Rightarrow> nat \<Rightarrow> nat \<Rightarrow> bool" and fits :: "nat \<Rightarrow> bool"
  assumes fits_mono: "fits y \<Longrightarrow> x \<le> y \<Longrightarrow> fits x"
    and kernel_spec: "\<And>transb M N K A a lda B b ldb beta C c ldc. N \<le> ldc \<Longrightarrow> 0 < ldc \<Longrightarrow> 0 < M \<Longrightarrow> dims N K beta \<Longrightarrow>
      in_space fits transb M N K a lda b ldb c ldc \<Longrightarrow>
      fp False False transb M N K A a lda B b ldb beta C c ldc = gemm_spec dbl transb M N K A a lda B b ldb beta C c ldc"
begin

text \<open>The rows of core \<open>co\<close>: every \<open>core_num\<close>-th one, from row \<open>co\<close> on.\<close>

lemma core_rows:
  assumes "N \<le> ldc" and "0 < ldc" and "co < core_num"
    and d: "dims N K beta" and sp: "in_space fits transb M N K a lda b ldb c ldc"
  shows "sc_st_gemm fp core_num co False False transb M N K A a lda B b ldb beta C c ldc i
    = (if c \<le> i \<and> (i - c) div ldc < M \<and> (i - c) div ldc mod core_num = co \<and> (i - c) mod ldc < N
       then gemm_cell dbl transb K A a lda B b ldb beta (C i) ((i - c) div ldc) ((i - c) mod ldc) else C i)"
proof -
  define F where "F = (if co < M mod core_num then M div core_num + 1 else M div core_num)"
  have F: "r < F \<longleftrightarrow> co + core_num * r < M" for r
  proof -
    have M: "M = core_num * (M div core_num) + M mod core_num" by simp
    have "co + core_num * r < core_num * q + s \<longleftrightarrow> r < (if co < s then q + 1 else q)" if "s < core_num" for q s
    proof -
      consider "r < q" | "r = q" | "q < r" by linarith
      then show ?thesis
      proof cases
        case 1
        then have "core_num * Suc r \<le> core_num * q" by (intro mult_le_mono2) simp
        then show ?thesis using 1 assms(3) by simp
      next
        case 3
        then have "core_num * Suc q \<le> core_num * r" by (intro mult_le_mono2) simp
        then show ?thesis using 3 that by simp
      qed simp
    qed
    from this [of "M mod core_num" "M div core_num"] show ?thesis using M assms(3) by (simp add: F_def)
  qed
  have N: "N \<le> core_num * ldc" "0 < core_num * ldc" using assms by (auto intro: order_trans [OF assms(1)])
  have e: "sc_st_gemm fp core_num co False False transb M N K A a lda B b ldb beta C c ldc
    = gemm_spec dbl transb F N K A (a + co * lda) (core_num * lda) B b ldb beta C (c + co * ldc) (core_num * ldc)"
  proof (cases "0 < F")
    case True
    have "co + core_num * (F - 1) < M" using F [of "F - 1"] True by simp
    then have "co + core_num * (F - 1) \<le> M - 1" by simp
    then have "(co + core_num * (F - 1)) * l \<le> (M - 1) * l" for l by (rule mult_le_mono1)
    moreover have "co * l + q * (core_num * l) = (co + core_num * q) * l" for l q by (simp add: algebra_simps)
    ultimately have le: "co * l + (F - 1) * (core_num * l) \<le> (M - 1) * l" for l by (simp only:)
    have "in_space fits transb F N K (a + co * lda) (core_num * lda) b ldb (c + co * ldc) (core_num * ldc)"
      using sp fits_mono [of "a + (M - 1) * lda + K" "a + co * lda + (F - 1) * (core_num * lda) + K"] le [of lda]
        fits_mono [of "c + (M - 1) * ldc + N" "c + co * ldc + (F - 1) * (core_num * ldc) + N"] le [of ldc]
      by (simp add: in_space_def)
    from kernel_spec [OF N True d this] show ?thesis using True by (simp add: sc_st_gemm_def Let_def F_def)
  qed (simp add: sc_st_gemm_def Let_def F_def gemm_spec_def)
  show ?thesis
  proof (cases "c + co * ldc \<le> i")
    case False
    then have "\<not> (c \<le> i \<and> co \<le> (i - c) div ldc)"
      using assms(2) by (auto simp: less_eq_div_iff_mult_less_eq)
    then have "\<not> (c \<le> i \<and> (i - c) div ldc mod core_num = co)"
      using mod_less_eq_dividend [of "(i - c) div ldc" core_num] by auto
    then show ?thesis using False by (auto simp: e gemm_spec_def)
  next
    case True
    define R where "R = (i - c) div ldc"
    define n where "n = (i - c) mod ldc"
    have R: "co \<le> R" using True assms(2) by (simp add: R_def less_eq_div_iff_mult_less_eq)
    have n: "n < ldc" using assms(2) by (simp add: n_def)
    have "i - c = R * ldc + n" by (simp add: R_def n_def)
    then have "i - (c + co * ldc) = (R - co) * ldc + n"
      using True mult_le_mono1 [OF R, of ldc] unfolding diff_mult_distrib by linarith
    then have d: "(i - (c + co * ldc)) div (core_num * ldc) = (R - co) div core_num"
      "(i - (c + co * ldc)) mod (core_num * ldc) = (R - co) mod core_num * ldc + n"
      using n by (simp_all add: div_mult2_eq mult.commute [of core_num] mod_mult2_eq)
    show ?thesis
    proof (cases "R mod core_num = co")
      case True
      then obtain r where r: "R = co + core_num * r" using R by (metis mod_mult_div_eq)
      have "(R - co) div core_num = r" "(R - co) mod core_num = 0" using assms(3) by (simp_all add: r)
      then show ?thesis using \<open>c + co * ldc \<le> i\<close> F [of r] assms(3)
        by (simp add: e gemm_spec_def d r gemm_cell_def algebra_simps flip: R_def n_def)
    next
      case False
      have "(R - co) mod core_num \<noteq> 0"
      proof
        assume "(R - co) mod core_num = 0"
        then obtain q where "R - co = core_num * q" by auto
        then have "R = co + core_num * q" using R by simp
        then show False using False assms(3) by simp
      qed
      then have "ldc \<le> (R - co) mod core_num * ldc + n" by (cases "(R - co) mod core_num") simp_all
      then show ?thesis using False assms(1) by (simp add: e gemm_spec_def d flip: R_def n_def)
    qed
  qed
qed

lemma all_cores:
  assumes "N \<le> ldc" and "0 < ldc" and "distinct cores" and "set cores = {..<core_num}" and "0 < core_num"
    and d: "dims N K beta" and sp: "in_space fits transb M N K a lda b ldb c ldc"
  shows "sc_st_gemm_cores fp core_num cores False False transb M N K A a lda B b ldb beta C c ldc
    = gemm_spec dbl transb M N K A a lda B b ldb beta C c ldc"
proof (rule ext)
  fix i
  let ?R = "(i - c) div ldc" and ?n = "(i - c) mod ldc"
  let ?f = "\<lambda>co C. sc_st_gemm fp core_num co False False transb M N K A a lda B b ldb beta C c ldc"
  have "set cores \<subseteq> {..<core_num} \<Longrightarrow> distinct cores \<Longrightarrow> fold ?f cores C i
      = (if c \<le> i \<and> ?R < M \<and> ?R mod core_num \<in> set cores \<and> ?n < N
         then gemm_cell dbl transb K A a lda B b ldb beta (C i) ?R ?n else C i)" for C
  proof (induction cores arbitrary: C)
    case (Cons co cores)
    then have "co < core_num" by simp
    note r = core_rows [OF assms(1,2) this d sp]
    show ?case using Cons by (auto simp: r)
  qed simp
  then show "sc_st_gemm_cores fp core_num cores False False transb M N K A a lda B b ldb beta C c ldc i
    = gemm_spec dbl transb M N K A a lda B b ldb beta C c ldc i"
    using assms(3-5) by (auto simp: sc_st_gemm_cores_def gemm_spec_def)
qed

end

text \<open>The naive kernel takes all sizes.\<close>

lemma gemm_fp64_naive_spec:
  assumes "N \<le> ldc" and "0 < ldc"
  shows "gemm_fp64_naive dbl bl False False transb M N K A a lda B b ldb beta C c ldc
    = gemm_spec dbl transb M N K A a lda B b ldb beta C c ldc"
  by (rule ext) (simp add: gemm_fp64_naive_def naive_loops_eq [OF assms] gemm_spec_def gemm_cell_def)

interpretation naive: gemm_kernel "gemm_fp64_naive dbl bl" dbl "\<lambda>_ _ _. True" "\<lambda>_. True"
  for dbl :: "nat \<Rightarrow> 'a::{times,zero,plus}" and bl
  by unfold_locales (simp_all add: gemm_fp64_naive_spec)

end
