(* ===== verification/Double_Buffer.thy ===== *)
theory Double_Buffer
  imports Snitch_Prelude
begin

text \<open>
  The loops that the kernels share: the loop of a core over every \<open>stride\<close>-th row, and the
  double-buffered loop of a job over its tiles (\<open>axpy_job\<close>, \<open>syrk_job\<close>, \<open>covariance_job\<close>): in
  iteration \<open>i\<close> the data mover core loads tile \<open>i\<close> and stores tile \<open>i - 2\<close> while the compute cores
  work on tile \<open>i - 1\<close>, with a barrier after each iteration.

  The interface says what a kernel's buffers must satisfy for the loop to process all tiles,
  whatever the interleaving within an iteration.
\<close>

subsection \<open>Strided loops\<close>

text \<open>\<open>for (i = lo; i < hi; i += step)\<close>; the step is a number of cores, never zero.\<close>

function for_step :: "nat \<Rightarrow> nat \<Rightarrow> nat \<Rightarrow> (nat \<Rightarrow> 's \<Rightarrow> 's) \<Rightarrow> 's \<Rightarrow> 's" where
  "for_step lo step hi f s = (if lo < hi \<and> 0 < step then for_step (lo + step) step hi f (f lo s) else s)"
  by pat_completeness auto
termination
  by (relation "measure (\<lambda>(lo, step, hi, f, s). hi - lo)") auto

declare for_step.simps [simp del]

lemma strided_next:
  fixes lo x step :: nat
  assumes "0 < step" and "lo \<noteq> x"
  shows "lo \<le> x \<and> (x - lo) mod step = 0 \<longleftrightarrow> lo + step \<le> x \<and> (x - (lo + step)) mod step = 0"
proof (cases "lo + step \<le> x")
  case True
  then have "x - lo = (x - (lo + step)) + step" by simp
  then have "(x - lo) mod step = (x - (lo + step)) mod step" by (simp only: mod_add_self2)
  then show ?thesis using True by simp
next
  case False
  then have "(x - lo) mod step = x - lo" if "lo \<le> x" using that by simp
  then show ?thesis using False assms(2) by auto
qed

text \<open>
  A loop whose iteration \<open>i\<close> changes only the elements that belong to it (\<open>own x = i\<close>), each to a value
  that depends on the elements of the iteration.
\<close>

lemma for_step_own:
  fixes z :: "nat \<Rightarrow> 'a"
  assumes step: "0 < step" and f: "\<And>i z x. i < hi \<Longrightarrow> f i z x = (if P x \<and> own x = i then g x z else z x)"
    and g: "\<And>x z z'. P x \<Longrightarrow> (\<And>y. own y = own x \<Longrightarrow> z y = z' y) \<Longrightarrow> g x z = g x z'"
  shows "for_step lo step hi f z x
    = (if P x \<and> own x < hi \<and> lo \<le> own x \<and> (own x - lo) mod step = 0 then g x z else z x)"
proof (induction "hi - lo" arbitrary: lo z rule: less_induct)
  case less
  show ?case
  proof (cases "lo < hi")
    case True
    have e: "for_step lo step hi f z = for_step (lo + step) step hi f (f lo z)"
      using True step by (simp add: for_step.simps [of lo])
    have IH: "for_step (lo + step) step hi f (f lo z) x = (if P x \<and> own x < hi \<and> lo + step \<le> own x \<and> (own x - (lo + step)) mod step = 0
        then g x (f lo z) else f lo z x)"
      by (rule less) (use True step in simp)
    have "g x (f lo z) = g x z" if "P x" "own x \<noteq> lo" by (rule g) (use that in \<open>simp_all add: f [OF True]\<close>)
    then show ?thesis unfolding e IH using f [OF True, of z x] strided_next [OF step, of lo "own x"] step True by auto
  qed (auto simp: for_step.simps [of lo])
qed

lemma for_step_at:
  fixes z :: "nat \<Rightarrow> 'a"
  assumes step: "0 < step" and f: "\<And>i z x. i < hi \<Longrightarrow> f i z x = (if P x \<and> own x = i then g x (z x) else z x)"
  shows "for_step lo step hi f z x
    = (if P x \<and> own x < hi \<and> lo \<le> own x \<and> (own x - lo) mod step = 0 then g x (z x) else z x)"
  by (rule for_step_own [where g = "\<lambda>x z. g x (z x)"]) (simp_all add: step f)

text \<open>All cores of a cluster, each from its own index on.\<close>

definition strided_cores :: "nat \<Rightarrow> nat list \<Rightarrow> nat \<Rightarrow> (nat \<Rightarrow> 's \<Rightarrow> 's) \<Rightarrow> 's \<Rightarrow> 's" where
  "strided_cores core_num cores hi f = fold (\<lambda>co. for_step co core_num hi f) cores"

lemma strided_mine:
  fixes lo y core_num :: nat
  assumes "lo < core_num"
  shows "lo \<le> y \<and> (y - lo) mod core_num = 0 \<longleftrightarrow> y mod core_num = lo"
proof
  assume a: "lo \<le> y \<and> (y - lo) mod core_num = 0"
  then obtain q where "y - lo = core_num * q" by auto
  then have "y = lo + core_num * q" using a by simp
  then show "y mod core_num = lo" using assms by simp
next
  assume "y mod core_num = lo"
  then show "lo \<le> y \<and> (y - lo) mod core_num = 0" by (metis minus_mod_eq_mult_div mod_less_eq_dividend mod_mult_self1_is_0)
qed

lemma strided_cores_own:
  fixes z :: "nat \<Rightarrow> 'a"
  assumes cores: "distinct cores" "set cores = {..<core_num}" and pos: "0 < core_num"
    and f: "\<And>i z x. i < hi \<Longrightarrow> f i z x = (if P x \<and> own x = i then g x z else z x)"
    and g: "\<And>x z z'. P x \<Longrightarrow> (\<And>y. own y = own x \<Longrightarrow> z y = z' y) \<Longrightarrow> g x z = g x z'"
  shows "strided_cores core_num cores hi f z x = (if P x \<and> own x < hi then g x z else z x)"
proof -
  note step = for_step_own [where P = P and own = own and g = g and f = f and hi = hi, OF pos f g]
  have "set cs \<subseteq> {..<core_num} \<Longrightarrow> distinct cs \<Longrightarrow> fold (\<lambda>co. for_step co core_num hi f) cs z x
      = (if P x \<and> own x < hi \<and> own x mod core_num \<in> set cs then g x z else z x)" for cs
  proof (induction cs arbitrary: z)
    case (Cons co cs)
    have mine: "co \<le> y \<and> (y - co) mod core_num = 0 \<longleftrightarrow> y mod core_num = co" for y
      using Cons.prems by (intro strided_mine) simp
    have "g x (for_step co core_num hi f z) = g x z" if "P x" "own x mod core_num \<noteq> co"
      by (rule g [OF that(1)]) (use that mine in \<open>auto simp: step\<close>)
    moreover have at: "for_step co core_num hi f z x = (if P x \<and> own x < hi \<and> own x mod core_num = co then g x z else z x)"
      by (rule trans [OF step]) (use mine [of "own x"] in auto)
    moreover have "fold (\<lambda>co. for_step co core_num hi f) cs (for_step co core_num hi f z) x
        = (if P x \<and> own x < hi \<and> own x mod core_num \<in> set cs then g x (for_step co core_num hi f z) else for_step co core_num hi f z x)"
      using Cons by simp
    ultimately show ?case using Cons.prems(2) by auto
  qed simp
  then show ?thesis using cores pos by (simp add: strided_cores_def)
qed

lemma strided_cores_at:
  fixes z :: "nat \<Rightarrow> 'a"
  assumes cores: "distinct cores" "set cores = {..<core_num}" and pos: "0 < core_num"
    and f: "\<And>i z x. i < hi \<Longrightarrow> f i z x = (if P x \<and> own x = i then g x (z x) else z x)"
  shows "strided_cores core_num cores hi f z x = (if P x \<and> own x < hi then g x (z x) else z x)"
  by (rule strided_cores_own [where g = "\<lambda>x z. g x (z x)", OF cores pos]) (simp_all add: f)

subsection \<open>Transfers\<close>

text \<open>A transfer of \<open>n\<close> elements.\<close>

definition copy_row :: "(nat \<Rightarrow> 'a) \<Rightarrow> nat \<Rightarrow> (nat \<Rightarrow> 'a) \<Rightarrow> nat \<Rightarrow> nat \<Rightarrow> (nat \<Rightarrow> 'a)" where
  "copy_row dst d src s n = for_upto 0 n (\<lambda>j dst. dst(d + j := src (s + j))) dst"

lemma copy_row_at: "copy_row dst d src s n x = (if d \<le> x \<and> x < d + n then src (s + (x - d)) else dst x)"
  by (simp add: copy_row_def row_loop)

text \<open>Tiles of a row-major array: \<open>h\<close> rows of \<open>w\<close> elements at tile position \<open>(i1, i0)\<close>.\<close>

definition load_tile :: "(nat \<Rightarrow> 'a) \<Rightarrow> (nat \<Rightarrow> 'a) \<Rightarrow> nat \<Rightarrow> nat \<Rightarrow> nat \<Rightarrow> nat \<Rightarrow> nat \<Rightarrow> (nat \<Rightarrow> 'a)" where
  "load_tile dst src i1 i0 h w ld =
     for_upto 0 h (\<lambda>r. for_upto 0 w (\<lambda>j dst. dst(r * w + j := src ((i1 * h + r) * ld + (i0 * w + j))))) dst"

definition store_tile :: "(nat \<Rightarrow> 'a) \<Rightarrow> (nat \<Rightarrow> 'a) \<Rightarrow> nat \<Rightarrow> nat \<Rightarrow> nat \<Rightarrow> nat \<Rightarrow> nat \<Rightarrow> (nat \<Rightarrow> 'a)" where
  "store_tile dst src i1 i0 h w ld =
     for_upto 0 h (\<lambda>r. for_upto 0 w (\<lambda>j dst. dst((i1 * h + r) * ld + (i0 * w + j) := src (r * w + j)))) dst"

lemma load_tile_at:
  assumes "r < h" and "j < w"
  shows "load_tile dst src i1 i0 h w ld (r * w + j) = src ((i1 * h + r) * ld + (i0 * w + j))"
proof -
  have "m \<le> h \<Longrightarrow> r < m \<Longrightarrow> for_upto 0 m (\<lambda>r. for_upto 0 w (\<lambda>j dst. dst(r * w + j := src ((i1 * h + r) * ld + (i0 * w + j))))) dst (r * w + j)
      = src ((i1 * h + r) * ld + (i0 * w + j))" for m
  proof (induction m)
    case (Suc m)
    show ?case
    proof (cases "r = m")
      case False
      then have "Suc r * w \<le> m * w" using Suc.prems by (intro mult_le_mono1) simp
      then have "r * w + j < m * w" using assms(2) by simp
      then show ?thesis using False Suc unfolding for_upto_Suc [OF le0] row_loop by simp
    qed (use assms(2) in \<open>unfold for_upto_Suc [OF le0] row_loop, simp\<close>)
  qed simp
  then show ?thesis using assms(1) by (simp add: load_tile_def)
qed

lemma store_tile_at:
  assumes "i0 * w + w \<le> ld"
  shows "store_tile dst src i1 i0 h w ld x
    = (if i1 * h \<le> x div ld \<and> x div ld < i1 * h + h \<and> i0 * w \<le> x mod ld \<and> x mod ld < i0 * w + w
       then src ((x div ld - i1 * h) * w + (x mod ld - i0 * w)) else dst x)"
proof (cases "ld = 0")
  case True
  then have "w = 0" using assms by simp
  then show ?thesis using True by (simp add: store_tile_def) (induction h; simp add: for_upto_Suc)
next
  case False
  have row: "R * ld + i0 * w \<le> x \<and> x < R * ld + i0 * w + w \<longleftrightarrow> x div ld = R \<and> i0 * w \<le> x mod ld \<and> x mod ld < i0 * w + w" for R
  proof
    assume a: "R * ld + i0 * w \<le> x \<and> x < R * ld + i0 * w + w"
    then have e: "R * ld + (x - R * ld) = x" "x - R * ld < ld" using assms by linarith+
    show "x div ld = R \<and> i0 * w \<le> x mod ld \<and> x mod ld < i0 * w + w"
      using div_mod_position [OF e(2), of R] a unfolding e(1) by linarith
  next
    assume a: "x div ld = R \<and> i0 * w \<le> x mod ld \<and> x mod ld < i0 * w + w"
    then have "x = R * ld + x mod ld" by (metis div_mult_mod_eq)
    then show "R * ld + i0 * w \<le> x \<and> x < R * ld + i0 * w + w" using a by linarith
  qed
  have off: "x - (R * ld + i0 * w) = x mod ld - i0 * w" if "x div ld = R" for R
    using div_mult_mod_eq [of x ld] that by simp
  have "for_upto 0 m (\<lambda>r. for_upto 0 w (\<lambda>j dst. dst((i1 * h + r) * ld + i0 * w + j := src (r * w + j)))) dst x
      = (if i1 * h \<le> x div ld \<and> x div ld < i1 * h + m \<and> i0 * w \<le> x mod ld \<and> x mod ld < i0 * w + w
         then src ((x div ld - i1 * h) * w + (x mod ld - i0 * w)) else dst x)" for m
  proof (induction m)
    case (Suc m)
    have "for_upto 0 w (\<lambda>j dst. dst((i1 * h + m) * ld + i0 * w + j := src (m * w + j))) d x
        = (if x div ld = i1 * h + m \<and> i0 * w \<le> x mod ld \<and> x mod ld < i0 * w + w
           then src (m * w + (x mod ld - i0 * w)) else d x)" for d
      unfolding row_loop row using off [of "i1 * h + m"] by auto
    then show ?case using Suc unfolding for_upto_Suc [OF le0] by (simp only:) (auto simp: less_Suc_eq)
  qed auto
  then show ?thesis by (simp add: store_tile_def add.assoc)
qed

subsection \<open>Double buffering\<close>

datatype phase = P_in | P_compute | P_out

definition db_phase :: "nat \<Rightarrow> (nat \<Rightarrow> 's \<Rightarrow> 's) \<Rightarrow> (nat \<Rightarrow> 's \<Rightarrow> 's) \<Rightarrow> (nat \<Rightarrow> 's \<Rightarrow> 's) \<Rightarrow> nat \<Rightarrow> phase \<Rightarrow> 's \<Rightarrow> 's" where
  "db_phase n load compute store i p s = (case p of
     P_in \<Rightarrow> if i < n then load i s else s
   | P_compute \<Rightarrow> if 0 < i \<and> i < n + 1 then compute (i - 1) s else s
   | P_out \<Rightarrow> if 1 < i then store (i - 2) s else s)"

text \<open>\<open>ord i\<close> is the order in which the three phases of iteration \<open>i\<close> happen.\<close>

definition db_loop :: "nat \<Rightarrow> (nat \<Rightarrow> 's \<Rightarrow> 's) \<Rightarrow> (nat \<Rightarrow> 's \<Rightarrow> 's) \<Rightarrow> (nat \<Rightarrow> 's \<Rightarrow> 's) \<Rightarrow> (nat \<Rightarrow> phase list) \<Rightarrow> 's \<Rightarrow> 's" where
  "db_loop n load compute store ord = for_upto 0 (n + 2) (\<lambda>i. fold (db_phase n load compute store i) (ord i))"

text \<open>The data mover stores before it loads; the computation may come anywhere.\<close>

definition out_in :: "phase list \<Rightarrow> bool" where
  "out_in ps \<longleftrightarrow> ps = [P_compute, P_out, P_in] \<or> ps = [P_out, P_compute, P_in] \<or> ps = [P_out, P_in, P_compute]"

definition in_out :: "phase list \<Rightarrow> bool" where
  "in_out ps \<longleftrightarrow> ps = [P_compute, P_in, P_out] \<or> ps = [P_in, P_compute, P_out] \<or> ps = [P_in, P_out, P_compute]"

text \<open>
  \<open>ready i\<close>: the operands of tile \<open>i\<close> are in their buffers; \<open>computed i\<close>: its result is in its
  buffer; \<open>stored i\<close>: the results of the first \<open>i\<close> tiles are in memory and the rest is unchanged.
\<close>

locale double_buffer =
  fixes n :: nat and load compute store :: "nat \<Rightarrow> 's \<Rightarrow> 's" and ready computed stored :: "nat \<Rightarrow> 's \<Rightarrow> bool"
  assumes load_ready: "i < n \<Longrightarrow> stored j s \<Longrightarrow> j \<le> i \<Longrightarrow> ready i (load i s)"
    and load_other: "j mod 2 \<noteq> i mod 2 \<Longrightarrow> ready j s \<Longrightarrow> ready j (load i s)"
    and load_computed: "j mod 2 \<noteq> i mod 2 \<Longrightarrow> computed j s \<Longrightarrow> computed j (load i s)"
    and load_stored: "stored j s \<Longrightarrow> stored j (load i s)"
    and compute_computed: "i < n \<Longrightarrow> ready i s \<Longrightarrow> computed i (compute i s)"
    and compute_ready: "j mod 2 \<noteq> i mod 2 \<Longrightarrow> ready j s \<Longrightarrow> ready j (compute i s)"
    and compute_other: "j mod 2 \<noteq> i mod 2 \<Longrightarrow> computed j s \<Longrightarrow> computed j (compute i s)"
    and compute_stored: "stored j s \<Longrightarrow> stored j (compute i s)"
    and store_stored: "i < n \<Longrightarrow> stored i s \<Longrightarrow> computed i s \<Longrightarrow> stored (Suc i) (store i s)"
    and store_ready: "ready j s \<Longrightarrow> ready j (store i s)"
    and store_computed: "computed j s \<Longrightarrow> computed j (store i s)"
begin

text \<open>Within iteration \<open>i\<close>: which of storing, computing and loading has been done.\<close>

definition db_at :: "nat \<Rightarrow> bool \<Rightarrow> bool \<Rightarrow> bool \<Rightarrow> 's \<Rightarrow> bool" where
  "db_at i out cmp inp s \<longleftrightarrow> stored (if out then i - 1 else i - 2) s \<and> (\<not> out \<and> 2 \<le> i \<and> i < n + 2 \<longrightarrow> computed (i - 2) s)
     \<and> (1 \<le> i \<and> i \<le> n \<longrightarrow> (if cmp then computed (i - 1) s else ready (i - 1) s)) \<and> (inp \<and> i < n \<longrightarrow> ready i s)"

lemma parity:
  shows "1 \<le> i \<Longrightarrow> (i - 1) mod 2 \<noteq> i mod (2 :: nat)" and "2 \<le> i \<Longrightarrow> (i - 2) mod 2 \<noteq> (i - 1) mod (2 :: nat)"
proof -
  show "1 \<le> i \<Longrightarrow> (i - 1) mod 2 \<noteq> i mod 2" by (cases i) (simp_all add: mod_Suc)
  show "2 \<le> i \<Longrightarrow> (i - 2) mod 2 \<noteq> (i - 1) mod 2" by (cases i; cases "i - 1") (auto simp: mod_Suc)
qed

lemma step_out: "i < n + 2 \<Longrightarrow> db_at i False cmp inp s \<Longrightarrow> db_at i True cmp inp (db_phase n load compute store i P_out s)"
proof (cases "2 \<le> i")
  case True
  assume "i < n + 2" "db_at i False cmp inp s"
  moreover have "Suc (i - 2) = i - 1" using True by simp
  ultimately show ?thesis using True store_stored [of "i - 2" s] store_ready store_computed
    by (auto simp: db_at_def db_phase_def)
next
  case False
  assume "db_at i False cmp inp s"
  moreover have "i - 2 = i - 1" using False by simp
  ultimately show ?thesis using False by (cases cmp) (auto simp: db_at_def db_phase_def)
qed

lemma step_compute: "db_at i out False inp s \<Longrightarrow> db_at i out True inp (db_phase n load compute store i P_compute s)"
proof (cases "1 \<le> i \<and> i \<le> n")
  case True
  assume a: "db_at i out False inp s"
  have p: "i mod 2 \<noteq> (i - 1) mod 2" "2 \<le> i \<Longrightarrow> (i - 2) mod 2 \<noteq> (i - 1) mod 2" using parity [of i] True by auto
  have "computed (i - 1) (compute (i - 1) s)" using a True by (intro compute_computed) (auto simp: db_at_def)
  moreover have "ready i s \<Longrightarrow> ready i (compute (i - 1) s)" by (rule compute_ready [OF p(1)])
  moreover have "2 \<le> i \<Longrightarrow> computed (i - 2) s \<Longrightarrow> computed (i - 2) (compute (i - 1) s)" by (rule compute_other [OF p(2)])
  ultimately show ?thesis using a True compute_stored by (auto simp: db_at_def db_phase_def)
next
  case False
  assume "db_at i out False inp s"
  then show ?thesis using False by (auto simp: db_at_def db_phase_def)
qed

lemma step_in:
  assumes a: "db_at i out cmp False s" and out: "out \<or> (\<forall>j s. computed j s \<longrightarrow> computed j (load i s))"
  shows "db_at i out cmp True (db_phase n load compute store i P_in s)"
proof (cases "i < n")
  case True
  have p: "1 \<le> i \<Longrightarrow> (i - 1) mod 2 \<noteq> i mod 2" by (rule parity)
  have "stored (if out then i - 1 else i - 2) s" using a by (simp add: db_at_def)
  then have "ready i (load i s)" "stored (if out then i - 1 else i - 2) (load i s)" using True by (auto intro: load_ready load_stored)
  moreover have "1 \<le> i \<Longrightarrow> ready (i - 1) s \<Longrightarrow> ready (i - 1) (load i s)" "1 \<le> i \<Longrightarrow> computed (i - 1) s \<Longrightarrow> computed (i - 1) (load i s)"
    using load_other [OF p] load_computed [OF p] by auto
  ultimately show ?thesis using a out True by (auto simp: db_at_def db_phase_def)
next
  case False
  then show ?thesis using a by (cases cmp; cases out) (simp_all add: db_at_def db_phase_def)
qed

lemma next_iteration: "db_at i True True True s \<Longrightarrow> db_at (Suc i) False False False s"
  by (auto simp: db_at_def)

text \<open>Every iteration does all three phases, so the loop stores all tiles.\<close>

lemma iteration_out_in:
  assumes "i < n + 2" and "out_in ps" and "db_at i False False False s"
  shows "db_at (Suc i) False False False (fold (db_phase n load compute store i) ps s)"
  using assms(2) unfolding out_in_def
  by (elim disjE; simp; intro next_iteration step_in step_out step_compute assms TrueI disjI1)

lemma db_loop_stores:
  assumes "stored 0 s" and "\<And>i. i < n + 2 \<Longrightarrow> out_in (ord i)"
  shows "stored n (db_loop n load compute store ord s)"
proof -
  have "db_at (n + 2) False False False (db_loop n load compute store ord s)"
    unfolding db_loop_def
  proof (rule for_upto_induct)
    show "db_at 0 False False False s" using assms(1) by (simp add: db_at_def)
  qed (simp_all add: iteration_out_in assms(2))
  then show ?thesis by (simp add: db_at_def)
qed

end

text \<open>A job whose results have buffers of their own may also load before it stores.\<close>

locale double_buffer_separate = double_buffer +
  assumes load_computed_all: "computed j s \<Longrightarrow> computed j (load i s)"
begin

lemma iteration_any:
  assumes "i < n + 2" and "out_in ps \<or> in_out ps" and "db_at i False False False s"
  shows "db_at (Suc i) False False False (fold (db_phase n load compute store i) ps s)"
proof -
  have "db_at i out cmp False s \<Longrightarrow> db_at i out cmp True (db_phase n load compute store i P_in s)" for out cmp s
    by (rule step_in) (simp_all add: load_computed_all)
  note step_in' = this
  show ?thesis using assms(2) unfolding out_in_def in_out_def
    by (elim disjE; simp; intro next_iteration step_in' step_out step_compute assms)
qed

lemma db_loop_stores_any:
  assumes "stored 0 s" and "\<And>i. i < n + 2 \<Longrightarrow> out_in (ord i) \<or> in_out (ord i)"
  shows "stored n (db_loop n load compute store ord s)"
proof -
  have "db_at (n + 2) False False False (db_loop n load compute store ord s)"
    unfolding db_loop_def
  proof (rule for_upto_induct)
    show "db_at 0 False False False s" using assms(1) by (simp add: db_at_def)
  qed (simp_all add: iteration_any assms(2))
  then show ?thesis by (simp add: db_at_def)
qed

end

end
