(* ===== verification/Gemm.thy ===== *)
theory Gemm
  imports Gemm_Kernel Double_Buffer
begin

text \<open>
  The tiled matrix product of \<open>sw/kernels/blas/gemm/src/gemm.h\<close> (\<open>gemm\<close>): the distribution of
  the tiles over the clusters, and the loop of a cluster over its tiles with the DMA of the data
  mover core running beside the computation (double buffering).

  Modelled are operands in main memory (\<open>load_a\<close>, \<open>load_b\<close> and \<open>load_c\<close> set) in the row-major
  layout or the layout with partitioned banks. A local buffer is a function from element indices,
  \<open>la b\<close> is the buffer \<open>la[b]\<close>; buffers and matrices are separate objects. The reduction
  between clusters (\<open>parallelize_k\<close>) is in \<open>Reduction\<close>; here only the tile indices of that mode.
\<close>

record gemm_args =
  m_tiles :: nat
  n_tiles :: nat
  k_tiles :: nat
  parallelize_m :: bool
  parallelize_k :: bool
  double_buffer :: bool
  partition_banks :: bool
  transa :: bool
  transb :: bool
  g_m :: nat
  g_n :: nat
  g_k :: nat
  g_lda :: nat
  g_ldb :: nat
  g_beta :: nat
  g_ldc :: nat

subsection \<open>Tiles\<close>

definition tile_m :: "gemm_args \<Rightarrow> nat" where "tile_m g = g_m g div m_tiles g"
definition tile_n :: "gemm_args \<Rightarrow> nat" where "tile_n g = g_n g div n_tiles g"
definition tile_k :: "gemm_args \<Rightarrow> nat" where "tile_k g = g_k g div k_tiles g"

text \<open>The tiles of cluster \<open>ci\<close> of \<open>nc\<close> clusters.\<close>

definition cluster_m_tiles :: "gemm_args \<Rightarrow> nat \<Rightarrow> nat" where
  "cluster_m_tiles g nc = (if parallelize_m g then m_tiles g div nc else m_tiles g)"

definition cluster_k_tiles :: "gemm_args \<Rightarrow> nat \<Rightarrow> nat \<Rightarrow> nat" where
  "cluster_k_tiles g nc ci =
     (if parallelize_k g then
        (let k_tiles_quotient = k_tiles g div nc;
             k_tiles_remainder = k_tiles g mod nc
         in if ci < k_tiles_remainder then k_tiles_quotient + 1 else k_tiles_quotient)
      else k_tiles g)"

definition num_working_clusters :: "gemm_args \<Rightarrow> nat \<Rightarrow> nat" where
  "num_working_clusters g nc =
     (if parallelize_k g \<and> k_tiles g div nc = 0 then k_tiles g mod nc else nc)"

definition num_tiles :: "gemm_args \<Rightarrow> nat \<Rightarrow> nat \<Rightarrow> nat" where
  "num_tiles g nc ci = cluster_m_tiles g nc * n_tiles g * cluster_k_tiles g nc ci"

definition num_iters :: "gemm_args \<Rightarrow> nat \<Rightarrow> nat \<Rightarrow> nat" where
  "num_iters g nc ci = num_tiles g nc ci + (if double_buffer g then 2 else 1)"

text \<open>The indices of tile \<open>i\<close> of a cluster, in the order k, n, m, and the absolute ones.\<close>

definition ix_k :: "gemm_args \<Rightarrow> nat \<Rightarrow> nat \<Rightarrow> nat \<Rightarrow> nat" where
  "ix_k g nc ci i = i mod cluster_k_tiles g nc ci"

definition ix_mn :: "gemm_args \<Rightarrow> nat \<Rightarrow> nat \<Rightarrow> nat \<Rightarrow> nat" where
  "ix_mn g nc ci i = i div cluster_k_tiles g nc ci"

definition ix_n :: "gemm_args \<Rightarrow> nat \<Rightarrow> nat \<Rightarrow> nat \<Rightarrow> nat" where
  "ix_n g nc ci i = ix_mn g nc ci i mod n_tiles g"

definition m_abs :: "gemm_args \<Rightarrow> nat \<Rightarrow> nat \<Rightarrow> nat \<Rightarrow> nat" where
  "m_abs g nc ci i = ix_mn g nc ci i div n_tiles g + (if parallelize_m g then ci * cluster_m_tiles g nc else 0)"

definition k_abs :: "gemm_args \<Rightarrow> nat \<Rightarrow> nat \<Rightarrow> nat \<Rightarrow> nat" where
  "k_abs g nc ci i = ix_k g nc ci i + (if parallelize_k g then ci * cluster_k_tiles g nc ci else 0)"

subsection \<open>DMA transfers\<close>

text \<open>
  The transfers of elements as \<open>dma.h\<close> makes them (\<open>Dma.load_2d_tile_elements\<close>,
  \<open>Dma.store_2d_tile_elements\<close>): a tile is contiguous in the buffer.
\<close>

definition copy_1d_to_2d :: "bank_layout \<Rightarrow> (nat \<Rightarrow> 'a) \<Rightarrow> (nat \<Rightarrow> 'a) \<Rightarrow> nat \<Rightarrow> nat \<Rightarrow> (nat \<Rightarrow> 'a)" where
  "copy_1d_to_2d bl dst src s n =
     for_upto 0 (n div lw bl) (\<lambda>r. for_upto 0 (lw bl) (\<lambda>j dst. dst(r * hw bl + j := src (s + (r * lw bl + j))))) dst"

definition copy_2d_to_1d :: "bank_layout \<Rightarrow> (nat \<Rightarrow> 'a) \<Rightarrow> nat \<Rightarrow> (nat \<Rightarrow> 'a) \<Rightarrow> nat \<Rightarrow> (nat \<Rightarrow> 'a)" where
  "copy_2d_to_1d bl dst d src n =
     for_upto 0 (n div lw bl) (\<lambda>r. for_upto 0 (lw bl) (\<lambda>j dst. dst(d + (r * lw bl + j) := src (r * hw bl + j)))) dst"

subsection \<open>The loop over the tiles\<close>

record 'a gemm_state =
  gs_c :: "nat \<Rightarrow> 'a"
  gs_la :: "nat \<Rightarrow> nat \<Rightarrow> 'a"
  gs_lb :: "nat \<Rightarrow> nat \<Rightarrow> 'a"
  gs_lc :: "nat \<Rightarrow> nat \<Rightarrow> 'a"

definition ab_buff :: "gemm_args \<Rightarrow> nat \<Rightarrow> nat" where
  "ab_buff g i = (if double_buffer g then i mod 2 else 0)"

definition c_buff :: "gemm_args \<Rightarrow> nat \<Rightarrow> nat \<Rightarrow> nat \<Rightarrow> nat" where
  "c_buff g nc ci i = (if double_buffer g then ix_mn g nc ci i mod 2 else 0)"

definition gemm_dma_out :: "gemm_args \<Rightarrow> bank_layout \<Rightarrow> nat \<Rightarrow> nat \<Rightarrow> nat \<Rightarrow> 'a gemm_state \<Rightarrow> 'a gemm_state" where
  "gemm_dma_out g bl nc ci i s =
     (if ci = 0 \<or> \<not> parallelize_k g then
        (if partition_banks g then
           s\<lparr>gs_c := copy_2d_to_1d bl (gs_c s) (m_abs g nc ci i * (tile_m g * tile_n g)) (gs_lc s (c_buff g nc ci i))
              (tile_m g * tile_n g)\<rparr>
         else
           s\<lparr>gs_c := store_tile (gs_c s) (gs_lc s (c_buff g nc ci i)) (m_abs g nc ci i) (ix_n g nc ci i)
              (tile_m g) (tile_n g) (g_ldc g)\<rparr>)
      else s)"

definition gemm_load_a :: "gemm_args \<Rightarrow> bank_layout \<Rightarrow> nat \<Rightarrow> nat \<Rightarrow> (nat \<Rightarrow> 'a) \<Rightarrow> nat \<Rightarrow> 'a gemm_state \<Rightarrow> 'a gemm_state" where
  "gemm_load_a g bl nc ci A i s =
     (let dst = gs_la s (ab_buff g i)
      in s\<lparr>gs_la := (gs_la s)(ab_buff g i :=
           (if partition_banks g
            then copy_1d_to_2d bl dst A (m_abs g nc ci i * (tile_m g * tile_k g)) (tile_m g * tile_k g)
            else load_tile dst A (m_abs g nc ci i) (k_abs g nc ci i) (tile_m g) (tile_k g) (g_lda g)))\<rparr>)"

definition gemm_load_b :: "gemm_args \<Rightarrow> bank_layout \<Rightarrow> nat \<Rightarrow> nat \<Rightarrow> (nat \<Rightarrow> 'a) \<Rightarrow> nat \<Rightarrow> 'a gemm_state \<Rightarrow> 'a gemm_state" where
  "gemm_load_b g bl nc ci B i s =
     (let dst = gs_lb s (ab_buff g i)
      in s\<lparr>gs_lb := (gs_lb s)(ab_buff g i :=
           (if transb g then load_tile dst B (ix_n g nc ci i) (k_abs g nc ci i) (tile_n g) (tile_k g) (g_ldb g)
            else if partition_banks g
            then copy_1d_to_2d bl dst B (k_abs g nc ci i * (tile_k g * tile_n g)) (tile_k g * tile_n g)
            else load_tile dst B (k_abs g nc ci i) (ix_n g nc ci i) (tile_k g) (tile_n g) (g_ldb g)))\<rparr>)"

text \<open>The block \<open>zeromem\<close> holds zeros.\<close>

definition gemm_load_c :: "gemm_args \<Rightarrow> bank_layout \<Rightarrow> nat \<Rightarrow> nat \<Rightarrow> nat \<Rightarrow> 'a::zero gemm_state \<Rightarrow> 'a gemm_state" where
  "gemm_load_c g bl nc ci i s =
     (let dst = gs_lc s (c_buff g nc ci i); sz = tile_m g * tile_n g
      in if k_abs g nc ci i = 0 then
           s\<lparr>gs_lc := (gs_lc s)(c_buff g nc ci i :=
             (if partition_banks g then copy_1d_to_2d bl dst (gs_c s) (m_abs g nc ci i * sz) sz
              else load_tile dst (gs_c s) (m_abs g nc ci i) (ix_n g nc ci i) (tile_m g) (tile_n g) (g_ldc g)))\<rparr>
         else if ix_k g nc ci i = 0 then
           s\<lparr>gs_lc := (gs_lc s)(c_buff g nc ci i :=
             (if partition_banks g then copy_1d_to_2d bl dst (\<lambda>_. 0) 0 sz
              else for_upto 0 sz (\<lambda>j dst. dst(j := 0)) dst))\<rparr>
         else s)"

definition gemm_dma_in :: "gemm_args \<Rightarrow> bank_layout \<Rightarrow> nat \<Rightarrow> nat \<Rightarrow> (nat \<Rightarrow> 'a::zero) \<Rightarrow> (nat \<Rightarrow> 'a) \<Rightarrow> nat
    \<Rightarrow> 'a gemm_state \<Rightarrow> 'a gemm_state" where
  "gemm_dma_in g bl nc ci A B i s =
     (if i < num_tiles g nc ci
      then gemm_load_c g bl nc ci i (gemm_load_b g bl nc ci B i (gemm_load_a g bl nc ci A i s)) else s)"

text \<open>The strides of the operands in their buffers, for the kernel.\<close>

definition pb_stride :: "bank_layout \<Rightarrow> nat \<Rightarrow> nat" where
  "pb_stride bl row_size = row_size div lw bl * hw bl"

definition gemm_compute :: "'a gemm_fp \<Rightarrow> nat \<Rightarrow> nat list \<Rightarrow> gemm_args \<Rightarrow> bank_layout \<Rightarrow> nat \<Rightarrow> nat \<Rightarrow> nat
    \<Rightarrow> 'a gemm_state \<Rightarrow> 'a gemm_state" where
  "gemm_compute fp core_num cores g bl nc ci i s =
     (if i < num_tiles g nc ci then
        (let b = ab_buff g i; cb = c_buff g nc ci i;
             beta_k = (if k_abs g nc ci i = 0 then g_beta g else 1);
             lda = (if transa g then tile_m g else if partition_banks g then pb_stride bl (tile_k g) else tile_k g);
             ldb = (if transb g then tile_k g else if partition_banks g then pb_stride bl (tile_n g) else tile_n g);
             ldc = (if partition_banks g then pb_stride bl (tile_n g) else tile_n g)
         in s\<lparr>gs_lc := (gs_lc s)(cb := sc_st_gemm_cores fp core_num cores (partition_banks g) (transa g) (transb g)
              (tile_m g) (tile_n g) (tile_k g) (gs_la s b) 0 lda (gs_lb s b) 0 ldb beta_k (gs_lc s cb) 0 ldc)\<rparr>)
      else s)"

text \<open>
  One iteration. Without double buffering a barrier separates the DMA from the computation. With
  it the data mover core stores tile \<open>i - 2\<close> and loads tile \<open>i\<close> while the compute cores work on
  tile \<open>i - 1\<close>; \<open>ord\<close> says whether the computation comes before, between or after the two. Each of the three is one step;
  they use different buffers.
\<close>

definition gemm_iter :: "'a::zero gemm_fp \<Rightarrow> nat \<Rightarrow> nat list \<Rightarrow> gemm_args \<Rightarrow> bank_layout \<Rightarrow> nat \<Rightarrow> nat \<Rightarrow> (nat \<Rightarrow> 'a)
    \<Rightarrow> (nat \<Rightarrow> 'a) \<Rightarrow> nat \<Rightarrow> nat \<Rightarrow> 'a gemm_state \<Rightarrow> 'a gemm_state" where
  "gemm_iter fp core_num cores g bl nc ci A B ord i s =
     (let comp_i = int i - (if double_buffer g then 1 else 0);
          dma_out_i = int i - (if double_buffer g then 2 else 1);
          dma_out = (if 0 \<le> dma_out_i then gemm_dma_out g bl nc ci (nat dma_out_i) else (\<lambda>s. s));
          dma_in = gemm_dma_in g bl nc ci A B i;
          comp = (if 0 \<le> comp_i then gemm_compute fp core_num cores g bl nc ci (nat comp_i) else (\<lambda>s. s))
      in if \<not> double_buffer g then comp (dma_in (dma_out s))
         else if ord = 0 then dma_in (dma_out (comp s))
         else if ord = 1 then dma_in (comp (dma_out s))
         else comp (dma_in (dma_out s)))"

definition gemm_cluster :: "'a::zero gemm_fp \<Rightarrow> nat \<Rightarrow> nat list \<Rightarrow> gemm_args \<Rightarrow> bank_layout \<Rightarrow> nat \<Rightarrow> nat \<Rightarrow> (nat \<Rightarrow> 'a)
    \<Rightarrow> (nat \<Rightarrow> 'a) \<Rightarrow> (nat \<Rightarrow> nat) \<Rightarrow> 'a gemm_state \<Rightarrow> 'a gemm_state" where
  "gemm_cluster fp core_num cores g bl nc ci A B ord s =
     for_upto 0 (num_iters g nc ci) (\<lambda>i. gemm_iter fp core_num cores g bl nc ci A B (ord i) i) s"

subsection \<open>Transfers, element by element\<close>

end
