(* ===== verification/Gemm_Loop.thy ===== *)
theory Gemm_Loop
  imports Gemm
begin

text \<open>
  The tiled product computes the product: the invariant of the loop of \<open>gemm\<close> with and without
  double buffering, for every order of the computation and the DMA within an iteration. Three
  counters say how many tiles have been loaded, computed and stored.
\<close>

subsection \<open>The contents of the buffers\<close>

text \<open>Plain runs: row-major operands that are not split along \<open>k\<close>, \<open>A\<close> not transposed.\<close>

definition gemm_plain :: "gemm_args \<Rightarrow> bool" where
  "gemm_plain g \<longleftrightarrow> \<not> parallelize_k g \<and> \<not> partition_banks g \<and> \<not> transa g
     \<and> 0 < k_tiles g \<and> 0 < n_tiles g \<and> 0 < tile_m g \<and> 0 < tile_n g \<and> n_tiles g * tile_n g \<le> g_ldc g"

text \<open>The kernel takes the tiles, with both factors of the tile in memory.\<close>

definition tiles_ok :: "(nat \<Rightarrow> nat \<Rightarrow> nat \<Rightarrow> bool) \<Rightarrow> (nat \<Rightarrow> bool) \<Rightarrow> gemm_args \<Rightarrow> bool" where
  "tiles_ok dims fits g \<longleftrightarrow> dims (tile_n g) (tile_k g) (g_beta g) \<and> dims (tile_n g) (tile_k g) 1
     \<and> fits (tile_m g * tile_k g) \<and> fits (tile_k g * tile_n g) \<and> fits (tile_m g * tile_n g)"

definition tile_row :: "gemm_args \<Rightarrow> nat \<Rightarrow> nat \<Rightarrow> nat \<Rightarrow> nat \<Rightarrow> nat" where
  "tile_row g nc ci i r = m_abs g nc ci i * tile_m g + r"

definition tile_col :: "gemm_args \<Rightarrow> nat \<Rightarrow> nat \<Rightarrow> nat \<Rightarrow> nat \<Rightarrow> nat" where
  "tile_col g nc ci i c = ix_n g nc ci i * tile_n g + c"

definition b_at :: "bool \<Rightarrow> nat \<Rightarrow> nat \<Rightarrow> nat \<Rightarrow> nat" where
  "b_at tb ld n k = (if tb then n * ld + k else k * ld + n)"

definition holds_a :: "gemm_args \<Rightarrow> nat \<Rightarrow> nat \<Rightarrow> (nat \<Rightarrow> 'a) \<Rightarrow> nat \<Rightarrow> (nat \<Rightarrow> 'a) \<Rightarrow> bool" where
  "holds_a g nc ci A i la \<longleftrightarrow> (\<forall>r < tile_m g. \<forall>k < tile_k g.
     la (r * tile_k g + k) = A (tile_row g nc ci i r * g_lda g + (ix_k g nc ci i * tile_k g + k)))"

definition holds_b :: "gemm_args \<Rightarrow> nat \<Rightarrow> nat \<Rightarrow> (nat \<Rightarrow> 'a) \<Rightarrow> nat \<Rightarrow> (nat \<Rightarrow> 'a) \<Rightarrow> bool" where
  "holds_b g nc ci B i lb \<longleftrightarrow> (\<forall>c < tile_n g. \<forall>k < tile_k g.
     lb (b_at (transb g) (if transb g then tile_k g else tile_n g) c k)
       = B (b_at (transb g) (g_ldb g) (tile_col g nc ci i c) (ix_k g nc ci i * tile_k g + k)))"

text \<open>An element of \<open>C\<close> after the first \<open>j\<close> tiles along \<open>k\<close>; \<open>x\<close> is its value in memory.\<close>

definition gemm_part :: "(nat \<Rightarrow> 'a::{times,zero,plus}) \<Rightarrow> gemm_args \<Rightarrow> (nat \<Rightarrow> 'a) \<Rightarrow> (nat \<Rightarrow> 'a) \<Rightarrow> nat \<Rightarrow> 'a \<Rightarrow> nat \<Rightarrow> nat \<Rightarrow> 'a" where
  "gemm_part dbl g A B j x r c =
     (if j = 0 then x else gemm_cell dbl (transb g) (j * tile_k g) A 0 (g_lda g) B 0 (g_ldb g) (g_beta g) x r c)"

definition holds_c :: "(nat \<Rightarrow> 'a::{times,zero,plus}) \<Rightarrow> gemm_args \<Rightarrow> nat \<Rightarrow> nat \<Rightarrow> (nat \<Rightarrow> 'a) \<Rightarrow> (nat \<Rightarrow> 'a) \<Rightarrow> (nat \<Rightarrow> 'a)
    \<Rightarrow> nat \<Rightarrow> nat \<Rightarrow> (nat \<Rightarrow> 'a) \<Rightarrow> bool" where
  "holds_c dbl g nc ci A B C0 i j lc \<longleftrightarrow> (\<forall>r < tile_m g. \<forall>c < tile_n g.
     lc (r * tile_n g + c) = gemm_part dbl g A B j (C0 (tile_row g nc ci i r * g_ldc g + tile_col g nc ci i c))
       (tile_row g nc ci i r) (tile_col g nc ci i c))"

text \<open>The tile that an element of \<open>C\<close> belongs to.\<close>

definition m_off :: "gemm_args \<Rightarrow> nat \<Rightarrow> nat \<Rightarrow> nat" where
  "m_off g nc ci = (if parallelize_m g then ci * cluster_m_tiles g nc else 0)"

definition in_cluster :: "gemm_args \<Rightarrow> nat \<Rightarrow> nat \<Rightarrow> nat \<Rightarrow> bool" where
  "in_cluster g nc ci x \<longleftrightarrow> m_off g nc ci * tile_m g \<le> x div g_ldc g
     \<and> x div g_ldc g < (m_off g nc ci + cluster_m_tiles g nc) * tile_m g \<and> x mod g_ldc g < n_tiles g * tile_n g"

definition mn_of :: "gemm_args \<Rightarrow> nat \<Rightarrow> nat \<Rightarrow> nat \<Rightarrow> nat" where
  "mn_of g nc ci x = (x div g_ldc g div tile_m g - m_off g nc ci) * n_tiles g + x mod g_ldc g div tile_n g"

lemma plain_k:
  assumes "gemm_plain g"
  shows "cluster_k_tiles g nc ci = k_tiles g" and "k_abs g nc ci i = ix_k g nc ci i"
    and "ix_k g nc ci i = i mod k_tiles g" and "ix_mn g nc ci i = i div k_tiles g"
    and "num_tiles g nc ci = cluster_m_tiles g nc * n_tiles g * k_tiles g"
  using assms by (simp_all add: gemm_plain_def cluster_k_tiles_def k_abs_def ix_k_def ix_mn_def num_tiles_def)

text \<open>The elements of tile \<open>i\<close>.\<close>

lemma in_tile_iff:
  assumes p: "gemm_plain g" and i: "i < num_tiles g nc ci"
  shows "(m_abs g nc ci i * tile_m g \<le> x div g_ldc g \<and> x div g_ldc g < m_abs g nc ci i * tile_m g + tile_m g
      \<and> ix_n g nc ci i * tile_n g \<le> x mod g_ldc g \<and> x mod g_ldc g < ix_n g nc ci i * tile_n g + tile_n g)
    \<longleftrightarrow> in_cluster g nc ci x \<and> mn_of g nc ci x = i div k_tiles g"
proof -
  define R c mn where "R = x div g_ldc g" and "c = x mod g_ldc g" and "mn = i div k_tiles g"
  have pos: "0 < tile_m g" "0 < tile_n g" "0 < n_tiles g" "0 < k_tiles g" using p by (simp_all add: gemm_plain_def)
  have mn: "mn < cluster_m_tiles g nc * n_tiles g"
    using i pos(4) by (simp add: mn_def plain_k [OF p] less_mult_imp_div_less)
  then have mm: "mn div n_tiles g < cluster_m_tiles g nc" by (simp add: less_mult_imp_div_less)
  have ix: "m_abs g nc ci i = mn div n_tiles g + m_off g nc ci" "ix_n g nc ci i = mn mod n_tiles g"
    by (simp_all add: m_abs_def ix_n_def plain_k [OF p] m_off_def mn_def)
  have d: "a * t \<le> y \<and> y < a * t + t \<longleftrightarrow> y div t = a" if "0 < t" for a t y :: nat
    using that by (metis add.commute div_nat_eqI dividend_less_div_times mult.commute mult_Suc order_refl times_div_less_eq_dividend)
  have L: "(m_abs g nc ci i * tile_m g \<le> R \<and> R < m_abs g nc ci i * tile_m g + tile_m g
      \<and> ix_n g nc ci i * tile_n g \<le> c \<and> c < ix_n g nc ci i * tile_n g + tile_n g)
    \<longleftrightarrow> R div tile_m g = mn div n_tiles g + m_off g nc ci \<and> c div tile_n g = mn mod n_tiles g"
    using d [OF pos(1)] d [OF pos(2)] unfolding ix by blast
  have c: "c div tile_n g < n_tiles g \<longleftrightarrow> c < n_tiles g * tile_n g" using pos(2) by (simp add: div_less_iff_less_mult)
  have R: "m_off g nc ci \<le> R div tile_m g \<longleftrightarrow> m_off g nc ci * tile_m g \<le> R"
    "R div tile_m g < m_off g nc ci + cluster_m_tiles g nc \<longleftrightarrow> R < (m_off g nc ci + cluster_m_tiles g nc) * tile_m g"
    using pos(1) by (simp_all add: div_less_iff_less_mult less_eq_div_iff_mult_less_eq)
  have "R div tile_m g = mn div n_tiles g + m_off g nc ci \<and> c div tile_n g = mn mod n_tiles g
    \<longleftrightarrow> (m_off g nc ci \<le> R div tile_m g \<and> R div tile_m g < m_off g nc ci + cluster_m_tiles g nc \<and> c div tile_n g < n_tiles g)
      \<and> (R div tile_m g - m_off g nc ci) * n_tiles g + c div tile_n g = mn" (is "?L \<longleftrightarrow> ?R")
  proof
    assume ?L
    then show ?R using mm pos(3) by auto
  next
    assume r: ?R
    then have "mn div n_tiles g = R div tile_m g - m_off g nc ci" "mn mod n_tiles g = c div tile_n g" by auto
    then show ?L using r by simp
  qed
  then show ?thesis using L unfolding in_cluster_def mn_of_def c R by (simp only: R_def c_def mn_def)
qed

lemma in_cluster_mn: "in_cluster g nc ci x \<Longrightarrow> gemm_plain g \<Longrightarrow> mn_of g nc ci x < cluster_m_tiles g nc * n_tiles g"
proof -
  assume a: "in_cluster g nc ci x" "gemm_plain g"
  have pos: "0 < tile_m g" "0 < tile_n g" using a(2) by (simp_all add: gemm_plain_def)
  have "x div g_ldc g div tile_m g - m_off g nc ci < cluster_m_tiles g nc" "x mod g_ldc g div tile_n g < n_tiles g"
    using a(1) pos by (auto simp: in_cluster_def less_mult_imp_div_less less_diff_conv2 less_eq_div_iff_mult_less_eq add.commute)
  then have "Suc (x div g_ldc g div tile_m g - m_off g nc ci) * n_tiles g \<le> cluster_m_tiles g nc * n_tiles g"
    by (intro mult_le_mono1) simp
  then show ?thesis using \<open>x mod g_ldc g div tile_n g < n_tiles g\<close> by (simp add: mn_of_def)
qed

subsection \<open>The phases\<close>

lemma gemm_load_a_holds:
  assumes "gemm_plain g"
  shows "holds_a g nc ci A i (gs_la (gemm_load_a g bl nc ci A i s) (ab_buff g i))"
  using assms unfolding holds_a_def
  by (auto simp: gemm_load_a_def Let_def load_tile_at tile_row_def plain_k [OF assms] gemm_plain_def)

lemma gemm_load_b_holds:
  assumes "gemm_plain g"
  shows "holds_b g nc ci B i (gs_lb (gemm_load_b g bl nc ci B i s) (ab_buff g i))"
  using assms unfolding holds_b_def
  by (auto simp: gemm_load_b_def Let_def load_tile_at tile_col_def b_at_def plain_k [OF assms] gemm_plain_def)

lemma gemm_load_c_holds:
  assumes p: "gemm_plain g" and k: "ix_k g nc ci i = 0"
    and C: "\<And>r c. r < tile_m g \<Longrightarrow> c < tile_n g \<Longrightarrow>
      gs_c s (tile_row g nc ci i r * g_ldc g + tile_col g nc ci i c) = C0 (tile_row g nc ci i r * g_ldc g + tile_col g nc ci i c)"
  shows "holds_c dbl g nc ci A B C0 i 0 (gs_lc (gemm_load_c g bl nc ci i s) (c_buff g nc ci i))"
  using p k C unfolding holds_c_def
  by (auto simp: gemm_load_c_def Let_def load_tile_at tile_row_def tile_col_def gemm_part_def plain_k(2) [OF p] gemm_plain_def)

lemma gemm_in_other:
  assumes "gemm_plain g"
  shows "gs_c (gemm_dma_in g bl nc ci A B i s) = gs_c s"
    and "b \<noteq> ab_buff g i \<Longrightarrow> gs_la (gemm_dma_in g bl nc ci A B i s) b = gs_la s b"
    and "b \<noteq> ab_buff g i \<Longrightarrow> gs_lb (gemm_dma_in g bl nc ci A B i s) b = gs_lb s b"
    and "b \<noteq> c_buff g nc ci i \<or> ix_k g nc ci i \<noteq> 0 \<Longrightarrow> gs_lc (gemm_dma_in g bl nc ci A B i s) b = gs_lc s b"
  using assms by (auto simp: gemm_dma_in_def gemm_load_a_def gemm_load_b_def gemm_load_c_def Let_def plain_k(2) [OF assms])

lemma gemm_in_holds:
  assumes p: "gemm_plain g" and i: "i < num_tiles g nc ci"
  shows "holds_a g nc ci A i (gs_la (gemm_dma_in g bl nc ci A B i s) (ab_buff g i))"
    and "holds_b g nc ci B i (gs_lb (gemm_dma_in g bl nc ci A B i s) (ab_buff g i))"
    and "ix_k g nc ci i = 0 \<Longrightarrow> (\<And>r c. r < tile_m g \<Longrightarrow> c < tile_n g \<Longrightarrow>
        gs_c s (tile_row g nc ci i r * g_ldc g + tile_col g nc ci i c) = C0 (tile_row g nc ci i r * g_ldc g + tile_col g nc ci i c))
      \<Longrightarrow> holds_c dbl g nc ci A B C0 i 0 (gs_lc (gemm_dma_in g bl nc ci A B i s) (c_buff g nc ci i))"
proof -
  let ?a = "gemm_load_a g bl nc ci A i s"
  let ?b = "gemm_load_b g bl nc ci B i ?a"
  have e: "gemm_dma_in g bl nc ci A B i s = gemm_load_c g bl nc ci i ?b" using i by (simp add: gemm_dma_in_def)
  have c: "gs_la (gemm_load_c g bl nc ci i t) = gs_la t" "gs_lb (gemm_load_c g bl nc ci i t) = gs_lb t" for t :: "'a gemm_state"
    by (simp_all add: gemm_load_c_def Let_def)
  have "gs_la ?b = gs_la ?a" by (simp add: gemm_load_b_def Let_def)
  then show "holds_a g nc ci A i (gs_la (gemm_dma_in g bl nc ci A B i s) (ab_buff g i))"
    using gemm_load_a_holds [OF p, of nc ci A i bl s] by (simp only: e c)
  show "holds_b g nc ci B i (gs_lb (gemm_dma_in g bl nc ci A B i s) (ab_buff g i))"
    using gemm_load_b_holds [OF p, of nc ci B i bl ?a] by (simp only: e c)
  have "gs_c ?b = gs_c s" by (simp add: gemm_load_b_def gemm_load_a_def Let_def)
  then show "holds_c dbl g nc ci A B C0 i 0 (gs_lc (gemm_dma_in g bl nc ci A B i s) (c_buff g nc ci i))"
    if "ix_k g nc ci i = 0" "\<And>r c. r < tile_m g \<Longrightarrow> c < tile_n g \<Longrightarrow>
        gs_c s (tile_row g nc ci i r * g_ldc g + tile_col g nc ci i c) = C0 (tile_row g nc ci i r * g_ldc g + tile_col g nc ci i c)"
    unfolding e using that by (intro gemm_load_c_holds [OF p]) simp_all
qed

context gemm_kernel
begin

lemma gemm_compute_other:
  "gs_c (gemm_compute fp core_num cores g bl nc ci i s) = gs_c s"
  "gs_la (gemm_compute fp core_num cores g bl nc ci i s) = gs_la s"
  "gs_lb (gemm_compute fp core_num cores g bl nc ci i s) = gs_lb s"
  "b \<noteq> c_buff g nc ci i \<Longrightarrow> gs_lc (gemm_compute fp core_num cores g bl nc ci i s) b = gs_lc s b"
  by (simp_all add: gemm_compute_def Let_def)

lemma tiles_ok_space:
  assumes ok: "tiles_ok dims fits g" and "r < tile_m g" "c < tile_n g"
  shows "in_space fits (transb g) (tile_m g) (tile_n g) (tile_k g) 0 (tile_k g) 0 (if transb g then tile_k g else tile_n g) 0 (tile_n g)"
proof -
  have e: "(m - 1) * l + l = m * l" if "0 < m" for m l :: nat using that by (cases m) simp_all
  have "tile_n g \<le> tile_m g * tile_n g" using assms(2) by simp
  then have "fits (tile_n g)" using ok unfolding tiles_ok_def by (blast intro: fits_mono)
  then have "fits ((tile_k g - 1) * tile_n g + tile_n g)"
    using ok e [of "tile_k g"] by (cases "tile_k g = 0") (simp_all add: tiles_ok_def)
  moreover have "(tile_m g - 1) * l + l = tile_m g * l" "(tile_n g - 1) * l + l = tile_n g * l" for l
    using assms(2,3) e [of "tile_m g" l] e [of "tile_n g" l] by simp_all
  ultimately show ?thesis using ok by (simp add: in_space_def tiles_ok_def mult.commute [of "tile_n g" "tile_k g"])
qed

text \<open>A tile computation adds the tile's part of the sum.\<close>

lemma gemm_compute_holds:
  assumes p: "gemm_plain g" and i: "i < num_tiles g nc ci"
    and cores: "distinct cores" "set cores = {..<core_num}" "0 < core_num"
    and one: "dbl 1 \<noteq> 0" "\<And>x. x * dbl 1 = x" "tiles_ok dims fits g"
    and a: "holds_a g nc ci A i (gs_la s (ab_buff g i))" and b: "holds_b g nc ci B i (gs_lb s (ab_buff g i))"
    and c: "holds_c dbl g nc ci A B C0 i (ix_k g nc ci i) (gs_lc s (c_buff g nc ci i))"
  shows "holds_c dbl g nc ci A B C0 i (Suc (ix_k g nc ci i))
    (gs_lc (gemm_compute fp core_num cores g bl nc ci i s) (c_buff g nc ci i))"
  unfolding holds_c_def
proof (intro allI impI)
  fix r c' assume rc: "r < tile_m g" "c' < tile_n g"
  let ?tb = "transb g" and ?k = "ix_k g nc ci i" and ?R = "tile_row g nc ci i r" and ?c = "tile_col g nc ci i c'"
  let ?la = "gs_la s (ab_buff g i)" and ?lb = "gs_lb s (ab_buff g i)" and ?lc = "gs_lc s (c_buff g nc ci i)"
  let ?x = "C0 (?R * g_ldc g + ?c)" and ?ldb = "if ?tb then tile_k g else tile_n g"
  let ?bk = "if k_abs g nc ci i = 0 then g_beta g else 1"
  have f: "\<not> partition_banks g" "\<not> transa g" using p by (simp_all add: gemm_plain_def)
  have ak: "?la (r * tile_k g + k) = A (?R * g_lda g + (?k * tile_k g + k))" if "k < tile_k g" for k
    using a rc that by (simp add: holds_a_def)
  have bk: "?lb (b_at ?tb ?ldb c' k) = B (b_at ?tb (g_ldb g) ?c (?k * tile_k g + k))" if "k < tile_k g" for k
    using b rc that unfolding holds_b_def by blast
  have pos: "\<And>r c. c < tile_n g \<Longrightarrow> (r * tile_n g + c) div tile_n g = r" "\<And>r c. c < tile_n g \<Longrightarrow> (r * tile_n g + c) mod tile_n g = c"
    by simp_all
  have dims: "dims (tile_n g) (tile_k g) ?bk" using one(3) by (simp add: tiles_ok_def)
  have sp: "in_space fits ?tb (tile_m g) (tile_n g) (tile_k g) 0 (tile_k g) 0 ?ldb 0 (tile_n g)"
    using one(3) rc by (rule tiles_ok_space) 
  have "gs_lc (gemm_compute fp core_num cores g bl nc ci i s) (c_buff g nc ci i)
      = gemm_spec dbl ?tb (tile_m g) (tile_n g) (tile_k g) ?la 0 (tile_k g) ?lb 0 ?ldb ?bk ?lc 0 (tile_n g)"
    using i f rc(2) all_cores [OF order.refl _ cores dims sp, of ?la ?lb ?lc]
    by (simp add: gemm_compute_def Let_def cong: if_cong split del: if_split)
  then have "gs_lc (gemm_compute fp core_num cores g bl nc ci i s) (c_buff g nc ci i) (r * tile_n g + c')
      = gemm_cell dbl ?tb (tile_k g) ?la 0 (tile_k g) ?lb 0 ?ldb ?bk (?lc (r * tile_n g + c')) r c'"
    using rc by (simp add: gemm_spec_def pos)
  also have "?lc (r * tile_n g + c') = gemm_part dbl g A B ?k ?x ?R ?c" using c rc by (simp add: holds_c_def)
  also have "gemm_cell dbl ?tb (tile_k g) ?la 0 (tile_k g) ?lb 0 ?ldb ?bk y r c'
      = for_upto 0 (tile_k g) (\<lambda>k c0. c0 + A (?R * g_lda g + (?k * tile_k g + k)) * B (b_at ?tb (g_ldb g) ?c (?k * tile_k g + k)))
          (multiply_opt y (dbl ?bk))" for y
    unfolding gemm_cell_def b_at_def [symmetric] by (rule fun_cong [OF for_upto_cong]) (simp only: ak bk add_0)
  also have "multiply_opt (gemm_part dbl g A B ?k ?x ?R ?c) (dbl ?bk)
      = for_upto 0 (?k * tile_k g) (\<lambda>k c0. c0 + A (?R * g_lda g + k) * B (b_at ?tb (g_ldb g) ?c k)) (multiply_opt ?x (dbl (g_beta g)))"
    using one by (simp add: plain_k(2) [OF p] gemm_part_def gemm_cell_def b_at_def multiply_opt_def)
  also have "for_upto 0 (tile_k g) (\<lambda>k c0. c0 + A (?R * g_lda g + (?k * tile_k g + k)) * B (b_at ?tb (g_ldb g) ?c (?k * tile_k g + k)))
       (for_upto 0 (?k * tile_k g) (\<lambda>k c0. c0 + A (?R * g_lda g + k) * B (b_at ?tb (g_ldb g) ?c k)) (multiply_opt ?x (dbl (g_beta g))))
      = gemm_part dbl g A B (Suc ?k) ?x ?R ?c"
    by (simp add: gemm_part_def gemm_cell_def b_at_def add.commute [of "tile_k g"] for_upto_append)
  finally show "gs_lc (gemm_compute fp core_num cores g bl nc ci i s) (c_buff g nc ci i) (r * tile_n g + c')
      = gemm_part dbl g A B (Suc ?k) ?x ?R ?c" .
qed

end

text \<open>Storing tile \<open>i\<close>.\<close>

lemma gemm_out_other:
  "gs_la (gemm_dma_out g bl nc ci i s) = gs_la s" "gs_lb (gemm_dma_out g bl nc ci i s) = gs_lb s"
  "gs_lc (gemm_dma_out g bl nc ci i s) = gs_lc s"
  by (simp_all add: gemm_dma_out_def)

lemma gemm_out_at:
  assumes p: "gemm_plain g" and i: "i < num_tiles g nc ci"
  shows "gs_c (gemm_dma_out g bl nc ci i s) x
    = (if in_cluster g nc ci x \<and> mn_of g nc ci x = i div k_tiles g
       then gs_lc s (c_buff g nc ci i) ((x div g_ldc g - m_abs g nc ci i * tile_m g) * tile_n g
         + (x mod g_ldc g - ix_n g nc ci i * tile_n g)) else gs_c s x)"
proof -
  have "Suc (ix_n g nc ci i) * tile_n g \<le> n_tiles g * tile_n g"
    using p by (intro mult_le_mono1) (simp add: ix_n_def gemm_plain_def Suc_leI)
  also have "\<dots> \<le> g_ldc g" using p by (simp add: gemm_plain_def)
  finally have "ix_n g nc ci i * tile_n g + tile_n g \<le> g_ldc g" by simp
  note at = store_tile_at [OF this]
  have "gs_c (gemm_dma_out g bl nc ci i s) x = store_tile (gs_c s) (gs_lc s (c_buff g nc ci i)) (m_abs g nc ci i)
      (ix_n g nc ci i) (tile_m g) (tile_n g) (g_ldc g) x" using p by (simp add: gemm_dma_out_def gemm_plain_def)
  then show ?thesis unfolding at in_tile_iff [OF p i] .
qed

subsection \<open>The invariant\<close>

definition gemm_inv :: "(nat \<Rightarrow> 'a::{times,zero,plus}) \<Rightarrow> gemm_args \<Rightarrow> nat \<Rightarrow> nat \<Rightarrow> (nat \<Rightarrow> 'a) \<Rightarrow> (nat \<Rightarrow> 'a) \<Rightarrow> (nat \<Rightarrow> 'a)
    \<Rightarrow> nat \<Rightarrow> nat \<Rightarrow> nat \<Rightarrow> 'a gemm_state \<Rightarrow> bool" where
  "gemm_inv dbl g nc ci A B C0 ld cp st s \<longleftrightarrow>
     st \<le> cp \<and> cp \<le> ld \<and> ld \<le> num_tiles g nc ci
     \<and> (\<forall>t. cp \<le> t \<and> t < ld \<longrightarrow> holds_a g nc ci A t (gs_la s (ab_buff g t)) \<and> holds_b g nc ci B t (gs_lb s (ab_buff g t))
          \<and> (ix_k g nc ci t = 0 \<longrightarrow> holds_c dbl g nc ci A B C0 t 0 (gs_lc s (c_buff g nc ci t))))
     \<and> (\<forall>t. st \<le> t \<and> t < cp \<and> Suc (ix_k g nc ci t) = k_tiles g \<longrightarrow>
          holds_c dbl g nc ci A B C0 t (k_tiles g) (gs_lc s (c_buff g nc ci t)))
     \<and> (\<forall>t. Suc t = cp \<and> Suc (ix_k g nc ci t) < k_tiles g \<longrightarrow>
          holds_c dbl g nc ci A B C0 t (Suc (ix_k g nc ci t)) (gs_lc s (c_buff g nc ci t)))
     \<and> (\<forall>x. if in_cluster g nc ci x
          then (mn_of g nc ci x * k_tiles g + k_tiles g \<le> st \<longrightarrow>
                  gs_c s x = gemm_part dbl g A B (k_tiles g) (C0 x) (x div g_ldc g) (x mod g_ldc g))
            \<and> (st \<le> mn_of g nc ci x * k_tiles g \<longrightarrow> gs_c s x = C0 x)
          else gs_c s x = C0 x)"

lemma gemm_invD:
  assumes "gemm_inv dbl g nc ci A B C0 ld cp st s"
  shows "st \<le> cp" and "cp \<le> ld" and "ld \<le> num_tiles g nc ci"
    and "\<And>t. cp \<le> t \<Longrightarrow> t < ld \<Longrightarrow> holds_a g nc ci A t (gs_la s (ab_buff g t))"
    and "\<And>t. cp \<le> t \<Longrightarrow> t < ld \<Longrightarrow> holds_b g nc ci B t (gs_lb s (ab_buff g t))"
    and "\<And>t. cp \<le> t \<Longrightarrow> t < ld \<Longrightarrow> ix_k g nc ci t = 0 \<Longrightarrow> holds_c dbl g nc ci A B C0 t 0 (gs_lc s (c_buff g nc ci t))"
    and "\<And>t. st \<le> t \<Longrightarrow> t < cp \<Longrightarrow> Suc (ix_k g nc ci t) = k_tiles g \<Longrightarrow>
      holds_c dbl g nc ci A B C0 t (k_tiles g) (gs_lc s (c_buff g nc ci t))"
    and "\<And>t. Suc t = cp \<Longrightarrow> Suc (ix_k g nc ci t) < k_tiles g \<Longrightarrow>
      holds_c dbl g nc ci A B C0 t (Suc (ix_k g nc ci t)) (gs_lc s (c_buff g nc ci t))"
    and "\<And>x. in_cluster g nc ci x \<Longrightarrow> mn_of g nc ci x * k_tiles g + k_tiles g \<le> st \<Longrightarrow>
      gs_c s x = gemm_part dbl g A B (k_tiles g) (C0 x) (x div g_ldc g) (x mod g_ldc g)"
    and "\<And>x. in_cluster g nc ci x \<Longrightarrow> st \<le> mn_of g nc ci x * k_tiles g \<Longrightarrow> gs_c s x = C0 x"
    and "\<And>x. \<not> in_cluster g nc ci x \<Longrightarrow> gs_c s x = C0 x"
proof -
  note I = assms [unfolded gemm_inv_def]
  show "st \<le> cp" "cp \<le> ld" "ld \<le> num_tiles g nc ci" using I by blast+
  show "holds_a g nc ci A t (gs_la s (ab_buff g t))" "holds_b g nc ci B t (gs_lb s (ab_buff g t))"
    "ix_k g nc ci t = 0 \<Longrightarrow> holds_c dbl g nc ci A B C0 t 0 (gs_lc s (c_buff g nc ci t))" if "cp \<le> t" "t < ld" for t
    using I that by blast+
  show "holds_c dbl g nc ci A B C0 t (k_tiles g) (gs_lc s (c_buff g nc ci t))"
    if "st \<le> t" "t < cp" "Suc (ix_k g nc ci t) = k_tiles g" for t
    using I that by blast
  show "holds_c dbl g nc ci A B C0 t (Suc (ix_k g nc ci t)) (gs_lc s (c_buff g nc ci t))"
    if "Suc t = cp" "Suc (ix_k g nc ci t) < k_tiles g" for t
    using I that by blast
  have G: "if in_cluster g nc ci x
          then (mn_of g nc ci x * k_tiles g + k_tiles g \<le> st \<longrightarrow>
                  gs_c s x = gemm_part dbl g A B (k_tiles g) (C0 x) (x div g_ldc g) (x mod g_ldc g))
            \<and> (st \<le> mn_of g nc ci x * k_tiles g \<longrightarrow> gs_c s x = C0 x)
          else gs_c s x = C0 x" for x using I by blast
  show "gs_c s x = gemm_part dbl g A B (k_tiles g) (C0 x) (x div g_ldc g) (x mod g_ldc g)"
    if "in_cluster g nc ci x" "mn_of g nc ci x * k_tiles g + k_tiles g \<le> st" for x using G [of x] that by simp
  show "gs_c s x = C0 x" if "in_cluster g nc ci x" "st \<le> mn_of g nc ci x * k_tiles g" for x using G [of x] that by simp
  show "gs_c s x = C0 x" if "\<not> in_cluster g nc ci x" for x using G [of x] that by simp
qed

text \<open>The next tile: the same tile of \<open>C\<close>, or, after the last one along \<open>k\<close>, the other buffer.\<close>

lemma next_tile:
  assumes p: "gemm_plain g"
  shows "ix_k g nc ci (Suc t) = 0 \<longleftrightarrow> Suc (ix_k g nc ci t) = k_tiles g"
    and "Suc (ix_k g nc ci t) \<le> k_tiles g"
    and "ix_k g nc ci (Suc t) \<noteq> 0 \<Longrightarrow> ix_k g nc ci (Suc t) = Suc (ix_k g nc ci t)"
    and "ix_k g nc ci (Suc t) \<noteq> 0 \<Longrightarrow> holds_c dbl g nc ci A B C0 (Suc t) j = holds_c dbl g nc ci A B C0 t j"
    and "ix_k g nc ci (Suc t) \<noteq> 0 \<Longrightarrow> c_buff g nc ci (Suc t) = c_buff g nc ci t"
    and "ix_k g nc ci (Suc t) = 0 \<Longrightarrow> double_buffer g \<Longrightarrow> c_buff g nc ci (Suc t) \<noteq> c_buff g nc ci t"
    and "double_buffer g \<Longrightarrow> ab_buff g (Suc t) \<noteq> ab_buff g t"
proof -
  have q: "0 < k_tiles g" using p by (simp add: gemm_plain_def)
  note k = plain_k(3,4) [OF p]
  show z: "ix_k g nc ci (Suc t) = 0 \<longleftrightarrow> Suc (ix_k g nc ci t) = k_tiles g"
    and s: "ix_k g nc ci (Suc t) \<noteq> 0 \<Longrightarrow> ix_k g nc ci (Suc t) = Suc (ix_k g nc ci t)"
    using q by (auto simp: k mod_Suc)
  show "Suc (ix_k g nc ci t) \<le> k_tiles g" using q by (simp add: k Suc_leI)
  have mn: "ix_mn g nc ci (Suc t) = (if ix_k g nc ci (Suc t) = 0 then Suc (ix_mn g nc ci t) else ix_mn g nc ci t)"
    by (simp add: k div_Suc)
  show "ix_k g nc ci (Suc t) \<noteq> 0 \<Longrightarrow> holds_c dbl g nc ci A B C0 (Suc t) j = holds_c dbl g nc ci A B C0 t j"
    by (simp add: fun_eq_iff holds_c_def tile_row_def tile_col_def m_abs_def ix_n_def mn)
  show "ix_k g nc ci (Suc t) \<noteq> 0 \<Longrightarrow> c_buff g nc ci (Suc t) = c_buff g nc ci t" by (simp add: c_buff_def mn)
  show "ix_k g nc ci (Suc t) = 0 \<Longrightarrow> double_buffer g \<Longrightarrow> c_buff g nc ci (Suc t) \<noteq> c_buff g nc ci t"
    by (simp add: c_buff_def mn mod_Suc)
  show "double_buffer g \<Longrightarrow> ab_buff g (Suc t) \<noteq> ab_buff g t" by (simp add: ab_buff_def mod_Suc)
qed

lemma tile_position:
  assumes p: "gemm_plain g" and i: "i < num_tiles g nc ci" and rc: "r < tile_m g" "c < tile_n g"
  defines "x \<equiv> tile_row g nc ci i r * g_ldc g + tile_col g nc ci i c"
  shows "in_cluster g nc ci x" and "mn_of g nc ci x = i div k_tiles g"
    and "x div g_ldc g = tile_row g nc ci i r" and "x mod g_ldc g = tile_col g nc ci i c"
proof -
  have "Suc (ix_n g nc ci i) * tile_n g \<le> n_tiles g * tile_n g"
    using p by (intro mult_le_mono1) (simp add: ix_n_def gemm_plain_def Suc_leI)
  also have "\<dots> \<le> g_ldc g" using p by (simp add: gemm_plain_def)
  finally have "tile_col g nc ci i c < g_ldc g" using rc by (simp add: tile_col_def)
  then show d: "x div g_ldc g = tile_row g nc ci i r" "x mod g_ldc g = tile_col g nc ci i c"
    unfolding x_def by simp_all
  have "in_cluster g nc ci x \<and> mn_of g nc ci x = i div k_tiles g"
    unfolding in_tile_iff [OF p i, symmetric] d using rc by (simp add: tile_row_def tile_col_def)
  then show "in_cluster g nc ci x" "mn_of g nc ci x = i div k_tiles g" by auto
qed

text \<open>Loading the next tile.\<close>

lemma gemm_inv_load:
  assumes p: "gemm_plain g" and I: "gemm_inv dbl g nc ci A B C0 ld cp st s" and ld: "ld < num_tiles g nc ci"
    and db: "double_buffer g \<and> ld \<le> Suc st \<and> ld \<le> Suc cp \<or> st = ld \<and> cp = ld"
  shows "gemm_inv dbl g nc ci A B C0 (Suc ld) cp st (gemm_dma_in g bl nc ci A B ld s)"
proof -
  note D = gemm_invD [OF I] and N = next_tile [OF p] and O = gemm_in_other [OF p, where s = s and i = ld]
  let ?t = "gemm_dma_in g bl nc ci A B ld s"
  have old: "Suc t = ld \<and> double_buffer g" if "cp \<le> t" "t < ld" for t using that db by auto
  have lc: "gs_lc ?t (c_buff g nc ci t) = gs_lc s (c_buff g nc ci t)"
    if t: "Suc t = ld \<or> Suc (Suc t) = ld \<and> Suc (ix_k g nc ci t) < k_tiles g"
      and d: "double_buffer g \<or> ix_k g nc ci ld \<noteq> 0" for t
  proof (cases "ix_k g nc ci ld = 0")
    case True
    then have d: "double_buffer g" using d by simp
    from t have "c_buff g nc ci ld \<noteq> c_buff g nc ci t"
    proof
      assume "Suc t = ld"
      then show ?thesis using N(6) [of nc ci t] True d by auto
    next
      assume t: "Suc (Suc t) = ld \<and> Suc (ix_k g nc ci t) < k_tiles g"
      then have "c_buff g nc ci (Suc t) = c_buff g nc ci t" using N(1) [of nc ci t] N(5) [of nc ci t] by simp
      then show ?thesis using N(6) [of nc ci "Suc t"] True d t by auto
    qed
    then show ?thesis by (intro O(4)) auto
  qed (use O(4) in auto)
  have C: "gs_c s (tile_row g nc ci ld r * g_ldc g + tile_col g nc ci ld c) = C0 (tile_row g nc ci ld r * g_ldc g + tile_col g nc ci ld c)"
    if "ix_k g nc ci ld = 0" "r < tile_m g" "c < tile_n g" for r c
  proof (rule D(10))
    note T = tile_position [OF p ld that(2,3)]
    show "in_cluster g nc ci (tile_row g nc ci ld r * g_ldc g + tile_col g nc ci ld c)" by (rule T(1))
    have "ld div k_tiles g * k_tiles g = ld" using that(1) div_mult_mod_eq [of ld "k_tiles g"] by (simp add: plain_k(3) [OF p])
    then show "st \<le> mn_of g nc ci (tile_row g nc ci ld r * g_ldc g + tile_col g nc ci ld c) * k_tiles g"
      using D(1,2) by (simp add: T(2))
  qed
  show ?thesis unfolding gemm_inv_def
  proof (intro conjI allI impI)
    show "st \<le> cp" "cp \<le> Suc ld" "Suc ld \<le> num_tiles g nc ci" using D(1,2) ld by auto
  next
    fix t assume "cp \<le> t \<and> t < Suc ld"
    then consider "t = ld" | "cp \<le> t" "t < ld" "Suc t = ld" "double_buffer g" using old by fastforce
    then have "holds_a g nc ci A t (gs_la ?t (ab_buff g t)) \<and> holds_b g nc ci B t (gs_lb ?t (ab_buff g t))
      \<and> (ix_k g nc ci t = 0 \<longrightarrow> holds_c dbl g nc ci A B C0 t 0 (gs_lc ?t (c_buff g nc ci t)))"
    proof cases
      case 1
      then show ?thesis using gemm_in_holds [OF p ld] C by blast
    next
      case 2
      then have "ab_buff g t \<noteq> ab_buff g ld" using N(7) [of t] by auto
      then show ?thesis using 2 D(4-6) lc [of t] by (simp add: O(2,3))
    qed
    then show "holds_a g nc ci A t (gs_la ?t (ab_buff g t))" "holds_b g nc ci B t (gs_lb ?t (ab_buff g t))"
      "ix_k g nc ci t = 0 \<Longrightarrow> holds_c dbl g nc ci A B C0 t 0 (gs_lc ?t (c_buff g nc ci t))" by blast+
  next
    fix t assume t: "st \<le> t \<and> t < cp \<and> Suc (ix_k g nc ci t) = k_tiles g"
    then have "Suc t = ld" "double_buffer g" using db D(2) by auto
    then show "holds_c dbl g nc ci A B C0 t (k_tiles g) (gs_lc ?t (c_buff g nc ci t))" using t D(7) lc [of t] by simp
  next
    fix t assume t: "Suc t = cp \<and> Suc (ix_k g nc ci t) < k_tiles g"
    then have "Suc t = ld \<or> Suc (Suc t) = ld \<and> double_buffer g" using db D(2) by (cases "Suc t = ld") auto
    moreover have "ix_k g nc ci (Suc t) \<noteq> 0" using N(1) [of nc ci t] t by simp
    ultimately have "gs_lc ?t (c_buff g nc ci t) = gs_lc s (c_buff g nc ci t)" using lc [of t] t by blast
    then show "holds_c dbl g nc ci A B C0 t (Suc (ix_k g nc ci t)) (gs_lc ?t (c_buff g nc ci t))" using t D(8) by simp
  next
    show "if in_cluster g nc ci x
          then (mn_of g nc ci x * k_tiles g + k_tiles g \<le> st \<longrightarrow>
                  gs_c ?t x = gemm_part dbl g A B (k_tiles g) (C0 x) (x div g_ldc g) (x mod g_ldc g))
            \<and> (st \<le> mn_of g nc ci x * k_tiles g \<longrightarrow> gs_c ?t x = C0 x)
          else gs_c ?t x = C0 x" for x using D(9-11) [of x] by (simp add: O(1))
  qed
qed

text \<open>Storing the oldest computed tile.\<close>

lemma gemm_inv_store:
  assumes p: "gemm_plain g" and I: "gemm_inv dbl g nc ci A B C0 ld cp st s" and st: "st < cp"
  shows "gemm_inv dbl g nc ci A B C0 ld cp (Suc st) (gemm_dma_out g bl nc ci st s)"
proof -
  note D = gemm_invD [OF I]
  have q: "0 < k_tiles g" using p by (simp add: gemm_plain_def)
  have T: "st < num_tiles g nc ci" using st D(2,3) by simp
  let ?t = "gemm_dma_out g bl nc ci st s"
  note at = gemm_out_at [OF p T, of bl s] and O = gemm_out_other [of g bl nc ci st s]
  have sd: "st div k_tiles g * k_tiles g \<le> st" "st < st div k_tiles g * k_tiles g + k_tiles g"
    using dividend_less_div_times [OF q, of st] by (simp_all add: add.commute)
  have final: "gs_c ?t x = gemm_part dbl g A B (k_tiles g) (C0 x) (x div g_ldc g) (x mod g_ldc g)"
    if x: "in_cluster g nc ci x" "mn_of g nc ci x * k_tiles g + k_tiles g \<le> Suc st" for x
  proof (cases "mn_of g nc ci x = st div k_tiles g")
    case True
    have k: "Suc (ix_k g nc ci st) = k_tiles g"
      using x(2) sd(2) div_mult_mod_eq [of st "k_tiles g"] unfolding True plain_k(3) [OF p] by linarith
    let ?r = "x div g_ldc g - m_abs g nc ci st * tile_m g" and ?c = "x mod g_ldc g - ix_n g nc ci st * tile_n g"
    have b: "m_abs g nc ci st * tile_m g \<le> x div g_ldc g" "x div g_ldc g < m_abs g nc ci st * tile_m g + tile_m g"
      "ix_n g nc ci st * tile_n g \<le> x mod g_ldc g" "x mod g_ldc g < ix_n g nc ci st * tile_n g + tile_n g"
      using in_tile_iff [OF p T, of x] x(1) True by auto
    have "tile_row g nc ci st ?r = x div g_ldc g" "tile_col g nc ci st ?c = x mod g_ldc g"
      using b by (simp_all add: tile_row_def tile_col_def)
    moreover have "?r < tile_m g" "?c < tile_n g" using b by auto
    ultimately show ?thesis
      using D(7) [OF order.refl st k] x(1) True by (auto simp: at holds_c_def)
  next
    case False
    have "mn_of g nc ci x * k_tiles g + k_tiles g \<noteq> Suc st"
    proof
      assume e: "mn_of g nc ci x * k_tiles g + k_tiles g = Suc st"
      then have "st = mn_of g nc ci x * k_tiles g + (k_tiles g - 1)" using q by simp
      then have "st div k_tiles g = mn_of g nc ci x"
        using div_mod_position(1) [of "k_tiles g - 1" "k_tiles g" "mn_of g nc ci x"] q by (simp only: diff_less zero_less_one)
      then show False using False by simp
    qed
    then have "mn_of g nc ci x * k_tiles g + k_tiles g \<le> st" using x(2) by simp
    then show ?thesis using D(9) [OF x(1)] False by (simp add: at)
  qed
  have orig: "gs_c ?t x = C0 x" if x: "in_cluster g nc ci x" "Suc st \<le> mn_of g nc ci x * k_tiles g" for x
  proof -
    have "mn_of g nc ci x \<noteq> st div k_tiles g" using x(2) sd(1) by (metis not_less_eq_eq)
    then show ?thesis using D(10) [OF x(1)] x(2) by (simp add: at)
  qed
  have out: "gs_c ?t x = C0 x" if "\<not> in_cluster g nc ci x" for x using D(11) [OF that] that by (simp add: at)
  have "Suc st \<le> cp" using st by simp
  then show ?thesis unfolding gemm_inv_def O
    using D(2-8) final orig out by (intro conjI allI impI) (auto intro: Suc_leD)
qed

context gemm_kernel
begin

text \<open>Computing the next tile.\<close>

lemma gemm_inv_compute:
  assumes p: "gemm_plain g" and I: "gemm_inv dbl g nc ci A B C0 ld cp st s" and cp: "cp < ld"
    and cores: "distinct cores" "set cores = {..<core_num}" "0 < core_num"
    and one: "dbl 1 \<noteq> 0" "\<And>x. x * dbl 1 = x" "tiles_ok dims fits g"
    and db: "double_buffer g \<and> cp \<le> Suc st \<and> ld \<le> Suc (Suc cp) \<or> st = cp \<and> ld = Suc cp"
  shows "gemm_inv dbl g nc ci A B C0 ld (Suc cp) st (gemm_compute fp core_num cores g bl nc ci cp s)"
proof -
  note D = gemm_invD [OF I] and N = next_tile [OF p]
  let ?t = "gemm_compute fp core_num cores g bl nc ci cp s"
  note O = gemm_compute_other [where s = s and i = cp and g = g and bl = bl and nc = nc and ci = ci and core_num = core_num and cores = cores]
  have T: "cp < num_tiles g nc ci" using cp D(3) by simp
  have before: "holds_c dbl g nc ci A B C0 cp (ix_k g nc ci cp) (gs_lc s (c_buff g nc ci cp))"
  proof (cases "ix_k g nc ci cp = 0")
    case True
    then show ?thesis using D(6) [OF order.refl cp] by simp
  next
    case False
    then obtain t where t: "cp = Suc t" by (cases cp) (auto simp: plain_k(3) [OF p])
    have nz: "ix_k g nc ci (Suc t) \<noteq> 0" using False by (simp add: t)
    have k: "Suc (ix_k g nc ci t) < k_tiles g" using N(1) [of nc ci t] N(2) [of nc ci t] nz by auto
    show ?thesis using D(8) [OF t [symmetric] k] by (simp add: t N(3) [OF nz] N(4) [OF nz] N(5) [OF nz])
  qed
  note new = gemm_compute_holds [where bl = bl, OF p T cores one D(4) [OF order.refl cp] D(5) [OF order.refl cp] before]
  show ?thesis unfolding gemm_inv_def O(1-3)
  proof (intro conjI allI impI)
    show "st \<le> Suc cp" "Suc cp \<le> ld" "ld \<le> num_tiles g nc ci" using D(1,3) cp by auto
  next
    fix t assume t: "Suc cp \<le> t \<and> t < ld"
    then show "holds_a g nc ci A t (gs_la s (ab_buff g t))" "holds_b g nc ci B t (gs_lb s (ab_buff g t))" using D(4,5) by auto
    assume z: "ix_k g nc ci t = 0"
    have "t = Suc cp" "double_buffer g" using t db by auto
    then have "gs_lc ?t (c_buff g nc ci t) = gs_lc s (c_buff g nc ci t)" using N(6) [of nc ci cp] z by (intro O(4)) auto
    then show "holds_c dbl g nc ci A B C0 t 0 (gs_lc ?t (c_buff g nc ci t))" using D(6) [of t] t z by simp
  next
    fix t assume t: "st \<le> t \<and> t < Suc cp \<and> Suc (ix_k g nc ci t) = k_tiles g"
    show "holds_c dbl g nc ci A B C0 t (k_tiles g) (gs_lc ?t (c_buff g nc ci t))"
    proof (cases "t = cp")
      case True
      then show ?thesis using new t by simp
    next
      case False
      then have e: "cp = Suc t" "double_buffer g" using t db by auto
      then have "gs_lc ?t (c_buff g nc ci t) = gs_lc s (c_buff g nc ci t)"
        using N(1,6) [of nc ci t] t by (intro O(4)) auto
      then show ?thesis using D(7) [of t] t e by simp
    qed
  next
    fix t assume "Suc t = Suc cp \<and> Suc (ix_k g nc ci t) < k_tiles g"
    then show "holds_c dbl g nc ci A B C0 t (Suc (ix_k g nc ci t)) (gs_lc ?t (c_buff g nc ci t))" using new by simp
  next
    show "if in_cluster g nc ci x
          then (mn_of g nc ci x * k_tiles g + k_tiles g \<le> st \<longrightarrow>
                  gs_c s x = gemm_part dbl g A B (k_tiles g) (C0 x) (x div g_ldc g) (x mod g_ldc g))
            \<and> (st \<le> mn_of g nc ci x * k_tiles g \<longrightarrow> gs_c s x = C0 x)
          else gs_c s x = C0 x" for x using D(9-11) [of x] by simp
  qed
qed

end

subsection \<open>The loop\<close>

lemma gemm_load_opt:
  assumes p: "gemm_plain g" and I: "gemm_inv dbl g nc ci A B C0 (min i (num_tiles g nc ci)) cp st s"
    and db: "double_buffer g \<and> i \<le> Suc st \<and> i \<le> Suc cp \<or> st = min i (num_tiles g nc ci) \<and> cp = min i (num_tiles g nc ci)"
  shows "gemm_inv dbl g nc ci A B C0 (min (Suc i) (num_tiles g nc ci)) cp st (gemm_dma_in g bl nc ci A B i s)"
proof (cases "i < num_tiles g nc ci")
  case True
  then show ?thesis using gemm_inv_load [OF p, of dbl nc ci A B C0 i cp st s bl] I db by (auto simp: min_def Suc_leI)
next
  case False
  then show ?thesis using I by (simp add: gemm_dma_in_def min_absorb2)
qed

context gemm_kernel
begin

lemma gemm_compute_opt:
  assumes p: "gemm_plain g" and I: "gemm_inv dbl g nc ci A B C0 ld (min i (num_tiles g nc ci)) st s"
    and cores: "distinct cores" "set cores = {..<core_num}" "0 < core_num"
    and one: "dbl 1 \<noteq> 0" "\<And>x. x * dbl 1 = x" "tiles_ok dims fits g" and ld: "i < num_tiles g nc ci \<Longrightarrow> i < ld"
    and db: "double_buffer g \<and> i \<le> Suc st \<and> ld \<le> Suc (Suc i)
      \<or> st = min i (num_tiles g nc ci) \<and> ld = min (Suc i) (num_tiles g nc ci)"
  shows "gemm_inv dbl g nc ci A B C0 ld (min (Suc i) (num_tiles g nc ci)) st
    (gemm_compute fp core_num cores g bl nc ci i s)"
proof (cases "i < num_tiles g nc ci")
  case True
  have "gemm_inv dbl g nc ci A B C0 ld (Suc i) st (gemm_compute fp core_num cores g bl nc ci i s)"
    by (rule gemm_inv_compute [OF p _ ld [OF True] cores one]) (use I True db in \<open>auto simp: min_def Suc_leI\<close>)
  then show ?thesis using True by (simp add: min_def Suc_leI)
next
  case False
  then show ?thesis using I by (simp add: gemm_compute_def min_absorb2)
qed

lemma gemm_iter_double:
  fixes g nc ci
  defines "T \<equiv> num_tiles g nc ci"
  assumes p: "gemm_plain g" and d: "double_buffer g" and I: "gemm_inv dbl g nc ci A B C0 (min i T) (min (i - 1) T) (min (i - 2) T) s"
    and cores: "distinct cores" "set cores = {..<core_num}" "0 < core_num"
    and one: "dbl 1 \<noteq> 0" "\<And>x. x * dbl 1 = x" "tiles_ok dims fits g" and i: "i < num_iters g nc ci"
  shows "gemm_inv dbl g nc ci A B C0 (min (Suc i) T) (min i T) (min (i - 1) T)
    (gemm_iter fp core_num cores g bl nc ci A B ord i s)"
proof -
  let ?I = "gemm_inv dbl g nc ci A B C0"
  define out :: "'a gemm_state \<Rightarrow> 'a gemm_state" where "out = (if 2 \<le> i then gemm_dma_out g bl nc ci (i - 2) else (\<lambda>s. s))"
  define comp :: "'a gemm_state \<Rightarrow> 'a gemm_state" where "comp = (if 1 \<le> i then gemm_compute fp core_num cores g bl nc ci (i - 1) else (\<lambda>s. s))"
  have iT: "i < T + 2" using i d by (simp add: num_iters_def T_def)
  have out: "?I ld cp (min (i - 1) T) (out s)" if "?I ld cp (min (i - 2) T) s" "min (i - 1) T \<le> cp" for ld cp s
  proof (cases "2 \<le> i")
    case True
    have "?I ld cp (Suc (i - 2)) (gemm_dma_out g bl nc ci (i - 2) s)"
      by (rule gemm_inv_store [OF p]) (use that True iT in \<open>auto simp: min_def split: if_splits\<close>)
    moreover have "min (i - 1) T = Suc (i - 2)" using True iT by auto
    ultimately show ?thesis using True by (simp add: out_def)
  next
    case False
    then have "i = 0 \<or> i = 1" by auto
    then show ?thesis using that by (auto simp: out_def)
  qed
  have comp: "?I ld (min i T) st (comp s)" if "?I ld (min (i - 1) T) st s" "min i T \<le> ld" "ld \<le> Suc i" "min (i - 2) T \<le> st" for ld st s
  proof (cases "1 \<le> i")
    case True
    have "?I ld (min (Suc (i - 1)) T) st (gemm_compute fp core_num cores g bl nc ci (i - 1) s)"
      unfolding T_def
      by (rule gemm_compute_opt [OF p _ cores one]) (use that True d iT in \<open>auto simp: T_def min_def split: if_splits\<close>)
    then show ?thesis using True by (simp add: comp_def)
  next
    case False
    then have i0: "i = 0" by simp
    show ?thesis using that(1) unfolding comp_def i0 by simp
  qed
  have load: "?I (min (Suc i) T) cp st (gemm_dma_in g bl nc ci A B i s)"
    if "?I (min i T) cp st s" "min (i - 1) T \<le> cp" "st = min (i - 1) T" for cp st s
    unfolding T_def
    by (rule gemm_load_opt [OF p]) (use that d iT in \<open>auto simp: T_def min_def split: if_splits\<close>)
  have e: "gemm_iter fp core_num cores g bl nc ci A B ord i s
      = (if ord = 0 then gemm_dma_in g bl nc ci A B i (out (comp s))
         else if ord = 1 then gemm_dma_in g bl nc ci A B i (comp (out s)) else comp (gemm_dma_in g bl nc ci A B i (out s)))"
    using d by (simp add: gemm_iter_def Let_def out_def comp_def nat_diff_distrib)
  have "?I (min (Suc i) T) (min i T) (min (i - 1) T) (gemm_dma_in g bl nc ci A B i (out (comp s)))"
    by (intro load out comp I) auto
  moreover have "?I (min (Suc i) T) (min i T) (min (i - 1) T) (gemm_dma_in g bl nc ci A B i (comp (out s)))"
    by (intro load comp out I) auto
  moreover have "?I (min (Suc i) T) (min i T) (min (i - 1) T) (comp (gemm_dma_in g bl nc ci A B i (out s)))"
    by (intro comp load out I) auto
  ultimately show ?thesis by (simp add: e)
qed

lemma gemm_iter_single:
  fixes g nc ci
  defines "T \<equiv> num_tiles g nc ci"
  assumes p: "gemm_plain g" and d: "\<not> double_buffer g" and I: "gemm_inv dbl g nc ci A B C0 (min i T) (min i T) (min (i - 1) T) s"
    and cores: "distinct cores" "set cores = {..<core_num}" "0 < core_num"
    and one: "dbl 1 \<noteq> 0" "\<And>x. x * dbl 1 = x" "tiles_ok dims fits g" and i: "i < num_iters g nc ci"
  shows "gemm_inv dbl g nc ci A B C0 (min (Suc i) T) (min (Suc i) T) (min i T)
    (gemm_iter fp core_num cores g bl nc ci A B ord i s)"
proof -
  let ?I = "gemm_inv dbl g nc ci A B C0"
  define out :: "'a gemm_state \<Rightarrow> 'a gemm_state" where "out = (if 1 \<le> i then gemm_dma_out g bl nc ci (i - 1) else (\<lambda>s. s))"
  have iT: "i < T + 1" using i d by (simp add: num_iters_def T_def)
  have out: "?I (min i T) (min i T) (min i T) (out s)"
  proof (cases "1 \<le> i")
    case True
    have "?I (min i T) (min i T) (Suc (i - 1)) (gemm_dma_out g bl nc ci (i - 1) s)"
      by (rule gemm_inv_store [OF p]) (use I True iT in \<open>auto simp: min_def split: if_splits\<close>)
    then show ?thesis using True iT by (simp add: out_def min_def)
  next
    case False
    then have "i = 0" by simp
    then show ?thesis using I by (simp add: out_def)
  qed
  have load: "?I (min (Suc i) T) (min i T) (min i T) (gemm_dma_in g bl nc ci A B i (out s))"
    unfolding T_def by (rule gemm_load_opt [OF p]) (use out in \<open>simp_all add: T_def\<close>)
  have "?I (min (Suc i) T) (min (Suc i) T) (min i T) (gemm_compute fp core_num cores g bl nc ci i (gemm_dma_in g bl nc ci A B i (out s)))"
    unfolding T_def
    by (rule gemm_compute_opt [OF p _ cores one]) (use load in \<open>auto simp: T_def min_def split: if_splits\<close>)
  moreover have "gemm_iter fp core_num cores g bl nc ci A B ord i s
      = gemm_compute fp core_num cores g bl nc ci i (gemm_dma_in g bl nc ci A B i (out s))"
    using d by (cases i) (simp_all add: gemm_iter_def Let_def out_def nat_diff_distrib nat_add_distrib)
  ultimately show ?thesis by (simp only:)
qed

lemma gemm_cluster_inv:
  assumes p: "gemm_plain g" and cores: "distinct cores" "set cores = {..<core_num}" "0 < core_num"
    and one: "dbl 1 \<noteq> 0" "\<And>x. x * dbl 1 = x" "tiles_ok dims fits g" and s: "gs_c s = C0"
  shows "gemm_inv dbl g nc ci A B C0 (num_tiles g nc ci) (num_tiles g nc ci) (num_tiles g nc ci)
    (gemm_cluster fp core_num cores g bl nc ci A B ord s)"
proof -
  let ?T = "num_tiles g nc ci" and ?I = "gemm_inv dbl g nc ci A B C0"
  have init: "?I 0 0 0 s" using p s by (auto simp: gemm_inv_def gemm_plain_def)
  show ?thesis
  proof (cases "double_buffer g")
    case True
    have "?I (min (num_iters g nc ci) ?T) (min (num_iters g nc ci - 1) ?T) (min (num_iters g nc ci - 2) ?T)
        (gemm_cluster fp core_num cores g bl nc ci A B ord s)"
      unfolding gemm_cluster_def
    proof (rule for_upto_induct [where P = "\<lambda>i s. ?I (min i ?T) (min (i - 1) ?T) (min (i - 2) ?T) s"])
      fix i t assume "i < num_iters g nc ci" "?I (min i ?T) (min (i - 1) ?T) (min (i - 2) ?T) t"
      then show "?I (min (Suc i) ?T) (min (Suc i - 1) ?T) (min (Suc i - 2) ?T) (gemm_iter fp core_num cores g bl nc ci A B (ord i) i t)"
        using gemm_iter_double [OF p True _ cores one] by (simp add: numeral_2_eq_2)
    qed (simp_all add: init)
    then show ?thesis using True by (simp add: num_iters_def)
  next
    case False
    have "?I (min (num_iters g nc ci) ?T) (min (num_iters g nc ci) ?T) (min (num_iters g nc ci - 1) ?T)
        (gemm_cluster fp core_num cores g bl nc ci A B ord s)"
      unfolding gemm_cluster_def
    proof (rule for_upto_induct [where P = "\<lambda>i s. ?I (min i ?T) (min i ?T) (min (i - 1) ?T) s"])
      fix i t assume "i < num_iters g nc ci" "?I (min i ?T) (min i ?T) (min (i - 1) ?T) t"
      then show "?I (min (Suc i) ?T) (min (Suc i) ?T) (min (Suc i - 1) ?T) (gemm_iter fp core_num cores g bl nc ci A B (ord i) i t)"
        using gemm_iter_single [OF p False _ cores one] by simp
    qed (simp_all add: init)
    then show ?thesis using False by (simp add: num_iters_def)
  qed
qed

text \<open>What a cluster computes: the product on its rows.\<close>

lemma gemm_cluster_spec:
  assumes p: "gemm_plain g" and "distinct cores" "set cores = {..<core_num}" "0 < core_num"
    and "dbl 1 \<noteq> 0" "\<And>x. x * dbl 1 = x" "tiles_ok dims fits g"
  shows "gs_c (gemm_cluster fp core_num cores g bl nc ci A B ord s)
    = gemm_spec dbl (transb g) (cluster_m_tiles g nc * tile_m g) (n_tiles g * tile_n g) (k_tiles g * tile_k g)
        A (m_off g nc ci * tile_m g * g_lda g) (g_lda g) B 0 (g_ldb g) (g_beta g)
        (gs_c s) (m_off g nc ci * tile_m g * g_ldc g) (g_ldc g)"
proof (rule ext)
  fix x
  define o' where "o' = m_off g nc ci * tile_m g"
  let ?t = "gemm_cluster fp core_num cores g bl nc ci A B ord s"
  note D = gemm_invD [OF gemm_cluster_inv [where nc = nc and ci = ci and A = A and B = B and bl = bl and ord = ord and s = s, OF assms refl]]
  have q: "0 < k_tiles g" "0 < g_ldc g" using p by (auto simp: gemm_plain_def intro: less_le_trans [of _ "n_tiles g * tile_n g"])
  note pos = minus_rows(1) [OF q(2), of o' x] and sub = minus_rows(2,3) [OF q(2), of o' x]
  have iff: "in_cluster g nc ci x \<longleftrightarrow> o' * g_ldc g \<le> x \<and> (x - o' * g_ldc g) div g_ldc g < cluster_m_tiles g nc * tile_m g
      \<and> (x - o' * g_ldc g) mod g_ldc g < n_tiles g * tile_n g"
    using sub pos by (auto simp: in_cluster_def o'_def algebra_simps)
  show "gs_c ?t x = gemm_spec dbl (transb g) (cluster_m_tiles g nc * tile_m g) (n_tiles g * tile_n g) (k_tiles g * tile_k g)
        A (m_off g nc ci * tile_m g * g_lda g) (g_lda g) B 0 (g_ldb g) (g_beta g)
        (gs_c s) (m_off g nc ci * tile_m g * g_ldc g) (g_ldc g) x"
  proof (cases "in_cluster g nc ci x")
    case True
    have "Suc (mn_of g nc ci x) * k_tiles g \<le> cluster_m_tiles g nc * n_tiles g * k_tiles g"
      using in_cluster_mn [OF True p] by (intro mult_le_mono1) simp
    then have "gs_c ?t x = gemm_part dbl g A B (k_tiles g) (gs_c s x) (x div g_ldc g) (x mod g_ldc g)"
      using True by (intro D(9)) (simp_all add: plain_k(5) [OF p] add.commute)
    moreover have "o' * g_lda g + (x div g_ldc g - o') * g_lda g = x div g_ldc g * g_lda g"
      using True iff pos by (simp flip: add_mult_distrib)
    ultimately show ?thesis using True iff sub pos q(1)
      by (simp add: gemm_spec_def gemm_part_def gemm_cell_def o'_def [symmetric] add.assoc [symmetric])
  next
    case False
    then show ?thesis using D(11) [OF False] iff by (auto simp: gemm_spec_def o'_def)
  qed
qed

end

subsection \<open>The whole product\<close>

text \<open>
  The clusters of a run with \<open>parallelize_m\<close>, one after the other: they share only \<open>C\<close>, each has
  its own buffers \<open>s ci\<close>.
\<close>

definition gemm_clusters :: "'a::zero gemm_fp \<Rightarrow> nat \<Rightarrow> nat list \<Rightarrow> gemm_args \<Rightarrow> bank_layout \<Rightarrow> nat \<Rightarrow> nat list \<Rightarrow> (nat \<Rightarrow> 'a)
    \<Rightarrow> (nat \<Rightarrow> 'a) \<Rightarrow> (nat \<Rightarrow> nat) \<Rightarrow> (nat \<Rightarrow> 'a gemm_state) \<Rightarrow> (nat \<Rightarrow> 'a) \<Rightarrow> (nat \<Rightarrow> 'a)" where
  "gemm_clusters fp core_num cores g bl nc cis A B ord s C =
     fold (\<lambda>ci C. gs_c (gemm_cluster fp core_num cores g bl nc ci A B ord ((s ci)\<lparr>gs_c := C\<rparr>))) cis C"

context gemm_kernel
begin

lemma gemm_clusters_at:
  assumes p: "gemm_plain g" and cores: "distinct cores" "set cores = {..<core_num}" "0 < core_num"
    and one: "dbl 1 \<noteq> 0" "\<And>x. x * dbl 1 = x" "tiles_ok dims fits g" and pm: "parallelize_m g" and cis: "distinct cis"
  shows "gemm_clusters fp core_num cores g bl nc cis A B ord s C x
    = (if x div g_ldc g div tile_m g div cluster_m_tiles g nc \<in> set cis \<and> 0 < cluster_m_tiles g nc
         \<and> x mod g_ldc g < n_tiles g * tile_n g
       then gemm_cell dbl (transb g) (k_tiles g * tile_k g) A 0 (g_lda g) B 0 (g_ldb g) (g_beta g) (C x)
         (x div g_ldc g) (x mod g_ldc g) else C x)"
  using cis
proof (induction cis arbitrary: C)
  case Nil
  then show ?case by (simp add: gemm_clusters_def)
next
  case (Cons ci cis)
  let ?M = "cluster_m_tiles g nc" and ?R = "x div g_ldc g"
  have pos: "0 < tile_m g" "0 < g_ldc g" using p by (auto simp: gemm_plain_def intro: less_le_trans [of _ "n_tiles g * tile_n g"])
  define C' where "C' = gs_c (gemm_cluster fp core_num cores g bl nc ci A B ord ((s ci)\<lparr>gs_c := C\<rparr>))"
  define o' where "o' = ci * ?M * tile_m g"
  note pos' = minus_rows(1) [OF pos(2), of o' x] and sub = minus_rows(2,3) [OF pos(2), of o' x]
  have "o' \<le> ?R \<and> ?R - o' < ?M * tile_m g \<longleftrightarrow> 0 < ?M \<and> ci \<le> ?R div tile_m g div ?M \<and> ?R div tile_m g div ?M < Suc ci"
    using pos(1) by (cases "0 < ?M") (auto simp: o'_def less_eq_div_iff_mult_less_eq div_less_iff_less_mult algebra_simps)
  then have rows: "o' \<le> ?R \<and> ?R - o' < ?M * tile_m g \<longleftrightarrow> ?R div tile_m g div ?M = ci \<and> 0 < ?M" by auto
  have A: "o' * g_lda g + (?R - o') * g_lda g = ?R * g_lda g" if "o' \<le> ?R" using that by (simp flip: add_mult_distrib)
  have "C' x = (if ?R div tile_m g div ?M = ci \<and> 0 < ?M \<and> x mod g_ldc g < n_tiles g * tile_n g
       then gemm_cell dbl (transb g) (k_tiles g * tile_k g) A 0 (g_lda g) B 0 (g_ldb g) (g_beta g) (C x) ?R (x mod g_ldc g) else C x)"
    using rows sub pos' A unfolding C'_def gemm_cluster_spec [OF p cores one]
    by (auto simp: gemm_spec_def m_off_def pm gemm_cell_def add.assoc [symmetric] simp flip: o'_def)
  moreover have "gemm_clusters fp core_num cores g bl nc (ci # cis) A B ord s C = gemm_clusters fp core_num cores g bl nc cis A B ord s C'"
    by (simp add: gemm_clusters_def C'_def)
  ultimately show ?case using Cons by auto
qed

end


lemma naive_tiles_ok [simp]: "tiles_ok (\<lambda>_ _ _. True) (\<lambda>_. True) g"
  by (simp add: tiles_ok_def)

text \<open>
  C30: A run of one cluster (operands row-major in main memory, A not transposed, the sizes multiples
  of the tile numbers) computes what one call of the naive kernel on the whole matrices computes,
  element by element and in the same order of the additions: for every order of the compute cores,
  with and without double buffering, and for every interleaving of the DMA core and the compute
  cores within an iteration. It only needs that beta = 1 leaves an element as it is.
\<close>

theorem gemm_tiled_eq_naive:
  fixes dbl :: "nat \<Rightarrow> 'a::{times,zero,plus}"
  assumes "gemm_plain g" and "\<not> parallelize_m g"
    and "m_tiles g dvd g_m g" and "n_tiles g dvd g_n g" and "k_tiles g dvd g_k g"
    and "distinct cores" and "set cores = {..<core_num}" and "0 < core_num"
    and "dbl 1 \<noteq> 0" and "\<And>x. x * dbl 1 = x"
  shows "gs_c (gemm_cluster (gemm_fp64_naive dbl bl) core_num cores g bl nc ci A B ord s)
    = gemm_fp64_naive dbl bl False False (transb g) (g_m g) (g_n g) (g_k g) A 0 (g_lda g) B 0 (g_ldb g) (g_beta g)
        (gs_c s) 0 (g_ldc g)"
proof -
  have s: "m_tiles g * tile_m g = g_m g" "n_tiles g * tile_n g = g_n g" "k_tiles g * tile_k g = g_k g"
    using assms(3-5) by (simp_all add: tile_m_def tile_n_def tile_k_def)
  have "g_n g \<le> g_ldc g" "0 < g_ldc g"
    using assms(1) by (auto simp: gemm_plain_def simp flip: s(2) intro: less_le_trans [of _ "n_tiles g * tile_n g"])
  then show ?thesis using assms(2)
    by (simp add: naive.gemm_cluster_spec [where dbl = dbl, OF assms(1,6-10) naive_tiles_ok] gemm_fp64_naive_spec s m_off_def cluster_m_tiles_def)
qed

definition gemm_args_example :: gemm_args where
  "gemm_args_example = \<lparr>m_tiles = 2, n_tiles = 1, k_tiles = 2, parallelize_m = False, parallelize_k = False,
     double_buffer = True, partition_banks = False, transa = False, transb = True, g_m = 4, g_n = 3, g_k = 2,
     g_lda = 2, g_ldb = 2, g_beta = 1, g_ldc = 3\<rparr>"

theorem gemm_tiled_eq_naive_witness:
  "gs_c (gemm_cluster (gemm_fp64_naive int \<lparr>lw = 8, hw = 32\<rparr>) 2 [1, 0] gemm_args_example \<lparr>lw = 8, hw = 32\<rparr> 1 0
      (\<lambda>i. int i) (\<lambda>i. int i - 3) (\<lambda>i. i mod 3) \<lparr>gs_c = (\<lambda>_. 7), gs_la = (\<lambda>_ _. 0), gs_lb = (\<lambda>_ _. 0), gs_lc = (\<lambda>_ _. 0)\<rparr>)
    = gemm_fp64_naive int \<lparr>lw = 8, hw = 32\<rparr> False False True 4 3 2 (\<lambda>i. int i) 0 2 (\<lambda>i. int i - 3) 0 2 1 (\<lambda>_. 7) 0 3"
  using gemm_tiled_eq_naive [of gemm_args_example "[1, 0]" 2 int "\<lparr>lw = 8, hw = 32\<rparr>" 1 0
      "\<lambda>i. int i" "\<lambda>i. int i - 3" "\<lambda>i. i mod 3" "\<lparr>gs_c = (\<lambda>_. 7), gs_la = (\<lambda>_ _. 0), gs_lb = (\<lambda>_ _. 0), gs_lc = (\<lambda>_ _. 0)\<rparr>"]
  by (auto simp: gemm_args_example_def gemm_plain_def tile_m_def tile_n_def lessThan_nat_numeral insert_commute)

text \<open>
  C33: With the rows of C distributed over the clusters, the run computes the product on the rows of
  the first \<open>nc * (m_tiles div nc)\<close> tiles and leaves all others as they were: the whole product
  when the number of clusters divides the number of tiles, and otherwise not, since the remaining
  \<open>m_tiles mod nc\<close> tiles belong to no cluster.
\<close>

theorem gemm_clusters_product:
  fixes dbl :: "nat \<Rightarrow> 'a::{times,zero,plus}"
  assumes "gemm_plain g" and "parallelize_m g"
    and "n_tiles g dvd g_n g" and "k_tiles g dvd g_k g"
    and "distinct cores" and "set cores = {..<core_num}" and "0 < core_num"
    and "dbl 1 \<noteq> 0" and "\<And>x. x * dbl 1 = x" and "distinct cis" and "set cis = {..<nc}"
  shows "gemm_clusters (gemm_fp64_naive dbl bl) core_num cores g bl nc cis A B ord s C
    = gemm_spec dbl (transb g) (m_tiles g div nc * nc * tile_m g) (g_n g) (g_k g) A 0 (g_lda g) B 0 (g_ldb g) (g_beta g)
        C 0 (g_ldc g)"
proof (rule ext)
  fix x
  have s: "n_tiles g * tile_n g = g_n g" "k_tiles g * tile_k g = g_k g"
    using assms(3,4) by (simp_all add: tile_n_def tile_k_def)
  have "0 < tile_m g" using assms(1) by (simp add: gemm_plain_def)
  then have "x div g_ldc g div tile_m g div (m_tiles g div nc) < nc \<and> 0 < m_tiles g div nc
      \<longleftrightarrow> x div g_ldc g < m_tiles g div nc * nc * tile_m g"
    by (cases "0 < m_tiles g div nc") (simp_all add: div_less_iff_less_mult mult.commute)
  then show "gemm_clusters (gemm_fp64_naive dbl bl) core_num cores g bl nc cis A B ord s C x
    = gemm_spec dbl (transb g) (m_tiles g div nc * nc * tile_m g) (g_n g) (g_k g) A 0 (g_lda g) B 0 (g_ldb g) (g_beta g)
        C 0 (g_ldc g) x"
    using assms(2,11) unfolding naive.gemm_clusters_at [where dbl = dbl, OF assms(1,5-9) naive_tiles_ok assms(2,10)]
    by (auto simp: gemm_spec_def cluster_m_tiles_def s)
qed

theorem gemm_clusters_product_witness:
  "gemm_clusters (gemm_fp64_naive int \<lparr>lw = 8, hw = 32\<rparr>) 2 [0, 1] (gemm_args_example\<lparr>parallelize_m := True\<rparr>) \<lparr>lw = 8, hw = 32\<rparr> 2 [1, 0]
      (\<lambda>i. int i) (\<lambda>i. int i - 3) (\<lambda>_. 1) (\<lambda>_. \<lparr>gs_c = (\<lambda>_. 0), gs_la = (\<lambda>_ _. 0), gs_lb = (\<lambda>_ _. 0), gs_lc = (\<lambda>_ _. 0)\<rparr>) (\<lambda>_. 7)
    = gemm_spec int True 4 3 2 (\<lambda>i. int i) 0 2 (\<lambda>i. int i - 3) 0 2 1 (\<lambda>_. 7) 0 3"
  using gemm_clusters_product [of "gemm_args_example\<lparr>parallelize_m := True\<rparr>" "[0, 1]" 2 int "[1, 0]" 2 "\<lparr>lw = 8, hw = 32\<rparr>"
      "\<lambda>i. int i" "\<lambda>i. int i - 3" "\<lambda>_. 1" "\<lambda>_. \<lparr>gs_c = (\<lambda>_. 0), gs_la = (\<lambda>_ _. 0), gs_lb = (\<lambda>_ _. 0), gs_lc = (\<lambda>_ _. 0)\<rparr>" "\<lambda>_. 7"]
  by (auto simp: gemm_args_example_def gemm_plain_def tile_m_def tile_n_def lessThan_nat_numeral insert_commute)

subsection \<open>The distribution along k\<close>

lemma k_abs_run:
  assumes "parallelize_k g"
  shows "map (k_abs g nc ci) [0..<cluster_k_tiles g nc ci]
    = [ci * cluster_k_tiles g nc ci..<Suc ci * cluster_k_tiles g nc ci]"
proof -
  have "map (k_abs g nc ci) [0..<cluster_k_tiles g nc ci] = map (\<lambda>i. i + ci * cluster_k_tiles g nc ci) [0..<cluster_k_tiles g nc ci]"
    using assms by (simp add: k_abs_def ix_k_def)
  then show ?thesis by (simp add: map_add_upt add.commute)
qed

lemma concat_runs: "concat (map (\<lambda>ci. [ci * q..<Suc ci * q]) [0..<n]) = [0..<n * q]"
  proof (induction n)
  case (Suc n)
  then show ?case using upt_add_eq_append [of 0 "n * q" q] by (simp add: add.commute)
qed simp

text \<open>
  With the tiles distributed along k, the clusters together compute every k tile exactly once, in
  order, if and only if the number of clusters divides the number of k tiles or exceeds it. In all
  other cases (three k tiles on two clusters are one) the offset of a cluster is computed from its
  own share of the tiles: some tiles are summed twice and the last one by no cluster.
\<close>

lemma gemm_k_tiles_covered:
  assumes "parallelize_k g" and "0 < nc"
  shows "concat (map (\<lambda>ci. map (k_abs g nc ci) [0..<cluster_k_tiles g nc ci]) [0..<nc]) = [0..<k_tiles g]
    \<longleftrightarrow> nc dvd k_tiles g \<or> k_tiles g < nc"
proof -
  define q r where "q = k_tiles g div nc" and "r = k_tiles g mod nc"
  have K: "k_tiles g = nc * q + r" and r: "r < nc" using assms(2) by (simp_all add: q_def r_def)
  have ck: "cluster_k_tiles g nc ci = (if ci < r then q + 1 else q)" for ci
    using assms(1) by (simp add: cluster_k_tiles_def Let_def q_def r_def)
  let ?L = "concat (map (\<lambda>ci. map (k_abs g nc ci) [0..<cluster_k_tiles g nc ci]) [0..<nc])"
  consider "r = 0" | "0 < r" "q = 0" | "0 < r" "0 < q" by auto
  then show ?thesis
  proof cases
    case 1
    then show ?thesis unfolding k_abs_run [OF assms(1)] unfolding ck using concat_runs [of q nc] by (simp add: K)
  next
    case 2
    have "[0..<nc] = [0..<r] @ [r..<nc]" using r upt_add_eq_append [of 0 r "nc - r"] by simp
    moreover have "map (\<lambda>ci. [ci * cluster_k_tiles g nc ci..<Suc ci * cluster_k_tiles g nc ci]) [0..<r]
        = map (\<lambda>ci. [ci * 1..<Suc ci * 1]) [0..<r]"
      "map (\<lambda>ci. [ci * cluster_k_tiles g nc ci..<Suc ci * cluster_k_tiles g nc ci]) [r..<nc] = map (\<lambda>_. []) [r..<nc]"
      using 2 by (simp_all add: ck)
    ultimately have "?L = concat (map (\<lambda>ci. [ci * 1..<Suc ci * 1]) [0..<r]) @ concat (map (\<lambda>_. []) [r..<nc])"
      unfolding k_abs_run [OF assms(1)] by (simp only: map_append concat_append)
    then show ?thesis using 2 r unfolding concat_runs by (simp add: K)
  next
    case 3
    have "k_tiles g - 1 \<notin> set ?L"
    proof
      assume "k_tiles g - 1 \<in> set ?L"
      then obtain ci where ci: "ci < nc" "k_tiles g - 1 < Suc ci * cluster_k_tiles g nc ci"
        unfolding k_abs_run [OF assms(1)] by auto
      show False
      proof (cases "ci < r")
        case True
        have "Suc ci * q \<le> nc * q" using ci(1) by (intro mult_le_mono1) simp
        moreover have "k_tiles g - 1 < Suc ci * q + Suc ci" using ci(2) True by (simp add: ck)
        moreover have "Suc ci < nc" using True r by simp
        then have "Suc (Suc ci) * q \<le> nc * q" by (intro mult_le_mono1) simp
        ultimately show False using 3 True unfolding K mult_Suc by linarith
      next
        case False
        have "Suc ci * q \<le> nc * q" using ci(1) by (intro mult_le_mono1) simp
        then show False using ci(2) False 3(1) by (simp add: ck K)
      qed
    qed
    moreover have "k_tiles g - 1 \<in> set [0..<k_tiles g]" using 3 r by (simp add: K)
    ultimately have "?L \<noteq> [0..<k_tiles g]" by metis
    moreover have "\<not> nc dvd k_tiles g" using 3(1) by (simp add: r_def dvd_eq_mod_eq_0)
    moreover have "nc * 1 \<le> nc * q" using 3(2) by (intro mult_le_mono2) simp
    then have "\<not> k_tiles g < nc" unfolding K by linarith
    ultimately show ?thesis by simp
  qed
qed

lemma gemm_k_tiles_covered_witness:
  "concat (map (\<lambda>ci. map (k_abs (gemm_args_example\<lparr>parallelize_k := True, k_tiles := 3\<rparr>) 2 ci)
     [0..<cluster_k_tiles (gemm_args_example\<lparr>parallelize_k := True, k_tiles := 3\<rparr>) 2 ci]) [0..<2]) \<noteq> [0..<3]"
  using gemm_k_tiles_covered [of "gemm_args_example\<lparr>parallelize_k := True, k_tiles := 3\<rparr>" 2]
  by (simp add: gemm_args_example_def)

end
