(* ===== verification/Gemm_Opt.thy ===== *)
theory Gemm_Opt
  imports Fp_Stream Gemm_Loop
begin

text \<open>
  The optimised kernel of \<open>sw/kernels/blas/gemm/src/gemm_fp64.h\<close> (\<open>gemm_fp64_opt\<close>): the operands
  arrive through the stream registers, the results leave through \<open>ft2\<close>, and the inner loops are
  hardware loops. It computes what the naive kernel computes, on its own and on the tiles of the
  tiled product. The address of the block of \<open>C\<close> that is read for \<open>beta\<close> other than 0 is an input of
  its assembly, whatever the letter of its constraint (\<open>"=r"\<close>) says.
\<close>

subsection \<open>The kernel\<close>




subsection \<open>One block of results\<close>

text \<open>
  The value that a block leaves at its \<open>i\<close>-th position: the products of the operands \<open>q\<close> to
  \<open>q + K - 1\<close>, accumulated from the first product or from \<open>C\<close>.
\<close>

definition opt_cell :: "('a::times \<Rightarrow> 'a \<Rightarrow> 'a \<Rightarrow> 'a) \<Rightarrow> u32 \<Rightarrow> (nat \<Rightarrow> 'a) \<Rightarrow> (nat \<Rightarrow> 'a) \<Rightarrow> nat \<Rightarrow> 'a \<Rightarrow> 'a" where
  "opt_cell fma beta x y K c =
     (if beta = 0 then for_upto 1 K (\<lambda>k c. fma (x k) (y k) c) (x 0 * y 0) else for_upto 0 K (\<lambda>k c. fma (x k) (y k) c) c)"


lemma for_upto_split: "m \<le> n \<Longrightarrow> for_upto 0 n f s = for_upto m n f (for_upto 0 m f s)"
proof -
  assume "m \<le> n"
  then have "[0..<n] = [0..<m] @ [m..<n]" using upt_add_eq_append [of 0 m "n - m"] by simp
  then show ?thesis by (simp add: for_upto_def)
qed




subsection \<open>All blocks\<close>



subsection \<open>The configured streams\<close>



text \<open>The bounds and strides of the three streams, inner loop first.\<close>

definition opt_bounds :: "nat \<Rightarrow> u32 \<Rightarrow> u32 \<Rightarrow> u32 \<Rightarrow> nat \<Rightarrow> u32" where
  "opt_bounds dm M N K i = (if dm = 0 then [K, N div 8, M] ! i else if dm = 1 then [8, K, N div 8, M] ! i else [8, N div 8, M] ! i)"

definition opt_strides :: "nat \<Rightarrow> bool \<Rightarrow> u32 \<Rightarrow> u32 \<Rightarrow> u32 \<Rightarrow> nat \<Rightarrow> u32" where
  "opt_strides dm tb lda ldb ldc i =
     (if dm = 0 then [8, 0, 8 * lda] ! i
      else if dm = 1 then (if tb then [8 * ldb, 8, 8 * ldb * 8, 0] ! i else [8, 8 * ldb, 64, 0] ! i)
      else [8, 64, ldc * 8] ! i)"








subsection \<open>The kernel computes the product\<close>








subsection \<open>The optimised kernel as a kernel of the tiled product\<close>


text \<open>Arithmetic without rounding, as far as the kernel needs it.\<close>

locale fp_exact =
  fixes fma :: "'a::{times,zero,plus} \<Rightarrow> 'a \<Rightarrow> 'a \<Rightarrow> 'a" and dbl :: "nat \<Rightarrow> 'a"
  assumes fma_exact: "fma x y z = z + x * y" and add_zero: "0 + x = x"
    and dbl_0: "dbl 0 = 0" and dbl_1: "dbl 1 \<noteq> 0" and mult_dbl_1: "x * dbl 1 = x"
begin

lemma opt_cell_naive:
  assumes "0 < K" and "beta \<le> 1"
  shows "opt_cell fma (of_nat beta) x y K c = for_upto 0 K (\<lambda>k c0. c0 + x k * y k) (multiply_opt c (dbl beta))"
proof -
  have e: "(\<lambda>k c. fma (x k) (y k) c) = (\<lambda>k c0. c0 + x k * y k)" by (simp add: fma_exact)
  have "beta = 0 \<or> beta = 1" using assms(2) by auto
  then show ?thesis unfolding opt_cell_def e using assms(1) dbl_1
    by (elim disjE) (simp_all add: multiply_opt_def mult_dbl_1 [unfolded One_nat_def] dbl_0 add_zero for_upto_first [of 0 K])
qed

end




interpretation exact: fp_exact "\<lambda>x y z. z + x * y" "of_nat :: nat \<Rightarrow> 'a::semiring_1"
  by unfold_locales simp_all


subsection \<open>Properties\<close>






end
