(* ===== verification/Axpy.thy ===== *)
theory Axpy
  imports Fp_Stream Double_Buffer
begin

text \<open>
  The vector update \<open>z = a * x + y\<close> (\<open>sw/kernels/blas/axpy/src/axpy.h\<close>): the three kernels of a
  cluster and the double-buffered job over the tiles. Vectors are functions from indices to values
  of an arbitrary type; \<open>fma a x y\<close> is the result of \<open>fmadd.d\<close>.
\<close>

subsection \<open>The kernels\<close>

definition axpy_naive :: "nat \<Rightarrow> nat \<Rightarrow> nat \<Rightarrow> 'a::{times,plus} \<Rightarrow> (nat \<Rightarrow> 'a) \<Rightarrow> (nat \<Rightarrow> 'a) \<Rightarrow> (nat \<Rightarrow> 'a) \<Rightarrow> (nat \<Rightarrow> 'a)" where
  "axpy_naive core_num core_idx n a x y z = for_step core_idx core_num n (\<lambda>i z. z(i := a * x i + y i)) z"

definition axpy_fma :: "('a \<Rightarrow> 'a \<Rightarrow> 'a \<Rightarrow> 'a) \<Rightarrow> nat \<Rightarrow> nat \<Rightarrow> nat \<Rightarrow> 'a \<Rightarrow> (nat \<Rightarrow> 'a) \<Rightarrow> (nat \<Rightarrow> 'a) \<Rightarrow> (nat \<Rightarrow> 'a) \<Rightarrow> (nat \<Rightarrow> 'a)" where
  "axpy_fma fma core_num core_idx n a x y z = for_step core_idx core_num n (\<lambda>i z. z(i := fma a (x i) (y i))) z"

text \<open>The instruction \<open>fmadd.d ft2, a, ft0, ft1\<close>.\<close>

definition fmadd_a :: "('a \<Rightarrow> 'a \<Rightarrow> 'a \<Rightarrow> 'a) \<Rightarrow> 'a \<Rightarrow> (u32 \<Rightarrow> 'a) \<Rightarrow> (u32 \<Rightarrow> 'a) \<Rightarrow> 'a ssr_fp \<Rightarrow> 'a ssr_fp option" where
  "fmadd_a fma a X Y s = do { (x, y, s) \<leftarrow> stream_operands X Y s; stream_push 2 (fma a x y) s }"

definition axpy_start :: "u32 \<Rightarrow> u32 \<Rightarrow> u32 \<Rightarrow> u32 \<Rightarrow> u32 \<Rightarrow> u32 \<Rightarrow> 'a ssr_fp \<Rightarrow> 'a ssr_fp" where
  "axpy_start core_num core_idx n x y z s =
     (let frac = n div core_num; offset = core_idx;
          s = s\<lparr>sf_regs := snrt_ssr_loop_1d True SNRT_SSR_DM_ALL frac (core_num * 8) (sf_regs s)\<rparr>;
          s = stream_read 0 SNRT_SSR_1D (x + 8 * offset) s;
          s = stream_read 1 SNRT_SSR_1D (y + 8 * offset) s;
          s = stream_write 2 SNRT_SSR_1D (z + 8 * offset) s
      in s\<lparr>sf_on := True\<rparr>)"

definition axpy_opt :: "('a \<Rightarrow> 'a \<Rightarrow> 'a \<Rightarrow> 'a) \<Rightarrow> (u32 \<Rightarrow> 'a) \<Rightarrow> (u32 \<Rightarrow> 'a) \<Rightarrow> u32 \<Rightarrow> u32 \<Rightarrow> u32 \<Rightarrow> 'a \<Rightarrow> u32 \<Rightarrow> u32 \<Rightarrow> u32
    \<Rightarrow> 'a ssr_fp \<Rightarrow> 'a ssr_fp option" where
  "axpy_opt fma memX memY core_num core_idx n a x y z s =
     (let frac = n div core_num
      in do { s \<leftarrow> frep (frac - 1) (fmadd_a fma a memX memY) (axpy_start core_num core_idx n x y z s);
              Some (s\<lparr>sf_on := False\<rparr>) })"

text \<open>The kernel on three vectors that each start at address 0, with the stream registers \<open>r\<close> before the call.\<close>

definition axpy_opt_fp :: "('a::zero \<Rightarrow> 'a \<Rightarrow> 'a \<Rightarrow> 'a) \<Rightarrow> ssr_regs \<Rightarrow> nat \<Rightarrow> nat \<Rightarrow> nat \<Rightarrow> 'a \<Rightarrow> (nat \<Rightarrow> 'a) \<Rightarrow> (nat \<Rightarrow> 'a) \<Rightarrow> (nat \<Rightarrow> 'a) \<Rightarrow> (nat \<Rightarrow> 'a)" where
  "axpy_opt_fp fma r core_num core_idx n a x y z =
     (case axpy_opt fma (\<lambda>p. x (unat p div 8)) (\<lambda>p. y (unat p div 8)) (of_nat core_num) (of_nat core_idx) (of_nat n) a 0 0 0
        (opt_state r (\<lambda>_. 0) z) of
       Some s \<Rightarrow> sf_C s | None \<Rightarrow> z)"

text \<open>All compute cores of the cluster.\<close>

definition axpy_cores :: "(nat \<Rightarrow> nat \<Rightarrow> nat \<Rightarrow> 'a \<Rightarrow> (nat \<Rightarrow> 'a) \<Rightarrow> (nat \<Rightarrow> 'a) \<Rightarrow> (nat \<Rightarrow> 'a) \<Rightarrow> (nat \<Rightarrow> 'a)) \<Rightarrow> nat \<Rightarrow> nat list
    \<Rightarrow> nat \<Rightarrow> 'a \<Rightarrow> (nat \<Rightarrow> 'a) \<Rightarrow> (nat \<Rightarrow> 'a) \<Rightarrow> (nat \<Rightarrow> 'a) \<Rightarrow> (nat \<Rightarrow> 'a)" where
  "axpy_cores fp core_num cores n a x y z = fold (\<lambda>co z. fp core_num co n a x y z) cores z"

subsection \<open>The job\<close>

text \<open>The addresses of the local buffers: \<open>x\<close>, \<open>y\<close>, \<open>z\<close> of the first set, then of the second.\<close>

definition ALIGN_NEXT_FROM_BASE :: "u64 \<Rightarrow> u64 \<Rightarrow> u64 \<Rightarrow> u64" where
  "ALIGN_NEXT_FROM_BASE addr base sz = (((addr - base) + sz - 1) div sz) * sz + base"

definition BANK_ALIGNMENT :: u64 where "BANK_ALIGNMENT = 8"
definition TCDM_ALIGNMENT :: u64 where "TCDM_ALIGNMENT = 24 * BANK_ALIGNMENT"

definition ALIGN_UP_TCDM :: "u64 \<Rightarrow> u64 \<Rightarrow> u64" where
  "ALIGN_UP_TCDM tcdm addr = ALIGN_NEXT_FROM_BASE addr tcdm TCDM_ALIGNMENT"

definition axpy_buffers :: "u64 \<Rightarrow> u64 \<Rightarrow> u64 \<Rightarrow> u64 \<Rightarrow> u64 list" where
  "axpy_buffers tcdm args sizeof_args sz =
     (let local_x0_addr = ALIGN_UP_TCDM tcdm (args + sizeof_args);
          local_y0_addr = ALIGN_UP_TCDM tcdm (local_x0_addr + sz) + 8 * BANK_ALIGNMENT;
          local_z0_addr = ALIGN_UP_TCDM tcdm (local_y0_addr + sz) + 16 * BANK_ALIGNMENT;
          local_x1_addr = ALIGN_UP_TCDM tcdm (local_z0_addr + sz);
          local_y1_addr = ALIGN_UP_TCDM tcdm (local_x1_addr + sz) + 8 * BANK_ALIGNMENT;
          local_z1_addr = ALIGN_UP_TCDM tcdm (local_y1_addr + sz) + 16 * BANK_ALIGNMENT
      in [local_x0_addr, local_y0_addr, local_z0_addr, local_x1_addr, local_y1_addr, local_z1_addr])"

text \<open>The result in main memory and the local buffers.\<close>

record 'a axpy_state =
  ax_z :: "nat \<Rightarrow> 'a"
  ax_lx :: "nat \<Rightarrow> nat \<Rightarrow> 'a"
  ax_ly :: "nat \<Rightarrow> nat \<Rightarrow> 'a"
  ax_lz :: "nat \<Rightarrow> nat \<Rightarrow> 'a"

definition axpy_load :: "nat \<Rightarrow> (nat \<Rightarrow> 'a) \<Rightarrow> (nat \<Rightarrow> 'a) \<Rightarrow> nat \<Rightarrow> 'a axpy_state \<Rightarrow> 'a axpy_state" where
  "axpy_load frac x y i s =
     (let buff_idx = i mod 2; offset = i * frac
      in s\<lparr>ax_lx := (ax_lx s)(buff_idx := copy_row (ax_lx s buff_idx) 0 x offset frac),
           ax_ly := (ax_ly s)(buff_idx := copy_row (ax_ly s buff_idx) 0 y offset frac)\<rparr>)"

definition axpy_compute :: "(nat \<Rightarrow> 'a \<Rightarrow> (nat \<Rightarrow> 'a) \<Rightarrow> (nat \<Rightarrow> 'a) \<Rightarrow> (nat \<Rightarrow> 'a) \<Rightarrow> (nat \<Rightarrow> 'a)) \<Rightarrow> nat \<Rightarrow> 'a \<Rightarrow> nat
    \<Rightarrow> 'a axpy_state \<Rightarrow> 'a axpy_state" where
  "axpy_compute fp frac a i s =
     (let buff_idx = i mod 2
      in s\<lparr>ax_lz := (ax_lz s)(buff_idx := fp frac a (ax_lx s buff_idx) (ax_ly s buff_idx) (ax_lz s buff_idx))\<rparr>)"

definition axpy_store :: "nat \<Rightarrow> nat \<Rightarrow> 'a axpy_state \<Rightarrow> 'a axpy_state" where
  "axpy_store frac i s =
     (let buff_idx = i mod 2; offset = i * frac
      in s\<lparr>ax_z := copy_row (ax_z s) offset (ax_lz s buff_idx) 0 frac\<rparr>)"

definition axpy_job :: "(nat \<Rightarrow> 'a \<Rightarrow> (nat \<Rightarrow> 'a) \<Rightarrow> (nat \<Rightarrow> 'a) \<Rightarrow> (nat \<Rightarrow> 'a) \<Rightarrow> (nat \<Rightarrow> 'a)) \<Rightarrow> nat \<Rightarrow> nat \<Rightarrow> 'a \<Rightarrow> (nat \<Rightarrow> 'a)
    \<Rightarrow> (nat \<Rightarrow> 'a) \<Rightarrow> (nat \<Rightarrow> phase list) \<Rightarrow> 'a axpy_state \<Rightarrow> 'a axpy_state" where
  "axpy_job fp n n_tiles a x y ord =
     (let frac = n div n_tiles
      in db_loop n_tiles (axpy_load frac x y) (axpy_compute fp frac a) (axpy_store frac) ord)"

subsection \<open>The job on a correct kernel\<close>

text \<open>What the job relies on: the kernel behind the function pointer updates the whole tile.\<close>

locale axpy_kernel =
  fixes fp :: "nat \<Rightarrow> 'a \<Rightarrow> (nat \<Rightarrow> 'a) \<Rightarrow> (nat \<Rightarrow> 'a) \<Rightarrow> (nat \<Rightarrow> 'a) \<Rightarrow> (nat \<Rightarrow> 'a)" and upd :: "'a \<Rightarrow> 'a \<Rightarrow> 'a \<Rightarrow> 'a"
    and frac :: nat and a :: 'a and x y z0 :: "nat \<Rightarrow> 'a" and n_tiles :: nat
  assumes fp_spec: "i < frac \<Longrightarrow> fp frac a lx ly lz i = upd a (lx i) (ly i)"

definition axpy_ready :: "nat \<Rightarrow> (nat \<Rightarrow> 'a) \<Rightarrow> (nat \<Rightarrow> 'a) \<Rightarrow> nat \<Rightarrow> 'a axpy_state \<Rightarrow> bool" where
  "axpy_ready frac x y j s \<longleftrightarrow> (\<forall>i < frac. ax_lx s (j mod 2) i = x (j * frac + i) \<and> ax_ly s (j mod 2) i = y (j * frac + i))"

definition axpy_computed :: "('a \<Rightarrow> 'a \<Rightarrow> 'a \<Rightarrow> 'a) \<Rightarrow> nat \<Rightarrow> 'a \<Rightarrow> (nat \<Rightarrow> 'a) \<Rightarrow> (nat \<Rightarrow> 'a) \<Rightarrow> nat \<Rightarrow> 'a axpy_state \<Rightarrow> bool" where
  "axpy_computed upd frac a x y j s \<longleftrightarrow> (\<forall>i < frac. ax_lz s (j mod 2) i = upd a (x (j * frac + i)) (y (j * frac + i)))"

definition axpy_stored :: "('a \<Rightarrow> 'a \<Rightarrow> 'a \<Rightarrow> 'a) \<Rightarrow> nat \<Rightarrow> 'a \<Rightarrow> (nat \<Rightarrow> 'a) \<Rightarrow> (nat \<Rightarrow> 'a) \<Rightarrow> (nat \<Rightarrow> 'a) \<Rightarrow> nat \<Rightarrow> 'a axpy_state \<Rightarrow> bool" where
  "axpy_stored upd frac a x y z0 j s \<longleftrightarrow> ax_z s = (\<lambda>i. if i < j * frac then upd a (x i) (y i) else z0 i)"

lemmas axpy_job_defs = axpy_load_def axpy_compute_def axpy_store_def axpy_ready_def axpy_computed_def axpy_stored_def Let_def

sublocale axpy_kernel \<subseteq> job: double_buffer_separate n_tiles "axpy_load frac x y" "axpy_compute fp frac a" "axpy_store frac"
  "axpy_ready frac x y" "axpy_computed upd frac a x y" "axpy_stored upd frac a x y z0"
proof unfold_locales
  fix i and s :: "'a axpy_state"
  assume s: "axpy_stored upd frac a x y z0 i s" and c: "axpy_computed upd frac a x y i s"
  show "axpy_stored upd frac a x y z0 (Suc i) (axpy_store frac i s)"
    unfolding axpy_stored_def
  proof (rule ext)
    fix k
    have lz: "ax_lz s (i mod 2) (k - i * frac) = upd a (x k) (y k)" if "i * frac \<le> k" "k < i * frac + frac"
      using c that unfolding axpy_computed_def by (metis add_diff_inverse_nat less_diff_conv2 add.commute not_less)
    show "ax_z (axpy_store frac i s) k = (if k < Suc i * frac then upd a (x k) (y k) else z0 k)"
      using s lz by (auto simp: axpy_store_def Let_def copy_row_at axpy_stored_def)
  qed
qed (auto simp: axpy_job_defs copy_row_at fp_spec)

context axpy_kernel
begin

lemma axpy_job_stores:
  assumes "frac = n div n_tiles" and "ax_z s = z0" and "\<And>i. i < n_tiles + 2 \<Longrightarrow> out_in (ord i) \<or> in_out (ord i)"
  shows "ax_z (axpy_job fp n n_tiles a x y ord s) = (\<lambda>i. if i < n_tiles * frac then upd a (x i) (y i) else z0 i)"
  using job.db_loop_stores_any [of s ord] assms by (simp add: axpy_job_def Let_def axpy_stored_def)

end

subsection \<open>The kernels update the vector\<close>

lemma axpy_fma_cores:
  assumes "distinct cores" and "set cores = {..<core_num}" and "0 < core_num"
  shows "axpy_cores (axpy_fma fma) core_num cores n a x y z i = (if i < n then fma a (x i) (y i) else z i)"
proof -
  have "axpy_cores (axpy_fma fma) core_num cores n a x y z = strided_cores core_num cores n (\<lambda>i z. z(i := fma a (x i) (y i))) z"
    by (simp add: axpy_cores_def axpy_fma_def strided_cores_def)
  then show ?thesis
    using strided_cores_at [OF assms, of n "\<lambda>i z. z(i := fma a (x i) (y i))" "\<lambda>_. True" "\<lambda>i. i" "\<lambda>i _. fma a (x i) (y i)" z i] by auto
qed

lemma axpy_naive_is_fma: "axpy_naive = axpy_fma (\<lambda>a x y. a * x + y)"
  by (intro ext) (simp add: axpy_naive_def axpy_fma_def)

text \<open>The streams of one core.\<close>

lemmas axpy_cfg_defs = axpy_start_def stream_read_def stream_write_def stream_start_def snrt_ssr_write_def ssr_loop_defs Let_def

lemma axpy_start_regs:
  assumes "s' = axpy_start core_num core_idx n x y z s"
  shows "sf_on s'" and "sf_C s' = sf_C s" and "sf_rep s' 0 = 0" and "sf_rep s' 1 = 0"
    and "sf_regs s' 0 SSR_REG_REPEAT = sf_regs s 0 SSR_REG_REPEAT" and "sf_regs s' 1 SSR_REG_REPEAT = sf_regs s 1 SSR_REG_REPEAT"
  unfolding assms by (simp_all add: axpy_cfg_defs)

lemma axpy_start_gen:
  assumes "g = sf_gen (axpy_start core_num core_idx n x y z s) dm" and "dm < 3"
  shows "ag_dims g = 0" and "\<not> ag_done g" and "ag_index g = (\<lambda>_. 0)" and "ag_pointer g = [x, y, z] ! dm + 8 * core_idx"
    and "ag_bound g 0 = n div core_num - 1" and "ag_stride g 0 = core_num * 8 AND NOT 7"
proof -
  have "dm = 0 \<or> dm = 1 \<or> dm = 2" using assms(2) by linarith
  then show "ag_dims g = 0" "\<not> ag_done g" "ag_index g = (\<lambda>_. 0)" "ag_pointer g = [x, y, z] ! dm + 8 * core_idx"
    "ag_bound g 0 = n div core_num - 1" "ag_stride g 0 = core_num * 8 AND NOT 7"
    unfolding assms(1) by (auto simp: axpy_cfg_defs)
qed

lemma axpy_stream:
  assumes "g = sf_gen (axpy_start core_num core_idx n x y z s) dm" and "dm < 3" and "n div core_num \<noteq> 0"
  shows "\<exists>P a. P 0 g \<and> emits P (unat (n div core_num)) a
    \<and> (\<forall>k < unat (n div core_num). a k = [x, y, z] ! dm + 8 * core_idx + of_nat k * (core_num * 8))"
  using stream_1d [OF axpy_start_gen(2,3,1,5) [OF assms(1,2)] assms(3) axpy_start_gen(6) [OF assms(1,2)] dvd_triv_right]
  unfolding axpy_start_gen(4) [OF assms(1,2)] .

lemma elem_strided:
  assumes "k < n div m" and "co < m" and "8 * (b + n) \<le> 2 ^ 32"
  shows "unat (of_nat (8 * b) + 8 * of_nat co + of_nat k * (of_nat m * 8) :: u32) div 8 = b + (co + k * m)"
proof -
  have "Suc k * m \<le> n div m * m" using assms(1) by (intro mult_le_mono1) simp
  also have "\<dots> \<le> n" by (rule div_times_less_eq_dividend)
  finally have "b + (co + k * m) < b + n" using assms(2) by simp
  from elem_addr [OF this assms(3)] show ?thesis by (simp add: algebra_simps)
qed

lemma axpy_opt_spec:
  fixes core_num core_idx n x y z :: nat
  assumes co: "core_idx < core_num" and n: "core_num \<le> n"
    and sp: "8 * (x + n) \<le> 2 ^ 32" "8 * (y + n) \<le> 2 ^ 32" "8 * (z + n) \<le> 2 ^ 32"
    and rep: "sf_regs s 0 SSR_REG_REPEAT = 0" "sf_regs s 1 SSR_REG_REPEAT = 0"
  shows "\<exists>s'. axpy_opt fma (\<lambda>p. X (unat p div 8)) (\<lambda>p. Y (unat p div 8)) (of_nat core_num) (of_nat core_idx) (of_nat n) a
      (of_nat (8 * x)) (of_nat (8 * y)) (of_nat (8 * z)) s = Some s'
    \<and> sf_C s' = for_upto 0 (n div core_num)
        (\<lambda>k C. C(z + (core_idx + k * core_num) := fma a (X (x + (core_idx + k * core_num))) (Y (y + (core_idx + k * core_num))))) (sf_C s)"
proof -
  define frac where "frac = n div core_num"
  define s1 where "s1 = axpy_start (of_nat core_num) (of_nat core_idx) (of_nat n) (of_nat (8 * x)) (of_nat (8 * y)) (of_nat (8 * z)) s"
  have pos: "0 < frac" using co n by (simp add: frac_def div_greater_zero_iff)
  have "n < 2 ^ 32" using sp(1) by simp
  moreover from this have "core_num < 2 ^ 32" using n by simp
  ultimately have u: "unat (of_nat n div of_nat core_num :: u32) = frac"
    by (simp add: unat_div unat_of_nat_small frac_def)
  have nz: "(of_nat n div of_nat core_num :: u32) \<noteq> 0" using u pos by (metis unat_0 less_irrefl)
  note R = axpy_start_regs [OF s1_def]
  obtain P0 a0 where P0: "P0 0 (sf_gen s1 0)" "emits P0 frac a0"
    "\<And>k. k < frac \<Longrightarrow> a0 k = of_nat (8 * x) + 8 * of_nat core_idx + of_nat k * (of_nat core_num * 8)"
    using axpy_stream [OF arg_cong [OF s1_def, of "\<lambda>s. sf_gen s 0"] _ nz] unfolding u by auto
  obtain P1 a1 where P1: "P1 0 (sf_gen s1 1)" "emits P1 frac a1"
    "\<And>k. k < frac \<Longrightarrow> a1 k = of_nat (8 * y) + 8 * of_nat core_idx + of_nat k * (of_nat core_num * 8)"
    using axpy_stream [OF arg_cong [OF s1_def, of "\<lambda>s. sf_gen s 1"] _ nz] unfolding u by auto
  obtain P2 a2 where P2: "P2 0 (sf_gen s1 2)" "emits P2 frac a2"
    "\<And>k. k < frac \<Longrightarrow> a2 k = of_nat (8 * z) + 8 * of_nat core_idx + of_nat k * (of_nat core_num * 8)"
    using axpy_stream [OF arg_cong [OF s1_def, of "\<lambda>s. sf_gen s 2"] _ nz] unfolding u by auto
  have at: "streams_at 1 P0 P1 P2 0 0 s1" using R rep P0(1) P1(1) P2(1) by (simp add: streams_at_def)
  let ?mX = "\<lambda>p. X (unat p div 8)" and ?mY = "\<lambda>p. Y (unat p div 8)"
  obtain s2 where s2: "for_opt frac (\<lambda>_. fmadd_a fma a ?mX ?mY) s1 = Some s2"
    "sf_C s2 = for_upto 0 frac (\<lambda>k C. C(unat (a2 k) div 8 := fma a (?mX (a0 k)) (?mY (a1 k)))) (sf_C s1)"
    using produce_at [OF at P0(2) P1(2) P2(2), of frac ?mX ?mY "fmadd_a fma a ?mX ?mY" "fma a"] by (auto simp: fmadd_a_def)
  have "for_upto 0 frac (\<lambda>k C. C(unat (a2 k) div 8 := fma a (?mX (a0 k)) (?mY (a1 k))))
      = for_upto 0 frac (\<lambda>k C. C(z + (core_idx + k * core_num) := fma a (X (x + (core_idx + k * core_num))) (Y (y + (core_idx + k * core_num)))))"
    by (rule for_upto_cong) (simp only: P0(3) P1(3) P2(3) elem_strided [OF _ co sp(1)] elem_strided [OF _ co sp(2)]
      elem_strided [OF _ co sp(3)] flip: frac_def)
  moreover have "frep (of_nat n div of_nat core_num - 1) (fmadd_a fma a ?mX ?mY) s1 = for_opt frac (\<lambda>_. fmadd_a fma a ?mX ?mY) s1"
    by (simp only: frep_times [OF nz] u)
  ultimately show ?thesis using s2 R(2) unfolding frac_def [symmetric] s1_def [symmetric] axpy_opt_def Let_def
    by (intro exI [where x = "s2\<lparr>sf_on := False\<rparr>"]) (simp flip: s1_def)
qed

lemma strided_writes:
  assumes "co < m"
  shows "for_upto 0 n (\<lambda>k C. C(co + k * m := f (co + k * m))) C i = (if i mod m = co \<and> i < n * m then f i else C i)"
proof (induction n)
  case (Suc n)
  have e: "i = co + n * m \<longleftrightarrow> i mod m = co \<and> i div m = n"
  proof
    show "i mod m = co \<and> i div m = n" if "i = co + n * m" using div_mod_position [OF assms, of n] that by (simp add: add.commute)
    show "i = co + n * m" if "i mod m = co \<and> i div m = n" using that mod_mult_div_eq [of i m] by (auto simp: mult.commute)
  qed
  have "i < q * m \<longleftrightarrow> i div m < q" for q using assms by (intro div_less_iff_less_mult [symmetric]) simp
  then have lt: "i < Suc n * m \<longleftrightarrow> i div m < n \<or> i div m = n" "i < n * m \<longleftrightarrow> i div m < n" by (simp_all only: less_Suc_eq)
  show ?case
  proof (cases "i = co + n * m")
    case True
    then show ?thesis using e lt by (simp add: for_upto_Suc del: mult_Suc)
  next
    case False
    then show ?thesis using Suc e lt by (auto simp add: for_upto_Suc simp del: mult_Suc)
  qed
qed simp

lemma axpy_opt_fp_at:
  assumes "core_idx < core_num" and "core_num \<le> n" and "8 * n \<le> 2 ^ 32"
    and "r 0 SSR_REG_REPEAT = 0" "r 1 SSR_REG_REPEAT = 0"
  shows "axpy_opt_fp fma r core_num core_idx n a x y z i
    = (if i mod core_num = core_idx \<and> i < n div core_num * core_num then fma a (x i) (y i) else z i)"
proof -
  have "sf_regs (opt_state r (\<lambda>_. 0) z) 0 SSR_REG_REPEAT = 0" "sf_regs (opt_state r (\<lambda>_. 0) z) 1 SSR_REG_REPEAT = 0"
    using assms(4,5) by (simp_all add: opt_state_def)
  from axpy_opt_spec [where x = 0 and y = 0 and z = 0 and X = x and Y = y and fma = fma and a = a, OF assms(1,2) _ _ _ this] assms(3)
  obtain s' where s': "axpy_opt fma (\<lambda>p. x (unat p div 8)) (\<lambda>p. y (unat p div 8)) (of_nat core_num) (of_nat core_idx) (of_nat n) a 0 0 0
      (opt_state r (\<lambda>_. 0) z) = Some s'"
    "sf_C s' = for_upto 0 (n div core_num) (\<lambda>k C. C(core_idx + k * core_num := fma a (x (core_idx + k * core_num)) (y (core_idx + k * core_num)))) z"
    by (auto simp: opt_state_def)
  show ?thesis unfolding axpy_opt_fp_def s'(1)
    using strided_writes [OF assms(1), of "n div core_num" "\<lambda>i. fma a (x i) (y i)" z i] by (simp add: s'(2))
qed

lemma axpy_opt_cores:
  assumes cores: "distinct cores" "set cores = {..<core_num}" and pos: "0 < core_num" and n: "core_num \<le> n" "8 * n \<le> 2 ^ 32"
    and rep: "r 0 SSR_REG_REPEAT = 0" "r 1 SSR_REG_REPEAT = 0"
  shows "axpy_cores (axpy_opt_fp fma r) core_num cores n a x y z i
    = (if i < n div core_num * core_num then fma a (x i) (y i) else z i)"
proof -
  have "set cs \<subseteq> {..<core_num} \<Longrightarrow> fold (\<lambda>co z. axpy_opt_fp fma r core_num co n a x y z) cs z i
      = (if i mod core_num \<in> set cs \<and> i < n div core_num * core_num then fma a (x i) (y i) else z i)" for cs
  proof (induction cs arbitrary: z)
    case (Cons co cs)
    then show ?case using axpy_opt_fp_at [where r = r, OF _ n rep, of co fma a x y z i] by auto
  qed simp
  then show ?thesis using cores pos by (simp add: axpy_cores_def)
qed

interpretation fma_job: axpy_kernel "axpy_cores (axpy_fma fma) (Suc c) [0..<Suc c]" fma frac a x y z0 n_tiles
  for fma c frac a x y z0 n_tiles
proof unfold_locales
  have "set [0..<Suc c] = {..<Suc c}" by (simp only: set_upt lessThan_atLeast0)
  then show "i < frac \<Longrightarrow> axpy_cores (axpy_fma fma) (Suc c) [0..<Suc c] frac a lx ly lz i = fma a (lx i) (ly i)" for i lx ly lz
    by (subst axpy_fma_cores) (auto simp del: upt_Suc)
qed

subsection \<open>The local buffers\<close>

lemma unat_align_tcdm:
  assumes "unat tcdm \<le> unat addr" and "unat addr + 192 < 2 ^ 64"
  shows "unat addr \<le> unat (ALIGN_UP_TCDM tcdm addr)" and "unat (ALIGN_UP_TCDM tcdm addr) < unat addr + 192"
proof -
  let ?d = "unat addr - unat tcdm"
  have "unat (addr - tcdm) = ?d" using assms(1) by (rule unat_sub_no_ovf)
  moreover from this have "unat (addr - tcdm + 192) = ?d + 192" using assms by (subst unat_add_no_ovf) simp_all
  moreover from this have "unat (addr - tcdm + 192 - 1) = ?d + 191" by (subst unat_sub_no_ovf) simp_all
  ultimately have q: "unat ((addr - tcdm + 192 - 1) div 192) = (?d + 191) div 192" by (simp add: unat_div)
  have r: "?d \<le> (?d + 191) div 192 * 192" "(?d + 191) div 192 * 192 < ?d + 192"
    using round_up_ge [of 192 ?d] round_up_lt [of 192 ?d] by simp_all
  have m: "unat ((addr - tcdm + 192 - 1) div 192 * 192) = (?d + 191) div 192 * 192"
  proof (subst unat_mult_no_ovf)
    have "(?d + 191) div 192 * 192 < 2 ^ 64" using r(2) assms(2) by linarith
    then show "unat ((addr - tcdm + 192 - 1) div 192) * unat (192 :: u64) < 2 ^ LENGTH(64)" unfolding q by simp
    show "unat ((addr - tcdm + 192 - 1) div 192) * unat (192 :: u64) = (?d + 191) div 192 * 192" unfolding q by simp
  qed
  have "unat (ALIGN_UP_TCDM tcdm addr) = (?d + 191) div 192 * 192 + unat tcdm"
    unfolding ALIGN_UP_TCDM_def ALIGN_NEXT_FROM_BASE_def TCDM_ALIGNMENT_def BANK_ALIGNMENT_def
  proof (subst unat_add_no_ovf)
    have "(?d + 191) div 192 * 192 + unat tcdm < 2 ^ 64" using r(2) assms by linarith
    then show "unat ((addr - tcdm + 24 * 8 - 1) div (24 * 8) * (24 * 8)) + unat tcdm < 2 ^ LENGTH(64)" using m by simp
    show "unat ((addr - tcdm + 24 * 8 - 1) div (24 * 8) * (24 * 8)) + unat tcdm = (?d + 191) div 192 * 192 + unat tcdm" using m by simp
  qed
  then show "unat addr \<le> unat (ALIGN_UP_TCDM tcdm addr)" "unat (ALIGN_UP_TCDM tcdm addr) < unat addr + 192"
    using r assms(1) by linarith+
qed

text \<open>One step of the allocation: the next buffer, \<open>b\<close> banks after an aligned address.\<close>

lemma next_buffer:
  assumes "unat tcdm \<le> unat a" and "unat a + unat sz + 192 + unat b < 2 ^ 64"
  shows "unat a + unat sz + unat b \<le> unat (ALIGN_UP_TCDM tcdm (a + sz) + b)"
    and "unat (ALIGN_UP_TCDM tcdm (a + sz) + b) < unat a + unat sz + unat b + 192"
proof -
  have s: "unat (a + sz) = unat a + unat sz" using assms(2) by (intro unat_add_no_ovf) simp
  note al = unat_align_tcdm [of tcdm "a + sz", unfolded s]
  have "unat (ALIGN_UP_TCDM tcdm (a + sz) + b) = unat (ALIGN_UP_TCDM tcdm (a + sz)) + unat b"
    using al assms by (intro unat_add_no_ovf) simp
  then show "unat a + unat sz + unat b \<le> unat (ALIGN_UP_TCDM tcdm (a + sz) + b)"
    "unat (ALIGN_UP_TCDM tcdm (a + sz) + b) < unat a + unat sz + unat b + 192"
    using al assms by simp_all
qed

subsection \<open>Properties\<close>

text \<open>
  The six local buffers of the job lie one after the other above its arguments, none overlapping the next.
\<close>

lemma axpy_buffers_disjoint:
  assumes "unat tcdm \<le> unat args" and "unat args + unat sizeof_args + 5 * unat sz + 1600 < 2 ^ 64"
  shows "sorted_wrt (\<lambda>p q. unat p + unat sz \<le> unat q) (axpy_buffers tcdm args sizeof_args sz)
    \<and> (\<forall>p \<in> set (axpy_buffers tcdm args sizeof_args sz). unat args + unat sizeof_args \<le> unat p)"
proof -
  define x0 where "x0 = ALIGN_UP_TCDM tcdm (args + sizeof_args) + 0"
  define y0 where "y0 = ALIGN_UP_TCDM tcdm (x0 + sz) + 64"
  define z0 where "z0 = ALIGN_UP_TCDM tcdm (y0 + sz) + 128"
  define x1 where "x1 = ALIGN_UP_TCDM tcdm (z0 + sz) + 0"
  define y1 where "y1 = ALIGN_UP_TCDM tcdm (x1 + sz) + 64"
  define z1 where "z1 = ALIGN_UP_TCDM tcdm (y1 + sz) + 128"
  have x0: "unat args + unat sizeof_args \<le> unat x0" "unat x0 < unat args + unat sizeof_args + 192"
    using next_buffer [of tcdm args sizeof_args 0, folded x0_def] assms by simp_all
  have y0: "unat x0 + unat sz \<le> unat y0" "unat y0 < unat x0 + unat sz + 256"
    using next_buffer [of tcdm x0 sz 64, folded y0_def] assms x0 by simp_all
  have z0: "unat y0 + unat sz \<le> unat z0" "unat z0 < unat y0 + unat sz + 320"
    using next_buffer [of tcdm y0 sz 128, folded z0_def] assms x0 y0 by simp_all
  have x1: "unat z0 + unat sz \<le> unat x1" "unat x1 < unat z0 + unat sz + 192"
    using next_buffer [of tcdm z0 sz 0, folded x1_def] assms x0 y0 z0 by simp_all
  have y1: "unat x1 + unat sz \<le> unat y1" "unat y1 < unat x1 + unat sz + 256"
    using next_buffer [of tcdm x1 sz 64, folded y1_def] assms x0 y0 z0 x1 by simp_all
  have z1: "unat y1 + unat sz \<le> unat z1"
    using next_buffer [of tcdm y1 sz 128, folded z1_def] assms x0 y0 z0 x1 y1 by simp_all
  have "axpy_buffers tcdm args sizeof_args sz = [x0, y0, z0, x1, y1, z1]"
    by (simp add: axpy_buffers_def Let_def BANK_ALIGNMENT_def x0_def y0_def z0_def x1_def y1_def z1_def)
  then show ?thesis using x0 y0 z0 x1 y1 z1 by simp
qed

lemma axpy_buffers_disjoint_witness:
  "sorted_wrt (\<lambda>p q. unat p + unat (800 :: u64) \<le> unat q) (axpy_buffers 0x10000000 0x10000040 40 800)"
  using axpy_buffers_disjoint [of "0x10000000" "0x10000040" 40 800] by simp

text \<open>
  C34: The double-buffered job with the stream kernel computes \<open>z = a * x + y\<close> on all elements of its tiles
  whenever the number of cores divides the tile size, whatever the interleaving of the transfers and the
  computation within an iteration; the elements after the last whole tile are left as they were.
\<close>

theorem axpy_job_opt:
  fixes core_num :: nat and r :: ssr_regs
  assumes "frac = n div n_tiles" and "0 < core_num" and "core_num dvd frac" and "0 < frac" and "8 * frac \<le> 2 ^ 32"
    and "r 0 SSR_REG_REPEAT = 0" and "r 1 SSR_REG_REPEAT = 0"
    and "\<And>i. i < n_tiles + 2 \<Longrightarrow> out_in (ord i) \<or> in_out (ord i)"
  shows "ax_z (axpy_job (axpy_cores (axpy_opt_fp fma r) core_num [0..<core_num]) n n_tiles a x y ord s) i
    = (if i < n_tiles * frac then fma a (x i) (y i) else ax_z s i)"
proof -
  have "axpy_kernel (axpy_cores (axpy_opt_fp fma r) core_num [0..<core_num]) fma frac a"
  proof
    fix i lx ly lz
    assume "i < frac"
    then show "axpy_cores (axpy_opt_fp fma r) core_num [0..<core_num] frac a lx ly lz i = fma a (lx i) (ly i)"
      using axpy_opt_cores [where fma = fma and r = r and n = frac and core_num = core_num and cores = "[0..<core_num]"] assms
      by (simp add: lessThan_atLeast0 dvd_imp_le)
  qed
  from axpy_kernel.axpy_job_stores [where ord = ord, OF this assms(1) refl assms(8)] show ?thesis by simp
qed

theorem axpy_job_opt_witness:
  "ax_z (axpy_job (axpy_cores (axpy_opt_fp (\<lambda>a x y. a * x + y) (\<lambda>_ _. 0)) 2 [0..<2]) 9 2 (3 :: int) int (\<lambda>_. 1)
     (\<lambda>_. [P_in, P_compute, P_out]) \<lparr>ax_z = \<lambda>_. 0, ax_lx = \<lambda>_ _. 0, ax_ly = \<lambda>_ _. 0, ax_lz = \<lambda>_ _. 0\<rparr>) 5 = 16"
  using axpy_job_opt [where frac = 4 and n = 9 and n_tiles = 2 and core_num = 2 and r = "\<lambda>_ _. 0" and fma = "\<lambda>a x y. a * x + y"
      and a = "3 :: int" and x = int and y = "\<lambda>_. 1" and ord = "\<lambda>_. [P_in, P_compute, P_out]" and i = 5
      and s = "\<lparr>ax_z = \<lambda>_. 0, ax_lx = \<lambda>_ _. 0, ax_ly = \<lambda>_ _. 0, ax_lz = \<lambda>_ _. 0\<rparr>"]
  by (simp add: in_out_def)

text \<open>
  The stream kernel gives each core \<open>n div core_num\<close> elements, so it leaves the last \<open>n mod core_num\<close>
  elements of \<open>z\<close> unwritten, where the two loop kernels compute them.
\<close>

lemma axpy_opt_drops_remainder:
  assumes "0 < core_num" and "core_num \<le> n" and "8 * n \<le> 2 ^ 32" and "n div core_num * core_num \<le> i" and "i < n"
    and "r 0 SSR_REG_REPEAT = 0" and "r 1 SSR_REG_REPEAT = 0"
  shows "axpy_cores (axpy_opt_fp fma r) core_num [0..<core_num] n a x y z i = z i
    \<and> axpy_cores (axpy_fma fma) core_num [0..<core_num] n a x y z i = fma a (x i) (y i)"
  using axpy_opt_cores [where fma = fma and r = r and n = n and core_num = core_num and cores = "[0..<core_num]"] axpy_fma_cores [where fma = fma and cores = "[0..<core_num]" and core_num = core_num] assms
  by (simp add: lessThan_atLeast0)

lemma axpy_opt_drops_remainder_witness:
  "axpy_cores (axpy_opt_fp (\<lambda>a x y. a * x + y) (\<lambda>_ _. 0)) 2 [0..<2] 5 (3 :: int) int (\<lambda>_. 1) (\<lambda>_. 0) 4 = 0
    \<and> axpy_cores (axpy_fma (\<lambda>a x y. a * x + y)) 2 [0..<2] 5 (3 :: int) int (\<lambda>_. 1) (\<lambda>_. 0) 4 = 13"
  using axpy_opt_drops_remainder [where core_num = 2 and n = 5 and i = 4 and r = "\<lambda>_ _. 0" and fma = "\<lambda>a x y. a * x + y"
      and a = "3 :: int" and x = int and y = "\<lambda>_. 1" and z = "\<lambda>_. 0"] by simp

end
