(* ===== verification/Gemv.thy ===== *)
theory Gemv
  imports Fp_Stream
begin

text \<open>
  The matrix-vector product \<open>y = alpha * op(A) * x\<close> (\<open>sw/kernels/blas/gemv/src/gemv.h\<close>): the kernel of
  one core over two streams and the distribution of the rows over the cores of a cluster. Matrices
  and vectors are functions from element indices to values; pointers are byte addresses.
\<close>

subsection \<open>The kernel of one core\<close>

definition gemv_start :: "bool \<Rightarrow> u32 \<Rightarrow> u32 \<Rightarrow> u32 \<Rightarrow> u32 \<Rightarrow> u32 \<Rightarrow> u32 \<Rightarrow> 'a ssr_fp \<Rightarrow> 'a ssr_fp" where
  "gemv_start tr m n a lda x incx s =
     (let r = (if tr then snrt_ssr_loop_2d True 0 n m (lda * 8) 8 (sf_regs s) else snrt_ssr_loop_2d True 0 n m 8 (lda * 8) (sf_regs s));
          s = s\<lparr>sf_regs := snrt_ssr_loop_2d True 1 n m (8 * incx) 0 r\<rparr>;
          s = stream_read 0 SNRT_SSR_2D a s;
          s = stream_read 1 SNRT_SSR_2D x s
      in s\<lparr>sf_on := True\<rparr>)"

definition single_core_gemv :: "('a::{times,zero} \<Rightarrow> 'a \<Rightarrow> 'a \<Rightarrow> 'a) \<Rightarrow> (u32 \<Rightarrow> 'a) \<Rightarrow> (u32 \<Rightarrow> 'a) \<Rightarrow> bool \<Rightarrow> u32 \<Rightarrow> u32 \<Rightarrow> 'a
    \<Rightarrow> u32 \<Rightarrow> u32 \<Rightarrow> u32 \<Rightarrow> u32 \<Rightarrow> u32 \<Rightarrow> 'a ssr_fp \<Rightarrow> 'a ssr_fp option" where
  "single_core_gemv fma memA memX tr m n alpha a lda x incx y s = do {
     s \<leftarrow> for_opt (unat m) (\<lambda>i s. do {
       s \<leftarrow> frep (n - 1) (fmadd_c fma memA memX 0) (s\<lparr>sf_c := (sf_c s)(0 := 0)\<rparr>);
       Some (s\<lparr>sf_C := (sf_C s)(unat (y + 8 * of_nat i) div 8 := sf_c s 0 * alpha)\<rparr>) })
       (gemv_start tr m n a lda x incx s);
     Some (s\<lparr>sf_on := False\<rparr>) }"

subsection \<open>The cores of a cluster\<close>

definition gemv :: "('a::{times,zero} \<Rightarrow> 'a \<Rightarrow> 'a \<Rightarrow> 'a) \<Rightarrow> (u32 \<Rightarrow> 'a) \<Rightarrow> (u32 \<Rightarrow> 'a) \<Rightarrow> u32 \<Rightarrow> u32 \<Rightarrow> bool \<Rightarrow> u32 \<Rightarrow> u32 \<Rightarrow> 'a
    \<Rightarrow> u32 \<Rightarrow> u32 \<Rightarrow> u32 \<Rightarrow> u32 \<Rightarrow> 'a ssr_fp \<Rightarrow> 'a ssr_fp option" where
  "gemv fma memA memX core_num core_idx tr m n alpha a x incx y s =
     (let frac_m = m div core_num; rem_m = m mod core_num; start_m = core_idx * frac_m;
          core_m = (if core_idx = core_num - 1 then frac_m + rem_m else frac_m);
          lda = (if tr then m else n);
          core_a = (if tr then a + 8 * start_m else a + 8 * (start_m * lda))
      in if 0 < core_m then single_core_gemv fma memA memX tr core_m n alpha core_a lda x incx (y + 8 * start_m) s
         else Some s)"

text \<open>The cores have their own stream registers \<open>r\<close> and share \<open>y\<close>, of which they write different rows.\<close>

definition gemv_cores :: "('a::{times,zero} \<Rightarrow> 'a \<Rightarrow> 'a \<Rightarrow> 'a) \<Rightarrow> (u32 \<Rightarrow> 'a) \<Rightarrow> (u32 \<Rightarrow> 'a) \<Rightarrow> ssr_regs \<Rightarrow> nat \<Rightarrow> bool \<Rightarrow> u32 \<Rightarrow> u32 \<Rightarrow> 'a
    \<Rightarrow> u32 \<Rightarrow> u32 \<Rightarrow> u32 \<Rightarrow> u32 \<Rightarrow> (nat \<Rightarrow> 'a) \<Rightarrow> (nat \<Rightarrow> 'a) option" where
  "gemv_cores fma memA memX r core_num tr m n alpha a x incx y C =
     for_opt core_num (\<lambda>co C. do {
       s \<leftarrow> gemv fma memA memX (of_nat core_num) (of_nat co) tr m n alpha a x incx y (opt_state r (\<lambda>_. 0) C);
       Some (sf_C s) }) C"

subsection \<open>The streams\<close>

lemmas gemv_cfg_defs = gemv_start_def stream_read_def stream_start_def ssr_loop_defs Let_def

lemma gemv_start_regs:
  assumes "s' = gemv_start tr m n a lda x incx s"
  shows "sf_on s'" and "sf_C s' = sf_C s" and "sf_rep s' 0 = 0" and "sf_rep s' 1 = 0"
    and "sf_regs s' 0 SSR_REG_REPEAT = sf_regs s 0 SSR_REG_REPEAT" and "sf_regs s' 1 SSR_REG_REPEAT = sf_regs s 1 SSR_REG_REPEAT"
  unfolding assms by (simp_all add: gemv_cfg_defs)

lemma gemv_start_gen:
  assumes "s' = gemv_start tr m n a lda x incx s" and "g = sf_gen s' dm" and "dm = 0 \<or> dm = 1"
  shows "\<not> ag_done g" and "ag_index g = (\<lambda>_. 0)" and "ag_dims g = 1" and "ag_pointer g = (if dm = 0 then a else x)"
    and "ag_bound g 0 = n - 1" and "ag_bound g 1 = m - 1"
    and "ag_stride g 0 = (if dm = 0 then if tr then lda * 8 else 8 else 8 * incx) AND NOT 7"
    and "ag_stride g 1 = ((if dm = 0 then if tr then 8 else lda * 8 else 0)
      - (if dm = 0 then if tr then lda * 8 else 8 else 8 * incx) * (n - 1)) AND NOT 7"
  using assms(3) unfolding assms(1,2) by (auto simp: gemv_cfg_defs)

lemma gemv_streams:
  assumes "s' = gemv_start tr m n a lda x incx s" and "m \<noteq> 0" "n \<noteq> 0"
  shows "\<exists>P f. P 0 (sf_gen s' 0) \<and> emits P (unat m * unat n) f
      \<and> (\<forall>i < unat m. \<forall>k < unat n. f (i * unat n + k)
          = a + (if tr then of_nat k * (lda * 8) + of_nat i * 8 else of_nat k * 8 + of_nat i * (lda * 8)))"
    and "\<exists>P f. P 0 (sf_gen s' 1) \<and> emits P (unat m * unat n) f
      \<and> (\<forall>i < unat m. \<forall>k < unat n. f (i * unat n + k) = x + of_nat k * (8 * incx))"
proof -
  note G0 = gemv_start_gen [OF assms(1) refl disjI1 [OF refl]] and G1 = gemv_start_gen [OF assms(1) refl disjI2 [OF refl]]
  show "\<exists>P f. P 0 (sf_gen s' 0) \<and> emits P (unat m * unat n) f
      \<and> (\<forall>i < unat m. \<forall>k < unat n. f (i * unat n + k)
          = a + (if tr then of_nat k * (lda * 8) + of_nat i * 8 else of_nat k * 8 + of_nat i * (lda * 8)))"
    using stream_2d [OF G0(1-3,5,6) assms(3,2) G0(7,8)] unfolding G0(4) by (cases tr) (simp_all add: add.assoc)
  show "\<exists>P f. P 0 (sf_gen s' 1) \<and> emits P (unat m * unat n) f
      \<and> (\<forall>i < unat m. \<forall>k < unat n. f (i * unat n + k) = x + of_nat k * (8 * incx))"
    using stream_2d [OF G1(1-3,5,6) assms(3,2) G1(7,8)] unfolding G1(4) by simp
qed

subsection \<open>The rows of one core\<close>

definition gemv_elem :: "('a::{times,zero} \<Rightarrow> 'a \<Rightarrow> 'a \<Rightarrow> 'a) \<Rightarrow> nat \<Rightarrow> 'a \<Rightarrow> (nat \<Rightarrow> 'a) \<Rightarrow> (nat \<Rightarrow> 'a) \<Rightarrow> 'a" where
  "gemv_elem fma n alpha u v = for_upto 0 n (\<lambda>k acc. fma (u k) (v k) acc) 0 * alpha"

lemma single_core_gemv_at:
  assumes m: "m \<noteq> 0" and n: "n \<noteq> 0" and rep: "sf_regs s 0 SSR_REG_REPEAT = 0" "sf_regs s 1 SSR_REG_REPEAT = 0"
    and A: "\<And>i k. i < unat m \<Longrightarrow> k < unat n \<Longrightarrow>
        memA (a + (if tr then of_nat k * (lda * 8) + of_nat i * 8 else of_nat k * 8 + of_nat i * (lda * 8))) = u i k"
    and X: "\<And>k. k < unat n \<Longrightarrow> memX (x + of_nat k * (8 * incx)) = v k"
  shows "\<exists>s'. single_core_gemv fma memA memX tr m n alpha a lda x incx y s = Some s'
    \<and> sf_C s' = for_upto 0 (unat m) (\<lambda>i C. C(unat (y + 8 * of_nat i) div 8 := gemv_elem fma (unat n) alpha (u i) v)) (sf_C s)"
proof -
  define s1 where "s1 = gemv_start tr m n a lda x incx s"
  note R = gemv_start_regs [OF s1_def]
  obtain P0 f0 where P0: "P0 0 (sf_gen s1 0)" "emits P0 (unat m * unat n) f0"
    "\<And>i k. i < unat m \<Longrightarrow> k < unat n \<Longrightarrow> memA (f0 (i * unat n + k)) = u i k"
    using gemv_streams(1) [OF s1_def m n] A by metis
  obtain P1 f1 where P1: "P1 0 (sf_gen s1 1)" "emits P1 (unat m * unat n) f1"
    "\<And>i k. i < unat m \<Longrightarrow> k < unat n \<Longrightarrow> memX (f1 (i * unat n + k)) = v k"
    using gemv_streams(2) [OF s1_def m n] X by metis
  let ?P2 = "\<lambda>_ _. True"
  define body where "body = (\<lambda>i s. do {
       s \<leftarrow> frep (n - 1) (fmadd_c fma memA memX 0) (s\<lparr>sf_c := (sf_c s)(0 := 0)\<rparr>);
       Some (s\<lparr>sf_C := (sf_C s)(unat (y + 8 * of_nat i) div 8 := sf_c s 0 * alpha)\<rparr>) })"
  define I where "I i t \<longleftrightarrow> streams_at 1 P0 P1 ?P2 (i * unat n) 0 t
    \<and> sf_C t = for_upto 0 i (\<lambda>i C. C(unat (y + 8 * of_nat i) div 8 := gemv_elem fma (unat n) alpha (u i) v)) (sf_C s)" for i t
  have "\<exists>s2. for_opt (unat m) body s1 = Some s2 \<and> I (unat m) s2"
  proof (rule for_opt_invariant)
    show "I 0 s1" using R rep P0(1) P1(1) by (simp add: I_def streams_at_def)
    fix i t assume i: "i < unat m" and t: "I i t"
    let ?t = "t\<lparr>sf_c := (sf_c t)(0 := 0)\<rparr>"
    have "Suc i * unat n \<le> unat m * unat n" using i by (intro mult_le_mono1) simp
    then have T: "i * unat n + unat n \<le> unat m * unat n" by simp
    have "streams_at 1 P0 P1 ?P2 (i * unat n) 0 ?t" using t by (simp add: I_def streams_at_cong)
    from accumulate_at [OF this P0(2) P1(2) T, of fma memA memX "\<lambda>_. 0"]
    obtain t' where t': "for_opt (unat n) (\<lambda>_. fmadd_c fma memA memX 0) ?t = Some t'"
      "streams_at 1 P0 P1 ?P2 (i * unat n + unat n) 0 t'" "sf_C t' = sf_C t"
      "sf_c t' 0 = for_upto 0 (unat n) (\<lambda>k. fma (memA (f0 (i * unat n + k))) (memX (f1 (i * unat n + k)))) 0"
      using accumulate_one [where f = "\<lambda>k. fma (memA (f0 (i * unat n + k))) (memX (f1 (i * unat n + k)))" and j = 0 and n = "unat n" and c = "(sf_c t)(0 := 0)"]
      by auto
    have "for_upto 0 (unat n) (\<lambda>k. fma (memA (f0 (i * unat n + k))) (memX (f1 (i * unat n + k)))) = for_upto 0 (unat n) (\<lambda>k. fma (u i k) (v k))"
      by (rule for_upto_cong) (simp add: P0(3) P1(3) i)
    then have e: "sf_c t' 0 * alpha = gemv_elem fma (unat n) alpha (u i) v" unfolding t'(4) gemv_elem_def by simp
    have "body i t = Some (t'\<lparr>sf_C := (sf_C t')(unat (y + 8 * of_nat i) div 8 := sf_c t' 0 * alpha)\<rparr>)"
      using t'(1) by (simp add: body_def frep_times [OF n])
    then show "\<exists>t''. body i t = Some t'' \<and> I (Suc i) t''"
      using t t'(2,3) unfolding e by (simp add: I_def streams_at_def for_upto_Suc add.commute)
  qed
  then obtain s2 where "for_opt (unat m) body s1 = Some s2" "I (unat m) s2" by blast
  then show ?thesis by (auto simp: single_core_gemv_def I_def body_def s1_def)
qed

subsection \<open>All rows\<close>

lemma gemv_rows:
  fixes core_num co m :: nat
  assumes "co < core_num"
  shows "co * (m div core_num) + (if co = core_num - 1 then m div core_num + m mod core_num else m div core_num)
      = (if co = core_num - 1 then m else Suc co * (m div core_num))"
    and "co * (m div core_num) + (if co = core_num - 1 then m div core_num + m mod core_num else m div core_num) \<le> m"
proof -
  have "co * (m div core_num) + (m div core_num + m mod core_num) = m" if "co = core_num - 1"
  proof -
    have "co * (m div core_num) + m div core_num = core_num * (m div core_num)" using that assms by (cases core_num) simp_all
    then show ?thesis using mult_div_mod_eq [of core_num m] by linarith
  qed
  then show eq: "co * (m div core_num) + (if co = core_num - 1 then m div core_num + m mod core_num else m div core_num)
      = (if co = core_num - 1 then m else Suc co * (m div core_num))" by simp
  have "Suc co * (m div core_num) \<le> core_num * (m div core_num)" using assms by (intro mult_le_mono1) simp
  also have "\<dots> \<le> m" by simp
  finally show "co * (m div core_num) + (if co = core_num - 1 then m div core_num + m mod core_num else m div core_num) \<le> m"
    unfolding eq by simp
qed

text \<open>What the matrix contributes to row \<open>i\<close> of the result.\<close>

definition gemv_row :: "bool \<Rightarrow> nat \<Rightarrow> nat \<Rightarrow> (nat \<Rightarrow> 'a) \<Rightarrow> nat \<Rightarrow> nat \<Rightarrow> nat \<Rightarrow> 'a" where
  "gemv_row tr m n A a i k = A (a + (if tr then k * m + i else i * n + k))"

lemma gemv_core_at:
  fixes m n a x incx y core_num co :: nat
  defines "start \<equiv> co * (m div core_num)"
  defines "rows \<equiv> if co = core_num - 1 then m div core_num + m mod core_num else m div core_num"
  assumes co: "co < core_num" "core_num < 2 ^ 32" and n: "0 < n"
    and sp: "8 * (a + m * n) \<le> 2 ^ 32" "\<And>k. k < n \<Longrightarrow> 8 * (x + k * incx) < 2 ^ 32" "8 * (y + m) \<le> 2 ^ 32" "n < 2 ^ 32"
    and rep: "sf_regs s 0 SSR_REG_REPEAT = 0" "sf_regs s 1 SSR_REG_REPEAT = 0"
  shows "\<exists>s'. gemv fma (\<lambda>p. A (unat p div 8)) (\<lambda>p. X (unat p div 8)) (of_nat core_num) (of_nat co) tr (of_nat m) (of_nat n) alpha
      (of_nat (8 * a)) (of_nat (8 * x)) (of_nat incx) (of_nat (8 * y)) s = Some s'
    \<and> sf_C s' = for_upto 0 rows (\<lambda>i C. C(y + start + i := gemv_elem fma n alpha (gemv_row tr m n A a (start + i)) (\<lambda>k. X (x + k * incx)))) (sf_C s)"
proof -
  have m: "m < 2 ^ 32" using sp(3) by simp
  have bnd: "start + rows \<le> m" unfolding start_def rows_def by (rule gemv_rows(2)) fact
  let ?mA = "\<lambda>p :: u32. A (unat p div 8)" and ?mX = "\<lambda>p :: u32. X (unat p div 8)"
  define lda where "lda = (if tr then m else n)"
  define ca where "ca = a + (if tr then start else start * lda)"
  have div32: "of_nat m div of_nat core_num = (of_nat (m div core_num) :: u32)"
    and mod32: "of_nat m mod of_nat core_num = (of_nat (m mod core_num) :: u32)"
    using m co by (simp_all add: of_nat_word_div of_nat_word_mod)
  have last: "(of_nat co :: u32) = of_nat core_num - 1 \<longleftrightarrow> co = core_num - 1"
  proof -
    have "of_nat core_num - 1 = (of_nat (core_num - 1) :: u32)" using co(1) by (simp add: of_nat_diff)
    moreover have "unat (of_nat co :: u32) = co" "unat (of_nat (core_num - 1) :: u32) = core_num - 1"
      using co by (intro unat_of_nat_small; simp)+
    ultimately show ?thesis by metis
  qed
  have rows32: "(if co = core_num - 1 then of_nat (m div core_num) + of_nat (m mod core_num) else of_nat (m div core_num)) = (of_nat rows :: u32)"
    unfolding rows_def by simp
  have urows: "unat (of_nat rows :: u32) = rows" using bnd m by (intro unat_of_nat_small) simp
  have un: "unat (of_nat n :: u32) = n" using sp(4) by (intro unat_of_nat_small) simp
  have g: "gemv fma ?mA ?mX (of_nat core_num) (of_nat co) tr (of_nat m) (of_nat n) alpha (of_nat (8 * a)) (of_nat (8 * x)) (of_nat incx) (of_nat (8 * y)) s
    = (if 0 < rows then single_core_gemv fma ?mA ?mX tr (of_nat rows) (of_nat n) alpha (of_nat (8 * ca)) (of_nat lda) (of_nat (8 * x)) (of_nat incx)
        (of_nat (8 * (y + start))) s else Some s)"
    unfolding gemv_def Let_def div32 mod32 last
    unfolding rows32 word_less_nat_alt urows
    by (simp add: ca_def lda_def start_def algebra_simps)
  show ?thesis
  proof (cases "0 < rows")
    case True
    have nz: "(of_nat rows :: u32) \<noteq> 0" "(of_nat n :: u32) \<noteq> 0" using True n urows un by (metis unat_0 less_irrefl)+
    have mA: "?mA (of_nat (8 * ca) + (if tr then of_nat k * (of_nat lda * 8) + of_nat i * 8 else of_nat k * 8 + of_nat i * (of_nat lda * 8)))
        = gemv_row tr m n A a (start + i) k" if "i < rows" "k < n" for i k
    proof -
      have "(if tr then k * m + (start + i) else (start + i) * n + k) < m * n"
      proof (cases tr)
        case True
        have "k * m + (start + i) < Suc k * m" using bnd that by simp
        also have "\<dots> \<le> n * m" using that by (intro mult_le_mono1) simp
        finally show ?thesis using True by (simp add: mult.commute)
      next
        case False
        have "(start + i) * n + k < Suc (start + i) * n" using that by simp
        also have "\<dots> \<le> m * n" using bnd that by (intro mult_le_mono1) simp
        finally show ?thesis using False by simp
      qed
      then have "a + (if tr then k * m + (start + i) else (start + i) * n + k) < a + m * n" by simp
      note el = elem_addr [OF this sp(1) refl]
      have e: "of_nat (8 * ca) + (if tr then of_nat k * (of_nat lda * 8) + of_nat i * 8 else of_nat k * 8 + of_nat i * (of_nat lda * 8))
          = (of_nat (8 * (a + (if tr then k * m + (start + i) else (start + i) * n + k))) :: u32)"
        by (cases tr) (simp_all add: ca_def lda_def algebra_simps)
      show ?thesis unfolding gemv_row_def e el ..
    qed
    have mX: "?mX (of_nat (8 * x) + of_nat k * (8 * of_nat incx)) = X (x + k * incx)" if "k < n" for k
    proof -
      have e: "of_nat (8 * x) + of_nat k * (8 * of_nat incx) = (of_nat (8 * (x + k * incx)) :: u32)" by (simp add: algebra_simps)
      have "unat (of_nat (8 * (x + k * incx)) :: u32) = 8 * (x + k * incx)" using sp(2) [OF that] by (intro unat_of_nat_small) simp
      then show ?thesis unfolding e by simp
    qed
    have yA: "unat (of_nat (8 * (y + start)) + 8 * of_nat i :: u32) div 8 = y + start + i" if "i < rows" for i
      by (rule elem_addr [OF _ sp(3)]) (use that bnd in \<open>simp_all add: algebra_simps\<close>)
    from single_core_gemv_at [where memA = ?mA and memX = ?mX and fma = fma and alpha = alpha and tr = tr and a = "of_nat (8 * ca)" and x = "of_nat (8 * x)"
        and lda = "of_nat lda" and incx = "of_nat incx" and y = "of_nat (8 * (y + start))" and u = "\<lambda>i. gemv_row tr m n A a (start + i)"
        and v = "\<lambda>k. X (x + k * incx)", OF nz rep, unfolded urows un, OF mA mX]
    obtain s' where s': "single_core_gemv fma ?mA ?mX tr (of_nat rows) (of_nat n) alpha (of_nat (8 * ca)) (of_nat lda) (of_nat (8 * x)) (of_nat incx)
        (of_nat (8 * (y + start))) s = Some s'"
      "sf_C s' = for_upto 0 rows (\<lambda>i C. C(unat (of_nat (8 * (y + start)) + 8 * of_nat i :: u32) div 8
          := gemv_elem fma n alpha (gemv_row tr m n A a (start + i)) (\<lambda>k. X (x + k * incx)))) (sf_C s)" by blast
    have "for_upto 0 rows (\<lambda>i C. C(unat (of_nat (8 * (y + start)) + 8 * of_nat i :: u32) div 8
          := gemv_elem fma n alpha (gemv_row tr m n A a (start + i)) (\<lambda>k. X (x + k * incx))))
        = for_upto 0 rows (\<lambda>i C. C(y + start + i := gemv_elem fma n alpha (gemv_row tr m n A a (start + i)) (\<lambda>k. X (x + k * incx))))"
      by (rule for_upto_cong) (simp only: yA)
    then show ?thesis unfolding g using True s' by (simp only: if_True) blast
  next
    case False
    then show ?thesis unfolding g by simp
  qed
qed

text \<open>
  C35: The cores of a cluster compute \<open>alpha * op(A) * x\<close>: every core returns, row \<open>i\<close> of the result is the sum of the
  products of row \<open>i\<close> (column \<open>i\<close> of the stored matrix when it is transposed) with the elements of \<open>x\<close> at stride
  \<open>incx\<close>, accumulated in order and scaled, for every number of rows and cores, and nothing else is written.
\<close>

theorem gemv_computes:
  fixes m n a x incx y core_num :: nat
  assumes core_num: "0 < core_num" "core_num < 2 ^ 32" and n: "0 < n"
    and sp: "8 * (a + m * n) \<le> 2 ^ 32" "\<And>k. k < n \<Longrightarrow> 8 * (x + k * incx) < 2 ^ 32" "8 * (y + m) \<le> 2 ^ 32" "n < 2 ^ 32"
    and rep: "r 0 SSR_REG_REPEAT = 0" "r 1 SSR_REG_REPEAT = 0"
  shows "gemv_cores fma (\<lambda>p. A (unat p div 8)) (\<lambda>p. X (unat p div 8)) r core_num tr (of_nat m) (of_nat n) alpha
      (of_nat (8 * a)) (of_nat (8 * x)) (of_nat incx) (of_nat (8 * y)) C
    = Some (\<lambda>j. if y \<le> j \<and> j < y + m
        then for_upto 0 n (\<lambda>k acc. fma (A (a + (if tr then k * m + (j - y) else (j - y) * n + k))) (X (x + k * incx)) acc) 0 * alpha
        else C j)"
proof -
  define row where "row i = gemv_elem fma n alpha (gemv_row tr m n A a i) (\<lambda>k. X (x + k * incx))" for i
  define upto where "upto co = (if co = core_num then m else co * (m div core_num))" for co
  define I where "I co C' \<longleftrightarrow> C' = (\<lambda>j. if y \<le> j \<and> j < y + upto co then row (j - y) else C j)" for co C'
  have "\<exists>C'. gemv_cores fma (\<lambda>p. A (unat p div 8)) (\<lambda>p. X (unat p div 8)) r core_num tr (of_nat m) (of_nat n) alpha
      (of_nat (8 * a)) (of_nat (8 * x)) (of_nat incx) (of_nat (8 * y)) C = Some C' \<and> I core_num C'"
    unfolding gemv_cores_def
  proof (rule for_opt_invariant)
    show "I 0 C" using core_num(1) by (auto simp: I_def upto_def fun_eq_iff)
    fix co C' assume co: "co < core_num" and C': "I co C'"
    let ?rows = "if co = core_num - 1 then m div core_num + m mod core_num else m div core_num"
    have u: "upto co = co * (m div core_num)" "upto (Suc co) = upto co + ?rows"
      using gemv_rows(1) [OF co, of m] co by (auto simp: upto_def)
    have "sf_regs (opt_state r (\<lambda>_. 0) C') 0 SSR_REG_REPEAT = 0" "sf_regs (opt_state r (\<lambda>_. 0) C') 1 SSR_REG_REPEAT = 0"
      using rep by (simp_all add: opt_state_def)
    from gemv_core_at [OF co core_num(2) n sp this, of fma A X tr alpha]
    obtain s' where s': "gemv fma (\<lambda>p. A (unat p div 8)) (\<lambda>p. X (unat p div 8)) (of_nat core_num) (of_nat co) tr (of_nat m) (of_nat n) alpha
        (of_nat (8 * a)) (of_nat (8 * x)) (of_nat incx) (of_nat (8 * y)) (opt_state r (\<lambda>_. 0) C') = Some s'"
      "sf_C s' = for_upto 0 ?rows (\<lambda>i C. C(y + upto co + i := row (upto co + i))) C'"
      unfolding u(1) by (auto simp: row_def opt_state_def)
    have "sf_C s' j = (if y \<le> j \<and> j < y + upto (Suc co) then row (j - y) else C j)" for j
      using C' unfolding s'(2) row_loop u(2) by (auto simp: I_def)
    then have "I (Suc co) (sf_C s')" by (auto simp: I_def)
    then show "\<exists>C''. (do { s \<leftarrow> gemv fma (\<lambda>p. A (unat p div 8)) (\<lambda>p. X (unat p div 8)) (of_nat core_num) (of_nat co) tr (of_nat m) (of_nat n) alpha
        (of_nat (8 * a)) (of_nat (8 * x)) (of_nat incx) (of_nat (8 * y)) (opt_state r (\<lambda>_. 0) C'); Some (sf_C s) }) = Some C'' \<and> I (Suc co) C''"
      using s'(1) by simp
  qed
  then show ?thesis by (auto simp: I_def upto_def row_def gemv_elem_def gemv_row_def)
qed

theorem gemv_computes_witness:
  "map_option (\<lambda>y. y 2) (gemv_cores (\<lambda>x y z. x * y + z) (\<lambda>p. int (unat p div 8)) (\<lambda>p. 2) (\<lambda>_ _. 0) 2 False (of_nat 3) (of_nat 2) 10
      (of_nat (8 * 0)) (of_nat (8 * 0)) (of_nat 0) (of_nat (8 * 0)) (\<lambda>_. 0)) = Some 180"
  using gemv_computes [where core_num = 2 and m = 3 and n = 2 and a = 0 and x = 0 and incx = 0 and y = 0 and r = "\<lambda>_ _. 0"
      and fma = "\<lambda>x y z. x * y + z" and A = int and X = "\<lambda>_. 2" and alpha = 10 and tr = False and C = "\<lambda>_. 0"]
  by (simp add: for_upto_def upt_rec)

end
