(* ===== verification/Dot.thy ===== *)
theory Dot
  imports Fp_Stream Double_Buffer
begin

text \<open>
  The dot product (\<open>sw/kernels/blas/dot/src/dot.h\<close>): the kernels of one core with one and with four
  accumulators, and the product over the cores of a cluster, which sum their parts through the L1
  memory.
\<close>

subsection \<open>The kernels of one core\<close>

definition dot_start :: "u32 \<Rightarrow> u32 \<Rightarrow> u32 \<Rightarrow> 'a ssr_fp \<Rightarrow> 'a ssr_fp" where
  "dot_start n x y s =
     (let s = s\<lparr>sf_regs := snrt_ssr_loop_1d True 1 n 8 (snrt_ssr_loop_1d True 0 n 8 (sf_regs s))\<rparr>;
          s = stream_read 0 SNRT_SSR_1D x s;
          s = stream_read 1 SNRT_SSR_1D y s
      in s\<lparr>sf_on := True\<rparr>)"

definition dot_seq :: "('a::zero \<Rightarrow> 'a \<Rightarrow> 'a \<Rightarrow> 'a) \<Rightarrow> (u32 \<Rightarrow> 'a) \<Rightarrow> (u32 \<Rightarrow> 'a) \<Rightarrow> u32 \<Rightarrow> u32 \<Rightarrow> u32 \<Rightarrow> 'a ssr_fp \<Rightarrow> 'a option" where
  "dot_seq fma memX memY n x y s = do {
     s \<leftarrow> frep (n - 1) (fmadd_c fma memX memY 0) ((dot_start n x y s)\<lparr>sf_c := \<lambda>_. 0\<rparr>);
     Some (sf_c s 0) }"

definition dot_seq_4_acc :: "('a::{zero,plus} \<Rightarrow> 'a \<Rightarrow> 'a \<Rightarrow> 'a) \<Rightarrow> (u32 \<Rightarrow> 'a) \<Rightarrow> (u32 \<Rightarrow> 'a) \<Rightarrow> u32 \<Rightarrow> u32 \<Rightarrow> u32 \<Rightarrow> 'a ssr_fp \<Rightarrow> 'a option" where
  "dot_seq_4_acc fma memX memY n x y s = do {
     s \<leftarrow> frep (drop_bit 2 n - 1) (for_opt 4 (fmadd_c fma memX memY)) ((dot_start n x y s)\<lparr>sf_c := \<lambda>_. 0\<rparr>);
     Some ((sf_c s 0 + sf_c s 1) + (sf_c s 2 + sf_c s 3)) }"

subsection \<open>The cores of a cluster\<close>

text \<open>
  The data mover core copies both vectors; every compute core sums its part, core 0 adds the
  partial sums. The local copies start at address 0.
\<close>

definition dot :: "('a::{zero,plus} \<Rightarrow> 'a \<Rightarrow> 'a \<Rightarrow> 'a) \<Rightarrow> ssr_regs \<Rightarrow> nat \<Rightarrow> nat \<Rightarrow> (nat \<Rightarrow> 'a) \<Rightarrow> (nat \<Rightarrow> 'a) \<Rightarrow> 'a option" where
  "dot fma r core_num n x y =
     (let local_x = copy_row (\<lambda>_. 0) 0 x 0 n; local_y = copy_row (\<lambda>_. 0) 0 y 0 n;
          frac_core = n div core_num
      in do {
        partial_sums \<leftarrow> for_opt core_num (\<lambda>core_idx partial_sums. do {
          let offset_core = core_idx * frac_core;
          sum \<leftarrow> dot_seq_4_acc fma (\<lambda>p. local_x (unat p div 8)) (\<lambda>p. local_y (unat p div 8)) (of_nat frac_core)
            (of_nat (8 * offset_core)) (of_nat (8 * offset_core)) (opt_state r (\<lambda>_. 0) (\<lambda>_. 0));
          Some (partial_sums(core_idx := sum)) }) (\<lambda>_. 0);
        Some (for_upto 1 core_num (\<lambda>i ps. ps(0 := ps 0 + ps i)) partial_sums 0) })"

subsection \<open>The streams\<close>

lemmas dot_cfg_defs = dot_start_def stream_read_def stream_start_def ssr_loop_defs Let_def

lemma dot_start_regs:
  assumes "s' = dot_start n x y s"
  shows "sf_on s'" and "sf_C s' = sf_C s" and "sf_rep s' 0 = 0" and "sf_rep s' 1 = 0"
    and "sf_regs s' 0 SSR_REG_REPEAT = sf_regs s 0 SSR_REG_REPEAT" and "sf_regs s' 1 SSR_REG_REPEAT = sf_regs s 1 SSR_REG_REPEAT"
  unfolding assms by (simp_all add: dot_cfg_defs)

lemma dot_stream:
  assumes "s' = dot_start n x y s" and "dm = 0 \<or> dm = 1" and "n \<noteq> 0"
  shows "\<exists>P f. P 0 (sf_gen s' dm) \<and> emits P (unat n) f \<and> (\<forall>i < unat n. f i = (if dm = 0 then x else y) + of_nat i * 8)"
proof -
  have "\<not> ag_done (sf_gen s' dm)" "ag_index (sf_gen s' dm) = (\<lambda>_. 0)" "ag_dims (sf_gen s' dm) = 0"
    "ag_bound (sf_gen s' dm) 0 = n - 1" "ag_stride (sf_gen s' dm) 0 = 8 AND NOT 7" "ag_pointer (sf_gen s' dm) = (if dm = 0 then x else y)"
    using assms(2) unfolding assms(1) by (auto simp: dot_cfg_defs)
  from stream_1d [OF this(1-4) assms(3) this(5)] this(6) show ?thesis by simp
qed

text \<open>The state of the streams at the start, for both kernels.\<close>

lemma dot_streams:
  assumes n: "n \<noteq> 0" and rep: "sf_regs s 0 SSR_REG_REPEAT = 0" "sf_regs s 1 SSR_REG_REPEAT = 0"
    and X: "\<And>k. k < unat n \<Longrightarrow> memX (x + of_nat k * 8) = u k" and Y: "\<And>k. k < unat n \<Longrightarrow> memY (y + of_nat k * 8) = v k"
  shows "\<exists>P0 P1 f0 f1. streams_at 1 P0 P1 (\<lambda>_ _. True) 0 0 ((dot_start n x y s)\<lparr>sf_c := \<lambda>_. 0\<rparr>)
    \<and> emits P0 (unat n) f0 \<and> emits P1 (unat n) f1 \<and> (\<forall>k < unat n. memX (f0 k) = u k \<and> memY (f1 k) = v k)"
proof -
  note R = dot_start_regs [OF refl, of n x y s]
  obtain P0 f0 where P0: "P0 0 (sf_gen (dot_start n x y s) 0)" "emits P0 (unat n) f0" "\<And>k. k < unat n \<Longrightarrow> f0 k = x + of_nat k * 8"
    using dot_stream [OF refl disjI1 [OF refl] n, of x y s] by auto
  obtain P1 f1 where P1: "P1 0 (sf_gen (dot_start n x y s) 1)" "emits P1 (unat n) f1" "\<And>k. k < unat n \<Longrightarrow> f1 k = y + of_nat k * 8"
    using dot_stream [OF refl disjI2 [OF refl] n, of x y s] by auto
  have "streams_at 1 P0 P1 (\<lambda>_ _. True) 0 0 ((dot_start n x y s)\<lparr>sf_c := \<lambda>_. 0\<rparr>)"
    using R rep P0(1) P1(1) by (simp add: streams_at_def)
  moreover have "\<forall>k < unat n. memX (f0 k) = u k \<and> memY (f1 k) = v k" by (simp add: P0 P1 X Y)
  ultimately show ?thesis using P0(2) P1(2) by blast
qed

lemma dot_seq_at:
  assumes n: "n \<noteq> 0" and rep: "sf_regs s 0 SSR_REG_REPEAT = 0" "sf_regs s 1 SSR_REG_REPEAT = 0"
    and X: "\<And>k. k < unat n \<Longrightarrow> memX (x + of_nat k * 8) = u k" and Y: "\<And>k. k < unat n \<Longrightarrow> memY (y + of_nat k * 8) = v k"
  shows "dot_seq fma memX memY n x y s = Some (for_upto 0 (unat n) (\<lambda>k acc. fma (u k) (v k) acc) 0)"
proof -
  obtain P0 P1 f0 f1 where at: "streams_at 1 P0 P1 (\<lambda>_ _. True) 0 0 ((dot_start n x y s)\<lparr>sf_c := \<lambda>_. 0\<rparr>)"
    and e: "emits P0 (unat n) f0" "emits P1 (unat n) f1"
    and m: "\<And>k. k < unat n \<Longrightarrow> memX (f0 k) = u k" "\<And>k. k < unat n \<Longrightarrow> memY (f1 k) = v k"
    using dot_streams [where memX = memX and memY = memY and u = u and v = v, OF n rep X Y] by blast
  have "for_upto 0 (unat n) (\<lambda>k. fma (memX (f0 k)) (memY (f1 k))) = for_upto 0 (unat n) (\<lambda>k. fma (u k) (v k))"
    by (rule for_upto_cong) (simp add: m)
  then show ?thesis
    using accumulate_at [OF at e, of "unat n" fma memX memY "\<lambda>_. 0"]
      accumulate_one [where f = "\<lambda>k. fma (memX (f0 k)) (memY (f1 k))" and j = 0 and n = "unat n" and c = "\<lambda>_. 0"]
    by (auto simp: dot_seq_def frep_times [OF n])
qed

text \<open>Four accumulators together hold the sum.\<close>

lemma four_sums:
  fixes p :: "nat \<Rightarrow> 'a::comm_monoid_add"
  defines "c n \<equiv> for_upto 0 n (\<lambda>k c. c(k mod 4 := p k + c (k mod 4))) (\<lambda>_. 0)"
  shows "(c n 0 + c n 1) + (c n 2 + c n 3) = (\<Sum>k < n. p k)"
proof (induction n)
  case 0
  then show ?case by (simp add: c_def)
next
  case (Suc n)
  have c: "c (Suc n) = (c n)(n mod 4 := p n + c n (n mod 4))" by (simp add: c_def for_upto_Suc)
  have "n mod 4 = 0 \<or> n mod 4 = 1 \<or> n mod 4 = 2 \<or> n mod 4 = 3" by (rule four_cases) simp
  then show ?case using Suc unfolding c by (elim disjE) (simp_all add: ac_simps)
qed

lemma dot_seq_4_acc_at:
  fixes u v :: "nat \<Rightarrow> 'a::{comm_monoid_add,times}"
  assumes n: "4 \<le> unat n" and rep: "sf_regs s 0 SSR_REG_REPEAT = 0" "sf_regs s 1 SSR_REG_REPEAT = 0"
    and X: "\<And>k. k < unat n \<Longrightarrow> memX (x + of_nat k * 8) = u k" and Y: "\<And>k. k < unat n \<Longrightarrow> memY (y + of_nat k * 8) = v k"
    and fma: "\<And>x y z. fma x y z = x * y + z"
  shows "dot_seq_4_acc fma memX memY n x y s = Some (\<Sum>k < unat n div 4 * 4. u k * v k)"
proof -
  have nz: "n \<noteq> 0" using n by auto
  have q: "unat (drop_bit 2 n) = unat n div 4" by (simp add: drop_bit_eq_div unat_div)
  have qz: "drop_bit 2 n \<noteq> 0" using n q by (metis div_greater_zero_iff less_irrefl unat_0 zero_less_numeral)
  let ?T = "unat n div 4 * 4"
  obtain P0 P1 f0 f1 where at: "streams_at 1 P0 P1 (\<lambda>_ _. True) 0 0 ((dot_start n x y s)\<lparr>sf_c := \<lambda>_. 0\<rparr>)"
    and e: "emits P0 (unat n) f0" "emits P1 (unat n) f1"
    and m: "\<And>k. k < unat n \<Longrightarrow> memX (f0 k) = u k" "\<And>k. k < unat n \<Longrightarrow> memY (f1 k) = v k"
    using dot_streams [where memX = memX and memY = memY and u = u and v = v, OF nz rep X Y] by blast
  have body: "frep (drop_bit 2 n - 1) (for_opt 4 (fmadd_c fma memX memY)) t = for_opt ?T (\<lambda>k. fmadd_c fma memX memY (k mod 4)) t" for t
  proof -
    have "for_opt 4 (fmadd_c fma memX memY) = for_opt 4 (\<lambda>j. fmadd_c fma memX memY ((i * 4 + j) mod 4))" for i
      by (rule ext, rule for_opt_cong) simp
    then show ?thesis unfolding frep_times [OF qz] q
      using for_opt_nest [of "unat n div 4" 4 "\<lambda>k. fmadd_c fma memX memY (k mod 4)" t] by simp
  qed
  have "for_upto 0 ?T (\<lambda>k c. c(k mod 4 := fma (memX (f0 k)) (memY (f1 k)) (c (k mod 4))))
      = for_upto 0 ?T (\<lambda>k c. c(k mod 4 := u k * v k + c (k mod 4)))"
    by (rule for_upto_cong) (simp add: m fma)
  then show ?thesis
    using accumulate_at [OF at e, of ?T fma memX memY "\<lambda>k. k mod 4"] four_sums [of ?T "\<lambda>k. u k * v k"]
    by (auto simp: dot_seq_4_acc_def body)
qed

subsection \<open>The dot product of a cluster\<close>

lemma add_rest: "for_upto 1 (Suc n) (\<lambda>i ps. ps(0 := ps 0 + ps i)) ps 0 = (\<Sum>i < Suc n. ps i :: 'a::comm_monoid_add)"
proof -
  have "for_upto 1 (Suc n) (\<lambda>i ps. ps(0 := ps 0 + ps i)) ps = ps(0 := \<Sum>i < Suc n. ps i)"
    by (induction n) (auto simp: for_upto_Suc fun_eq_iff)
  then show ?thesis by simp
qed

text \<open>
  C36: On exact arithmetic the cores of a cluster return the dot product: each core sums the products of its part of
  \<open>n div cores\<close> elements, rounded down to a multiple of four, and core 0 adds the parts; when the number of elements
  is a multiple of four times the number of cores this is the product of the whole vectors.
\<close>

theorem dot_sums:
  fixes x y :: "nat \<Rightarrow> 'a::{comm_monoid_add,times}"
  assumes "0 < core_num" and "4 * core_num \<le> n" and "8 * n \<le> 2 ^ 32"
    and "r 0 SSR_REG_REPEAT = 0" "r 1 SSR_REG_REPEAT = 0" and "\<And>x y z. fma x y z = x * y + z"
  shows "dot fma r core_num n x y = Some (\<Sum>co < core_num. \<Sum>k < n div core_num div 4 * 4. x (co * (n div core_num) + k) * y (co * (n div core_num) + k))
    \<and> (4 * core_num dvd n \<longrightarrow> dot fma r core_num n x y = Some (\<Sum>k < n. x k * y k))"
proof -
  define q where "q = n div core_num"
  define part where "part co = (\<Sum>k < q div 4 * 4. x (co * q + k) * y (co * q + k))" for co
  let ?lx = "copy_row (\<lambda>_. 0) 0 x 0 n" and ?ly = "copy_row (\<lambda>_. 0) 0 y 0 n"
  let ?s = "opt_state r (\<lambda>_. 0) (\<lambda>_. 0 :: 'a)"
  have q4: "4 \<le> q" using assms(1,2) by (simp add: q_def less_eq_div_iff_mult_less_eq)
  have qn: "core_num * q \<le> n" by (simp add: q_def)
  have uq: "unat (of_nat q :: u32) = q"
  proof (rule unat_of_nat_small)
    have "q \<le> n" by (simp add: q_def)
    then show "q < 2 ^ LENGTH(32)" using assms(3) by simp
  qed
  have part: "dot_seq_4_acc fma (\<lambda>p. ?lx (unat p div 8)) (\<lambda>p. ?ly (unat p div 8)) (of_nat q) (of_nat (8 * (co * q))) (of_nat (8 * (co * q))) ?s
      = Some (part co)" if co: "co < core_num" for co
  proof -
    have lt: "co * q + k < n" if "k < q" for k
    proof -
      have "co * q + k < Suc co * q" using that by simp
      also have "\<dots> \<le> core_num * q" using co by (intro mult_le_mono1) simp
      finally show ?thesis using qn by simp
    qed
    have p: "unat (of_nat (8 * (co * q)) + of_nat k * 8 :: u32) div 8 = co * q + k" if "k < q" for k
      using elem_addr [OF lt [OF that] assms(3)] by (simp add: algebra_simps)
    have row: "copy_row (\<lambda>_. 0) 0 z 0 n (co * q + k) = z (co * q + k)" if "k < q" for k and z :: "nat \<Rightarrow> 'a"
      using lt [OF that] by (simp add: copy_row_at)
    have rep: "sf_regs ?s 0 SSR_REG_REPEAT = 0" "sf_regs ?s 1 SSR_REG_REPEAT = 0" using assms(4,5) by (simp_all add: opt_state_def)
    have "4 \<le> unat (of_nat q :: u32)" using q4 uq by simp
    from dot_seq_4_acc_at [where u = "\<lambda>k. x (co * q + k)" and v = "\<lambda>k. y (co * q + k)" and memX = "\<lambda>p. ?lx (unat p div 8)"
        and memY = "\<lambda>p. ?ly (unat p div 8)" and fma = fma, OF this rep _ _ assms(6), unfolded uq]
    show ?thesis unfolding part_def using p row by simp
  qed
  define I where "I co ps \<longleftrightarrow> (\<forall>i < co. ps i = part i)" for co and ps :: "nat \<Rightarrow> 'a"
  have "\<exists>ps. for_opt core_num (\<lambda>core_idx partial_sums. do {
      let offset_core = core_idx * q;
      sum \<leftarrow> dot_seq_4_acc fma (\<lambda>p. ?lx (unat p div 8)) (\<lambda>p. ?ly (unat p div 8)) (of_nat q)
        (of_nat (8 * offset_core)) (of_nat (8 * offset_core)) ?s;
      Some (partial_sums(core_idx := sum)) }) (\<lambda>_. 0) = Some ps \<and> I core_num ps"
    by (rule for_opt_invariant) (simp_all add: I_def Let_def part del: of_nat_mult)
  then obtain ps where ps: "for_opt core_num (\<lambda>core_idx partial_sums. do {
      let offset_core = core_idx * q;
      sum \<leftarrow> dot_seq_4_acc fma (\<lambda>p. ?lx (unat p div 8)) (\<lambda>p. ?ly (unat p div 8)) (of_nat q)
        (of_nat (8 * offset_core)) (of_nat (8 * offset_core)) ?s;
      Some (partial_sums(core_idx := sum)) }) (\<lambda>_. 0) = Some ps" "I core_num ps" by blast
  obtain c where c: "core_num = Suc c" using assms(1) gr0_implies_Suc by blast
  have res: "dot fma r core_num n x y = Some (\<Sum>co < core_num. part co)"
    using ps(2) add_rest [of c ps] unfolding dot_def Let_def q_def [symmetric] ps(1) [unfolded Let_def]
    by (simp add: c I_def)
  have "(\<Sum>co < core_num. part co) = (\<Sum>k < n. x k * y k)" if "4 * core_num dvd n"
  proof -
    obtain d where d: "n = 4 * core_num * d" using \<open>4 * core_num dvd n\<close> by (rule dvdE)
    then have qd: "q = 4 * d" using assms(1) by (simp add: q_def)
    then have "part co = (\<Sum>k < q. x (co * q + k) * y (co * q + k))" for co by (simp add: part_def mult.commute)
    then have "(\<Sum>co < core_num. part co) = (\<Sum>k < core_num * q. x k * y k)"
      unfolding sum.nat_group [of "\<lambda>k. x k * y k" q core_num, symmetric]
      by (simp add: sum.atLeastLessThan_shift_0 [of _ "_ * q"] lessThan_atLeast0 add.commute)
    moreover have "core_num * q = n" using d qd by simp
    ultimately show ?thesis by simp
  qed
  then show ?thesis using res unfolding part_def q_def by simp
qed

theorem dot_sums_witness:
  "dot (\<lambda>x y z. x * y + z) (\<lambda>_ _. 0) 2 8 int (\<lambda>_. 2) = Some 56"
  using dot_sums [where core_num = 2 and n = 8 and r = "\<lambda>_ _. 0" and fma = "\<lambda>x y z. x * y + z" and x = int and y = "\<lambda>_. 2"]
  by (simp add: lessThan_nat_numeral lessThan_Suc)

end
