(* ===== verification/Tile_Job.thy ===== *)
theory Tile_Job
  imports Double_Buffer
begin

text \<open>
  The jobs of the kernels that combine the rows of a matrix with each other (\<open>syrk_job\<close> of
  \<open>sw/kernels/blas/syrk/src/syrk.h\<close>, \<open>covariance_job\<close> of \<open>sw/kernels/misc/covariance/src/covariance.h\<close>): for
  each tile of the square result the rows of its row and of its column are loaded, the kernel
  computes the tile, and the tile is stored, all of it double buffered.

  The interface \<open>pair_kernel\<close> is what the job expects of the kernel behind the function pointer; the
  state of the cores that a kernel keeps from call to call (stream registers, thread-local
  variables) is its last argument and result.
\<close>

subsection \<open>The job\<close>

record ('a, 'k) pair_state =
  pj_c :: "nat \<Rightarrow> 'a"
  pj_la :: "nat \<Rightarrow> nat \<Rightarrow> 'a"
  pj_lat :: "nat \<Rightarrow> nat \<Rightarrow> 'a"
  pj_lc :: "nat \<Rightarrow> nat \<Rightarrow> 'a"
  pj_k :: 'k

text \<open>\<open>load_c\<close>: the tile of the result is loaded as well.\<close>

definition pair_load :: "bool \<Rightarrow> nat \<Rightarrow> nat \<Rightarrow> nat \<Rightarrow> (nat \<Rightarrow> 'a) \<Rightarrow> nat \<Rightarrow> ('a, 'k) pair_state \<Rightarrow> ('a, 'k) pair_state" where
  "pair_load load_c m n m_tiles A i_dma_in s =
     (let m_frac = m div m_tiles; a_tile_size = n * m_frac;
          buff_idx = i_dma_in mod 2; i_row = i_dma_in div m_tiles; i_col = i_dma_in mod m_tiles
      in s\<lparr>pj_la := (pj_la s)(buff_idx := copy_row (pj_la s buff_idx) 0 A (i_row * a_tile_size) a_tile_size),
           pj_lat := (pj_lat s)(buff_idx := copy_row (pj_lat s buff_idx) 0 A (i_col * a_tile_size) a_tile_size),
           pj_lc := (if load_c then (pj_lc s)(buff_idx := load_tile (pj_lc s buff_idx) (pj_c s) i_row i_col m_frac m_frac m) else pj_lc s)\<rparr>)"

definition pair_compute :: "((nat \<Rightarrow> 'a) \<Rightarrow> (nat \<Rightarrow> 'a) \<Rightarrow> (nat \<Rightarrow> 'a) \<Rightarrow> 'k \<Rightarrow> (nat \<Rightarrow> 'a) \<times> (nat \<Rightarrow> 'a) \<times> (nat \<Rightarrow> 'a) \<times> 'k)
    \<Rightarrow> nat \<Rightarrow> ('a, 'k) pair_state \<Rightarrow> ('a, 'k) pair_state" where
  "pair_compute fp i_compute s =
     (let buff_idx = i_compute mod 2; (la, lat, lc, k) = fp (pj_la s buff_idx) (pj_lat s buff_idx) (pj_lc s buff_idx) (pj_k s)
      in s\<lparr>pj_la := (pj_la s)(buff_idx := la), pj_lat := (pj_lat s)(buff_idx := lat), pj_lc := (pj_lc s)(buff_idx := lc), pj_k := k\<rparr>)"

definition pair_store :: "nat \<Rightarrow> nat \<Rightarrow> nat \<Rightarrow> ('a, 'k) pair_state \<Rightarrow> ('a, 'k) pair_state" where
  "pair_store m m_tiles i_dma_out s =
     (let m_frac = m div m_tiles; buff_idx = i_dma_out mod 2; i_row = i_dma_out div m_tiles; i_col = i_dma_out mod m_tiles
      in s\<lparr>pj_c := store_tile (pj_c s) (pj_lc s buff_idx) i_row i_col m_frac m_frac m\<rparr>)"

definition pair_job :: "bool \<Rightarrow> ((nat \<Rightarrow> 'a) \<Rightarrow> (nat \<Rightarrow> 'a) \<Rightarrow> (nat \<Rightarrow> 'a) \<Rightarrow> 'k \<Rightarrow> (nat \<Rightarrow> 'a) \<times> (nat \<Rightarrow> 'a) \<times> (nat \<Rightarrow> 'a) \<times> 'k)
    \<Rightarrow> nat \<Rightarrow> nat \<Rightarrow> nat \<Rightarrow> (nat \<Rightarrow> 'a) \<Rightarrow> (nat \<Rightarrow> phase list) \<Rightarrow> ('a, 'k) pair_state \<Rightarrow> ('a, 'k) pair_state" where
  "pair_job load_c fp m n m_tiles A ord =
     db_loop (m_tiles * m_tiles) (pair_load load_c m n m_tiles A) (pair_compute fp) (pair_store m m_tiles) ord"

subsection \<open>The interface of the kernels\<close>

text \<open>
  The kernel computes each element of the tile from a row of each operand and from the old
  element, of which the result is independent unless it is loaded.
\<close>

locale pair_kernel =
  fixes fp :: "(nat \<Rightarrow> 'a) \<Rightarrow> (nat \<Rightarrow> 'a) \<Rightarrow> (nat \<Rightarrow> 'a) \<Rightarrow> 'k \<Rightarrow> (nat \<Rightarrow> 'a) \<times> (nat \<Rightarrow> 'a) \<times> (nat \<Rightarrow> 'a) \<times> 'k"
    and ok :: "'k \<Rightarrow> bool" and cell :: "(nat \<Rightarrow> 'a) \<Rightarrow> (nat \<Rightarrow> 'a) \<Rightarrow> 'a \<Rightarrow> 'a" and load_c :: bool
    and m n m_tiles :: nat
  assumes fp_cell: "ok k \<Longrightarrow> fp la lat lc k = (la', lat', lc', k') \<Longrightarrow> r < m div m_tiles \<Longrightarrow> c < m div m_tiles
      \<Longrightarrow> lc' (r * (m div m_tiles) + c) = cell (\<lambda>k. la (r * n + k)) (\<lambda>k. lat (c * n + k)) (lc (r * (m div m_tiles) + c))"
    and fp_ok: "ok k \<Longrightarrow> fp la lat lc k = (la', lat', lc', k') \<Longrightarrow> ok k'"
    and cell_cong: "(\<And>k. k < n \<Longrightarrow> u k = u' k) \<Longrightarrow> (\<And>k. k < n \<Longrightarrow> v k = v' k) \<Longrightarrow> cell u v x = cell u' v' x"
    and cell_new: "\<not> load_c \<Longrightarrow> cell u v x = cell u v y"

text \<open>The tile of an element of the result.\<close>

definition pair_tile :: "nat \<Rightarrow> nat \<Rightarrow> nat \<Rightarrow> nat" where
  "pair_tile m m_tiles x = x div m div (m div m_tiles) * m_tiles + x mod m div (m div m_tiles)"

definition in_tiles :: "nat \<Rightarrow> nat \<Rightarrow> nat \<Rightarrow> bool" where
  "in_tiles m m_tiles x \<longleftrightarrow> x div m < m_tiles * (m div m_tiles) \<and> x mod m < m_tiles * (m div m_tiles)"

definition pair_cell :: "((nat \<Rightarrow> 'a) \<Rightarrow> (nat \<Rightarrow> 'a) \<Rightarrow> 'a \<Rightarrow> 'a) \<Rightarrow> nat \<Rightarrow> nat \<Rightarrow> (nat \<Rightarrow> 'a) \<Rightarrow> (nat \<Rightarrow> 'a) \<Rightarrow> nat \<Rightarrow> 'a" where
  "pair_cell cell m n A C0 x = cell (\<lambda>k. A (x div m * n + k)) (\<lambda>k. A (x mod m * n + k)) (C0 x)"

text \<open>The position of element \<open>(r, c)\<close> of tile \<open>j\<close> in the result.\<close>

definition tile_pos :: "nat \<Rightarrow> nat \<Rightarrow> nat \<Rightarrow> nat \<Rightarrow> nat \<Rightarrow> nat" where
  "tile_pos m m_tiles j r c = (j div m_tiles * (m div m_tiles) + r) * m + (j mod m_tiles * (m div m_tiles) + c)"

definition pair_ready :: "('k \<Rightarrow> bool) \<Rightarrow> bool \<Rightarrow> nat \<Rightarrow> nat \<Rightarrow> nat \<Rightarrow> (nat \<Rightarrow> 'a) \<Rightarrow> (nat \<Rightarrow> 'a) \<Rightarrow> nat \<Rightarrow> ('a, 'k) pair_state \<Rightarrow> bool" where
  "pair_ready ok load_c m n m_tiles A C0 j s \<longleftrightarrow> ok (pj_k s)
     \<and> (\<forall>k < n * (m div m_tiles). pj_la s (j mod 2) k = A (j div m_tiles * (n * (m div m_tiles)) + k)
          \<and> pj_lat s (j mod 2) k = A (j mod m_tiles * (n * (m div m_tiles)) + k))
     \<and> (load_c \<longrightarrow> (\<forall>r < m div m_tiles. \<forall>c < m div m_tiles. pj_lc s (j mod 2) (r * (m div m_tiles) + c) = C0 (tile_pos m m_tiles j r c)))"

definition pair_computed :: "((nat \<Rightarrow> 'a) \<Rightarrow> (nat \<Rightarrow> 'a) \<Rightarrow> 'a \<Rightarrow> 'a) \<Rightarrow> nat \<Rightarrow> nat \<Rightarrow> nat \<Rightarrow> (nat \<Rightarrow> 'a) \<Rightarrow> (nat \<Rightarrow> 'a) \<Rightarrow> nat
    \<Rightarrow> ('a, 'k) pair_state \<Rightarrow> bool" where
  "pair_computed cell m n m_tiles A C0 j s \<longleftrightarrow> (\<forall>r < m div m_tiles. \<forall>c < m div m_tiles.
     pj_lc s (j mod 2) (r * (m div m_tiles) + c) = pair_cell cell m n A C0 (tile_pos m m_tiles j r c))"

definition pair_stored :: "('k \<Rightarrow> bool) \<Rightarrow> ((nat \<Rightarrow> 'a) \<Rightarrow> (nat \<Rightarrow> 'a) \<Rightarrow> 'a \<Rightarrow> 'a) \<Rightarrow> nat \<Rightarrow> nat \<Rightarrow> nat \<Rightarrow> (nat \<Rightarrow> 'a) \<Rightarrow> (nat \<Rightarrow> 'a) \<Rightarrow> nat
    \<Rightarrow> ('a, 'k) pair_state \<Rightarrow> bool" where
  "pair_stored ok cell m n m_tiles A C0 j s \<longleftrightarrow> ok (pj_k s)
     \<and> (\<forall>x. pj_c s x = (if in_tiles m m_tiles x \<and> pair_tile m m_tiles x < j then pair_cell cell m n A C0 x else C0 x))"

lemma tile_pos_div_mod:
  assumes "j < m_tiles * m_tiles" and "r < m div m_tiles" and "c < m div m_tiles"
  shows "tile_pos m m_tiles j r c div m = j div m_tiles * (m div m_tiles) + r"
    and "tile_pos m m_tiles j r c mod m = j mod m_tiles * (m div m_tiles) + c"
    and "in_tiles m m_tiles (tile_pos m m_tiles j r c)" and "pair_tile m m_tiles (tile_pos m m_tiles j r c) = j"
proof -
  let ?h = "m div m_tiles"
  have t: "0 < m_tiles" using assms(1) by (cases m_tiles) auto
  have q: "j div m_tiles < m_tiles" "j mod m_tiles < m_tiles" using assms(1) t by (simp_all add: less_mult_imp_div_less)
  have le: "b * ?h + c' < m_tiles * ?h" if "b < m_tiles" "c' < ?h" for b c'
  proof -
    have "b * ?h + c' < Suc b * ?h" using that by simp
    also have "\<dots> \<le> m_tiles * ?h" using that by (intro mult_le_mono1) simp
    finally show ?thesis .
  qed
  have "m_tiles * ?h \<le> m" by simp
  then have lt: "j mod m_tiles * ?h + c < m" using le [OF q(2) assms(3)] by linarith
  show d: "tile_pos m m_tiles j r c div m = j div m_tiles * ?h + r" "tile_pos m m_tiles j r c mod m = j mod m_tiles * ?h + c"
    unfolding tile_pos_def using div_mod_position [OF lt] by simp_all
  show "in_tiles m m_tiles (tile_pos m m_tiles j r c)"
    unfolding in_tiles_def d using le [OF q(1) assms(2)] le [OF q(2) assms(3)] by simp
  show "pair_tile m m_tiles (tile_pos m m_tiles j r c) = j"
    unfolding pair_tile_def d using div_mod_position [OF assms(2)] div_mod_position [OF assms(3)] by simp
qed

lemma tile_pos_of:
  assumes "in_tiles m m_tiles x" and "pair_tile m m_tiles x = j"
  shows "j div m_tiles * (m div m_tiles) \<le> x div m \<and> x div m < j div m_tiles * (m div m_tiles) + m div m_tiles"
    and "j mod m_tiles * (m div m_tiles) \<le> x mod m \<and> x mod m < j mod m_tiles * (m div m_tiles) + m div m_tiles"
    and "j < m_tiles * m_tiles" and "tile_pos m m_tiles j (x div m - j div m_tiles * (m div m_tiles)) (x mod m - j mod m_tiles * (m div m_tiles)) = x"
proof -
  let ?h = "m div m_tiles"
  have x: "x div m < m_tiles * ?h" "x mod m < m_tiles * ?h" using assms(1) by (simp_all add: in_tiles_def)
  then have h: "0 < ?h" by (cases "?h = 0") auto
  have b: "x div m div ?h < m_tiles" "x mod m div ?h < m_tiles" using x by (simp_all add: less_mult_imp_div_less)
  then have j: "j div m_tiles = x div m div ?h" "j mod m_tiles = x mod m div ?h"
    using assms(2) div_mod_position [OF b(2), of "x div m div ?h"] by (simp_all add: pair_tile_def)
  have near: "y div ?h * ?h \<le> y \<and> y < y div ?h * ?h + ?h" for y
    using h by (simp add: dividend_less_div_times add.commute)
  show p: "j div m_tiles * ?h \<le> x div m \<and> x div m < j div m_tiles * ?h + ?h" "j mod m_tiles * ?h \<le> x mod m \<and> x mod m < j mod m_tiles * ?h + ?h"
    unfolding j using near by simp_all
  have "Suc (x div m div ?h) * m_tiles \<le> m_tiles * m_tiles" using b(1) by (intro mult_le_mono1) simp
  then show "j < m_tiles * m_tiles" using b(2) assms(2) by (simp add: pair_tile_def)
  show "tile_pos m m_tiles j (x div m - j div m_tiles * ?h) (x mod m - j mod m_tiles * ?h) = x"
    unfolding tile_pos_def using p by simp
qed

subsection \<open>The job on a correct kernel\<close>

lemmas pair_job_defs = pair_load_def pair_compute_def pair_store_def pair_ready_def pair_computed_def pair_stored_def

text \<open>Loading tile \<open>i\<close> of the result, of which the first \<open>j \<le> i\<close> tiles are stored.\<close>

lemma load_old_tile:
  assumes "i < m_tiles * m_tiles" and "pair_stored ok cell m n m_tiles A C0 j s" and "j \<le> i" and "r < m div m_tiles" and "c < m div m_tiles"
  shows "load_tile d (pj_c s) (i div m_tiles) (i mod m_tiles) (m div m_tiles) (m div m_tiles) m (r * (m div m_tiles) + c) = C0 (tile_pos m m_tiles i r c)"
  using assms(2,3) tile_pos_div_mod [OF assms(1,4,5)] unfolding load_tile_at [OF assms(4,5)]
  by (simp add: pair_stored_def) (simp add: tile_pos_def)

lemma pair_store_stored:
  assumes st: "pair_stored ok cell m n m_tiles A C0 i s" and c: "pair_computed cell m n m_tiles A C0 i s" and i: "i < m_tiles * m_tiles"
  shows "pair_stored ok cell m n m_tiles A C0 (Suc i) (pair_store m m_tiles i s)"
proof -
  let ?h = "m div m_tiles"
  have t: "0 < m_tiles" using i by (cases m_tiles) auto
  have "Suc (i mod m_tiles) * ?h \<le> m_tiles * ?h" using t by (intro mult_le_mono1) (simp add: Suc_leI)
  also have "\<dots> \<le> m" by simp
  finally have fits: "i mod m_tiles * ?h + ?h \<le> m" by simp
  have "pj_c (pair_store m m_tiles i s) x
      = (if in_tiles m m_tiles x \<and> pair_tile m m_tiles x < Suc i then pair_cell cell m n A C0 x else C0 x)" for x
  proof (cases "in_tiles m m_tiles x \<and> pair_tile m m_tiles x = i")
    case True
    note p = tile_pos_of [OF conjunct1 [OF True] conjunct2 [OF True]]
    have "x div m - i div m_tiles * ?h < ?h" "x mod m - i mod m_tiles * ?h < ?h" using p(1,2) by linarith+
    then have "pj_lc s (i mod 2) ((x div m - i div m_tiles * ?h) * ?h + (x mod m - i mod m_tiles * ?h)) = pair_cell cell m n A C0 x"
      using c p(4) unfolding pair_computed_def by metis
    then show ?thesis using True p(1,2) by (simp add: pair_store_def Let_def store_tile_at [OF fits])
  next
    case False
    have "\<not> (i div m_tiles * ?h \<le> x div m \<and> x div m < i div m_tiles * ?h + ?h \<and> i mod m_tiles * ?h \<le> x mod m \<and> x mod m < i mod m_tiles * ?h + ?h)"
    proof
      assume a: "i div m_tiles * ?h \<le> x div m \<and> x div m < i div m_tiles * ?h + ?h \<and> i mod m_tiles * ?h \<le> x mod m \<and> x mod m < i mod m_tiles * ?h + ?h"
      define r c where "r = x div m - i div m_tiles * ?h" and "c = x mod m - i mod m_tiles * ?h"
      have rc: "r < ?h" "c < ?h" "tile_pos m m_tiles i r c = x" using a by (auto simp: r_def c_def tile_pos_def)
      then show False using tile_pos_div_mod(3,4) [OF i rc(1,2)] False by simp
    qed
    then have "pj_c (pair_store m m_tiles i s) x = pj_c s x" by (auto simp: pair_store_def Let_def store_tile_at [OF fits])
    then show ?thesis using st False by (auto simp: pair_stored_def less_Suc_eq)
  qed
  then show ?thesis using st by (simp add: pair_stored_def pair_store_def Let_def)
qed

context pair_kernel
begin

lemma compute_tile:
  assumes i: "i < m_tiles * m_tiles" and ready: "pair_ready ok load_c m n m_tiles A C0 i s"
  shows "pair_computed cell m n m_tiles A C0 i (pair_compute fp i s)"
  unfolding pair_computed_def
proof (intro allI impI)
  fix r c assume rc: "r < m div m_tiles" "c < m div m_tiles"
  let ?h = "m div m_tiles"
  obtain la lat lc k where f: "fp (pj_la s (i mod 2)) (pj_lat s (i mod 2)) (pj_lc s (i mod 2)) (pj_k s) = (la, lat, lc, k)" by (rule prod_cases4)
  have lt: "r' * n + k < n * ?h" if "r' < ?h" "k < n" for r' k
  proof -
    have "r' * n + k < Suc r' * n" using that by simp
    also have "\<dots> \<le> ?h * n" using that by (intro mult_le_mono1) simp
    finally show ?thesis by (simp add: mult.commute)
  qed
  have row: "b * (n * ?h) + (r' * n + k) = (b * ?h + r') * n + k" for b r' k by (simp add: algebra_simps)
  note pos = tile_pos_div_mod [OF i rc]
  have "pj_lc (pair_compute fp i s) (i mod 2) (r * ?h + c)
      = cell (\<lambda>k. pj_la s (i mod 2) (r * n + k)) (\<lambda>k. pj_lat s (i mod 2) (c * n + k)) (pj_lc s (i mod 2) (r * ?h + c))"
    using fp_cell [OF _ f rc] ready by (simp add: pair_compute_def Let_def f pair_ready_def)
  also have "\<dots> = cell (\<lambda>k. A (tile_pos m m_tiles i r c div m * n + k)) (\<lambda>k. A (tile_pos m m_tiles i r c mod m * n + k)) (pj_lc s (i mod 2) (r * ?h + c))"
    using ready lt rc unfolding pos pair_ready_def by (intro cell_cong) (simp_all add: row)
  also have "\<dots> = pair_cell cell m n A C0 (tile_pos m m_tiles i r c)"
  proof (cases load_c)
    case True
    then show ?thesis using ready rc by (simp add: pair_ready_def pair_cell_def)
  next
    case False
    show ?thesis unfolding pair_cell_def by (rule cell_new [OF False])
  qed
  finally show "pj_lc (pair_compute fp i s) (i mod 2) (r * ?h + c) = pair_cell cell m n A C0 (tile_pos m m_tiles i r c)" .
qed

end

sublocale pair_kernel \<subseteq> job: double_buffer "m_tiles * m_tiles" "pair_load load_c m n m_tiles A" "pair_compute fp" "pair_store m m_tiles"
  "pair_ready ok load_c m n m_tiles A C0" "pair_computed cell m n m_tiles A C0" "pair_stored ok cell m n m_tiles A C0"
  for A C0
proof unfold_locales
  fix i j and s :: "('a, 'k) pair_state"
  show "i < m_tiles * m_tiles \<Longrightarrow> pair_stored ok cell m n m_tiles A C0 j s \<Longrightarrow> j \<le> i
      \<Longrightarrow> pair_ready ok load_c m n m_tiles A C0 i (pair_load load_c m n m_tiles A i s)"
    using load_old_tile [of i m_tiles ok cell m n A C0 j s]
    by (simp add: pair_ready_def pair_load_def Let_def copy_row_at) (simp add: pair_stored_def)
  show "i < m_tiles * m_tiles \<Longrightarrow> pair_ready ok load_c m n m_tiles A C0 i s \<Longrightarrow> pair_computed cell m n m_tiles A C0 i (pair_compute fp i s)"
    by (rule compute_tile)
  show "i < m_tiles * m_tiles \<Longrightarrow> pair_stored ok cell m n m_tiles A C0 i s \<Longrightarrow> pair_computed cell m n m_tiles A C0 i s
      \<Longrightarrow> pair_stored ok cell m n m_tiles A C0 (Suc i) (pair_store m m_tiles i s)"
    by (rule pair_store_stored)
qed (auto simp: pair_job_defs Let_def split: prod.splits dest: fp_ok)

text \<open>A kernel whose result is not loaded works in any order of the transfers.\<close>

locale pair_kernel_fresh = pair_kernel +
  assumes not_loaded: "\<not> load_c"

sublocale pair_kernel_fresh \<subseteq> fresh: double_buffer_separate "m_tiles * m_tiles" "pair_load load_c m n m_tiles A" "pair_compute fp" "pair_store m m_tiles"
  "pair_ready ok load_c m n m_tiles A C0" "pair_computed cell m n m_tiles A C0" "pair_stored ok cell m n m_tiles A C0"
  for A C0
  by unfold_locales (auto simp: pair_computed_def pair_load_def Let_def not_loaded)

lemma pair_stored_all:
  assumes "pair_stored ok cell m n m_tiles A C0 (m_tiles * m_tiles) s"
  shows "pj_c s x = (if in_tiles m m_tiles x then pair_cell cell m n A C0 x else C0 x)"
  using assms tile_pos_of(3) [of m m_tiles x "pair_tile m m_tiles x"] by (auto simp: pair_stored_def)

context pair_kernel
begin

lemma pair_job_computes:
  assumes "ok (pj_k s)" and "\<And>i. i < m_tiles * m_tiles + 2 \<Longrightarrow> out_in (ord i)"
  shows "pj_c (pair_job load_c fp m n m_tiles A ord s) x = (if in_tiles m m_tiles x then pair_cell cell m n A (pj_c s) x else pj_c s x)"
  unfolding pair_job_def
  by (rule pair_stored_all [OF job.db_loop_stores]) (use assms in \<open>simp_all add: pair_stored_def\<close>)

end

context pair_kernel_fresh
begin

lemma pair_job_computes_any:
  assumes "ok (pj_k s)" and "\<And>i. i < m_tiles * m_tiles + 2 \<Longrightarrow> out_in (ord i) \<or> in_out (ord i)"
  shows "pj_c (pair_job load_c fp m n m_tiles A ord s) x = (if in_tiles m m_tiles x then pair_cell cell m n A (pj_c s) x else pj_c s x)"
  unfolding pair_job_def
  by (rule pair_stored_all [OF fresh.db_loop_stores_any]) (use assms in \<open>simp_all add: pair_stored_def\<close>)

end

end
