(* ===== verification/Syrk.thy ===== *)
theory Syrk
  imports Fp_Stream Tile_Job Gemm_Kernel
begin

text \<open>
  The symmetric rank-k update \<open>C = alpha * A * A\<^sup>T + beta * C\<close> (\<open>sw/kernels/blas/syrk/src/syrk.h\<close>): the three
  kernels of a cluster on one tile and the double-buffered job over the tiles. Each kernel runs on
  the rows of the tile that belong to the core.
\<close>

subsection \<open>The kernels on loops\<close>

definition syrk_naive :: "nat \<Rightarrow> nat \<Rightarrow> nat \<Rightarrow> nat \<Rightarrow> 'a::{times,zero,plus} \<Rightarrow> (nat \<Rightarrow> 'a) \<Rightarrow> (nat \<Rightarrow> 'a) \<Rightarrow> 'a \<Rightarrow> (nat \<Rightarrow> 'a) \<Rightarrow> (nat \<Rightarrow> 'a)" where
  "syrk_naive core_num core_idx m n alpha a aT beta c =
     for_step core_idx core_num m (\<lambda>i. for_upto 0 m (\<lambda>j c.
       (let acc = for_upto 0 n (\<lambda>k acc. acc + a (i * n + k) * aT (j * n + k)) 0;
            c = c(i * m + j := multiply_opt (c (i * m + j)) beta)
        in c(i * m + j := c (i * m + j) + alpha * acc)))) c"

definition syrk_baseline :: "('a \<Rightarrow> 'a \<Rightarrow> 'a \<Rightarrow> 'a) \<Rightarrow> nat \<Rightarrow> nat \<Rightarrow> nat \<Rightarrow> nat \<Rightarrow> 'a::{times,zero,plus} \<Rightarrow> (nat \<Rightarrow> 'a) \<Rightarrow> (nat \<Rightarrow> 'a) \<Rightarrow> 'a
    \<Rightarrow> (nat \<Rightarrow> 'a) \<Rightarrow> (nat \<Rightarrow> 'a)" where
  "syrk_baseline fma core_num core_idx m n alpha a aT beta c =
     (let unroll1 = 4; unroll0 = 4
      in for_step core_idx core_num m (\<lambda>i. for_step 0 unroll1 m (\<lambda>j c.
        (let acc = for_step 0 unroll0 n (\<lambda>k. for_upto 0 4 (\<lambda>u. for_upto 0 4 (\<lambda>j0 acc.
               acc(j0 := fma (a (i * n + k + u)) (aT ((j + j0) * n + k + u)) (acc j0))))) (\<lambda>_. 0);
             c = for_upto 0 4 (\<lambda>j0 c. c(i * m + j + j0 := multiply_opt (c (i * m + j + j0)) beta)) c
         in for_upto 0 4 (\<lambda>j0 c. c(i * m + j + j0 := c (i * m + j + j0) + alpha * acc j0)) c))) c)"

subsection \<open>The kernel on streams\<close>

definition syrk_opt_setup :: "u32 \<Rightarrow> u32 \<Rightarrow> u32 \<Rightarrow> ssr_regs \<Rightarrow> ssr_regs" where
  "syrk_opt_setup stride m n r =
     (let unroll = 4;
          r = snrt_ssr_loop_3d True 0 n (m div unroll) (m div stride) 8 0 (stride * n * 8) r;
          r = snrt_ssr_repeat True 0 unroll r
      in snrt_ssr_loop_4d True 1 unroll n (m div unroll) (m div stride) (n * 8) 8 (unroll * n * 8) 0 r)"

definition syrk_opt_start :: "bool \<Rightarrow> u32 \<Rightarrow> u32 \<Rightarrow> u32 \<Rightarrow> u32 \<Rightarrow> u32 \<Rightarrow> u32 \<Rightarrow> 'a ssr_fp \<Rightarrow> 'a ssr_fp" where
  "syrk_opt_start setup_ssr stride offset m n a aT s =
     (let s = (if setup_ssr then s\<lparr>sf_regs := syrk_opt_setup stride m n (sf_regs s)\<rparr> else s);
          s = stream_read 0 SNRT_SSR_4D (a + 8 * (offset * n)) s;
          s = stream_read 1 SNRT_SSR_4D aT s
      in s\<lparr>sf_on := True\<rparr>)"

text \<open>
  Four columns of row \<open>i\<close> from column \<open>j\<close> on: the elements of \<open>c\<close> are read before the instructions
  and written after them.
\<close>

definition syrk_opt_block :: "('a::{times,zero} \<Rightarrow> 'a \<Rightarrow> 'a \<Rightarrow> 'a) \<Rightarrow> (u32 \<Rightarrow> 'a) \<Rightarrow> (u32 \<Rightarrow> 'a) \<Rightarrow> nat \<Rightarrow> u32 \<Rightarrow> 'a \<Rightarrow> 'a \<Rightarrow> nat \<Rightarrow> nat
    \<Rightarrow> 'a ssr_fp \<Rightarrow> 'a ssr_fp option" where
  "syrk_opt_block fma memA memAT m n alpha beta i j s = do {
     let c = sf_C s;
     s \<leftarrow> frep (n - 1) (for_opt 4 (fmadd_c fma memA memAT)) (s\<lparr>sf_c := \<lambda>_. 0\<rparr>);
     let acc = (\<lambda>j0. sf_c s j0 * alpha);
     Some (s\<lparr>sf_C := for_upto 0 4 (\<lambda>j0 C. C(i * m + j + j0 := fma (c (i * m + j + j0)) beta (acc j0))) c\<rparr>) }"

definition syrk_opt :: "('a::{times,zero} \<Rightarrow> 'a \<Rightarrow> 'a \<Rightarrow> 'a) \<Rightarrow> (u32 \<Rightarrow> 'a) \<Rightarrow> (u32 \<Rightarrow> 'a) \<Rightarrow> bool \<Rightarrow> nat \<Rightarrow> nat \<Rightarrow> nat \<Rightarrow> nat \<Rightarrow> 'a \<Rightarrow> u32 \<Rightarrow> u32 \<Rightarrow> 'a
    \<Rightarrow> 'a ssr_fp \<Rightarrow> 'a ssr_fp option" where
  "syrk_opt fma memA memAT setup_ssr core_num core_idx m n alpha a aT beta s =
     (let offset = core_idx; stride = core_num; unroll = 4
      in do {
        s \<leftarrow> for_step offset stride m (\<lambda>i so. do { s \<leftarrow> so;
               for_step 0 unroll m (\<lambda>j so. do { s \<leftarrow> so; syrk_opt_block fma memA memAT m (of_nat n) alpha beta i j s }) (Some s) })
             (Some (syrk_opt_start setup_ssr (of_nat stride) (of_nat offset) (of_nat m) (of_nat n) a aT s));
        Some (s\<lparr>sf_on := False\<rparr>) })"

text \<open>
  All cores on one tile whose operands and result each start at address 0. A core keeps its stream
  registers and its \<open>setup_ssr\<close> from call to call.
\<close>

definition syrk_opt_core :: "('a::{times,zero} \<Rightarrow> 'a \<Rightarrow> 'a \<Rightarrow> 'a) \<Rightarrow> nat \<Rightarrow> nat \<Rightarrow> nat \<Rightarrow> 'a \<Rightarrow> (nat \<Rightarrow> 'a) \<Rightarrow> (nat \<Rightarrow> 'a) \<Rightarrow> 'a \<Rightarrow> nat
    \<Rightarrow> (nat \<Rightarrow> 'a) \<times> (nat \<Rightarrow> ssr_regs \<times> bool) \<Rightarrow> ((nat \<Rightarrow> 'a) \<times> (nat \<Rightarrow> ssr_regs \<times> bool)) option" where
  "syrk_opt_core fma core_num m n alpha a aT beta core_idx = (\<lambda>(c, k).
     (let (r, setup_ssr) = k core_idx
      in do {
        s \<leftarrow> syrk_opt fma (\<lambda>p. a (unat p div 8)) (\<lambda>p. aT (unat p div 8)) setup_ssr core_num core_idx m n alpha 0 0 beta (opt_state r (\<lambda>_. 0) c);
        Some (sf_C s, k(core_idx := (sf_regs s, False))) }))"

definition syrk_opt_cores :: "('a::{times,zero} \<Rightarrow> 'a \<Rightarrow> 'a \<Rightarrow> 'a) \<Rightarrow> nat \<Rightarrow> nat \<Rightarrow> nat \<Rightarrow> 'a \<Rightarrow> (nat \<Rightarrow> 'a) \<Rightarrow> (nat \<Rightarrow> 'a) \<Rightarrow> 'a \<Rightarrow> (nat \<Rightarrow> 'a)
    \<Rightarrow> (nat \<Rightarrow> ssr_regs \<times> bool) \<Rightarrow> ((nat \<Rightarrow> 'a) \<times> (nat \<Rightarrow> ssr_regs \<times> bool)) option" where
  "syrk_opt_cores fma core_num m n alpha a aT beta c k = for_opt core_num (syrk_opt_core fma core_num m n alpha a aT beta) (c, k)"

subsection \<open>Strided loops that may not end\<close>

lemma for_step_upto:
  assumes "0 < st" and "hi \<le> lo + N * st" and "\<And>r. r < N \<Longrightarrow> lo + r * st < hi"
  shows "for_step lo st hi g s = for_upto 0 N (\<lambda>r. g (lo + r * st)) s"
  using assms(2,3)
proof (induction N arbitrary: lo s)
  case 0
  then show ?case by (simp add: for_step.simps [of lo])
next
  case (Suc N)
  have lt: "lo < hi" using Suc.prems(2) [of 0] by simp
  have "for_step (lo + st) st hi g (g lo s) = for_upto 0 N (\<lambda>r. g ((lo + st) + r * st)) (g lo s)"
  proof (rule Suc.IH)
    show "hi \<le> lo + st + N * st" using Suc.prems(1) by (simp add: add.assoc)
    show "lo + st + r * st < hi" if "r < N" for r using Suc.prems(2) [of "Suc r"] that by (simp add: add.assoc)
  qed
  moreover have "for_upto 0 (Suc N) (\<lambda>r. g (lo + r * st)) s = for_upto 0 N (\<lambda>r. g (lo + st + r * st)) (g lo s)"
    using for_upto_append [of 1 N "\<lambda>r. g (lo + r * st)" s] by (simp add: for_upto_Suc [of 0 0] add.assoc)
  ultimately show ?case using lt assms(1) by (simp add: for_step.simps [of lo])
qed

lemma for_upto_bind: "for_upto 0 N (\<lambda>r so. so \<bind> f r) (Some s) = for_opt N f s"
  by (induction N) (simp_all add: for_upto_Suc)

lemma for_step_opt:
  assumes "0 < st" and "hi \<le> lo + N * st" and "\<And>r. r < N \<Longrightarrow> lo + r * st < hi"
  shows "for_step lo st hi (\<lambda>i so. so \<bind> f i) (Some s) = for_opt N (\<lambda>r. f (lo + r * st)) s"
  using for_step_upto [OF assms, where g = "\<lambda>i so. so \<bind> f i" and s = "Some s"] for_upto_bind [of N "\<lambda>r. f (lo + r * st)" s] by simp

lemma for_step_opt_dvd:
  assumes "0 < st" and "st dvd hi" and "lo < st"
  shows "for_step lo st hi (\<lambda>i so. so \<bind> f i) (Some s) = for_opt (hi div st) (\<lambda>r. f (lo + r * st)) s"
proof (rule for_step_opt [OF assms(1)])
  show "hi \<le> lo + hi div st * st" using assms(2) by simp
  fix r assume "r < hi div st"
  then have "Suc r * st \<le> hi div st * st" by (intro mult_le_mono1) simp
  then show "lo + r * st < hi" using assms by simp
qed

subsection \<open>Rows updated in place\<close>

lemma for_upto_nest: "for_upto 0 M (\<lambda>i. for_upto 0 N (\<lambda>j. f (i * N + j))) s = for_upto 0 (M * N) f s"
  by (induction M) (simp_all add: for_upto_Suc for_upto_append [of "_ * N" N] add.commute [of N])

lemma row_update: "for_upto 0 w (\<lambda>j c. c(p + j := g j (c (p + j)))) c x = (if p \<le> x \<and> x < p + w then g (x - p) (c x) else c x)"
  by (induction w) (auto simp: for_upto_Suc)

lemma row_of:
  fixes m x i :: nat
  assumes "0 < m"
  shows "i * m \<le> x \<and> x < i * m + m \<longleftrightarrow> x div m = i" and "x div m = i \<Longrightarrow> x - i * m = x mod m"
proof -
  show "i * m \<le> x \<and> x < i * m + m \<longleftrightarrow> x div m = i"
  proof
    show "x div m = i" if "i * m \<le> x \<and> x < i * m + m"
    proof -
      have "x - i * m < m" using that by linarith
      from div_mod_position(1) [OF this, of i] that show ?thesis by simp
    qed
    show "i * m \<le> x \<and> x < i * m + m" if "x div m = i"
      using that assms dividend_less_div_times [of m x] by (auto simp: add.commute)
  qed
  show "x div m = i \<Longrightarrow> x - i * m = x mod m" by (simp add: minus_div_mult_eq_mod [symmetric])
qed

text \<open>Two updates of four elements in a row are one.\<close>

lemma four_updates:
  "for_upto 0 4 (\<lambda>j c. c(p + j := h j (c (p + j)))) (for_upto 0 4 (\<lambda>j c. c(p + j := g (c (p + j)))) c)
    = for_upto 0 4 (\<lambda>j c. c(p + j := h j (g (c (p + j))))) c"
proof (rule ext)
  fix x
  show "for_upto 0 4 (\<lambda>j c. c(p + j := h j (c (p + j)))) (for_upto 0 4 (\<lambda>j c. c(p + j := g (c (p + j)))) c) x
      = for_upto 0 4 (\<lambda>j c. c(p + j := h j (g (c (p + j))))) c x"
    unfolding row_update [where g = h] row_update [where g = "\<lambda>_. g"] row_update [where g = "\<lambda>j y. h j (g y)"] by simp
qed

lemma columns_independent:
  "for_upto 0 n (\<lambda>k. for_upto 0 w (\<lambda>j acc. acc(j := F k j (acc j)))) c j = (if j < w then for_upto 0 n (\<lambda>k. F k j) (c j) else c j)"
proof (induction n)
  case (Suc n)
  have "for_upto 0 w (\<lambda>j acc. acc(j := F n j (acc j))) d j = (if j < w then F n j (d j) else d j)" for d
    using row_update [where p = 0 and g = "F n" and w = w and c = d and x = j] by simp
  then show ?case unfolding for_upto_Suc [OF le0] by (simp only: Suc.IH split: if_splits) simp
qed simp

subsection \<open>The elements\<close>

definition syrk_acc :: "('a::zero \<Rightarrow> 'a \<Rightarrow> 'a \<Rightarrow> 'a) \<Rightarrow> nat \<Rightarrow> (nat \<Rightarrow> 'a) \<Rightarrow> (nat \<Rightarrow> 'a) \<Rightarrow> 'a" where
  "syrk_acc fma n u v = for_upto 0 n (\<lambda>k. fma (u k) (v k)) 0"

definition syrk_cell :: "('a::{times,zero,plus} \<Rightarrow> 'a \<Rightarrow> 'a \<Rightarrow> 'a) \<Rightarrow> nat \<Rightarrow> 'a \<Rightarrow> 'a \<Rightarrow> (nat \<Rightarrow> 'a) \<Rightarrow> (nat \<Rightarrow> 'a) \<Rightarrow> 'a \<Rightarrow> 'a" where
  "syrk_cell fma n alpha beta u v x = multiply_opt x beta + alpha * syrk_acc fma n u v"

definition syrk_cell_opt :: "('a::{times,zero} \<Rightarrow> 'a \<Rightarrow> 'a \<Rightarrow> 'a) \<Rightarrow> nat \<Rightarrow> 'a \<Rightarrow> 'a \<Rightarrow> (nat \<Rightarrow> 'a) \<Rightarrow> (nat \<Rightarrow> 'a) \<Rightarrow> 'a \<Rightarrow> 'a" where
  "syrk_cell_opt fma n alpha beta u v x = fma x beta (syrk_acc fma n u v * alpha)"

lemma syrk_acc_cong: "(\<And>k. k < n \<Longrightarrow> u k = u' k) \<Longrightarrow> (\<And>k. k < n \<Longrightarrow> v k = v' k) \<Longrightarrow> syrk_acc fma n u v = syrk_acc fma n u' v'"
  unfolding syrk_acc_def by (rule fun_cong [OF for_upto_cong]) simp

text \<open>What a kernel does to a row of the tile, as a function of the tile before the row.\<close>

lemma syrk_naive_row:
  assumes "0 < m"
  shows "for_upto 0 m (\<lambda>j c. (let acc = for_upto 0 n (\<lambda>k acc. acc + a (i * n + k) * aT (j * n + k)) 0;
            c = c(i * m + j := multiply_opt (c (i * m + j)) beta)
        in c(i * m + j := c (i * m + j) + alpha * acc))) c x
    = (if x div m = i then syrk_cell (\<lambda>x y z. z + x * y) n alpha beta (\<lambda>k. a (x div m * n + k)) (\<lambda>k. aT (x mod m * n + k)) (c x) else c x)"
  using row_update [where p = "i * m" and w = m and c = c and x = x
      and g = "\<lambda>j y. multiply_opt y beta + alpha * for_upto 0 n (\<lambda>k acc. acc + a (i * n + k) * aT (j * n + k)) 0"] row_of(1) [OF assms, of i x] row_of(2) [OF assms, of x i]
  by (auto simp: Let_def syrk_cell_def syrk_acc_def)

lemma syrk_naive_cores:
  assumes "distinct cores" and "set cores = {..<core_num}" and "0 < core_num" and "0 < m"
  shows "fold (\<lambda>co. syrk_naive core_num co m n alpha a aT beta) cores c x
    = (if x < m * m then syrk_cell (\<lambda>x y z. z + x * y) n alpha beta (\<lambda>k. a (x div m * n + k)) (\<lambda>k. aT (x mod m * n + k)) (c x) else c x)"
proof -
  let ?f = "\<lambda>i. for_upto 0 m (\<lambda>j c. (let acc = for_upto 0 n (\<lambda>k acc. acc + a (i * n + k) * aT (j * n + k)) 0;
            c = c(i * m + j := multiply_opt (c (i * m + j)) beta)
        in c(i * m + j := c (i * m + j) + alpha * acc)))"
  have "(\<lambda>co. syrk_naive core_num co m n alpha a aT beta) = (\<lambda>co. for_step co core_num m ?f)"
    by (intro ext) (simp only: syrk_naive_def)
  then have "fold (\<lambda>co. syrk_naive core_num co m n alpha a aT beta) cores c = strided_cores core_num cores m ?f c"
    by (simp only: strided_cores_def)
  moreover have "?f i z x = (if True \<and> x div m = i
      then syrk_cell (\<lambda>x y z. z + x * y) n alpha beta (\<lambda>k. a (x div m * n + k)) (\<lambda>k. aT (x mod m * n + k)) (z x) else z x)" for i z x
    by (simp only: syrk_naive_row [OF assms(4)] simp_thms)
  ultimately show ?thesis
    using strided_cores_at [where P = "\<lambda>_. True" and own = "\<lambda>x. x div m" and f = ?f and hi = m and z = c and x = x
        and g = "\<lambda>x. syrk_cell (\<lambda>x y z. z + x * y) n alpha beta (\<lambda>k. a (x div m * n + k)) (\<lambda>k. aT (x mod m * n + k))", OF assms(1-3)] assms(4)
    by (simp only: simp_thms div_less_iff_less_mult)
qed

lemma syrk_baseline_acc:
  assumes "4 dvd n" and "j0 < 4"
  shows "for_step 0 4 n (\<lambda>k. for_upto 0 4 (\<lambda>u. for_upto 0 4 (\<lambda>j0 acc.
      acc(j0 := fma (a (i * n + k + u)) (aT ((j + j0) * n + k + u)) (acc j0))))) (\<lambda>_. 0) j0
    = syrk_acc fma n (\<lambda>k. a (i * n + k)) (\<lambda>k. aT ((j + j0) * n + k))"
proof -
  let ?F = "\<lambda>k j0. fma (a (i * n + k)) (aT ((j + j0) * n + k))"
  have "for_step 0 4 n (\<lambda>k. for_upto 0 4 (\<lambda>u. for_upto 0 4 (\<lambda>j0 acc.
      acc(j0 := fma (a (i * n + k + u)) (aT ((j + j0) * n + k + u)) (acc j0))))) (\<lambda>_. 0)
    = for_upto 0 (n div 4) (\<lambda>r. for_upto 0 4 (\<lambda>u. for_upto 0 4 (\<lambda>j0 acc. acc(j0 := ?F (r * 4 + u) j0 (acc j0))))) (\<lambda>_. 0)"
    using for_step_upto [of 4 n 0 "n div 4", where g = "\<lambda>k. for_upto 0 4 (\<lambda>u. for_upto 0 4 (\<lambda>j0 acc.
      acc(j0 := fma (a (i * n + k + u)) (aT ((j + j0) * n + k + u)) (acc j0))))" and s = "\<lambda>_. 0"] assms(1)
    by (simp add: add.assoc dvd_div_mult_self)
  also have "\<dots> = for_upto 0 n (\<lambda>k. for_upto 0 4 (\<lambda>j0 acc. acc(j0 := ?F k j0 (acc j0)))) (\<lambda>_. 0)"
    using for_upto_nest [of "n div 4" 4 "\<lambda>k. for_upto 0 4 (\<lambda>j0 acc. acc(j0 := ?F k j0 (acc j0)))" "\<lambda>_. 0"] assms(1) by simp
  finally show ?thesis using columns_independent [of n 4 ?F "\<lambda>_. 0" j0] assms(2) by (simp add: syrk_acc_def)
qed

text \<open>The body of the unrolled loop updates four elements of the row.\<close>

lemma syrk_baseline_block:
  assumes "4 dvd n"
  shows "(let acc = for_step 0 4 n (\<lambda>k. for_upto 0 4 (\<lambda>u. for_upto 0 4 (\<lambda>j0 acc.
             acc(j0 := fma (a (i * n + k + u)) (aT ((j + j0) * n + k + u)) (acc j0))))) (\<lambda>_. 0);
          c = for_upto 0 4 (\<lambda>j0 c. c(i * m + j + j0 := multiply_opt (c (i * m + j + j0)) beta)) c
      in for_upto 0 4 (\<lambda>j0 c. c(i * m + j + j0 := c (i * m + j + j0) + alpha * acc j0)) c)
    = for_upto 0 4 (\<lambda>j0 c. c(i * m + (j + j0) := syrk_cell fma n alpha beta (\<lambda>k. a (i * n + k)) (\<lambda>k. aT ((j + j0) * n + k)) (c (i * m + (j + j0))))) c"
proof -
  define acc where "acc = for_step 0 4 n (\<lambda>k. for_upto 0 4 (\<lambda>u. for_upto 0 4 (\<lambda>j0 acc.
             acc(j0 := fma (a (i * n + k + u)) (aT ((j + j0) * n + k + u)) (acc j0))))) (\<lambda>_. 0)"
  have acc: "acc j0 = syrk_acc fma n (\<lambda>k. a (i * n + k)) (\<lambda>k. aT ((j + j0) * n + k))" if "j0 < 4" for j0
    unfolding acc_def by (rule syrk_baseline_acc [OF assms that])
  have "for_upto 0 4 (\<lambda>j0 c. c(i * m + j + j0 := c (i * m + j + j0) + alpha * acc j0))
        (for_upto 0 4 (\<lambda>j0 c. c(i * m + j + j0 := multiply_opt (c (i * m + j + j0)) beta)) c)
      = for_upto 0 4 (\<lambda>j0 c. c(i * m + j + j0 := multiply_opt (c (i * m + j + j0)) beta + alpha * acc j0)) c"
    by (rule four_updates [where h = "\<lambda>j0 y. y + alpha * acc j0" and g = "\<lambda>y. multiply_opt y beta"])
  also have "\<dots> = for_upto 0 4 (\<lambda>j0 c. c(i * m + (j + j0) := syrk_cell fma n alpha beta (\<lambda>k. a (i * n + k)) (\<lambda>k. aT ((j + j0) * n + k)) (c (i * m + (j + j0))))) c"
    by (rule fun_cong [OF for_upto_cong]) (simp add: acc syrk_cell_def add.assoc)
  finally show ?thesis unfolding Let_def acc_def .
qed

lemma for_step_unroll:
  assumes "4 dvd m" and "\<And>j c. f j c = for_upto 0 4 (\<lambda>j0. U (j + j0)) c"
  shows "for_step 0 4 m f c = for_upto 0 m U c"
proof -
  have m: "m div 4 * 4 = m" using assms(1) by simp
  have "for_step 0 4 m f c = for_upto 0 (m div 4) (\<lambda>r. f (0 + r * 4)) c"
  proof (rule for_step_upto)
    show "m \<le> 0 + m div 4 * 4" using m by simp
    show "0 + r * 4 < m" if "r < m div 4" for r using that m by linarith
  qed simp
  also have "\<dots> = for_upto 0 (m div 4) (\<lambda>r. for_upto 0 4 (\<lambda>j0. U (r * 4 + j0))) c"
    by (rule fun_cong [OF for_upto_cong]) (simp add: assms(2))
  also have "\<dots> = for_upto 0 m U c" unfolding for_upto_nest m ..
  finally show ?thesis .
qed

lemma syrk_baseline_cores:
  assumes cores: "distinct cores" "set cores = {..<core_num}" "0 < core_num" and m: "0 < m" "4 dvd m" "4 dvd n"
  shows "fold (\<lambda>co. syrk_baseline fma core_num co m n alpha a aT beta) cores c x
    = (if x < m * m then syrk_cell fma n alpha beta (\<lambda>k. a (x div m * n + k)) (\<lambda>k. aT (x mod m * n + k)) (c x) else c x)"
proof -
  let ?U = "\<lambda>i t c. c(i * m + t := syrk_cell fma n alpha beta (\<lambda>k. a (i * n + k)) (\<lambda>k. aT (t * n + k)) (c (i * m + t)))"
  have "syrk_baseline fma core_num co m n alpha a aT beta = for_step co core_num m (\<lambda>i. for_upto 0 m (?U i))" for co
  proof (rule ext)
    fix c
    have "for_step 0 4 m (\<lambda>j c.
        (let acc = for_step 0 4 n (\<lambda>k. for_upto 0 4 (\<lambda>u. for_upto 0 4 (\<lambda>j0 acc.
               acc(j0 := fma (a (i * n + k + u)) (aT ((j + j0) * n + k + u)) (acc j0))))) (\<lambda>_. 0);
             c = for_upto 0 4 (\<lambda>j0 c. c(i * m + j + j0 := multiply_opt (c (i * m + j + j0)) beta)) c
         in for_upto 0 4 (\<lambda>j0 c. c(i * m + j + j0 := c (i * m + j + j0) + alpha * acc j0)) c)) = for_upto 0 m (?U i)" for i
      by (intro ext for_step_unroll [OF m(2)] syrk_baseline_block [OF m(3)])
    then show "syrk_baseline fma core_num co m n alpha a aT beta c = for_step co core_num m (\<lambda>i. for_upto 0 m (?U i)) c"
      unfolding syrk_baseline_def Let_def by simp
  qed
  then have "fold (\<lambda>co. syrk_baseline fma core_num co m n alpha a aT beta) cores c = strided_cores core_num cores m (\<lambda>i. for_upto 0 m (?U i)) c"
    by (simp only: strided_cores_def)
  moreover have "for_upto 0 m (?U i) z x = (if True \<and> x div m = i
      then syrk_cell fma n alpha beta (\<lambda>k. a (x div m * n + k)) (\<lambda>k. aT (x mod m * n + k)) (z x) else z x)" for i z x
    using row_of(1) [OF m(1), of i x] row_of(2) [OF m(1), of x i]
    unfolding row_update [where g = "\<lambda>t y. syrk_cell fma n alpha beta (\<lambda>k. a (i * n + k)) (\<lambda>k. aT (t * n + k)) y"] by auto
  ultimately show ?thesis
    using strided_cores_at [where P = "\<lambda>_. True" and own = "\<lambda>x. x div m" and f = "\<lambda>i. for_upto 0 m (?U i)" and hi = m and z = c and x = x
        and g = "\<lambda>x. syrk_cell fma n alpha beta (\<lambda>k. a (x div m * n + k)) (\<lambda>k. aT (x mod m * n + k))", OF cores] m(1)
    by (simp only: simp_thms div_less_iff_less_mult)
qed

subsection \<open>The streams of the optimised kernel\<close>

text \<open>The configuration registers hold what the first call with these sizes has written.\<close>

definition syrk_configured :: "u32 \<Rightarrow> u32 \<Rightarrow> u32 \<Rightarrow> ssr_regs \<Rightarrow> bool" where
  "syrk_configured stride m n r \<longleftrightarrow> (\<exists>r0. r0 1 SSR_REG_REPEAT = 0 \<and> (\<forall>dm < 2. \<forall>reg < SSR_REG_RPTR. r dm reg = syrk_opt_setup stride m n r0 dm reg))"

lemma syrk_setup_configured: "r 1 SSR_REG_REPEAT = 0 \<Longrightarrow> syrk_configured stride m n (syrk_opt_setup stride m n r)"
  unfolding syrk_configured_def by blast

lemma syrk_configured_cong:
  assumes "syrk_configured stride m n r" and "\<And>dm reg. dm < 2 \<Longrightarrow> reg < SSR_REG_RPTR \<Longrightarrow> r' dm reg = r dm reg"
  shows "syrk_configured stride m n r'"
  using assms unfolding syrk_configured_def by metis

lemma syrk_regs:
  assumes "syrk_configured stride m n r"
  shows "r 0 SSR_REG_REPEAT = 3" "r 1 SSR_REG_REPEAT = 0"
    and "r 0 (SSR_REG_BOUNDS + 0) = n - 1" "r 0 (SSR_REG_BOUNDS + 1) = m div 4 - 1" "r 0 (SSR_REG_BOUNDS + 2) = m div stride - 1"
    and "r 0 (SSR_REG_STRIDES + 0) = 8" "r 0 (SSR_REG_STRIDES + 1) = 0 - 8 * (n - 1)"
    and "r 0 (SSR_REG_STRIDES + 2) = stride * n * 8 - (8 * (n - 1) + 0 * (m div 4 - 1))"
    and "r 1 (SSR_REG_BOUNDS + 0) = 4 - 1" "r 1 (SSR_REG_BOUNDS + 1) = n - 1" "r 1 (SSR_REG_BOUNDS + 2) = m div 4 - 1"
    and "r 1 (SSR_REG_BOUNDS + 3) = m div stride - 1"
    and "r 1 (SSR_REG_STRIDES + 0) = n * 8" "r 1 (SSR_REG_STRIDES + 1) = 8 - n * 8 * (4 - 1)"
    and "r 1 (SSR_REG_STRIDES + 2) = 4 * n * 8 - (n * 8 * (4 - 1) + 8 * (n - 1))"
    and "r 1 (SSR_REG_STRIDES + 3) = 0 - (n * 8 * (4 - 1) + 8 * (n - 1) + 4 * n * 8 * (m div 4 - 1))"
proof -
  obtain r0 where r0: "r0 1 SSR_REG_REPEAT = 0" and r: "\<And>dm reg. dm < 2 \<Longrightarrow> reg < SSR_REG_RPTR \<Longrightarrow> r dm reg = syrk_opt_setup stride m n r0 dm reg"
    using assms unfolding syrk_configured_def by blast
  show "r 0 SSR_REG_REPEAT = 3" "r 1 SSR_REG_REPEAT = 0"
    "r 0 (SSR_REG_BOUNDS + 0) = n - 1" "r 0 (SSR_REG_BOUNDS + 1) = m div 4 - 1" "r 0 (SSR_REG_BOUNDS + 2) = m div stride - 1"
    "r 0 (SSR_REG_STRIDES + 0) = 8" "r 0 (SSR_REG_STRIDES + 1) = 0 - 8 * (n - 1)"
    "r 0 (SSR_REG_STRIDES + 2) = stride * n * 8 - (8 * (n - 1) + 0 * (m div 4 - 1))"
    "r 1 (SSR_REG_BOUNDS + 0) = 4 - 1" "r 1 (SSR_REG_BOUNDS + 1) = n - 1" "r 1 (SSR_REG_BOUNDS + 2) = m div 4 - 1"
    "r 1 (SSR_REG_BOUNDS + 3) = m div stride - 1"
    "r 1 (SSR_REG_STRIDES + 0) = n * 8" "r 1 (SSR_REG_STRIDES + 1) = 8 - n * 8 * (4 - 1)"
    "r 1 (SSR_REG_STRIDES + 2) = 4 * n * 8 - (n * 8 * (4 - 1) + 8 * (n - 1))"
    "r 1 (SSR_REG_STRIDES + 3) = 0 - (n * 8 * (4 - 1) + 8 * (n - 1) + 4 * n * 8 * (m div 4 - 1))"
    using r0 by (subst r; simp add: syrk_opt_setup_def snrt_ssr_repeat_def ssr_loop_defs Let_def; simp add: algebra_simps)+
qed

lemma syrk_start_facts:
  assumes s1: "s1 = syrk_opt_start setup_ssr stride offset m n a aT s"
    and cfg: "if setup_ssr then sf_regs s 1 SSR_REG_REPEAT = 0 else syrk_configured stride m n (sf_regs s)"
  shows "syrk_configured stride m n (sf_regs s1)" and "sf_on s1" and "sf_C s1 = sf_C s" and "sf_rep s1 0 = 0" "sf_rep s1 1 = 0"
    and "\<And>dm. dm = 0 \<or> dm = 1 \<Longrightarrow> \<not> ag_done (sf_gen s1 dm) \<and> ag_index (sf_gen s1 dm) = (\<lambda>_. 0) \<and> ag_dims (sf_gen s1 dm) = 3
          \<and> ag_pointer (sf_gen s1 dm) = (if dm = 0 then a + 8 * (offset * n) else aT)"
    and "\<And>dm i. dm = 0 \<or> dm = 1 \<Longrightarrow> i < 4 \<Longrightarrow> ag_bound (sf_gen s1 dm) i = sf_regs s1 dm (SSR_REG_BOUNDS + i)
          \<and> ag_stride (sf_gen s1 dm) i = sf_regs s1 dm (SSR_REG_STRIDES + i) AND NOT 7"
proof -
  define r where "r = (if setup_ssr then syrk_opt_setup stride m n (sf_regs s) else sf_regs s)"
  have r: "syrk_configured stride m n r"
    using cfg syrk_setup_configured unfolding r_def by (cases setup_ssr) simp_all
  have e: "s1 = (let s = s\<lparr>sf_regs := r\<rparr>; s = stream_read 0 SNRT_SSR_4D (a + 8 * (offset * n)) s;
          s = stream_read 1 SNRT_SSR_4D aT s in s\<lparr>sf_on := True\<rparr>)"
    unfolding s1 syrk_opt_start_def r_def Let_def by (cases setup_ssr) simp_all
  note defs = stream_read_def stream_start_def ssr_loop_defs Let_def
  show "syrk_configured stride m n (sf_regs s1)"
    by (rule syrk_configured_cong [OF r]) (auto simp: e defs less_2_cases_iff)
  show "sf_on s1" "sf_C s1 = sf_C s" "sf_rep s1 0 = 0" "sf_rep s1 1 = 0" by (simp_all add: e defs)
  show "\<not> ag_done (sf_gen s1 dm) \<and> ag_index (sf_gen s1 dm) = (\<lambda>_. 0) \<and> ag_dims (sf_gen s1 dm) = 3
      \<and> ag_pointer (sf_gen s1 dm) = (if dm = 0 then a + 8 * (offset * n) else aT)" if "dm = 0 \<or> dm = 1" for dm
    using that by (auto simp: e defs)
  show "ag_bound (sf_gen s1 dm) i = sf_regs s1 dm (SSR_REG_BOUNDS + i)
      \<and> ag_stride (sf_gen s1 dm) i = sf_regs s1 dm (SSR_REG_STRIDES + i) AND NOT 7" if "dm = 0 \<or> dm = 1" "i < 4" for dm i
    using that by (auto simp: e defs)
qed

lemma row_streams:
  assumes cfg: "syrk_configured stride m n (sf_regs s1)" and nz: "n \<noteq> 0" "m div 4 \<noteq> 0" "m div stride \<noteq> 0"
    and F6: "\<And>dm. dm = 0 \<or> dm = 1 \<Longrightarrow> \<not> ag_done (sf_gen s1 dm) \<and> ag_index (sf_gen s1 dm) = (\<lambda>_. 0)
          \<and> ag_pointer (sf_gen s1 dm) = (if dm = 0 then a + 8 * (offset * n) else aT)"
    and dims: "2 \<le> ag_dims (sf_gen s1 0)" "ag_dims (sf_gen s1 1) = 3"
    and F7: "\<And>dm i. dm = 0 \<or> dm = 1 \<Longrightarrow> i < 4 \<Longrightarrow> ag_bound (sf_gen s1 dm) i = sf_regs s1 dm (SSR_REG_BOUNDS + i)
          \<and> ag_stride (sf_gen s1 dm) i = sf_regs s1 dm (SSR_REG_STRIDES + i) AND NOT 7"
  shows "\<exists>P f. P 0 (sf_gen s1 0) \<and> emits P (unat (m div stride) * unat (m div 4) * unat n) f
      \<and> (\<forall>i2 < unat (m div stride). \<forall>i1 < unat (m div 4). \<forall>i0 < unat n. f ((i2 * unat (m div 4) + i1) * unat n + i0)
          = a + 8 * (offset * n) + of_nat i0 * 8 + of_nat i1 * 0 + of_nat i2 * (stride * n * 8))" (is ?A)
    and "\<exists>P f. P 0 (sf_gen s1 1) \<and> emits P (unat (m div stride) * unat (m div 4) * unat n * 4) f
      \<and> (\<forall>i3 < unat (m div stride). \<forall>i2 < unat (m div 4). \<forall>i1 < unat n. \<forall>i0 < 4. f (((i3 * unat (m div 4) + i2) * unat n + i1) * 4 + i0)
          = aT + of_nat i0 * (n * 8) + of_nat i1 * 8 + of_nat i2 * (4 * n * 8) + of_nat i3 * 0)" (is ?B)
proof -
  note R = syrk_regs [OF cfg]
  have d: "8 dvd (n * 8)" "8 dvd (stride * n * 8)" "8 dvd (4 * n * 8)" by (rule dvd_triv_right)+
  have G0: "\<not> ag_done (sf_gen s1 0)" "ag_index (sf_gen s1 0) = (\<lambda>_. 0)" "ag_pointer (sf_gen s1 0) = a + 8 * (offset * n)"
    using F6 [of 0] by simp_all
  have G1: "\<not> ag_done (sf_gen s1 1)" "ag_index (sf_gen s1 1) = (\<lambda>_. 0)" "ag_pointer (sf_gen s1 1) = aT"
    using F6 [of 1] by simp_all
  have b0: "ag_bound (sf_gen s1 0) 0 = n - 1" "ag_bound (sf_gen s1 0) 1 = m div 4 - 1" "ag_bound (sf_gen s1 0) 2 = m div stride - 1"
    "ag_stride (sf_gen s1 0) 0 = 8 AND NOT 7" "ag_stride (sf_gen s1 0) 1 = (0 - 8 * (n - 1)) AND NOT 7"
    "ag_stride (sf_gen s1 0) 2 = (stride * n * 8 - (8 * (n - 1) + 0 * (m div 4 - 1))) AND NOT 7"
    using F7 [of 0] R by simp_all
  have b1: "ag_bound (sf_gen s1 1) 0 = 4 - 1" "ag_bound (sf_gen s1 1) 1 = n - 1" "ag_bound (sf_gen s1 1) 2 = m div 4 - 1" "ag_bound (sf_gen s1 1) 3 = m div stride - 1"
    "ag_stride (sf_gen s1 1) 0 = n * 8 AND NOT 7" "ag_stride (sf_gen s1 1) 1 = (8 - n * 8 * (4 - 1)) AND NOT 7"
    "ag_stride (sf_gen s1 1) 2 = (4 * n * 8 - (n * 8 * (4 - 1) + 8 * (n - 1))) AND NOT 7"
    "ag_stride (sf_gen s1 1) 3 = (0 - (n * 8 * (4 - 1) + 8 * (n - 1) + 4 * n * 8 * (m div 4 - 1))) AND NOT 7"
    using F7 [of 1] R by simp_all
  show ?A using stream_3d [OF G0(1,2) dims(1) b0(1-3) nz b0(4-6) _ _ d(2)] unfolding G0(3) by simp
  have four: "(4 :: u32) \<noteq> 0" "unat (4 :: u32) = 4" by simp_all
  show ?B using stream_4d [OF G1(1,2) dims(2) b1(1-4) four(1) nz b1(5-8) d(1) _ d(3)] unfolding G1(3) four(2) by simp
qed

lemma syrk_streams:
  assumes "s1 = syrk_opt_start setup_ssr stride offset m n a aT s"
    and "if setup_ssr then sf_regs s 1 SSR_REG_REPEAT = 0 else syrk_configured stride m n (sf_regs s)"
    and "n \<noteq> 0" "m div 4 \<noteq> 0" "m div stride \<noteq> 0"
  shows "\<exists>P f. P 0 (sf_gen s1 0) \<and> emits P (unat (m div stride) * unat (m div 4) * unat n) f
      \<and> (\<forall>i2 < unat (m div stride). \<forall>i1 < unat (m div 4). \<forall>i0 < unat n. f ((i2 * unat (m div 4) + i1) * unat n + i0)
          = a + 8 * (offset * n) + of_nat i0 * 8 + of_nat i1 * 0 + of_nat i2 * (stride * n * 8))"
    and "\<exists>P f. P 0 (sf_gen s1 1) \<and> emits P (unat (m div stride) * unat (m div 4) * unat n * 4) f
      \<and> (\<forall>i3 < unat (m div stride). \<forall>i2 < unat (m div 4). \<forall>i1 < unat n. \<forall>i0 < 4. f (((i3 * unat (m div 4) + i2) * unat n + i1) * 4 + i0)
          = aT + of_nat i0 * (n * 8) + of_nat i1 * 8 + of_nat i2 * (4 * n * 8) + of_nat i3 * 0)"
proof -
  note F = syrk_start_facts [OF assms(1,2)]
  have "\<And>dm. dm = 0 \<or> dm = 1 \<Longrightarrow> \<not> ag_done (sf_gen s1 dm) \<and> ag_index (sf_gen s1 dm) = (\<lambda>_. 0)
          \<and> ag_pointer (sf_gen s1 dm) = (if dm = 0 then a + 8 * (offset * n) else aT)"
    and "2 \<le> ag_dims (sf_gen s1 0)" "ag_dims (sf_gen s1 1) = 3" using F(6) by simp_all
  from row_streams [OF F(1) assms(3-5) this F(7)] show
    "\<exists>P f. P 0 (sf_gen s1 0) \<and> emits P (unat (m div stride) * unat (m div 4) * unat n) f
      \<and> (\<forall>i2 < unat (m div stride). \<forall>i1 < unat (m div 4). \<forall>i0 < unat n. f ((i2 * unat (m div 4) + i1) * unat n + i0)
          = a + 8 * (offset * n) + of_nat i0 * 8 + of_nat i1 * 0 + of_nat i2 * (stride * n * 8))"
    "\<exists>P f. P 0 (sf_gen s1 1) \<and> emits P (unat (m div stride) * unat (m div 4) * unat n * 4) f
      \<and> (\<forall>i3 < unat (m div stride). \<forall>i2 < unat (m div 4). \<forall>i1 < unat n. \<forall>i0 < 4. f (((i3 * unat (m div 4) + i2) * unat n + i1) * 4 + i0)
          = aT + of_nat i0 * (n * 8) + of_nat i1 * 8 + of_nat i2 * (4 * n * 8) + of_nat i3 * 0)" by blast+
qed

subsection \<open>One block of the optimised kernel\<close>

lemma for_opt_preserves:
  assumes "\<And>i s s'. f i s = Some s' \<Longrightarrow> g s' = g s" and "for_opt n f s = Some s'"
  shows "g s' = g s"
  using assms(2)
proof (induction n arbitrary: s')
  case (Suc n)
  then show ?case using assms(1) by (auto simp: Option.bind_eq_Some_conv)
qed simp

lemma stream_pop_regs: "stream_pop dm rd s = Some (x, s') \<Longrightarrow> sf_regs s' = sf_regs s"
  by (auto simp: stream_pop_def Let_def split: if_splits)

lemma fmadd_c_regs: "fmadd_c fma A B i s = Some s' \<Longrightarrow> sf_regs s' = sf_regs s"
  by (auto simp: fmadd_c_def stream_operands_def Option.bind_eq_Some_conv dest!: stream_pop_regs)

text \<open>
  The same four columns with any last instructions \<open>fin c acc\<close> on an old element and its sum of products.
\<close>

definition rows_block :: "('a::zero \<Rightarrow> 'a \<Rightarrow> 'a \<Rightarrow> 'a) \<Rightarrow> (u32 \<Rightarrow> 'a) \<Rightarrow> (u32 \<Rightarrow> 'a) \<Rightarrow> ('a \<Rightarrow> 'a \<Rightarrow> 'a) \<Rightarrow> nat \<Rightarrow> u32 \<Rightarrow> nat \<Rightarrow> nat
    \<Rightarrow> 'a ssr_fp \<Rightarrow> 'a ssr_fp option" where
  "rows_block fma memA memAT fin m n i j s = do {
     let c = sf_C s;
     s \<leftarrow> frep (n - 1) (for_opt 4 (fmadd_c fma memA memAT)) (s\<lparr>sf_c := \<lambda>_. 0\<rparr>);
     let acc = sf_c s;
     Some (s\<lparr>sf_C := for_upto 0 4 (\<lambda>j0 C. C(i * m + j + j0 := fin (c (i * m + j + j0)) (acc j0))) c\<rparr>) }"

lemma syrk_block_rows: "syrk_opt_block fma memA memAT m n alpha beta = rows_block fma memA memAT (\<lambda>c acc. fma c beta (acc * alpha)) m n"
  by (intro ext) (simp add: syrk_opt_block_def rows_block_def)

lemma rows_block_at:
  assumes at: "streams_at 4 P0 P1 P2 (4 * (p * unat n)) 0 s" and e: "emits P0 T f0" "emits P1 (4 * T) f1"
    and n: "n \<noteq> 0" and T: "p * unat n + unat n \<le> T"
    and u: "\<And>k. k < unat n \<Longrightarrow> memA (f0 (p * unat n + k)) = u k"
    and v: "\<And>k j0. k < unat n \<Longrightarrow> j0 < 4 \<Longrightarrow> memAT (f1 (4 * (p * unat n + k) + j0)) = v j0 k"
  shows "\<exists>s'. rows_block fma memA memAT fin m n i j s = Some s' \<and> streams_at 4 P0 P1 P2 (4 * (Suc p * unat n)) 0 s'
    \<and> sf_regs s' = sf_regs s
    \<and> sf_C s' = for_upto 0 4 (\<lambda>j0 C. C(i * m + j + j0 := fin (sf_C s (i * m + j + j0)) (syrk_acc fma (unat n) u (v j0)))) (sf_C s)"
proof -
  let ?s = "s\<lparr>sf_c := \<lambda>_. 0\<rparr>"
  have "streams_at 4 P0 P1 P2 (4 * (p * unat n)) 0 ?s" using at by (simp add: streams_at_cong)
  from fmadd_loop_group_at [OF this e T, of fma memA memAT]
  obtain s1 where s1: "for_opt (unat n) (\<lambda>_. for_opt 4 (fmadd_c fma memA memAT)) ?s = Some s1"
    "streams_at 4 P0 P1 P2 (4 * (p * unat n + unat n)) 0 s1" "sf_C s1 = sf_C s"
    "\<And>j0. j0 < 4 \<Longrightarrow> sf_c s1 j0 = for_upto 0 (unat n) (\<lambda>k. fma (memA (f0 (p * unat n + k))) (memAT (f1 (4 * (p * unat n + k) + j0)))) 0"
    by auto
  have "sf_regs s1 = sf_regs ?s"
    by (rule for_opt_preserves [OF _ s1(1)]) (rule for_opt_preserves [OF fmadd_c_regs])
  moreover have acc: "sf_c s1 j0 = syrk_acc fma (unat n) u (v j0)" if "j0 < 4" for j0
    unfolding s1(4) [OF that] syrk_acc_def by (rule fun_cong [OF for_upto_cong]) (simp only: u v that)
  have "for_upto 0 4 (\<lambda>j0 C. C(i * m + j + j0 := fin (sf_C s (i * m + j + j0)) (sf_c s1 j0)))
      = for_upto 0 4 (\<lambda>j0 C. C(i * m + j + j0 := fin (sf_C s (i * m + j + j0)) (syrk_acc fma (unat n) u (v j0))))"
    by (rule for_upto_cong) (simp add: acc)
  ultimately show ?thesis using s1 by (simp add: rows_block_def frep_times [OF n] Let_def streams_at_def add.commute)
qed

lemma block_of_four:
  fixes m x i q :: nat
  assumes "0 < m" and "4 dvd m" and "q < m div 4"
  shows "i * m + q * 4 \<le> x \<and> x < i * m + q * 4 + 4 \<longleftrightarrow> x div m = i \<and> x mod m div 4 = q"
proof
  have "q * 4 + 4 \<le> m" using assms(2,3) by linarith
  moreover assume a: "i * m + q * 4 \<le> x \<and> x < i * m + q * 4 + 4"
  ultimately have "i * m \<le> x \<and> x < i * m + m" by linarith
  then have d: "x div m = i" by (simp only: row_of(1) [OF assms(1)])
  then have "x mod m = x - i * m" using row_of(2) [OF assms(1) d] by simp
  then show "x div m = i \<and> x mod m div 4 = q" using d a by linarith
next
  assume a: "x div m = i \<and> x mod m div 4 = q"
  then have "x = i * m + x mod m" using div_mult_mod_eq [of x m] by simp
  moreover have "x mod m = q * 4 + x mod m mod 4" using a div_mult_mod_eq [of "x mod m" 4] by simp
  moreover have "x mod m mod 4 < 4" by simp
  ultimately show "i * m + q * 4 \<le> x \<and> x < i * m + q * 4 + 4" by linarith
qed

lemma row_of_core:
  fixes co stride y r :: nat
  assumes "co < stride"
  shows "y = co + r * stride \<longleftrightarrow> y mod stride = co \<and> y div stride = r"
proof
  show "y mod stride = co \<and> y div stride = r" if "y = co + r * stride"
    using div_mod_position [OF assms, of r] that by (simp add: add.commute)
  show "y = co + r * stride" if "y mod stride = co \<and> y div stride = r"
    using that mod_mult_div_eq [of y stride] by (auto simp: mult.commute)
qed

subsection \<open>All rows of a core\<close>

lemma rows_at:
  fixes m n stride co :: nat and a aT :: "nat \<Rightarrow> 'a::zero"
  assumes m: "0 < m" "4 dvd m" and n: "0 < n" and stride: "stride dvd m" "co < stride" and sp: "m * n < 2 ^ 32"
    and s1: "sf_on s1" "sf_rep s1 0 = 0" "sf_rep s1 1 = 0" "sf_regs s1 0 SSR_REG_REPEAT = 3" "sf_regs s1 1 SSR_REG_REPEAT = 0"
    and P0: "P0 0 (sf_gen s1 0)" "emits P0 (m div stride * (m div 4) * n) f0"
      "\<And>r q k. r < m div stride \<Longrightarrow> q < m div 4 \<Longrightarrow> k < n \<Longrightarrow> mA (f0 ((r * (m div 4) + q) * n + k)) = a ((co + r * stride) * n + k)"
    and P1: "P1 0 (sf_gen s1 1)" "emits P1 (4 * (m div stride * (m div 4) * n)) f1"
      "\<And>r q k j0. r < m div stride \<Longrightarrow> q < m div 4 \<Longrightarrow> k < n \<Longrightarrow> j0 < 4 \<Longrightarrow> mT (f1 (4 * ((r * (m div 4) + q) * n + k) + j0)) = aT ((q * 4 + j0) * n + k)"
  shows "\<exists>s2. for_step co stride m (\<lambda>i so. so \<bind> (\<lambda>s. for_step 0 4 m (\<lambda>j so. so \<bind> rows_block fma mA mT fin m (of_nat n) i j) (Some s))) (Some s1) = Some s2
    \<and> sf_regs s2 = sf_regs s1
    \<and> (\<forall>x. sf_C s2 x = (if x div m < m \<and> x div m mod stride = co
        then fin (sf_C s1 x) (syrk_acc fma n (\<lambda>k. a (x div m * n + k)) (\<lambda>k. aT (x mod m * n + k))) else sf_C s1 x))"
proof -
  define M4 R where "M4 = m div 4" and "R = m div stride"
  note P0 = P0 [folded M4_def R_def] and P1 = P1 [folded M4_def R_def]
  have stm: "stride \<le> m" using stride m by (simp add: dvd_imp_le)
  have pos: "0 < M4" "0 < R" using m stm stride by (auto simp: M4_def R_def div_greater_zero_iff dvd_imp_le)
  have M4: "M4 * 4 = m" and RS: "R * stride = m" using m stride by (simp_all add: M4_def R_def)
  have nlt: "n < 2 ^ 32"
  proof -
    have "n \<le> m * n" using m(1) by simp
    then show ?thesis using sp by (rule le_less_trans)
  qed
  have un: "unat (of_nat n :: u32) = n" using nlt by (intro unat_of_nat_small) simp
  have nz: "(of_nat n :: u32) \<noteq> 0" using un n by (metis unat_0 less_irrefl)
  define cell where "cell x = fin (sf_C s1 x) (syrk_acc fma n (\<lambda>k. a (x div m * n + k)) (\<lambda>k. aT (x mod m * n + k)))" for x
  define mine where "mine x \<longleftrightarrow> x div m < m \<and> x div m mod stride = co" for x
  define pos where "pos x = x div m div stride * M4 + x mod m div 4" for x
  let ?P2 = "\<lambda>_ _. True"
  define I where "I p t \<longleftrightarrow> streams_at 4 P0 P1 ?P2 (4 * (p * n)) 0 t \<and> sf_regs t = sf_regs s1
    \<and> (\<forall>x. sf_C t x = (if mine x \<and> pos x < p then cell x else sf_C s1 x))" for p t
  define body where "body = (\<lambda>p. rows_block fma mA mT fin m (of_nat n) (co + p div M4 * stride) (p mod M4 * 4))"
  have "\<exists>s2. for_opt (R * M4) body s1 = Some s2 \<and> I (R * M4) s2"
  proof (rule for_opt_invariant)
    show "I 0 s1" using s1 P0(1) P1(1) by (simp add: I_def streams_at_def)
    fix p t assume p: "p < R * M4" and t: "I p t"
    define r q where "r = p div M4" and "q = p mod M4"
    have rq: "r < R" "q < M4" "p = r * M4 + q" using p pos(1) by (simp_all add: r_def q_def less_mult_imp_div_less)
    let ?i = "co + r * stride"
    have "Suc r * stride \<le> R * stride" using rq(1) by (intro mult_le_mono1) simp
    then have i: "?i < m" using stride(2) RS by simp
    have T: "p * n + n \<le> R * M4 * n"
    proof -
      have "Suc p * n \<le> R * M4 * n" using p by (intro mult_le_mono1) simp
      then show ?thesis by simp
    qed
    have u: "mA (f0 (p * n + k)) = a (?i * n + k)" if "k < n" for k
      unfolding rq(3) by (rule P0(3) [OF rq(1,2) that])
    have v: "mT (f1 (4 * (p * n + k) + j0)) = aT ((q * 4 + j0) * n + k)" if "k < n" "j0 < 4" for k j0
      unfolding rq(3) by (rule P1(3) [OF rq(1,2) that])
    have "streams_at 4 P0 P1 ?P2 (4 * (p * n)) 0 t" using t by (simp add: I_def)
    from rows_block_at [where n = "of_nat n" and fma = fma and m = m and i = ?i and j = "q * 4" and fin = fin and memA = mA and memAT = mT
        and u = "\<lambda>k. a (?i * n + k)" and v = "\<lambda>j0 k. aT ((q * 4 + j0) * n + k)", unfolded un, OF this P0(2) P1(2) nz T u v]
    obtain t' where t': "body p t = Some t'" "streams_at 4 P0 P1 ?P2 (4 * (Suc p * n)) 0 t'" "sf_regs t' = sf_regs t"
      "sf_C t' = for_upto 0 4 (\<lambda>j0 C. C(?i * m + q * 4 + j0 := fin (sf_C t (?i * m + q * 4 + j0))
          (syrk_acc fma n (\<lambda>k. a (?i * n + k)) (\<lambda>k. aT ((q * 4 + j0) * n + k))))) (sf_C t)"
      by (auto simp: body_def r_def [symmetric] q_def [symmetric])
    have "sf_C t' x = (if mine x \<and> pos x < Suc p then cell x else sf_C s1 x)" for x
    proof -
      have blk: "?i * m + q * 4 \<le> x \<and> x < ?i * m + q * 4 + 4 \<longleftrightarrow> mine x \<and> pos x = p"
      proof -
        have xq: "x mod m div 4 < M4" using m(1) M4 by (simp add: less_mult_imp_div_less)
        have "?i * m + q * 4 \<le> x \<and> x < ?i * m + q * 4 + 4 \<longleftrightarrow> x div m = ?i \<and> x mod m div 4 = q"
          using block_of_four [OF m] rq(2) by (simp add: M4_def)
        also have "\<dots> \<longleftrightarrow> mine x \<and> x div m div stride = r \<and> x mod m div 4 = q"
          using i row_of_core [OF stride(2), of "x div m" r] by (auto simp: mine_def)
        also have "\<dots> \<longleftrightarrow> mine x \<and> pos x = p"
          unfolding pos_def rq(3) using div_mod_position [OF xq, of "x div m div stride"] div_mod_position [OF rq(2), of r] by metis
        finally show ?thesis .
      qed
      have "cell x = fin (sf_C t x) (syrk_acc fma n (\<lambda>k. a (?i * n + k)) (\<lambda>k. aT ((q * 4 + (x - (?i * m + q * 4))) * n + k)))"
        if r: "?i * m + q * 4 \<le> x \<and> x < ?i * m + q * 4 + 4"
      proof -
        have d: "x div m = ?i" "x mod m div 4 = q" using r block_of_four [OF m, of q ?i x] rq(2) by (simp_all add: M4_def)
        have "x mod m = q * 4 + (x - (?i * m + q * 4))" using row_of(2) [OF m(1) d(1)] r by linarith
        moreover have "sf_C t x = sf_C s1 x" using t r unfolding blk by (simp add: I_def)
        ultimately show ?thesis unfolding cell_def d(1) by simp
      qed
      then show ?thesis using t blk unfolding t'(4) row_loop by (auto simp: I_def less_Suc_eq)
    qed
    then show "\<exists>t'. body p t = Some t' \<and> I (Suc p) t'" using t' t by (auto simp: I_def)
  qed
  then obtain s2 where s2: "for_opt (R * M4) body s1 = Some s2" "I (R * M4) s2" by blast
  have "for_step co stride m (\<lambda>i so. so \<bind> (\<lambda>s. for_step 0 4 m (\<lambda>j so. so \<bind> rows_block fma mA mT fin m (of_nat n) i j) (Some s))) (Some s1)
      = for_opt R (\<lambda>r s. for_opt M4 (\<lambda>q. rows_block fma mA mT fin m (of_nat n) (co + r * stride) (0 + q * 4)) s) s1"
    using stride m by (simp only: for_step_opt_dvd [OF _ stride(1,2)] for_step_opt_dvd [OF _ m(2)] R_def M4_def)
  also have "\<dots> = for_opt R (\<lambda>r s. for_opt M4 (\<lambda>q. body (r * M4 + q)) s) s1"
  proof (intro for_opt_cong)
    fix r q t assume "q < M4"
    from div_mod_position [OF this, of r] show "rows_block fma mA mT fin m (of_nat n) (co + r * stride) (0 + q * 4) t = body (r * M4 + q) t"
      by (simp add: body_def)
  qed
  also have "\<dots> = for_opt (R * M4) body s1" by (rule for_opt_nest)
  also note s2(1)
  finally have run: "for_step co stride m (\<lambda>i so. so \<bind> (\<lambda>s. for_step 0 4 m (\<lambda>j so. so \<bind> rows_block fma mA mT fin m (of_nat n) i j) (Some s))) (Some s1) = Some s2" .
  have "pos x < R * M4" if "mine x" for x
  proof -
    have "x div m div stride < R" using that RS by (simp add: mine_def less_mult_imp_div_less)
    then have "Suc (x div m div stride) * M4 \<le> R * M4" by (intro mult_le_mono1) simp
    moreover have "x mod m div 4 < M4" using m(1) M4 by (simp add: less_mult_imp_div_less)
    ultimately show ?thesis by (simp add: pos_def)
  qed
  then show ?thesis using s2(2) run by (auto simp: I_def mine_def cell_def)
qed

text \<open>The bounds of the streams as numbers.\<close>

lemma rows_bounds:
  fixes m n stride :: nat
  assumes m: "0 < m" "4 dvd m" and n: "0 < n" and stride: "stride dvd m" and sp: "m * n < 2 ^ 32" "m < 2 ^ 32"
  shows "unat (of_nat n :: u32) = n" and "unat ((of_nat m :: u32) div 4) = m div 4" and "unat ((of_nat m :: u32) div of_nat stride) = m div stride"
    and "(of_nat n :: u32) \<noteq> 0" and "(of_nat m :: u32) div 4 \<noteq> 0" and "(of_nat m :: u32) div of_nat stride \<noteq> 0"
proof -
  have "n \<le> m * n" using m(1) by simp
  then have "n < 2 ^ 32" using sp(1) by (rule le_less_trans)
  then show un: "unat (of_nat n :: u32) = n" by (intro unat_of_nat_small) simp
  have stm: "stride \<le> m" "0 < stride" using stride m by (auto simp: dvd_imp_le intro: Nat.gr0I)
  have d4: "(of_nat m :: u32) div 4 = of_nat (m div 4)" "(of_nat m :: u32) div of_nat stride = of_nat (m div stride)"
    using of_nat_word_div [where 'a = 32, of m 4] of_nat_word_div [where 'a = 32, of m stride] sp(2) stm by simp_all
  have "m div 4 < 2 ^ 32" "m div stride < 2 ^ 32" using sp(2) by (simp_all only: le_less_trans [OF div_le_dividend])
  then have u4: "unat (of_nat (m div 4) :: u32) = m div 4" "unat (of_nat (m div stride) :: u32) = m div stride"
    by (intro unat_of_nat_small; simp)+
  then show "unat ((of_nat m :: u32) div 4) = m div 4" "unat ((of_nat m :: u32) div of_nat stride) = m div stride" unfolding d4 by simp_all
  have "0 < m div 4" "0 < m div stride" using m stm by (auto simp: div_greater_zero_iff dvd_imp_le)
  then show "(of_nat n :: u32) \<noteq> 0" "(of_nat m :: u32) div 4 \<noteq> 0" "(of_nat m :: u32) div of_nat stride \<noteq> 0"
    unfolding d4 using un u4 n by (metis unat_0 less_irrefl)+
qed

lemma row_bound:
  fixes i k m n :: nat
  assumes "i < m" and "k < n"
  shows "i * n + k < m * n"
proof -
  have "i * n + k < Suc i * n" using assms(2) by simp
  also have "\<dots> \<le> m * n" using assms(1) by (intro mult_le_mono1) simp
  finally show ?thesis .
qed

lemma core_row:
  fixes co r m stride :: nat
  assumes "stride dvd m" and "co < stride" and "r < m div stride"
  shows "co + r * stride < m"
proof -
  have "Suc r * stride \<le> m div stride * stride" using assms(3) by (intro mult_le_mono1) simp
  then show ?thesis using assms(1,2) by simp
qed

lemma syrk_opt_at:
  fixes m n stride co :: nat and a aT :: "nat \<Rightarrow> 'a::{times,zero}"
  assumes m: "0 < m" "4 dvd m" and n: "0 < n" and stride: "stride dvd m" "co < stride" and sp: "8 * (m * n) \<le> 2 ^ 32" "m < 2 ^ 32"
    and cfg: "if setup_ssr then sf_regs s 1 SSR_REG_REPEAT = 0 else syrk_configured (of_nat stride) (of_nat m) (of_nat n) (sf_regs s)"
  shows "\<exists>s'. syrk_opt fma (\<lambda>p. a (unat p div 8)) (\<lambda>p. aT (unat p div 8)) setup_ssr stride co m n alpha 0 0 beta s = Some s'
    \<and> syrk_configured (of_nat stride) (of_nat m) (of_nat n) (sf_regs s')
    \<and> (\<forall>x. sf_C s' x = (if x div m < m \<and> x div m mod stride = co
        then syrk_cell_opt fma n alpha beta (\<lambda>k. a (x div m * n + k)) (\<lambda>k. aT (x mod m * n + k)) (sf_C s x) else sf_C s x))"
proof -
  let ?mA = "\<lambda>p :: u32. a (unat p div 8)" and ?mT = "\<lambda>p :: u32. aT (unat p div 8)"
  define s1 where "s1 = syrk_opt_start setup_ssr (of_nat stride) (of_nat co) (of_nat m) (of_nat n) 0 0 s"
  have mn: "m * n < 2 ^ 32" using sp(1) by simp
  note B = rows_bounds [OF m n stride(1) mn sp(2)]
  note F = syrk_start_facts [OF s1_def cfg] and ST = syrk_streams [OF s1_def cfg B(4-6), unfolded B(1-3)]
  obtain P0 f0 where P0: "P0 0 (sf_gen s1 0)" "emits P0 (m div stride * (m div 4) * n) f0"
    "\<And>r q k. r < m div stride \<Longrightarrow> q < m div 4 \<Longrightarrow> k < n \<Longrightarrow> f0 ((r * (m div 4) + q) * n + k) = of_nat (8 * ((co + r * stride) * n + k))"
    using ST(1) by (auto simp: algebra_simps)
  obtain P1 f1 where P1: "P1 0 (sf_gen s1 1)" "emits P1 (4 * (m div stride * (m div 4) * n)) f1"
    "\<And>r q k j0. r < m div stride \<Longrightarrow> q < m div 4 \<Longrightarrow> k < n \<Longrightarrow> j0 < 4 \<Longrightarrow> f1 (4 * ((r * (m div 4) + q) * n + k) + j0) = of_nat (8 * ((q * 4 + j0) * n + k))"
    using ST(2) by (auto simp: algebra_simps)
  have u: "?mA (f0 ((r * (m div 4) + q) * n + k)) = a ((co + r * stride) * n + k)" if "r < m div stride" "q < m div 4" "k < n" for r q k
    unfolding P0(3) [OF that] using elem_addr [OF row_bound [OF core_row [OF stride that(1)] that(3)] sp(1) refl] by simp
  have v: "?mT (f1 (4 * ((r * (m div 4) + q) * n + k) + j0)) = aT ((q * 4 + j0) * n + k)"
    if "r < m div stride" "q < m div 4" "k < n" "j0 < 4" for r q k j0
  proof -
    have "q * 4 + j0 < m" using that(2,4) m(2) by linarith
    from elem_addr [OF row_bound [OF this that(3)] sp(1) refl] show ?thesis unfolding P1(3) [OF that] by simp
  qed
  obtain s2 where s2: "for_step co stride m (\<lambda>i so. so \<bind> (\<lambda>s. for_step 0 4 m (\<lambda>j so. so \<bind> syrk_opt_block fma ?mA ?mT m (of_nat n) alpha beta i j) (Some s))) (Some s1) = Some s2"
    "sf_regs s2 = sf_regs s1"
    "\<And>x. sf_C s2 x = (if x div m < m \<and> x div m mod stride = co
      then fma (sf_C s1 x) beta (syrk_acc fma n (\<lambda>k. a (x div m * n + k)) (\<lambda>k. aT (x mod m * n + k)) * alpha) else sf_C s1 x)"
    using rows_at [where fma = fma and mA = ?mA and mT = ?mT and a = a and aT = aT and fin = "\<lambda>c acc. fma c beta (acc * alpha)",
        OF m n stride mn F(2,4,5) syrk_regs(1,2) [OF F(1)] P0(1,2) u P1(1,2) v]
    by (auto simp: syrk_block_rows)
  then show ?thesis using F(1,3) by (simp add: syrk_opt_def s1_def [symmetric] syrk_cell_opt_def)
qed

text \<open>All cores; each is either at its first call or has kept the configuration for these sizes.\<close>

definition syrk_cores_ok :: "nat \<Rightarrow> nat \<Rightarrow> nat \<Rightarrow> (nat \<Rightarrow> ssr_regs \<times> bool) \<Rightarrow> bool" where
  "syrk_cores_ok core_num m n k \<longleftrightarrow> (\<forall>co < core_num.
     if snd (k co) then fst (k co) 1 SSR_REG_REPEAT = 0 else syrk_configured (of_nat core_num) (of_nat m) (of_nat n) (fst (k co)))"

lemma syrk_opt_cores_at:
  fixes m n core_num :: nat and a aT :: "nat \<Rightarrow> 'a::{times,zero}"
  assumes m: "0 < m" "4 dvd m" and n: "0 < n" and cn: "0 < core_num" "core_num dvd m" and sp: "8 * (m * n) \<le> 2 ^ 32" "m < 2 ^ 32"
    and ok: "syrk_cores_ok core_num m n k"
  shows "\<exists>c' k'. syrk_opt_cores fma core_num m n alpha a aT beta c k = Some (c', k') \<and> syrk_cores_ok core_num m n k'
    \<and> (\<forall>x. c' x = (if x < m * m then syrk_cell_opt fma n alpha beta (\<lambda>k. a (x div m * n + k)) (\<lambda>k. aT (x mod m * n + k)) (c x) else c x))"
proof -
  define cell where "cell x = syrk_cell_opt fma n alpha beta (\<lambda>k. a (x div m * n + k)) (\<lambda>k. aT (x mod m * n + k)) (c x)" for x
  define I where "I co = (\<lambda>(c', k'). syrk_cores_ok core_num m n k'
    \<and> (\<forall>x. c' x = (if x div m < m \<and> x div m mod core_num < co then cell x else c x)))" for co
  have "\<exists>s'. syrk_opt_cores fma core_num m n alpha a aT beta c k = Some s' \<and> I core_num s'"
    unfolding syrk_opt_cores_def
  proof (rule for_opt_invariant)
    show "I 0 (c, k)" using ok by (simp add: I_def)
    fix co ck assume co: "co < core_num" and ck: "I co ck"
    obtain c1 k1 where e: "ck = (c1, k1)" by fastforce
    obtain r su where k1: "k1 co = (r, su)" by fastforce
    have "if su then sf_regs (opt_state r (\<lambda>_. 0) c1) 1 SSR_REG_REPEAT = 0
        else syrk_configured (of_nat core_num) (of_nat m) (of_nat n) (sf_regs (opt_state r (\<lambda>_. 0) c1))"
      using ck co k1 by (auto simp: e I_def syrk_cores_ok_def opt_state_def)
    from syrk_opt_at [OF m n cn(2) co sp this, of fma a aT alpha beta]
    obtain s' where s': "syrk_opt fma (\<lambda>p. a (unat p div 8)) (\<lambda>p. aT (unat p div 8)) su core_num co m n alpha 0 0 beta (opt_state r (\<lambda>_. 0) c1) = Some s'"
      "syrk_configured (of_nat core_num) (of_nat m) (of_nat n) (sf_regs s')"
      "\<And>x. sf_C s' x = (if x div m < m \<and> x div m mod core_num = co
          then syrk_cell_opt fma n alpha beta (\<lambda>k. a (x div m * n + k)) (\<lambda>k. aT (x mod m * n + k)) (c1 x) else c1 x)"
      by (auto simp: opt_state_def)
    have "syrk_opt_core fma core_num m n alpha a aT beta co ck = Some (sf_C s', k1(co := (sf_regs s', False)))"
      by (simp add: syrk_opt_core_def e k1 s'(1))
    moreover have "I (Suc co) (sf_C s', k1(co := (sf_regs s', False)))"
      using ck s'(2) by (auto simp: I_def e syrk_cores_ok_def s'(3) cell_def less_Suc_eq)
    ultimately show "\<exists>s'. syrk_opt_core fma core_num m n alpha a aT beta co ck = Some s' \<and> I (Suc co) s'" by blast
  qed
  then show ?thesis using m(1) cn(1) by (auto simp: I_def cell_def div_less_iff_less_mult)
qed

subsection \<open>The job\<close>

datatype syrk_fp = Syrk_naive | Syrk_baseline | Syrk_opt

text \<open>The call behind the function pointer on a tile, on all compute cores.\<close>

definition syrk_kernel :: "('a::{times,zero,plus} \<Rightarrow> 'a \<Rightarrow> 'a \<Rightarrow> 'a) \<Rightarrow> nat \<Rightarrow> syrk_fp \<Rightarrow> nat \<Rightarrow> nat \<Rightarrow> 'a \<Rightarrow> 'a \<Rightarrow> (nat \<Rightarrow> 'a) \<Rightarrow> (nat \<Rightarrow> 'a) \<Rightarrow> (nat \<Rightarrow> 'a)
    \<Rightarrow> (nat \<Rightarrow> ssr_regs \<times> bool) \<Rightarrow> (nat \<Rightarrow> 'a) \<times> (nat \<Rightarrow> 'a) \<times> (nat \<Rightarrow> 'a) \<times> (nat \<Rightarrow> ssr_regs \<times> bool)" where
  "syrk_kernel fma core_num funcptr m n alpha beta a aT c k =
     (case funcptr of
        Syrk_naive \<Rightarrow> (a, aT, fold (\<lambda>co. syrk_naive core_num co m n alpha a aT beta) [0..<core_num] c, k)
      | Syrk_baseline \<Rightarrow> (a, aT, fold (\<lambda>co. syrk_baseline fma core_num co m n alpha a aT beta) [0..<core_num] c, k)
      | Syrk_opt \<Rightarrow> (case syrk_opt_cores fma core_num m n alpha a aT beta c k of Some (c, k) \<Rightarrow> (a, aT, c, k) | None \<Rightarrow> (a, aT, c, k)))"


text \<open>What the kernel needs of a tile: its unrolled loops fit, and the cores divide its rows.\<close>

definition syrk_fits :: "nat \<Rightarrow> syrk_fp \<Rightarrow> nat \<Rightarrow> nat \<Rightarrow> bool" where
  "syrk_fits core_num funcptr m n \<longleftrightarrow> (case funcptr of
     Syrk_naive \<Rightarrow> True
   | Syrk_baseline \<Rightarrow> 4 dvd m \<and> 4 dvd n
   | Syrk_opt \<Rightarrow> 4 dvd m \<and> core_num dvd m \<and> 0 < n \<and> 8 * (m * n) \<le> 2 ^ 32 \<and> m < 2 ^ 32)"

definition syrk_elem :: "('a::{times,zero,plus} \<Rightarrow> 'a \<Rightarrow> 'a \<Rightarrow> 'a) \<Rightarrow> syrk_fp \<Rightarrow> nat \<Rightarrow> 'a \<Rightarrow> 'a \<Rightarrow> (nat \<Rightarrow> 'a) \<Rightarrow> (nat \<Rightarrow> 'a) \<Rightarrow> 'a \<Rightarrow> 'a" where
  "syrk_elem fma funcptr n alpha beta u v x = (case funcptr of
     Syrk_naive \<Rightarrow> syrk_cell (\<lambda>x y z. z + x * y) n alpha beta u v x
   | Syrk_baseline \<Rightarrow> syrk_cell fma n alpha beta u v x
   | Syrk_opt \<Rightarrow> syrk_cell_opt fma n alpha beta u v x)"

lemma upt_cores: "set [0..<n] = {..<n}"
  by (simp only: set_upt lessThan_atLeast0)

lemma tile_elem:
  fixes r c h :: nat
  assumes "r < h" and "c < h"
  shows "r * h + c < h * h" and "(r * h + c) div h = r" and "(r * h + c) mod h = c"
proof -
  have "Suc r * h \<le> h * h" using assms(1) by (intro mult_le_mono1) simp
  then show "r * h + c < h * h" using assms(2) by simp
  show "(r * h + c) div h = r" "(r * h + c) mod h = c" using div_mod_position [OF assms(2)] by simp_all
qed

lemma syrk_pair_kernel:
  assumes cn: "0 < core_num" and fits: "syrk_fits core_num funcptr (m div m_tiles) n"
  shows "pair_kernel (syrk_kernel fma core_num funcptr (m div m_tiles) n alpha beta)
    (\<lambda>k. funcptr = Syrk_opt \<and> 0 < m div m_tiles \<longrightarrow> syrk_cores_ok core_num (m div m_tiles) n k)
    (syrk_elem fma funcptr n alpha beta) (funcptr = Syrk_opt \<or> beta \<noteq> 0) m n m_tiles"
proof
  let ?h = "m div m_tiles"
  let ?ok = "\<lambda>k. funcptr = Syrk_opt \<and> 0 < ?h \<longrightarrow> syrk_cores_ok core_num ?h n k"
  have naive: "fold (\<lambda>co. syrk_naive core_num co ?h n alpha la lat beta) [0..<core_num] lc x
      = (if x < ?h * ?h then syrk_cell (\<lambda>x y z. z + x * y) n alpha beta (\<lambda>k. la (x div ?h * n + k)) (\<lambda>k. lat (x mod ?h * n + k)) (lc x) else lc x)"
    if "0 < ?h" for la lat lc x
    by (rule syrk_naive_cores [OF distinct_upt upt_cores cn that])
  have baseline: "fold (\<lambda>co. syrk_baseline fma core_num co ?h n alpha la lat beta) [0..<core_num] lc x
      = (if x < ?h * ?h then syrk_cell fma n alpha beta (\<lambda>k. la (x div ?h * n + k)) (\<lambda>k. lat (x mod ?h * n + k)) (lc x) else lc x)"
    if "0 < ?h" "4 dvd ?h" "4 dvd n" for la lat lc x
    by (rule syrk_baseline_cores [OF distinct_upt upt_cores cn that])
  have opt: "\<exists>c' k'. syrk_opt_cores fma core_num ?h n alpha la lat beta lc k = Some (c', k') \<and> syrk_cores_ok core_num ?h n k'
      \<and> (\<forall>x. c' x = (if x < ?h * ?h then syrk_cell_opt fma n alpha beta (\<lambda>k. la (x div ?h * n + k)) (\<lambda>k. lat (x mod ?h * n + k)) (lc x) else lc x))"
    if "funcptr = Syrk_opt" "0 < ?h" "?ok k" for la lat lc k
    by (rule syrk_opt_cores_at [OF that(2) _ _ cn]) (use fits that in \<open>simp_all add: syrk_fits_def\<close>)
  fix la lat lc k la' lat' lc' k'
  assume ok: "?ok k" and f: "syrk_kernel fma core_num funcptr ?h n alpha beta la lat lc k = (la', lat', lc', k')"
  show "?ok k'"
  proof
    assume a: "funcptr = Syrk_opt \<and> 0 < ?h"
    then show "syrk_cores_ok core_num ?h n k'" using opt [of k la lat lc] ok f by (auto simp: syrk_kernel_def)
  qed
  fix r c assume rc: "r < ?h" "c < ?h"
  note t = tile_elem [OF rc]
  have h: "0 < ?h" using rc(1) by linarith
  show "lc' (r * ?h + c) = syrk_elem fma funcptr n alpha beta (\<lambda>k. la (r * n + k)) (\<lambda>k. lat (c * n + k)) (lc (r * ?h + c))"
  proof (cases funcptr)
    case Syrk_naive
    then show ?thesis using f naive [OF h] t by (auto simp: syrk_kernel_def syrk_elem_def)
  next
    case Syrk_baseline
    then show ?thesis using f fits baseline [OF h] t by (auto simp: syrk_kernel_def syrk_elem_def syrk_fits_def)
  next
    case Syrk_opt
    then show ?thesis using opt [OF Syrk_opt h ok, of la lat lc] f t by (auto simp: syrk_kernel_def syrk_elem_def)
  qed
next
  fix u u' v v' :: "nat \<Rightarrow> 'a" and x
  assume "\<And>k. k < n \<Longrightarrow> u k = u' k" "\<And>k. k < n \<Longrightarrow> v k = v' k"
  then have "syrk_acc f n u v = syrk_acc f n u' v'" for f by (rule syrk_acc_cong)
  then show "syrk_elem fma funcptr n alpha beta u v x = syrk_elem fma funcptr n alpha beta u' v' x"
    by (simp add: syrk_elem_def syrk_cell_def syrk_cell_opt_def split: syrk_fp.split)
next
  fix u v :: "nat \<Rightarrow> 'a" and x y
  assume "\<not> (funcptr = Syrk_opt \<or> beta \<noteq> 0)"
  then show "syrk_elem fma funcptr n alpha beta u v x = syrk_elem fma funcptr n alpha beta u v y"
    by (cases funcptr) (simp_all add: syrk_elem_def syrk_cell_def multiply_opt_def)
qed

interpretation syrk_loops: pair_kernel "syrk_kernel fma (Suc co) Syrk_naive (m div m_tiles) n alpha beta"
  "\<lambda>k. Syrk_naive = Syrk_opt \<and> 0 < m div m_tiles \<longrightarrow> syrk_cores_ok (Suc co) (m div m_tiles) n k"
  "syrk_elem fma Syrk_naive n alpha beta" "Syrk_naive = Syrk_opt \<or> beta \<noteq> 0" m n m_tiles
  for fma co m n m_tiles alpha beta
  by (rule syrk_pair_kernel) (simp_all add: syrk_fits_def)

subsection \<open>The rank-k update\<close>





end
