(* ===== verification/Covariance.thy ===== *)
theory Covariance
  imports Syrk
begin

text \<open>
  The covariance matrix (\<open>sw/kernels/misc/covariance/src/covariance.h\<close>): the three kernels centre the rows of
  both operands in place, the cores meet at a barrier, and the rows are multiplied as in the symmetric
  rank-k update. The optimised kernel centres through two streams that read and one that writes; both
  operands are one memory there.
\<close>

subsection \<open>The kernels on loops\<close>

definition covariance_center :: "nat \<Rightarrow> nat \<Rightarrow> nat \<Rightarrow> nat \<Rightarrow> 'a::{times,zero,plus,minus} \<Rightarrow> (nat \<Rightarrow> 'a) \<times> (nat \<Rightarrow> 'a) \<Rightarrow> (nat \<Rightarrow> 'a) \<times> (nat \<Rightarrow> 'a)" where
  "covariance_center core_num core_idx m n inv_n = for_step core_idx core_num m (\<lambda>i (data, datat).
     (let (data_mean, datat_mean) = for_upto 0 n (\<lambda>j (x, y). (x + data (i * n + j), y + datat (i * n + j))) (0, 0);
          data_mean = data_mean * inv_n;
          datat_mean = datat_mean * inv_n
      in for_upto 0 n (\<lambda>j (data, datat).
           (data(i * n + j := data (i * n + j) - data_mean), datat(i * n + j := datat (i * n + j) - datat_mean))) (data, datat)))"

text \<open>The barrier ends the first phase of every core.\<close>

definition covariance_centered :: "nat \<Rightarrow> nat \<Rightarrow> nat \<Rightarrow> 'a::{times,zero,plus,minus} \<Rightarrow> (nat \<Rightarrow> 'a) \<times> (nat \<Rightarrow> 'a) \<Rightarrow> (nat \<Rightarrow> 'a) \<times> (nat \<Rightarrow> 'a)" where
  "covariance_centered core_num m n inv_n = fold (\<lambda>co. covariance_center core_num co m n inv_n) [0..<core_num]"

definition covariance_naive :: "nat \<Rightarrow> nat \<Rightarrow> nat \<Rightarrow> 'a::{times,zero,plus,minus} \<Rightarrow> 'a \<Rightarrow> (nat \<Rightarrow> 'a) \<Rightarrow> (nat \<Rightarrow> 'a) \<Rightarrow> (nat \<Rightarrow> 'a)
    \<Rightarrow> (nat \<Rightarrow> 'a) \<times> (nat \<Rightarrow> 'a) \<times> (nat \<Rightarrow> 'a)" where
  "covariance_naive core_num m n inv_n inv_n_m1 data datat cov =
     (let (data, datat) = covariance_centered core_num m n inv_n (data, datat)
      in (data, datat, fold (\<lambda>co. syrk_naive core_num co m n inv_n_m1 data datat 0) [0..<core_num] cov))"

definition covariance_baseline :: "('a \<Rightarrow> 'a \<Rightarrow> 'a \<Rightarrow> 'a) \<Rightarrow> nat \<Rightarrow> nat \<Rightarrow> nat \<Rightarrow> 'a::{times,zero,plus,minus} \<Rightarrow> 'a \<Rightarrow> (nat \<Rightarrow> 'a) \<Rightarrow> (nat \<Rightarrow> 'a)
    \<Rightarrow> (nat \<Rightarrow> 'a) \<Rightarrow> (nat \<Rightarrow> 'a) \<times> (nat \<Rightarrow> 'a) \<times> (nat \<Rightarrow> 'a)" where
  "covariance_baseline fma core_num m n inv_n inv_n_m1 data datat cov =
     (let (data, datat) = covariance_centered core_num m n inv_n (data, datat)
      in (data, datat, fold (\<lambda>co. syrk_baseline fma core_num co m n inv_n_m1 data datat 0) [0..<core_num] cov))"

subsection \<open>The kernel on streams\<close>

text \<open>
  \<open>fadd.d m[i], ft, m[i]\<close> and \<open>fsub.d ft2, ft, m[i]\<close> with \<open>ft\<close> the stream \<open>dm\<close>; the streams read the
  memory that \<open>ft2\<close> writes.
\<close>

definition fadd_m :: "nat \<Rightarrow> nat \<Rightarrow> 'a::plus ssr_fp \<Rightarrow> 'a ssr_fp option" where
  "fadd_m i dm s = do { (x, s) \<leftarrow> stream_pop dm (\<lambda>p. sf_C s (unat p div 8)) s; Some (s\<lparr>sf_c := (sf_c s)(i := x + sf_c s i)\<rparr>) }"

definition fsub_ft2 :: "nat \<Rightarrow> nat \<Rightarrow> 'a::minus ssr_fp \<Rightarrow> 'a ssr_fp option" where
  "fsub_ft2 i dm s = do { (x, s) \<leftarrow> stream_pop dm (\<lambda>p. sf_C s (unat p div 8)) s; stream_push 2 (x - sf_c s i) s }"

definition center_setup :: "u32 \<Rightarrow> u32 \<Rightarrow> u32 \<Rightarrow> u32 \<Rightarrow> u32 \<Rightarrow> ssr_regs \<Rightarrow> ssr_regs" where
  "center_setup stride m n data datat r =
     (let unroll0 = 2;
          r = snrt_ssr_loop_4d True 0 unroll0 n 2 (m div (stride * unroll0)) (8 * n * stride) 8 0 (8 * n * stride * unroll0) r;
          r = snrt_ssr_loop_4d True 1 unroll0 n 2 (m div (stride * unroll0)) (8 * n * stride) 8 0 (8 * n * stride * unroll0) r;
          r = snrt_ssr_repeat True 0 1 r
      in snrt_ssr_loop_4d True 2 2 unroll0 n (m div (stride * unroll0)) (datat - data) (8 * n * stride) 8 (8 * n * stride * unroll0) r)"

definition center_start :: "u32 \<Rightarrow> u32 \<Rightarrow> u32 \<Rightarrow> u32 \<Rightarrow> u32 \<Rightarrow> u32 \<Rightarrow> 'a ssr_fp \<Rightarrow> 'a ssr_fp" where
  "center_start stride offset m n data datat s =
     (let s = s\<lparr>sf_regs := center_setup stride m n data datat (sf_regs s)\<rparr>;
          s = stream_read 0 SNRT_SSR_4D (data + 8 * (offset * n)) s;
          s = stream_read 1 SNRT_SSR_4D (datat + 8 * (offset * n)) s;
          s = stream_write 2 SNRT_SSR_4D (data + 8 * (offset * n)) s
      in s\<lparr>sf_on := True\<rparr>)"

text \<open>Two rows of each operand: the means of \<open>data[i]\<close>, \<open>datat[i]\<close>, \<open>data[i + stride]\<close>, \<open>datat[i + stride]\<close>.\<close>

definition center_block :: "u32 \<Rightarrow> 'a::{times,zero,plus,minus} \<Rightarrow> 'a ssr_fp \<Rightarrow> 'a ssr_fp option" where
  "center_block n inv_n s = do {
     s \<leftarrow> frep (n - 1) (for_opt 4 (\<lambda>i. fadd_m i (i mod 2))) (s\<lparr>sf_c := \<lambda>_. 0\<rparr>);
     frep (n - 1) (for_opt 4 (\<lambda>i. fsub_ft2 i (i mod 2))) (s\<lparr>sf_c := \<lambda>i. sf_c s i * inv_n\<rparr>) }"

definition center_opt :: "nat \<Rightarrow> nat \<Rightarrow> nat \<Rightarrow> nat \<Rightarrow> 'a::{times,zero,plus,minus} \<Rightarrow> u32 \<Rightarrow> u32 \<Rightarrow> 'a ssr_fp \<Rightarrow> 'a ssr_fp option" where
  "center_opt core_num core_idx m n inv_n data datat s =
     (let offset = core_idx; stride = core_num; unroll0 = 2
      in do {
        s \<leftarrow> for_step offset (stride * unroll0) m (\<lambda>i so. do { s \<leftarrow> so; center_block (of_nat n) inv_n s })
               (Some (center_start (of_nat stride) (of_nat offset) (of_nat m) (of_nat n) data datat s));
        Some (s\<lparr>sf_on := False\<rparr>) })"

text \<open>After the barrier the streams are configured as in \<open>syrk_opt\<close>, with three loops for \<open>ft0\<close>.\<close>

definition product_start :: "u32 \<Rightarrow> u32 \<Rightarrow> u32 \<Rightarrow> u32 \<Rightarrow> u32 \<Rightarrow> u32 \<Rightarrow> 'a ssr_fp \<Rightarrow> 'a ssr_fp" where
  "product_start stride offset m n data datat s =
     (let s = s\<lparr>sf_regs := syrk_opt_setup stride m n (sf_regs s)\<rparr>;
          s = stream_read 0 SNRT_SSR_3D (data + 8 * (offset * n)) s;
          s = stream_read 1 SNRT_SSR_4D datat s
      in s\<lparr>sf_on := True\<rparr>)"

definition product_block :: "('a::{times,zero} \<Rightarrow> 'a \<Rightarrow> 'a \<Rightarrow> 'a) \<Rightarrow> (u32 \<Rightarrow> 'a) \<Rightarrow> nat \<Rightarrow> u32 \<Rightarrow> 'a \<Rightarrow> nat \<Rightarrow> nat \<Rightarrow> 'a ssr_fp \<Rightarrow> 'a ssr_fp option" where
  "product_block fma mem m n alpha i j s = do {
     let cov = sf_C s;
     s \<leftarrow> frep (n - 1) (for_opt 4 (fmadd_c fma mem mem)) (s\<lparr>sf_c := \<lambda>_. 0\<rparr>);
     let b = (\<lambda>j0. sf_c s j0 * alpha);
     Some (s\<lparr>sf_C := for_upto 0 4 (\<lambda>j0 cov. cov(i * m + j + j0 := b j0)) cov\<rparr>) }"

definition product_opt :: "('a::{times,zero} \<Rightarrow> 'a \<Rightarrow> 'a \<Rightarrow> 'a) \<Rightarrow> (u32 \<Rightarrow> 'a) \<Rightarrow> nat \<Rightarrow> nat \<Rightarrow> nat \<Rightarrow> nat \<Rightarrow> 'a \<Rightarrow> u32 \<Rightarrow> u32
    \<Rightarrow> 'a ssr_fp \<Rightarrow> 'a ssr_fp option" where
  "product_opt fma mem core_num core_idx m n alpha data datat s =
     (let offset = core_idx; stride = core_num; unroll1 = 4
      in do {
        s \<leftarrow> for_step offset stride m (\<lambda>i so. do { s \<leftarrow> so;
               for_step 0 unroll1 m (\<lambda>j so. do { s \<leftarrow> so; product_block fma mem m (of_nat n) alpha i j s }) (Some s) })
             (Some (product_start (of_nat stride) (of_nat offset) (of_nat m) (of_nat n) data datat s));
        Some (s\<lparr>sf_on := False\<rparr>) })"

text \<open>
  The compute cores of a cluster: \<open>mem\<close> holds \<open>data\<close> at address 0 and, as \<open>covariance_job\<close> allocates them,
  \<open>datat\<close> right behind it.
\<close>

definition center_core :: "nat \<Rightarrow> nat \<Rightarrow> nat \<Rightarrow> 'a::{times,zero,plus,minus} \<Rightarrow> nat \<Rightarrow> (nat \<Rightarrow> 'a) \<times> (nat \<Rightarrow> ssr_regs) \<Rightarrow> ((nat \<Rightarrow> 'a) \<times> (nat \<Rightarrow> ssr_regs)) option" where
  "center_core core_num m n inv_n core_idx = (\<lambda>(mem, k). do {
     s \<leftarrow> center_opt core_num core_idx m n inv_n 0 (of_nat (8 * (m * n))) (opt_state (k core_idx) (\<lambda>_. 0) mem);
     Some (sf_C s, k(core_idx := sf_regs s)) })"

definition product_core :: "('a::{times,zero} \<Rightarrow> 'a \<Rightarrow> 'a \<Rightarrow> 'a) \<Rightarrow> (nat \<Rightarrow> 'a) \<Rightarrow> nat \<Rightarrow> nat \<Rightarrow> nat \<Rightarrow> 'a \<Rightarrow> nat
    \<Rightarrow> (nat \<Rightarrow> 'a) \<times> (nat \<Rightarrow> ssr_regs) \<Rightarrow> ((nat \<Rightarrow> 'a) \<times> (nat \<Rightarrow> ssr_regs)) option" where
  "product_core fma mem core_num m n alpha core_idx = (\<lambda>(cov, k). do {
     s \<leftarrow> product_opt fma (\<lambda>p. mem (unat p div 8)) core_num core_idx m n alpha 0 (of_nat (8 * (m * n))) (opt_state (k core_idx) (\<lambda>_. 0) cov);
     Some (sf_C s, k(core_idx := sf_regs s)) })"

definition covariance_opt :: "('a::{times,zero,plus,minus} \<Rightarrow> 'a \<Rightarrow> 'a \<Rightarrow> 'a) \<Rightarrow> nat \<Rightarrow> nat \<Rightarrow> nat \<Rightarrow> 'a \<Rightarrow> 'a \<Rightarrow> (nat \<Rightarrow> 'a) \<Rightarrow> (nat \<Rightarrow> 'a) \<Rightarrow> (nat \<Rightarrow> 'a)
    \<Rightarrow> (nat \<Rightarrow> ssr_regs) \<Rightarrow> ((nat \<Rightarrow> 'a) \<times> (nat \<Rightarrow> 'a) \<times> (nat \<Rightarrow> 'a) \<times> (nat \<Rightarrow> ssr_regs)) option" where
  "covariance_opt fma core_num m n inv_n inv_n_m1 data datat cov k = do {
     let D = m * n;
     (mem, k) \<leftarrow> for_opt core_num (center_core core_num m n inv_n) (\<lambda>x. if x < D then data x else datat (x - D), k);
     (cov, k) \<leftarrow> for_opt core_num (product_core fma mem core_num m n inv_n_m1) (cov, k);
     Some (\<lambda>x. if x < D then mem x else data x, \<lambda>x. mem (D + x), cov, k) }"

subsection \<open>Rows centred on loops\<close>

text \<open>An element of a row less the mean of the row.\<close>

definition centered :: "nat \<Rightarrow> 'a::{times,zero,plus,minus} \<Rightarrow> (nat \<Rightarrow> 'a) \<Rightarrow> nat \<Rightarrow> 'a" where
  "centered n inv_n u k = u k - for_upto 0 n (\<lambda>j acc. acc + u j) 0 * inv_n"

lemma for_upto_pair:
  "for_upto lo hi (\<lambda>j (x, y). (f j x, g j y)) (x, y) = (for_upto lo hi f x, for_upto lo hi g y)"
proof (induction hi)
  case (Suc hi)
  then show ?case by (cases "lo \<le> hi") (simp_all add: for_upto_Suc for_upto_empty)
qed (simp add: for_upto_empty)

lemma for_step_pair:
  assumes "\<And>i x y. h i (x, y) = (f i x, g i y)" and "0 < st"
  shows "for_step lo st hi h (x, y) = (for_step lo st hi f x, for_step lo st hi g y)"
proof (induction "hi - lo" arbitrary: lo x y rule: less_induct)
  case less
  then show ?case using assms
    by (cases "lo < hi") (simp_all add: for_step.simps [of lo _ _ h] for_step.simps [of lo _ _ f] for_step.simps [of lo _ _ g])
qed

definition center_row :: "nat \<Rightarrow> 'a::{times,zero,plus,minus} \<Rightarrow> nat \<Rightarrow> (nat \<Rightarrow> 'a) \<Rightarrow> (nat \<Rightarrow> 'a)" where
  "center_row n inv_n i d = for_upto 0 n (\<lambda>j e. e(i * n + j := e (i * n + j) - for_upto 0 n (\<lambda>j acc. acc + d (i * n + j)) 0 * inv_n)) d"

lemma center_row_at:
  assumes "0 < n"
  shows "center_row n inv_n i d x = (if x div n = i then centered n inv_n (\<lambda>k. d (x div n * n + k)) (x mod n) else d x)"
  using row_of(1) [OF assms, of i x] row_of(2) [OF assms, of x i]
  unfolding center_row_def row_update [where g = "\<lambda>_ y. y - for_upto 0 n (\<lambda>j acc. acc + d (i * n + j)) 0 * inv_n"]
  by (auto simp: centered_def)

lemma covariance_center_rows:
  assumes "0 < core_num"
  shows "covariance_center core_num co m n inv_n (data, datat)
    = (for_step co core_num m (center_row n inv_n) data, for_step co core_num m (center_row n inv_n) datat)"
  unfolding covariance_center_def
  by (rule for_step_pair) (simp_all add: for_upto_pair center_row_def assms)

lemma covariance_centered_at:
  assumes "0 < core_num" and "0 < n" and e: "covariance_centered core_num m n inv_n (data, datat) = (data', datat')"
  shows "data' x = (if x < m * n then centered n inv_n (\<lambda>k. data (x div n * n + k)) (x mod n) else data x)"
    and "datat' x = (if x < m * n then centered n inv_n (\<lambda>k. datat (x div n * n + k)) (x mod n) else datat x)"
proof -
  have "fold (\<lambda>co. covariance_center core_num co m n inv_n) cs (data, datat)
      = (strided_cores core_num cs m (center_row n inv_n) data, strided_cores core_num cs m (center_row n inv_n) datat)" for cs
    by (induction cs arbitrary: data datat) (simp_all add: strided_cores_def covariance_center_rows [OF assms(1)])
  then have d: "data' = strided_cores core_num [0..<core_num] m (center_row n inv_n) data"
    "datat' = strided_cores core_num [0..<core_num] m (center_row n inv_n) datat"
    using e by (simp_all add: covariance_centered_def)
  have "strided_cores core_num [0..<core_num] m (center_row n inv_n) z x
      = (if True \<and> x div n < m then centered n inv_n (\<lambda>k. z (x div n * n + k)) (x mod n) else z x)" for z
  proof (rule strided_cores_own [where own = "\<lambda>x. x div n" and g = "\<lambda>x z. centered n inv_n (\<lambda>k. z (x div n * n + k)) (x mod n)", OF distinct_upt upt_cores assms(1)])
    show "center_row n inv_n i z x = (if True \<and> x div n = i then centered n inv_n (\<lambda>k. z (x div n * n + k)) (x mod n) else z x)" for i z x
      by (simp add: center_row_at [OF assms(2)])
    fix x and z z' :: "nat \<Rightarrow> 'a" assume eq: "\<And>y. y div n = x div n \<Longrightarrow> z y = z' y"
    have "z (x div n * n + k) = z' (x div n * n + k)" if "k < n" for k using that by (intro eq) (simp add: div_mod_position)
    moreover from this have "for_upto 0 n (\<lambda>j acc. acc + z (x div n * n + j)) 0 = for_upto 0 n (\<lambda>j acc. acc + z' (x div n * n + j)) 0"
      by (intro fun_cong [OF for_upto_cong]) simp
    ultimately show "centered n inv_n (\<lambda>k. z (x div n * n + k)) (x mod n) = centered n inv_n (\<lambda>k. z' (x div n * n + k)) (x mod n)"
      using eq [of x] by (simp add: centered_def)
  qed
  then show "data' x = (if x < m * n then centered n inv_n (\<lambda>k. data (x div n * n + k)) (x mod n) else data x)"
    "datat' x = (if x < m * n then centered n inv_n (\<lambda>k. datat (x div n * n + k)) (x mod n) else datat x)"
    unfolding d using assms(2) by (simp_all add: div_less_iff_less_mult)
qed

subsection \<open>The streams of the centring phase\<close>

text \<open>Four instructions that read the streams in turn.\<close>

lemma four_instructions: "for_opt 4 g s = do { s \<leftarrow> g 0 s; s \<leftarrow> g 1 s; s \<leftarrow> g 2 s; g 3 s }"
  by (simp add: eval_nat_numeral Option.bind_assoc)

lemma in_turn: "for_opt 4 (\<lambda>i. f i (i mod 2)) s = do { s \<leftarrow> f 0 0 s; s \<leftarrow> f 1 1 s; s \<leftarrow> f 2 0 s; f 3 (1 :: nat) s }"
  unfolding four_instructions by simp

lemma center_sum_group:
  assumes at: "streams_at 1 P0 P1 P2 t w s" and e: "emits P0 T f0" "emits P1 T f1" and t: "t + 2 \<le> T"
  shows "\<exists>s'. for_opt 4 (\<lambda>i. fadd_m i (i mod 2)) s = Some s' \<and> streams_at 1 P0 P1 P2 (t + 2) w s' \<and> sf_C s' = sf_C s \<and> sf_regs s' = sf_regs s
    \<and> (\<forall>i < 4. sf_c s' i = sf_C s (unat ((if i mod 2 = 0 then f0 else f1) (t + i div 2)) div 8) + sf_c s i)"
proof -
  have P: "P0 t (sf_gen s 0)" "P1 t (sf_gen s 1)" using at by (simp_all add: streams_at_def)
  have lt: "t < T" "Suc t < T" using t by simp_all
  note A0 = emitsD [OF e(1) lt(1) P(1)] and B0 = emitsD [OF e(2) lt(1) P(2)]
  note A1 = emitsD [OF e(1) lt(2) A0(3)] and B1 = emitsD [OF e(2) lt(2) B0(3)]
  show ?thesis unfolding in_turn lt_4_all using at A0 A1 B0 B1
    by (simp add: fadd_m_def stream_pop_def Let_def streams_at_def)
qed

lemma center_sum_at:
  assumes at: "streams_at 1 P0 P1 P2 t w s" and e: "emits P0 T f0" "emits P1 T f1" and t: "t + 2 * n \<le> T"
  shows "\<exists>s'. for_opt n (\<lambda>_. for_opt 4 (\<lambda>i. fadd_m i (i mod 2))) s = Some s' \<and> streams_at 1 P0 P1 P2 (t + 2 * n) w s' \<and> sf_C s' = sf_C s
    \<and> sf_regs s' = sf_regs s
    \<and> (\<forall>i < 4. sf_c s' i = for_upto 0 n (\<lambda>j acc. sf_C s (unat ((if i mod 2 = 0 then f0 else f1) (t + 2 * j + i div 2)) div 8) + acc) (sf_c s i))"
proof -
  define I where "I n u \<longleftrightarrow> streams_at 1 P0 P1 P2 (t + 2 * n) w u \<and> sf_C u = sf_C s \<and> sf_regs u = sf_regs s
    \<and> (\<forall>i < 4. sf_c u i = for_upto 0 n (\<lambda>j acc. sf_C s (unat ((if i mod 2 = 0 then f0 else f1) (t + 2 * j + i div 2)) div 8) + acc) (sf_c s i))" for n u
  have "\<exists>s'. for_opt n (\<lambda>_. for_opt 4 (\<lambda>i. fadd_m i (i mod 2))) s = Some s' \<and> I n s'"
  proof (rule for_opt_invariant)
    show "I 0 s" using at by (simp add: I_def)
    fix j u assume j: "j < n" and u: "I j u"
    have "streams_at 1 P0 P1 P2 (t + 2 * j) w u" "t + 2 * j + 2 \<le> T" using u j t by (simp_all add: I_def)
    from center_sum_group [OF this(1) e this(2)] obtain u' where "for_opt 4 (\<lambda>i. fadd_m i (i mod 2)) u = Some u'"
      "streams_at 1 P0 P1 P2 (t + 2 * j + 2) w u'" "sf_C u' = sf_C u" "sf_regs u' = sf_regs u"
      "\<forall>i < 4. sf_c u' i = sf_C u (unat ((if i mod 2 = 0 then f0 else f1) (t + 2 * j + i div 2)) div 8) + sf_c u i" by blast
    then show "\<exists>s'. for_opt 4 (\<lambda>i. fadd_m i (i mod 2)) u = Some s' \<and> I (Suc j) s'"
      using u by (simp add: I_def for_upto_Suc)
  qed
  then show ?thesis by (simp only: I_def)
qed

text \<open>The instructions that store change the memory in place.\<close>

definition turns_at :: "(nat \<Rightarrow> addr_gen \<Rightarrow> bool) \<Rightarrow> (nat \<Rightarrow> addr_gen \<Rightarrow> bool) \<Rightarrow> (nat \<Rightarrow> addr_gen \<Rightarrow> bool) \<Rightarrow> nat \<Rightarrow> nat \<Rightarrow> nat \<Rightarrow> 'a ssr_fp \<Rightarrow> bool" where
  "turns_at P0 P1 P2 t0 t1 w s \<longleftrightarrow> sf_on s \<and> (\<forall>dm < 2. sf_regs s dm SSR_REG_REPEAT = 0 \<and> sf_rep s dm = 0)
     \<and> P0 t0 (sf_gen s 0) \<and> P1 t1 (sf_gen s 1) \<and> P2 w (sf_gen s 2)"

lemma streams_turns: "streams_at 1 P0 P1 P2 t w s \<longleftrightarrow> turns_at P0 P1 P2 t t w s"
  by (auto simp: streams_at_def turns_at_def less_2_cases_iff)

lemma fsub_turn_0:
  assumes at: "turns_at P0 P1 P2 t0 t1 w s" and e: "emits P0 T f0" "emits P2 W f2" and t: "t0 < T" "w < W"
    and same: "unat (f0 t0) div 8 = q" "unat (f2 w) div 8 = q"
  shows "\<exists>s'. fsub_ft2 i 0 s = Some s' \<and> turns_at P0 P1 P2 (Suc t0) t1 (Suc w) s' \<and> sf_c s' = sf_c s \<and> sf_regs s' = sf_regs s
    \<and> sf_C s' = (sf_C s)(q := sf_C s q - sf_c s i)"
proof -
  have P: "P0 t0 (sf_gen s 0)" "P2 w (sf_gen s 2)" using at by (simp_all add: turns_at_def)
  show ?thesis using at emitsD [OF e(1) t(1) P(1)] emitsD [OF e(2) t(2) P(2)] same
    by (simp add: fsub_ft2_def stream_pop_def stream_push_def Let_def turns_at_def less_2_cases_iff)
qed

lemma fsub_turn_1:
  assumes at: "turns_at P0 P1 P2 t0 t1 w s" and e: "emits P1 T f1" "emits P2 W f2" and t: "t1 < T" "w < W"
    and same: "unat (f1 t1) div 8 = q" "unat (f2 w) div 8 = q"
  shows "\<exists>s'. fsub_ft2 i 1 s = Some s' \<and> turns_at P0 P1 P2 t0 (Suc t1) (Suc w) s' \<and> sf_c s' = sf_c s \<and> sf_regs s' = sf_regs s
    \<and> sf_C s' = (sf_C s)(q := sf_C s q - sf_c s i)"
proof -
  have P: "P1 t1 (sf_gen s 1)" "P2 w (sf_gen s 2)" using at by (simp_all add: turns_at_def)
  show ?thesis using at emitsD [OF e(1) t(1) P(1)] emitsD [OF e(2) t(2) P(2)] same
    by (simp add: fsub_ft2_def stream_pop_def stream_push_def Let_def turns_at_def less_2_cases_iff)
qed

text \<open>\<open>q i\<close> is the element that the reading and the writing stream have for instruction \<open>i\<close>.\<close>

lemma center_store_group:
  assumes at: "streams_at 1 P0 P1 P2 t w s" and e: "emits P0 T f0" "emits P1 T f1" "emits P2 W f2" and t: "t + 2 \<le> T" "w + 4 \<le> W"
    and same: "\<And>i. i < 4 \<Longrightarrow> unat ((if i mod 2 = 0 then f0 else f1) (t + i div 2)) div 8 = q i" "\<And>i. i < 4 \<Longrightarrow> unat (f2 (w + i)) div 8 = q i"
  shows "\<exists>s'. for_opt 4 (\<lambda>i. fsub_ft2 i (i mod 2)) s = Some s' \<and> streams_at 1 P0 P1 P2 (t + 2) (w + 4) s' \<and> sf_c s' = sf_c s \<and> sf_regs s' = sf_regs s
    \<and> sf_C s' = for_upto 0 4 (\<lambda>i M. M(q i := M (q i) - sf_c s i)) (sf_C s)"
proof -
  have r: "unat (f0 t) div 8 = q 0" "unat (f1 t) div 8 = q 1" "unat (f0 (Suc t)) div 8 = q 2" "unat (f1 (Suc t)) div 8 = q 3"
    using same(1) [of 0] same(1) [of 1] same(1) [of 2] same(1) [of 3] by simp_all
  have w: "unat (f2 w) div 8 = q 0" "unat (f2 (Suc w)) div 8 = q 1" "unat (f2 (Suc (Suc w))) div 8 = q 2" "unat (f2 (Suc (Suc (Suc w)))) div 8 = q 3"
  proof -
    have e: "w + 3 = Suc (Suc (Suc w))" by simp
    show "unat (f2 w) div 8 = q 0" "unat (f2 (Suc w)) div 8 = q 1" "unat (f2 (Suc (Suc w))) div 8 = q 2" "unat (f2 (Suc (Suc (Suc w)))) div 8 = q 3"
      using same(2) [of 0] same(2) [of 1] same(2) [of 2] same(2) [of 3, unfolded e] by simp_all
  qed
  have lt: "t < T" "Suc t < T" "w < W" "Suc w < W" "Suc (Suc w) < W" "Suc (Suc (Suc w)) < W" using t by simp_all
  from fsub_turn_0 [OF at [unfolded streams_turns] e(1,3) lt(1,3) r(1) w(1), of 0]
  obtain s1 where s1: "fsub_ft2 0 0 s = Some s1" "turns_at P0 P1 P2 (Suc t) t (Suc w) s1" "sf_c s1 = sf_c s" "sf_regs s1 = sf_regs s"
    "sf_C s1 = (sf_C s)(q 0 := sf_C s (q 0) - sf_c s 0)" by blast
  from fsub_turn_1 [OF s1(2) e(2,3) lt(1,4) r(2) w(2), of 1]
  obtain s2 where s2: "fsub_ft2 1 1 s1 = Some s2" "turns_at P0 P1 P2 (Suc t) (Suc t) (Suc (Suc w)) s2" "sf_c s2 = sf_c s1" "sf_regs s2 = sf_regs s1"
    "sf_C s2 = (sf_C s1)(q 1 := sf_C s1 (q 1) - sf_c s1 1)" by blast
  from fsub_turn_0 [OF s2(2) e(1,3) lt(2,5) r(3) w(3), of 2]
  obtain s3 where s3: "fsub_ft2 2 0 s2 = Some s3" "turns_at P0 P1 P2 (Suc (Suc t)) (Suc t) (Suc (Suc (Suc w))) s3" "sf_c s3 = sf_c s2" "sf_regs s3 = sf_regs s2"
    "sf_C s3 = (sf_C s2)(q 2 := sf_C s2 (q 2) - sf_c s2 2)" by blast
  from fsub_turn_1 [OF s3(2) e(2,3) lt(2,6) r(4) w(4), of 3]
  obtain s4 where s4: "fsub_ft2 3 1 s3 = Some s4" "turns_at P0 P1 P2 (Suc (Suc t)) (Suc (Suc t)) (Suc (Suc (Suc (Suc w)))) s4" "sf_c s4 = sf_c s3" "sf_regs s4 = sf_regs s3"
    "sf_C s4 = (sf_C s3)(q 3 := sf_C s3 (q 3) - sf_c s3 3)" by blast
  have four: "for_upto 0 4 h M = h 3 (h 2 (h 1 (h 0 M)))" for h :: "nat \<Rightarrow> (nat \<Rightarrow> 'a) \<Rightarrow> (nat \<Rightarrow> 'a)" and M
    by (simp add: eval_nat_numeral for_upto_Suc)
  have "for_opt 4 (\<lambda>i. fsub_ft2 i (i mod 2)) s = Some s4" unfolding in_turn s1(1) bind.bind_lunit s2(1) s3(1) s4(1) ..
  moreover have "streams_at 1 P0 P1 P2 (t + 2) (w + 4) s4"
  proof -
    have n: "t + 2 = Suc (Suc t)" "w + 4 = Suc (Suc (Suc (Suc w)))" by simp_all
    show ?thesis unfolding n streams_turns by (rule s4(2))
  qed
  moreover have "sf_C s4 = for_upto 0 4 (\<lambda>i M. M(q i := M (q i) - sf_c s i)) (sf_C s)"
    unfolding four s4(5) s3(5) s2(5) s1(5) s3(3) s2(3) s1(3) ..
  moreover have "sf_c s4 = sf_c s" "sf_regs s4 = sf_regs s" by (simp_all only: s1 s2 s3 s4)
  ultimately show ?thesis by blast
qed

lemma center_store_at:
  assumes at: "streams_at 1 P0 P1 P2 t w s" and e: "emits P0 T f0" "emits P1 T f1" "emits P2 W f2" and t: "t + 2 * n \<le> T" "w + 4 * n \<le> W"
    and same: "\<And>j i. j < n \<Longrightarrow> i < 4 \<Longrightarrow> unat ((if i mod 2 = 0 then f0 else f1) (t + 2 * j + i div 2)) div 8 = q j i"
      "\<And>j i. j < n \<Longrightarrow> i < 4 \<Longrightarrow> unat (f2 (w + 4 * j + i)) div 8 = q j i"
  shows "\<exists>s'. for_opt n (\<lambda>_. for_opt 4 (\<lambda>i. fsub_ft2 i (i mod 2))) s = Some s' \<and> streams_at 1 P0 P1 P2 (t + 2 * n) (w + 4 * n) s'
    \<and> sf_regs s' = sf_regs s
    \<and> sf_C s' = for_upto 0 n (\<lambda>j. for_upto 0 4 (\<lambda>i M. M(q j i := M (q j i) - sf_c s i))) (sf_C s)"
proof -
  define I where "I n u \<longleftrightarrow> streams_at 1 P0 P1 P2 (t + 2 * n) (w + 4 * n) u \<and> sf_c u = sf_c s \<and> sf_regs u = sf_regs s
    \<and> sf_C u = for_upto 0 n (\<lambda>j. for_upto 0 4 (\<lambda>i M. M(q j i := M (q j i) - sf_c s i))) (sf_C s)" for n u
  have "\<exists>s'. for_opt n (\<lambda>_. for_opt 4 (\<lambda>i. fsub_ft2 i (i mod 2))) s = Some s' \<and> I n s'"
  proof (rule for_opt_invariant)
    show "I 0 s" using at by (simp add: I_def)
    fix j u assume j: "j < n" and u: "I j u"
    have "streams_at 1 P0 P1 P2 (t + 2 * j) (w + 4 * j) u" "t + 2 * j + 2 \<le> T" "w + 4 * j + 4 \<le> W" using u j t by (simp_all add: I_def)
    from center_store_group [OF this(1) e this(2,3) same [OF j]] obtain u' where "for_opt 4 (\<lambda>i. fsub_ft2 i (i mod 2)) u = Some u'"
      "streams_at 1 P0 P1 P2 (t + 2 * j + 2) (w + 4 * j + 4) u'" "sf_c u' = sf_c u" "sf_regs u' = sf_regs u"
      "sf_C u' = for_upto 0 4 (\<lambda>i M. M(q j i := M (q j i) - sf_c u i)) (sf_C u)" by blast
    then show "\<exists>s'. for_opt 4 (\<lambda>i. fsub_ft2 i (i mod 2)) u = Some s' \<and> I (Suc j) s'"
      using u by (simp add: I_def for_upto_Suc add.assoc add.commute [of "4 * j" 4])
  qed
  then show ?thesis by (auto simp: I_def)
qed

text \<open>Updates of different elements.\<close>

lemma updates_other: "(\<And>k. k < N \<Longrightarrow> p k \<noteq> x) \<Longrightarrow> for_upto 0 N (\<lambda>k M. M(p k := h k (M (p k)))) M x = M x"
proof (induction N)
  case (Suc N)
  have IH: "for_upto 0 N (\<lambda>k M. M(p k := h k (M (p k)))) M x = M x" by (rule Suc.IH) (use Suc.prems in simp)
  have ne: "x \<noteq> p N" using Suc.prems by (metis lessI)
  show ?case unfolding for_upto_Suc [OF le0] fun_upd_other [OF ne] by (rule IH)
qed simp

lemma updates_at:
  assumes "\<And>k k'. k < N \<Longrightarrow> k' < N \<Longrightarrow> p k = p k' \<Longrightarrow> k = k'" and "k < N"
  shows "for_upto 0 N (\<lambda>k M. M(p k := h k (M (p k)))) M (p k) = h k (M (p k))"
  using assms
proof (induction N)
  case (Suc N)
  show ?case
  proof (cases "k = N")
    case True
    have "for_upto 0 N (\<lambda>k M. M(p k := h k (M (p k)))) M (p N) = M (p N)"
    proof (rule updates_other)
      show "p k' \<noteq> p N" if "k' < N" for k' using Suc.prems(1) [of k' N] that by auto
    qed
    then show ?thesis unfolding for_upto_Suc [OF le0] True by (simp only: fun_upd_same)
  next
    case False
    then have "k < N" "p k \<noteq> p N" using Suc.prems(1) [of k N] Suc.prems(2) by auto
    then show ?thesis using Suc.IH Suc.prems(1) by (simp add: for_upto_Suc)
  qed
qed simp

definition centered_opt :: "nat \<Rightarrow> 'a::{times,zero,plus,minus} \<Rightarrow> (nat \<Rightarrow> 'a) \<Rightarrow> nat \<Rightarrow> 'a" where
  "centered_opt n inv_n u k = u k - for_upto 0 n (\<lambda>j acc. u j + acc) 0 * inv_n"

lemma four_rows_updates:
  assumes rows: "\<And>i i'. i < 4 \<Longrightarrow> i' < 4 \<Longrightarrow> row i = row i' \<Longrightarrow> i = i'" and n: "0 < n"
  shows "for_upto 0 n (\<lambda>j. for_upto 0 4 (\<lambda>i M. M(row i * n + j := M (row i * n + j) - c i))) M x
    = (if \<exists>i < 4. x div n = row i then M x - c (THE i. i < 4 \<and> x div n = row i) else M x)"
proof -
  let ?p = "\<lambda>k. row (k mod 4) * n + k div 4"
  have e: "for_upto 0 n (\<lambda>j. for_upto 0 4 (\<lambda>i M. M(row i * n + j := M (row i * n + j) - c i))) M
      = for_upto 0 (n * 4) (\<lambda>k M. M(?p k := M (?p k) - c (k mod 4))) M"
  proof -
    have "for_upto 0 n (\<lambda>j. for_upto 0 4 (\<lambda>i M. M(row i * n + j := M (row i * n + j) - c i))) M
        = for_upto 0 n (\<lambda>j. for_upto 0 4 (\<lambda>i. (\<lambda>k M. M(?p k := M (?p k) - c (k mod 4))) (j * 4 + i))) M"
      by (rule fun_cong [OF for_upto_cong], rule fun_cong [OF for_upto_cong]) (simp only: div_mod_position)
    also have "\<dots> = for_upto 0 (n * 4) (\<lambda>k M. M(?p k := M (?p k) - c (k mod 4))) M"
      by (rule for_upto_nest [where f = "\<lambda>k M. M(?p k := M (?p k) - c (k mod 4))"])
    finally show ?thesis .
  qed
  have lt: "k div 4 < n" if "k < n * 4" for k using that by (simp add: less_mult_imp_div_less)
  have div: "?p k div n = row (k mod 4)" "?p k mod n = k div 4" if "k < n * 4" for k
    by (rule div_mod_position [OF lt [OF that]])+
  have inj: "k = k'" if "k < n * 4" "k' < n * 4" "?p k = ?p k'" for k k'
  proof -
    have "?p k div n = ?p k' div n" "?p k mod n = ?p k' mod n" by (simp_all only: that(3))
    then have ri: "row (k mod 4) = row (k' mod 4)" and d: "k div 4 = k' div 4" unfolding div [OF that(1)] div [OF that(2)] .
    have md: "k mod 4 = k' mod 4" by (rule rows [OF _ _ ri]) simp_all
    have "k = k div 4 * 4 + k mod 4" by (rule div_mult_mod_eq [symmetric])
    also have "\<dots> = k' div 4 * 4 + k' mod 4" by (simp only: d md)
    also have "\<dots> = k'" by (rule div_mult_mod_eq)
    finally show ?thesis .
  qed
  show ?thesis
  proof (cases "\<exists>i < 4. x div n = row i")
    case True
    then obtain i where i: "i < 4" "x div n = row i" by blast
    have the: "(THE i. i < 4 \<and> x div n = row i) = i" using i rows by (intro the_equality) auto
    define k where "k = (x mod n) * 4 + i"
    have m: "x mod n < n" using n by simp
    have k: "k mod 4 = i" "k div 4 = x mod n" using div_mod_position [OF i(1), of "x mod n"] by (simp_all add: k_def)
    have "Suc (x mod n) * 4 \<le> n * 4" using m by (intro mult_le_mono1) simp
    then have kn: "k < n * 4" using i(1) by (simp add: k_def)
    have "?p k = x" using k i(2) div_mult_mod_eq [of x n] by simp
    moreover have "for_upto 0 (n * 4) (\<lambda>k M. M(?p k := M (?p k) - c (k mod 4))) M (?p k) = M (?p k) - c (k mod 4)"
      by (rule updates_at [where h = "\<lambda>k y. y - c (k mod 4)" and p = ?p, OF inj kn])
    ultimately show ?thesis unfolding e the using True k(1) by simp
  next
    case False
    have "for_upto 0 (n * 4) (\<lambda>k M. M(?p k := M (?p k) - c (k mod 4))) M x = M x"
    proof (rule updates_other [where h = "\<lambda>k y. y - c (k mod 4)" and p = ?p])
      show "?p k \<noteq> x" if "k < n * 4" for k 
      proof
        assume "?p k = x"
        then have "x div n = row (k mod 4)" using div(1) [OF that] by metis
        moreover have "k mod 4 < 4" by simp
        ultimately show False using False by blast
      qed
    qed
    then show ?thesis unfolding e if_not_P [OF False] .
  qed
qed

lemma center_block_at:
  assumes at: "streams_at 1 P0 P1 P2 t w s" and e: "emits P0 T f0" "emits P1 T f1" "emits P2 W f2" and t: "t + 4 * n \<le> T" "w + 4 * n \<le> W"
    and nn: "unat nn = n" "nn \<noteq> 0" and rows: "\<And>i i'. i < 4 \<Longrightarrow> i' < 4 \<Longrightarrow> row i = row i' \<Longrightarrow> i = i'"
    and first: "\<And>j i. j < n \<Longrightarrow> i < 4 \<Longrightarrow> unat ((if i mod 2 = 0 then f0 else f1) (t + 2 * j + i div 2)) div 8 = row i * n + j"
    and second: "\<And>j i. j < n \<Longrightarrow> i < 4 \<Longrightarrow> unat ((if i mod 2 = 0 then f0 else f1) (t + 2 * n + 2 * j + i div 2)) div 8 = row i * n + j"
      "\<And>j i. j < n \<Longrightarrow> i < 4 \<Longrightarrow> unat (f2 (w + 4 * j + i)) div 8 = row i * n + j"
  shows "\<exists>s'. center_block nn inv_n s = Some s' \<and> streams_at 1 P0 P1 P2 (t + 4 * n) (w + 4 * n) s' \<and> sf_regs s' = sf_regs s
    \<and> (\<forall>x. sf_C s' x = (if \<exists>i < 4. x div n = row i then centered_opt n inv_n (\<lambda>k. sf_C s (x div n * n + k)) (x mod n) else sf_C s x))"
proof -
  let ?s = "s\<lparr>sf_c := \<lambda>_. 0\<rparr>"
  have n: "0 < n" using nn by (metis unat_gt_0)
  have "streams_at 1 P0 P1 P2 t w ?s" "t + 2 * n \<le> T" using at t(1) by (simp_all add: streams_at_cong)
  from center_sum_at [OF this(1) e(1,2) this(2)] obtain s1 where s1: "for_opt n (\<lambda>_. for_opt 4 (\<lambda>i. fadd_m i (i mod 2))) ?s = Some s1"
    "streams_at 1 P0 P1 P2 (t + 2 * n) w s1" "sf_C s1 = sf_C s" "sf_regs s1 = sf_regs s"
    "\<And>i. i < 4 \<Longrightarrow> sf_c s1 i = for_upto 0 n (\<lambda>j acc. sf_C s (unat ((if i mod 2 = 0 then f0 else f1) (t + 2 * j + i div 2)) div 8) + acc) 0" by auto
  have sum: "sf_c s1 i = for_upto 0 n (\<lambda>j acc. sf_C s (row i * n + j) + acc) 0" if "i < 4" for i
    unfolding s1(5) [OF that] by (rule fun_cong [OF for_upto_cong]) (simp only: first that)
  let ?s1 = "s1\<lparr>sf_c := \<lambda>i. sf_c s1 i * inv_n\<rparr>"
  have "streams_at 1 P0 P1 P2 (t + 2 * n) w ?s1" "t + 2 * n + 2 * n \<le> T" using s1(2) t(1) by (simp_all add: streams_at_cong)
  from center_store_at [where q = "\<lambda>j i. row i * n + j", OF this(1) e this(2) t(2) second]
  obtain s2 where s2: "for_opt n (\<lambda>_. for_opt 4 (\<lambda>i. fsub_ft2 i (i mod 2))) ?s1 = Some s2" "streams_at 1 P0 P1 P2 (t + 2 * n + 2 * n) (w + 4 * n) s2"
    "sf_regs s2 = sf_regs s" "sf_C s2 = for_upto 0 n (\<lambda>j. for_upto 0 4 (\<lambda>i M. M(row i * n + j := M (row i * n + j) - sf_c s1 i * inv_n))) (sf_C s)"
    using s1(3,4) by auto
  have "center_block nn inv_n s = Some s2"
    unfolding center_block_def frep_times [OF nn(2)] nn(1) s1(1) bind.bind_lunit by (rule s2(1))
  moreover have "streams_at 1 P0 P1 P2 (t + 4 * n) (w + 4 * n) s2"
  proof -
    have "t + 2 * n + 2 * n = t + 4 * n" by simp
    then show ?thesis using s2(2) by (simp only:)
  qed
  moreover have at: "sf_C s2 x = (if \<exists>i < 4. x div n = row i then sf_C s x - sf_c s1 (THE i. i < 4 \<and> x div n = row i) * inv_n else sf_C s x)" for x
    unfolding s2(4) by (rule four_rows_updates [where c = "\<lambda>i. sf_c s1 i * inv_n", OF rows n])
  have "sf_C s2 x = (if \<exists>i < 4. x div n = row i then centered_opt n inv_n (\<lambda>k. sf_C s (x div n * n + k)) (x mod n) else sf_C s x)" for x
  proof (cases "\<exists>i < 4. x div n = row i")
    case True
    then obtain i where i: "i < 4" "x div n = row i" by blast
    have the: "(THE i. i < 4 \<and> x div n = row i) = i" using i rows by (intro the_equality) auto
    show ?thesis unfolding at the sum [OF i(1)] using True i(2) [symmetric] by (simp add: centered_opt_def)
  next
    case False
    then show ?thesis unfolding at by (simp only: if_False)
  qed
  ultimately show ?thesis using s2(3) by blast
qed

subsection \<open>The centring phase of a core\<close>

lemma center_start_facts:
  assumes s1: "s1 = center_start stride offset m n data datat s" and rep: "sf_regs s 1 SSR_REG_REPEAT = 0"
  shows "sf_on s1" and "sf_C s1 = sf_C s" and "sf_rep s1 0 = 0" "sf_rep s1 1 = 0"
    and "sf_regs s1 0 SSR_REG_REPEAT = 0" "sf_regs s1 1 SSR_REG_REPEAT = 0"
    and "\<And>dm. dm < 3 \<Longrightarrow> \<not> ag_done (sf_gen s1 dm) \<and> ag_index (sf_gen s1 dm) = (\<lambda>_. 0) \<and> ag_dims (sf_gen s1 dm) = 3
          \<and> ag_pointer (sf_gen s1 dm) = (if dm = 1 then datat else data) + 8 * (offset * n)"
    and "\<And>dm. dm < 2 \<Longrightarrow> ag_bound (sf_gen s1 dm) 0 = 2 - 1 \<and> ag_bound (sf_gen s1 dm) 1 = n - 1 \<and> ag_bound (sf_gen s1 dm) 2 = 2 - 1
          \<and> ag_bound (sf_gen s1 dm) 3 = m div (stride * 2) - 1
          \<and> ag_stride (sf_gen s1 dm) 0 = 8 * n * stride AND NOT 7 \<and> ag_stride (sf_gen s1 dm) 1 = (8 - 8 * n * stride * (2 - 1)) AND NOT 7
          \<and> ag_stride (sf_gen s1 dm) 2 = (0 - (8 * n * stride * (2 - 1) + 8 * (n - 1))) AND NOT 7
          \<and> ag_stride (sf_gen s1 dm) 3 = (8 * n * stride * 2 - (8 * n * stride * (2 - 1) + 8 * (n - 1) + 0 * (2 - 1))) AND NOT 7"
    and "ag_bound (sf_gen s1 2) 0 = 2 - 1 \<and> ag_bound (sf_gen s1 2) 1 = 2 - 1 \<and> ag_bound (sf_gen s1 2) 2 = n - 1
          \<and> ag_bound (sf_gen s1 2) 3 = m div (stride * 2) - 1
          \<and> ag_stride (sf_gen s1 2) 0 = (datat - data) AND NOT 7 \<and> ag_stride (sf_gen s1 2) 1 = (8 * n * stride - (datat - data) * (2 - 1)) AND NOT 7
          \<and> ag_stride (sf_gen s1 2) 2 = (8 - ((datat - data) * (2 - 1) + 8 * n * stride * (2 - 1))) AND NOT 7
          \<and> ag_stride (sf_gen s1 2) 3 = (8 * n * stride * 2 - ((datat - data) * (2 - 1) + 8 * n * stride * (2 - 1) + 8 * (n - 1))) AND NOT 7"
proof -
  note defs = center_start_def center_setup_def stream_read_def stream_write_def stream_start_def snrt_ssr_write_def snrt_ssr_repeat_def ssr_loop_defs Let_def
  show "sf_on s1" "sf_C s1 = sf_C s" "sf_rep s1 0 = 0" "sf_rep s1 1 = 0" by (simp_all add: s1 defs)
  show "sf_regs s1 0 SSR_REG_REPEAT = 0" "sf_regs s1 1 SSR_REG_REPEAT = 0" using rep by (simp_all add: s1 defs)
  have three: "dm < 3 \<longleftrightarrow> dm = 0 \<or> dm = 1 \<or> dm = 2" for dm :: nat by auto
  show "\<not> ag_done (sf_gen s1 dm) \<and> ag_index (sf_gen s1 dm) = (\<lambda>_. 0) \<and> ag_dims (sf_gen s1 dm) = 3
      \<and> ag_pointer (sf_gen s1 dm) = (if dm = 1 then datat else data) + 8 * (offset * n)" if "dm < 3" for dm
    using that unfolding three by (auto simp: s1 defs)
  show "ag_bound (sf_gen s1 dm) 0 = 2 - 1 \<and> ag_bound (sf_gen s1 dm) 1 = n - 1 \<and> ag_bound (sf_gen s1 dm) 2 = 2 - 1
          \<and> ag_bound (sf_gen s1 dm) 3 = m div (stride * 2) - 1
          \<and> ag_stride (sf_gen s1 dm) 0 = 8 * n * stride AND NOT 7 \<and> ag_stride (sf_gen s1 dm) 1 = (8 - 8 * n * stride * (2 - 1)) AND NOT 7
          \<and> ag_stride (sf_gen s1 dm) 2 = (0 - (8 * n * stride * (2 - 1) + 8 * (n - 1))) AND NOT 7
          \<and> ag_stride (sf_gen s1 dm) 3 = (8 * n * stride * 2 - (8 * n * stride * (2 - 1) + 8 * (n - 1) + 0 * (2 - 1))) AND NOT 7"
    if "dm < 2" for dm
    using that unfolding less_2_cases_iff by (auto simp: s1 defs algebra_simps)
  show "ag_bound (sf_gen s1 2) 0 = 2 - 1 \<and> ag_bound (sf_gen s1 2) 1 = 2 - 1 \<and> ag_bound (sf_gen s1 2) 2 = n - 1
          \<and> ag_bound (sf_gen s1 2) 3 = m div (stride * 2) - 1
          \<and> ag_stride (sf_gen s1 2) 0 = (datat - data) AND NOT 7 \<and> ag_stride (sf_gen s1 2) 1 = (8 * n * stride - (datat - data) * (2 - 1)) AND NOT 7
          \<and> ag_stride (sf_gen s1 2) 2 = (8 - ((datat - data) * (2 - 1) + 8 * n * stride * (2 - 1))) AND NOT 7
          \<and> ag_stride (sf_gen s1 2) 3 = (8 * n * stride * 2 - ((datat - data) * (2 - 1) + 8 * n * stride * (2 - 1) + 8 * (n - 1))) AND NOT 7"
    by (simp add: s1 defs)
qed

lemma center_streams:
  assumes s1: "s1 = center_start stride offset m n data datat s" and rep: "sf_regs s 1 SSR_REG_REPEAT = 0"
    and nz: "n \<noteq> 0" "m div (stride * 2) \<noteq> 0" and al: "8 dvd (datat - data)"
  shows "dm < 2 \<Longrightarrow> \<exists>P f. P 0 (sf_gen s1 dm) \<and> emits P (unat (m div (stride * 2)) * 2 * unat n * 2) f
      \<and> (\<forall>i3 < unat (m div (stride * 2)). \<forall>i2 < 2. \<forall>i1 < unat n. \<forall>i0 < 2. f (((i3 * 2 + i2) * unat n + i1) * 2 + i0)
          = (if dm = 1 then datat else data) + 8 * (offset * n) + of_nat i0 * (8 * n * stride) + of_nat i1 * 8 + of_nat i2 * 0 + of_nat i3 * (8 * n * stride * 2))"
      (is "_ \<Longrightarrow> ?A")
    and "\<exists>P f. P 0 (sf_gen s1 2) \<and> emits P (unat (m div (stride * 2)) * unat n * 2 * 2) f
      \<and> (\<forall>i3 < unat (m div (stride * 2)). \<forall>i2 < unat n. \<forall>i1 < 2. \<forall>i0 < 2. f (((i3 * unat n + i2) * 2 + i1) * 2 + i0)
          = data + 8 * (offset * n) + of_nat i0 * (datat - data) + of_nat i1 * (8 * n * stride) + of_nat i2 * 8 + of_nat i3 * (8 * n * stride * 2))" (is ?B)
proof -
  note F = center_start_facts [OF s1 rep]
  have two: "(2 :: u32) \<noteq> 0" "unat (2 :: u32) = 2" by simp_all
  have d: "8 dvd (8 * n * stride)" "8 dvd (8 * n * stride * 2)" by (simp_all only: mult.assoc dvd_triv_left)
  show ?A if "dm < 2"
  proof -
    have G: "\<not> ag_done (sf_gen s1 dm)" "ag_index (sf_gen s1 dm) = (\<lambda>_. 0)" "ag_dims (sf_gen s1 dm) = 3"
      "ag_pointer (sf_gen s1 dm) = (if dm = 1 then datat else data) + 8 * (offset * n)" using F(7) [of dm] that by simp_all
    have B: "ag_bound (sf_gen s1 dm) 0 = 2 - 1" "ag_bound (sf_gen s1 dm) 1 = n - 1" "ag_bound (sf_gen s1 dm) 2 = 2 - 1"
      "ag_bound (sf_gen s1 dm) 3 = m div (stride * 2) - 1"
      "ag_stride (sf_gen s1 dm) 0 = 8 * n * stride AND NOT 7" "ag_stride (sf_gen s1 dm) 1 = (8 - 8 * n * stride * (2 - 1)) AND NOT 7"
      "ag_stride (sf_gen s1 dm) 2 = (0 - (8 * n * stride * (2 - 1) + 8 * (n - 1))) AND NOT 7"
      "ag_stride (sf_gen s1 dm) 3 = (8 * n * stride * 2 - (8 * n * stride * (2 - 1) + 8 * (n - 1) + 0 * (2 - 1))) AND NOT 7"
      using F(8) [OF that] by blast+
    show ?thesis using stream_4d [OF G(1-3) B(1-4) two(1) nz(1) two(1) nz(2) B(5-8) d(1) _ _ d(2)] unfolding G(4) two(2) by simp
  qed
  have G: "\<not> ag_done (sf_gen s1 2)" "ag_index (sf_gen s1 2) = (\<lambda>_. 0)" "ag_dims (sf_gen s1 2) = 3" "ag_pointer (sf_gen s1 2) = data + 8 * (offset * n)"
    using F(7) [of 2] by simp_all
  have B: "ag_bound (sf_gen s1 2) 0 = 2 - 1" "ag_bound (sf_gen s1 2) 1 = 2 - 1" "ag_bound (sf_gen s1 2) 2 = n - 1" "ag_bound (sf_gen s1 2) 3 = m div (stride * 2) - 1"
    "ag_stride (sf_gen s1 2) 0 = (datat - data) AND NOT 7" "ag_stride (sf_gen s1 2) 1 = (8 * n * stride - (datat - data) * (2 - 1)) AND NOT 7"
    "ag_stride (sf_gen s1 2) 2 = (8 - ((datat - data) * (2 - 1) + 8 * n * stride * (2 - 1))) AND NOT 7"
    "ag_stride (sf_gen s1 2) 3 = (8 * n * stride * 2 - ((datat - data) * (2 - 1) + 8 * n * stride * (2 - 1) + 8 * (n - 1))) AND NOT 7"
    using F(9) by blast+
  show ?B using stream_4d [OF G(1-3) B(1-4) two(1) two(1) nz B(5-8) al d(1) _ d(2)] unfolding G(4) two(2) by simp
qed

text \<open>The four rows of a block, and the block of a row.\<close>

definition center_rows :: "nat \<Rightarrow> nat \<Rightarrow> nat \<Rightarrow> nat \<Rightarrow> nat \<Rightarrow> nat" where
  "center_rows m stride co b i = (if i mod 2 = 0 then 0 else m) + (co + (2 * b + i div 2) * stride)"

lemma center_row_lt:
  fixes m stride co b i :: nat
  assumes "stride * 2 dvd m" and "co < stride" and "b < m div (stride * 2)" and "i < 4"
  shows "co + (2 * b + i div 2) * stride < m"
proof -
  have "i div 2 < 2" using assms(4) by linarith
  then have "Suc (2 * b + i div 2) \<le> 2 * Suc b" by simp
  then have "Suc (2 * b + i div 2) * stride \<le> 2 * Suc b * stride" by (rule mult_le_mono1)
  also have "\<dots> = Suc b * (stride * 2)" by simp
  also have "\<dots> \<le> m div (stride * 2) * (stride * 2)" using assms(3) by (intro mult_le_mono1) simp
  also have "\<dots> = m" using assms(1) by simp
  finally show ?thesis using assms(2) by simp
qed

lemma center_rows_iff:
  fixes m stride co b y :: nat
  assumes st: "stride * 2 dvd m" "co < stride" and b: "b < m div (stride * 2)"
  shows "(\<exists>i < 4. y = center_rows m stride co b i) \<longleftrightarrow> y < 2 * m \<and> y mod m mod stride = co \<and> y mod m div stride div 2 = b"
proof
  assume "\<exists>i < 4. y = center_rows m stride co b i"
  then obtain i where i: "i < 4" and y: "y = center_rows m stride co b i" by blast
  define r where "r = co + (2 * b + i div 2) * stride"
  have r: "r < m" unfolding r_def by (rule center_row_lt [OF st b i])
  have "y mod m = r" "y < 2 * m" using y r by (simp_all add: center_rows_def r_def [symmetric] split: if_splits)
  moreover have "r mod stride = co" "r div stride = 2 * b + i div 2"
    using div_mod_position [OF st(2), of "2 * b + i div 2"] by (simp_all add: r_def add.commute)
  moreover have "(2 * b + i div 2) div 2 = b" using i by linarith
  ultimately show "y < 2 * m \<and> y mod m mod stride = co \<and> y mod m div stride div 2 = b" by simp
next
  assume a: "y < 2 * m \<and> y mod m mod stride = co \<and> y mod m div stride div 2 = b"
  define q where "q = y mod m div stride mod 2"
  define i where "i = q * 2 + (if y < m then 0 else 1)"
  have q: "q < 2" by (simp add: q_def)
  then have i: "i < 4" "i mod 2 = (if y < m then 0 else 1)" "i div 2 = q" by (simp_all add: i_def)
  have "y mod m div stride = y mod m div stride div 2 * 2 + q" unfolding q_def by (rule div_mult_mod_eq [symmetric])
  then have h: "y mod m div stride = 2 * b + q" using a by simp
  have "y mod m = y mod m mod stride + y mod m div stride * stride" by (rule mod_div_mult_eq [symmetric])
  also have "y mod m mod stride = co" using a by simp
  also note h
  finally have "y mod m = co + (2 * b + q) * stride" .
  moreover have "y = (if y < m then 0 else m) + y mod m"
  proof (cases "y < m")
    case False
    then have "y mod m = (y - m) mod m" by (simp add: le_mod_geq)
    also have "\<dots> = y - m" using a False by (intro mod_less) linarith
    finally show ?thesis using False by simp
  qed simp
  ultimately have "y = center_rows m stride co b i" unfolding center_rows_def i(2,3) by (simp split: if_splits)
  then show "\<exists>i < 4. y = center_rows m stride co b i" using i(1) by blast
qed

lemma center_rows_inj:
  fixes m stride co b i i' :: nat
  assumes st: "stride * 2 dvd m" "co < stride" and b: "b < m div (stride * 2)" and i: "i < 4" "i' < 4"
    and eq: "center_rows m stride co b i = center_rows m stride co b i'"
  shows "i = i'"
proof -
  have lt: "co + (2 * b + i div 2) * stride < m" "co + (2 * b + i' div 2) * stride < m" using center_row_lt [OF st b] i by blast+
  have par: "i mod 2 = i' mod 2" using eq lt unfolding center_rows_def by (simp split: if_splits)
  then have "co + (2 * b + i div 2) * stride = co + (2 * b + i' div 2) * stride" using eq unfolding center_rows_def by simp
  then have "i div 2 = i' div 2" using st(2) by simp
  then show ?thesis using par by (metis div_mult_mod_eq)
qed

lemma center_opt_at:
  fixes m n stride co :: nat
  assumes m: "0 < m" and n: "0 < n" and st: "stride * 2 dvd m" "co < stride" and sp: "16 * (m * n) \<le> 2 ^ 32" "m < 2 ^ 32"
    and rep: "sf_regs s 1 SSR_REG_REPEAT = 0"
  shows "\<exists>s'. center_opt stride co m n inv_n 0 (of_nat (8 * (m * n))) s = Some s' \<and> sf_regs s' 1 SSR_REG_REPEAT = 0
    \<and> (\<forall>x. sf_C s' x = (if x div n < 2 * m \<and> x div n mod m mod stride = co
        then centered_opt n inv_n (\<lambda>k. sf_C s (x div n * n + k)) (x mod n) else sf_C s x))"
proof -
  define R where "R = m div (stride * 2)"
  define s1 where "s1 = center_start (of_nat stride) (of_nat co) (of_nat m) (of_nat n) 0 (of_nat (8 * (m * n))) s"
  have RS: "R * (stride * 2) = m" using st(1) by (simp add: R_def)
  have n32: "n < 2 ^ 32"
  proof -
    have "n \<le> m * n" using m by simp
    moreover have "m * n < 2 ^ 32" using sp(1) by simp
    ultimately show ?thesis by (rule le_less_trans)
  qed
  have stm: "stride * 2 \<le> m" "0 < stride * 2" using st m by (simp_all add: dvd_imp_le)
  have R: "(of_nat m :: u32) div (of_nat stride * 2) = of_nat R"
    using of_nat_word_div [where 'a = 32, of m "stride * 2"] sp(2) stm by (simp add: R_def)
  have R32: "R < 2 ^ 32" using sp(2) unfolding R_def by (rule le_less_trans [OF div_le_dividend])
  have un: "unat (of_nat n :: u32) = n" and uR: "unat (of_nat R :: u32) = R" using n32 R32 by (intro unat_of_nat_small; simp)+
  have R0: "0 < R" unfolding R_def using stm by (simp add: div_greater_zero_iff)
  have nz: "(of_nat n :: u32) \<noteq> 0" "(of_nat m :: u32) div (of_nat stride * 2) \<noteq> 0"
    unfolding R using un uR n R0 by (metis unat_0 less_irrefl)+
  have al: "8 dvd (of_nat (8 * (m * n)) - 0 :: u32)" by (simp only: diff_0_right of_nat_mult [of 8] of_nat_numeral dvd_triv_left)
  note F = center_start_facts [OF s1_def rep] and ST = center_streams [OF s1_def rep nz al, unfolded R uR un]
  have row0: "co + (2 * b + i0) * stride < m" if "b < R" "i0 < 2" for b i0
    using center_row_lt [OF st, of b "i0 * 2"] that by (simp add: R_def)
  have addr: "unat (of_nat (8 * (r * n + j)) :: u32) div 8 = r * n + j" if "r < 2 * m" "j < n" for r j
  proof (rule elem_addr [OF _ _ refl])
    show "r * n + j < 2 * m * n" by (rule row_bound [OF that])
    show "8 * (2 * m * n) \<le> 2 ^ 32" using sp(1) by simp
  qed
  obtain P0 f0 where P0: "P0 0 (sf_gen s1 0)" "emits P0 (R * 2 * n * 2) f0"
    "\<And>b k j i0. b < R \<Longrightarrow> k < 2 \<Longrightarrow> j < n \<Longrightarrow> i0 < 2 \<Longrightarrow> f0 (((b * 2 + k) * n + j) * 2 + i0) = of_nat (8 * ((co + (2 * b + i0) * stride) * n + j))"
    using ST(1) [of 0] by (auto simp: algebra_simps)
  obtain P1 f1 where P1: "P1 0 (sf_gen s1 1)" "emits P1 (R * 2 * n * 2) f1"
    "\<And>b k j i0. b < R \<Longrightarrow> k < 2 \<Longrightarrow> j < n \<Longrightarrow> i0 < 2 \<Longrightarrow> f1 (((b * 2 + k) * n + j) * 2 + i0) = of_nat (8 * ((m + (co + (2 * b + i0) * stride)) * n + j))"
    using ST(1) [of 1] by (auto simp: algebra_simps)
  obtain P2 f2 where P2: "P2 0 (sf_gen s1 2)" "emits P2 (R * n * 2 * 2) f2"
    "\<And>b j i0 v. b < R \<Longrightarrow> j < n \<Longrightarrow> i0 < 2 \<Longrightarrow> v < 2 \<Longrightarrow> f2 (((b * n + j) * 2 + i0) * 2 + v) = of_nat (8 * ((v * m + (co + (2 * b + i0) * stride)) * n + j))"
    using ST(2) by (auto simp: algebra_simps)
  have four: "i div 2 < 2" "i mod 2 < 2" if "i < 4" for i :: nat using that by simp_all
  have lt: "center_rows m stride co b i < 2 * m" if "b < R" "i < 4" for b i
    using row0 [OF that(1) four(1) [OF that(2)]] by (simp add: center_rows_def)
  have rd: "unat ((if i mod 2 = 0 then f0 else f1) (((b * 2 + k) * n + j) * 2 + i div 2)) div 8 = center_rows m stride co b i * n + j"
    if "b < R" "k < 2" "j < n" "i < 4" for b k j i
  proof (cases "i mod 2 = 0")
    case True
    have c: "center_rows m stride co b i = co + (2 * b + i div 2) * stride" unfolding center_rows_def if_P [OF True] by simp
    show ?thesis using addr [OF lt [OF that(1,4)] that(3)] unfolding c if_P [OF True] P0(3) [OF that(1-3) four(1) [OF that(4)]] .
  next
    case False
    have c: "center_rows m stride co b i = m + (co + (2 * b + i div 2) * stride)" unfolding center_rows_def if_not_P [OF False] ..
    show ?thesis using addr [OF lt [OF that(1,4)] that(3)] unfolding c if_not_P [OF False] P1(3) [OF that(1-3) four(1) [OF that(4)]] .
  qed
  have wr: "unat (f2 (((b * n + j) * 2 + i div 2) * 2 + i mod 2)) div 8 = center_rows m stride co b i * n + j" if "b < R" "j < n" "i < 4" for b j i
  proof -
    have "i mod 2 * m = (if i mod 2 = 0 then 0 else m)" using four(2) [OF that(3)] by (cases "i mod 2 = 0") auto
    then have c: "i mod 2 * m + (co + (2 * b + i div 2) * stride) = center_rows m stride co b i" by (simp only: center_rows_def)
    show ?thesis unfolding P2(3) [OF that(1,2) four [OF that(3)]] c by (rule addr [OF lt [OF that(1,3)] that(2)])
  qed
  define mine where "mine x \<longleftrightarrow> x div n < 2 * m \<and> x div n mod m mod stride = co" for x
  define blk where "blk x = x div n mod m div stride div 2" for x
  define cell where "cell x = centered_opt n inv_n (\<lambda>k. sf_C s (x div n * n + k)) (x mod n)" for x
  define I where "I b t \<longleftrightarrow> streams_at 1 P0 P1 P2 (b * (4 * n)) (b * (4 * n)) t \<and> sf_regs t = sf_regs s1
    \<and> (\<forall>x. sf_C t x = (if mine x \<and> blk x < b then cell x else sf_C s x))" for b t
  have "\<exists>s2. for_opt R (\<lambda>_. center_block (of_nat n) inv_n) s1 = Some s2 \<and> I R s2"
  proof (rule for_opt_invariant)
    show "I 0 s1" using F(1-6) P0(1) P1(1) P2(1) by (simp add: I_def streams_at_def)
    fix b t assume b: "b < R" and t: "I b t"
    have bR: "b < m div (stride * 2)" using b by (simp add: R_def)
    have le: "b * (4 * n) + 4 * n \<le> R * 2 * n * 2" "b * (4 * n) + 4 * n \<le> R * n * 2 * 2"
    proof -
      have "Suc b * (4 * n) \<le> R * (4 * n)" using b by (intro mult_le_mono1) simp
      then show "b * (4 * n) + 4 * n \<le> R * 2 * n * 2" "b * (4 * n) + 4 * n \<le> R * n * 2 * 2" by simp_all
    qed
    have at: "streams_at 1 P0 P1 P2 (b * (4 * n)) (b * (4 * n)) t" using t by (simp add: I_def)
    have first: "unat ((if i mod 2 = 0 then f0 else f1) (b * (4 * n) + 2 * j + i div 2)) div 8 = center_rows m stride co b i * n + j"
      if "j < n" "i < 4" for j i
    proof -
      have "b * (4 * n) + 2 * j + i div 2 = ((b * 2 + 0) * n + j) * 2 + i div 2" by simp
      then show ?thesis using rd [OF b _ that, of 0] by (simp only: zero_less_numeral)
    qed
    have second: "unat ((if i mod 2 = 0 then f0 else f1) (b * (4 * n) + 2 * n + 2 * j + i div 2)) div 8 = center_rows m stride co b i * n + j"
      if "j < n" "i < 4" for j i
    proof -
      have "b * (4 * n) + 2 * n + 2 * j + i div 2 = ((b * 2 + 1) * n + j) * 2 + i div 2" by simp
      then show ?thesis using rd [OF b _ that, of 1] by (simp only: one_less_numeral_iff semiring_norm)
    qed
    have third: "unat (f2 (b * (4 * n) + 4 * j + i)) div 8 = center_rows m stride co b i * n + j" if "j < n" "i < 4" for j i
    proof -
      have "b * (4 * n) + 4 * j + (i div 2 * 2 + i mod 2) = ((b * n + j) * 2 + i div 2) * 2 + i mod 2" by simp
      then have "b * (4 * n) + 4 * j + i = ((b * n + j) * 2 + i div 2) * 2 + i mod 2" unfolding div_mult_mod_eq .
      then show ?thesis using wr [OF b that] by (simp only:)
    qed
    from center_block_at [OF at P0(2) P1(2) P2(2) le un nz(1) center_rows_inj [OF st bR] first second third, of inv_n]
    obtain t' where t': "center_block (of_nat n) inv_n t = Some t'" "streams_at 1 P0 P1 P2 (b * (4 * n) + 4 * n) (b * (4 * n) + 4 * n) t'" "sf_regs t' = sf_regs t"
      "\<And>x. sf_C t' x = (if \<exists>i < 4. x div n = center_rows m stride co b i then centered_opt n inv_n (\<lambda>k. sf_C t (x div n * n + k)) (x mod n) else sf_C t x)"
      by blast
    have "sf_C t' x = (if mine x \<and> blk x < Suc b then cell x else sf_C s x)" for x
    proof (cases "mine x \<and> blk x = b")
      case True
      have "x div n * n + k = x div n * n + k \<and> mine (x div n * n + k) = mine x \<and> blk (x div n * n + k) = blk x" if "k < n" for k
        using div_mod_position(1) [OF that, of "x div n"] by (simp add: mine_def blk_def)
      then have old: "sf_C t (x div n * n + k) = sf_C s (x div n * n + k)" if "k < n" for k using t True that by (simp add: I_def)
      then have "for_upto 0 n (\<lambda>j acc. sf_C t (x div n * n + j) + acc) 0 = for_upto 0 n (\<lambda>j acc. sf_C s (x div n * n + j) + acc) 0"
        by (intro fun_cong [OF for_upto_cong]) simp
      then have "centered_opt n inv_n (\<lambda>k. sf_C t (x div n * n + k)) (x mod n) = cell x"
        using old [of "x mod n"] n by (simp add: centered_opt_def cell_def)
      then show ?thesis using True center_rows_iff [OF st bR, of "x div n"] by (simp add: t'(4) mine_def blk_def)
    next
      case False
      then have "\<not> (\<exists>i < 4. x div n = center_rows m stride co b i)" using center_rows_iff [OF st bR, of "x div n"] by (simp add: mine_def blk_def)
      then have "sf_C t' x = sf_C t x" unfolding t'(4) by (simp only: if_False)
      then show ?thesis using False t by (auto simp: I_def less_Suc_eq)
    qed
    then have "I (Suc b) t'" using t'(2,3) t by (simp add: I_def add.commute)
    then show "\<exists>t'. center_block (of_nat n) inv_n t = Some t' \<and> I (Suc b) t'" using t'(1) by blast
  qed
  then obtain s2 where s2: "for_opt R (\<lambda>_. center_block (of_nat n) inv_n) s1 = Some s2" "I R s2" by blast
  have "for_step co (stride * 2) m (\<lambda>i so. so \<bind> center_block (of_nat n) inv_n) (Some s1) = for_opt R (\<lambda>_. center_block (of_nat n) inv_n) s1"
    using for_step_opt_dvd [OF stm(2) st(1), of co "\<lambda>_. center_block (of_nat n) inv_n" s1] st(2) by (simp add: R_def)
  then have "center_opt stride co m n inv_n 0 (of_nat (8 * (m * n))) s = Some (s2\<lparr>sf_on := False\<rparr>)"
    unfolding center_opt_def Let_def s1_def [symmetric] by (simp add: s2(1))
  moreover have "blk x < R" if "mine x" for x
  proof -
    have "x div n mod m < R * (stride * 2)" unfolding RS using m by simp
    then have "x div n mod m div (stride * 2) < R" by (rule less_mult_imp_div_less)
    then show ?thesis by (simp add: blk_def div_mult2_eq)
  qed
  ultimately show ?thesis using s2(2) F(6) by (auto simp: I_def mine_def cell_def)
qed

subsection \<open>The product phase of a core\<close>

lemma product_block_rows: "product_block fma mem m n alpha = rows_block fma mem mem (\<lambda>_ acc. acc * alpha) m n"
  by (intro ext) (simp add: product_block_def rows_block_def)

lemma product_start_facts:
  assumes s1: "s1 = product_start stride offset m n a aT s" and rep: "sf_regs s 1 SSR_REG_REPEAT = 0"
  shows "syrk_configured stride m n (sf_regs s1)" and "sf_on s1" and "sf_C s1 = sf_C s" and "sf_rep s1 0 = 0" "sf_rep s1 1 = 0"
    and "2 \<le> ag_dims (sf_gen s1 0)" "ag_dims (sf_gen s1 1) = 3"
    and "\<And>dm. dm = 0 \<or> dm = 1 \<Longrightarrow> \<not> ag_done (sf_gen s1 dm) \<and> ag_index (sf_gen s1 dm) = (\<lambda>_. 0)
          \<and> ag_pointer (sf_gen s1 dm) = (if dm = 0 then a + 8 * (offset * n) else aT)"
    and "\<And>dm i. dm = 0 \<or> dm = 1 \<Longrightarrow> i < 4 \<Longrightarrow> ag_bound (sf_gen s1 dm) i = sf_regs s1 dm (SSR_REG_BOUNDS + i)
          \<and> ag_stride (sf_gen s1 dm) i = sf_regs s1 dm (SSR_REG_STRIDES + i) AND NOT 7"
proof -
  define r where "r = syrk_opt_setup stride m n (sf_regs s)"
  have r: "syrk_configured stride m n r" unfolding r_def by (rule syrk_setup_configured) (rule rep)
  note defs = product_start_def r_def [symmetric] stream_read_def stream_start_def ssr_loop_defs Let_def
  show "syrk_configured stride m n (sf_regs s1)"
    by (rule syrk_configured_cong [OF r]) (auto simp: s1 defs less_2_cases_iff)
  show "sf_on s1" "sf_C s1 = sf_C s" "sf_rep s1 0 = 0" "sf_rep s1 1 = 0" "2 \<le> ag_dims (sf_gen s1 0)" "ag_dims (sf_gen s1 1) = 3"
    by (simp_all add: s1 defs)
  show "\<not> ag_done (sf_gen s1 dm) \<and> ag_index (sf_gen s1 dm) = (\<lambda>_. 0)
      \<and> ag_pointer (sf_gen s1 dm) = (if dm = 0 then a + 8 * (offset * n) else aT)" if "dm = 0 \<or> dm = 1" for dm
    using that by (auto simp: s1 defs)
  show "ag_bound (sf_gen s1 dm) i = sf_regs s1 dm (SSR_REG_BOUNDS + i)
      \<and> ag_stride (sf_gen s1 dm) i = sf_regs s1 dm (SSR_REG_STRIDES + i) AND NOT 7" if "dm = 0 \<or> dm = 1" "i < 4" for dm i
    using that by (auto simp: s1 defs)
qed

lemma product_opt_at:
  fixes m n stride co :: nat and mem :: "nat \<Rightarrow> 'a::{times,zero}"
  assumes m: "0 < m" "4 dvd m" and n: "0 < n" and stride: "stride dvd m" "co < stride" and sp: "16 * (m * n) \<le> 2 ^ 32" "m < 2 ^ 32"
    and rep: "sf_regs s 1 SSR_REG_REPEAT = 0"
  shows "\<exists>s'. product_opt fma (\<lambda>p. mem (unat p div 8)) stride co m n alpha 0 (of_nat (8 * (m * n))) s = Some s' \<and> sf_regs s' 1 SSR_REG_REPEAT = 0
    \<and> (\<forall>x. sf_C s' x = (if x div m < m \<and> x div m mod stride = co
        then syrk_acc fma n (\<lambda>k. mem (x div m * n + k)) (\<lambda>k. mem (m * n + (x mod m * n + k))) * alpha else sf_C s x))"
proof -
  let ?m = "\<lambda>p :: u32. mem (unat p div 8)"
  define s1 where "s1 = product_start (of_nat stride) (of_nat co) (of_nat m) (of_nat n) 0 (of_nat (8 * (m * n))) s"
  have mn: "m * n < 2 ^ 32" and mn2: "8 * (m * n + m * n) \<le> 2 ^ 32" using sp(1) by simp_all
  note B = rows_bounds [OF m n stride(1) mn sp(2)]
  note F = product_start_facts [OF s1_def rep]
  note ST = row_streams [OF F(1) B(4-6) F(8,6,7,9), unfolded B(1-3)]
  obtain P0 f0 where P0: "P0 0 (sf_gen s1 0)" "emits P0 (m div stride * (m div 4) * n) f0"
    "\<And>r q k. r < m div stride \<Longrightarrow> q < m div 4 \<Longrightarrow> k < n \<Longrightarrow> f0 ((r * (m div 4) + q) * n + k) = of_nat (8 * ((co + r * stride) * n + k))"
    using ST(1) by (auto simp: algebra_simps)
  obtain P1 f1 where P1: "P1 0 (sf_gen s1 1)" "emits P1 (4 * (m div stride * (m div 4) * n)) f1"
    "\<And>r q k j0. r < m div stride \<Longrightarrow> q < m div 4 \<Longrightarrow> k < n \<Longrightarrow> j0 < 4 \<Longrightarrow> f1 (4 * ((r * (m div 4) + q) * n + k) + j0) = of_nat (8 * (m * n + ((q * 4 + j0) * n + k)))"
    using ST(2) by (auto simp: algebra_simps)
  have u: "?m (f0 ((r * (m div 4) + q) * n + k)) = mem ((co + r * stride) * n + k)" if "r < m div stride" "q < m div 4" "k < n" for r q k
  proof -
    have "(co + r * stride) * n + k < m * n + m * n" by (rule trans_less_add1 [OF row_bound [OF core_row [OF stride that(1)] that(3)]])
    from elem_addr [OF this mn2 refl] show ?thesis unfolding P0(3) [OF that] by simp
  qed
  have v: "?m (f1 (4 * ((r * (m div 4) + q) * n + k) + j0)) = mem (m * n + ((q * 4 + j0) * n + k))"
    if "r < m div stride" "q < m div 4" "k < n" "j0 < 4" for r q k j0
  proof -
    have "q * 4 + j0 < m" using that(2,4) m(2) by linarith
    then have "m * n + ((q * 4 + j0) * n + k) < m * n + m * n" using row_bound [of "q * 4 + j0" m k n] that(3) by simp
    from elem_addr [OF this mn2 refl] show ?thesis unfolding P1(3) [OF that] by simp
  qed
  obtain s2 where s2: "for_step co stride m (\<lambda>i so. so \<bind> (\<lambda>s. for_step 0 4 m (\<lambda>j so. so \<bind> product_block fma ?m m (of_nat n) alpha i j) (Some s))) (Some s1) = Some s2"
    "sf_regs s2 = sf_regs s1"
    "\<And>x. sf_C s2 x = (if x div m < m \<and> x div m mod stride = co
      then syrk_acc fma n (\<lambda>k. mem (x div m * n + k)) (\<lambda>k. mem (m * n + (x mod m * n + k))) * alpha else sf_C s1 x)"
    using rows_at [where fma = fma and mA = ?m and mT = ?m and a = mem and aT = "\<lambda>x. mem (m * n + x)" and fin = "\<lambda>_ acc. acc * alpha",
        OF m n stride mn F(2,4,5) syrk_regs(1,2) [OF F(1)] P0(1,2) u P1(1,2) v]
    by (auto simp: product_block_rows)
  have "product_opt fma ?m stride co m n alpha 0 (of_nat (8 * (m * n))) s = Some (s2\<lparr>sf_on := False\<rparr>)"
    unfolding product_opt_def Let_def s1_def [symmetric] by (simp add: s2(1))
  then show ?thesis using s2(2,3) F(3) syrk_regs(2) [OF F(1)] by simp
qed

subsection \<open>The cores of a cluster\<close>

definition reads_once :: "nat \<Rightarrow> (nat \<Rightarrow> ssr_regs) \<Rightarrow> bool" where
  "reads_once core_num k \<longleftrightarrow> (\<forall>co < core_num. k co 1 SSR_REG_REPEAT = 0)"

lemma center_cores_at:
  fixes m n core_num :: nat
  assumes m: "0 < m" and n: "0 < n" and cn: "0 < core_num" "core_num * 2 dvd m" and sp: "16 * (m * n) \<le> 2 ^ 32" "m < 2 ^ 32"
    and ok: "reads_once core_num k"
  shows "\<exists>mem' k'. for_opt core_num (center_core core_num m n inv_n) (mem, k) = Some (mem', k') \<and> reads_once core_num k'
    \<and> (\<forall>x. mem' x = (if x div n < 2 * m then centered_opt n inv_n (\<lambda>k. mem (x div n * n + k)) (x mod n) else mem x))"
proof -
  define cell where "cell x = centered_opt n inv_n (\<lambda>k. mem (x div n * n + k)) (x mod n)" for x
  define I where "I co = (\<lambda>(M, k'). reads_once core_num k' \<and> (\<forall>x. M x = (if x div n < 2 * m \<and> x div n mod m mod core_num < co then cell x else mem x)))" for co
  have "\<exists>s'. for_opt core_num (center_core core_num m n inv_n) (mem, k) = Some s' \<and> I core_num s'"
  proof (rule for_opt_invariant)
    show "I 0 (mem, k)" using ok by (simp add: I_def)
    fix co ck assume co: "co < core_num" and ck: "I co ck"
    obtain M k1 where e: "ck = (M, k1)" by fastforce
    have "sf_regs (opt_state (k1 co) (\<lambda>_. 0) M) 1 SSR_REG_REPEAT = 0" using ck co by (simp add: e I_def reads_once_def opt_state_def)
    from center_opt_at [OF m n cn(2) co sp this, of inv_n]
    obtain s' where s': "center_opt core_num co m n inv_n 0 (of_nat (8 * (m * n))) (opt_state (k1 co) (\<lambda>_. 0) M) = Some s'" "sf_regs s' 1 SSR_REG_REPEAT = 0"
      "\<And>x. sf_C s' x = (if x div n < 2 * m \<and> x div n mod m mod core_num = co then centered_opt n inv_n (\<lambda>k. M (x div n * n + k)) (x mod n) else M x)"
      by (auto simp: opt_state_def)
    have "centered_opt n inv_n (\<lambda>k. M (x div n * n + k)) (x mod n) = cell x" if "x div n < 2 * m" "x div n mod m mod core_num = co" for x
    proof -
      have old: "M (x div n * n + k) = mem (x div n * n + k)" if "k < n" for k
        using ck div_mod_position(1) [OF that, of "x div n"] \<open>x div n mod m mod core_num = co\<close> by (simp add: e I_def)
      then have "for_upto 0 n (\<lambda>j acc. M (x div n * n + j) + acc) 0 = for_upto 0 n (\<lambda>j acc. mem (x div n * n + j) + acc) 0"
        by (intro fun_cong [OF for_upto_cong]) simp
      then show ?thesis using old [of "x mod n"] n by (simp add: centered_opt_def cell_def)
    qed
    then have "I (Suc co) (sf_C s', k1(co := sf_regs s'))"
      using ck s'(2) by (auto simp: I_def e reads_once_def s'(3) less_Suc_eq)
    moreover have "center_core core_num m n inv_n co ck = Some (sf_C s', k1(co := sf_regs s'))"
      by (simp only: center_core_def e prod.case s'(1) bind.bind_lunit)
    ultimately show "\<exists>s'. center_core core_num m n inv_n co ck = Some s' \<and> I (Suc co) s'" by blast
  qed
  then show ?thesis using cn(1) by (auto simp: I_def cell_def)
qed

lemma product_cores_at:
  fixes m n core_num :: nat and mem :: "nat \<Rightarrow> 'a::{times,zero}"
  assumes m: "0 < m" "4 dvd m" and n: "0 < n" and cn: "0 < core_num" "core_num dvd m" and sp: "16 * (m * n) \<le> 2 ^ 32" "m < 2 ^ 32"
    and ok: "reads_once core_num k"
  shows "\<exists>c' k'. for_opt core_num (product_core fma mem core_num m n alpha) (c, k) = Some (c', k') \<and> reads_once core_num k'
    \<and> (\<forall>x. c' x = (if x < m * m then syrk_acc fma n (\<lambda>k. mem (x div m * n + k)) (\<lambda>k. mem (m * n + (x mod m * n + k))) * alpha else c x))"
proof -
  define cell where "cell x = syrk_acc fma n (\<lambda>k. mem (x div m * n + k)) (\<lambda>k. mem (m * n + (x mod m * n + k))) * alpha" for x
  define I where "I co = (\<lambda>(c', k'). reads_once core_num k' \<and> (\<forall>x. c' x = (if x div m < m \<and> x div m mod core_num < co then cell x else c x)))" for co
  have "\<exists>s'. for_opt core_num (product_core fma mem core_num m n alpha) (c, k) = Some s' \<and> I core_num s'"
  proof (rule for_opt_invariant)
    show "I 0 (c, k)" using ok by (simp add: I_def)
    fix co ck assume co: "co < core_num" and ck: "I co ck"
    obtain c1 k1 where e: "ck = (c1, k1)" by fastforce
    have "sf_regs (opt_state (k1 co) (\<lambda>_. 0) c1) 1 SSR_REG_REPEAT = 0" using ck co by (simp add: e I_def reads_once_def opt_state_def)
    from product_opt_at [OF m n cn(2) co sp this, of fma mem alpha]
    obtain s' where s': "product_opt fma (\<lambda>p. mem (unat p div 8)) core_num co m n alpha 0 (of_nat (8 * (m * n))) (opt_state (k1 co) (\<lambda>_. 0) c1) = Some s'"
      "sf_regs s' 1 SSR_REG_REPEAT = 0"
      "\<And>x. sf_C s' x = (if x div m < m \<and> x div m mod core_num = co then cell x else c1 x)"
      by (auto simp: opt_state_def cell_def)
    have "I (Suc co) (sf_C s', k1(co := sf_regs s'))"
      using ck s'(2) by (auto simp: I_def e reads_once_def s'(3) less_Suc_eq)
    moreover have "product_core fma mem core_num m n alpha co ck = Some (sf_C s', k1(co := sf_regs s'))"
      by (simp only: product_core_def e prod.case s'(1) bind.bind_lunit)
    ultimately show "\<exists>s'. product_core fma mem core_num m n alpha co ck = Some s' \<and> I (Suc co) s'" by blast
  qed
  then show ?thesis using m(1) cn(1) by (auto simp: I_def cell_def div_less_iff_less_mult)
qed

lemma second_operand:
  fixes m n r k :: nat
  assumes "k < n"
  shows "(m * n + (r * n + k)) div n = m + r" and "(m * n + (r * n + k)) mod n = k" and "(m + r) * n + j = m * n + (r * n + j)"
proof -
  have e: "m * n + (r * n + k) = (m + r) * n + k" by (simp add: algebra_simps)
  show "(m * n + (r * n + k)) div n = m + r" "(m * n + (r * n + k)) mod n = k" unfolding e by (rule div_mod_position [OF assms])+
  show "(m + r) * n + j = m * n + (r * n + j)" by (simp add: algebra_simps)
qed

lemma centered_opt_cong: "(\<And>j. j < n \<Longrightarrow> u j = u' j) \<Longrightarrow> k < n \<Longrightarrow> centered_opt n inv_n u k = centered_opt n inv_n u' k"
  unfolding centered_opt_def using fun_cong [OF for_upto_cong [of 0 n "\<lambda>j acc. u j + acc" "\<lambda>j acc. u' j + acc"], of 0] by simp

lemma centered_cong: "(\<And>j. j < n \<Longrightarrow> u j = u' j) \<Longrightarrow> k < n \<Longrightarrow> centered n inv_n u k = centered n inv_n u' k"
  unfolding centered_def using fun_cong [OF for_upto_cong [of 0 n "\<lambda>j acc. acc + u j" "\<lambda>j acc. acc + u' j"], of 0] by simp

lemma covariance_opt_at:
  fixes m n core_num :: nat and data datat :: "nat \<Rightarrow> 'a::{times,zero,plus,minus}"
  assumes m: "0 < m" "4 dvd m" and n: "0 < n" and cn: "0 < core_num" "core_num * 2 dvd m" and sp: "16 * (m * n) \<le> 2 ^ 32" "m < 2 ^ 32"
    and ok: "reads_once core_num k"
  shows "\<exists>data' datat' cov' k'. covariance_opt fma core_num m n inv_n alpha data datat cov k = Some (data', datat', cov', k') \<and> reads_once core_num k'
    \<and> (\<forall>r < m. \<forall>c < m. cov' (r * m + c)
        = syrk_acc fma n (centered_opt n inv_n (\<lambda>k. data (r * n + k))) (centered_opt n inv_n (\<lambda>k. datat (c * n + k))) * alpha)"
proof -
  let ?mem = "\<lambda>x. if x < m * n then data x else datat (x - m * n)"
  obtain mem' k1 where M: "for_opt core_num (center_core core_num m n inv_n) (?mem, k) = Some (mem', k1)" "reads_once core_num k1"
    "\<And>x. mem' x = (if x div n < 2 * m then centered_opt n inv_n (\<lambda>k. ?mem (x div n * n + k)) (x mod n) else ?mem x)"
    using center_cores_at [OF m(1) n cn sp ok, of inv_n ?mem] by blast
  have "core_num dvd m" using cn(2) by (rule dvd_mult_left)
  from product_cores_at [OF m n cn(1) this sp M(2), of fma mem' alpha cov]
  obtain cov' k2 where C: "for_opt core_num (product_core fma mem' core_num m n alpha) (cov, k1) = Some (cov', k2)" "reads_once core_num k2"
    "\<And>x. cov' x = (if x < m * m then syrk_acc fma n (\<lambda>k. mem' (x div m * n + k)) (\<lambda>k. mem' (m * n + (x mod m * n + k))) * alpha else cov x)" by blast
  have first: "mem' (r * n + k) = centered_opt n inv_n (\<lambda>k. data (r * n + k)) k" if "r < m" "k < n" for r k
    unfolding M(3) div_mod_position [OF that(2)] using that row_bound [OF that(1)]
    by (simp add: centered_opt_cong [of n "\<lambda>k. if r * n + k < m * n then data (r * n + k) else datat (r * n + k - m * n)" "\<lambda>k. data (r * n + k)"])
  have second: "mem' (m * n + (c * n + k)) = centered_opt n inv_n (\<lambda>k. datat (c * n + k)) k" if "c < m" "k < n" for c k
    unfolding M(3) second_operand [OF that(2)] using that by simp
  have "cov' (r * m + c) = syrk_acc fma n (centered_opt n inv_n (\<lambda>k. data (r * n + k))) (centered_opt n inv_n (\<lambda>k. datat (c * n + k))) * alpha"
    if "r < m" "c < m" for r c
  proof -
    have "syrk_acc fma n (\<lambda>k. mem' (r * n + k)) (\<lambda>k. mem' (m * n + (c * n + k)))
        = syrk_acc fma n (centered_opt n inv_n (\<lambda>k. data (r * n + k))) (centered_opt n inv_n (\<lambda>k. datat (c * n + k)))"
      by (rule syrk_acc_cong) (simp_all only: first second that)
    then show ?thesis using tile_elem [OF that] by (simp add: C(3))
  qed
  moreover have "covariance_opt fma core_num m n inv_n alpha data datat cov k = Some (\<lambda>x. if x < m * n then mem' x else data x, \<lambda>x. mem' (m * n + x), cov', k2)"
    unfolding covariance_opt_def Let_def M(1) bind.bind_lunit prod.case C(1) ..
  ultimately show ?thesis using C(2) by blast
qed

subsection \<open>The job\<close>

datatype covariance_fp = Covariance_naive | Covariance_baseline | Covariance_opt

definition covariance_kernel :: "('a::{times,zero,plus,minus} \<Rightarrow> 'a \<Rightarrow> 'a \<Rightarrow> 'a) \<Rightarrow> nat \<Rightarrow> covariance_fp \<Rightarrow> nat \<Rightarrow> nat \<Rightarrow> 'a \<Rightarrow> 'a \<Rightarrow> (nat \<Rightarrow> 'a) \<Rightarrow> (nat \<Rightarrow> 'a) \<Rightarrow> (nat \<Rightarrow> 'a)
    \<Rightarrow> (nat \<Rightarrow> ssr_regs) \<Rightarrow> (nat \<Rightarrow> 'a) \<times> (nat \<Rightarrow> 'a) \<times> (nat \<Rightarrow> 'a) \<times> (nat \<Rightarrow> ssr_regs)" where
  "covariance_kernel fma core_num funcptr m n inv_n inv_n_m1 a aT b k =
     (case funcptr of
        Covariance_naive \<Rightarrow> (case covariance_naive core_num m n inv_n inv_n_m1 a aT b of (a, aT, b) \<Rightarrow> (a, aT, b, k))
      | Covariance_baseline \<Rightarrow> (case covariance_baseline fma core_num m n inv_n inv_n_m1 a aT b of (a, aT, b) \<Rightarrow> (a, aT, b, k))
      | Covariance_opt \<Rightarrow> (case covariance_opt fma core_num m n inv_n inv_n_m1 a aT b k of Some s \<Rightarrow> s | None \<Rightarrow> (a, aT, b, k)))"


definition covariance_fits :: "nat \<Rightarrow> covariance_fp \<Rightarrow> nat \<Rightarrow> nat \<Rightarrow> bool" where
  "covariance_fits core_num funcptr m n \<longleftrightarrow> 0 < n \<and> (case funcptr of
     Covariance_naive \<Rightarrow> True
   | Covariance_baseline \<Rightarrow> 4 dvd m \<and> 4 dvd n
   | Covariance_opt \<Rightarrow> 4 dvd m \<and> core_num * 2 dvd m \<and> 16 * (m * n) \<le> 2 ^ 32 \<and> m < 2 ^ 32)"

definition covariance_elem :: "('a::{times,zero,plus,minus} \<Rightarrow> 'a \<Rightarrow> 'a \<Rightarrow> 'a) \<Rightarrow> covariance_fp \<Rightarrow> nat \<Rightarrow> 'a \<Rightarrow> 'a \<Rightarrow> (nat \<Rightarrow> 'a) \<Rightarrow> (nat \<Rightarrow> 'a) \<Rightarrow> 'a \<Rightarrow> 'a" where
  "covariance_elem fma funcptr n inv_n alpha u v x = (case funcptr of
     Covariance_naive \<Rightarrow> syrk_cell (\<lambda>x y z. z + x * y) n alpha 0 (centered n inv_n u) (centered n inv_n v) x
   | Covariance_baseline \<Rightarrow> syrk_cell fma n alpha 0 (centered n inv_n u) (centered n inv_n v) x
   | Covariance_opt \<Rightarrow> syrk_acc fma n (centered_opt n inv_n u) (centered_opt n inv_n v) * alpha)"

lemma covariance_pair_kernel:
  fixes fma :: "'a::{times,zero,plus,minus} \<Rightarrow> 'a \<Rightarrow> 'a \<Rightarrow> 'a"
  assumes cn: "0 < core_num" and fits: "covariance_fits core_num funcptr (m div m_tiles) n"
  shows "pair_kernel_fresh (covariance_kernel fma core_num funcptr (m div m_tiles) n inv_n alpha)
    (\<lambda>k. funcptr = Covariance_opt \<and> 0 < m div m_tiles \<longrightarrow> reads_once core_num k)
    (covariance_elem fma funcptr n inv_n alpha) False m n m_tiles"
proof
  let ?h = "m div m_tiles"
  let ?ok = "\<lambda>k. funcptr = Covariance_opt \<and> 0 < ?h \<longrightarrow> reads_once core_num k"
  have n: "0 < n" using fits by (simp add: covariance_fits_def)
  have loops: "lc' (r * ?h + c) = syrk_cell f n alpha 0 (centered n inv_n (\<lambda>k. la (r * n + k))) (centered n inv_n (\<lambda>k. lat (c * n + k))) (lc (r * ?h + c))"
    if e: "covariance_centered core_num ?h n inv_n (la, lat) = (la', lat')" and rc: "r < ?h" "c < ?h"
      and g: "\<And>x. lc' x = (if x < ?h * ?h then syrk_cell f n alpha 0 (\<lambda>k. la' (x div ?h * n + k)) (\<lambda>k. lat' (x mod ?h * n + k)) (lc x) else lc x)"
    for f la lat la' lat' lc lc' r c
  proof -
    have row: "la' (r * n + k) = centered n inv_n (\<lambda>k. la (r * n + k)) k" "lat' (c * n + k) = centered n inv_n (\<lambda>k. lat (c * n + k)) k" if "k < n" for k
      using covariance_centered_at [OF cn n e] row_bound [OF rc(1) that] row_bound [OF rc(2) that] div_mod_position [OF that] by simp_all
    have "syrk_acc f n (\<lambda>k. la' (r * n + k)) (\<lambda>k. lat' (c * n + k)) = syrk_acc f n (centered n inv_n (\<lambda>k. la (r * n + k))) (centered n inv_n (\<lambda>k. lat (c * n + k)))"
      by (rule syrk_acc_cong) (simp_all only: row)
    then show ?thesis using tile_elem [OF rc] by (simp add: g syrk_cell_def)
  qed
  have opt: "\<exists>la' lat' lc' k'. covariance_opt fma core_num ?h n inv_n alpha la lat lc k = Some (la', lat', lc', k') \<and> reads_once core_num k'
      \<and> (\<forall>r < ?h. \<forall>c < ?h. lc' (r * ?h + c) = syrk_acc fma n (centered_opt n inv_n (\<lambda>k. la (r * n + k))) (centered_opt n inv_n (\<lambda>k. lat (c * n + k))) * alpha)"
    if "funcptr = Covariance_opt" "0 < ?h" "?ok k" for la lat lc k
    by (rule covariance_opt_at [OF that(2) _ n cn]) (use fits that in \<open>simp_all add: covariance_fits_def\<close>)
  fix la lat lc k la' lat' lc' k'
  assume ok: "?ok k" and f: "covariance_kernel fma core_num funcptr ?h n inv_n alpha la lat lc k = (la', lat', lc', k')"
  show "?ok k'"
  proof
    assume a: "funcptr = Covariance_opt \<and> 0 < ?h"
    then show "reads_once core_num k'" using opt [of k la lat lc] ok f by (auto simp: covariance_kernel_def)
  qed
  fix r c assume rc: "r < ?h" "c < ?h"
  have h: "0 < ?h" using rc(1) by linarith
  obtain ca cat where cen: "covariance_centered core_num ?h n inv_n (la, lat) = (ca, cat)" by fastforce
  show "lc' (r * ?h + c) = covariance_elem fma funcptr n inv_n alpha (\<lambda>k. la (r * n + k)) (\<lambda>k. lat (c * n + k)) (lc (r * ?h + c))"
  proof (cases funcptr)
    case Covariance_naive
    then have "lc' = fold (\<lambda>co. syrk_naive core_num co ?h n alpha ca cat 0) [0..<core_num] lc"
      using f cen by (auto simp: covariance_kernel_def covariance_naive_def)
    then show ?thesis unfolding Covariance_naive covariance_elem_def covariance_fp.case
      using syrk_naive_cores [OF distinct_upt upt_cores cn h] by (intro loops [OF cen rc]) (simp only:)
  next
    case Covariance_baseline
    then have "lc' = fold (\<lambda>co. syrk_baseline fma core_num co ?h n alpha ca cat 0) [0..<core_num] lc" and d: "4 dvd ?h" "4 dvd n"
      using f cen fits by (auto simp: covariance_kernel_def covariance_baseline_def covariance_fits_def)
    then show ?thesis unfolding Covariance_baseline covariance_elem_def covariance_fp.case
      using syrk_baseline_cores [OF distinct_upt upt_cores cn h d] by (intro loops [OF cen rc]) (simp only:)
  next
    case Covariance_opt
    then show ?thesis using opt [OF Covariance_opt h ok, of la lat lc] f rc by (auto simp: covariance_kernel_def covariance_elem_def)
  qed
next
  fix u u' v v' :: "nat \<Rightarrow> 'a" and x
  assume uv: "\<And>k. k < n \<Longrightarrow> u k = u' k" "\<And>k. k < n \<Longrightarrow> v k = v' k"
  have "syrk_acc f n (centered n inv_n u) (centered n inv_n v) = syrk_acc f n (centered n inv_n u') (centered n inv_n v')"
    "syrk_acc f n (centered_opt n inv_n u) (centered_opt n inv_n v) = syrk_acc f n (centered_opt n inv_n u') (centered_opt n inv_n v')" for f
    by (intro syrk_acc_cong centered_cong centered_opt_cong uv; assumption)+
  then show "covariance_elem fma funcptr n inv_n alpha u v x = covariance_elem fma funcptr n inv_n alpha u' v' x"
    by (simp add: covariance_elem_def syrk_cell_def split: covariance_fp.split)
next
  fix u v :: "nat \<Rightarrow> 'a" and x y
  show "covariance_elem fma funcptr n inv_n alpha u v x = covariance_elem fma funcptr n inv_n alpha u v y"
    by (cases funcptr) (simp_all add: covariance_elem_def syrk_cell_def multiply_opt_def)
qed simp

interpretation covariance_loops: pair_kernel_fresh "covariance_kernel fma (Suc co) Covariance_naive (m div m_tiles) (Suc l) inv_n alpha"
  "\<lambda>k. Covariance_naive = Covariance_opt \<and> 0 < m div m_tiles \<longrightarrow> reads_once (Suc co) k"
  "covariance_elem fma Covariance_naive (Suc l) inv_n alpha" False m "Suc l" m_tiles
  for fma co m l m_tiles inv_n alpha
  by (rule covariance_pair_kernel) (simp_all add: covariance_fits_def)

subsection \<open>The covariance matrix\<close>





end
