(* ===== verification/Kmeans.thy ===== *)
theory Kmeans
  imports Snitch_Prelude
begin

text \<open>
  K-means clustering over several clusters (\<open>sw/kernels/misc/kmeans/src/kmeans.h\<close>). A core assigns its
  samples to the nearest centroid, then sums the samples of each centroid; core 0 of a cluster adds
  the results of its cores, and core 0 of cluster 0 those of the clusters. The arithmetic is exact.

  The steps of the cores are interleaved as the barriers allow: there is none between the assignment
  and the update, and from the second iteration on the centroids that all cores read are the partial
  centroids of core 0 of cluster 0. The barriers between clusters separate the phases around them, which is what theory
  \<open>Cluster_Barrier\<close> shows for a power of two of clusters; the property on the job assumes that number.
\<close>

subsection \<open>Numbers\<close>

text \<open>
  Exact numbers and the value that is none: \<open>0 / 0\<close>, the mean of no samples, and whatever it is combined with.
  A comparison with it is false. (A quotient of another number by 0 would be an infinity, which is never below
  the infinite initial distance either; it is not told apart.)
\<close>

datatype 'a fp = Num 'a | Nan

instantiation fp :: (comm_monoid_add) comm_monoid_add
begin

definition zero_fp :: "'a fp" where
  "0 = Num 0"

definition plus_fp :: "'a fp \<Rightarrow> 'a fp \<Rightarrow> 'a fp" where
  "x + y = (case (x, y) of (Num a, Num b) \<Rightarrow> Num (a + b) | _ \<Rightarrow> Nan)"

instance
  by standard (auto simp: zero_fp_def plus_fp_def ac_simps split: fp.splits)

end

instantiation fp :: (minus) minus
begin

definition minus_fp :: "'a fp \<Rightarrow> 'a fp \<Rightarrow> 'a fp" where
  "x - y = (case (x, y) of (Num a, Num b) \<Rightarrow> Num (a - b) | _ \<Rightarrow> Nan)"

instance ..

end

instantiation fp :: (times) times
begin

definition times_fp :: "'a fp \<Rightarrow> 'a fp \<Rightarrow> 'a fp" where
  "x * y = (case (x, y) of (Num a, Num b) \<Rightarrow> Num (a * b) | _ \<Rightarrow> Nan)"

instance ..

end

instantiation fp :: (ord) ord
begin

definition less_fp :: "'a fp \<Rightarrow> 'a fp \<Rightarrow> bool" where
  "x < y \<longleftrightarrow> (case (x, y) of (Num a, Num b) \<Rightarrow> a < b | _ \<Rightarrow> False)"

definition less_eq_fp :: "'a fp \<Rightarrow> 'a fp \<Rightarrow> bool" where
  "x \<le> y \<longleftrightarrow> (case (x, y) of (Num a, Num b) \<Rightarrow> a \<le> b | _ \<Rightarrow> False)"

instance ..

end

definition fdiv :: "'a::field fp \<Rightarrow> nat \<Rightarrow> 'a fp" where
  "fdiv x n = (case x of Num a \<Rightarrow> if n = 0 then Nan else Num (a / of_nat n) | Nan \<Rightarrow> Nan)"

lemma fp_simps [simp]:
  "Num a + Num b = Num (a + b)" "Num c - Num d = Num (c - d)" "Num e * Num f = Num (e * f)"
  "Num g < Num h \<longleftrightarrow> g < h" "Num g \<le> Num h \<longleftrightarrow> g \<le> h"
  by (simp_all add: plus_fp_def minus_fp_def times_fp_def less_fp_def less_eq_fp_def)

lemma fp_nan [simp]: "\<not> x < Nan" "\<not> Nan < x" "\<not> x \<le> Nan" "\<not> Nan \<le> x"
  by (simp_all add: less_fp_def less_eq_fp_def split: fp.splits)

lemma fdiv_simps [simp]: "fdiv Nan n = Nan" "fdiv x 0 = Nan" "0 < n \<Longrightarrow> fdiv (Num a) n = Num (a / of_nat n)"
  by (simp_all add: fdiv_def split: fp.splits)

lemma sum_Num: "(\<Sum>i \<in> A. Num (f i)) = Num (\<Sum>i \<in> A. f i)"
  by (induction A rule: infinite_finite_induct) (simp_all add: zero_fp_def)

subsection \<open>State\<close>

text \<open>
  The number of clusters, of compute cores in a cluster, of samples of a core, of centroids
  (\<open>n_clusters\<close> in the code) and of features.
\<close>

record kmeans_cfg =
  km_clusters :: nat
  km_cores :: nat
  km_spc :: nat
  km_k :: nat
  km_features :: nat

text \<open>By cluster: the samples, the copy of the initial centroids, the membership; by cluster and core the partial results.\<close>

record 'a kmeans_state =
  km_samples :: "nat \<Rightarrow> nat \<Rightarrow> 'a"
  km_local :: "nat \<Rightarrow> nat \<Rightarrow> 'a"
  km_membership :: "nat \<Rightarrow> nat \<Rightarrow> nat"
  km_cnt :: "nat \<Rightarrow> nat \<Rightarrow> nat \<Rightarrow> nat"
  km_cen :: "nat \<Rightarrow> nat \<Rightarrow> nat \<Rightarrow> 'a"

text \<open>What \<open>local_centroids\<close> points to.\<close>

datatype centroid_ptr = Local_centroids | Final_centroids

fun initial_centroids :: "centroid_ptr \<Rightarrow> nat \<Rightarrow> 'a kmeans_state \<Rightarrow> nat \<Rightarrow> 'a" where
  "initial_centroids Local_centroids cl s = km_local s cl"
| "initial_centroids Final_centroids cl s = km_cen s 0 0"

definition set_cnt :: "nat \<Rightarrow> nat \<Rightarrow> ((nat \<Rightarrow> nat) \<Rightarrow> (nat \<Rightarrow> nat)) \<Rightarrow> 'a kmeans_state \<Rightarrow> 'a kmeans_state" where
  "set_cnt cl co f s = s\<lparr>km_cnt := (km_cnt s)(cl := (km_cnt s cl)(co := f (km_cnt s cl co)))\<rparr>"

definition set_cen :: "nat \<Rightarrow> nat \<Rightarrow> ((nat \<Rightarrow> 'a) \<Rightarrow> (nat \<Rightarrow> 'a)) \<Rightarrow> 'a kmeans_state \<Rightarrow> 'a kmeans_state" where
  "set_cen cl co f s = s\<lparr>km_cen := (km_cen s)(cl := (km_cen s cl)(co := f (km_cen s cl co)))\<rparr>"

subsection \<open>The steps of an iteration\<close>

definition euclidean_distance_squared :: "nat \<Rightarrow> (nat \<Rightarrow> 'a::linordered_field fp) \<Rightarrow> (nat \<Rightarrow> 'a fp) \<Rightarrow> 'a fp" where
  "euclidean_distance_squared n_features point1 point2 =
     for_upto 0 n_features (\<lambda>i sum. let diff = point1 i - point2 i in sum + diff * diff) 0"

text \<open>The inner loop of the assignment; \<open>None\<close> is the infinite distance, which every number is below.\<close>

definition nearest_loop :: "nat \<Rightarrow> nat \<Rightarrow> (nat \<Rightarrow> 'a::linordered_field fp) \<Rightarrow> (nat \<Rightarrow> 'a fp) \<Rightarrow> 'a fp option \<times> nat" where
  "nearest_loop n_clusters n_features centroids point =
     for_upto 0 n_clusters (\<lambda>centroid_idx (min_dist, m).
       let dist = euclidean_distance_squared n_features point (\<lambda>i. centroids (centroid_idx * n_features + i))
       in if (case min_dist of None \<Rightarrow> dist \<noteq> Nan | Some d \<Rightarrow> dist < d) then (Some dist, centroid_idx) else (min_dist, m)) (None, 0)"

definition kmeans_assign :: "kmeans_cfg \<Rightarrow> centroid_ptr \<Rightarrow> nat \<Rightarrow> nat \<Rightarrow> 'a::linordered_field fp kmeans_state \<Rightarrow> 'a fp kmeans_state" where
  "kmeans_assign cfg ptr cl co s =
     (let start_sample_idx = co * km_spc cfg; end_sample_idx = start_sample_idx + km_spc cfg;
          s = set_cnt cl co (for_upto 0 (km_k cfg) (\<lambda>centroid_idx cnt. cnt(centroid_idx := 0))) s
      in for_upto start_sample_idx end_sample_idx (\<lambda>sample_idx s.
           let m = snd (nearest_loop (km_k cfg) (km_features cfg) (initial_centroids ptr cl s)
                          (\<lambda>i. km_samples s cl (sample_idx * km_features cfg + i)));
               s = s\<lparr>km_membership := (km_membership s)(cl := (km_membership s cl)(sample_idx := m))\<rparr>
           in set_cnt cl co (\<lambda>cnt. cnt(m := cnt m + 1)) s) s)"

definition kmeans_update :: "kmeans_cfg \<Rightarrow> nat \<Rightarrow> nat \<Rightarrow> 'a::linordered_field fp kmeans_state \<Rightarrow> 'a fp kmeans_state" where
  "kmeans_update cfg cl co s =
     (let start_sample_idx = co * km_spc cfg; end_sample_idx = start_sample_idx + km_spc cfg; nf = km_features cfg
      in set_cen cl co (\<lambda>cen.
           let cen = for_upto 0 (km_k cfg) (\<lambda>centroid_idx. for_upto 0 nf (\<lambda>feature_idx cen. cen(centroid_idx * nf + feature_idx := 0))) cen
           in for_upto start_sample_idx end_sample_idx (\<lambda>sample_idx. for_upto 0 nf (\<lambda>feature_idx cen.
                let e = km_membership s cl sample_idx * nf + feature_idx
                in cen(e := cen e + km_samples s cl (sample_idx * nf + feature_idx)))) cen) s)"

text \<open>The loop body that adds the results of another core, in this cluster or another one.\<close>

definition kmeans_add :: "kmeans_cfg \<Rightarrow> nat \<Rightarrow> nat \<Rightarrow> nat \<Rightarrow> 'a::linordered_field fp kmeans_state \<Rightarrow> 'a fp kmeans_state" where
  "kmeans_add cfg cl cl' co' s =
     for_upto 0 (km_k cfg) (\<lambda>centroid_idx s.
       let s = set_cnt cl 0 (\<lambda>cnt. cnt(centroid_idx := cnt centroid_idx + km_cnt s cl' co' centroid_idx)) s
       in for_upto 0 (km_features cfg) (\<lambda>feature_idx s.
            let e = centroid_idx * km_features cfg + feature_idx
            in set_cen cl 0 (\<lambda>cen. cen(e := cen e + km_cen s cl' co' e)) s) s) s"

definition kmeans_reduce :: "kmeans_cfg \<Rightarrow> nat \<Rightarrow> 'a::linordered_field fp kmeans_state \<Rightarrow> 'a fp kmeans_state" where
  "kmeans_reduce cfg cl = for_upto 1 (km_cores cfg) (\<lambda>core_idx. kmeans_add cfg cl cl core_idx)"

definition kmeans_reduce_clusters :: "kmeans_cfg \<Rightarrow> 'a::linordered_field fp kmeans_state \<Rightarrow> 'a fp kmeans_state" where
  "kmeans_reduce_clusters cfg = for_upto 1 (km_clusters cfg) (\<lambda>cluster_idx. kmeans_add cfg 0 cluster_idx 0)"

definition kmeans_normalize :: "kmeans_cfg \<Rightarrow> 'a::linordered_field fp kmeans_state \<Rightarrow> 'a fp kmeans_state" where
  "kmeans_normalize cfg s = set_cen 0 0 (\<lambda>cen.
     for_upto 0 (km_k cfg) (\<lambda>centroid_idx. for_upto 0 (km_features cfg) (\<lambda>feature_idx cen.
       let e = centroid_idx * km_features cfg + feature_idx in cen(e := fdiv (cen e) (km_cnt s 0 0 centroid_idx)))) cen) s"

subsection \<open>Iterations\<close>

datatype km_step = Assign nat nat | Update nat nat | Reduce nat

fun km_run :: "kmeans_cfg \<Rightarrow> centroid_ptr \<Rightarrow> km_step \<Rightarrow> 'a::linordered_field fp kmeans_state \<Rightarrow> 'a fp kmeans_state" where
  "km_run cfg ptr (Assign cl co) = kmeans_assign cfg ptr cl co"
| "km_run cfg ptr (Update cl co) = kmeans_update cfg cl co"
| "km_run cfg ptr (Reduce cl) = kmeans_reduce cfg cl"

text \<open>
  Core 0 of cluster 0 goes on when all clusters have reached the barrier between clusters.
\<close>

definition kmeans_iteration :: "kmeans_cfg \<Rightarrow> centroid_ptr \<Rightarrow> km_step list \<Rightarrow> 'a::linordered_field fp kmeans_state \<Rightarrow> 'a fp kmeans_state" where
  "kmeans_iteration cfg ptr sched s = kmeans_normalize cfg (kmeans_reduce_clusters cfg (fold (km_run cfg ptr) sched s))"

text \<open>
  The steps that an order of the cores may take next, as the barriers of the code allow: a core updates after it has assigned,
  core 0 reduces after the barrier of its cluster.
\<close>

fun km_next :: "kmeans_cfg \<Rightarrow> km_step list \<Rightarrow> km_step \<Rightarrow> bool" where
  "km_next cfg past (Assign cl co) \<longleftrightarrow> cl < km_clusters cfg \<and> co < km_cores cfg"
| "km_next cfg past (Update cl co) \<longleftrightarrow> cl < km_clusters cfg \<and> co < km_cores cfg \<and> Assign cl co \<in> set past"
| "km_next cfg past (Reduce cl) \<longleftrightarrow> cl < km_clusters cfg \<and> (\<forall>co < km_cores cfg. Update cl co \<in> set past)"

fun km_sched :: "kmeans_cfg \<Rightarrow> km_step list \<Rightarrow> km_step list \<Rightarrow> bool" where
  "km_sched cfg past [] \<longleftrightarrow> (\<forall>cl < km_clusters cfg. Reduce cl \<in> set past)"
| "km_sched cfg past (x # xs) \<longleftrightarrow> x \<notin> set past \<and> km_next cfg past x \<and> km_sched cfg (x # past) xs"

text \<open>
  The job after the transfers: every core reads its cluster's copy of the centroids first and the
  result of cluster 0 afterwards.
\<close>

definition kmeans_iterations :: "kmeans_cfg \<Rightarrow> nat \<Rightarrow> (nat \<Rightarrow> km_step list) \<Rightarrow> 'a::linordered_field fp kmeans_state \<Rightarrow> 'a fp kmeans_state" where
  "kmeans_iterations cfg n_iter sched =
     for_upto 0 n_iter (\<lambda>iter_idx. kmeans_iteration cfg (if iter_idx = 0 then Local_centroids else Final_centroids) (sched iter_idx))"

text \<open>
  The job: the distribution of the samples, the transfers, the iterations, the result. The transfer of the
  centroids multiplies their size by the size of a number twice.
\<close>

definition kmeans_cfg_of :: "nat \<Rightarrow> nat \<Rightarrow> nat \<Rightarrow> nat \<Rightarrow> nat \<Rightarrow> kmeans_cfg" where
  "kmeans_cfg_of cluster_num core_num n_samples n_features n_clusters =
     \<lparr>km_clusters = cluster_num, km_cores = core_num, km_spc = n_samples div cluster_num div core_num, km_k = n_clusters, km_features = n_features\<rparr>"

definition kmeans_job :: "nat \<Rightarrow> nat \<Rightarrow> nat \<Rightarrow> nat \<Rightarrow> nat \<Rightarrow> nat \<Rightarrow> (nat \<Rightarrow> 'a::linordered_field fp) \<Rightarrow> (nat \<Rightarrow> 'a fp) \<Rightarrow> (nat \<Rightarrow> km_step list)
    \<Rightarrow> 'a fp kmeans_state \<Rightarrow> (nat \<Rightarrow> 'a fp)" where
  "kmeans_job cluster_num core_num n_samples n_features n_clusters n_iter samples centroids sched s =
     (let n_samples_per_cluster = n_samples div cluster_num;
          size = n_samples_per_cluster * n_features;
          s = s\<lparr>km_samples := \<lambda>cl i. if i < size then samples (cl * size + i) else km_samples s cl i,
                km_local := \<lambda>cl i. if i < n_clusters * n_features * 8 then centroids i else km_local s cl i\<rparr>;
          s = kmeans_iterations (kmeans_cfg_of cluster_num core_num n_samples n_features n_clusters) n_iter sched s
      in (\<lambda>i. if i < n_clusters * n_features then km_cen s 0 0 i else centroids i))"

subsection \<open>The nearest centroid\<close>

text \<open>
  The specification: the first centroid at the least distance, among those whose distance is a number; the first one when there is none.
\<close>

definition distance :: "nat \<Rightarrow> (nat \<Rightarrow> 'a::linordered_field fp) \<Rightarrow> (nat \<Rightarrow> 'a fp) \<Rightarrow> nat \<Rightarrow> 'a fp" where
  "distance nf C p c = (\<Sum>i < nf. (p i - C (c * nf + i)) * (p i - C (c * nf + i)))"

definition is_nearest :: "nat \<Rightarrow> nat \<Rightarrow> (nat \<Rightarrow> 'a::linordered_field fp) \<Rightarrow> (nat \<Rightarrow> 'a fp) \<Rightarrow> nat \<Rightarrow> bool" where
  "is_nearest k nf C p c \<longleftrightarrow> c < k
     \<and> (if distance nf C p c = Nan then c = 0 \<and> (\<forall>c' < k. distance nf C p c' = Nan)
        else (\<forall>c' < k. distance nf C p c' \<noteq> Nan \<longrightarrow> distance nf C p c \<le> distance nf C p c')
           \<and> (\<forall>c' < c. distance nf C p c' \<noteq> Nan \<longrightarrow> distance nf C p c < distance nf C p c'))"

lemma distance_loop: "euclidean_distance_squared nf p (\<lambda>i. C (c * nf + i)) = distance nf C p c"
proof -
  have "for_upto 0 n (\<lambda>i sum. let diff = p i - C (c * nf + i) in sum + diff * diff) 0
      = (\<Sum>i < n. (p i - C (c * nf + i)) * (p i - C (c * nf + i)))" for n
    by (induction n) (simp_all add: for_upto_Suc Let_def)
  then show ?thesis by (simp add: euclidean_distance_squared_def distance_def)
qed

lemma fp_order:
  fixes x y z :: "'a::linorder fp"
  shows "x < y \<Longrightarrow> y \<le> z \<Longrightarrow> x < z" and "x < y \<Longrightarrow> x \<le> y" and "\<not> x < y \<Longrightarrow> x \<noteq> Nan \<Longrightarrow> y \<noteq> Nan \<Longrightarrow> y \<le> x" and "x \<noteq> Nan \<Longrightarrow> x \<le> x"
    and "x < y \<Longrightarrow> \<not> y \<le> x"
  by (cases x; cases y; cases z; auto)+

lemma nearest_loop_invariant:
  "0 < k \<Longrightarrow> \<exists>c. nearest_loop k nf C p = (if distance nf C p c = Nan then None else Some (distance nf C p c), c) \<and> is_nearest k nf C p c"
proof (induction k)
  case (Suc k)
  let ?d = "distance nf C p"
  let ?f = "\<lambda>centroid_idx (min_dist, m).
       let dist = euclidean_distance_squared nf p (\<lambda>i. C (centroid_idx * nf + i))
       in if (case min_dist of None \<Rightarrow> dist \<noteq> Nan | Some d \<Rightarrow> dist < d) then (Some dist, centroid_idx) else (min_dist, m)"
  have e: "nearest_loop (Suc k) nf C p = ?f k (nearest_loop k nf C p)" by (simp add: nearest_loop_def for_upto_Suc)
  show ?case
  proof (cases "k = 0")
    case True
    then show ?thesis unfolding e using distance_loop [of nf p C 0] fp_order(4) [of "?d 0"] by (simp add: nearest_loop_def is_nearest_def)
  next
    case False
    then obtain c where c: "nearest_loop k nf C p = (if ?d c = Nan then None else Some (?d c), c)" "is_nearest k nf C p c" using Suc.IH by auto
    have ck: "c < k" using c(2) by (simp add: is_nearest_def)
    show ?thesis
    proof (cases "if ?d c = Nan then ?d k \<noteq> Nan else ?d k < ?d c")
      case True
      then have n: "?d k \<noteq> Nan" by (auto split: if_splits)
      have lt: "?d k < ?d c'" if "c' < k" "?d c' \<noteq> Nan" for c'
      proof -
        have "?d c \<noteq> Nan" "?d c \<le> ?d c'" using c(2) that by (auto simp: is_nearest_def split: if_splits)
        then show ?thesis using True fp_order(1) by simp
      qed
      have "is_nearest (Suc k) nf C p k"
        using n lt fp_order(2) [OF lt] fp_order(4) [OF n] by (auto simp: is_nearest_def less_Suc_eq)
      then show ?thesis unfolding e using c(1) True n by (intro exI [of _ k]) (auto simp: distance_loop split: if_splits)
    next
      case False
      then have "is_nearest (Suc k) nf C p c"
        using c(2) fp_order(3) [of "?d k" "?d c"] by (auto simp: is_nearest_def less_Suc_eq split: if_splits)
      then show ?thesis unfolding e using c(1) False by (intro exI [of _ c]) (auto simp: distance_loop split: if_splits)
    qed
  qed
qed simp

lemma is_nearest_unique: "is_nearest k nf C p c \<Longrightarrow> is_nearest k nf C p c' \<Longrightarrow> c = c'"
  unfolding is_nearest_def by (metis fp_order(5) linorder_neqE_nat)

definition nearest :: "kmeans_cfg \<Rightarrow> (nat \<Rightarrow> 'a::linordered_field fp) \<Rightarrow> (nat \<Rightarrow> 'a fp) \<Rightarrow> nat" where
  "nearest cfg C p = snd (nearest_loop (km_k cfg) (km_features cfg) C p)"

lemma nearest_is: "0 < km_k cfg \<Longrightarrow> is_nearest (km_k cfg) (km_features cfg) C p (nearest cfg C p)"
  using nearest_loop_invariant [of "km_k cfg" "km_features cfg" C p] by (auto simp: nearest_def)

lemma nearest_less: "0 < km_k cfg \<Longrightarrow> nearest cfg C p < km_k cfg"
  using nearest_is by (auto simp: is_nearest_def)

subsection \<open>What the steps do\<close>

text \<open>The samples of a core, and its sums by centroid for any membership.\<close>

definition core_range :: "kmeans_cfg \<Rightarrow> nat \<Rightarrow> nat set" where
  "core_range cfg co = {co * km_spc cfg..<co * km_spc cfg + km_spc cfg}"

definition core_sample :: "kmeans_cfg \<Rightarrow> 'a kmeans_state \<Rightarrow> nat \<Rightarrow> nat \<Rightarrow> nat \<Rightarrow> 'a" where
  "core_sample cfg s cl i = (\<lambda>j. km_samples s cl (i * km_features cfg + j))"

definition counts :: "kmeans_cfg \<Rightarrow> (nat \<Rightarrow> nat) \<Rightarrow> nat \<Rightarrow> nat \<Rightarrow> nat" where
  "counts cfg mem co c = (\<Sum>i \<in> core_range cfg co. if mem i = c then 1 else 0)"

definition sums :: "kmeans_cfg \<Rightarrow> (nat \<Rightarrow> nat) \<Rightarrow> (nat \<Rightarrow> nat \<Rightarrow> 'a::linordered_field fp) \<Rightarrow> nat \<Rightarrow> nat \<Rightarrow> 'a fp" where
  "sums cfg mem smp co e = (\<Sum>i \<in> core_range cfg co. if mem i = e div km_features cfg then smp i (e mod km_features cfg) else 0)"

lemma set_simps [simp]:
  "km_cnt (set_cnt cl co f s) = (km_cnt s)(cl := (km_cnt s cl)(co := f (km_cnt s cl co)))"
  "km_cen (set_cnt cl co f s) = km_cen s" "km_samples (set_cnt cl co f s) = km_samples s" "km_local (set_cnt cl co f s) = km_local s"
  "km_membership (set_cnt cl co f s) = km_membership s"
  "km_cen (set_cen cl co g s) = (km_cen s)(cl := (km_cen s cl)(co := g (km_cen s cl co)))"
  "km_cnt (set_cen cl co g s) = km_cnt s" "km_samples (set_cen cl co g s) = km_samples s" "km_local (set_cen cl co g s) = km_local s"
  "km_membership (set_cen cl co g s) = km_membership s"
  by (simp_all add: set_cnt_def set_cen_def)

lemma initial_same: "km_local s' = km_local s \<Longrightarrow> km_cen s' = km_cen s \<Longrightarrow> initial_centroids ptr cl s' = initial_centroids ptr cl s"
  by (cases ptr) simp_all

lemma range_Suc: "{a..<Suc (a + n)} = insert (a + n) {a..<a + n}" "a + n \<notin> {a..<a + n}" "finite {a..<a + n}"
  by auto

lemma assign_at:
  fixes s :: "'a::linordered_field fp kmeans_state"
  assumes "0 < km_k cfg" and s': "s' = kmeans_assign cfg ptr cl co s"
  defines "mem \<equiv> \<lambda>i. nearest cfg (initial_centroids ptr cl s) (core_sample cfg s cl i)"
  shows "km_samples s' = km_samples s" and "km_local s' = km_local s" and "km_cen s' = km_cen s"
    and "km_membership s' = (km_membership s)(cl := (\<lambda>i. if i \<in> core_range cfg co then mem i else km_membership s cl i))"
    and "\<And>c. c < km_k cfg \<Longrightarrow> km_cnt s' cl co c = counts cfg mem co c"
    and "\<And>cl' co'. cl' \<noteq> cl \<or> co' \<noteq> co \<Longrightarrow> km_cnt s' cl' co' = km_cnt s cl' co'"
proof -
  let ?a = "co * km_spc cfg"
  define s0 where "s0 = set_cnt cl co (for_upto 0 (km_k cfg) (\<lambda>c cnt. cnt(c := 0))) s"
  define body where "body i t = (let m = snd (nearest_loop (km_k cfg) (km_features cfg) (initial_centroids ptr cl t)
                          (\<lambda>j. km_samples t cl (i * km_features cfg + j)));
               t = t\<lparr>km_membership := (km_membership t)(cl := (km_membership t cl)(i := m))\<rparr>
           in set_cnt cl co (\<lambda>cnt. cnt(m := cnt m + 1)) t)" for i and t :: "'a fp kmeans_state"
  have e: "s' = for_upto ?a (?a + km_spc cfg) body s0" by (simp add: s' kmeans_assign_def s0_def body_def [abs_def] Let_def)
  have zero: "km_cnt s0 cl co c = 0" if "c < km_k cfg" for c
    using row_loop [of "km_k cfg" 0 "\<lambda>_. 0" "km_cnt s cl co" c] that by (simp add: s0_def)
  define I where "I n t \<longleftrightarrow> km_samples t = km_samples s \<and> km_local t = km_local s \<and> km_cen t = km_cen s
    \<and> km_membership t = (km_membership s)(cl := (\<lambda>i. if i \<in> {?a..<?a + n} then mem i else km_membership s cl i))
    \<and> (\<forall>c < km_k cfg. km_cnt t cl co c = (\<Sum>i \<in> {?a..<?a + n}. if mem i = c then 1 else 0))
    \<and> (\<forall>cl' co'. cl' \<noteq> cl \<or> co' \<noteq> co \<longrightarrow> km_cnt t cl' co' = km_cnt s cl' co')" for n and t :: "'a fp kmeans_state"
  have "I n (for_upto ?a (?a + n) body s0)" for n
  proof (induction n)
    case 0
    show ?case using zero by (simp add: I_def) (simp add: s0_def)
  next
    case (Suc n)
    let ?t = "for_upto ?a (?a + n) body s0"
    have I: "I n ?t" by (rule Suc)
    have m: "snd (nearest_loop (km_k cfg) (km_features cfg) (initial_centroids ptr cl ?t) (\<lambda>j. km_samples ?t cl ((?a + n) * km_features cfg + j))) = mem (?a + n)"
      using I initial_same [of ?t s ptr cl] by (simp add: I_def mem_def nearest_def core_sample_def)
    have b: "body (?a + n) ?t = set_cnt cl co (\<lambda>cnt. cnt(mem (?a + n) := cnt (mem (?a + n)) + 1))
        (?t\<lparr>km_membership := (km_membership ?t)(cl := (km_membership ?t cl)(?a + n := mem (?a + n)))\<rparr>)"
      unfolding body_def Let_def m ..
    have lt: "mem (?a + n) < km_k cfg" unfolding mem_def by (rule nearest_less [OF assms(1)])
    have st: "for_upto ?a (?a + Suc n) body s0 = body (?a + n) ?t" by (simp add: for_upto_Suc)
    show ?case unfolding st b I_def using I lt by (auto simp: I_def range_Suc fun_eq_iff less_Suc_eq)
  qed
  then have "I (km_spc cfg) s'" by (simp only: e)
  then show "km_samples s' = km_samples s" "km_local s' = km_local s" "km_cen s' = km_cen s"
    "km_membership s' = (km_membership s)(cl := (\<lambda>i. if i \<in> core_range cfg co then mem i else km_membership s cl i))"
    "\<And>c. c < km_k cfg \<Longrightarrow> km_cnt s' cl co c = counts cfg mem co c"
    "\<And>cl' co'. cl' \<noteq> cl \<or> co' \<noteq> co \<Longrightarrow> km_cnt s' cl' co' = km_cnt s cl' co'"
    by (auto simp: I_def core_range_def counts_def)
qed

text \<open>Sums over the elements of all centroids.\<close>

lemma elem_loop: "for_upto 0 k (\<lambda>c. for_upto 0 nf (\<lambda>f. g (c * nf + f))) s = for_upto 0 (k * nf) g s"
  by (induction k) (simp_all add: for_upto_Suc for_upto_append [of "_ * nf" nf] add.commute [of nf])

lemma add_row: "for_upto 0 w (\<lambda>j c. c(p + j := g j (c (p + j)))) c x = (if p \<le> x \<and> x < p + w then g (x - p) (c x) else c x)"
  by (induction w) (auto simp: for_upto_Suc)

lemma elem_div:
  fixes e m nf :: nat
  assumes "0 < nf"
  shows "m * nf \<le> e \<and> e < m * nf + nf \<longleftrightarrow> e div nf = m" and "e div nf = m \<Longrightarrow> e - m * nf = e mod nf"
proof -
  show "m * nf \<le> e \<and> e < m * nf + nf \<longleftrightarrow> e div nf = m"
    using assms by (metis add.commute div_less_iff_less_mult less_Suc_eq_le less_eq_div_iff_mult_less_eq mult_Suc eq_iff)
  show "e div nf = m \<Longrightarrow> e - m * nf = e mod nf" by (simp add: minus_div_mult_eq_mod [symmetric])
qed

lemma update_at:
  fixes s :: "'a::linordered_field fp kmeans_state"
  assumes "0 < km_features cfg" and s': "s' = kmeans_update cfg cl co s"
  shows "km_samples s' = km_samples s" and "km_local s' = km_local s" and "km_membership s' = km_membership s" and "km_cnt s' = km_cnt s"
    and "\<And>e. e < km_k cfg * km_features cfg \<Longrightarrow> km_cen s' cl co e = sums cfg (km_membership s cl) (core_sample cfg s cl) co e"
    and "\<And>cl' co'. cl' \<noteq> cl \<or> co' \<noteq> co \<Longrightarrow> km_cen s' cl' co' = km_cen s cl' co'"
proof -
  let ?a = "co * km_spc cfg" and ?nf = "km_features cfg"
  define rw where "rw i = for_upto 0 ?nf (\<lambda>f cen. let e = km_membership s cl i * ?nf + f in cen(e := cen e + km_samples s cl (i * ?nf + f)))" for i
  define z where "z = for_upto 0 (km_k cfg) (\<lambda>c. for_upto 0 ?nf (\<lambda>f cen. cen(c * ?nf + f := 0))) (km_cen s cl co)"
  have zero: "z e = 0" if "e < km_k cfg * ?nf" for e
    unfolding z_def elem_loop [where g = "\<lambda>e cen. cen(e := 0)"] using row_loop [of "km_k cfg * ?nf" 0 "\<lambda>_. 0" "km_cen s cl co" e] that by simp
  have row: "rw i c e = (if km_membership s cl i = e div ?nf then c e + core_sample cfg s cl i (e mod ?nf) else c e)" for i c e
  proof -
    have r: "rw i c e = (if e div ?nf = km_membership s cl i then c e + km_samples s cl (i * ?nf + (e - km_membership s cl i * ?nf)) else c e)"
      unfolding rw_def Let_def add_row [where g = "\<lambda>f y. y + km_samples s cl (i * ?nf + f)"] elem_div(1) [OF assms(1)] ..
    show ?thesis
    proof (cases "e div ?nf = km_membership s cl i")
      case True
      show ?thesis unfolding r elem_div(2) [OF assms(1) True] by (simp only: True core_sample_def if_True)
    qed (simp add: r)
  qed
  have "for_upto ?a (?a + n) rw z e = z e + (\<Sum>i \<in> {?a..<?a + n}. if km_membership s cl i = e div ?nf then core_sample cfg s cl i (e mod ?nf) else 0)" for n e
    by (induction n) (simp_all add: for_upto_Suc row add.assoc)
  moreover have "km_cen s' cl co = for_upto ?a (?a + km_spc cfg) rw z"
    by (simp add: s' kmeans_update_def Let_def z_def rw_def [abs_def])
  ultimately show "\<And>e. e < km_k cfg * ?nf \<Longrightarrow> km_cen s' cl co e = sums cfg (km_membership s cl) (core_sample cfg s cl) co e"
    using zero by (simp add: sums_def core_range_def)
  show "km_samples s' = km_samples s" "km_local s' = km_local s" "km_membership s' = km_membership s" "km_cnt s' = km_cnt s"
    "\<And>cl' co'. cl' \<noteq> cl \<or> co' \<noteq> co \<Longrightarrow> km_cen s' cl' co' = km_cen s cl' co'"
    by (auto simp: s' kmeans_update_def Let_def)
qed

text \<open>Adding the results of another core.\<close>

lemma add_at:
  fixes s :: "'a::linordered_field fp kmeans_state"
  assumes s': "s' = kmeans_add cfg cl cl' co' s" and ne: "cl' \<noteq> cl \<or> co' \<noteq> 0"
  shows "km_samples s' = km_samples s" and "km_local s' = km_local s" and "km_membership s' = km_membership s"
    and "\<And>c. km_cnt s' cl 0 c = (if c < km_k cfg then km_cnt s cl 0 c + km_cnt s cl' co' c else km_cnt s cl 0 c)"
    and "\<And>e. km_cen s' cl 0 e = (if e < km_k cfg * km_features cfg then km_cen s cl 0 e + km_cen s cl' co' e else km_cen s cl 0 e)"
    and "\<And>d o'. d \<noteq> cl \<or> o' \<noteq> 0 \<Longrightarrow> km_cnt s' d o' = km_cnt s d o' \<and> km_cen s' d o' = km_cen s d o'"
proof -
  let ?nf = "km_features cfg"
  define inner where "inner c n = for_upto 0 n (\<lambda>f (s :: 'a fp kmeans_state). let e = c * ?nf + f in set_cen cl 0 (\<lambda>cen. cen(e := cen e + km_cen s cl' co' e)) s)" for c n
  have inner: "inner c n t = set_cen cl 0 (\<lambda>cen e. if c * ?nf \<le> e \<and> e < c * ?nf + n then cen e + km_cen t cl' co' e else cen e) t" for c n t
  proof (induction n)
    case 0
    have "(\<lambda>cen e. if c * ?nf \<le> e \<and> e < c * ?nf + 0 then cen e + km_cen t cl' co' e else cen e) = (\<lambda>cen. cen)" by (auto simp: fun_eq_iff)
    then show ?case by (simp only:) (simp add: inner_def set_cen_def)
  next
    case (Suc n)
    have other: "km_cen (inner c n t) cl' co' = km_cen t cl' co'" using ne by (auto simp: Suc)
    have "inner c (Suc n) t = set_cen cl 0 (\<lambda>cen. cen(c * ?nf + n := cen (c * ?nf + n) + km_cen t cl' co' (c * ?nf + n))) (inner c n t)"
      using other by (simp add: inner_def for_upto_Suc Let_def)
    then show ?case unfolding Suc by (auto simp: set_cen_def fun_eq_iff)
  qed
  define outer where "outer n = for_upto 0 n (\<lambda>c (s :: 'a fp kmeans_state). let s = set_cnt cl 0 (\<lambda>cnt. cnt(c := cnt c + km_cnt s cl' co' c)) s in inner c ?nf s)" for n
  have outer: "outer n t = set_cen cl 0 (\<lambda>cen e. if e < n * ?nf then cen e + km_cen t cl' co' e else cen e)
      (set_cnt cl 0 (\<lambda>cnt c. if c < n then cnt c + km_cnt t cl' co' c else cnt c) t)" for n t
  proof (induction n)
    case 0
    show ?case by (simp add: outer_def set_cen_def set_cnt_def)
  next
    case (Suc n)
    have other: "km_cnt (outer n t) cl' co' = km_cnt t cl' co'" "km_cen (outer n t) cl' co' = km_cen t cl' co'" using ne by (auto simp: Suc)
    have "outer (Suc n) t = inner n ?nf (set_cnt cl 0 (\<lambda>cnt. cnt(n := cnt n + km_cnt t cl' co' n)) (outer n t))"
      using other by (simp add: outer_def for_upto_Suc Let_def)
    then show ?case unfolding inner Suc using ne by (auto simp: set_cen_def set_cnt_def fun_eq_iff)
  qed
  have "s' = outer (km_k cfg) s" by (simp add: s' kmeans_add_def outer_def inner_def)
  then show "km_samples s' = km_samples s" "km_local s' = km_local s" "km_membership s' = km_membership s"
    "\<And>c. km_cnt s' cl 0 c = (if c < km_k cfg then km_cnt s cl 0 c + km_cnt s cl' co' c else km_cnt s cl 0 c)"
    "\<And>e. km_cen s' cl 0 e = (if e < km_k cfg * ?nf then km_cen s cl 0 e + km_cen s cl' co' e else km_cen s cl 0 e)"
    "\<And>d o'. d \<noteq> cl \<or> o' \<noteq> 0 \<Longrightarrow> km_cnt s' d o' = km_cnt s d o' \<and> km_cen s' d o' = km_cen s d o'"
    by (auto simp: outer)
qed

lemma reduce_upto:
  fixes s :: "'a::linordered_field fp kmeans_state"
  assumes s': "s' = for_upto 1 (Suc m) (\<lambda>core_idx. kmeans_add cfg cl cl core_idx) s"
  shows "km_samples s' = km_samples s \<and> km_local s' = km_local s \<and> km_membership s' = km_membership s
    \<and> (\<forall>c < km_k cfg. km_cnt s' cl 0 c = (\<Sum>co < Suc m. km_cnt s cl co c))
    \<and> (\<forall>e < km_k cfg * km_features cfg. km_cen s' cl 0 e = (\<Sum>co < Suc m. km_cen s cl co e))
    \<and> (\<forall>d o'. d \<noteq> cl \<or> o' \<noteq> 0 \<longrightarrow> km_cnt s' d o' = km_cnt s d o' \<and> km_cen s' d o' = km_cen s d o')"
  unfolding s'
proof (induction m)
  case (Suc m)
  let ?t = "for_upto 1 (Suc m) (\<lambda>core_idx. kmeans_add cfg cl cl core_idx) s"
  have "for_upto 1 (Suc (Suc m)) (\<lambda>core_idx. kmeans_add cfg cl cl core_idx) s = kmeans_add cfg cl cl (Suc m) ?t" by (simp add: for_upto_Suc)
  note A = add_at [OF this, simplified]
  show ?case using Suc A by simp
qed simp

lemma reduce_clusters_upto:
  fixes s :: "'a::linordered_field fp kmeans_state"
  assumes s': "s' = for_upto 1 (Suc m) (\<lambda>cluster_idx. kmeans_add cfg 0 cluster_idx 0) s"
  shows "km_samples s' = km_samples s \<and> km_local s' = km_local s \<and> km_membership s' = km_membership s
    \<and> (\<forall>c < km_k cfg. km_cnt s' 0 0 c = (\<Sum>cl < Suc m. km_cnt s cl 0 c))
    \<and> (\<forall>e < km_k cfg * km_features cfg. km_cen s' 0 0 e = (\<Sum>cl < Suc m. km_cen s cl 0 e))
    \<and> (\<forall>d o'. d \<noteq> 0 \<or> o' \<noteq> 0 \<longrightarrow> km_cnt s' d o' = km_cnt s d o' \<and> km_cen s' d o' = km_cen s d o')"
  unfolding s'
proof (induction m)
  case (Suc m)
  let ?t = "for_upto 1 (Suc m) (\<lambda>cluster_idx. kmeans_add cfg 0 cluster_idx 0) s"
  have "for_upto 1 (Suc (Suc m)) (\<lambda>cluster_idx. kmeans_add cfg 0 cluster_idx 0) s = kmeans_add cfg 0 (Suc m) 0 ?t" by (simp add: for_upto_Suc)
  note A = add_at [OF this, simplified]
  show ?case using Suc A by simp
qed simp

subsection \<open>Every order of the steps\<close>

lemma core_ranges: "i \<in> core_range cfg co \<Longrightarrow> i \<in> core_range cfg co' \<Longrightarrow> co = co'"
  using elem_div(1) [of "km_spc cfg" co i] elem_div(1) [of "km_spc cfg" co' i] by (auto simp: core_range_def)

lemma sums_cong: "(\<And>i. i \<in> core_range cfg co \<Longrightarrow> mem i = mem' i) \<Longrightarrow> sums cfg mem smp co e = sums cfg mem' smp co e"
  unfolding sums_def by (intro sum.cong) simp_all

text \<open>The invariant: what the steps that are past have left in the state.\<close>

definition assigned :: "kmeans_cfg \<Rightarrow> (nat \<Rightarrow> nat \<Rightarrow> nat) \<Rightarrow> 'a::linordered_field fp kmeans_state \<Rightarrow> nat \<Rightarrow> nat \<Rightarrow> bool" where
  "assigned cfg mem s cl co \<longleftrightarrow> (\<forall>i \<in> core_range cfg co. km_membership s cl i = mem cl i)"

definition counted :: "kmeans_cfg \<Rightarrow> (nat \<Rightarrow> nat \<Rightarrow> nat) \<Rightarrow> 'a::linordered_field fp kmeans_state \<Rightarrow> nat \<Rightarrow> nat \<Rightarrow> bool" where
  "counted cfg mem s cl co \<longleftrightarrow> (\<forall>c < km_k cfg. km_cnt s cl co c = counts cfg (mem cl) co c)"

definition summed :: "kmeans_cfg \<Rightarrow> 'a::linordered_field fp kmeans_state \<Rightarrow> (nat \<Rightarrow> nat \<Rightarrow> nat) \<Rightarrow> 'a fp kmeans_state \<Rightarrow> nat \<Rightarrow> nat \<Rightarrow> bool" where
  "summed cfg s0 mem s cl co \<longleftrightarrow> (\<forall>e < km_k cfg * km_features cfg. km_cen s cl co e = sums cfg (mem cl) (core_sample cfg s0 cl) co e)"

definition reduced :: "kmeans_cfg \<Rightarrow> 'a::linordered_field fp kmeans_state \<Rightarrow> (nat \<Rightarrow> nat \<Rightarrow> nat) \<Rightarrow> 'a fp kmeans_state \<Rightarrow> nat \<Rightarrow> bool" where
  "reduced cfg s0 mem s cl \<longleftrightarrow> (\<forall>c < km_k cfg. km_cnt s cl 0 c = (\<Sum>co < km_cores cfg. counts cfg (mem cl) co c))
     \<and> (\<forall>e < km_k cfg * km_features cfg. km_cen s cl 0 e = (\<Sum>co < km_cores cfg. sums cfg (mem cl) (core_sample cfg s0 cl) co e))"

definition new_membership :: "kmeans_cfg \<Rightarrow> centroid_ptr \<Rightarrow> 'a::linordered_field fp kmeans_state \<Rightarrow> nat \<Rightarrow> nat \<Rightarrow> nat" where
  "new_membership cfg ptr s0 cl i = nearest cfg (initial_centroids ptr cl s0) (core_sample cfg s0 cl i)"

definition km_order :: "kmeans_cfg \<Rightarrow> km_step list \<Rightarrow> bool" where
  "km_order cfg past \<longleftrightarrow> (\<forall>cl co. Update cl co \<in> set past \<longrightarrow> Assign cl co \<in> set past)
     \<and> (\<forall>cl co. Reduce cl \<in> set past \<longrightarrow> co < km_cores cfg \<longrightarrow> Update cl co \<in> set past)"

definition km_inv :: "kmeans_cfg \<Rightarrow> centroid_ptr \<Rightarrow> 'a::linordered_field fp kmeans_state \<Rightarrow> km_step list \<Rightarrow> 'a fp kmeans_state \<Rightarrow> bool" where
  "km_inv cfg ptr s0 past s \<longleftrightarrow> km_order cfg past \<and> km_samples s = km_samples s0 \<and> km_local s = km_local s0
     \<and> (Update 0 0 \<in> set past \<or> km_cen s 0 0 = km_cen s0 0 0)
     \<and> (\<forall>cl co. Assign cl co \<in> set past \<longrightarrow> assigned cfg (new_membership cfg ptr s0) s cl co)
     \<and> (\<forall>cl co. Assign cl co \<in> set past \<longrightarrow> co \<noteq> 0 \<or> Reduce cl \<notin> set past \<longrightarrow> counted cfg (new_membership cfg ptr s0) s cl co)
     \<and> (\<forall>cl co. Update cl co \<in> set past \<longrightarrow> co \<noteq> 0 \<or> Reduce cl \<notin> set past \<longrightarrow> summed cfg s0 (new_membership cfg ptr s0) s cl co)
     \<and> (\<forall>cl. Reduce cl \<in> set past \<longrightarrow> reduced cfg s0 (new_membership cfg ptr s0) s cl)"

lemma state_cong:
  "km_membership s' cl = km_membership s cl \<Longrightarrow> assigned cfg mem s' cl co = assigned cfg mem s cl co"
  "km_cnt s' cl co = km_cnt s cl co \<Longrightarrow> counted cfg mem s' cl co = counted cfg mem s cl co"
  "km_cen s' cl co = km_cen s cl co \<Longrightarrow> summed cfg s0 mem s' cl co = summed cfg s0 mem s cl co"
  "km_cnt s' cl 0 = km_cnt s cl 0 \<Longrightarrow> km_cen s' cl 0 = km_cen s cl 0 \<Longrightarrow> reduced cfg s0 mem s' cl = reduced cfg s0 mem s cl"
  by (simp_all add: assigned_def counted_def summed_def reduced_def)

lemma inv_assign:
  assumes k: "0 < km_k cfg" and inv: "km_inv cfg ptr s0 past s" and new: "Assign cl co \<notin> set past"
    and safe: "ptr = Final_centroids \<Longrightarrow> Update 0 0 \<notin> set past" and co: "co < km_cores cfg"
  shows "km_inv cfg ptr s0 (Assign cl co # past) (kmeans_assign cfg ptr cl co s)"
proof -
  define s' where "s' = kmeans_assign cfg ptr cl co s"
  let ?mem = "new_membership cfg ptr s0"
  have same: "km_samples s = km_samples s0" "km_local s = km_local s0" "Update 0 0 \<in> set past \<or> km_cen s 0 0 = km_cen s0 0 0"
    using inv by (simp_all add: km_inv_def)
  have init: "initial_centroids ptr d s = initial_centroids ptr d s0" for d using same safe by (cases ptr) simp_all
  have smp: "core_sample cfg s d i = core_sample cfg s0 d i" for d i by (simp add: core_sample_def same)
  note A = assign_at [OF k s'_def, unfolded init smp, folded new_membership_def]
  have nr: "Reduce cl \<notin> set past" "Update cl co \<notin> set past" using inv new co by (auto simp: km_inv_def km_order_def)
  have order: "km_order cfg (Assign cl co # past)" using inv by (auto simp: km_inv_def km_order_def)
  have a: "assigned cfg ?mem s' d o'" if "Assign d o' \<in> set (Assign cl co # past)" for d o'
  proof (cases "d = cl \<and> o' = co")
    case False
    then have "assigned cfg ?mem s d o'" using inv that by (auto simp: km_inv_def)
    then show ?thesis using False A(4) core_ranges [of _ cfg co o'] by (auto simp: assigned_def)
  qed (simp add: assigned_def A(4))
  have c: "counted cfg ?mem s' d o'" if "Assign d o' \<in> set (Assign cl co # past)" "o' \<noteq> 0 \<or> Reduce d \<notin> set past" for d o'
  proof (cases "d = cl \<and> o' = co")
    case False
    then have "counted cfg ?mem s d o'" using inv that by (auto simp: km_inv_def)
    then show ?thesis using state_cong(2) [OF A(6)] False by auto
  qed (simp add: counted_def A(5))
  have u: "summed cfg s0 ?mem s' d o'" if "Update d o' \<in> set past" "o' \<noteq> 0 \<or> Reduce d \<notin> set past" for d o'
  proof -
    have "summed cfg s0 ?mem s d o'" using inv that by (auto simp: km_inv_def)
    then show ?thesis by (simp add: summed_def A(3))
  qed
  have r: "reduced cfg s0 ?mem s' d" if "Reduce d \<in> set past" for d
  proof -
    have "d \<noteq> cl" using nr(1) that by auto
    then have "reduced cfg s0 ?mem s' d = reduced cfg s0 ?mem s d" using A(3) A(6) by (intro state_cong(4)) auto
    then show ?thesis using inv that by (simp add: km_inv_def)
  qed
  show ?thesis unfolding s'_def [symmetric] km_inv_def using order same A(1-3) a c u r by auto
qed

lemma inv_update:
  assumes nf: "0 < km_features cfg" and inv: "km_inv cfg ptr s0 past s" and new: "Update cl co \<notin> set past" "Assign cl co \<in> set past"
    and co: "co < km_cores cfg"
  shows "km_inv cfg ptr s0 (Update cl co # past) (kmeans_update cfg cl co s)"
proof -
  define s' where "s' = kmeans_update cfg cl co s"
  let ?mem = "new_membership cfg ptr s0"
  have same: "km_samples s = km_samples s0" "km_local s = km_local s0" "Update 0 0 \<in> set past \<or> km_cen s 0 0 = km_cen s0 0 0"
    using inv by (simp_all add: km_inv_def)
  have smp: "core_sample cfg s d = core_sample cfg s0 d" for d by (simp add: core_sample_def same fun_eq_iff)
  note A = update_at [OF nf s'_def, unfolded smp]
  have nr: "Reduce cl \<notin> set past" using inv new co by (auto simp: km_inv_def km_order_def)
  have order: "km_order cfg (Update cl co # past)" using inv new(2) by (auto simp: km_inv_def km_order_def)
  have mine: "assigned cfg ?mem s cl co" using inv new(2) by (simp add: km_inv_def)
  have u: "summed cfg s0 ?mem s' d o'" if "Update d o' \<in> set (Update cl co # past)" "o' \<noteq> 0 \<or> Reduce d \<notin> set past" for d o'
  proof (cases "d = cl \<and> o' = co")
    case True
    have "sums cfg (km_membership s cl) smp co e = sums cfg (?mem cl) smp co e" for e and smp :: "nat \<Rightarrow> nat \<Rightarrow> 'a fp"
      by (rule sums_cong) (use mine in \<open>simp add: assigned_def\<close>)
    then show ?thesis using True A(5) by (simp add: summed_def)
  next
    case False
    then have "summed cfg s0 ?mem s d o'" using inv that by (auto simp: km_inv_def)
    then show ?thesis using state_cong(3) [OF A(6)] False by auto
  qed
  have r: "reduced cfg s0 ?mem s' d" if "Reduce d \<in> set past" for d
  proof -
    have "d \<noteq> cl" using nr(1) that by auto
    then have "reduced cfg s0 ?mem s' d = reduced cfg s0 ?mem s d" using A(4) A(6) by (intro state_cong(4)) auto
    then show ?thesis using inv that by (simp add: km_inv_def)
  qed
  have keep: "Update 0 0 \<in> set (Update cl co # past) \<or> km_cen s' 0 0 = km_cen s0 0 0" using same(3) A(6) [of 0 0] by auto
  have a: "assigned cfg ?mem s' d o' = assigned cfg ?mem s d o'" "counted cfg ?mem s' d o' = counted cfg ?mem s d o'" for d o'
    using A(3,4) by (simp_all add: assigned_def counted_def)
  show ?thesis unfolding s'_def [symmetric] km_inv_def using order same A(1,2) u r keep inv by (auto simp: a km_inv_def)
qed

lemma inv_reduce:
  assumes inv: "km_inv cfg ptr s0 past s" and new: "Reduce cl \<notin> set past" and all: "\<forall>co < km_cores cfg. Update cl co \<in> set past" and cores: "0 < km_cores cfg"
  shows "km_inv cfg ptr s0 (Reduce cl # past) (kmeans_reduce cfg cl s)"
proof -
  define s' where "s' = kmeans_reduce cfg cl s"
  let ?mem = "new_membership cfg ptr s0"
  have m: "km_cores cfg = Suc (km_cores cfg - 1)" using cores by simp
  have "s' = for_upto 1 (Suc (km_cores cfg - 1)) (\<lambda>core_idx. kmeans_add cfg cl cl core_idx) s"
    unfolding s'_def kmeans_reduce_def using m by simp
  note A = reduce_upto [OF this, folded m]
  have same: "km_samples s = km_samples s0" "km_local s = km_local s0" "Update 0 0 \<in> set past \<or> km_cen s 0 0 = km_cen s0 0 0"
    using inv by (simp_all add: km_inv_def)
  have order: "km_order cfg (Reduce cl # past)" using inv all by (auto simp: km_inv_def km_order_def)
  have part: "counted cfg ?mem s cl co" "summed cfg s0 ?mem s cl co" if "co < km_cores cfg" for co
    using inv all that new by (auto simp: km_inv_def km_order_def)
  have r: "reduced cfg s0 ?mem s' d" if "Reduce d \<in> set (Reduce cl # past)" for d
  proof (cases "d = cl")
    case True
    have "km_cnt s' cl 0 c = (\<Sum>co < km_cores cfg. counts cfg (?mem cl) co c)" if "c < km_k cfg" for c
      using A that part(1) by (simp add: counted_def)
    moreover have "km_cen s' cl 0 e = (\<Sum>co < km_cores cfg. sums cfg (?mem cl) (core_sample cfg s0 cl) co e)" if "e < km_k cfg * km_features cfg" for e
      using A that part(2) by (simp add: summed_def)
    ultimately show ?thesis unfolding True reduced_def by blast
  next
    case False
    then have "reduced cfg s0 ?mem s' d = reduced cfg s0 ?mem s d" using A by (intro state_cong(4)) auto
    then show ?thesis using inv that False by (simp add: km_inv_def)
  qed
  have rest: "counted cfg ?mem s' d o' = counted cfg ?mem s d o'" "summed cfg s0 ?mem s' d o' = summed cfg s0 ?mem s d o'" if "o' \<noteq> 0 \<or> d \<noteq> cl" for d o'
    using A that by (auto simp: counted_def summed_def)
  have a: "assigned cfg ?mem s' d o' = assigned cfg ?mem s d o'" for d o' using A by (simp add: assigned_def)
  have c: "counted cfg ?mem s' d o'" if "Assign d o' \<in> set past" "o' \<noteq> 0 \<or> Reduce d \<notin> set (Reduce cl # past)" for d o'
    using inv that rest(1) [of o' d] by (auto simp: km_inv_def)
  have u: "summed cfg s0 ?mem s' d o'" if "Update d o' \<in> set past" "o' \<noteq> 0 \<or> Reduce d \<notin> set (Reduce cl # past)" for d o'
    using inv that rest(2) [of o' d] by (auto simp: km_inv_def)
  have keep: "Update 0 0 \<in> set past \<or> km_cen s' 0 0 = km_cen s0 0 0"
  proof (cases "cl = 0")
    case True
    then show ?thesis using all cores by simp
  next
    case False
    then show ?thesis using same(3) A by simp
  qed
  show ?thesis unfolding s'_def [symmetric] km_inv_def using order same A r c u keep inv by (auto simp: a km_inv_def)
qed

text \<open>
  Any order of the steps leaves the sums of every cluster as long as the cores read their cluster's copy of the centroids. When they
  read the partial centroids of core 0 of cluster 0, nothing keeps that core from starting its update before the others have
  assigned; an order is timely when it does not.
\<close>

definition all_assigned :: "kmeans_cfg \<Rightarrow> km_step list \<Rightarrow> bool" where
  "all_assigned cfg past \<longleftrightarrow> (\<forall>cl < km_clusters cfg. \<forall>co < km_cores cfg. Assign cl co \<in> set past)"

fun km_timely :: "kmeans_cfg \<Rightarrow> km_step list \<Rightarrow> km_step list \<Rightarrow> bool" where
  "km_timely cfg past [] \<longleftrightarrow> True"
| "km_timely cfg past (x # xs) \<longleftrightarrow> (x = Update 0 0 \<longrightarrow> all_assigned cfg past) \<and> km_timely cfg (x # past) xs"

text \<open>A single core is never ahead of another one.\<close>

lemma km_timely_one_core:
  "km_clusters cfg = 1 \<Longrightarrow> km_cores cfg = 1 \<Longrightarrow> km_sched cfg past xs \<Longrightarrow> km_timely cfg past xs"
  by (induction xs arbitrary: past) (auto simp: all_assigned_def)

lemma km_fold_inv:
  assumes cfg: "0 < km_k cfg" "0 < km_features cfg" "0 < km_cores cfg"
  shows "km_sched cfg past xs \<Longrightarrow> (ptr = Final_centroids \<Longrightarrow> km_timely cfg past xs) \<Longrightarrow> km_inv cfg ptr s0 past s
    \<Longrightarrow> (ptr = Final_centroids \<Longrightarrow> Update 0 0 \<in> set past \<Longrightarrow> all_assigned cfg past)
    \<Longrightarrow> \<forall>cl < km_clusters cfg. reduced cfg s0 (new_membership cfg ptr s0) (fold (km_run cfg ptr) xs s) cl"
proof (induction xs arbitrary: past s)
  case Nil
  then show ?case by (auto simp: km_inv_def)
next
  case (Cons x xs)
  have x: "x \<notin> set past" "km_next cfg past x" "km_sched cfg (x # past) xs" using Cons.prems(1) by simp_all
  have t: "x = Update 0 0 \<longrightarrow> all_assigned cfg past" "km_timely cfg (x # past) xs" if "ptr = Final_centroids"
    using Cons.prems(2) that by simp_all
  have "km_inv cfg ptr s0 (x # past) (km_run cfg ptr x s)"
  proof (cases x)
    case (Assign cl co)
    then have b: "cl < km_clusters cfg" "co < km_cores cfg" using x(2) by simp_all
    have "Update 0 0 \<notin> set past" if "ptr = Final_centroids" using Cons.prems(4) [OF that] b x(1) Assign by (auto simp: all_assigned_def)
    then show ?thesis unfolding Assign km_run.simps by (intro inv_assign [OF cfg(1) Cons.prems(3) _ _ b(2)]) (use x(1) Assign in simp_all)
  next
    case (Update cl co)
    then show ?thesis unfolding Update km_run.simps
      by (intro inv_update [OF cfg(2) Cons.prems(3)]) (use x(1,2) Update in simp_all)
  next
    case (Reduce cl)
    then show ?thesis unfolding Reduce km_run.simps
      by (intro inv_reduce [OF Cons.prems(3) _ _ cfg(3)]) (use x(1,2) Reduce in simp_all)
  qed
  moreover have "all_assigned cfg (x # past)" if "ptr = Final_centroids" "Update 0 0 \<in> set (x # past)"
    using that t(1) Cons.prems(4) by (cases x) (auto simp: all_assigned_def)
  ultimately show ?case using Cons.IH [OF x(3) t(2)] by simp
qed

lemma km_inv_start: "km_inv cfg ptr s [] s"
  by (simp add: km_inv_def km_order_def)

subsection \<open>Lloyd's algorithm\<close>

text \<open>
  The specification on all \<open>N\<close> samples: the new centroids are the means of the samples nearest to each of the old ones.
\<close>

definition lloyd_step :: "nat \<Rightarrow> nat \<Rightarrow> nat \<Rightarrow> (nat \<Rightarrow> 'a::linordered_field fp) \<Rightarrow> (nat \<Rightarrow> 'a fp) \<Rightarrow> (nat \<Rightarrow> 'a fp)" where
  "lloyd_step N nf k X C e =
     fdiv (\<Sum>i \<in> {i. i < N \<and> is_nearest k nf C (\<lambda>j. X (i * nf + j)) (e div nf)}. X (i * nf + e mod nf))
       (card {i. i < N \<and> is_nearest k nf C (\<lambda>j. X (i * nf + j)) (e div nf)})"

fun lloyd :: "nat \<Rightarrow> nat \<Rightarrow> nat \<Rightarrow> (nat \<Rightarrow> 'a::linordered_field fp) \<Rightarrow> nat \<Rightarrow> (nat \<Rightarrow> 'a fp) \<Rightarrow> (nat \<Rightarrow> 'a fp)" where
  "lloyd N nf k X 0 C = C"
| "lloyd N nf k X (Suc n) C = lloyd_step N nf k X (lloyd N nf k X n C)"

lemma is_nearest_cong:
  assumes "\<And>e. e < k * nf \<Longrightarrow> C e = C' e"
  shows "is_nearest k nf C p c = is_nearest k nf C' p c"
proof -
  have "distance nf C p c = distance nf C' p c" if "c < k" for c
  proof -
    have "c * nf + i < k * nf" if "i < nf" for i
    proof -
      have "Suc c * nf \<le> k * nf" using \<open>c < k\<close> by (intro mult_le_mono1) simp
      then show ?thesis using that by simp
    qed
    then show ?thesis unfolding distance_def by (intro sum.cong) (simp_all add: assms)
  qed
  then show ?thesis unfolding is_nearest_def by auto
qed

lemma lloyd_step_cong: "(\<And>e. e < k * nf \<Longrightarrow> C e = C' e) \<Longrightarrow> lloyd_step N nf k X C = lloyd_step N nf k X C'"
  using is_nearest_cong [of k nf C C'] by (simp add: lloyd_step_def fun_eq_iff)

lemma nearest_iff: "0 < km_k cfg \<Longrightarrow> nearest cfg C p = c \<longleftrightarrow> is_nearest (km_k cfg) (km_features cfg) C p c"
  using nearest_is [of cfg C p] is_nearest_unique [of "km_k cfg" "km_features cfg" C p] by auto

text \<open>The samples of all cores of all clusters are the samples.\<close>

lemma sum_nested: "(\<Sum>i < a * b. f i) = (\<Sum>x < a. \<Sum>y < b. f (x * b + y))"
  for f :: "nat \<Rightarrow> 'a::comm_monoid_add"
proof -
  have block: "sum f {p..<p + b} = (\<Sum>y < b. f (p + y))" for p
    using sum.atLeastLessThan_shift_0 [of f p "p + b"] by (simp add: atLeast0LessThan)
  have "(\<Sum>i < a * b. f i) = (\<Sum>x < a. sum f {x * b..<x * b + b})" by (rule sum.nat_group [symmetric])
  then show ?thesis by (simp only: block)
qed

text \<open>
  The samples of the cores, one cluster after the other, where no sample is left over.
\<close>

definition distributed :: "kmeans_cfg \<Rightarrow> (nat \<Rightarrow> 'a) \<Rightarrow> 'a kmeans_state \<Rightarrow> bool" where
  "distributed cfg X s \<longleftrightarrow> (\<forall>cl < km_clusters cfg. \<forall>i < km_cores cfg * km_spc cfg. \<forall>j < km_features cfg.
     km_samples s cl (i * km_features cfg + j) = X ((cl * (km_cores cfg * km_spc cfg) + i) * km_features cfg + j))"

lemma is_nearest_point: "(\<And>j. j < nf \<Longrightarrow> p j = q j) \<Longrightarrow> is_nearest k nf C p = is_nearest k nf C q"
  by (simp add: is_nearest_def distance_def fun_eq_iff)

lemma iteration_at:
  fixes s :: "'a::linordered_field fp kmeans_state"
  assumes cfg: "0 < km_k cfg" "0 < km_features cfg" "0 < km_cores cfg" "0 < km_clusters cfg"
    and sched: "km_sched cfg [] sched" and timely: "ptr = Final_centroids \<Longrightarrow> km_timely cfg [] sched" and X: "distributed cfg X s"
    and C: "\<And>cl. cl < km_clusters cfg \<Longrightarrow> \<forall>e < km_k cfg * km_features cfg. initial_centroids ptr cl s e = C e"
  shows "\<forall>e < km_k cfg * km_features cfg. km_cen (kmeans_iteration cfg ptr sched s) 0 0 e
      = lloyd_step (km_clusters cfg * (km_cores cfg * km_spc cfg)) (km_features cfg) (km_k cfg) X C e"
proof (intro allI impI)
  fix e assume e: "e < km_k cfg * km_features cfg"
  let ?nf = "km_features cfg" and ?m = "km_cores cfg" and ?n = "km_clusters cfg" and ?k = "km_k cfg" and ?q = "km_spc cfg"
  let ?mem = "new_membership cfg ptr s" and ?N = "?n * (?m * ?q)"
  define s1 where "s1 = fold (km_run cfg ptr) sched s"
  define s2 where "s2 = kmeans_reduce_clusters cfg s1"
  have "\<forall>cl < ?n. reduced cfg s ?mem s1 cl" unfolding s1_def
    by (rule km_fold_inv [OF cfg(1-3) sched timely km_inv_start]) simp_all
  then have red: "reduced cfg s ?mem s1 cl" if "cl < ?n" for cl using that by blast
  have n: "?n = Suc (?n - 1)" using cfg(4) by simp
  have "s2 = for_upto 1 (Suc (?n - 1)) (\<lambda>cluster_idx. kmeans_add cfg 0 cluster_idx 0) s1"
    unfolding s2_def kmeans_reduce_clusters_def using n by simp
  note R = reduce_clusters_upto [OF this, folded n]
  have ec: "e div ?nf < ?k" using e cfg(2) by (simp add: div_less_iff_less_mult)
  define near where "near i \<longleftrightarrow> is_nearest ?k ?nf C (\<lambda>j. X (i * ?nf + j)) (e div ?nf)" for i
  have pos: "co * ?q + t < ?m * ?q" if "co < ?m" "t < ?q" for co t
  proof -
    have "Suc co * ?q \<le> ?m * ?q" using that(1) by (intro mult_le_mono1) simp
    then show ?thesis using that(2) by simp
  qed
  have mem: "(?mem cl (co * ?q + t) = e div ?nf) = near (cl * (?m * ?q) + (co * ?q + t))" if "cl < ?n" "co < ?m" "t < ?q" for cl co t
  proof -
    have "\<And>j. j < ?nf \<Longrightarrow> core_sample cfg s cl (co * ?q + t) j = X ((cl * (?m * ?q) + (co * ?q + t)) * ?nf + j)"
      using X that(1) pos [OF that(2,3)] by (simp add: distributed_def core_sample_def)
    from is_nearest_point [OF this, where k = ?k] is_nearest_cong [of ?k ?nf "initial_centroids ptr cl s" C] C [OF that(1)]
    show ?thesis by (simp add: new_membership_def nearest_iff [OF cfg(1)] near_def)
  qed
  have "km_cnt s2 0 0 (e div ?nf) = (\<Sum>cl < ?n. \<Sum>co < ?m. counts cfg (?mem cl) co (e div ?nf))"
    using R ec red by (simp add: reduced_def)
  also have "\<dots> = (\<Sum>cl < ?n. \<Sum>co < ?m. \<Sum>t < ?q. if near (cl * (?m * ?q) + (co * ?q + t)) then 1 else 0)"
    by (intro sum.cong refl) (simp add: counts_def core_range_def sum.atLeastLessThan_shift_0 [of _ "_ * ?q"] atLeast0LessThan mem)
  also have "\<dots> = (\<Sum>i < ?N. if near i then 1 else 0)" by (simp only: sum_nested)
  also have "\<dots> = card {i. i < ?N \<and> near i}" by (simp add: sum.If_cases lessThan_def Collect_conj_eq)
  finally have cnt: "km_cnt s2 0 0 (e div ?nf) = card {i. i < ?N \<and> near i}" .
  have "km_cen s2 0 0 e = (\<Sum>cl < ?n. \<Sum>co < ?m. sums cfg (?mem cl) (core_sample cfg s cl) co e)"
    using R e red by (simp add: reduced_def)
  also have "\<dots> = (\<Sum>cl < ?n. \<Sum>co < ?m. \<Sum>t < ?q. (\<lambda>i. if near i then X (i * ?nf + e mod ?nf) else 0) (cl * (?m * ?q) + (co * ?q + t)))"
  proof (intro sum.cong refl)
    fix cl co assume c: "cl \<in> {..<?n}" "co \<in> {..<?m}"
    have "core_sample cfg s cl (co * ?q + t) (e mod ?nf) = X ((cl * (?m * ?q) + (co * ?q + t)) * ?nf + e mod ?nf)" if "t < ?q" for t
      using X c pos [of co t] that cfg(2) by (simp add: distributed_def core_sample_def)
    then have "(\<Sum>t < ?q. if near (cl * (?m * ?q) + (co * ?q + t)) then core_sample cfg s cl (co * ?q + t) (e mod ?nf) else 0)
        = (\<Sum>t < ?q. (\<lambda>i. if near i then X (i * ?nf + e mod ?nf) else 0) (cl * (?m * ?q) + (co * ?q + t)))"
      by (intro sum.cong refl) simp
    then show "sums cfg (?mem cl) (core_sample cfg s cl) co e = (\<Sum>t < ?q. (\<lambda>i. if near i then X (i * ?nf + e mod ?nf) else 0) (cl * (?m * ?q) + (co * ?q + t)))"
      using c by (simp add: sums_def core_range_def sum.atLeastLessThan_shift_0 [of _ "_ * ?q"] atLeast0LessThan mem)
  qed
  also have "\<dots> = (\<Sum>i < ?N. if near i then X (i * ?nf + e mod ?nf) else 0)" by (simp only: sum_nested)
  also have "\<dots> = (\<Sum>i \<in> {i. i < ?N \<and> near i}. X (i * ?nf + e mod ?nf))"
    by (simp add: sum.If_cases lessThan_def Collect_conj_eq)
  finally have cen: "km_cen s2 0 0 e = (\<Sum>i \<in> {i. i < ?N \<and> near i}. X (i * ?nf + e mod ?nf))" .
  have "km_cen (kmeans_normalize cfg s2) 0 0 e = fdiv (km_cen s2 0 0 e) (km_cnt s2 0 0 (e div ?nf))"
  proof -
    have "for_upto 0 ?k (\<lambda>c. for_upto 0 ?nf (\<lambda>f cen. let e = c * ?nf + f in cen(e := fdiv (cen e) (km_cnt s2 0 0 c)))) z
        = for_upto 0 ?k (\<lambda>c. for_upto 0 ?nf (\<lambda>f. (\<lambda>e cen. cen(e := fdiv (cen e) (km_cnt s2 0 0 (e div ?nf)))) (c * ?nf + f))) z" for z :: "nat \<Rightarrow> 'a fp"
      by (rule fun_cong [OF for_upto_cong], rule fun_cong [OF for_upto_cong]) (simp add: Let_def div_mod_position)
    also have "\<dots> z = for_upto 0 (?k * ?nf) (\<lambda>e cen. cen(e := fdiv (cen e) (km_cnt s2 0 0 (e div ?nf)))) z" for z :: "nat \<Rightarrow> 'a fp"
      by (rule elem_loop)
    finally have loop: "for_upto 0 ?k (\<lambda>c. for_upto 0 ?nf (\<lambda>f cen. let e = c * ?nf + f in cen(e := fdiv (cen e) (km_cnt s2 0 0 c)))) z
        = for_upto 0 (?k * ?nf) (\<lambda>e cen. cen(e := fdiv (cen e) (km_cnt s2 0 0 (e div ?nf)))) z" for z :: "nat \<Rightarrow> 'a fp" .
    show ?thesis using add_row [where p = 0 and w = "?k * ?nf" and g = "\<lambda>e y. fdiv y (km_cnt s2 0 0 (e div ?nf))" and x = e] e
      by (simp add: kmeans_normalize_def loop)
  qed
  then show "km_cen (kmeans_iteration cfg ptr sched s) 0 0 e = lloyd_step ?N ?nf ?k X C e"
    by (simp add: kmeans_iteration_def s1_def [symmetric] s2_def [symmetric] cnt cen lloyd_step_def near_def)
qed

subsection \<open>The job\<close>

lemma run_keeps: "km_samples (km_run cfg ptr x s) = km_samples s \<and> km_local (km_run cfg ptr x s) = km_local s"
  if "0 < km_k cfg" "0 < km_features cfg" "0 < km_cores cfg"
proof (cases x)
  case (Assign cl co)
  then show ?thesis by (simp add: assign_at(1,2) [OF that(1) refl])
next
  case (Update cl co)
  then show ?thesis by (simp add: update_at(1,2) [OF that(2) refl])
next
  case (Reduce cl)
  then show ?thesis using reduce_upto [of _ "km_cores cfg - 1" cfg cl s] that(3) by (simp add: kmeans_reduce_def)
qed

lemma iteration_keeps:
  fixes s :: "'a::linordered_field fp kmeans_state"
  assumes cfg: "0 < km_k cfg" "0 < km_features cfg" "0 < km_cores cfg" "0 < km_clusters cfg"
  shows "km_samples (kmeans_iteration cfg ptr sched s) = km_samples s \<and> km_local (kmeans_iteration cfg ptr sched s) = km_local s"
proof -
  have "km_samples (fold (km_run cfg ptr) sched s) = km_samples s \<and> km_local (fold (km_run cfg ptr) sched s) = km_local s"
  proof (induction sched arbitrary: s)
    case (Cons x sched)
    show ?case using Cons [of "km_run cfg ptr x s"] run_keeps [OF cfg(1-3), of ptr x s] by simp
  qed simp
  moreover have n: "km_clusters cfg = Suc (km_clusters cfg - 1)" using cfg(4) by simp
  have "km_samples (kmeans_reduce_clusters cfg t) = km_samples t \<and> km_local (kmeans_reduce_clusters cfg t) = km_local t" for t :: "'a fp kmeans_state"
    unfolding kmeans_reduce_clusters_def by (subst (1 2) n) (use reduce_clusters_upto [OF refl] in blast)
  ultimately show ?thesis by (simp only: kmeans_iteration_def kmeans_normalize_def set_simps)
qed

lemma iterations_at:
  fixes s :: "'a::linordered_field fp kmeans_state"
  assumes cfg: "0 < km_k cfg" "0 < km_features cfg" "0 < km_cores cfg" "0 < km_clusters cfg"
    and X: "distributed cfg X s" and C: "\<And>cl. cl < km_clusters cfg \<Longrightarrow> \<forall>e < km_k cfg * km_features cfg. km_local s cl e = C e"
  shows "(\<And>i. i < Suc n \<Longrightarrow> km_sched cfg [] (sched i)) \<Longrightarrow> (\<And>i. 0 < i \<Longrightarrow> i < Suc n \<Longrightarrow> km_timely cfg [] (sched i)) \<Longrightarrow>
    km_samples (kmeans_iterations cfg (Suc n) sched s) = km_samples s
    \<and> (\<forall>e < km_k cfg * km_features cfg. km_cen (kmeans_iterations cfg (Suc n) sched s) 0 0 e
        = lloyd (km_clusters cfg * (km_cores cfg * km_spc cfg)) (km_features cfg) (km_k cfg) X (Suc n) C e)"
proof (induction n)
  case 0
  have e: "kmeans_iterations cfg (Suc 0) sched s = kmeans_iteration cfg Local_centroids (sched 0) s" by (simp add: kmeans_iterations_def for_upto_Suc)
  have "km_sched cfg [] (sched 0)" using 0(1) [of 0] by simp
  from iteration_at [OF cfg this _ X, of Local_centroids C] C show ?case unfolding e by (simp add: iteration_keeps [OF cfg])
next
  case (Suc n)
  let ?t = "kmeans_iterations cfg (Suc n) sched s"
  let ?C = "lloyd (km_clusters cfg * (km_cores cfg * km_spc cfg)) (km_features cfg) (km_k cfg) X (Suc n) C"
  have IH: "km_samples ?t = km_samples s" "\<forall>e < km_k cfg * km_features cfg. km_cen ?t 0 0 e = ?C e" using Suc by auto
  have e: "kmeans_iterations cfg (Suc (Suc n)) sched s = kmeans_iteration cfg Final_centroids (sched (Suc n)) ?t" by (simp add: kmeans_iterations_def for_upto_Suc)
  have "km_sched cfg [] (sched (Suc n))" "km_timely cfg [] (sched (Suc n))" using Suc.prems by simp_all
  moreover have "distributed cfg X ?t" using X IH(1) by (simp add: distributed_def)
  ultimately have "\<forall>e < km_k cfg * km_features cfg. km_cen (kmeans_iteration cfg Final_centroids (sched (Suc n)) ?t) 0 0 e
      = lloyd_step (km_clusters cfg * (km_cores cfg * km_spc cfg)) (km_features cfg) (km_k cfg) X ?C e"
    by (intro iteration_at [OF cfg]) (use IH(2) in simp_all)
  then show ?case unfolding e by (simp add: iteration_keeps [OF cfg] IH(1))
qed

text \<open>Two samples and two centroids.\<close>

lemma all_less_2: "(\<forall>i < 2. P i) \<longleftrightarrow> P 0 \<and> P (1 :: nat)"
  by (auto simp: less_2_cases_iff)

lemma lloyd_two:
  fixes X C :: "nat \<Rightarrow> 'a::linordered_field fp"
  assumes "X 0 = Num a" and "X 1 = Num b" and "C 0 = Num c" and "C 1 = Num d"
    and "(a - c) * (a - c) \<le> (a - d) * (a - d)" and "(b - d) * (b - d) < (b - c) * (b - c)"
  shows "lloyd_step 2 1 2 X C 0 = X 0" and "lloyd_step 2 1 2 X C 1 = X 1"
proof -
  have "{i. i < 2 \<and> is_nearest 2 1 C (\<lambda>j. X (i * 1 + j)) (0 div 1)} = {0}"
    using assms by (auto simp: less_2_cases_iff is_nearest_def distance_def all_less_2)
  then show "lloyd_step 2 1 2 X C 0 = X 0" using assms(1) by (simp add: lloyd_step_def)
  have "{i. i < 2 \<and> is_nearest 2 1 C (\<lambda>j. X (i * 1 + j)) (1 div 1)} = {1}"
    using assms by (auto simp: less_2_cases_iff is_nearest_def distance_def all_less_2)
  then show "lloyd_step 2 1 2 X C 1 = X 1" using assms(2) by (simp add: lloyd_step_def)
qed

lemma lloyd_two_iter:
  fixes X C :: "nat \<Rightarrow> 'a::linordered_field fp"
  assumes "X 0 = Num a" and "X 1 = Num b" and "C 0 = Num c" and "C 1 = Num d"
    and "(a - c) * (a - c) \<le> (a - d) * (a - d)" and "(b - d) * (b - d) < (b - c) * (b - c)" and "a \<noteq> b"
  shows "lloyd 2 1 2 X 2 C 0 = X 0"
proof -
  note L = lloyd_two [OF assms(1-6)]
  have "lloyd_step 2 1 2 X (lloyd_step 2 1 2 X C) 0 = X 0"
    by (rule lloyd_two(1) [OF assms(1,2) L(1) [unfolded assms(1)] L(2) [unfolded assms(2)]])
      (use assms(7) in \<open>simp_all add: zero_less_mult_iff neq_iff\<close>)
  then show ?thesis by (simp add: numeral_2_eq_2)
qed

text \<open>On numbers a centroid becomes the mean of its samples, and no number when it has none.\<close>

lemma lloyd_step_means:
  assumes "X = (\<lambda>i. Num (x i))" and "S = {i. i < N \<and> is_nearest k nf C (\<lambda>j. X (i * nf + j)) (e div nf)}"
  shows "lloyd_step N nf k X C e = (if S = {} then Nan else Num ((\<Sum>i \<in> S. x (i * nf + e mod nf)) / of_nat (card S)))"
proof -
  have "finite S" by (simp add: assms(2))
  moreover have "lloyd_step N nf k X C e = fdiv (Num (\<Sum>i \<in> S. x (i * nf + e mod nf))) (card S)"
    unfolding lloyd_step_def assms(2) [symmetric] unfolding assms(1) by (simp add: sum_Num)
  ultimately show ?thesis by (simp add: card_gt_0_iff)
qed

text \<open>
  C39: The distributed k-means job is Lloyd's algorithm on exact arithmetic, with samples that the cores share without rest and a power
  of two of clusters, between which the barriers of the code work: the result is
  that of assigning every sample to the first of its nearest centroids and taking the means, where a centroid without samples becomes no number
  and is never nearest again. For a single iteration this holds for every order of the steps of the cores that the barriers allow. For
  more, it holds for the orders in which core 0 of cluster 0 does not, from the second iteration on, start its update before all cores have
  assigned; the code has no barrier to ensure that (see the next property), unless there is only one core.
\<close>

theorem kmeans_job_computes:
  fixes samples :: "nat \<Rightarrow> 'a::linordered_field fp" and K cluster_num core_num n_samples n_features n_clusters n_iter i :: nat
  defines "cfg \<equiv> kmeans_cfg_of cluster_num core_num n_samples n_features n_clusters"
  assumes "cluster_num = 2 ^ K" and "0 < core_num" and "0 < n_features" and "0 < n_clusters" and "cluster_num * core_num dvd n_samples" and "0 < n_iter"
    and "\<And>t. t < n_iter \<Longrightarrow> km_sched cfg [] (sched t)"
    and "\<And>t. 0 < t \<Longrightarrow> t < n_iter \<Longrightarrow> 1 < cluster_num * core_num \<Longrightarrow> km_timely cfg [] (sched t)"
  shows "kmeans_job cluster_num core_num n_samples n_features n_clusters n_iter samples centroids sched s i
    = (if i < n_clusters * n_features then lloyd n_samples n_features n_clusters samples n_iter centroids i else centroids i)"
proof -
  let ?cfg = "kmeans_cfg_of cluster_num core_num n_samples n_features n_clusters"
  have pos: "0 < cluster_num" using assms(2) by simp
  obtain n where n: "n_iter = Suc n" using assms(7) by (cases n_iter) auto
  obtain q where q: "n_samples = cluster_num * core_num * q" using assms(6) by blast
  have spc: "km_spc ?cfg = q" "n_samples div cluster_num = core_num * q" using pos assms(3) by (simp_all add: kmeans_cfg_of_def q mult.assoc)
  have cfg: "0 < km_k ?cfg" "0 < km_features ?cfg" "0 < km_cores ?cfg" "0 < km_clusters ?cfg" using pos assms(3-5) by (simp_all add: kmeans_cfg_of_def)
  have timely: "km_timely ?cfg [] (sched t)" if "0 < t" "t < n_iter" for t
  proof (cases "1 < cluster_num * core_num")
    case False
    moreover have "0 < cluster_num * core_num" using pos assms(3) by simp
    ultimately have "cluster_num * core_num = 1" by linarith
    then have "cluster_num = 1" "core_num = 1" by simp_all
    then show ?thesis using assms(8) [OF that(2)] by (intro km_timely_one_core) (simp_all add: cfg_def kmeans_cfg_of_def)
  qed (use assms(9) that in \<open>simp add: cfg_def\<close>)
  define size where "size = core_num * q * n_features"
  define s1 where "s1 = s\<lparr>km_samples := \<lambda>cl i. if i < size then samples (cl * size + i) else km_samples s cl i,
                km_local := \<lambda>cl i. if i < n_clusters * n_features * 8 then centroids i else km_local s cl i\<rparr>"
  have X: "distributed ?cfg samples s1"
    unfolding distributed_def
  proof (intro allI impI)
    fix cl i j assume b: "cl < km_clusters ?cfg" "i < km_cores ?cfg * km_spc ?cfg" "j < km_features ?cfg"
    have "Suc i * n_features \<le> core_num * q * n_features" using b(2) unfolding spc(1) by (intro mult_le_mono1) (simp add: kmeans_cfg_of_def)
    then have "i * n_features + j < size" using b(3) by (simp add: size_def kmeans_cfg_of_def)
    then show "km_samples s1 cl (i * km_features ?cfg + j) = samples ((cl * (km_cores ?cfg * km_spc ?cfg) + i) * km_features ?cfg + j)"
      unfolding spc(1) by (simp add: s1_def kmeans_cfg_of_def size_def algebra_simps)
  qed
  have C: "\<forall>e < km_k ?cfg * km_features ?cfg. km_local s1 cl e = centroids e" for cl by (simp add: s1_def kmeans_cfg_of_def)
  have "\<forall>e < km_k ?cfg * km_features ?cfg. km_cen (kmeans_iterations ?cfg (Suc n) sched s1) 0 0 e
      = lloyd (km_clusters ?cfg * (km_cores ?cfg * km_spc ?cfg)) (km_features ?cfg) (km_k ?cfg) samples (Suc n) centroids e"
    using iterations_at [OF cfg X C, of n sched] assms(8) timely n by (simp add: cfg_def)
  moreover have "km_clusters ?cfg * (km_cores ?cfg * km_spc ?cfg) = n_samples" unfolding spc(1) by (simp add: kmeans_cfg_of_def q)
  ultimately show ?thesis unfolding kmeans_job_def Let_def spc(2) size_def [symmetric] s1_def [symmetric] n
    by (simp add: kmeans_cfg_of_def)
qed

theorem kmeans_job_computes_witness:
  "kmeans_job 1 2 2 1 2 2 (\<lambda>i. if i = 0 then Num 10 else Num 20) (\<lambda>i. if i = 0 then Num 12 else Num 18)
     (\<lambda>_. [Assign 0 1, Assign 0 0, Update 0 0, Update 0 1, Reduce 0])
     \<lparr>km_samples = \<lambda>_ _. 0, km_local = \<lambda>_ _. 0, km_membership = \<lambda>_ _. 0, km_cnt = \<lambda>_ _ _. 0, km_cen = \<lambda>_ _ _. 0\<rparr> 0 = Num (10 :: 'a::linordered_field)"
  using kmeans_job_computes [where K = 0 and cluster_num = 1 and core_num = 2 and n_samples = 2 and n_features = 1 and n_clusters = 2 and n_iter = 2
      and sched = "\<lambda>_. [Assign 0 1, Assign 0 0, Update 0 0, Update 0 1, Reduce 0]" and i = 0
      and samples = "\<lambda>i. if i = 0 then Num 10 else Num (20 :: 'a)" and centroids = "\<lambda>i. if i = 0 then Num 12 else Num (18 :: 'a)"
      and s = "\<lparr>km_samples = \<lambda>_ _. 0, km_local = \<lambda>_ _. 0, km_membership = \<lambda>_ _. 0, km_cnt = \<lambda>_ _ _. 0, km_cen = \<lambda>_ _ _. 0\<rparr>"]
    lloyd_two_iter [where X = "\<lambda>i. if i = 0 then Num 10 else Num (20 :: 'a)" and C = "\<lambda>i. if i = 0 then Num 12 else Num (18 :: 'a)"
      and a = 10 and b = 20 and c = 12 and d = 18]
  by (simp add: kmeans_cfg_of_def all_less_2 all_assigned_def)

text \<open>The second iteration of one cluster with two cores, each with one sample, when core 0 is ahead.\<close>

lemma nearest_first:
  fixes C p :: "nat \<Rightarrow> 'a::linordered_field fp"
  assumes "km_k cfg = 2" and "km_features cfg = 1" and "p 0 = Num a" and "C 0 = Num c" and "C 1 = Num d" and "(a - c) * (a - c) \<le> (a - d) * (a - d)"
  shows "nearest cfg C p = 0"
  using assms by (simp add: nearest_iff is_nearest_def distance_def all_less_2)

lemma race_iteration:
  fixes t :: "'a::linordered_field fp kmeans_state"
  assumes cfg: "km_clusters cfg = 1" "km_cores cfg = 2" "km_spc cfg = 1" "km_k cfg = 2" "km_features cfg = 1"
    and t: "km_samples t 0 0 = Num 10" "km_samples t 0 1 = Num 20" "km_cen t 0 0 0 = Num 10" "km_cen t 0 0 1 = Num 20"
  shows "km_cen (kmeans_iteration cfg Final_centroids [Assign 0 0, Update 0 0, Assign 0 1, Update 0 1, Reduce 0] t) 0 0 0 = Num 15"
proof -
  have pos: "0 < km_k cfg" "0 < km_features cfg" using cfg by simp_all
  have range: "core_range cfg 0 = {0}" "core_range cfg (Suc 0) = {Suc 0}" using cfg(3) by (simp_all add: core_range_def)
  define t1 where "t1 = kmeans_assign cfg Final_centroids 0 0 t"
  define t2 where "t2 = kmeans_update cfg 0 0 t1"
  define t3 where "t3 = kmeans_assign cfg Final_centroids 0 1 t2"
  define t4 where "t4 = kmeans_update cfg 0 1 t3"
  define t5 where "t5 = kmeans_reduce cfg 0 t4"
  note A1 = assign_at [OF pos(1) t1_def] and A2 = update_at [OF pos(2) t2_def] and A3 = assign_at [OF pos(1) t3_def] and A4 = update_at [OF pos(2) t4_def]
  have n1: "nearest cfg (initial_centroids Final_centroids 0 t) (core_sample cfg t 0 0) = 0"
    by (rule nearest_first [OF cfg(4,5), where a = 10 and c = 10 and d = 20]) (use t in \<open>simp_all add: core_sample_def\<close>)
  have m1: "km_membership t1 0 0 = 0" "km_cnt t1 0 0 0 = 1" "km_samples t1 = km_samples t"
    using A1(1,4) A1(5) [of 0] n1 cfg(4) by (simp_all add: range counts_def)
  have c2: "km_cen t2 0 0 0 = Num 10" "km_cen t2 0 0 1 = Num 0" "km_cnt t2 0 0 0 = 1" "km_samples t2 = km_samples t"
    using A2(1,4) A2(5) [of 0] A2(5) [of 1] m1 t cfg(4,5) by (simp_all add: range sums_def core_sample_def zero_fp_def)
  have n3: "nearest cfg (initial_centroids Final_centroids 0 t2) (core_sample cfg t2 0 1) = 0"
    by (rule nearest_first [OF cfg(4,5), where a = 20 and c = 10 and d = 0]) (use t cfg(5) c2 in \<open>simp_all add: core_sample_def\<close>)
  have m3: "km_membership t3 0 1 = 0" "km_cnt t3 0 1 0 = 1" "km_samples t3 = km_samples t" "km_cnt t3 0 0 0 = 1" "km_cen t3 0 0 0 = Num 10"
    using A3(1,3,4) A3(5) [of 0] A3(6) [of 0 0] n3 cfg(4) c2 by (simp_all add: range counts_def)
  have c4: "km_cen t4 0 1 0 = Num 20" "km_cen t4 0 0 0 = Num 10" "km_cnt t4 0 0 0 = 1" "km_cnt t4 0 1 0 = 1"
    using A4(4) A4(5) [of 0] A4(6) [of 0 0] m3 t cfg(4,5) by (simp_all add: range sums_def core_sample_def)
  have "t5 = for_upto 1 (Suc 1) (\<lambda>core_idx. kmeans_add cfg 0 0 core_idx) t4" using cfg(2) by (simp add: t5_def kmeans_reduce_def numeral_2_eq_2)
  from reduce_upto [OF this] have c5: "km_cnt t5 0 0 0 = 2" "km_cen t5 0 0 0 = Num 30" using c4 cfg(4,5) by simp_all
  have "kmeans_iteration cfg Final_centroids [Assign 0 0, Update 0 0, Assign 0 1, Update 0 1, Reduce 0] t = kmeans_normalize cfg t5"
    using cfg(1) by (simp add: kmeans_iteration_def kmeans_reduce_clusters_def t1_def t2_def t3_def t4_def t5_def)
  then show ?thesis using c5 cfg(4,5) by (simp add: kmeans_normalize_def for_upto_def numeral_2_eq_2)
qed

text \<open>
  C40: Without a barrier between assignment and update the second iteration can go wrong: core 0 overwrites the centroids
  with its partial sums while core 1 still reads them, although the order of the steps is one that the barriers allow.
\<close>

theorem kmeans_race:
  fixes s :: "'a::linordered_field fp kmeans_state"
  defines "samples \<equiv> \<lambda>i. if i = 0 then Num 10 else Num (20 :: 'a)"
    and "first \<equiv> [Assign 0 0, Assign 0 1, Update 0 0, Update 0 1, Reduce 0]"
    and "second \<equiv> [Assign 0 0, Update 0 0, Assign 0 1, Update 0 1, Reduce 0]"
  shows "km_sched (kmeans_cfg_of 1 2 2 1 2) [] first \<and> km_sched (kmeans_cfg_of 1 2 2 1 2) [] second
    \<and> lloyd 2 1 2 samples 2 samples 0 = Num 10
    \<and> kmeans_job 1 2 2 1 2 2 samples samples (\<lambda>i. if i = 0 then first else second) s 0 = Num 15"
proof (intro conjI)
  let ?cfg = "kmeans_cfg_of 1 2 2 1 2"
  show sched: "km_sched ?cfg [] first" "km_sched ?cfg [] second"
    by (simp_all add: first_def second_def kmeans_cfg_of_def all_less_2)
  show "lloyd 2 1 2 samples 2 samples 0 = Num 10"
    using lloyd_two_iter [of samples 10 20 samples 10 20] by (simp add: samples_def)
  have cfg: "km_clusters ?cfg = 1" "km_cores ?cfg = 2" "km_spc ?cfg = 1" "km_k ?cfg = 2" "km_features ?cfg = 1" by (simp_all add: kmeans_cfg_of_def)
  define s1 where "s1 = s\<lparr>km_samples := \<lambda>cl i. if i < 2 then samples (cl * 2 + i) else km_samples s cl i,
                km_local := \<lambda>cl i. if i < 16 then samples i else km_local s cl i\<rparr>"
  define t where "t = kmeans_iteration ?cfg Local_centroids first s1"
  have X: "distributed ?cfg samples s1" unfolding distributed_def cfg s1_def by simp
  have "\<forall>e < km_k ?cfg * km_features ?cfg. km_cen t 0 0 e = lloyd_step (km_clusters ?cfg * (km_cores ?cfg * km_spc ?cfg)) (km_features ?cfg) (km_k ?cfg) samples samples e"
    unfolding t_def by (rule iteration_at [OF _ _ _ _ sched(1) _ X]) (simp_all add: cfg [simplified] s1_def)
  then have "km_cen t 0 0 0 = lloyd_step 2 1 2 samples samples 0" "km_cen t 0 0 1 = lloyd_step 2 1 2 samples samples 1" unfolding cfg by simp_all
  then have "km_cen t 0 0 0 = Num 10" "km_cen t 0 0 1 = Num 20" using lloyd_two [of samples 10 20 samples 10 20] by (simp_all add: samples_def)
  moreover have "km_samples t 0 0 = Num 10" "km_samples t 0 1 = Num 20"
  proof -
    have "km_samples t = km_samples s1" unfolding t_def by (rule conjunct1 [OF iteration_keeps]) (simp_all add: cfg [simplified])
    then show "km_samples t 0 0 = Num 10" "km_samples t 0 1 = Num 20" by (simp_all add: s1_def samples_def)
  qed
  ultimately have "km_cen (kmeans_iteration ?cfg Final_centroids second t) 0 0 0 = Num 15" unfolding second_def by (intro race_iteration cfg)
  moreover have "kmeans_iterations ?cfg 2 (\<lambda>i. if i = 0 then first else second) s1 = kmeans_iteration ?cfg Final_centroids second t"
    by (simp add: kmeans_iterations_def for_upto_def numeral_2_eq_2 t_def)
  ultimately show "kmeans_job 1 2 2 1 2 2 samples samples (\<lambda>i. if i = 0 then first else second) s 0 = Num 15"
    by (simp add: kmeans_job_def s1_def)
qed

end
