(* ===== verification/Spec2Isabelle.thy ===== *)
theory Spec2Isabelle
  imports Kmp Dm Npu_Runtime Start Bucket_Sort Xoshiro_Jump Dma Mutex Partial_Barrier Cluster_Barrier Reduction Ssr Gemm_Opt Axpy Gemv Dot Syrk Covariance Kmeans
begin

text \<open>
  A verification development of the software of the Snitch cluster: the bare-metal runtime
  (\<open>src/sw/runtime\<close>), the OpenMP runtime on top of it, the host driver and firmware of the NPU
  (\<open>src/sw/npu_driver\<close>, \<open>src/sw/npu_runtime\<close>) and kernels that run on the clusters
  (\<open>src/sw/kernels\<close>). All of it is C with inline assembly for RV32 cores with custom extensions;
  the hardware it talks to appears where the software relies on its meaning.

  \<^bold>\<open>The program.\<close> A system has groups of clusters; a cluster has compute cores, one data mover core
  (the last one), a banked L1 memory and a DMA engine. \<open>start.S\<close> and \<open>start.c\<close> bring every core to
  \<open>main\<close>. The runtime functions are header-only: team queries compute who a core is from
  constants and its hart id; allocators hand out L1 and L3 memory; interrupts and barriers
  synchronise cores and clusters; the DMA functions start transfers; reductions combine both. The
  OpenMP runtime implements the compiler's entry points (\<open>kmp.c\<close>) on an event unit (\<open>eu.h\<close>) and
  leaves memory transfers to a data mover task (\<open>dm.h\<close>). The kernels use the floating point unit
  through stream registers (\<open>ssr.h\<close>), whose address generators run autonomously, and hardware
  loops. The NPU host enqueues commands for the firmware, which drives matrix and vector cores
  through registers.

  \<^bold>\<open>How the code is translated.\<close> Machine integers are words of their width, so that every sum wraps
  as in C; C's signed division is \<open>sdiv32\<close>. A C structure is a record, an enumeration a
  datatype. Pure functions are functions; code that a core runs alone passes its state; code
  that several harts run at once is a step relation or step function per hart, with a program
  counter for each access of shared memory, and the theorems quantify over all interleavings.
  Traps, refused commands and waits that never end are the \<open>None\<close> or \<open>Inl\<close> results of option and
  sum types. Volatile stores and CSR accesses with no state in the model are lists of events
  (\<open>hw_event\<close>, \<open>npu_ev\<close>). Floating point values are elements of an arbitrary type with the
  operations the code applies to them; a law of arithmetic that a theorem needs (associative
  sums, an exact \<open>fmadd\<close>) is one of its hypotheses or its type class, never built into a kernel.

  \<^bold>\<open>The theories and what their lemmas show.\<close>

  \<^item> \<open>Snitch_Prelude\<close>: word types and arithmetic, blocks of memory, loops over index ranges, positions
    in row-major arrays. Every other theory rests on it.
  \<^item> \<open>Team\<close> (\<open>team.h\<close>, \<open>snitch_cluster_memory.h\<close> and the cluster configuration): the configuration record
    and every query; the core numbering is a bijection with the hart ids.
  \<^item> \<open>Riscv\<close> (\<open>riscv.h\<close>, \<open>cluster_interrupts.h\<close>, \<open>global_interrupts.h\<close>): hart events, CLINT registers.
  \<^item> \<open>Bump_Allocator\<close>: the contract of an allocator as a locale; a run of allocations returns disjoint
    blocks. Interpreted by \<open>Alloc\<close> (\<open>alloc.h\<close>), \<open>Alloc_V2\<close> (\<open>alloc_v2.h\<close>) and \<open>Npu_Driver\<close>.
  \<^item> \<open>Comm\<close> (\<open>sync_decls.h\<close>, \<open>sync.c\<close>): communicators and the collective words of the interconnect.
  \<^item> \<open>Dma_Engine\<close>, \<open>Dma\<close> (\<open>dma.h\<close>): the engine as the Xdma instructions show it, with any schedule of
    transfers in flight, and all functions over it: memset, tiles, multicast, waiting.
  \<^item> \<open>Mutex\<close>, \<open>Partial_Barrier\<close>, \<open>Sync\<close>, \<open>Cluster_Barrier\<close>, \<open>Reduction\<close> (\<open>sync.h\<close>): locks, barriers within
    and between clusters, wake-ups with and without multicast, reductions. Mutual exclusion, no hart ahead of a
    round, no deadlock, exact sums; two lock implementations share one locale. The barrier between clusters works for
    a power of two of them (and not for three), so what rests on it has that hypothesis. The reductions are
    interleaved steps too; the tree reduction has a race from four clusters on, so its property is about the
    orders in which no transfer overtakes an addition, and a lemma shows an order that is wrong.
  \<^item> \<open>Start\<close> (\<open>start.S\<close>, \<open>start.c\<close>, \<open>start.h\<close>): stacks, thread-local storage, the phases of start-up and
    exit, with the events of the reduction of the exit codes.
  \<^item> \<open>Eu\<close> (\<open>eu.h\<close>), \<open>Kmp\<close> (\<open>kmp.c\<close>, \<open>omp.c\<close>): the event unit as interleaved steps of workers and master;
    loop schedules, with the exact condition under which the static one is a partition, and the passing of
    arguments to parallel regions.
  \<^item> \<open>Ring_Queue\<close>: bounded queues in a ring of slots as a locale, interpreted by \<open>Dm\<close> (\<open>dm.h\<close>, tasks) and
    \<open>Npu_Driver\<close> (\<open>npu_mmio.h\<close>, \<open>npu_driver.c\<close>, \<open>host_main.c\<close>); \<open>Npu_Runtime\<close> (\<open>npu_runtime.c\<close>) consumes the latter.
  \<^item> \<open>Prng\<close>, \<open>Xoshiro_Jump\<close> (\<open>misc/prng\<close>): the generators; the jump equals \<open>2^64\<close> steps, by arithmetic in the
    ring of polynomials over two elements, carried out by the kernel on lists of bits.
  \<^item> \<open>Sort\<close>, \<open>Bucket_Sort\<close> (\<open>misc/sort\<close>): quicksort of a core, bucket sort of a cluster.
  \<^item> \<open>Ssr\<close> (\<open>ssr.h\<close>, \<open>snitch_ssr_addr_gen.sv\<close>): stream configuration and address generator; the generator
    emits the addresses of the affine loop nest. \<open>Fp_Stream\<close>: instructions over streams.
  \<^item> \<open>Gemm_Kernel\<close>, \<open>Gemm\<close>, \<open>Gemm_Loop\<close>, \<open>Gemm_Opt\<close> (\<open>blas/gemm\<close>): kernels, the tiled product over clusters and
    the proof that any interleaving computes the product, with a locale for what the driver
    expects of a kernel; interpreted by the naive and the optimised kernel.
  \<^item> \<open>Double_Buffer\<close>: the strided loop of a core, the moves of tiles, and the double-buffered loop of a job
    as a locale: any interleaving of the data mover and the compute cores in an iteration has the
    effect of the jobs one after the other. \<open>Tile_Job\<close>: the jobs that combine the rows of a matrix
    with each other, over a locale for their kernels.
  \<^item> \<open>Axpy\<close> (\<open>blas/axpy\<close>), \<open>Gemv\<close> (\<open>blas/gemv\<close>), \<open>Dot\<close> (\<open>blas/dot\<close>), \<open>Syrk\<close> (\<open>blas/syrk\<close>), \<open>Covariance\<close>
    (\<open>misc/covariance\<close>): the kernels on loops and on streams equal one function of the operands, and the
    jobs compute it on every element the tiles cover.
  \<^item> \<open>Kmeans\<close> (\<open>misc/kmeans\<close>): the steps of the cores in any order the barriers allow; one iteration is a
    step of Lloyd's algorithm in all of them, later ones when core 0 does not overtake the assignment, which the code does not
    ensure: an order that goes wrong is a property of its own. A mean of no samples is no number.

  \<^bold>\<open>Bounds and fuel.\<close> Polling loops take a schedule (what the engine does between two polls) and are
  \<open>None\<close> when it ends too early; the theorems give schedules that are long enough. Loops whose end
  depends on wrapping counters are \<open>partial_function\<close>s. Theorems about addresses assume that arrays
  lie inside the 32-bit address space. The address generator counts four nested loops of at most
  \<open>2^32\<close> iterations; a stream read past its end is \<open>None\<close>, and each theorem on a kernel shows that the
  result is \<open>Some\<close>.

  \<^bold>\<open>What is not modelled.\<close>
  \<^item> The single precision and mini-float kernels, the convolutions and the other layers of \<open>kernels/dnn\<close>,
    and the kernels scheduled for COPIFT and the stencils of \<open>saris\<close>: inline assembly over packed
    SIMD instructions or integer and floating point instructions overlapped by hand, whose meaning
    is that of hardware extensions with no definition in this code.
  \<^item> Rounding: every kernel is a function over an arbitrary type of numbers; where two kernels add in
    different orders, a theorem that compares them assumes that sums may be reordered.
  \<^item> Performance counters, \<open>mcycle\<close> markers, \<open>printf\<close> and the vendored libraries: no state the program reads.
  \<^item> Tests and test benches, the generators in \<open>util\<close>, and the hardware apart from the address generator
    of the stream registers and the instructions the software issues.
  \<^item> Timing, caches and bus contention; the order of memory operations is that of the steps of a hart,
    and a DMA transfer moves its data at one point between its start and its completion.
\<close>

end
